(* ===== verification/Prelude.thy ===== *)
theory Prelude
  imports Main "HOL-Library.Word" "HOL-Library.Signed_Division" "HOL-Library.Multiset"
begin

text \<open>
  The shared vocabulary of the development: names for the C integer types the components use,
  the reading of a NUL-terminated buffer, the intrusive lists of \<^verbatim>\<open>util/lists.h\<close> seen as HOL
  lists, and the generic lemmas about lists and truncating division on which several
  components rest.

  A C string is the list of its bytes before the terminating NUL. Reading the byte at
  the length of the list therefore yields the NUL itself; a read further out would be
  undefined behaviour in C, and every component that uses \<open>rd\<close> says why it cannot happen.
  \<^verbatim>\<open>int\<close> and \<^verbatim>\<open>long\<close> values whose overflow the code does not rely on are \<open>int\<close>; unsigned
  values that wrap are words or carry an explicit \<open>mod\<close>.
\<close>

unbundle bit_operations_syntax

section \<open>Types and proof collections\<close>

type_synonym uchar = "8 word"
type_synonym uint32 = "32 word"
type_synonym ulong = "64 word"

named_theorems tv_simps \<open>arithmetic reading of time values\<close>
named_theorems list_ops \<open>intrusive lists as HOL lists\<close>
named_theorems frag_simps \<open>cache fragments\<close>

text \<open>The value a 32-bit \<^verbatim>\<open>int\<close> keeps of a mathematical integer.\<close>

definition int32 :: "int \<Rightarrow> int" where
  "int32 x = (x + 2 ^ 31) mod 2 ^ 32 - 2 ^ 31"

lemma int32_id: "- (2 ^ 31) \<le> x \<Longrightarrow> x < 2 ^ 31 \<Longrightarrow> int32 x = x"
  by (simp add: int32_def)

section \<open>Reading C strings\<close>

definition NUL :: char where
  "NUL = CHR 0x00"

text \<open>The byte a pointer at offset \<open>i\<close> of a NUL-terminated buffer reads.\<close>

definition rd :: "string \<Rightarrow> nat \<Rightarrow> char" where
  "rd buf i = (if i < length buf then buf ! i else NUL)"

lemma rd_in [simp]: "i < length buf \<Longrightarrow> rd buf i = buf ! i"
  by (simp add: rd_def)

lemma rd_end [simp]: "length buf \<le> i \<Longrightarrow> rd buf i = NUL"
  by (simp add: rd_def)

text \<open>Reading at an offset is reading the rest of the buffer.\<close>

lemma rd_drop: "rd b (p + i) = rd (drop p b) i"
  by (auto simp: rd_def)

lemma rd_Cons [simp]:
  "rd (c # cs) 0 = c" "rd (c # cs) (Suc i) = rd cs i"
  "rd (c # cs) (numeral k) = rd cs (pred_numeral k)"
  by (auto simp: rd_def numeral_eq_Suc)

lemma drop_advance: "drop p b = xs @ r \<Longrightarrow> drop (p + length xs) b = r"
  by (metis add.commute append_eq_conv_conj drop_drop)

text \<open>\<^verbatim>\<open>isdigit\<close> of the C locale and the value of a decimal digit.\<close>

definition c_isdigit :: "char \<Rightarrow> bool" where
  "c_isdigit c \<longleftrightarrow> 48 \<le> (of_char c :: nat) \<and> (of_char c :: nat) \<le> 57"

definition digit_val :: "char \<Rightarrow> int" where
  "digit_val c = of_char c - 48"

lemma c_isdigit_NUL [simp]: "\<not> c_isdigit NUL"
  by (simp add: c_isdigit_def NUL_def)

lemma digit_val_bounds: "c_isdigit c \<Longrightarrow> 0 \<le> digit_val c \<and> digit_val c \<le> 9"
proof -
  assume d: "c_isdigit c"
  have "int (of_char c) = of_char c"
    by (rule of_nat_of_char)
  with d show ?thesis
    by (simp add: c_isdigit_def digit_val_def)
qed

text \<open>Printing a digit, for the specifications of parsers.\<close>

definition dig :: "nat \<Rightarrow> char" where
  "dig n = char_of (48 + n)"

lemma c_isdigit_dig [simp]: "n < 10 \<Longrightarrow> c_isdigit (dig n)"
  by (simp add: c_isdigit_def dig_def)

lemma digit_val_dig [simp]: "n < 10 \<Longrightarrow> digit_val (dig n) = int n"
proof -
  assume "n < 10"
  then have "(of_char (dig n) :: nat) = 48 + n"
    by (simp add: dig_def)
  then have "(of_char (dig n) :: int) = 48 + int n"
    by (metis of_nat_add of_nat_numeral of_nat_of_char)
  then show ?thesis
    by (simp add: digit_val_def)
qed

lemma c_isdigit_not_sep [simp]:
  "c_isdigit c \<Longrightarrow> c \<noteq> CHR '' ''" "c_isdigit c \<Longrightarrow> c \<noteq> CHR ''-''" "c_isdigit c \<Longrightarrow> c \<noteq> NUL"
  by (auto simp: c_isdigit_def NUL_def)

section \<open>Intrusive lists\<close>

text \<open>
  The doubly linked lists of \<^verbatim>\<open>util/lists.h\<close> are circular with a sentinel head, so the elements
  reached by \<^verbatim>\<open>foreach\<close> form a HOL list. The macros become list functions: \<^verbatim>\<open>add_to_list\<close> is
  \<open>(#)\<close>, \<^verbatim>\<open>add_to_list_end\<close> appends, \<^verbatim>\<open>del_from_list\<close> removes the element at a position, and
  \<^verbatim>\<open>move_to_top_of_list\<close> is the following.
\<close>

definition del_nth :: "'a list \<Rightarrow> nat \<Rightarrow> 'a list" where
  "del_nth xs i = take i xs @ drop (Suc i) xs"

definition move_to_top_of_list :: "'a list \<Rightarrow> nat \<Rightarrow> 'a list" where
  "move_to_top_of_list xs i = (if i = 0 then xs else xs ! i # del_nth xs i)"

text \<open>The position of the first element a \<^verbatim>\<open>foreach\<close> loop stops at.\<close>

fun find_index :: "('a \<Rightarrow> bool) \<Rightarrow> 'a list \<Rightarrow> nat option" where
  "find_index P [] = None"
| "find_index P (x # xs) = (if P x then Some 0 else map_option Suc (find_index P xs))"

lemma find_index_None [list_ops]: "find_index P xs = None \<longleftrightarrow> (\<forall>x\<in>set xs. \<not> P x)"
  by (induction xs) auto

lemma find_index_Some:
  "find_index P xs = Some i \<Longrightarrow> i < length xs \<and> P (xs ! i) \<and> (\<forall>j<i. \<not> P (xs ! j))"
proof (induction xs arbitrary: i)
  case Nil
  then show ?case by simp
next
  case (Cons x xs)
  show ?case
  proof (cases "P x")
    case True
    with Cons.prems show ?thesis by auto
  next
    case False
    with Cons.prems obtain k where k: "find_index P xs = Some k" "i = Suc k"
      by auto
    from Cons.IH [OF k(1)] k(2) False show ?thesis
      by (auto simp: less_Suc_eq_0_disj)
  qed
qed

lemma mset_del_nth: "i < length xs \<Longrightarrow> add_mset (xs ! i) (mset (del_nth xs i)) = mset xs"
proof -
  assume i: "i < length xs"
  have "mset xs = mset (take i xs @ xs ! i # drop (Suc i) xs)"
    using i by (simp add: id_take_nth_drop [symmetric])
  then show ?thesis
    by (simp add: del_nth_def)
qed

lemma set_del_nth_subset: "set (del_nth xs i) \<subseteq> set xs"
  by (auto simp: del_nth_def dest: in_set_takeD in_set_dropD)

lemma mset_move_to_top [list_ops]:
  "i < length xs \<Longrightarrow> mset (move_to_top_of_list xs i) = mset xs"
  by (simp add: move_to_top_of_list_def mset_del_nth)

lemma set_move_to_top [list_ops]:
  "i < length xs \<Longrightarrow> set (move_to_top_of_list xs i) = set xs"
  by (rule mset_eq_setD) (rule mset_move_to_top)

lemma length_del_nth [simp]: "i < length xs \<Longrightarrow> length (del_nth xs i) = length xs - 1"
  by (simp add: del_nth_def)

end
