(* ===== verification/Timeval.thy ===== *)
theory Timeval
  imports Prelude
begin

text \<open>
  \<^verbatim>\<open>elinks/src/util/time.c\<close>: time values of seconds and microseconds. The lemmas read a time
  value as a number of microseconds (\<open>tv_us\<close>) and show that each operation computes the
  intended sum, difference or comparison on that number, keeping the microseconds normalised.
\<close>

section \<open>The data type\<close>

record timeval_T =
  sec :: int
  usec :: int

text \<open>The reading of a time value in microseconds, and when it is normalised.\<close>

definition tv_us :: "timeval_T \<Rightarrow> int" where
  "tv_us t = sec t * 1000000 + usec t"

definition tv_norm :: "timeval_T \<Rightarrow> bool" where
  "tv_norm t \<longleftrightarrow> 0 \<le> usec t \<and> usec t < 1000000"

definition LONG_MAX :: int where
  "LONG_MAX = 2 ^ 63 - 1"

definition INT_MAX :: int where
  "INT_MAX = 2 ^ 31 - 1"

section \<open>Operations\<close>

text \<open>The loops \<^verbatim>\<open>while (usec < 0)\<close> and \<^verbatim>\<open>while (usec >= 1000000)\<close>.\<close>

function borrow_usec :: "timeval_T \<Rightarrow> timeval_T" where
  "borrow_usec t = (if usec t < 0 then borrow_usec \<lparr>sec = sec t - 1, usec = usec t + 1000000\<rparr> else t)"
  by pat_completeness auto
termination
  by (relation "measure (\<lambda>t. nat (- usec t))") auto

function carry_usec :: "timeval_T \<Rightarrow> timeval_T" where
  "carry_usec t = (if usec t \<ge> 1000000 then carry_usec \<lparr>sec = sec t + 1, usec = usec t - 1000000\<rparr> else t)"
  by pat_completeness auto
termination
  by (relation "measure (\<lambda>t. nat (usec t))") auto

declare borrow_usec.simps [simp del] carry_usec.simps [simp del]

definition timeval_sub_interval :: "timeval_T \<Rightarrow> timeval_T \<Rightarrow> timeval_T" where
  "timeval_sub_interval t interval =
     (let s = sec t - sec interval
      in if s < 0 then \<lparr>sec = 0, usec = 0\<rparr>
         else let t' = borrow_usec \<lparr>sec = s, usec = usec t - usec interval\<rparr>
              in if sec t' < 0 then \<lparr>sec = 0, usec = 0\<rparr> else t')"

definition timeval_sub :: "timeval_T \<Rightarrow> timeval_T \<Rightarrow> timeval_T" where
  "timeval_sub older newer =
     borrow_usec \<lparr>sec = sec newer - sec older, usec = usec newer - usec older\<rparr>"

definition timeval_add :: "timeval_T \<Rightarrow> timeval_T \<Rightarrow> timeval_T" where
  "timeval_add base t = carry_usec \<lparr>sec = sec base + sec t, usec = usec base + usec t\<rparr>"

definition timeval_add_interval :: "timeval_T \<Rightarrow> timeval_T \<Rightarrow> timeval_T" where
  "timeval_add_interval t interval =
     carry_usec \<lparr>sec = sec t + sec interval, usec = usec t + usec interval\<rparr>"

definition timeval_from_milliseconds :: "int \<Rightarrow> timeval_T" where
  "timeval_from_milliseconds ms = \<lparr>sec = ms sdiv 1000, usec = (ms smod 1000) * 1000\<rparr>"

definition timeval_from_seconds :: "int \<Rightarrow> timeval_T" where
  "timeval_from_seconds seconds = \<lparr>sec = seconds, usec = 0\<rparr>"

definition sec_to_ms :: "int \<Rightarrow> int" where
  "sec_to_ms s =
     (if \<not> (s \<ge> 0 \<and> s < LONG_MAX sdiv 1000) then LONG_MAX sdiv 1000 else s * 1000)"

definition add_ms_to_ms :: "int \<Rightarrow> int \<Rightarrow> int" where
  "add_ms_to_ms la lb =
     (if \<not> (la \<ge> 0 \<and> lb \<ge> 0 \<and> lb < LONG_MAX - la) then LONG_MAX sdiv 1000 else la + lb)"

text \<open>\<^verbatim>\<open>mult_ms\<close> evaluates \<^verbatim>\<open>LONG_MAX / lb\<close> in its assertion; a zero divisor traps, which is \<open>None\<close>.
  The conjunction is evaluated from the left, so the division happens only for
  non-negative \<open>la\<close> and \<open>lb\<close>.\<close>

definition mult_ms :: "int \<Rightarrow> int \<Rightarrow> int option" where
  "mult_ms la lb =
     (if la \<ge> 0 \<and> lb \<ge> 0 then
        if lb = 0 then None
        else if la < LONG_MAX sdiv lb then Some (la * lb) else Some (LONG_MAX sdiv 1000)
      else Some (LONG_MAX sdiv 1000))"

definition timeval_to_milliseconds :: "timeval_T \<Rightarrow> int" where
  "timeval_to_milliseconds t = add_ms_to_ms (sec_to_ms (sec t)) (usec t sdiv 1000)"

definition timeval_to_seconds :: "timeval_T \<Rightarrow> int" where
  "timeval_to_seconds t = sec t + usec t sdiv 1000000"

definition timeval_is_positive :: "timeval_T \<Rightarrow> bool" where
  "timeval_is_positive t \<longleftrightarrow> sec t > 0 \<or> (sec t = 0 \<and> usec t > 0)"

definition timeval_limit_to_zero :: "timeval_T \<Rightarrow> timeval_T" where
  "timeval_limit_to_zero t =
     \<lparr>sec = (if sec t < 0 then 0 else sec t), usec = (if usec t < 0 then 0 else usec t)\<rparr>"

definition timeval_cmp :: "timeval_T \<Rightarrow> timeval_T \<Rightarrow> int" where
  "timeval_cmp t1 t2 =
     (if sec t1 > sec t2 then 1 else if sec t1 < sec t2 then -1 else usec t1 - usec t2)"

definition timeval_div_off_t :: "int \<Rightarrow> timeval_T \<Rightarrow> int" where
  "timeval_div_off_t n t =
     (let ln = 1000 * n; lsec = 1000 * sec t; lusec = usec t sdiv 1000
      in if lsec + lusec \<noteq> 0 then ln sdiv (lsec + lusec) else INT_MAX)"

section \<open>Time values as numbers\<close>

lemma borrow_usec_us [tv_simps]: "tv_us (borrow_usec t) = tv_us t"
proof (induction t rule: borrow_usec.induct)
  case (1 t)
  then show ?case
    by (cases "usec t < 0") (simp_all add: borrow_usec.simps [of t] tv_us_def)
qed

lemma borrow_usec_nonneg: "0 \<le> usec (borrow_usec t)"
proof (induction t rule: borrow_usec.induct)
  case (1 t)
  then show ?case
    by (cases "usec t < 0") (simp_all add: borrow_usec.simps [of t])
qed

lemma borrow_usec_bound: "usec t < 1000000 \<Longrightarrow> usec (borrow_usec t) < 1000000"
proof (induction t rule: borrow_usec.induct)
  case (1 t)
  then show ?case
    by (cases "usec t < 0") (simp_all add: borrow_usec.simps [of t])
qed

lemma borrow_usec_norm: "usec t < 1000000 \<Longrightarrow> tv_norm (borrow_usec t)"
  by (simp add: tv_norm_def borrow_usec_nonneg borrow_usec_bound)

lemma carry_usec_us [tv_simps]: "tv_us (carry_usec t) = tv_us t"
proof (induction t rule: carry_usec.induct)
  case (1 t)
  then show ?case
    by (cases "usec t \<ge> 1000000") (simp_all add: carry_usec.simps [of t] tv_us_def)
qed

lemma carry_usec_norm: "0 \<le> usec t \<Longrightarrow> tv_norm (carry_usec t)"
proof (induction t rule: carry_usec.induct)
  case (1 t)
  then show ?case
    by (cases "usec t \<ge> 1000000") (simp_all add: carry_usec.simps [of t] tv_norm_def)
qed

lemma tv_zero [simp]: "tv_us \<lparr>sec = 0, usec = 0\<rparr> = 0" "tv_norm \<lparr>sec = 0, usec = 0\<rparr>"
  by (simp_all add: tv_us_def tv_norm_def)

text \<open>A normalised value is negative exactly when its seconds are.\<close>

lemma tv_norm_sec_neg: "tv_norm t \<Longrightarrow> sec t < 0 \<longleftrightarrow> tv_us t < 0"
  by (auto simp: tv_norm_def tv_us_def)

lemma timeval_sub_us [tv_simps]: "tv_us (timeval_sub older newer) = tv_us newer - tv_us older"
  by (simp add: timeval_sub_def tv_simps) (simp add: tv_us_def algebra_simps)

lemma timeval_sub_norm: "tv_norm older \<Longrightarrow> tv_norm newer \<Longrightarrow> tv_norm (timeval_sub older newer)"
  unfolding timeval_sub_def by (rule borrow_usec_norm) (simp add: tv_norm_def)

lemma timeval_add_us [tv_simps]: "tv_us (timeval_add a b) = tv_us a + tv_us b"
  by (simp add: timeval_add_def tv_simps) (simp add: tv_us_def algebra_simps)

lemma timeval_add_norm: "tv_norm a \<Longrightarrow> tv_norm b \<Longrightarrow> tv_norm (timeval_add a b)"
  unfolding timeval_add_def by (rule carry_usec_norm) (simp add: tv_norm_def)

lemma timeval_add_interval_eq: "timeval_add_interval t i = timeval_add t i"
  by (simp add: timeval_add_interval_def timeval_add_def)

lemma timeval_sub_interval_norm:
  assumes "tv_norm t" "tv_norm i"
  shows "tv_norm (timeval_sub_interval t i)"
proof -
  have "tv_norm (borrow_usec \<lparr>sec = sec t - sec i, usec = usec t - usec i\<rparr>)"
    using assms by (intro borrow_usec_norm) (simp add: tv_norm_def)
  then show ?thesis
    by (simp add: timeval_sub_interval_def Let_def)
qed

text \<open>The saturating subtraction: never negative, exact otherwise.\<close>

lemma timeval_sub_interval_us:
  assumes "tv_norm t" "tv_norm i"
  shows "tv_us (timeval_sub_interval t i) = max 0 (tv_us t - tv_us i)"
proof -
  let ?d = "\<lparr>sec = sec t - sec i, usec = usec t - usec i\<rparr>"
  have us: "tv_us (borrow_usec ?d) = tv_us t - tv_us i"
    by (simp add: tv_simps) (simp add: tv_us_def algebra_simps)
  have n: "tv_norm (borrow_usec ?d)"
    using assms by (intro borrow_usec_norm) (simp add: tv_norm_def)
  have early: "sec t - sec i < 0 \<Longrightarrow> tv_us t - tv_us i < 0"
    using assms by (auto simp: tv_norm_def tv_us_def)
  show ?thesis
    using us n early tv_norm_sec_neg [OF n]
    by (auto simp: timeval_sub_interval_def Let_def)
qed

text \<open>On normalised values the comparison orders by microseconds.\<close>

lemma timeval_cmp_us:
  assumes "tv_norm a" "tv_norm b"
  shows "timeval_cmp a b > 0 \<longleftrightarrow> tv_us a > tv_us b"
    and "timeval_cmp a b < 0 \<longleftrightarrow> tv_us a < tv_us b"
    and "timeval_cmp a b = 0 \<longleftrightarrow> tv_us a = tv_us b"
  using assms by (auto simp: timeval_cmp_def tv_norm_def tv_us_def)

lemma timeval_cmp_ge [tv_simps]:
  "tv_norm a \<Longrightarrow> tv_norm b \<Longrightarrow> timeval_cmp a b \<ge> 0 \<longleftrightarrow> tv_us a \<ge> tv_us b"
  using timeval_cmp_us(2) [of a b] by auto

lemma timeval_is_positive_us [tv_simps]:
  "tv_norm t \<Longrightarrow> timeval_is_positive t \<longleftrightarrow> tv_us t > 0"
  by (auto simp: timeval_is_positive_def tv_norm_def tv_us_def)

lemma timeval_from_milliseconds_us [tv_simps]:
  "tv_us (timeval_from_milliseconds ms) = ms * 1000"
proof -
  have "1000 * (ms sdiv 1000) + ms smod 1000 = ms"
    by (rule mult_sdiv_smod_eq)
  then show ?thesis
    by (simp add: timeval_from_milliseconds_def tv_us_def)
qed

lemma timeval_from_milliseconds_norm: "0 \<le> ms \<Longrightarrow> tv_norm (timeval_from_milliseconds ms)"
proof -
  assume "0 \<le> ms"
  then have "ms smod 1000 = ms mod 1000"
    by (simp add: signed_modulo_int_def signed_divide_int_def sgn_if minus_mult_div_eq_mod [symmetric] ac_simps)
  then show ?thesis
    by (simp add: timeval_from_milliseconds_def tv_norm_def)
qed

lemma timeval_from_seconds_us [tv_simps]: "tv_us (timeval_from_seconds s) = s * 1000000"
  by (simp add: timeval_from_seconds_def tv_us_def)

end
