(* ===== verification/Timers.thy ===== *)
theory Timers
  imports Timeval
begin

text \<open>
  \<^verbatim>\<open>elinks/src/main/timer.c\<close>: the queue of timers, kept sorted by remaining interval. A timer
  is identified by its address. The callbacks a firing timer runs, and the bottom halves run
  after it, may install and kill timers; a callback is therefore a function from the
  fired timer and the queue to the sequence of timer operations it performs.
\<close>

section \<open>State\<close>

record timer =
  addr :: nat
  interval :: timeval_T
  func :: nat
  data :: nat

text \<open>\<^verbatim>\<open>timers\<close> is the queue; the reading of its intervals in microseconds.\<close>

definition intervals :: "timer list \<Rightarrow> int list" where
  "intervals ts = map (\<lambda>t. tv_us (interval t)) ts"

definition timers_inv :: "timer list \<Rightarrow> bool" where
  "timers_inv ts \<longleftrightarrow> sorted (intervals ts) \<and> (\<forall>t\<in>set ts. tv_norm (interval t))"

section \<open>Operations\<close>

definition get_timers_count :: "timer list \<Rightarrow> nat" where
  "get_timers_count ts = length ts"

text \<open>The loop of \<^verbatim>\<open>install_timer\<close> stops at the first timer that is not smaller than the new one;
  \<^verbatim>\<open>add_at_pos(timer->prev, new_timer)\<close> inserts before it, or at the end.\<close>

fun insert_timer :: "timer \<Rightarrow> timer list \<Rightarrow> timer list" where
  "insert_timer n [] = [n]"
| "insert_timer n (t # ts) =
     (if timeval_cmp (interval t) (interval n) \<ge> 0 then n # t # ts else t # insert_timer n ts)"

text \<open>\<open>alloc\<close> is the address \<^verbatim>\<open>mem_alloc\<close> returned, \<open>None\<close> for NULL. The first component of the
  result is the identifier stored through \<^verbatim>\<open>id\<close>.\<close>

definition install_timer ::
  "nat option \<Rightarrow> int \<Rightarrow> nat \<Rightarrow> nat \<Rightarrow> timer list \<Rightarrow> nat option \<times> timer list" where
  "install_timer alloc delay f d ts =
     (case alloc of
        None \<Rightarrow> (None, ts)
      | Some a \<Rightarrow>
          (Some a, insert_timer \<lparr>addr = a, interval = timeval_from_milliseconds delay, func = f, data = d\<rparr> ts))"

text \<open>\<^verbatim>\<open>kill_timer\<close> unlinks the timer at the given address and resets the identifier.\<close>

definition kill_timer :: "nat option \<Rightarrow> timer list \<Rightarrow> nat option \<times> timer list" where
  "kill_timer i ts =
     (case i of None \<Rightarrow> (None, ts) | Some a \<Rightarrow> (None, filter (\<lambda>t. addr t \<noteq> a) ts))"

definition get_next_timer_time :: "timer list \<Rightarrow> timeval_T option" where
  "get_next_timer_time ts = (case ts of [] \<Rightarrow> None | t # _ \<Rightarrow> Some (interval t))"

text \<open>What callbacks and bottom halves may do to the queue.\<close>

datatype timer_op = Install "nat option" int nat nat | Kill "nat option"

fun run_op :: "timer list \<Rightarrow> timer_op \<Rightarrow> timer list" where
  "run_op ts (Install alloc delay f d) = snd (install_timer alloc delay f d ts)"
| "run_op ts (Kill i) = snd (kill_timer i ts)"

definition run_ops :: "timer list \<Rightarrow> timer_op list \<Rightarrow> timer list" where
  "run_ops ts ops = foldl run_op ts ops"

type_synonym callbacks = "timer \<Rightarrow> timer list \<Rightarrow> timer_op list"

text \<open>The \<^verbatim>\<open>while\<close> loop of \<^verbatim>\<open>check_timers\<close>. It returns the queue left and the timers fired, in
  order; \<open>None\<close> is a loop that never ends.\<close>

partial_function (option) fire_timers ::
  "callbacks \<Rightarrow> timer list \<Rightarrow> timer list \<Rightarrow> (timer list \<times> timer list) option" where
  "fire_timers cb ts fired =
     (case ts of
        [] \<Rightarrow> Some ([], fired)
      | t # rest \<Rightarrow>
          if timeval_is_positive (interval t) then Some (t # rest, fired)
          else fire_timers cb (run_ops rest (cb t rest)) (fired @ [t]))"

definition age_timers :: "timeval_T \<Rightarrow> timer list \<Rightarrow> timer list" where
  "age_timers i ts = map (\<lambda>t. t\<lparr>interval := timeval_sub_interval (interval t) i\<rparr>) ts"

text \<open>\<open>now\<close> is what \<^verbatim>\<open>timeval_now\<close> read. The result is the queue, the fired timers and the new
  \<^verbatim>\<open>last_time\<close>.\<close>

definition check_timers ::
  "callbacks \<Rightarrow> timeval_T \<Rightarrow> timeval_T \<Rightarrow> timer list \<Rightarrow> (timer list \<times> timer list \<times> timeval_T) option" where
  "check_timers cb now last_time ts =
     (case fire_timers cb (age_timers (timeval_sub last_time now) ts) [] of
        None \<Rightarrow> None
      | Some (ts', fired) \<Rightarrow> Some (ts', fired, now))"

section \<open>The queue as an interface\<close>

text \<open>
  Clients of the queue rely on one contract: an operation keeps the invariant and adds no
  timer that is already due. The firing loop ends whenever the callbacks
  keep the contract; it is proved once, for any such effect on the queue.
\<close>

definition due :: "timer \<Rightarrow> bool" where
  "due t \<longleftrightarrow> \<not> timeval_is_positive (interval t)"

locale timer_effect =
  fixes effect :: "timer \<Rightarrow> timer list \<Rightarrow> timer list"
    and queue_inv :: "timer list \<Rightarrow> bool"
  assumes inv_tail: "queue_inv (t # ts) \<Longrightarrow> queue_inv ts"
    and inv_effect: "queue_inv ts \<Longrightarrow> queue_inv (effect t ts)"
    and due_effect: "length (filter due (effect t ts)) \<le> length (filter due ts)"
begin

lemma due_decreases:
  "due t \<Longrightarrow> length (filter due (effect t ts)) < length (filter due (t # ts))"
  using due_effect [of t ts] by simp

lemma inv_step: "queue_inv (t # ts) \<Longrightarrow> queue_inv (effect t ts)"
  by (intro inv_effect) (rule inv_tail)

end

lemma insert_timer_mset: "mset (insert_timer n ts) = add_mset n (mset ts)"
  by (induction ts) auto

lemma insert_timer_set: "set (insert_timer n ts) = insert n (set ts)"
  by (induction ts) auto

lemma insert_timer_inv:
  "timers_inv ts \<Longrightarrow> tv_norm (interval n) \<Longrightarrow> timers_inv (insert_timer n ts)"
proof (induction ts)
  case Nil
  then show ?case by (simp add: timers_inv_def intervals_def)
next
  case (Cons t ts)
  then have t: "tv_norm (interval t)" and ts: "timers_inv ts"
    by (auto simp: timers_inv_def intervals_def)
  note IH = Cons.IH [OF ts Cons.prems(2)]
  show ?case
  proof (cases "timeval_cmp (interval t) (interval n) \<ge> 0")
    case True
    with t Cons.prems have "tv_us (interval t) \<ge> tv_us (interval n)"
      by (simp add: tv_simps)
    with True Cons.prems show ?thesis
      by (auto simp: timers_inv_def intervals_def)
  next
    case False
    with t Cons.prems have "tv_us (interval t) < tv_us (interval n)"
      by (simp add: tv_simps)
    with False IH Cons.prems show ?thesis
      by (auto simp: timers_inv_def intervals_def insert_timer_set)
  qed
qed

lemma filter_inv: "timers_inv ts \<Longrightarrow> timers_inv (filter P ts)"
  by (auto simp: timers_inv_def intervals_def sorted_filter)

lemma install_timer_due:
  "0 < delay \<Longrightarrow> mset (filter due (snd (install_timer al delay f d ts))) = mset (filter due ts)"
proof -
  assume "0 < delay"
  then have "timeval_is_positive (timeval_from_milliseconds delay)"
    using timeval_from_milliseconds_norm [of delay] by (simp add: tv_simps)
  then show ?thesis
    by (simp add: install_timer_def due_def insert_timer_mset mset_filter split: option.split)
qed

lemma install_timer_inv:
  "timers_inv ts \<Longrightarrow> 0 \<le> delay \<Longrightarrow> timers_inv (snd (install_timer al delay f d ts))"
  by (auto simp: install_timer_def timeval_from_milliseconds_norm insert_timer_inv split: option.split)

lemma kill_timer_inv: "timers_inv ts \<Longrightarrow> timers_inv (snd (kill_timer i ts))"
  by (auto simp: kill_timer_def filter_inv split: option.split)

lemma kill_timer_due: "length (filter due (snd (kill_timer i ts))) \<le> length (filter due ts)"
proof -
  have "filter due (filter P ts) = filter P (filter due ts)" for P
    by (simp add: conj_commute)
  then show ?thesis
    by (simp add: kill_timer_def length_filter_le del: filter_filter split: option.split)
qed

text \<open>\<^verbatim>\<open>install_timer\<close> asserts that the delay is positive; an operation respects that assertion.\<close>

definition op_ok :: "timer_op \<Rightarrow> bool" where
  "op_ok op \<longleftrightarrow> (case op of Install _ delay _ _ \<Rightarrow> 0 < delay | Kill _ \<Rightarrow> True)"

lemma run_op_inv: "op_ok op \<Longrightarrow> timers_inv ts \<Longrightarrow> timers_inv (run_op ts op)"
  by (cases op) (auto simp: op_ok_def install_timer_inv kill_timer_inv)

lemma run_op_due: "op_ok op \<Longrightarrow> length (filter due (run_op ts op)) \<le> length (filter due ts)"
proof (cases op)
  case (Install al delay f d)
  assume "op_ok op"
  then have "mset (filter due (run_op ts op)) = mset (filter due ts)"
    using Install by (simp add: op_ok_def install_timer_due del: mset_filter)
  then show ?thesis
    using mset_eq_length by fastforce
next
  case (Kill i)
  then show ?thesis by (simp add: kill_timer_due)
qed

lemma run_ops_inv: "\<forall>op\<in>set ops. op_ok op \<Longrightarrow> timers_inv ts \<Longrightarrow> timers_inv (run_ops ts ops)"
  unfolding run_ops_def by (induction ops arbitrary: ts) (auto simp: run_op_inv)

lemma run_ops_due:
  "\<forall>op\<in>set ops. op_ok op \<Longrightarrow> length (filter due (run_ops ts ops)) \<le> length (filter due ts)"
  unfolding run_ops_def
proof (induction ops arbitrary: ts)
  case Nil
  then show ?case by simp
next
  case (Cons op ops)
  then have "length (filter due (foldl run_op (run_op ts op) ops)) \<le> length (filter due (run_op ts op))"
    by simp
  also have "\<dots> \<le> length (filter due ts)"
    using Cons.prems by (intro run_op_due) simp
  finally show ?case by simp
qed

text \<open>The operations of the code keep the contract: each callback is cut down to the operations
  that respect the assertion, which is all of them when it respects it.\<close>

definition checked :: "callbacks \<Rightarrow> timer \<Rightarrow> timer list \<Rightarrow> timer list" where
  "checked cb t ts = run_ops ts (filter op_ok (cb t ts))"

interpretation tq: timer_effect "checked cb" timers_inv for cb
proof unfold_locales
  show "timers_inv (t # ts) \<Longrightarrow> timers_inv ts" for t ts
    by (auto simp: timers_inv_def intervals_def)
  show "timers_inv ts \<Longrightarrow> timers_inv (checked cb t ts)" for t ts
    by (simp add: checked_def run_ops_inv)
  show "length (filter due (checked cb t ts)) \<le> length (filter due ts)" for t ts
    by (simp add: checked_def run_ops_due)
qed

section \<open>The firing loop\<close>

definition cb_ok :: "callbacks \<Rightarrow> bool" where
  "cb_ok cb \<longleftrightarrow> (\<forall>t ts. \<forall>op\<in>set (cb t ts). op_ok op)"

lemma checked_eq: "cb_ok cb \<Longrightarrow> run_ops ts (cb t ts) = checked cb t ts"
  by (simp add: cb_ok_def checked_def)

lemma timers_inv_head_positive:
  "timers_inv (t # ts) \<Longrightarrow> \<not> due t \<Longrightarrow> u \<in> set (t # ts) \<Longrightarrow> \<not> due u"
  by (auto simp: timers_inv_def intervals_def due_def tv_simps)

lemma fire_timers_total:
  assumes "cb_ok cb" "timers_inv ts"
  shows "\<exists>ts' fs. fire_timers cb ts fired = Some (ts', fired @ fs) \<and> timers_inv ts' \<and>
           (\<forall>t\<in>set ts'. \<not> due t) \<and> (\<forall>t\<in>set fs. due t)"
  using assms(2)
proof (induction "length (filter due ts)" arbitrary: ts fired rule: less_induct)
  case less
  show ?case
  proof (cases ts)
    case Nil
    then show ?thesis by (simp add: fire_timers.simps timers_inv_def intervals_def)
  next
    case (Cons t rest)
    show ?thesis
    proof (cases "due t")
      case False
      with Cons less.prems timers_inv_head_positive [of t rest] show ?thesis
        by (auto simp: fire_timers.simps due_def)
    next
      case True
      let ?next = "checked cb t rest"
      have "length (filter due ?next) < length (filter due ts)"
        using True Cons tq.due_decreases by simp
      moreover have "timers_inv ?next"
        using less.prems Cons tq.inv_step by blast
      ultimately obtain ts' fs where IH: "fire_timers cb ?next (fired @ [t]) = Some (ts', (fired @ [t]) @ fs)"
          "timers_inv ts'" "\<forall>t\<in>set ts'. \<not> due t" "\<forall>t\<in>set fs. due t"
        using less.hyps by blast
      have "fire_timers cb ts fired = Some (ts', fired @ t # fs)"
        using IH(1) True Cons checked_eq [OF assms(1)]
        by (simp add: fire_timers.simps [of cb "t # rest"] due_def)
      with IH True show ?thesis
        by (intro exI [of _ ts'] exI [of _ "t # fs"]) auto
    qed
  qed
qed

section \<open>Ageing the queue\<close>

lemma intervals_age:
  assumes "\<forall>t\<in>set ts. tv_norm (interval t)" "tv_norm i"
  shows "intervals (age_timers i ts) = map (\<lambda>u. max 0 (u - tv_us i)) (intervals ts)"
  using assms by (auto simp: intervals_def age_timers_def timeval_sub_interval_us)

lemma sorted_map_mono: "mono f \<Longrightarrow> sorted xs \<Longrightarrow> sorted (map f xs)"
  by (induction xs) (auto simp: mono_def)

lemma age_timers_inv:
  assumes "timers_inv ts" "tv_norm i"
  shows "timers_inv (age_timers i ts)"
proof -
  have "sorted (intervals (age_timers i ts))"
    using assms by (auto simp: timers_inv_def intervals_age intro!: sorted_map_mono monoI)
  moreover have "\<forall>t\<in>set (age_timers i ts). tv_norm (interval t)"
    using assms by (auto simp: timers_inv_def age_timers_def timeval_sub_interval_norm)
  ultimately show ?thesis
    by (simp add: timers_inv_def)
qed

section \<open>Properties\<close>

text \<open>C31: from a sorted queue, and for callbacks that install timers only with the positive
  delays \<^verbatim>\<open>install_timer\<close> asserts, \<^verbatim>\<open>check_timers\<close> returns: every timer fired was due, no timer left in the
  queue is due, the queue is sorted again and \<^verbatim>\<open>last_time\<close> is the current time.\<close>

theorem check_timers_returns:
  assumes "cb_ok cb" "timers_inv ts" "tv_norm now" "tv_norm last_time"
  shows "\<exists>ts' fired. check_timers cb now last_time ts = Some (ts', fired, now) \<and> timers_inv ts' \<and>
           (\<forall>t\<in>set ts'. timeval_is_positive (interval t)) \<and> (\<forall>t\<in>set fired. \<not> timeval_is_positive (interval t))"
proof -
  have "timers_inv (age_timers (timeval_sub last_time now) ts)"
    using assms by (intro age_timers_inv timeval_sub_norm)
  from fire_timers_total [OF assms(1) this, of "[]"] show ?thesis
    by (auto simp: check_timers_def due_def)
qed

text \<open>A callback that restarts a timer with the delay 50 ms, on a queue of two timers.\<close>

definition restart :: callbacks where
  "restart t ts = [Install (Some (addr t)) 50 (func t) (data t)]"

theorem check_timers_returns_witness:
  "\<exists>ts' fired. check_timers restart \<lparr>sec = 11, usec = 0\<rparr> \<lparr>sec = 10, usec = 500000\<rparr>
      [\<lparr>addr = 1, interval = \<lparr>sec = 0, usec = 250000\<rparr>, func = 7, data = 0\<rparr>,
       \<lparr>addr = 2, interval = \<lparr>sec = 3, usec = 0\<rparr>, func = 8, data = 0\<rparr>]
     = Some (ts', fired, \<lparr>sec = 11, usec = 0\<rparr>) \<and> timers_inv ts' \<and>
       (\<forall>t\<in>set ts'. timeval_is_positive (interval t)) \<and> (\<forall>t\<in>set fired. \<not> timeval_is_positive (interval t))"
  by (rule check_timers_returns)
    (simp_all add: cb_ok_def restart_def op_ok_def timers_inv_def intervals_def tv_norm_def tv_us_def)

lemma fire_timers_split:
  "fire_timers (\<lambda>_ _. []) ts fired = Some (dropWhile due ts, fired @ takeWhile due ts)"
  by (induction ts arbitrary: fired) (auto simp: fire_timers.simps due_def run_ops_def)

lemma sorted_takeWhile_filter:
  "sorted (map f xs) \<Longrightarrow> (\<And>x. x \<in> set xs \<Longrightarrow> P x \<longleftrightarrow> f x \<le> (c::'b::linorder)) \<Longrightarrow>
     takeWhile P xs = filter P xs \<and> dropWhile P xs = filter (\<lambda>x. \<not> P x) xs"
proof (induction xs)
  case (Cons x xs)
  show ?case
  proof (cases "P x")
    case False
    then have "\<forall>y\<in>set xs. \<not> P y"
      using Cons.prems by force
    with False show ?thesis by (simp add: filter_empty_conv filter_id_conv)
  qed (use Cons in auto)
qed simp

text \<open>C39: when the callbacks leave the queue alone, exactly the timers whose interval does not
  exceed the elapsed time fire, in the order of their intervals, and every other timer keeps
  its place with the elapsed time taken off its interval.\<close>

theorem check_timers_fires_exactly:
  assumes "timers_inv ts" "tv_norm now" "tv_norm last_time"
  defines "elapsed \<equiv> tv_us now - tv_us last_time"
  shows "\<exists>ts' fired. check_timers (\<lambda>_ _. []) now last_time ts = Some (ts', fired, now) \<and>
     map addr fired = map addr (filter (\<lambda>t. tv_us (interval t) \<le> elapsed) ts) \<and>
     map (\<lambda>t. (addr t, tv_us (interval t))) ts' =
       map (\<lambda>t. (addr t, tv_us (interval t) - elapsed)) (filter (\<lambda>t. elapsed < tv_us (interval t)) ts)"
proof -
  let ?i = "timeval_sub last_time now"
  let ?ts = "age_timers ?i ts"
  let ?age = "\<lambda>t. t\<lparr>interval := timeval_sub_interval (interval t) ?i\<rparr>"
  have i: "tv_norm ?i" "tv_us ?i = elapsed"
    using assms by (simp_all add: timeval_sub_norm tv_simps)
  have inv: "timers_inv ?ts"
    using assms(1) i(1) by (rule age_timers_inv)
  have us: "tv_us (interval (?age t)) = max 0 (tv_us (interval t) - elapsed)" "due (?age t) \<longleftrightarrow> tv_us (interval t) \<le> elapsed"
    if "t \<in> set ts" for t
    using that assms(1) i by (auto simp: timers_inv_def timeval_sub_interval_us timeval_sub_interval_norm due_def tv_simps)
  have "takeWhile due ?ts = filter due ?ts \<and> dropWhile due ?ts = filter (\<lambda>t. \<not> due t) ?ts"
    using inv by (intro sorted_takeWhile_filter [where f = "\<lambda>t. tv_us (interval t)" and c = 0])
      (auto simp: timers_inv_def intervals_def due_def tv_simps)
  then have "check_timers (\<lambda>_ _. []) now last_time ts = Some (filter (\<lambda>t. \<not> due t) ?ts, filter due ?ts, now)"
    by (simp add: check_timers_def fire_timers_split)
  moreover have "filter due ?ts = map ?age (filter (\<lambda>t. tv_us (interval t) \<le> elapsed) ts)"
    using us by (auto simp: age_timers_def filter_map o_def intro!: arg_cong [of _ _ "map ?age"] filter_cong)
  moreover have "filter (\<lambda>t. \<not> due t) ?ts = map ?age (filter (\<lambda>t. elapsed < tv_us (interval t)) ts)"
    using us by (auto simp: age_timers_def filter_map o_def intro!: arg_cong [of _ _ "map ?age"] filter_cong)
  ultimately show ?thesis
    using us by auto
qed

theorem check_timers_fires_exactly_witness:
  "\<exists>ts' fired. check_timers (\<lambda>_ _. []) \<lparr>sec = 11, usec = 0\<rparr> \<lparr>sec = 10, usec = 500000\<rparr>
      [\<lparr>addr = 1, interval = \<lparr>sec = 0, usec = 250000\<rparr>, func = 7, data = 0\<rparr>,
       \<lparr>addr = 2, interval = \<lparr>sec = 3, usec = 0\<rparr>, func = 8, data = 0\<rparr>]
     = Some (ts', fired, \<lparr>sec = 11, usec = 0\<rparr>) \<and> map addr fired = [1] \<and>
       map (\<lambda>t. (addr t, tv_us (interval t))) ts' = [(2, 2500000)]"
  using check_timers_fires_exactly [of
      "[\<lparr>addr = 1, interval = \<lparr>sec = 0, usec = 250000\<rparr>, func = 7, data = 0\<rparr>,
        \<lparr>addr = 2, interval = \<lparr>sec = 3, usec = 0\<rparr>, func = 8, data = 0\<rparr>]"
      "\<lparr>sec = 11, usec = 0\<rparr>" "\<lparr>sec = 10, usec = 500000\<rparr>"]
  by (simp add: timers_inv_def intervals_def tv_norm_def tv_us_def)

text \<open>\<^verbatim>\<open>install_timer\<close> keeps the queue sorted, adds exactly the new timer with its delay, and the next
  timer to run is the earlier of the new one and the old head; a failed allocation changes nothing.\<close>

theorem install_timer_sorted:
  assumes "timers_inv ts" "0 < delay"
  shows "timers_inv (snd (install_timer alloc delay f d ts)) \<and>
     (case alloc of
        None \<Rightarrow> install_timer alloc delay f d ts = (None, ts)
      | Some a \<Rightarrow>
          fst (install_timer alloc delay f d ts) = Some a \<and>
          mset (intervals (snd (install_timer alloc delay f d ts))) = add_mset (delay * 1000) (mset (intervals ts)) \<and>
          map_option tv_us (get_next_timer_time (snd (install_timer alloc delay f d ts))) =
            Some (case get_next_timer_time ts of None \<Rightarrow> delay * 1000 | Some i \<Rightarrow> min (delay * 1000) (tv_us i)))"
proof (cases alloc)
  case None
  with assms show ?thesis by (simp add: install_timer_def)
next
  case (Some a)
  let ?n = "\<lparr>addr = a, interval = timeval_from_milliseconds delay, func = f, data = d\<rparr>"
  have n: "tv_norm (interval ?n)" "tv_us (interval ?n) = delay * 1000"
    using assms(2) by (simp_all add: timeval_from_milliseconds_norm tv_simps)
  have "mset (intervals (insert_timer ?n ts)) = image_mset (\<lambda>t. tv_us (interval t)) (mset (insert_timer ?n ts))"
    by (simp add: intervals_def)
  then have "mset (intervals (insert_timer ?n ts)) = add_mset (delay * 1000) (mset (intervals ts))"
    using n by (simp add: insert_timer_mset intervals_def)
  moreover have "map_option tv_us (get_next_timer_time (insert_timer ?n ts)) =
      Some (case get_next_timer_time ts of None \<Rightarrow> delay * 1000 | Some i \<Rightarrow> min (delay * 1000) (tv_us i))"
    using n assms(1) by (cases ts) (auto simp: get_next_timer_time_def tv_simps timers_inv_def min_def)
  ultimately show ?thesis
    using Some assms by (simp add: install_timer_def insert_timer_inv timeval_from_milliseconds_norm)
qed

theorem install_timer_sorted_witness:
  "fst (install_timer (Some 3) 20 1 1 [\<lparr>addr = 1, interval = \<lparr>sec = 0, usec = 5000\<rparr>, func = 7, data = 0\<rparr>]) = Some 3"
  using install_timer_sorted [of "[\<lparr>addr = 1, interval = \<lparr>sec = 0, usec = 5000\<rparr>, func = 7, data = 0\<rparr>]" 20 "Some 3" 1 1]
  by (simp add: timers_inv_def intervals_def tv_norm_def)

end
