(* ===== verification/Hashtab.thy ===== *)
theory Hashtab
  imports Prelude
begin

text \<open>
  \<^verbatim>\<open>elinks/src/util/hash.c\<close>: hash tables as an array of \<^verbatim>\<open>2^width\<close> item lists, the string hash,
  and the move-front rule of lookups. The abstraction of a table gives for each key the
  stack of the items stored under it, newest first; the locale \<open>keyed_stacks\<close> is what clients rely on.
\<close>

section \<open>Data\<close>

text \<open>An item is a heap cell at address \<open>item_addr\<close>; \<open>item_key\<close> are the bytes its \<^verbatim>\<open>key\<close> pointer
  refers to, of which the first \<open>item_keylen\<close> count.\<close>

record 'v hash_item =
  item_addr :: nat
  item_key :: "uchar list"
  item_keylen :: nat
  item_value :: 'v

type_synonym hash_func_T = "uchar list \<Rightarrow> nat \<Rightarrow> ulong \<Rightarrow> ulong"

record 'v hash =
  width :: nat
  hash_func :: hash_func_T
  buckets :: "'v hash_item list list"

definition hash_size :: "nat \<Rightarrow> nat" where
  "hash_size n = push_bit n 1"

definition hash_mask :: "nat \<Rightarrow> ulong" where
  "hash_mask n = push_bit n 1 - 1"

definition HASH_MAGIC :: ulong where
  "HASH_MAGIC = 0xdeadbeef"

section \<open>Operations\<close>

text \<open>\<open>alloc\<close> tells whether \<^verbatim>\<open>mem_alloc\<close> succeeded.\<close>

definition init_hash :: "bool \<Rightarrow> nat \<Rightarrow> hash_func_T \<Rightarrow> 'v hash option" where
  "init_hash alloc w f =
     (if \<not> w > 0 then None
      else if \<not> alloc then None
      else Some \<lparr>width = w, hash_func = f, buckets = replicate (hash_size w) []\<rparr>)"

text \<open>The addresses \<^verbatim>\<open>free_hash\<close> gives back, bucket by bucket.\<close>

definition free_hash :: "'v hash \<Rightarrow> nat list" where
  "free_hash h = concat (map (map item_addr) (buckets h))"

definition hashval :: "'v hash \<Rightarrow> uchar list \<Rightarrow> nat \<Rightarrow> nat" where
  "hashval h key keylen = unat (hash_func h key keylen HASH_MAGIC AND hash_mask (width h))"

text \<open>\<open>alloc\<close> is the address of the new item, \<open>None\<close> when the allocation failed.\<close>

definition add_hash_item ::
  "nat option \<Rightarrow> 'v hash \<Rightarrow> uchar list \<Rightarrow> nat \<Rightarrow> 'v \<Rightarrow> 'v hash_item option \<times> 'v hash" where
  "add_hash_item alloc h key keylen v =
     (case alloc of
        None \<Rightarrow> (None, h)
      | Some a \<Rightarrow>
          let i = hashval h key keylen;
              item = \<lparr>item_addr = a, item_key = key, item_keylen = keylen, item_value = v\<rparr>
          in (Some item, h\<lparr>buckets := (buckets h)[i := item # buckets h ! i]\<rparr>))"

text \<open>\<^verbatim>\<open>keylen != item->keylen\<close> and \<^verbatim>\<open>memcmp\<close> over the first \<open>keylen\<close> bytes.\<close>

definition key_matches :: "uchar list \<Rightarrow> nat \<Rightarrow> 'v hash_item \<Rightarrow> bool" where
  "key_matches key keylen item \<longleftrightarrow>
     keylen = item_keylen item \<and> take keylen key = take keylen (item_key item)"

definition get_hash_item ::
  "'v hash \<Rightarrow> uchar list \<Rightarrow> nat \<Rightarrow> 'v hash_item option \<times> 'v hash" where
  "get_hash_item h key keylen =
     (let i = hashval h key keylen; list = buckets h ! i
      in case find_index (key_matches key keylen) list of
           None \<Rightarrow> (None, h)
         | Some j \<Rightarrow> (Some (list ! j), h\<lparr>buckets := (buckets h)[i := move_to_top_of_list list j]\<rparr>))"

text \<open>\<^verbatim>\<open>del_hash_item\<close> unlinks the item at the given address from whatever bucket holds it.\<close>

definition del_hash_item :: "'v hash \<Rightarrow> nat \<Rightarrow> 'v hash" where
  "del_hash_item h a = h\<lparr>buckets := map (filter (\<lambda>it. item_addr it \<noteq> a)) (buckets h)\<rparr>"

text \<open>One step of the string hash, and its loop unrolled eight times. The argument is what is
  left of the key; the assertion \<^verbatim>\<open>length > 0\<close> has been checked.\<close>

definition x31_step :: "ulong \<Rightarrow> uchar \<Rightarrow> ulong" where
  "x31_step h p = push_bit 5 h - h + ucast p"

fun strhash_loop :: "ulong \<Rightarrow> uchar list \<Rightarrow> ulong" where
  "strhash_loop h [] = h"
| "strhash_loop h (p # ps) =
   (let h = x31_step h p in case ps of [] \<Rightarrow> h | p # ps \<Rightarrow>
   (let h = x31_step h p in case ps of [] \<Rightarrow> h | p # ps \<Rightarrow>
   (let h = x31_step h p in case ps of [] \<Rightarrow> h | p # ps \<Rightarrow>
   (let h = x31_step h p in case ps of [] \<Rightarrow> h | p # ps \<Rightarrow>
   (let h = x31_step h p in case ps of [] \<Rightarrow> h | p # ps \<Rightarrow>
   (let h = x31_step h p in case ps of [] \<Rightarrow> h | p # ps \<Rightarrow>
   (let h = x31_step h p in case ps of [] \<Rightarrow> h | p # ps \<Rightarrow>
   (let h = x31_step h p in case ps of [] \<Rightarrow> h | p # ps' \<Rightarrow> strhash_loop h (p # ps')))))))))"

definition strhash :: hash_func_T where
  "strhash k len initval = (if \<not> len > 0 then initval else strhash_loop initval (take len k))"

section \<open>The string hash\<close>

text \<open>The unrolled loop is the plain one.\<close>

lemma strhash_loop_foldl: "strhash_loop h ps = foldl x31_step h ps"
proof (induction h ps rule: strhash_loop.induct)
  case (1 h)
  then show ?case by simp
next
  case (2 h p ps)
  then show ?case
    by (simp add: Let_def split: list.split)
qed

lemma x31_step_eq: "x31_step h p = 31 * h + ucast p"
  by (simp add: x31_step_def push_bit_eq_mult)

section \<open>Tables as stacks per key\<close>

text \<open>A hash function that looks at the counted bytes of the key only.\<close>

definition func_ok :: "hash_func_T \<Rightarrow> bool" where
  "func_ok f \<longleftrightarrow> (\<forall>k k' n m. take n k = take n k' \<longrightarrow> f k n m = f k' n m)"

definition table_inv :: "'v hash \<Rightarrow> bool" where
  "table_inv h \<longleftrightarrow>
     width h < 64 \<and> length (buckets h) = hash_size (width h) \<and> func_ok (hash_func h) \<and>
     (\<forall>i<length (buckets h). \<forall>it\<in>set (buckets h ! i). hashval h (item_key it) (item_keylen it) = i)"

text \<open>The key of an item as its bytes, and the items stored under a key.\<close>

definition stack :: "'v hash \<Rightarrow> uchar list \<Rightarrow> nat \<Rightarrow> 'v hash_item list" where
  "stack h key keylen = filter (key_matches key keylen) (buckets h ! hashval h key keylen)"

lemma hash_size_pow: "hash_size n = 2 ^ n"
  by (simp add: hash_size_def push_bit_eq_mult)

lemma unat_and_mask: "w < 64 \<Longrightarrow> unat (x AND hash_mask w) < hash_size w"
proof -
  assume w: "w < 64"
  have "hash_mask w = mask w"
    by (simp add: hash_mask_def mask_eq_exp_minus_1 push_bit_eq_mult)
  then have "x AND hash_mask w = take_bit w x"
    by (simp add: take_bit_eq_mask)
  then show ?thesis
    using w by (simp add: unsigned_take_bit_eq hash_size_pow)
qed

lemma hashval_bound: "table_inv h \<Longrightarrow> hashval h key keylen < length (buckets h)"
  by (simp add: table_inv_def hashval_def unat_and_mask)

lemma hashval_cong:
  "table_inv h \<Longrightarrow> key_matches key keylen it \<Longrightarrow>
     hashval h (item_key it) (item_keylen it) = hashval h key keylen"
  unfolding table_inv_def key_matches_def hashval_def func_ok_def by metis

text \<open>Moving the first match to the front does not change the items a filter keeps.\<close>

lemma filter_move_first:
  assumes "find_index P xs = Some i" "\<And>x y. P x \<Longrightarrow> Q x \<Longrightarrow> Q y \<Longrightarrow> P y"
  shows "filter Q (move_to_top_of_list xs i) = filter Q xs"
proof -
  from find_index_Some [OF assms(1)] have i: "i < length xs" "P (xs ! i)" "\<forall>j<i. \<not> P (xs ! j)"
    by auto
  have pre: "\<forall>x\<in>set (take i xs). \<not> P x"
    using i(3) by (auto simp: in_set_conv_nth)
  have split: "xs = take i xs @ xs ! i # drop (Suc i) xs"
    using i(1) by (rule id_take_nth_drop)
  have fq: "filter Q xs = filter Q (take i xs) @ filter Q (xs ! i # drop (Suc i) xs)"
    using arg_cong [OF split, of "filter Q"] by (simp only: filter_append)
  have "Q (xs ! i) \<Longrightarrow> filter Q (take i xs) = []"
    using pre assms(2) i(2) by (auto simp: filter_empty_conv)
  then show ?thesis
    by (cases "i = 0"; cases "Q (xs ! i)")
      (simp_all add: move_to_top_of_list_def del_nth_def fq)
qed

lemma key_matches_same:
  "key_matches k n x \<Longrightarrow> key_matches k' n' x \<Longrightarrow> key_matches k' n' y \<Longrightarrow> key_matches k n y"
  by (auto simp: key_matches_def)

lemma stack_get_hash_item:
  assumes "table_inv h"
  shows "stack (snd (get_hash_item h key keylen)) k n = stack h k n"
proof (cases "find_index (key_matches key keylen) (buckets h ! hashval h key keylen)")
  case None
  then show ?thesis by (simp add: get_hash_item_def)
next
  case (Some j)
  let ?i = "hashval h key keylen"
  have hv: "hashval (snd (get_hash_item h key keylen)) = hashval h"
    using Some by (simp add: get_hash_item_def Let_def hashval_def [abs_def])
  have "filter (key_matches k n) (move_to_top_of_list (buckets h ! ?i) j)
      = filter (key_matches k n) (buckets h ! ?i)"
    using Some key_matches_same by (rule filter_move_first)
  then show ?thesis
    using Some hashval_bound [OF assms] by (cases "hashval h k n = ?i")
      (simp_all add: stack_def hv, simp_all add: get_hash_item_def Let_def)
qed

lemma get_hash_item_stack:
  "fst (get_hash_item h key keylen) =
     (case stack h key keylen of [] \<Rightarrow> None | it # _ \<Rightarrow> Some it)"
proof -
  have "(case find_index P xs of None \<Rightarrow> None | Some j \<Rightarrow> Some (xs ! j)) =
        (case filter P xs of [] \<Rightarrow> None | x # _ \<Rightarrow> Some x)" for P and xs :: "'a hash_item list"
    by (induction xs) (auto split: option.splits)
  then show ?thesis
    unfolding stack_def
    by (subst (asm) eq_commute) (simp add: get_hash_item_def Let_def split: option.split)
qed

lemma stack_add_hash_item:
  assumes "table_inv h" "add_hash_item (Some a) h key keylen v = (Some it, h')"
  shows "stack h' k n = (if key_matches k n it then it # stack h k n else stack h k n)"
proof -
  have it: "it = \<lparr>item_addr = a, item_key = key, item_keylen = keylen, item_value = v\<rparr>"
    and h': "h' = h\<lparr>buckets := (buckets h)[hashval h key keylen := it # buckets h ! hashval h key keylen]\<rparr>"
    using assms(2) by (auto simp: add_hash_item_def Let_def)
  have hv: "hashval h' = hashval h"
    by (simp add: h' hashval_def [abs_def])
  have "key_matches k n it \<Longrightarrow> hashval h k n = hashval h key keylen"
    using hashval_cong [OF assms(1), of k n it] it by simp
  then show ?thesis
    using hashval_bound [OF assms(1)] by (cases "hashval h k n = hashval h key keylen")
      (auto simp: stack_def hv, auto simp: h')
qed

lemma stack_del_hash_item:
  assumes "table_inv h"
  shows "stack (del_hash_item h a) k n = filter (\<lambda>it. item_addr it \<noteq> a) (stack h k n)"
proof -
  have "hashval (del_hash_item h a) k n = hashval h k n"
    by (simp add: del_hash_item_def hashval_def)
  then show ?thesis
    using hashval_bound [OF assms] by (simp add: stack_def del_hash_item_def conj_commute)
qed

section \<open>The invariant is kept\<close>

lemma init_hash_inv:
  assumes "init_hash alloc w f = Some h" "w < 64"
    and "func_ok f"
  shows "table_inv h"
  using assms by (auto simp: init_hash_def table_inv_def split: if_splits)

lemma strhash_ok: "func_ok strhash"
  unfolding func_ok_def strhash_def by metis

lemma table_inv_buckets:
  assumes "table_inv h" "length bs = length (buckets h)"
    and "\<And>i. i < length bs \<Longrightarrow> \<forall>it\<in>set (bs ! i). hashval h (item_key it) (item_keylen it) = i"
  shows "table_inv (h\<lparr>buckets := bs\<rparr>)"
  using assms by (auto simp: table_inv_def hashval_def)

lemma table_inv_update:
  assumes "table_inv h" "\<forall>it\<in>set xs. hashval h (item_key it) (item_keylen it) = i"
  shows "table_inv (h\<lparr>buckets := (buckets h)[i := xs]\<rparr>)"
proof (rule table_inv_buckets [OF assms(1)])
  fix j assume "j < length ((buckets h)[i := xs])"
  then show "\<forall>it\<in>set ((buckets h)[i := xs] ! j). hashval h (item_key it) (item_keylen it) = j"
    using assms by (cases "i = j") (auto simp: table_inv_def)
qed simp

lemma table_inv_bucket:
  "table_inv h \<Longrightarrow> it \<in> set (buckets h ! hashval h key keylen) \<Longrightarrow>
     hashval h (item_key it) (item_keylen it) = hashval h key keylen"
  using hashval_bound [of h key keylen] unfolding table_inv_def by blast

lemma get_hash_item_inv: "table_inv h \<Longrightarrow> table_inv (snd (get_hash_item h key keylen))"
proof (cases "find_index (key_matches key keylen) (buckets h ! hashval h key keylen)")
  case None
  assume "table_inv h"
  with None show ?thesis by (simp add: get_hash_item_def)
next
  case (Some j)
  assume h: "table_inv h"
  from find_index_Some [OF Some] have "j < length (buckets h ! hashval h key keylen)" ..
  with Some h show ?thesis
    by (auto simp: get_hash_item_def Let_def set_move_to_top table_inv_bucket
        intro!: table_inv_update)
qed

lemma add_hash_item_inv: "table_inv h \<Longrightarrow> table_inv (snd (add_hash_item al h key keylen v))"
  by (auto simp: add_hash_item_def Let_def table_inv_bucket intro!: table_inv_update
      split: option.split)

lemma del_hash_item_inv: "table_inv h \<Longrightarrow> table_inv (del_hash_item h a)"
  unfolding del_hash_item_def by (rule table_inv_buckets) (auto simp: table_inv_def)

section \<open>The interface\<close>

text \<open>
  What the users of a hash table rely on. \<open>add\<close> takes the address of the new item, \<open>get\<close>
  returns the item found and the table it leaves, \<open>remove\<close> takes an address.
\<close>

locale keyed_stacks =
  fixes add :: "nat \<Rightarrow> 't \<Rightarrow> uchar list \<Rightarrow> nat \<Rightarrow> 'v \<Rightarrow> 'v hash_item \<times> 't"
    and get :: "'t \<Rightarrow> uchar list \<Rightarrow> nat \<Rightarrow> 'v hash_item option \<times> 't"
    and remove :: "'t \<Rightarrow> nat \<Rightarrow> 't"
    and stk :: "'t \<Rightarrow> uchar list \<Rightarrow> nat \<Rightarrow> 'v hash_item list"
    and inv :: "'t \<Rightarrow> bool"
  assumes stk_add: "inv t \<Longrightarrow> stk (snd (add a t key len v)) key len = fst (add a t key len v) # stk t key len"
    and add_value: "item_value (fst (add a t key len v)) = v"
    and add_addr: "item_addr (fst (add a t key len v)) = a"
    and get_top: "fst (get t key len) = (case stk t key len of [] \<Rightarrow> None | it # _ \<Rightarrow> Some it)"
    and stk_get: "inv t \<Longrightarrow> stk (snd (get t k n)) key len = stk t key len"
    and stk_remove: "inv t \<Longrightarrow> stk (remove t a) key len = filter (\<lambda>it. item_addr it \<noteq> a) (stk t key len)"
    and inv_add: "inv t \<Longrightarrow> inv (snd (add a t key len v))"
    and inv_get: "inv t \<Longrightarrow> inv (snd (get t key len))"
    and inv_remove: "inv t \<Longrightarrow> inv (remove t a)"
begin

lemma get_after_add:
  "inv t \<Longrightarrow> map_option item_value (fst (get (snd (add a t key len v)) key len)) = Some v"
  by (simp add: get_top stk_add add_value)

text \<open>Any number of intervening lookups leaves a stored value reachable.\<close>

lemma stk_gets:
  "inv t \<Longrightarrow> stk (foldl (\<lambda>t (k, n). snd (get t k n)) t qs) key len = stk t key len"
  by (induction qs arbitrary: t) (auto simp: stk_get inv_get)

lemma get_after_gets:
  "inv t \<Longrightarrow> fst (get (foldl (\<lambda>t (k, n). snd (get t k n)) t qs) key len) = fst (get t key len)"
  by (simp add: get_top stk_gets)

text \<open>Removing what was just added gives the earlier binding back, when its address is fresh.\<close>

lemma get_after_add_remove:
  assumes "inv t" "\<forall>it\<in>set (stk t key len). item_addr it \<noteq> a"
  shows "fst (get (remove (snd (add a t key len v)) a) key len) = fst (get t key len)"
proof -
  have "stk (remove (snd (add a t key len v)) a) key len = stk t key len"
    using assms by (simp add: stk_remove inv_add stk_add add_addr filter_id_conv)
  then show ?thesis by (simp add: get_top)
qed

end

definition add_item :: "nat \<Rightarrow> 'v hash \<Rightarrow> uchar list \<Rightarrow> nat \<Rightarrow> 'v \<Rightarrow> 'v hash_item \<times> 'v hash" where
  "add_item a h key keylen v =
     (case add_hash_item (Some a) h key keylen v of (it, h') \<Rightarrow> (the it, h'))"

interpretation ht: keyed_stacks add_item get_hash_item del_hash_item stack table_inv
proof unfold_locales
  fix t :: "'a hash" and a key len v
  obtain it h' where add: "add_hash_item (Some a) t key len v = (Some it, h')"
    by (simp add: add_hash_item_def Let_def)
  then have it: "it = \<lparr>item_addr = a, item_key = key, item_keylen = len, item_value = v\<rparr>"
    by (simp add: add_hash_item_def Let_def)
  have eq: "add_item a t key len v = (it, h')"
    using add by (simp add: add_item_def)
  show "item_value (fst (add_item a t key len v)) = v" "item_addr (fst (add_item a t key len v)) = a"
    by (simp_all add: eq it)
  show "stack (snd (add_item a t key len v)) key len = fst (add_item a t key len v) # stack t key len"
    if "table_inv t"
    using stack_add_hash_item [OF that add, of key len] by (simp add: eq it key_matches_def)
  show "table_inv (snd (add_item a t key len v))" if "table_inv t"
    using add_hash_item_inv [OF that, of "Some a" key len v] by (simp add: eq add)
qed (simp_all add: get_hash_item_stack stack_get_hash_item stack_del_hash_item
      get_hash_item_inv del_hash_item_inv)

section \<open>Properties\<close>

text \<open>the unrolled loop of \<^verbatim>\<open>strhash\<close> computes the multiplicative hash with factor 31 over the
  first \<open>len\<close> bytes of the key, modulo the width of \<^verbatim>\<open>unsigned long\<close>.\<close>

theorem strhash_is_x31: "strhash k len initval = foldl (\<lambda>h p. 31 * h + ucast p) initval (take len k)"
proof -
  have "x31_step = (\<lambda>h p. 31 * h + ucast p)"
    by (simp add: fun_eq_iff x31_step_eq)
  then show ?thesis
    by (auto simp: strhash_def strhash_loop_foldl)
qed

text \<open>after \<^verbatim>\<open>add_hash_item\<close> stored a value under a key, a lookup of that key finds that value,
  whatever other lookups (each reordering a bucket by the move-front rule) come in between.\<close>

theorem get_finds_added:
  assumes "table_inv h" "add_hash_item (Some a) h key keylen v = (it, h')"
  shows "map_option item_value
     (fst (get_hash_item (foldl (\<lambda>h (k, n). snd (get_hash_item h k n)) h' queries) key keylen)) = Some v"
proof -
  have h': "h' = snd (add_item a h key keylen v)"
    using assms(2) by (simp add: add_item_def)
  then have "table_inv h'"
    using assms(1) ht.inv_add by simp
  then show ?thesis
    using ht.get_after_add [OF assms(1)] h' by (simp add: ht.get_after_gets)
qed

definition example_table :: "nat hash" where
  "example_table = \<lparr>width = 2, hash_func = strhash, buckets = [[], [], [], []]\<rparr>"

lemma example_table_init: "init_hash True 2 strhash = Some example_table"
  by (simp add: init_hash_def example_table_def hash_size_def numeral_eq_Suc)

lemma example_table_inv: "table_inv example_table"
  using example_table_init by (rule init_hash_inv) (simp_all add: strhash_ok)

theorem get_finds_added_witness:
  "map_option item_value
     (fst (get_hash_item (snd (get_hash_item (snd (add_hash_item (Some 1) example_table [97, 98] 2 (5::nat))) [97, 99] 2)) [97, 98] 2)) = Some 5"
proof -
  obtain it h' where add: "add_hash_item (Some 1) example_table [97, 98] 2 (5::nat) = (it, h')"
    by fastforce
  show ?thesis
    unfolding add snd_conv
    using get_finds_added [OF example_table_inv add, of "[([97, 99], 2)]"] by simp
qed

text \<open>deleting an item that was just added gives back what a lookup of its key found before;
  the other keys are not affected by either step.\<close>

theorem del_undoes_add:
  assumes "table_inv h" "add_hash_item (Some a) h key keylen v = (it, h')"
    and "\<forall>i\<in>set (concat (buckets h)). item_addr i \<noteq> a"
  shows "fst (get_hash_item (del_hash_item h' a) k n) = fst (get_hash_item h k n)"
proof -
  obtain item where item: "it = Some item" "item_addr item = a"
    using assms(2) by (auto simp: add_hash_item_def Let_def)
  have "hashval h k n < length (buckets h)"
    using assms(1) by (rule hashval_bound)
  then have "set (stack h k n) \<subseteq> set (concat (buckets h))"
    by (auto simp: stack_def intro!: bexI [of _ "buckets h ! hashval h k n"])
  then have "filter (\<lambda>i. item_addr i \<noteq> a) (stack h k n) = stack h k n"
    using assms(3) by (auto simp: filter_id_conv)
  moreover have "table_inv h'"
    using add_hash_item_inv [OF assms(1), of "Some a" key keylen v] assms(2) by simp
  ultimately have "stack (del_hash_item h' a) k n = stack h k n"
    using stack_add_hash_item [OF assms(1) assms(2) [unfolded item(1)]] item(2)
    by (simp add: stack_del_hash_item)
  then show ?thesis
    by (simp add: get_hash_item_stack)
qed

theorem del_undoes_add_witness:
  "fst (get_hash_item (del_hash_item (snd (add_hash_item (Some 1) example_table [97] 1 (5::nat))) 1) [97] 1)
   = fst (get_hash_item example_table [97] 1)"
proof -
  obtain it h' where add: "add_hash_item (Some 1) example_table [97] 1 (5::nat) = (it, h')"
    by fastforce
  have "\<forall>i\<in>set (concat (buckets example_table)). item_addr i \<noteq> 1"
    by (simp add: example_table_def)
  from del_undoes_add [OF example_table_inv add this] show ?thesis
    unfolding add snd_conv .
qed

end
