(* ===== verification/Dates.thy ===== *)
theory Dates
  imports Prelude
begin

text \<open>
  \<^verbatim>\<open>elinks/src/protocol/date.c\<close> with \<^verbatim>\<open>month2num\<close> of \<^verbatim>\<open>util/conv.c\<close>: the parser of HTTP dates.
  A position in the date is an offset into the NUL-terminated buffer; \<open>e\<close> is the \<^verbatim>\<open>end\<close> pointer
  as an offset, \<open>None\<close> for NULL. The parsers read a byte only after the bytes before it were
  seen to differ from NUL, so no read goes past the terminating NUL. Signed \<^verbatim>\<open>int\<close>
  overflow, which \<^verbatim>\<open>my_timegm\<close> reaches for late dates, wraps around as in two's complement.
\<close>

section \<open>Data\<close>

record tm =
  tm_year :: int
  tm_mon :: int
  tm_mday :: int
  tm_hour :: int
  tm_min :: int
  tm_sec :: int

section \<open>Parsing the fields\<close>

text \<open>\<^verbatim>\<open>str[i]|32\<close>.\<close>

definition or32 :: "char \<Rightarrow> char" where
  "or32 c = char_of (of_char c OR (32 :: nat))"

definition month2num :: "char \<Rightarrow> char \<Rightarrow> char \<Rightarrow> int" where
  "month2num s0 s1 s2 =
     (let m0 = or32 s0; m1 = or32 s1; m2 = or32 s2 in
      if m0 = CHR ''j'' then
        if m1 = CHR ''a'' then (if m2 = CHR ''n'' then 0 else -1)
        else if m1 = CHR ''u'' then (if m2 = CHR ''n'' then 5 else if m2 = CHR ''l'' then 6 else -1)
        else -1
      else if m0 = CHR ''m'' then
        if m1 = CHR ''a'' then (if m2 = CHR ''r'' then 2 else if m2 = CHR ''y'' then 4 else -1)
        else -1
      else if m0 = CHR ''a'' then
        if m1 = CHR ''p'' then (if m2 = CHR ''r'' then 3 else -1)
        else if m1 = CHR ''u'' \<and> m2 = CHR ''g'' then 7 else -1
      else if m0 = CHR ''s'' then (if m1 = CHR ''e'' \<and> m2 = CHR ''p'' then 8 else -1)
      else if m0 = CHR ''o'' then (if m1 = CHR ''c'' \<and> m2 = CHR ''t'' then 9 else -1)
      else if m0 = CHR ''n'' then (if m1 = CHR ''o'' \<and> m2 = CHR ''v'' then 10 else -1)
      else if m0 = CHR ''d'' then (if m1 = CHR ''e'' \<and> m2 = CHR ''c'' then 11 else -1)
      else if m0 = CHR ''f'' then (if m1 = CHR ''e'' \<and> m2 = CHR ''b'' then 1 else -1)
      else -1)"

text \<open>Each parser returns the parsed number and the advanced position. \<open>before e i\<close> is
  \<^verbatim>\<open>!end || date + i < end\<close>.\<close>

definition before :: "nat option \<Rightarrow> nat \<Rightarrow> bool" where
  "before e i \<longleftrightarrow> (case e of None \<Rightarrow> True | Some n \<Rightarrow> i < n)"

definition parse_year :: "string \<Rightarrow> nat option \<Rightarrow> nat \<Rightarrow> int \<times> nat" where
  "parse_year b e p =
     (if \<not> before e (p + 1) \<or> \<not> c_isdigit (rd b p) \<or> \<not> c_isdigit (rd b (p + 1)) then (-1, p)
      else
        let year = digit_val (rd b p) * 10 + digit_val (rd b (p + 1)) in
        if before e (p + 3) \<and> c_isdigit (rd b (p + 2)) \<and> c_isdigit (rd b (p + 3)) then
          ((year * 10 + digit_val (rd b (p + 2))) * 10 + digit_val (rd b (p + 3)) - 1900, p + 4)
        else if year < 70 then (year + 100, p + 2)
        else (year, p))"

definition parse_month :: "string \<Rightarrow> nat option \<Rightarrow> nat \<Rightarrow> int \<times> nat" where
  "parse_month b e p =
     (if (case e of None \<Rightarrow> False | Some n \<Rightarrow> p + 2 > n)
         \<or> rd b p = NUL \<or> rd b (p + 1) = NUL \<or> rd b (p + 2) = NUL then (-1, p)
      else let monthnum = month2num (rd b p) (rd b (p + 1)) (rd b (p + 2))
           in (monthnum, if monthnum \<noteq> -1 then p + 3 else p))"

definition parse_day :: "string \<Rightarrow> nat option \<Rightarrow> nat \<Rightarrow> int \<times> nat" where
  "parse_day b e p =
     (if \<not> before e p \<or> \<not> c_isdigit (rd b p) then (32, p)
      else
        let day = digit_val (rd b p) in
        if before e (p + 1) \<and> c_isdigit (rd b (p + 1))
        then (day * 10 + digit_val (rd b (p + 1)), p + 2)
        else (day, p + 1))"

definition check_time :: "tm \<Rightarrow> bool" where
  "check_time t \<longleftrightarrow> tm_hour t \<le> 23 \<and> tm_min t \<le> 59 \<and> tm_sec t \<le> 59"

text \<open>\<^verbatim>\<open>parse_time\<close> returns whether it succeeded, the time read and the position. On its early
  returns the caller gives up, so the partly filled \<^verbatim>\<open>tm\<close> is not looked at again.\<close>

definition parse_time :: "string \<Rightarrow> nat option \<Rightarrow> tm \<Rightarrow> nat \<Rightarrow> bool \<times> tm \<times> nat" where
  "parse_time b e t p =
     (if (case e of None \<Rightarrow> False | Some n \<Rightarrow> p + 5 > n) then (False, t, p)
      else if \<not> c_isdigit (rd b p) then (False, t, p)
      else if \<not> c_isdigit (rd b (p + 1)) then (False, t, p)
      else if rd b (p + 2) \<noteq> CHR '':'' then (False, t, p)
      else if \<not> c_isdigit (rd b (p + 3)) then (False, t, p)
      else if \<not> c_isdigit (rd b (p + 4)) then (False, t, p)
      else
        let t = t\<lparr>tm_hour := digit_val (rd b p) * 10 + digit_val (rd b (p + 1)),
                  tm_min := digit_val (rd b (p + 3)) * 10 + digit_val (rd b (p + 4)),
                  tm_sec := 0\<rparr>
        in if \<not> before e (p + 7) then (check_time t, t, p + 5)
           else if rd b (p + 5) = CHR '':'' then
             if \<not> before e (p + 8) then (False, t, p)
             else if \<not> c_isdigit (rd b (p + 6)) then (False, t, p)
             else if \<not> c_isdigit (rd b (p + 7)) then (False, t, p)
             else let t = t\<lparr>tm_sec := digit_val (rd b (p + 6)) * 10 + digit_val (rd b (p + 7))\<rparr>
                  in (check_time t, t, p + 8)
           else if rd b (p + 5) = CHR ''A'' \<or> rd b (p + 5) = CHR ''P'' then
             let t = (if tm_hour t = 12 then t\<lparr>tm_hour := 0\<rparr> else t);
                 t = (if rd b (p + 5) = CHR ''P'' then t\<lparr>tm_hour := tm_hour t + 12\<rparr> else t)
             in if rd b (p + 6) \<noteq> CHR ''M'' then (False, t, p) else (check_time t, t, p + 7)
           else (check_time t, t, p + 5))"

section \<open>Seconds since the epoch\<close>

text \<open>The adjustment of \<^verbatim>\<open>tm_mon\<close>, \<^verbatim>\<open>tm_year\<close> and \<^verbatim>\<open>tm_mday\<close>: the number of days.\<close>

definition timegm_mday :: "int \<Rightarrow> int \<Rightarrow> int \<Rightarrow> int" where
  "timegm_mday year mon mday =
     (let mon = mon - 2;
          (mon, year) = (if mon < 0 then (mon + 12, year - 1) else (mon, year));
          mon = mon * 153 + 2;
          year = year - 68;
          mday = mday + (year * 1461) sdiv 4
      in mday + (mon sdiv 5 - 672))"

definition my_timegm :: "tm \<Rightarrow> int" where
  "my_timegm t =
     (let mday = timegm_mday (tm_year t) (tm_mon t) (tm_mday t);
          s = int32 (mday * 60 * 60 * 24 + tm_hour t * 60 * 60 + tm_min t * 60 + tm_sec t)
      in if s = -1 then 0 else s)"

section \<open>The date parser\<close>

text \<open>The loop of \<^verbatim>\<open>skip_time_sep\<close>, and the macro: \<open>None\<close> is its \<^verbatim>\<open>return 0\<close>.\<close>

function skip_sep :: "string \<Rightarrow> nat option \<Rightarrow> nat \<Rightarrow> nat" where
  "skip_sep b e p =
     (if before e p \<and> (rd b p = CHR '' '' \<or> rd b p = CHR ''-'') then skip_sep b e (p + 1) else p)"
  by pat_completeness auto
termination
  by (relation "measure (\<lambda>(b, e, p). length b - p)") (auto simp: rd_def NUL_def split: if_splits)

definition skip_time_sep :: "string \<Rightarrow> nat option \<Rightarrow> nat \<Rightarrow> nat option" where
  "skip_time_sep b e p = (let q = skip_sep b e p in if q = p then None else Some q)"

text \<open>Skipping the day of the week: \<open>None\<close> when the string ends first.\<close>

function skip_week_day :: "string \<Rightarrow> nat option \<Rightarrow> nat \<Rightarrow> nat option" where
  "skip_week_day b e p =
     (if before e p \<and> rd b p \<noteq> CHR '' '' then
        if rd b p = NUL then None else skip_week_day b e (p + 1)
      else Some p)"
  by pat_completeness auto
termination
  by (relation "measure (\<lambda>(b, e, p). length b - p)") (auto simp: rd_def split: if_splits)

declare skip_sep.simps [simp del] skip_week_day.simps [simp del]

definition parse_rfc :: "string \<Rightarrow> nat option \<Rightarrow> nat \<Rightarrow> (tm \<times> nat) option" where
  "parse_rfc b e p =
     (case parse_day b e p of (mday, p) \<Rightarrow>
      if mday > 31 then None else
      case skip_time_sep b e p of None \<Rightarrow> None | Some p \<Rightarrow>
      case parse_month b e p of (mon, p) \<Rightarrow>
      if mon < 0 then None else
      case skip_time_sep b e p of None \<Rightarrow> None | Some p \<Rightarrow>
      case parse_year b e p of (year, p) \<Rightarrow>
      if year < 0 then None else
      case skip_time_sep b e p of None \<Rightarrow> None | Some p \<Rightarrow>
      case parse_time b e \<lparr>tm_year = year, tm_mon = mon, tm_mday = mday, tm_hour = 0, tm_min = 0, tm_sec = 0\<rparr> p of
        (ok, t, p) \<Rightarrow> if \<not> ok then None else Some (t, p))"

definition parse_asctime :: "string \<Rightarrow> nat option \<Rightarrow> nat \<Rightarrow> (tm \<times> nat) option" where
  "parse_asctime b e p =
     (case parse_month b e p of (mon, p) \<Rightarrow>
      if mon < 0 then None else
      case skip_time_sep b e p of None \<Rightarrow> None | Some p \<Rightarrow>
      case parse_day b e p of (mday, p) \<Rightarrow>
      if mday > 31 then None else
      case skip_time_sep b e p of None \<Rightarrow> None | Some p \<Rightarrow>
      case parse_time b e \<lparr>tm_year = 0, tm_mon = mon, tm_mday = mday, tm_hour = 0, tm_min = 0, tm_sec = 0\<rparr> p of
        (ok, t, p) \<Rightarrow> if \<not> ok then None else
      case skip_time_sep b e p of None \<Rightarrow> None | Some p \<Rightarrow>
      case parse_year b e p of (year, p) \<Rightarrow>
      if year < 0 then None else Some (t\<lparr>tm_year := year\<rparr>, p))"

text \<open>\<^verbatim>\<open>parse_date\<close>: the time (0 on every failure) and the new value of \<^verbatim>\<open>*date_pos\<close>. \<open>None\<close> as the
  buffer is a NULL \<^verbatim>\<open>*date_pos\<close>.\<close>

definition parse_date :: "string option \<Rightarrow> nat \<Rightarrow> nat option \<Rightarrow> bool \<Rightarrow> bool \<Rightarrow> int \<times> nat" where
  "parse_date buf pos e update_pos skip_wd =
     (case buf of
        None \<Rightarrow> (0, pos)
      | Some b \<Rightarrow>
          (case (if skip_wd then Option.bind (skip_week_day b e pos) (skip_time_sep b e) else Some pos) of
             None \<Rightarrow> (0, pos)
           | Some p \<Rightarrow>
               (case (if c_isdigit (rd b p) then parse_rfc b e p else parse_asctime b e p) of
                  None \<Rightarrow> (0, pos)
                | Some (t, q) \<Rightarrow> (my_timegm t, if update_pos then q else pos))))"

section \<open>Printed dates\<close>

definition two :: "nat \<Rightarrow> string" where
  "two n = [dig (n div 10), dig (n mod 10)]"

definition four :: "nat \<Rightarrow> string" where
  "four n = [dig (n div 1000), dig (n div 100 mod 10), dig (n div 10 mod 10), dig (n mod 10)]"

definition leap :: "nat \<Rightarrow> bool" where
  "leap y \<longleftrightarrow> y mod 4 = 0 \<and> (y mod 100 \<noteq> 0 \<or> y mod 400 = 0)"

definition days_before_year :: "nat \<Rightarrow> nat" where
  "days_before_year y = (\<Sum>k = 1970..<y. if leap k then 366 else 365)"

definition days_in_month :: "nat \<Rightarrow> nat \<Rightarrow> nat" where
  "days_in_month y m = (if m = 1 \<and> leap y then 29 else [31, 28, 31, 30, 31, 30, 31, 31, 30, 31, 30, 31] ! m)"

definition days_before_month :: "nat \<Rightarrow> nat \<Rightarrow> nat" where
  "days_before_month y m = (\<Sum>k<m. days_in_month y k)"

definition epoch :: "nat \<Rightarrow> nat \<Rightarrow> nat \<Rightarrow> nat \<Rightarrow> nat \<Rightarrow> nat \<Rightarrow> int" where
  "epoch y m d h mi s =
     ((int (days_before_year y + days_before_month y m + d) - 1) * 24 + int h) * 3600 + int mi * 60 + int s"

definition month_name :: "nat \<Rightarrow> string" where
  "month_name m = [''Jan'', ''Feb'', ''Mar'', ''Apr'', ''May'', ''Jun'',
                   ''Jul'', ''Aug'', ''Sep'', ''Oct'', ''Nov'', ''Dec''] ! m"

lemma int_div_mod_10 [simp]: "int (n div 10) * 10 + int (n mod 10) = int n"
  by (metis div_mult_mod_eq of_nat_add of_nat_mult of_nat_numeral)

lemma parse_day_two:
  assumes "drop p b = two d @ r" "d < 100"
  shows "parse_day b None p = (int d, p + 2)"
proof -
  have "rd b p = dig (d div 10)" "rd b (p + 1) = dig (d mod 10)"
    using assms rd_drop [of b p 0] rd_drop [of b p 1] by (simp_all add: two_def)
  then show ?thesis
    using assms(2) by (simp add: parse_day_def before_def) 
qed

lemma parse_year_four:
  assumes "drop p b = four y @ r" "y < 10000"
  shows "parse_year b None p = (int y - 1900, p + 4)"
proof -
  have r: "rd b p = dig (y div 1000)" "rd b (p + 1) = dig (y div 100 mod 10)"
    "rd b (p + 2) = dig (y div 10 mod 10)" "rd b (p + 3) = dig (y mod 10)"
    using assms rd_drop [of b p 0] rd_drop [of b p 1] rd_drop [of b p 2] rd_drop [of b p 3]
    by (simp_all add: four_def)
  have "y div 1000 < 10" using assms(2) by simp
  moreover have "int (y div 1000) * 10 + int (y div 100 mod 10) = int (y div 100)"
      "int (y div 100) * 10 + int (y div 10 mod 10) = int (y div 10)"
    using int_div_mod_10 [of "y div 100"] int_div_mod_10 [of "y div 10"] by (simp_all add: div_mult2_eq [symmetric])
  moreover from this int_div_mod_10 [of y]
  have "100 * int (y div 100) + (int (y div 10 mod 10) * 10 + int (y mod 10)) = int y"
    by linarith
  ultimately show ?thesis
    using r by (simp add: parse_year_def before_def Let_def)
qed

lemma parse_year_two:
  assumes "drop p b = two y @ c # r" "y < 100" "\<not> c_isdigit c"
  shows "parse_year b None p = (if y < 70 then (int y + 100, p + 2) else (int y, p))"
proof -
  have r: "rd b p = dig (y div 10)" "rd b (p + 1) = dig (y mod 10)" "rd b (p + 2) = c"
    using assms rd_drop [of b p 0] rd_drop [of b p 1] rd_drop [of b p 2]
    by (simp_all add: two_def)
  then show ?thesis
    using assms(2,3) by (simp add: parse_year_def before_def Let_def)
qed

lemma less_12_cases:
  "(m::nat) < 12 \<Longrightarrow> m = 0 \<or> m = 1 \<or> m = 2 \<or> m = 3 \<or> m = 4 \<or> m = 5 \<or> m = 6 \<or> m = 7 \<or> m = 8
     \<or> m = 9 \<or> m = 10 \<or> m = 11"
  by arith

lemma or32_letters:
  "or32 CHR ''J'' = CHR ''j''"
  "or32 CHR ''F'' = CHR ''f''"
  "or32 CHR ''M'' = CHR ''m''"
  "or32 CHR ''A'' = CHR ''a''"
  "or32 CHR ''S'' = CHR ''s''"
  "or32 CHR ''O'' = CHR ''o''"
  "or32 CHR ''N'' = CHR ''n''"
  "or32 CHR ''D'' = CHR ''d''"
  "or32 CHR ''a'' = CHR ''a''"
  "or32 CHR ''n'' = CHR ''n''"
  "or32 CHR ''u'' = CHR ''u''"
  "or32 CHR ''l'' = CHR ''l''"
  "or32 CHR ''r'' = CHR ''r''"
  "or32 CHR ''y'' = CHR ''y''"
  "or32 CHR ''p'' = CHR ''p''"
  "or32 CHR ''g'' = CHR ''g''"
  "or32 CHR ''e'' = CHR ''e''"
  "or32 CHR ''c'' = CHR ''c''"
  "or32 CHR ''t'' = CHR ''t''"
  "or32 CHR ''o'' = CHR ''o''"
  "or32 CHR ''v'' = CHR ''v''"
  "or32 CHR ''b'' = CHR ''b''"
  by code_simp+

lemma month2num_name: "m < 12 \<Longrightarrow> month_name m = [c0, c1, c2] \<Longrightarrow> month2num c0 c1 c2 = int m"
  by (drule less_12_cases, elim disjE)
    (simp_all add: month_name_def, auto simp: month2num_def or32_letters)

lemma month_name_shape:
  "m < 12 \<Longrightarrow> \<exists>c0 c1 c2. month_name m = [c0, c1, c2] \<and> c0 \<noteq> NUL \<and> c1 \<noteq> NUL \<and> c2 \<noteq> NUL
     \<and> c0 \<noteq> CHR '' '' \<and> c0 \<noteq> CHR ''-'' \<and> \<not> c_isdigit c0"
  by (drule less_12_cases, elim disjE)
    (simp_all add: month_name_def NUL_def c_isdigit_def)

lemma parse_month_name:
  assumes "drop p b = month_name m @ r" "m < 12"
  shows "parse_month b None p = (int m, p + 3)"
proof -
  obtain c0 c1 c2 where c: "month_name m = [c0, c1, c2]" "c0 \<noteq> NUL" "c1 \<noteq> NUL" "c2 \<noteq> NUL"
    using month_name_shape [OF assms(2)] by blast
  have "rd b p = c0" "rd b (p + 1) = c1" "rd b (p + 2) = c2"
    using assms c rd_drop [of b p 0] rd_drop [of b p 1] rd_drop [of b p 2]
    by simp_all
  then show ?thesis
    using c month2num_name [OF assms(2) c(1)] by (simp add: parse_month_def)
qed

lemma skip_time_sep_one:
  assumes "drop p b = c # c' # r" "c = CHR '' '' \<or> c = CHR ''-''" "c' \<noteq> CHR '' ''" "c' \<noteq> CHR ''-''"
  shows "skip_time_sep b None p = Some (p + 1)"
proof -
  have "rd b p = c" "rd b (p + 1) = c'"
    using assms rd_drop [of b p 0] rd_drop [of b p 1] by simp_all
  then have "skip_sep b None p = p + 1"
    using assms by (auto simp: skip_sep.simps [of b None p] skip_sep.simps [of b None "Suc p"] before_def)
  then show ?thesis
    by (simp add: skip_time_sep_def)
qed

definition hms :: "nat \<Rightarrow> nat \<Rightarrow> nat \<Rightarrow> string" where
  "hms h mi s = two h @ '':'' @ two mi @ '':'' @ two s"

lemma parse_time_hms:
  assumes "drop p b = hms h mi s @ r" "h < 24" "mi < 60" "s < 60"
  shows "parse_time b None t p = (True, t\<lparr>tm_hour := int h, tm_min := int mi, tm_sec := int s\<rparr>, p + 8)"
proof -
  have r: "rd b p = dig (h div 10)" "rd b (p + 1) = dig (h mod 10)" "rd b (p + 2) = CHR '':''"
    "rd b (p + 3) = dig (mi div 10)" "rd b (p + 4) = dig (mi mod 10)" "rd b (p + 5) = CHR '':''"
    "rd b (p + 6) = dig (s div 10)" "rd b (p + 7) = dig (s mod 10)"
    using assms rd_drop [of b p 0] rd_drop [of b p 1] rd_drop [of b p 2] rd_drop [of b p 3]
      rd_drop [of b p 4] rd_drop [of b p 5] rd_drop [of b p 6] rd_drop [of b p 7]
    by (simp_all add: hms_def two_def)
  with assms(2-4) show ?thesis
    by (simp add: parse_time_def before_def check_time_def)
qed

lemma skip_week_day_word:
  assumes "drop p b = wd @ CHR '' '' # r" "CHR '' '' \<notin> set wd" "NUL \<notin> set wd"
  shows "skip_week_day b None p = Some (p + length wd)"
  using assms
proof (induction wd arbitrary: p)
  case Nil
  then have "rd b p = CHR '' ''" using rd_drop [of b p 0] by simp
  then show ?case by (simp add: skip_week_day.simps [of b None p])
next
  case (Cons c wd)
  have "drop (p + 1) b = wd @ CHR '' '' # r"
    using Cons.prems(1) drop_advance [of p b "[c]"] by simp
  with Cons have IH: "skip_week_day b None (p + 1) = Some (p + 1 + length wd)"
    by simp
  have "rd b p = c" using Cons.prems rd_drop [of b p 0] by simp
  with Cons.prems IH show ?case
    by (auto simp: skip_week_day.simps [of b None p] before_def)
qed

lemma leap_2099: "1970 \<le> y \<Longrightarrow> y < 2100 \<Longrightarrow> leap y \<longleftrightarrow> y mod 4 = 0"
proof -
  assume y: "1970 \<le> y" "y < 2100"
  have "y mod 100 = 0 \<Longrightarrow> y = 2000"
    using y by presburger
  then show ?thesis
    by (cases "y = 2000") (auto simp: leap_def)
qed

lemma days_before_year_Suc:
  "1970 \<le> y \<Longrightarrow> days_before_year (Suc y) = days_before_year y + (if leap y then 366 else 365)"
  by (simp add: days_before_year_def)

lemma days_before_year_closed:
  "n \<le> 130 \<Longrightarrow> days_before_year (1970 + n) = 365 * n + (n + 1) div 4"
proof (induction n)
  case 0
  then show ?case by (simp add: days_before_year_def)
next
  case (Suc n)
  have "leap (1970 + n) \<longleftrightarrow> (n + 2) mod 4 = 0"
    using leap_2099 [of "1970 + n"] Suc.prems by (simp, presburger)
  moreover have "(Suc n + 1) div 4 = (n + 1) div 4 + (if (n + 2) mod 4 = 0 then 1 else 0)"
    by (cases "(n + 2) mod 4 = 0") (simp_all, presburger+)
  ultimately show ?case
    using Suc days_before_year_Suc [of "1970 + n"] by simp
qed

lemma days_before_month_closed:
  "m < 12 \<Longrightarrow> days_before_month y m =
     [0, 31, 59, 90, 120, 151, 181, 212, 243, 273, 304, 334] ! m + (if m > 1 \<and> leap y then 1 else 0)"
  by (drule less_12_cases, elim disjE)
    (simp_all add: days_before_month_def days_in_month_def numeral_eq_Suc)


lemma sdiv_nonneg: "0 \<le> a \<Longrightarrow> 0 \<le> b \<Longrightarrow> a sdiv b = a div (b::int)"
  by (cases "a = 0"; cases "b = 0") (simp_all add: signed_divide_int_def)

lemma div_1461: "(k::int) * 1461 div 4 = 365 * k + k div 4"
proof -
  have "k * 1461 div 4 = (k + (365 * k) * 4) div 4"
    by (rule arg_cong [of _ _ "\<lambda>x. x div 4"]) simp
  then show ?thesis
    by simp
qed

text \<open>The days \<^verbatim>\<open>my_timegm\<close> computes, for the years in which every fourth year is a leap year.\<close>

lemma timegm_days:
  assumes "n \<le> 67" "m < 12"
  shows "timegm_mday (int n + 70) (int m) d =
     int (days_before_year (1970 + n) + days_before_month (1970 + n) m) + d - 1"
proof -
  have lp: "leap (1970 + n) \<longleftrightarrow> (n + 2) mod 4 = 0"
    using leap_2099 [of "1970 + n"] assms(1) by (simp, presburger)
  obtain q e where q: "(int n + 1) div 4 = q" and e: "(if leap (1970 + n) then 1 else 0) = (e::int)"
    by blast
  have dby: "int (days_before_year (1970 + n)) = 365 * int n + q"
    using assms(1) q days_before_year_closed [of n] by (simp add: zdiv_int add.commute)
  have dbm: "int (days_before_month (1970 + n) m) =
      [0, 31, 59, 90, 120, 151, 181, 212, 243, 273, 304, 334] ! m + (if m > 1 then e else 0)"
    using less_12_cases [OF assms(2)] unfolding e [symmetric]
    by (elim disjE) (simp_all add: days_before_month_closed)
  have q2: "(int n + 2) div 4 = q + e"
    unfolding q [symmetric] e [symmetric] lp by presburger
  have n1: "1461 + int n * 1461 = (int n + 1) * 1461" "2922 + int n * 1461 = (int n + 2) * 1461"
    by simp_all
  have y: "(1461 + int n * 1461) sdiv 4 = 365 * (int n + 1) + q"
       "(2922 + int n * 1461) sdiv 4 = 365 * (int n + 2) + (q + e)"
    unfolding n1 by (subst sdiv_nonneg, simp, simp, simp only: div_1461 q q2)+
  from less_12_cases [OF assms(2)] show ?thesis
    using dbm by (elim disjE) (simp_all add: timegm_mday_def dby y)
qed

lemma my_timegm_epoch:
  assumes "1970 \<le> y" "y \<le> 2037" "m < 12" "1 \<le> d" "d \<le> 31" "h < 24" "mi < 60" "s < 60"
  shows "my_timegm \<lparr>tm_year = int y - 1900, tm_mon = int m, tm_mday = int d, tm_hour = int h,
           tm_min = int mi, tm_sec = int s\<rparr> = epoch y m d h mi s"
proof -
  obtain n where n: "y = 1970 + n"
    using assms(1) le_Suc_ex by blast
  with assms(2) have n67: "n \<le> 67"
    by simp
  let ?D = "int (days_before_year y + days_before_month y m)"
  have "days_before_year y \<le> 24472" "days_before_month y m \<le> 335"
    using n n67 days_before_year_closed [of n] days_before_month_closed [OF assms(3), of y] less_12_cases [OF assms(3)]
    by (auto)
  then have bound: "0 \<le> epoch y m d h mi s" "epoch y m d h mi s < 2 ^ 31"
    using assms unfolding epoch_def by auto
  have days: "timegm_mday (int y - 1900) (int m) (int d) = ?D + int d - 1"
    using timegm_days [OF n67 assms(3), of "int d"] n by (simp add: add.commute)
  have "(?D + int d - 1) * 60 * 60 * 24 + int h * 60 * 60 + int mi * 60 + int s = epoch y m d h mi s"
    by (simp add: epoch_def algebra_simps)
  with bound days show ?thesis
    by (simp only: my_timegm_def Let_def tm.simps) (simp add: int32_id)
qed

definition rfc_tail :: "char \<Rightarrow> nat \<Rightarrow> nat \<Rightarrow> string \<Rightarrow> nat \<Rightarrow> nat \<Rightarrow> nat \<Rightarrow> string" where
  "rfc_tail sep d m yr h mi s =
     two d @ [sep] @ month_name m @ [sep] @ yr @ '' '' @ hms h mi s @ '' GMT''"

text \<open>The fields before the year are read alike in the formats of RFC 1123 and RFC 850.\<close>

lemma parse_rfc_upto_year:
  assumes "drop p b = rfc_tail sep d m (c # yr) h mi s" "sep = CHR '' '' \<or> sep = CHR ''-''" "c_isdigit c"
    "d \<le> 31" "m < 12"
  shows "drop (p + 7) b = c # yr @ '' '' @ hms h mi s @ '' GMT''" (is ?A)
    and "parse_rfc b None p =
       (case parse_year b None (p + 7) of (year, p) \<Rightarrow>
        if year < 0 then None else
        case skip_time_sep b None p of None \<Rightarrow> None | Some p \<Rightarrow>
        case parse_time b None \<lparr>tm_year = year, tm_mon = int m, tm_mday = int d, tm_hour = 0, tm_min = 0, tm_sec = 0\<rparr> p of
          (ok, t, p) \<Rightarrow> if \<not> ok then None else Some (t, p))" (is ?B)
proof -
  obtain c0 c1 c2 where mn: "month_name m = [c0, c1, c2]" "c0 \<noteq> CHR '' ''" "c0 \<noteq> CHR ''-''"
    using month_name_shape [OF assms(5)] by blast
  have b: "drop p b = two d @ sep # c0 # c1 # c2 # sep # c # yr @ '' '' @ hms h mi s @ '' GMT''"
    using assms(1) mn by (simp add: rfc_tail_def)
  have b2: "drop (p + 2) b = sep # c0 # c1 # c2 # sep # c # yr @ '' '' @ hms h mi s @ '' GMT''"
    using drop_advance [OF b] by (simp add: two_def)
  have b3: "drop (p + 3) b = month_name m @ sep # c # yr @ '' '' @ hms h mi s @ '' GMT''"
    using drop_advance [of "p + 2" b "[sep]"] b2 mn by (simp add: eval_nat_numeral)
  have b6: "drop (p + 6) b = sep # c # yr @ '' '' @ hms h mi s @ '' GMT''"
    using drop_advance [OF b3] mn by (simp add: add.commute)
  show ?A
    using drop_advance [of "p + 6" b "[sep]"] b6 by (simp add: add.commute)
  have "parse_day b None p = (int d, p + 2)"
    using parse_day_two [OF b] assms by simp
  moreover have "skip_time_sep b None (p + 2) = Some (p + 3)"
    using skip_time_sep_one [OF b2] assms mn by simp
  moreover have "parse_month b None (p + 3) = (int m, p + 6)"
    using parse_month_name [OF b3] assms by simp
  moreover have "skip_time_sep b None (p + 6) = Some (p + 7)"
    using skip_time_sep_one [OF b6] assms by simp
  ultimately show ?B
    using assms by (simp add: parse_rfc_def)
qed

lemma hms_shape: "h < 24 \<Longrightarrow> \<exists>c r. hms h mi s = c # r \<and> c_isdigit c"
  by (simp add: hms_def two_def)

text \<open>After the year both formats go on with the time of day.\<close>

lemma parse_rfc_time:
  assumes "drop q b = '' '' @ hms h mi s @ r" "h < 24" "mi < 60" "s < 60"
  shows "(case skip_time_sep b None q of None \<Rightarrow> None | Some p \<Rightarrow>
        case parse_time b None t p of
          (ok, t, p) \<Rightarrow> if \<not> ok then None else Some (t, p))
      = Some (t\<lparr>tm_hour := int h, tm_min := int mi, tm_sec := int s\<rparr>, q + 9)"
proof -
  obtain c r' where c: "hms h mi s = c # r'" "c_isdigit c"
    using hms_shape [OF assms(2)] by blast
  have "skip_time_sep b None q = Some (q + 1)"
    using skip_time_sep_one [of q b "CHR '' ''" c "r' @ r"] assms(1) c by simp
  moreover have "drop (q + 1) b = hms h mi s @ r"
    using drop_advance [of q b "'' ''"] assms(1) by simp
  then have "parse_time b None t (q + 1) = (True, t\<lparr>tm_hour := int h, tm_min := int mi, tm_sec := int s\<rparr>, q + 1 + 8)"
    using assms(2-4) by (rule parse_time_hms)
  ultimately show ?thesis
    by simp
qed

lemma parse_date_rfc:
  assumes "CHR '' '' \<notin> set wd" "NUL \<notin> set wd" "c_isdigit c"
  shows "parse_date (Some (wd @ '' '' @ c # r)) 0 None upd True =
     (case parse_rfc (wd @ '' '' @ c # r) None (length wd + 1) of
        None \<Rightarrow> (0, 0) | Some (t, q) \<Rightarrow> (my_timegm t, if upd then q else 0))"
proof -
  let ?b = "wd @ '' '' @ c # r"
  have "skip_week_day ?b None 0 = Some (length wd)"
    using skip_week_day_word [of 0 ?b wd "c # r"] assms by simp
  moreover have "skip_time_sep ?b None (length wd) = Some (length wd + 1)"
    using skip_time_sep_one [of "length wd" ?b "CHR '' ''" c r] assms(3) by simp
  moreover have "rd ?b (length wd + 1) = c"
    using rd_drop [of ?b "length wd" 1] by simp
  ultimately show ?thesis
    using assms(3) by (simp add: parse_date_def)
qed

definition rfc1123 :: "string \<Rightarrow> nat \<Rightarrow> nat \<Rightarrow> nat \<Rightarrow> nat \<Rightarrow> nat \<Rightarrow> nat \<Rightarrow> string" where
  "rfc1123 wd d m y h mi s = wd @ '' '' @ rfc_tail (CHR '' '') d m (four y) h mi s"

definition rfc850 :: "string \<Rightarrow> nat \<Rightarrow> nat \<Rightarrow> nat \<Rightarrow> nat \<Rightarrow> nat \<Rightarrow> nat \<Rightarrow> string" where
  "rfc850 wd d m yy h mi s = wd @ '' '' @ rfc_tail (CHR ''-'') d m (two yy) h mi s"

lemma rfc_tail_shape: "\<exists>r. rfc_tail sep d m yr h mi s = dig (d div 10) # r"
  by (simp add: rfc_tail_def two_def)

lemma parse_rfc1123:
  assumes "drop p b = rfc_tail (CHR '' '') d m (four y) h mi s"
    "y < 10000" "1900 \<le> y" "m < 12" "d \<le> 31" "h < 24" "mi < 60" "s < 60"
  shows "parse_rfc b None p = Some (\<lparr>tm_year = int y - 1900, tm_mon = int m, tm_mday = int d,
     tm_hour = int h, tm_min = int mi, tm_sec = int s\<rparr>, p + 20)"
proof -
  obtain c yr where y4: "four y = c # yr" "c_isdigit c"
    using assms(2) by (simp add: four_def)
  note up = parse_rfc_upto_year [OF assms(1) [unfolded y4(1)] _ y4(2) assms(5,4)]
  have b7: "drop (p + 7) b = four y @ '' '' @ hms h mi s @ '' GMT''"
    using up(1) y4 by simp
  have b11: "drop (p + 11) b = '' '' @ hms h mi s @ '' GMT''"
    using drop_advance [OF b7] by (simp add: four_def add.commute)
  show ?thesis
    using up(2) parse_year_four [OF b7 assms(2)] parse_rfc_time [OF b11 assms(6-8)] assms(3)
    by (simp add: add.commute)
qed

lemma parse_rfc850:
  assumes "drop p b = rfc_tail (CHR ''-'') d m (two yy) h mi s"
    "yy < 100" "m < 12" "d \<le> 31" "h < 24" "mi < 60" "s < 60"
  shows "parse_rfc b None p = (if yy < 70
     then Some (\<lparr>tm_year = int yy + 100, tm_mon = int m, tm_mday = int d,
       tm_hour = int h, tm_min = int mi, tm_sec = int s\<rparr>, p + 18)
     else None)"
proof -
  obtain c yr where y2: "two yy = c # yr" "c_isdigit c"
    using assms(2) by (simp add: two_def)
  note up = parse_rfc_upto_year [OF assms(1) [unfolded y2(1)] _ y2(2) assms(4,3)]
  have b7: "drop (p + 7) b = two yy @ CHR '' '' # hms h mi s @ '' GMT''"
    using up(1) y2 by simp
  have b9: "drop (p + 9) b = '' '' @ hms h mi s @ '' GMT''"
    using drop_advance [OF b7] by (simp add: two_def add.commute)
  have "rd b (p + 7) = c"
    using rd_drop [of b "p + 7" 0] b7 y2 by simp
  then have stuck: "skip_time_sep b None (p + 7) = None"
    using y2(2) by (simp add: skip_time_sep_def skip_sep.simps [of b None "p + 7"] before_def)
  have "\<not> c_isdigit (CHR '' '')"
    by (simp add: c_isdigit_def)
  with parse_year_two [OF b7 assms(2)]
  have "parse_year b None (p + 7) = (if yy < 70 then (int yy + 100, p + 9) else (int yy, p + 7))"
    by simp
  with up(2) stuck parse_rfc_time [OF b9 assms(5-7)] show ?thesis
    by (simp add: add.commute)
qed

lemma my_timegm_bound: "my_timegm t < 2 ^ 31"
proof -
  have "int32 x < 2 ^ 31" for x
    using pos_mod_bound [of "2 ^ 32" "x + 2 ^ 31"] by (simp add: int32_def)
  then show ?thesis
    by (simp add: my_timegm_def Let_def)
qed

lemma days_before_year_lower: "365 * n \<le> days_before_year (1970 + n)"
proof (induction n)
  case (Suc n)
  then show ?case
    using days_before_year_Suc [of "1970 + n"] by simp
qed simp

section \<open>Properties\<close>

text \<open>a date in the preferred format of HTTP (RFC 1123), for any day name and any valid
  date from 1970 to 2037, is parsed to the number of seconds since the epoch, counted
  independently through the Gregorian calendar, and the position is left behind the time.\<close>

theorem date_rfc1123:
  assumes "CHR '' '' \<notin> set wd" "NUL \<notin> set wd" "1970 \<le> y" "y \<le> 2037" "m < 12" "1 \<le> d" "d \<le> 31"
    "h < 24" "mi < 60" "s < 60"
  shows "parse_date (Some (rfc1123 wd d m y h mi s)) 0 None upd True =
     (epoch y m d h mi s, if upd then length wd + 21 else 0)"
proof -
  obtain r where r: "rfc_tail (CHR '' '') d m (four y) h mi s = dig (d div 10) # r"
    using rfc_tail_shape by blast
  have "drop (length wd + 1) (rfc1123 wd d m y h mi s) = rfc_tail (CHR '' '') d m (four y) h mi s"
    by (simp add: rfc1123_def)
  note p = parse_rfc1123 [OF this]
  have "c_isdigit (dig (d div 10))"
    using assms by simp
  from parse_date_rfc [OF assms(1,2) this, of r upd] p my_timegm_epoch [OF assms(3-10)] assms show ?thesis
    by (simp add: rfc1123_def r)
qed

theorem date_rfc1123_witness:
  "parse_date (Some ''Sun, 06 Nov 1994 08:49:37 GMT'') 0 None True True = (784111777, 25)"
proof -
  have "rfc1123 ''Sun,'' 6 10 1994 8 49 37 = ''Sun, 06 Nov 1994 08:49:37 GMT''"
    by code_simp
  moreover have "epoch 1994 10 6 8 49 37 = 784111777"
    using days_before_year_closed [of 24] days_before_month_closed [of 10 1994]
    by (simp add: epoch_def leap_def)
  ultimately show ?thesis
    using date_rfc1123 [of "''Sun,''" 1994 10 6 8 49 37 True] by (simp add: NUL_def)
qed

text \<open>a date in the RFC 850 format, which the comment at the head of the file lists as
  accepted, is rejected whenever its two-digit year lies in 1970 to 1999: \<^verbatim>\<open>parse_year\<close> returns the
  year without advancing the position, so no separator is found behind it.\<close>

theorem date_rfc850_rejected:
  assumes "CHR '' '' \<notin> set wd" "NUL \<notin> set wd" "70 \<le> yy" "yy < 100" "m < 12" "d \<le> 31"
    "h < 24" "mi < 60" "s < 60"
  shows "parse_date (Some (rfc850 wd d m yy h mi s)) 0 None upd True = (0, 0)"
proof -
  obtain r where r: "rfc_tail (CHR ''-'') d m (two yy) h mi s = dig (d div 10) # r"
    using rfc_tail_shape by blast
  have "drop (length wd + 1) (rfc850 wd d m yy h mi s) = rfc_tail (CHR ''-'') d m (two yy) h mi s"
    by (simp add: rfc850_def)
  note p = parse_rfc850 [OF this]
  have "c_isdigit (dig (d div 10))"
    using assms by simp
  from parse_date_rfc [OF assms(1,2) this, of r upd] p assms show ?thesis
    by (simp add: rfc850_def r)
qed

theorem date_rfc850_rejected_witness:
  "parse_date (Some ''Sunday, 06-Nov-94 08:49:37 GMT'') 0 None True True = (0, 0)"
proof -
  have "rfc850 ''Sunday,'' 6 10 94 8 49 37 = ''Sunday, 06-Nov-94 08:49:37 GMT''"
    by code_simp
  then show ?thesis
    using date_rfc850_rejected [of "''Sunday,''" 94 10 6 8 49 37 True] by (simp add: NUL_def)
qed

text \<open>In the same format a two-digit year below 38 is taken to lie in the years from 2000
  and the date is parsed to its seconds since the epoch.\<close>

theorem date_rfc850_next_century:
  assumes "CHR '' '' \<notin> set wd" "NUL \<notin> set wd" "yy < 38" "m < 12" "1 \<le> d" "d \<le> 31"
    "h < 24" "mi < 60" "s < 60"
  shows "parse_date (Some (rfc850 wd d m yy h mi s)) 0 None upd True =
     (epoch (2000 + yy) m d h mi s, if upd then length wd + 19 else 0)"
proof -
  obtain r where r: "rfc_tail (CHR ''-'') d m (two yy) h mi s = dig (d div 10) # r"
    using rfc_tail_shape by blast
  have "drop (length wd + 1) (rfc850 wd d m yy h mi s) = rfc_tail (CHR ''-'') d m (two yy) h mi s"
    by (simp add: rfc850_def)
  note p = parse_rfc850 [OF this]
  have d: "c_isdigit (dig (d div 10))"
    using assms by simp
  have "my_timegm \<lparr>tm_year = int yy + 100, tm_mon = int m, tm_mday = int d, tm_hour = int h,
           tm_min = int mi, tm_sec = int s\<rparr> = epoch (2000 + yy) m d h mi s"
    using my_timegm_epoch [of "2000 + yy" m d h mi s] assms by (simp add: add.commute)
  with parse_date_rfc [OF assms(1,2) d, of r upd] p assms show ?thesis
    by (simp add: rfc850_def r)
qed

theorem date_rfc850_next_century_witness:
  "parse_date (Some ''Sunday, 06-Nov-14 08:49:37 GMT'') 0 None True True = (1415263777, 26)"
proof -
  have "rfc850 ''Sunday,'' 6 10 14 8 49 37 = ''Sunday, 06-Nov-14 08:49:37 GMT''"
    by code_simp
  moreover have "epoch 2014 10 6 8 49 37 = 1415263777"
    using days_before_year_closed [of 44] days_before_month_closed [of 10 2014]
    by (simp add: epoch_def leap_def)
  ultimately show ?thesis
    using date_rfc850_next_century [of "''Sunday,''" 14 10 6 8 49 37 True] by (simp add: NUL_def)
qed

text \<open>\<^verbatim>\<open>my_timegm\<close> computes the seconds in \<^verbatim>\<open>int\<close>, so no date from 2039 on is parsed to its
  seconds since the epoch.\<close>

theorem date_from_2039_wrong:
  assumes "2039 \<le> y" "1 \<le> d"
  shows "fst (parse_date buf pos e upd swd) \<noteq> epoch y m d h mi s"
proof -
  obtain n where n: "y = 1970 + n" "69 \<le> n"
    using assms(1) le_Suc_ex [of 1970 y] by auto
  have "25185 \<le> days_before_year y"
    using days_before_year_lower [of n] n by simp
  then have "2 ^ 31 \<le> epoch y m d h mi s"
    using assms(2) by (simp add: epoch_def)
  moreover have "fst (parse_date buf pos e upd swd) < 2 ^ 31"
    using my_timegm_bound by (auto simp: parse_date_def split: option.split)
  ultimately show ?thesis
    by linarith
qed

theorem date_from_2039_wrong_witness:
  "fst (parse_date (Some ''Sat, 01 Jan 2039 00:00:00 GMT'') 0 None True True) \<noteq> epoch 2039 0 1 0 0 0"
  using date_from_2039_wrong [of 2039 1] by simp

end
