(* ===== verification/Fragments.thy ===== *)
theory Fragments
  imports Prelude
begin

text \<open>
  \<^verbatim>\<open>elinks/src/cache/cache.c\<close>, the fragment store of a cache entry: downloaded pieces kept as a list
  of fragments ordered by offset. The abstraction of the list is the partial map \<open>content\<close> from
  offsets to bytes. \<open>alloc n\<close> tells whether allocating, or resizing to, a fragment
  with room for \<open>n\<close> bytes succeeds. Offsets (\<^verbatim>\<open>off_t\<close>) are \<open>int\<close>; \<^verbatim>\<open>cache_size\<close> is
  unsigned and wraps at \<open>2 ^ 64\<close>.
\<close>

section \<open>Data\<close>

text \<open>\<open>f_data\<close> is the room of the fragment, of which the first \<open>f_len\<close> bytes are in use.\<close>

record fragment =
  f_off :: int
  f_len :: int
  f_real :: int
  f_data :: "uchar list"

record cache_entry =
  frag :: "fragment list"
  entry_id :: int
  entry_length :: int
  data_size :: int
  incomplete :: bool
  preformatted :: bool
  last_modified :: "string option"
  etag :: "string option"

record cache_globals =
  cache_size :: int
  id_counter :: int

type_synonym entry_state = "cache_entry \<times> cache_globals"

definition f_end :: "fragment \<Rightarrow> int" where
  "f_end f = f_off f + f_len f"

section \<open>Sizes and buffers\<close>

definition CACHE_PAD :: "int \<Rightarrow> int" where
  "CACHE_PAD x = (x OR 0x3fff) + 1"

text \<open>The failed assertions of \<^verbatim>\<open>enlarge_entry\<close> reset the size of the entry to 0; the one on
  \<^verbatim>\<open>cache_size\<close>, which is unsigned, cannot fail.\<close>

definition enlarge_entry :: "int \<Rightarrow> entry_state \<Rightarrow> entry_state" where
  "enlarge_entry sz st =
     (case st of (c, g) \<Rightarrow>
        (c\<lparr>data_size := (if data_size c + sz \<ge> 0 then data_size c + sz else 0)\<rparr>,
         g\<lparr>cache_size := (cache_size g + sz) mod 2 ^ 64\<rparr>))"

definition frag_alloc :: "(int \<Rightarrow> bool) \<Rightarrow> int \<Rightarrow> fragment option" where
  "frag_alloc alloc sz =
     (if alloc sz then Some \<lparr>f_off = 0, f_len = 0, f_real = 0, f_data = replicate (nat sz) 0\<rparr> else None)"

text \<open>Resizing keeps the common prefix of the room and fills up with zero bytes. A failed resize
  leaves the fragment as it is.\<close>

definition frag_realloc :: "(int \<Rightarrow> bool) \<Rightarrow> fragment \<Rightarrow> int \<Rightarrow> fragment option" where
  "frag_realloc alloc f sz =
     (if alloc sz
      then Some (f\<lparr>f_data := take (nat sz) (f_data f) @ replicate (nat sz - length (f_data f)) 0\<rparr>)
      else None)"

text \<open>\<^verbatim>\<open>memcpy\<close> to an offset of a buffer, and the bytes a \<^verbatim>\<open>memcmp\<close> looks at.\<close>

definition memcpy_at :: "uchar list \<Rightarrow> int \<Rightarrow> uchar list \<Rightarrow> uchar list" where
  "memcpy_at buf i bytes = take (nat i) buf @ bytes @ drop (nat i + length bytes) buf"

definition bytes_at :: "uchar list \<Rightarrow> int \<Rightarrow> int \<Rightarrow> uchar list" where
  "bytes_at buf i n = take (nat n) (drop (nat i) buf)"

section \<open>Operations\<close>

text \<open>The loop of \<^verbatim>\<open>remove_overlaps\<close>, where \<open>fend\<close> is \<^verbatim>\<open>f_end_offset\<close>, computed once before the loop. The
  arguments are the fragment, those after it, the \<^verbatim>\<open>trunc\<close> flag and the entry.\<close>

fun remove_overlaps_loop ::
  "(int \<Rightarrow> bool) \<Rightarrow> int \<Rightarrow> fragment \<Rightarrow> fragment list \<Rightarrow> bool \<Rightarrow> entry_state \<Rightarrow>
   fragment \<times> fragment list \<times> bool \<times> entry_state" where
  "remove_overlaps_loop alloc fend f [] trunc st = (f, [], trunc, st)"
| "remove_overlaps_loop alloc fend f (n # rest) trunc st =
     (if fend > f_off n then
        let end_offset = f_off n + f_len n;
            (f, trunc, st) =
              (if fend < end_offset then
                 (case frag_realloc alloc f (end_offset - f_off f) of
                    None \<Rightarrow> (f, trunc, st)
                  | Some nf \<Rightarrow>
                      let cmplen = f_off nf + f_len nf - f_off n;
                          trunc = (trunc \<or> bytes_at (f_data nf) (f_off n - f_off nf) cmplen \<noteq> bytes_at (f_data n) 0 cmplen);
                          d = memcpy_at (f_data nf) (f_len nf) (bytes_at (f_data n) (fend - f_off n) (end_offset - fend))
                      in (nf\<lparr>f_data := d, f_len := end_offset - f_off nf, f_real := end_offset - f_off nf\<rparr>,
                          trunc, enlarge_entry (end_offset - fend) st))
               else
                 (f, trunc \<or> bytes_at (f_data f) (f_off n - f_off f) (f_len n) \<noteq> bytes_at (f_data n) 0 (f_len n), st))
        in remove_overlaps_loop alloc fend f rest trunc (enlarge_entry (- f_len n) st)
      else (f, n # rest, trunc, st))"

definition remove_overlaps ::
  "(int \<Rightarrow> bool) \<Rightarrow> fragment \<Rightarrow> fragment list \<Rightarrow> entry_state \<Rightarrow>
   fragment \<times> fragment list \<times> bool \<times> entry_state" where
  "remove_overlaps alloc f rest st = remove_overlaps_loop alloc (f_off f + f_len f) f rest False st"

text \<open>\<^verbatim>\<open>delete_fragment\<close> drops a fragment and all after it: only the sizes are left to adjust.\<close>

fun delete_fragment :: "fragment list \<Rightarrow> entry_state \<Rightarrow> entry_state" where
  "delete_fragment [] st = st"
| "delete_fragment (f # fs) st = delete_fragment fs (enlarge_entry (- f_len f) st)"

text \<open>The fragment \<^verbatim>\<open>truncate_entry\<close> cuts short, with its room given back when \<open>final\<close>.\<close>

definition shrink :: "(int \<Rightarrow> bool) \<Rightarrow> bool \<Rightarrow> fragment \<Rightarrow> int \<Rightarrow> fragment" where
  "shrink alloc final f n =
     (let f = f\<lparr>f_len := n\<rparr> in
      if final then (case frag_realloc alloc f (f_len f) of None \<Rightarrow> f | Some nf \<Rightarrow> nf\<lparr>f_real := f_len nf\<rparr>) else f)"

text \<open>The loop of \<^verbatim>\<open>truncate_entry\<close>: the fragments kept.\<close>

fun truncate_frags ::
  "(int \<Rightarrow> bool) \<Rightarrow> int \<Rightarrow> bool \<Rightarrow> fragment list \<Rightarrow> entry_state \<Rightarrow> fragment list \<times> entry_state" where
  "truncate_frags alloc offset final [] st = ([], st)"
| "truncate_frags alloc offset final (f # fs) st =
     (let sz = offset - f_off f in
      if sz \<ge> f_len f then
        (case truncate_frags alloc offset final fs st of (fs', st') \<Rightarrow> (f # fs', st'))
      else if sz > 0 then
        let st = enlarge_entry (- (f_len f - sz)) st
        in ([shrink alloc final f sz], delete_fragment fs st)
      else ([], delete_fragment (f # fs) st))"

definition truncate_entry :: "(int \<Rightarrow> bool) \<Rightarrow> int \<Rightarrow> bool \<Rightarrow> entry_state \<Rightarrow> entry_state" where
  "truncate_entry alloc offset final st =
     (case st of (c, g) \<Rightarrow>
      let c = (if entry_length c > offset then c\<lparr>entry_length := offset, incomplete := True\<rparr> else c)
      in case truncate_frags alloc offset final (frag c) (c, g) of
           (fs, (c, g)) \<Rightarrow> (c\<lparr>frag := fs\<rparr>, g))"

text \<open>Where the search loop of \<^verbatim>\<open>add_fragment\<close> stops: in front of a fragment that begins later (or at
  the end), or at a fragment that the new data touches.\<close>

datatype place =
    Insert "fragment list" "fragment list"
  | Touch "fragment list" fragment "fragment list"

fun find_place :: "int \<Rightarrow> fragment list \<Rightarrow> place" where
  "find_place offset [] = Insert [] []"
| "find_place offset (f # fs) =
     (if f_off f > offset then Insert [] (f # fs)
      else if f_off f + f_len f < offset then
        (case find_place offset fs of
           Insert pre rest \<Rightarrow> Insert (f # pre) rest
         | Touch pre t rest \<Rightarrow> Touch (f # pre) t rest)
      else Touch [] f fs)"

text \<open>Making up a new fragment between \<open>pre\<close> and \<open>rest\<close>.\<close>

definition new_fragment ::
  "(int \<Rightarrow> bool) \<Rightarrow> fragment list \<Rightarrow> fragment list \<Rightarrow> int \<Rightarrow> uchar list \<Rightarrow> entry_state \<Rightarrow> int \<times> entry_state" where
  "new_fragment alloc pre rest offset dat st =
     (let len = int (length dat) in
      case frag_alloc alloc (CACHE_PAD len) of
        None \<Rightarrow> (-1, case st of (c, g) \<Rightarrow> (c\<lparr>frag := pre @ rest\<rparr>, g))
      | Some nf \<Rightarrow>
          let nf = nf\<lparr>f_off := offset, f_len := len, f_real := CACHE_PAD len, f_data := memcpy_at (f_data nf) 0 dat\<rparr>;
              st = enlarge_entry len st
          in case remove_overlaps alloc nf rest st of
               (nf, rest, trunc, (c, g)) \<Rightarrow>
                 let st = (c\<lparr>frag := pre @ nf # rest\<rparr>, g)
                 in (1, if trunc then truncate_entry alloc (offset + len) False st else st))"

text \<open>Copying the data into the fragment it touches.\<close>

definition overwrite_fragment ::
  "(int \<Rightarrow> bool) \<Rightarrow> fragment list \<Rightarrow> fragment \<Rightarrow> fragment list \<Rightarrow> int \<Rightarrow> uchar list \<Rightarrow> entry_state \<Rightarrow> entry_state" where
  "overwrite_fragment alloc pre f rest offset dat st =
     (let f = f\<lparr>f_data := memcpy_at (f_data f) (offset - f_off f) dat\<rparr>
      in case remove_overlaps alloc f rest st of
           (f, rest, trunc, (c, g)) \<Rightarrow>
             truncate_entry alloc (offset + int (length dat)) False (c\<lparr>frag := pre @ f # rest\<rparr>, g))"

definition add_fragment :: "(int \<Rightarrow> bool) \<Rightarrow> int \<Rightarrow> uchar list \<Rightarrow> entry_state \<Rightarrow> int \<times> entry_state" where
  "add_fragment alloc offset dat st =
     (if dat = [] then (0, st)
      else case st of (c, g) \<Rightarrow>
        let end_offset = offset + int (length dat);
            c = (if entry_length c < end_offset then c\<lparr>entry_length := end_offset\<rparr> else c);
            c = c\<lparr>entry_id := id_counter g\<rparr>;
            g = g\<lparr>id_counter := id_counter g + 1\<rparr>
        in case find_place offset (frag c) of
             Insert pre rest \<Rightarrow> new_fragment alloc pre rest offset dat (c, g)
           | Touch pre f rest \<Rightarrow>
               let f_end_offset = f_off f + f_len f in
               if end_offset > f_end_offset then
                 if end_offset - f_off f \<le> f_real f then
                   (1, overwrite_fragment alloc pre (f\<lparr>f_len := end_offset - f_off f\<rparr>) rest offset dat
                         (enlarge_entry (end_offset - f_end_offset) (c, g)))
                 else new_fragment alloc (pre @ [f\<lparr>f_len := offset - f_off f\<rparr>]) rest offset dat (c, g)
               else (0, overwrite_fragment alloc pre f rest offset dat (c, g)))"

text \<open>The fragments that follow \<open>prev\<close> without a gap, and the rest; \<open>None\<close> is the internal error on
  an overlap.\<close>

fun adjacent :: "fragment \<Rightarrow> fragment list \<Rightarrow> (fragment list \<times> fragment list) option" where
  "adjacent prev [] = Some ([], [])"
| "adjacent prev (f # fs) =
     (let gap = f_off f - (f_off prev + f_len prev) in
      if gap > 0 then Some ([], f # fs)
      else if gap = 0 then map_option (\<lambda>(xs, ys). (f # xs, ys)) (adjacent f fs)
      else None)"

text \<open>The length of the new fragment is summed up in an \<^verbatim>\<open>int\<close>.\<close>

definition get_cache_fragment :: "(int \<Rightarrow> bool) \<Rightarrow> cache_entry \<Rightarrow> fragment option \<times> cache_entry" where
  "get_cache_fragment alloc c =
     (case frag c of
        [] \<Rightarrow> (None, c)
      | first # fs \<Rightarrow>
          if f_off first \<noteq> 0 then (None, c)
          else if fs = [] then (Some first, c)
          else case adjacent first fs of
                 None \<Rightarrow> (None, c)
               | Some ([], rest) \<Rightarrow> (Some first, c)
               | Some (adj, rest) \<Rightarrow>
                   let run = first # adj; new_len = int32 (sum_list (map f_len run)) in
                   case frag_alloc alloc new_len of
                     None \<Rightarrow> (if f_len first \<noteq> 0 then Some first else None, c)
                   | Some nf \<Rightarrow>
                       let d = memcpy_at (f_data nf) 0 (concat (map (\<lambda>f. bytes_at (f_data f) 0 (f_len f)) run));
                           nf = nf\<lparr>f_len := new_len, f_real := new_len, f_data := d\<rparr>
                       in (Some nf, c\<lparr>frag := nf # rest\<rparr>))"

text \<open>The loop of \<^verbatim>\<open>free_entry_to\<close>. A fragment that is cut moves its data to the front of its room.\<close>

fun free_frags_to :: "int \<Rightarrow> fragment list \<Rightarrow> entry_state \<Rightarrow> fragment list \<times> entry_state" where
  "free_frags_to offset [] st = ([], st)"
| "free_frags_to offset (f # fs) st =
     (if f_off f + f_len f \<le> offset then free_frags_to offset fs (enlarge_entry (- f_len f) st)
      else if f_off f < offset then
        let sz = offset - f_off f;
            len = f_len f - sz;
            f = f\<lparr>f_len := len, f_data := memcpy_at (f_data f) 0 (bytes_at (f_data f) sz len), f_off := offset\<rparr>
        in case free_frags_to offset fs (enlarge_entry (- sz) st) of (fs', st') \<Rightarrow> (f # fs', st')
      else (f # fs, st))"

definition free_entry_to :: "int \<Rightarrow> entry_state \<Rightarrow> entry_state" where
  "free_entry_to offset st =
     (case free_frags_to offset (frag (fst st)) st of (fs, (c, g)) \<Rightarrow> (c\<lparr>frag := fs\<rparr>, g))"

definition delete_entry_content :: "entry_state \<Rightarrow> entry_state" where
  "delete_entry_content st =
     (case enlarge_entry (- data_size (fst st)) st of (c, g) \<Rightarrow>
        (c\<lparr>frag := [], entry_id := id_counter g, entry_length := 0, incomplete := True,
           last_modified := None, etag := None\<rparr>,
         g\<lparr>id_counter := id_counter g + 1\<rparr>))"

definition normalize_cache_entry :: "(int \<Rightarrow> bool) \<Rightarrow> int \<Rightarrow> entry_state \<Rightarrow> entry_state" where
  "normalize_cache_entry alloc truncate_length st =
     (if truncate_length < 0 then st
      else case truncate_entry alloc truncate_length True st of
             (c, g) \<Rightarrow> (c\<lparr>incomplete := False, preformatted := False\<rparr>, g))"

section \<open>Content and well-formedness\<close>

definition in_frag :: "fragment \<Rightarrow> int \<Rightarrow> bool" where
  "in_frag f x \<longleftrightarrow> f_off f \<le> x \<and> x < f_end f"

text \<open>The byte stored for an offset.\<close>

fun content :: "fragment list \<Rightarrow> int \<Rightarrow> uchar option" where
  "content [] x = None"
| "content (f # fs) x = (if in_frag f x then Some (f_data f ! nat (x - f_off f)) else content fs x)"

definition frag_ok :: "fragment \<Rightarrow> bool" where
  "frag_ok f \<longleftrightarrow> 0 \<le> f_len f \<and> f_len f \<le> f_real f \<and> int (length (f_data f)) = f_real f"

text \<open>Fragments in order and disjoint, none before \<open>lo\<close>.\<close>

fun wf_from :: "int \<Rightarrow> fragment list \<Rightarrow> bool" where
  "wf_from lo [] = True"
| "wf_from lo (f # fs) = (lo \<le> f_off f \<and> frag_ok f \<and> wf_from (f_end f) fs)"

definition used :: "fragment list \<Rightarrow> int" where
  "used fs = sum_list (map f_len fs)"

lemma used_simps [simp, frag_simps]:
  "used [] = 0" "used (f # fs) = f_len f + used fs" "used (xs @ ys) = used xs + used ys"
  by (simp_all add: used_def)

lemma wf_from_mono: "wf_from lo fs \<Longrightarrow> lo' \<le> lo \<Longrightarrow> wf_from lo' fs"
  by (cases fs) auto

lemma frag_ok_end: "frag_ok f \<Longrightarrow> f_off f \<le> f_end f"
  by (simp add: frag_ok_def f_end_def)

lemma wf_from_tl: "wf_from lo (f # fs) \<Longrightarrow> wf_from lo fs"
  using frag_ok_end wf_from_mono by fastforce

lemma content_below: "wf_from lo fs \<Longrightarrow> x < lo \<Longrightarrow> content fs x = None"
  by (induction fs arbitrary: lo) (auto simp: in_frag_def dest: frag_ok_end)

lemma wf_from_append:
  "wf_from lo (xs @ ys) \<Longrightarrow> wf_from lo xs \<and> wf_from lo ys"
  by (induction xs arbitrary: lo) (auto dest: frag_ok_end intro: wf_from_mono)

lemma used_nonneg: "wf_from lo fs \<Longrightarrow> 0 \<le> used fs"
  by (induction fs arbitrary: lo) (auto simp: frag_ok_def)

lemma content_append:
  "content (xs @ ys) x = (case content xs x of None \<Rightarrow> content ys x | Some b \<Rightarrow> Some b)"
  by (induction xs) auto

section \<open>Buffers\<close>

lemma length_memcpy_at [simp]:
  "0 \<le> i \<Longrightarrow> nat i + length bytes \<le> length buf \<Longrightarrow> length (memcpy_at buf i bytes) = length buf"
  by (auto simp: memcpy_at_def min_def)

lemma nth_memcpy_at:
  "0 \<le> i \<Longrightarrow> nat i + length bytes \<le> length buf \<Longrightarrow> j < length buf \<Longrightarrow>
     memcpy_at buf i bytes ! j =
       (if nat i \<le> j \<and> j < nat i + length bytes then bytes ! (j - nat i) else buf ! j)"
  by (auto simp: memcpy_at_def nth_append min_def)

lemma length_bytes_at [simp]:
  "0 \<le> i \<Longrightarrow> i + n \<le> int (length buf) \<Longrightarrow> length (bytes_at buf i n) = nat n"
  by (auto simp: bytes_at_def min_def)

lemma nth_bytes_at [simp]:
  "j < nat n \<Longrightarrow> nat i + j < length buf \<Longrightarrow> bytes_at buf i n ! j = buf ! (nat i + j)"
  by (simp add: bytes_at_def)

lemma CACHE_PAD_ge: "0 \<le> x \<Longrightarrow> x < CACHE_PAD x"
proof -
  assume "0 \<le> x"
  have "x \<le> x OR 0x3fff"
  proof -
    have "x OR 0x3fff = x + (0x3fff AND NOT x)"
      by (rule sym, subst disjunctive_add) (auto simp: bit_eq_iff bit_simps)
    moreover have "0 \<le> (0x3fff::int) AND NOT x"
      by simp
    ultimately show ?thesis by linarith
  qed
  then show ?thesis
    by (simp add: CACHE_PAD_def)
qed

section \<open>Accounting\<close>

definition shift :: "int \<Rightarrow> entry_state \<Rightarrow> entry_state" where
  "shift d st = (case st of (c, g) \<Rightarrow>
     (c\<lparr>data_size := data_size c + d\<rparr>, g\<lparr>cache_size := (cache_size g + d) mod 2 ^ 64\<rparr>))"

definition glob_ok :: "cache_globals \<Rightarrow> bool" where
  "glob_ok g \<longleftrightarrow> 0 \<le> cache_size g \<and> cache_size g < 2 ^ 64"

lemma enlarge_shift: "0 \<le> data_size (fst st) + d \<Longrightarrow> enlarge_entry d st = shift d st"
  by (cases st) (simp add: enlarge_entry_def shift_def)

lemma shift_shift [simp]: "shift a (shift b st) = shift (a + b) st"
  by (simp add: shift_def split: prod.split) (simp add: mod_simps algebra_simps)

lemma shift_zero: "glob_ok (snd st) \<Longrightarrow> shift 0 st = st"
  by (cases st) (simp add: shift_def glob_ok_def)

lemma shift_sel [simp]:
  "data_size (fst (shift d st)) = data_size (fst st) + d" "frag (fst (shift d st)) = frag (fst st)"
  "glob_ok (snd (shift d st))"
  by (simp_all add: shift_def glob_ok_def split: prod.split)

lemma delete_fragment_shift:
  "wf_from lo fs \<Longrightarrow> used fs \<le> data_size (fst st) \<Longrightarrow> glob_ok (snd st) \<Longrightarrow>
     delete_fragment fs st = shift (- used fs) st"
proof (induction fs arbitrary: lo st)
  case Nil
  then show ?case by (simp add: shift_zero)
next
  case (Cons f fs)
  have "0 \<le> used fs" "0 \<le> f_len f"
    using Cons.prems used_nonneg [of "f_end f" fs] by (auto simp: frag_ok_def)
  with Cons.prems have "enlarge_entry (- f_len f) st = shift (- f_len f) st"
    by (intro enlarge_shift) simp
  then show ?case
    using Cons.prems Cons.IH [of "f_end f" "shift (- f_len f) st"] by (simp add: algebra_simps)
qed

section \<open>Removing overlaps\<close>

lemma frag_realloc_SomeD:
  assumes "frag_realloc alloc f n = Some nf" "frag_ok f" "f_len f \<le> n"
  shows "f_off nf = f_off f" "f_len nf = f_len f" "int (length (f_data nf)) = n"
    and "\<And>j. j < nat (f_len f) \<Longrightarrow> f_data nf ! j = f_data f ! j"
  using assms by (auto simp: frag_realloc_def frag_ok_def nth_append min_def split: if_splits)

lemma loop_stops:
  "wf_from fend rest \<Longrightarrow> remove_overlaps_loop alloc fend f rest trunc st = (f, rest, trunc, st)"
  by (cases rest) auto


text \<open>Growing a fragment over the part of its successor that lies behind its end.\<close>

definition grow :: "fragment \<Rightarrow> fragment \<Rightarrow> fragment \<Rightarrow> fragment" where
  "grow nf f n = nf\<lparr>f_data := memcpy_at (f_data nf) (f_len nf) (bytes_at (f_data n) (f_end f - f_off n) (f_end n - f_end f)),
                   f_len := f_end n - f_off nf, f_real := f_end n - f_off nf\<rparr>"

lemma grow_facts:
  assumes "frag_ok f" "frag_ok n" "f_off f \<le> f_off n" "f_off n < f_end f" "f_end f < f_end n"
    and r: "frag_realloc alloc f (f_end n - f_off f) = Some nf"
  shows "f_off (grow nf f n) = f_off f" "f_len (grow nf f n) = f_end n - f_off f" "frag_ok (grow nf f n)"
    and "\<And>x. f_off f \<le> x \<Longrightarrow> x < f_end n \<Longrightarrow> f_data (grow nf f n) ! nat (x - f_off f) =
          (if x < f_end f then f_data f ! nat (x - f_off f) else f_data n ! nat (x - f_off n))"
proof -
  have len: "f_len f \<le> f_end n - f_off f"
    using assms(5) by (simp add: f_end_def)
  note nf = frag_realloc_SomeD [OF r assms(1) len]
  let ?src = "bytes_at (f_data n) (f_end f - f_off n) (f_end n - f_end f)"
  have room: "f_end f - f_off n + (f_end n - f_end f) \<le> int (length (f_data n))"
    using assms(2) by (simp add: f_end_def frag_ok_def)
  then have src: "length ?src = nat (f_end n - f_end f)"
    using assms(4) by simp
  have fit: "nat (f_len nf) + length ?src \<le> length (f_data nf)"
    using nf(2,3) src assms(1,5) by (simp add: frag_ok_def f_end_def) arith
  show "f_off (grow nf f n) = f_off f" "f_len (grow nf f n) = f_end n - f_off f"
    using nf by (simp_all add: grow_def)
  show "frag_ok (grow nf f n)"
    using nf fit assms by (simp add: grow_def frag_ok_def f_end_def)
  fix x assume x: "f_off f \<le> x" "x < f_end n"
  have j: "nat (x - f_off f) < length (f_data nf)"
    using nf(3) x by linarith
  have "f_data (grow nf f n) ! nat (x - f_off f) = memcpy_at (f_data nf) (f_len nf) ?src ! nat (x - f_off f)"
    by (simp add: grow_def)
  also have "\<dots> = (if x < f_end f then f_data nf ! nat (x - f_off f) else ?src ! (nat (x - f_off f) - nat (f_len f)))"
    using nth_memcpy_at [OF _ fit j] nf(2) src assms(1) x by (auto simp: frag_ok_def f_end_def)
  also have "\<dots> = (if x < f_end f then f_data f ! nat (x - f_off f) else f_data n ! nat (x - f_off n))"
  proof (cases "x < f_end f")
    case True
    then show ?thesis using nf(4) x by (simp add: f_end_def)
  next
    case False
    let ?j = "nat (x - f_off f) - nat (f_len f)"
    have "?j < nat (f_end n - f_end f)" "nat (f_end f - f_off n) + ?j = nat (x - f_off n)" "nat (x - f_off n) < length (f_data n)"
      using False x assms by (auto simp: f_end_def frag_ok_def)
    with False show ?thesis by simp
  qed
  finally show "f_data (grow nf f n) ! nat (x - f_off f) =
          (if x < f_end f then f_data f ! nat (x - f_off f) else f_data n ! nat (x - f_off n))" .
qed

text \<open>One step of the loop.\<close>

lemma loop_grow:
  assumes "f_off n < fend" "fend < f_end n" "fend = f_end f" "frag_realloc alloc f (f_end n - f_off f) = Some nf"
    "f_off nf = f_off f" "f_len nf = f_len f"
  shows "\<exists>t. remove_overlaps_loop alloc fend f (n # rest) trunc st =
     remove_overlaps_loop alloc fend (grow nf f n) rest t
       (enlarge_entry (- f_len n) (enlarge_entry (f_end n - fend) st))"
  using assms by (auto simp: grow_def f_end_def Let_def)

lemma loop_grow_fails:
  assumes "f_off n < fend" "fend < f_end n" "frag_realloc alloc f (f_end n - f_off f) = None"
  shows "remove_overlaps_loop alloc fend f (n # rest) trunc st =
     remove_overlaps_loop alloc fend f rest trunc (enlarge_entry (- f_len n) st)"
  using assms by (auto simp: f_end_def Let_def)

lemma loop_subset:
  assumes "f_off n < fend" "f_end n \<le> fend"
  shows "\<exists>t. remove_overlaps_loop alloc fend f (n # rest) trunc st =
     remove_overlaps_loop alloc fend f rest t (enlarge_entry (- f_len n) st)"
  using assms by (auto simp: f_end_def Let_def)

declare remove_overlaps_loop.simps(2) [simp del]

text \<open>
  What the loop leaves: the fragment with the bytes it had, perhaps grown, followed by
  fragments that begin behind it, with the bytes stored there before; bytes can only get
  lost, and only by a failed allocation. The accounting follows.
\<close>

definition overlap_post ::
  "(int \<Rightarrow> bool) \<Rightarrow> fragment \<Rightarrow> fragment list \<Rightarrow> entry_state \<Rightarrow> fragment \<times> fragment list \<times> bool \<times> entry_state \<Rightarrow> bool" where
  "overlap_post alloc f rest st r \<longleftrightarrow>
     (case r of (f', rest', trunc', st') \<Rightarrow>
        f_off f' = f_off f \<and> f_end f \<le> f_end f' \<and> wf_from (f_off f) (f' # rest') \<and>
        (\<forall>x. in_frag f x \<longrightarrow> content (f' # rest') x = Some (f_data f ! nat (x - f_off f))) \<and>
        (\<forall>x. f_end f \<le> x \<longrightarrow> content (f' # rest') x = content rest x \<or>
               \<not> (\<forall>n. alloc n) \<and> content (f' # rest') x = None) \<and>
        st' = shift (used (f' # rest') - used (f # rest)) st)"

lemma overlap_postI:
  assumes "frag_ok f" "wf_from (f_end f) rest" "glob_ok (snd st)"
  shows "overlap_post alloc f rest st (f, rest, t, st)"
  using assms by (auto simp: overlap_post_def shift_zero in_frag_def)

text \<open>Dropping a successor all of whose bytes are covered, or lost.\<close>

lemma overlap_post_drop:
  assumes "overlap_post alloc f rest (shift (- f_len n) st) r"
    and "\<And>x. f_end f \<le> x \<Longrightarrow> in_frag n x \<Longrightarrow> \<not> (\<forall>n. alloc n) \<and> content rest x = None"
  shows "overlap_post alloc f (n # rest) st r"
proof -
  obtain f' rest' t' st' where r: "r = (f', rest', t', st')"
    by (cases r)
  from assms(1) have "st' = shift (used (f' # rest') - used (f # n # rest)) st"
    by (simp add: overlap_post_def r algebra_simps)
  moreover have "content (f' # rest') x = content (n # rest) x \<or> \<not> (\<forall>n. alloc n) \<and> content (f' # rest') x = None"
    if "f_end f \<le> x" for x
  proof -
    have "content (f' # rest') x = content rest x \<or> \<not> (\<forall>n. alloc n) \<and> content (f' # rest') x = None"
      using assms(1) that unfolding overlap_post_def r prod.case by blast
    with assms(2) [OF that] show ?thesis
      by (cases "in_frag n x") auto
  qed
  ultimately show ?thesis
    using assms(1) unfolding overlap_post_def r prod.case by blast
qed

lemma remove_overlaps_loop_post:
  assumes "frag_ok f" "wf_from (f_off f) rest" "used (f # rest) \<le> data_size (fst st)" "glob_ok (snd st)"
  shows "overlap_post alloc f rest st (remove_overlaps_loop alloc (f_end f) f rest trunc st)"
  using assms(2-4)
proof (induction rest arbitrary: trunc st)
  case Nil
  then show ?case
    using assms(1) by (simp add: overlap_postI)
next
  case (Cons n rest)
  have n: "f_off f \<le> f_off n" "frag_ok n" "wf_from (f_end n) rest" "wf_from (f_off f) rest"
    using Cons.prems(1) wf_from_tl by auto
  have nn: "0 \<le> f_len f" "0 \<le> used rest" "0 \<le> f_len n"
    using assms(1) n used_nonneg [OF n(3)] by (auto simp: frag_ok_def)
  have sh: "enlarge_entry (- f_len n) st = shift (- f_len n) st"
    using Cons.prems(2) nn by (intro enlarge_shift) simp
  note IH = Cons.IH [OF n(4), of "shift (- f_len n) st"]
  show ?case
  proof (cases "f_off n < f_end f")
    case False
    with n show ?thesis
      using overlap_postI [OF assms(1), of "n # rest" st alloc trunc] Cons.prems
      by (simp add: loop_stops)
  next
    case over: True
    show ?thesis
    proof (cases "f_end f < f_end n")
      case False
      obtain t where "remove_overlaps_loop alloc (f_end f) f (n # rest) trunc st =
          remove_overlaps_loop alloc (f_end f) f rest t (shift (- f_len n) st)"
        using loop_subset [OF over, of alloc f rest trunc st] False sh by auto
      moreover have "overlap_post alloc f rest (shift (- f_len n) st)
          (remove_overlaps_loop alloc (f_end f) f rest t (shift (- f_len n) st))"
        using Cons.prems nn by (intro IH) auto
      ultimately show ?thesis
        using False by (auto simp: in_frag_def intro!: overlap_post_drop)
    next
      case grows: True
      show ?thesis
      proof (cases "frag_realloc alloc f (f_end n - f_off f)")
        case None
        then have "\<not> (\<forall>n. alloc n)"
          by (auto simp: frag_realloc_def split: if_splits)
        moreover have "overlap_post alloc f rest (shift (- f_len n) st)
            (remove_overlaps_loop alloc (f_end f) f rest trunc (shift (- f_len n) st))"
          using Cons.prems nn by (intro IH) auto
        ultimately show ?thesis
          using loop_grow_fails [OF over grows None] sh content_below [OF n(3)]
          by (auto simp: in_frag_def intro!: overlap_post_drop)
      next
        case (Some nf)
        have "f_len f \<le> f_end n - f_off f"
          using grows by (simp add: f_end_def)
        note nf = frag_realloc_SomeD [OF Some assms(1) this]
        note g = grow_facts [OF assms(1) n(2,1) over grows Some]
        have ge: "f_end (grow nf f n) = f_end n"
          using g by (simp add: f_end_def)
        have "enlarge_entry (f_end n - f_end f) st = shift (f_end n - f_end f) st"
          using grows Cons.prems(2) nn by (intro enlarge_shift) simp
        moreover have "enlarge_entry (- f_len n) (shift (f_end n - f_end f) st) = shift (- f_len n) (shift (f_end n - f_end f) st)"
          using grows Cons.prems(2) nn by (intro enlarge_shift) simp
        moreover have "wf_from (f_end f) rest"
          using n(3) grows wf_from_mono by fastforce
        ultimately obtain t where eq: "remove_overlaps_loop alloc (f_end f) f (n # rest) trunc st =
            (grow nf f n, rest, t, shift (f_end n - f_end f - f_len n) st)"
          using loop_grow [OF over grows refl Some nf(1,2), of rest trunc st] by (auto simp: loop_stops)
        have "\<forall>x. in_frag f x \<longrightarrow> content (grow nf f n # rest) x = Some (f_data f ! nat (x - f_off f))"
          using g grows ge by (auto simp: in_frag_def)
        moreover have "\<forall>x\<ge>f_end f. content (grow nf f n # rest) x = content (n # rest) x"
          using g ge over frag_ok_end [OF assms(1)] by (auto simp: in_frag_def)
        moreover have "f_end n - f_end f - f_len n = used (grow nf f n # rest) - used (f # n # rest)"
          using g by (simp add: f_end_def)
        ultimately show ?thesis
          unfolding eq overlap_post_def prod.case using g ge n grows
          by (simp del: content.simps used_simps)
      qed
    qed
  qed
qed

lemma remove_overlaps_post:
  assumes "frag_ok f" "wf_from (f_off f) rest" "used (f # rest) \<le> data_size (fst st)" "glob_ok (snd st)"
  shows "overlap_post alloc f rest st (remove_overlaps alloc f rest st)"
  using remove_overlaps_loop_post [OF assms] by (simp add: remove_overlaps_def f_end_def)

section \<open>Truncation\<close>

definition below :: "int \<Rightarrow> (int \<Rightarrow> uchar option) \<Rightarrow> int \<Rightarrow> uchar option" where
  "below offset m x = (if x < offset then m x else None)"

lemma frag_cut_ok: "frag_ok f \<Longrightarrow> 0 \<le> n \<Longrightarrow> n \<le> f_len f \<Longrightarrow> frag_ok (f\<lparr>f_len := n\<rparr>)"
  by (simp add: frag_ok_def)

lemma shrink_facts:
  assumes "frag_ok f" "0 \<le> n" "n \<le> f_len f"
  shows "f_off (shrink alloc final f n) = f_off f" "f_len (shrink alloc final f n) = n"
    "frag_ok (shrink alloc final f n)"
    and "\<And>j. j < nat n \<Longrightarrow> f_data (shrink alloc final f n) ! j = f_data f ! j"
proof -
  let ?f = "f\<lparr>f_len := n\<rparr>"
  have ok: "frag_ok ?f"
    using assms by (rule frag_cut_ok)
  show "f_off (shrink alloc final f n) = f_off f" "f_len (shrink alloc final f n) = n"
    by (auto simp: shrink_def Let_def frag_realloc_def)
  show "frag_ok (shrink alloc final f n)"
    using ok assms by (auto simp: shrink_def Let_def frag_realloc_def frag_ok_def)
  fix j assume "j < nat n"
  then show "f_data (shrink alloc final f n) ! j = f_data f ! j"
    using assms by (auto simp: shrink_def Let_def frag_realloc_def frag_ok_def nth_append)
qed

lemma truncate_frags_post:
  assumes "wf_from lo fs" "used fs \<le> data_size (fst st)" "glob_ok (snd st)"
  shows "\<exists>fs'. truncate_frags alloc offset final fs st = (fs', shift (used fs' - used fs) st) \<and>
           wf_from lo fs' \<and> content fs' = below offset (content fs)"
  using assms
proof (induction fs arbitrary: lo)
  case Nil
  then show ?case by (simp add: shift_zero below_def fun_eq_iff)
next
  case (Cons f fs)
  have f: "lo \<le> f_off f" "frag_ok f" "wf_from (f_end f) fs" "0 \<le> used fs" "0 \<le> f_len f"
    using Cons.prems used_nonneg by (auto simp: frag_ok_def)
  have none: "content fs x = None" if "x < f_end f" for x
    using content_below [OF f(3) that] .
  show ?case
  proof (cases "offset - f_off f \<ge> f_len f")
    case True
    obtain fs' where IH: "truncate_frags alloc offset final fs st = (fs', shift (used fs' - used fs) st)"
        "wf_from (f_end f) fs'" "content fs' = below offset (content fs)"
      using Cons.IH [OF f(3)] Cons.prems f by auto
    have "content (f # fs') = below offset (content (f # fs))"
      using True IH(3) by (auto simp: fun_eq_iff below_def in_frag_def f_end_def)
    with True IH f show ?thesis
      by (intro exI [of _ "f # fs'"]) (simp del: content.simps)
  next
    case False
    show ?thesis
    proof (cases "offset - f_off f > 0")
      case True
      let ?n = "offset - f_off f" and ?f = "shrink alloc final f (offset - f_off f)"
      have le: "0 \<le> ?n" "?n \<le> f_len f"
        using True False by auto
      note sf = shrink_facts [OF f(2) le, where alloc = alloc and final = final]
      have sh: "enlarge_entry (- (f_len f - ?n)) st = shift (- (f_len f - ?n)) st"
        using Cons.prems f le by (intro enlarge_shift) simp
      have "delete_fragment fs (shift (- (f_len f - ?n)) st) = shift (- used fs) (shift (- (f_len f - ?n)) st)"
        using f(3) Cons.prems le by (intro delete_fragment_shift) auto
      then have "truncate_frags alloc offset final (f # fs) st = ([?f], shift (- used fs + - (f_len f - ?n)) st)"
        using True False sh by (simp add: Let_def)
      moreover have "- used fs + - (f_len f - ?n) = used [?f] - used (f # fs)"
        using sf(2) by simp
      ultimately have "truncate_frags alloc offset final (f # fs) st = ([?f], shift (used [?f] - used (f # fs)) st)"
        by (simp only:)
      moreover have "content [?f] = below offset (content (f # fs))"
        using sf none le by (auto simp: fun_eq_iff below_def in_frag_def f_end_def)
      ultimately show ?thesis
        using sf f by (intro exI [of _ "[?f]"]) (simp del: content.simps truncate_frags.simps)
    next
      case neg: False
      have "delete_fragment (f # fs) st = shift (- used (f # fs)) st"
        using Cons.prems by (intro delete_fragment_shift) auto
      moreover have "content (f # fs) x = None" if "x < offset" for x
        using neg none [of x] that f(5) by (auto simp: in_frag_def f_end_def)
      then have "below offset (content (f # fs)) = content []"
        by (simp add: below_def fun_eq_iff del: content.simps(2))
      ultimately show ?thesis
        using False neg by (intro exI [of _ "[]"]) (simp del: delete_fragment.simps content.simps)
    qed
  qed
qed

text \<open>What the accounting keeps: by how much \<^verbatim>\<open>data_size\<close> exceeds the bytes in use, and how far
  \<^verbatim>\<open>cache_size\<close> is ahead of it.\<close>

definition slack :: "fragment list \<Rightarrow> entry_state \<Rightarrow> int \<times> int" where
  "slack fs st = (data_size (fst st) - used fs, (cache_size (snd st) - data_size (fst st)) mod 2 ^ 64)"

lemma slack_shift: "slack fs' (shift d st) = slack fs st" if "d = used fs' - used fs"
  by (cases st) (simp add: slack_def shift_def that mod_simps)

definition entry_ok :: "entry_state \<Rightarrow> bool" where
  "entry_ok st \<longleftrightarrow> wf_from 0 (frag (fst st)) \<and> used (frag (fst st)) \<le> data_size (fst st) \<and> glob_ok (snd st)"

lemma entry_ok_slack:
  "entry_ok st \<longleftrightarrow> wf_from 0 (frag (fst st)) \<and> 0 \<le> fst (slack (frag (fst st)) st) \<and> glob_ok (snd st)"
  by (simp add: entry_ok_def slack_def)

lemma truncate_entry_post:
  assumes "entry_ok st"
  shows "entry_ok (truncate_entry alloc offset final st)"
    and "content (frag (fst (truncate_entry alloc offset final st))) = below offset (content (frag (fst st)))"
    and "slack (frag (fst (truncate_entry alloc offset final st))) (truncate_entry alloc offset final st) = slack (frag (fst st)) st"
proof -
  obtain c g where st: "st = (c, g)"
    by (cases st)
  define c1 where "c1 = (if entry_length c > offset then c\<lparr>entry_length := offset, incomplete := True\<rparr> else c)"
  have same: "frag c1 = frag c" "data_size c1 = data_size c"
    by (simp_all add: c1_def)
  obtain fs' where t: "truncate_frags alloc offset final (frag c) (c1, g) = (fs', shift (used fs' - used (frag c)) (c1, g))"
      "wf_from 0 fs'" "content fs' = below offset (content (frag c))"
    using truncate_frags_post [of 0 "frag c" "(c1, g)" alloc offset final] assms st same by (auto simp: entry_ok_def)
  obtain c' g' where sh: "shift (used fs' - used (frag c)) (c1, g) = (c', g')"
    by fastforce
  have eq: "truncate_entry alloc offset final st = (c'\<lparr>frag := fs'\<rparr>, g')"
    unfolding truncate_entry_def st prod.case Let_def c1_def [symmetric] same t(1) sh ..
  have "slack fs' (c', g') = slack (frag c) (c1, g)"
    unfolding sh [symmetric] by (rule slack_shift) simp
  then have sl: "slack fs' (c'\<lparr>frag := fs'\<rparr>, g') = slack (frag c) st"
    by (simp add: slack_def st same)
  have "glob_ok g'"
    using shift_sel(3) [of "used fs' - used (frag c)" "(c1, g)"] unfolding sh by simp
  with t(2) sl assms show "entry_ok (truncate_entry alloc offset final st)"
    unfolding eq by (simp add: entry_ok_slack st)
  show "content (frag (fst (truncate_entry alloc offset final st))) = below offset (content (frag (fst st)))"
    using t(3) unfolding eq by (simp add: st)
  show "slack (frag (fst (truncate_entry alloc offset final st))) (truncate_entry alloc offset final st) = slack (frag (fst st)) st"
    using sl unfolding eq by (simp add: st)
qed

section \<open>Adding a fragment\<close>

lemma find_place_Insert:
  "wf_from lo fs \<Longrightarrow> lo \<le> offset \<Longrightarrow> find_place offset fs = Insert pre rest \<Longrightarrow>
     fs = pre @ rest \<and> (\<forall>p\<in>set pre. f_end p \<le> offset) \<and> wf_from offset rest"
proof (induction fs arbitrary: lo pre)
  case (Cons f fs)
  then show ?case
    by (fastforce simp: f_end_def split: if_splits place.splits)
qed simp

lemma find_place_Touch:
  "wf_from lo fs \<Longrightarrow> lo \<le> offset \<Longrightarrow> find_place offset fs = Touch pre f rest \<Longrightarrow>
     fs = pre @ f # rest \<and> (\<forall>p\<in>set pre. f_end p \<le> f_off f) \<and> lo \<le> f_off f \<and> f_off f \<le> offset \<and>
     offset \<le> f_end f \<and> frag_ok f \<and> wf_from (f_end f) rest"
proof (induction fs arbitrary: lo pre)
  case (Cons f' fs)
  show ?case
  proof (cases "f_off f' > offset \<or> \<not> f_end f' < offset")
    case True
    with Cons.prems show ?thesis
      by (auto simp: f_end_def split: if_splits)
  next
    case False
    then obtain pre' where "find_place offset fs = Touch pre' f rest" "pre = f' # pre'"
      using Cons.prems(3) by (auto simp: f_end_def split: if_splits place.splits)
    with Cons.IH [of "f_end f'" pre'] Cons.prems False show ?thesis
      using frag_ok_end [of f'] by auto
  qed
qed simp

lemma wf_from_join:
  "wf_from lo pre \<Longrightarrow> \<forall>p\<in>set pre. f_end p \<le> m \<Longrightarrow> lo \<le> m \<Longrightarrow> wf_from m ys \<Longrightarrow> wf_from lo (pre @ ys)"
  by (induction pre arbitrary: lo) (auto intro: wf_from_mono)

lemma content_none_above: "\<forall>p\<in>set pre. f_end p \<le> m \<Longrightarrow> m \<le> x \<Longrightarrow> content pre x = None"
  by (induction pre) (auto simp: in_frag_def)

lemma content_join_above:
  "\<forall>p\<in>set pre. f_end p \<le> m \<Longrightarrow> m \<le> x \<Longrightarrow> content (pre @ ys) x = content ys x"
  by (simp add: content_append content_none_above)

lemma content_join_below:
  "wf_from m ys \<Longrightarrow> x < m \<Longrightarrow> content (pre @ ys) x = content pre x"
  by (simp add: content_append content_below split: option.split)

text \<open>The bytes of a fragment after data was copied into its room.\<close>

lemma overwritten:
  assumes "frag_ok f" "f_off f \<le> offset" "offset + int (length dat) \<le> f_end f"
  defines "f' \<equiv> f\<lparr>f_data := memcpy_at (f_data f) (offset - f_off f) dat\<rparr>"
  shows "frag_ok f'"
    and "\<And>x. in_frag f x \<Longrightarrow> f_data f' ! nat (x - f_off f) =
      (if offset \<le> x \<and> x < offset + int (length dat) then dat ! nat (x - offset) else f_data f ! nat (x - f_off f))"
proof -
  have fit: "0 \<le> offset - f_off f" "nat (offset - f_off f) + length dat \<le> length (f_data f)"
    using assms(1-3) by (auto simp: frag_ok_def f_end_def)
  then show "frag_ok f'"
    using assms(1) by (simp add: f'_def frag_ok_def)
  fix x assume x: "in_frag f x"
  then have "nat (x - f_off f) < length (f_data f)"
    using assms(1) by (auto simp: in_frag_def f_end_def frag_ok_def)
  moreover have "nat (x - f_off f) - nat (offset - f_off f) = nat (x - offset)" if "offset \<le> x"
    using that assms(2) by simp
  ultimately show "f_data f' ! nat (x - f_off f) =
      (if offset \<le> x \<and> x < offset + int (length dat) then dat ! nat (x - offset) else f_data f ! nat (x - f_off f))"
    using nth_memcpy_at [OF fit] x assms(2) by (auto simp: f'_def in_frag_def)
qed


text \<open>The state after \<open>pre @ f # rest\<close> had the overlaps of \<open>f\<close> removed.\<close>

lemma remove_overlaps_entry:
  assumes "remove_overlaps alloc f rest (c, g) = (f', rest', t, (c', g'))"
    and "frag_ok f" "wf_from (f_off f) rest" "0 \<le> f_off f"
    and "wf_from 0 pre" "\<forall>p\<in>set pre. f_end p \<le> f_off f"
    and "used (pre @ f # rest) \<le> data_size c" "glob_ok g"
  shows "entry_ok (c'\<lparr>frag := pre @ f' # rest'\<rparr>, g')"
    and "slack (pre @ f' # rest') (c', g') = slack (pre @ f # rest) (c, g)"
    and "\<And>x. x < f_off f \<Longrightarrow> content (pre @ f' # rest') x = content pre x"
    and "\<And>x. in_frag f x \<Longrightarrow> content (pre @ f' # rest') x = Some (f_data f ! nat (x - f_off f))"
    and "\<And>x. f_end f \<le> x \<Longrightarrow> content (pre @ f' # rest') x = content rest x \<or>
           \<not> (\<forall>n. alloc n) \<and> content (pre @ f' # rest') x = None"
proof -
  have "used (f # rest) \<le> data_size (fst (c, g))"
    using assms(5,7) used_nonneg by fastforce
  then have "overlap_post alloc f rest (c, g) (f', rest', t, (c', g'))"
    using remove_overlaps_post [of f rest "(c, g)" alloc] assms(1,2,3,8) by simp
  then have post: "f_off f' = f_off f" "f_end f \<le> f_end f'" "wf_from (f_off f) (f' # rest')"
      "\<And>x. in_frag f x \<Longrightarrow> content (f' # rest') x = Some (f_data f ! nat (x - f_off f))"
      "\<And>x. f_end f \<le> x \<Longrightarrow> content (f' # rest') x = content rest x \<or>
         \<not> (\<forall>n. alloc n) \<and> content (f' # rest') x = None"
      "(c', g') = shift (used (f' # rest') - used (f # rest)) (c, g)"
    unfolding overlap_post_def prod.case by blast+
  show sl: "slack (pre @ f' # rest') (c', g') = slack (pre @ f # rest) (c, g)"
    unfolding post(6) by (rule slack_shift) simp
  have "glob_ok g'"
    using post(6) shift_sel(3) by (metis snd_conv)
  moreover have "wf_from 0 (pre @ f' # rest')"
    using wf_from_join [OF assms(5,6,4) post(3)] .
  moreover have "0 \<le> fst (slack (pre @ f' # rest') (c', g'))"
    unfolding sl using assms(7) by (simp add: slack_def)
  ultimately show "entry_ok (c'\<lparr>frag := pre @ f' # rest'\<rparr>, g')"
    by (simp add: entry_ok_def slack_def)
  show "content (pre @ f' # rest') x = content pre x" if "x < f_off f" for x
    using content_join_below [OF post(3) that] .
  show "content (pre @ f' # rest') x = Some (f_data f ! nat (x - f_off f))" if "in_frag f x" for x
    using content_join_above [OF assms(6), of x] that post(4) by (simp add: in_frag_def del: content.simps)
  show "content (pre @ f' # rest') x = content rest x \<or>
           \<not> (\<forall>n. alloc n) \<and> content (pre @ f' # rest') x = None" if "f_end f \<le> x" for x
    using content_join_above [OF assms(6), of x] that post(5) frag_ok_end [OF assms(2)]
    by (simp del: content.simps)
qed

text \<open>The two ways in which \<^verbatim>\<open>add_fragment\<close> stores the data have the same effect on the content.\<close>

definition stored :: "int \<Rightarrow> uchar list \<Rightarrow> (int \<Rightarrow> uchar option) \<Rightarrow> (int \<Rightarrow> uchar option) \<Rightarrow> bool" where
  "stored offset dat old new \<longleftrightarrow>
     (\<forall>x<offset. new x = old x) \<and>
     (\<forall>i<length dat. new (offset + int i) = Some (dat ! i)) \<and>
     (\<forall>x\<ge>offset + int (length dat). new x = old x \<or> new x = None)"

lemma new_fragment_post:
  assumes "new_fragment alloc pre rest offset dat (c, g) = (r, st')" "r \<noteq> -1"
    and "0 \<le> offset" "wf_from 0 pre" "\<forall>p\<in>set pre. f_end p \<le> offset" "wf_from offset rest"
    and "used (pre @ rest) \<le> data_size c" "glob_ok g"
  shows "r = 1" "entry_ok st'" "stored offset dat (content (pre @ rest)) (content (frag (fst st')))"
    and "slack (frag (fst st')) st' = slack (pre @ rest) (c, g)"
proof -
  let ?len = "int (length dat)"
  define nf where "nf = \<lparr>f_off = offset, f_len = ?len, f_real = CACHE_PAD ?len,
      f_data = memcpy_at (replicate (nat (CACHE_PAD ?len)) 0) 0 dat\<rparr>"
  have pad: "?len < CACHE_PAD ?len"
    by (rule CACHE_PAD_ge) simp
  then have nf_ok: "frag_ok nf"
    by (simp add: nf_def frag_ok_def)
  have nf_data: "f_data nf ! i = dat ! i" if "i < length dat" for i
    using that pad by (simp add: nf_def nth_memcpy_at)
  have sel: "f_off nf = offset" "f_end nf = offset + ?len" "f_len nf = ?len"
    by (simp_all add: nf_def f_end_def)
  obtain c1 g1 where e: "enlarge_entry ?len (c, g) = (c1, g1)"
    by fastforce
  have nn: "0 \<le> data_size c"
    using assms(7) used_nonneg [OF assms(4)] used_nonneg [OF assms(6)] by simp
  then have sh: "(c1, g1) = shift ?len (c, g)"
    unfolding e [symmetric] by (intro enlarge_shift) simp
  have c1: "data_size c1 = data_size c + ?len" "glob_ok g1"
    using sh shift_sel(1,3) by (metis fst_conv, metis snd_conv)
  obtain f' rest' t c2 g2 where ro: "remove_overlaps alloc nf rest (c1, g1) = (f', rest', t, (c2, g2))"
    by (metis prod.exhaust)
  have "used (pre @ nf # rest) \<le> data_size c1"
    using assms(7) c1 sel by simp
  note post = remove_overlaps_entry [OF ro nf_ok _ _ assms(4) _ this c1(2), unfolded sel(1), OF assms(6,3,5)]
  let ?st = "(c2\<lparr>frag := pre @ f' # rest'\<rparr>, g2)"
  have res: "r = 1 \<and> st' = (if t then truncate_entry alloc (offset + ?len) False ?st else ?st)"
    using assms(1,2) ro e by (simp add: new_fragment_def frag_alloc_def nf_def Let_def split: if_splits)
  then show "r = 1" by simp
  show "entry_ok st'"
    using res post(1) by (simp add: truncate_entry_post(1))
  have "slack (frag (fst st')) st' = slack (pre @ f' # rest') ?st"
    using res truncate_entry_post(3) [OF post(1)] by simp
  also have "\<dots> = slack (pre @ nf # rest) (c1, g1)"
    using post(2) by (simp add: slack_def)
  also have "\<dots> = slack (pre @ rest) (c, g)"
    unfolding sh by (rule slack_shift) (simp add: sel)
  finally show "slack (frag (fst st')) st' = slack (pre @ rest) (c, g)" .
  have "stored offset dat (content (pre @ rest)) (content (pre @ f' # rest'))"
    unfolding stored_def
  proof (intro conjI allI impI)
    show "content (pre @ f' # rest') x = content (pre @ rest) x" if "x < offset" for x
      using that post(3) content_join_below [OF assms(6)] by simp
    show "content (pre @ f' # rest') (offset + int i) = Some (dat ! i)" if "i < length dat" for i
      using that post(4) [of "offset + int i"] nf_data by (simp add: in_frag_def sel)
    show "content (pre @ f' # rest') x = content (pre @ rest) x \<or> content (pre @ f' # rest') x = None"
      if "x \<ge> offset + ?len" for x
      using that post(5) [of x] content_join_above [OF assms(5), of x rest] by (auto simp: sel)
  qed
  then show "stored offset dat (content (pre @ rest)) (content (frag (fst st')))"
    using res truncate_entry_post(2) [OF post(1)] by (auto simp: stored_def below_def)
qed


lemma overwrite_fragment_post:
  assumes "overwrite_fragment alloc pre f rest offset dat (c, g) = st'"
    and "frag_ok f" "f_off f \<le> offset" "offset + int (length dat) \<le> f_end f" "0 \<le> f_off f" "wf_from (f_off f) rest"
    and "wf_from 0 pre" "\<forall>p\<in>set pre. f_end p \<le> f_off f"
    and "used (pre @ f # rest) \<le> data_size c" "glob_ok g"
  shows "entry_ok st'" "slack (frag (fst st')) st' = slack (pre @ f # rest) (c, g)"
    and "\<And>x. x < offset \<Longrightarrow> content (frag (fst st')) x = content (pre @ f # rest) x"
    and "\<And>i. i < length dat \<Longrightarrow> content (frag (fst st')) (offset + int i) = Some (dat ! i)"
    and "\<And>x. offset + int (length dat) \<le> x \<Longrightarrow> content (frag (fst st')) x = None"
proof -
  define f1 where "f1 = f\<lparr>f_data := memcpy_at (f_data f) (offset - f_off f) dat\<rparr>"
  note ow = overwritten [OF assms(2-4), folded f1_def]
  have sel: "f_off f1 = f_off f" "f_end f1 = f_end f" "f_len f1 = f_len f" "in_frag f1 = in_frag f"
    by (simp_all add: f1_def f_end_def in_frag_def fun_eq_iff)
  obtain f' rest' t c2 g2 where ro: "remove_overlaps alloc f1 rest (c, g) = (f', rest', t, (c2, g2))"
    by (metis prod.exhaust)
  have "used (pre @ f1 # rest) \<le> data_size c"
    using assms(9) sel by simp
  note post = remove_overlaps_entry [OF ro ow(1) _ _ assms(7) _ this assms(10), unfolded sel(1), OF assms(6,5,8), unfolded sel]
  let ?st = "(c2\<lparr>frag := pre @ f' # rest'\<rparr>, g2)"
  have st': "st' = truncate_entry alloc (offset + int (length dat)) False ?st"
    using assms(1) ro by (simp add: overwrite_fragment_def f1_def)
  note tr = truncate_entry_post [OF post(1), folded st']
  show "entry_ok st'"
    unfolding st' by (rule truncate_entry_post(1) [OF post(1)])
  have "slack (frag (fst st')) st' = slack (pre @ f' # rest') ?st"
    unfolding st' using truncate_entry_post(3) [OF post(1)] by simp
  also have "\<dots> = slack (pre @ f # rest) (c, g)"
    using post(2) sel by (simp add: slack_def)
  finally show "slack (frag (fst st')) st' = slack (pre @ f # rest) (c, g)" .
  have cont: "content (frag (fst st')) = below (offset + int (length dat)) (content (pre @ f' # rest'))"
    unfolding st' using truncate_entry_post(2) [OF post(1)] by simp
  show "content (frag (fst st')) x = None" if "offset + int (length dat) \<le> x" for x
    using that by (simp add: cont below_def)
  show "content (frag (fst st')) (offset + int i) = Some (dat ! i)" if "i < length dat" for i
  proof -
    have "in_frag f (offset + int i)"
      using that assms(3,4) by (simp add: in_frag_def)
    with that post(4) ow(2) show ?thesis
      by (simp add: cont below_def)
  qed
  show "content (frag (fst st')) x = content (pre @ f # rest) x" if "x < offset" for x
  proof (cases "x < f_off f")
    case True
    then show ?thesis
      using that post(3) content_join_below [of "f_off f" "f # rest" x pre] wf_from_mono
        assms(2,6) content_append [of pre "f # rest"] content_below [OF assms(6)]
      by (simp add: cont below_def in_frag_def split: option.split)
  next
    case False
    then have "in_frag f x"
      using that assms(4) by (simp add: in_frag_def)
    then show ?thesis
      using that post(4) ow(2) content_join_above [OF assms(8), of x "f # rest"] False
      by (simp add: cont below_def)
  qed
qed

text \<open>The outcome of storing data, where \<open>k\<close> bytes were cut off without being accounted for.\<close>

definition add_post :: "int \<Rightarrow> uchar list \<Rightarrow> int \<Rightarrow> fragment list \<Rightarrow> entry_state \<Rightarrow> entry_state \<Rightarrow> bool" where
  "add_post offset dat k fs st st' \<longleftrightarrow>
     entry_ok st' \<and> stored offset dat (content fs) (content (frag (fst st'))) \<and>
     slack (frag (fst st')) st' = (fst (slack fs st) + k, snd (slack fs st))"

text \<open>A fragment touched by the data, between its neighbours.\<close>

definition touched :: "int \<Rightarrow> fragment list \<Rightarrow> fragment \<Rightarrow> fragment list \<Rightarrow> bool" where
  "touched offset pre f rest \<longleftrightarrow> wf_from 0 pre \<and> (\<forall>p\<in>set pre. f_end p \<le> f_off f) \<and> 0 \<le> f_off f \<and> f_off f \<le> offset \<and>
     offset \<le> f_end f \<and> frag_ok f \<and> wf_from (f_end f) rest"

lemma touched_rest:
  "touched offset pre f rest \<Longrightarrow> wf_from (f_off f) rest \<and> wf_from offset rest"
  unfolding touched_def using frag_ok_end wf_from_mono by blast

lemma touch_inside:
  assumes "touched offset pre f rest" "offset + int (length dat) \<le> f_end f"
    and "used (pre @ f # rest) \<le> data_size c" "glob_ok g"
  shows "add_post offset dat 0 (pre @ f # rest) (c, g) (overwrite_fragment alloc pre f rest offset dat (c, g))"
proof -
  note t = assms(1) [unfolded touched_def]
  have "frag_ok f" "f_off f \<le> offset" "0 \<le> f_off f" "wf_from (f_off f) rest" "wf_from 0 pre" "\<forall>p\<in>set pre. f_end p \<le> f_off f"
    using t touched_rest [OF assms(1)] by auto
  note post = overwrite_fragment_post [OF refl this(1,2) assms(2) this(3-6) assms(3,4), where alloc = alloc]
  show ?thesis
    using post by (auto simp: add_post_def stored_def)
qed

lemma touch_fits:
  assumes "touched offset pre f rest" "offset + int (length dat) > f_end f" "offset + int (length dat) - f_off f \<le> f_real f"
    and "used (pre @ f # rest) \<le> data_size c" "glob_ok g"
  shows "add_post offset dat 0 (pre @ f # rest) (c, g)
     (overwrite_fragment alloc pre (f\<lparr>f_len := offset + int (length dat) - f_off f\<rparr>) rest offset dat
        (enlarge_entry (offset + int (length dat) - f_end f) (c, g)))"
proof -
  let ?e = "offset + int (length dat)"
  note t = assms(1) [unfolded touched_def]
  define f1 where "f1 = f\<lparr>f_len := ?e - f_off f\<rparr>"
  obtain c2 g2 where e: "enlarge_entry (?e - f_end f) (c, g) = (c2, g2)"
    by fastforce
  have "0 \<le> used pre" "0 \<le> used rest" "0 \<le> f_len f"
    using t used_nonneg by (auto simp: frag_ok_def)
  then have sh: "(c2, g2) = shift (?e - f_end f) (c, g)"
    unfolding e [symmetric] using assms(2,4) by (intro enlarge_shift) simp
  have c2: "data_size c2 = data_size c + (?e - f_end f)" "glob_ok g2"
    using sh shift_sel(1,3) by (metis fst_conv, metis snd_conv)
  have f1: "frag_ok f1" "f_off f1 = f_off f" "f_end f1 = ?e" "f_len f1 = f_len f + (?e - f_end f)"
    using assms(3) t by (simp_all add: f1_def frag_ok_def f_end_def)
  have "used (pre @ f1 # rest) \<le> data_size c2"
    using assms(4) c2 f1 by simp
  moreover have "f_off f1 \<le> offset" "?e \<le> f_end f1" "0 \<le> f_off f1" "wf_from (f_off f1) rest" "wf_from 0 pre"
      "\<forall>p\<in>set pre. f_end p \<le> f_off f1"
    using t touched_rest [OF assms(1)] f1 by auto
  ultimately have post: "entry_ok st'" "slack (frag (fst st')) st' = slack (pre @ f1 # rest) (c2, g2)"
      "\<And>x. x < offset \<Longrightarrow> content (frag (fst st')) x = content (pre @ f1 # rest) x"
      "\<And>i. i < length dat \<Longrightarrow> content (frag (fst st')) (offset + int i) = Some (dat ! i)"
      "\<And>x. ?e \<le> x \<Longrightarrow> content (frag (fst st')) x = None"
    if "st' = overwrite_fragment alloc pre f1 rest offset dat (c2, g2)" for st'
    using overwrite_fragment_post [of alloc pre f1 rest offset dat c2 g2 st'] that f1(1) c2(2) by simp_all
  have "slack (pre @ f1 # rest) (c2, g2) = slack (pre @ f # rest) (c, g)"
    unfolding sh by (rule slack_shift) (simp add: f1)
  moreover have "content (pre @ f1 # rest) x = content (pre @ f # rest) x" if "x < offset" for x
    using that t f1 assms(2) by (auto simp: content_append in_frag_def f1_def split: option.split)
  ultimately show ?thesis
    using post [OF refl] by (simp add: add_post_def stored_def e f1_def [symmetric])
qed

lemma touch_cut:
  assumes "touched offset pre f rest" "offset + int (length dat) > f_end f"
    and "new_fragment alloc (pre @ [f\<lparr>f_len := offset - f_off f\<rparr>]) rest offset dat (c, g) = (r, st')" "r \<noteq> -1"
    and "used (pre @ f # rest) \<le> data_size c" "glob_ok g"
  shows "add_post offset dat (f_end f - offset) (pre @ f # rest) (c, g) st'"
proof -
  note t = assms(1) [unfolded touched_def]
  define f1 where "f1 = f\<lparr>f_len := offset - f_off f\<rparr>"
  have f1: "frag_ok f1" "f_off f1 = f_off f" "f_end f1 = offset" "f_len f1 = f_len f - (f_end f - offset)"
    using t by (simp_all add: f1_def frag_ok_def f_end_def)
  have "wf_from 0 (pre @ [f1])"
    using t f1 wf_from_join [of 0 pre "f_off f" "[f1]"] by simp
  moreover have "\<forall>p\<in>set (pre @ [f1]). f_end p \<le> offset"
    using t f1 by auto
  moreover have "used ((pre @ [f1]) @ rest) \<le> data_size c"
    using assms(5) t f1 by simp
  moreover have "0 \<le> offset" "wf_from offset rest"
    using t touched_rest [OF assms(1)] by auto
  ultimately have post: "entry_ok st'"
      "stored offset dat (content ((pre @ [f1]) @ rest)) (content (frag (fst st')))"
      "slack (frag (fst st')) st' = slack ((pre @ [f1]) @ rest) (c, g)"
    using new_fragment_post [OF assms(3,4), folded f1_def] assms(6) by blast+
  have "content ((pre @ [f1]) @ rest) x = content (pre @ f # rest) x" if "x < offset \<or> offset + int (length dat) \<le> x" for x
    using that t f1 assms(2) by (auto simp: content_append in_frag_def f1_def split: option.split)
  then have "stored offset dat (content (pre @ f # rest)) (content (frag (fst st')))"
    using post(2) by (simp add: stored_def)
  with post f1 show ?thesis
    by (simp add: add_post_def slack_def)
qed

text \<open>The bytes by which the accounting falls behind: what is cut off a fragment that has no
  room for the new data.\<close>

definition cut_off :: "int \<Rightarrow> int \<Rightarrow> fragment list \<Rightarrow> int" where
  "cut_off offset len fs =
     (case find_place offset fs of
        Insert _ _ \<Rightarrow> 0
      | Touch _ f _ \<Rightarrow> if offset + len > f_end f \<and> offset + len - f_off f > f_real f then f_end f - offset else 0)"

lemma add_fragment_post:
  assumes "add_fragment alloc offset dat (c, g) = (r, st')" "r \<noteq> -1" "entry_ok (c, g)" "0 \<le> offset" "dat \<noteq> []"
  shows "add_post offset dat (cut_off offset (int (length dat)) (frag c)) (frag c) (c, g) st'"
proof -
  let ?e = "offset + int (length dat)"
  define c1 where "c1 = (if entry_length c < ?e then c\<lparr>entry_length := ?e\<rparr> else c)\<lparr>entry_id := id_counter g\<rparr>"
  define g1 where "g1 = g\<lparr>id_counter := id_counter g + 1\<rparr>"
  have same: "frag c1 = frag c" "data_size c1 = data_size c" "cache_size g1 = cache_size g" "glob_ok g1 = glob_ok g"
    by (simp_all add: c1_def g1_def glob_ok_def)
  have ok: "wf_from 0 (frag c)" "used (frag c) \<le> data_size c1" "glob_ok g1"
    using assms(3) same by (auto simp: entry_ok_def)
  have sl: "add_post offset dat k fs (c1, g1) st' = add_post offset dat k fs (c, g) st'" for k fs
    by (simp add: add_post_def slack_def same)
  have "add_fragment alloc offset dat (c, g) = (case find_place offset (frag c) of
             Insert pre rest \<Rightarrow> new_fragment alloc pre rest offset dat (c1, g1)
           | Touch pre f rest \<Rightarrow>
               if ?e > f_end f then
                 if ?e - f_off f \<le> f_real f then
                   (1, overwrite_fragment alloc pre (f\<lparr>f_len := ?e - f_off f\<rparr>) rest offset dat
                         (enlarge_entry (?e - f_end f) (c1, g1)))
                 else new_fragment alloc (pre @ [f\<lparr>f_len := offset - f_off f\<rparr>]) rest offset dat (c1, g1)
               else (0, overwrite_fragment alloc pre f rest offset dat (c1, g1)))"
    using assms(5) unfolding add_fragment_def
    by (simp add: c1_def g1_def f_end_def Let_def split: place.split)
  note add = this [unfolded assms(1), symmetric]
  show ?thesis
  proof (cases "find_place offset (frag c)")
    case (Insert pre rest)
    note fp = find_place_Insert [OF ok(1) assms(4) Insert]
    have "wf_from 0 pre"
      using ok(1) fp wf_from_append by metis
    moreover have "new_fragment alloc pre rest offset dat (c1, g1) = (r, st')"
      using add Insert by simp
    ultimately have "add_post offset dat 0 (pre @ rest) (c1, g1) st'"
      using new_fragment_post [of alloc pre rest offset dat c1 g1 r st'] assms(2,4) fp ok by (simp add: add_post_def)
    moreover have "cut_off offset (int (length dat)) (frag c) = 0"
      by (simp add: cut_off_def Insert)
    ultimately show ?thesis
      using fp by (simp add: sl)
  next
    case (Touch pre f rest)
    note fp = find_place_Touch [OF ok(1) assms(4) Touch]
    have t: "touched offset pre f rest"
      using fp ok(1) wf_from_append by (metis touched_def)
    have used: "used (pre @ f # rest) \<le> data_size c1"
      using ok(2) fp by simp
    have k: "cut_off offset (int (length dat)) (frag c) = (if ?e > f_end f \<and> ?e - f_off f > f_real f then f_end f - offset else 0)"
      by (simp add: cut_off_def Touch)
    have "add_post offset dat (cut_off offset (int (length dat)) (frag c)) (pre @ f # rest) (c1, g1) st'"
      using add Touch k touch_inside [OF t _ used ok(3)] touch_fits [OF t _ _ used ok(3)]
        touch_cut [OF t _ _ assms(2) used ok(3)] by (auto split: if_splits)
    then show ?thesis
      using fp by (simp add: sl)
  qed
qed

section \<open>Defragmentation\<close>

fun chain :: "int \<Rightarrow> fragment list \<Rightarrow> bool" where
  "chain e [] = True"
| "chain e (f # fs) = (f_off f = e \<and> frag_ok f \<and> chain (f_end f) fs)"

definition joined :: "fragment list \<Rightarrow> uchar list" where
  "joined fs = concat (map (\<lambda>f. bytes_at (f_data f) 0 (f_len f)) fs)"

lemma chain_used: "chain e fs \<Longrightarrow> 0 \<le> used fs \<and> length (joined fs) = nat (used fs)"
proof (induction fs arbitrary: e)
  case (Cons f fs)
  then have "0 \<le> used fs \<and> length (joined fs) = nat (used fs)" "frag_ok f"
    by auto
  then show ?case
    by (auto simp: joined_def frag_ok_def nat_add_distrib)
qed (simp add: joined_def)

lemma chain_content:
  "chain e fs \<Longrightarrow> content fs x = (if e \<le> x \<and> x < e + used fs then Some (joined fs ! nat (x - e)) else None)"
proof (induction fs arbitrary: e)
  case (Cons f fs)
  let ?b = "bytes_at (f_data f) 0 (f_len f)"
  have f: "f_off f = e" "frag_ok f" "chain (f_end f) fs"
    using Cons.prems by auto
  have b: "length ?b = nat (f_len f)" "\<And>j. j < nat (f_len f) \<Longrightarrow> ?b ! j = f_data f ! j"
    using f(2) by (auto simp: frag_ok_def)
  have j: "joined (f # fs) = ?b @ joined fs"
    by (simp add: joined_def)
  have "0 \<le> used fs" "0 \<le> f_len f"
    using chain_used [OF f(3)] f(2) by (auto simp: frag_ok_def)
  moreover have "nat (x - e) - nat (f_len f) = nat (x - f_end f)" if "f_end f \<le> x"
    using that f(1) \<open>0 \<le> f_len f\<close> by (simp add: f_end_def)
  moreover have "nat (x - e) < nat (f_len f) \<longleftrightarrow> x < f_end f" if "e \<le> x"
    using that f(1) \<open>0 \<le> f_len f\<close> by (auto simp: f_end_def)
  ultimately show ?case
    using Cons.IH [OF f(3)] f(1) b by (auto simp: j nth_append in_frag_def f_end_def)
qed simp

lemma adjacent_chain:
  "wf_from (f_end p) fs \<Longrightarrow> \<exists>xs ys. adjacent p fs = Some (xs, ys) \<and> fs = xs @ ys \<and> chain (f_end p) xs \<and>
     wf_from (f_end p + used xs) ys \<and> content ys (f_end p + used xs) = None"
proof (induction fs arbitrary: p)
  case (Cons f fs)
  have f: "f_end p \<le> f_off f" "frag_ok f" "wf_from (f_end f) fs"
    using Cons.prems by auto
  show ?case
  proof (cases "f_off f = f_end p")
    case True
    from Cons.IH [OF f(3)] obtain xs ys where "adjacent f fs = Some (xs, ys)" "fs = xs @ ys" "chain (f_end f) xs"
        "wf_from (f_end f + used xs) ys" "content ys (f_end f + used xs) = None"
      by blast
    moreover have "f_end f + used xs = f_end p + used (f # xs)"
      using True by (simp add: f_end_def)
    ultimately show ?thesis
      using True f(2) by - (rule exI [of _ "f # xs"], rule exI [of _ ys], simp add: f_end_def algebra_simps)
  next
    case False
    with f Cons.prems have "adjacent p (f # fs) = Some ([], f # fs)" "content (f # fs) (f_end p) = None"
      using content_below [of "f_off f" "f # fs"] by (auto simp: f_end_def Let_def)
    with Cons.prems show ?thesis
      by (auto simp del: content.simps)
  qed
qed simp

text \<open>The fragment that replaces a run.\<close>

definition merged :: "fragment list \<Rightarrow> fragment" where
  "merged fs = \<lparr>f_off = 0, f_len = used fs, f_real = used fs, f_data = joined fs\<rparr>"

lemma merged_facts:
  assumes "chain 0 fs"
  shows "frag_ok (merged fs)" "f_off (merged fs) = 0" "f_end (merged fs) = used fs" "f_len (merged fs) = used fs"
    and "content (merged fs # ys) = content (fs @ ys)"
proof -
  show ok: "frag_ok (merged fs)" "f_off (merged fs) = 0" "f_end (merged fs) = used fs" "f_len (merged fs) = used fs"
    using chain_used [OF assms] by (simp_all add: merged_def frag_ok_def f_end_def)
  have "joined [merged fs] = joined fs"
    using chain_used [OF assms] unfolding joined_def [of "[merged fs]"] by (simp add: merged_def bytes_at_def)
  then have "content [merged fs] x = content fs x" for x
    using chain_content [OF assms, of x] chain_content [of 0 "[merged fs]" x] ok by simp
  then show "content (merged fs # ys) = content (fs @ ys)"
    using content_append [of "[merged fs]" ys] content_append [of fs ys] by (simp add: fun_eq_iff del: content.simps)
qed

lemma get_cache_fragment_eq:
  assumes "frag c = p # fs" "f_off p = 0" "adjacent p fs = Some (xs, ys)" "chain 0 (p # xs)" "used (p # xs) < 2 ^ 31"
  shows "get_cache_fragment alloc c =
     (if xs = [] then (Some p, c)
      else if alloc (used (p # xs)) then (Some (merged (p # xs)), c\<lparr>frag := merged (p # xs) # ys\<rparr>)
      else (if f_len p \<noteq> 0 then Some p else None, c))"
proof -
  have "memcpy_at (replicate (nat (used (p # xs))) 0) 0 (joined (p # xs)) = joined (p # xs)"
    using chain_used [OF assms(4)] by (simp add: memcpy_at_def)
  moreover have "fs = [] \<Longrightarrow> xs = []"
    using assms(3) by auto
  moreover have "int32 (sum_list (map f_len (p # xs))) = used (p # xs)"
    using assms(5) chain_used [OF assms(4)] by (simp add: int32_id used_def)
  ultimately show ?thesis
    using assms(1-3)
    by (cases xs) (auto simp: get_cache_fragment_def frag_alloc_def merged_def joined_def used_def Let_def)
qed

text \<open>What \<^verbatim>\<open>get_cache_fragment\<close> leaves: the same content in a well-formed list of the same size; the
  fragment returned is the first one of the list and, unless memory ran out, ends at a gap.\<close>

definition defrag_post :: "(int \<Rightarrow> bool) \<Rightarrow> cache_entry \<Rightarrow> fragment option \<times> cache_entry \<Rightarrow> bool" where
  "defrag_post alloc c rc \<longleftrightarrow>
     (case rc of (r, c') \<Rightarrow>
        c' = c\<lparr>frag := frag c'\<rparr> \<and> wf_from 0 (frag c') \<and> content (frag c') = content (frag c) \<and>
        used (frag c') = used (frag c) \<and>
        (case r of
           None \<Rightarrow> (\<forall>n. alloc n) \<longrightarrow> content (frag c) 0 = None
         | Some f \<Rightarrow> f_off f = 0 \<and> (\<exists>fs. frag c' = f # fs) \<and> ((\<forall>n. alloc n) \<longrightarrow> content (frag c) (f_len f) = None)))"

lemma get_cache_fragment_post:
  assumes "wf_from 0 (frag c)" "used (frag c) < 2 ^ 31"
  shows "defrag_post alloc c (get_cache_fragment alloc c)"
proof (cases "frag c")
  case Nil
  then show ?thesis
    using assms by (simp add: get_cache_fragment_def defrag_post_def)
next
  case (Cons p fs)
  have p: "0 \<le> f_off p" "frag_ok p" "wf_from (f_end p) fs"
    using assms Cons by auto
  show ?thesis
  proof (cases "f_off p = 0")
    case False
    then show ?thesis
      using assms Cons p content_below [of "f_off p" "p # fs" 0] by (simp add: get_cache_fragment_def defrag_post_def)
  next
    case True
    obtain xs ys where a: "adjacent p fs = Some (xs, ys)" "fs = xs @ ys" "chain (f_end p) xs"
        "wf_from (f_end p + used xs) ys" "content ys (f_end p + used xs) = None"
      using adjacent_chain [OF p(3)] by blast
    have ch: "chain 0 (p # xs)" and e: "f_end p + used xs = used (p # xs)"
      using a True p by (simp_all add: f_end_def)
    note m = merged_facts [OF ch]
    have "used (p # xs) < 2 ^ 31"
      using assms(2) a(2) used_nonneg [OF a(4)] Cons by simp
    note eq = get_cache_fragment_eq [OF Cons True a(1) ch this, of alloc]
    have c1: "content (merged (p # xs) # ys) = content (frag c)"
      unfolding m(5) Cons a(2) by simp
    have gap: "content (frag c) (used (p # xs)) = None"
      using m(3) a(5) e by (simp add: c1 [symmetric] in_frag_def)
    consider (none) "xs = []" | (merge) "xs \<noteq> []" "alloc (used (p # xs))" | (fail) "xs \<noteq> []" "\<not> alloc (used (p # xs))"
      by blast
    then show ?thesis
    proof cases
      case none
      then show ?thesis
        using assms True gap Cons by (simp add: eq defrag_post_def del: content.simps)
    next
      case merge
      then show ?thesis
        unfolding eq defrag_post_def using c1 m(1-4) a(2,4) gap e by (simp add: Cons del: content.simps)
    next
      case fail
      then show ?thesis
        using assms True Cons by (auto simp: eq defrag_post_def simp del: content.simps)
    qed
  qed
qed

section \<open>Freeing the head, emptying and normalising\<close>

text \<open>A fragment whose first bytes are dropped.\<close>

definition behead :: "int \<Rightarrow> fragment \<Rightarrow> fragment" where
  "behead offset f =
     (let sz = offset - f_off f; len = f_len f - sz
      in f\<lparr>f_len := len, f_data := memcpy_at (f_data f) 0 (bytes_at (f_data f) sz len), f_off := offset\<rparr>)"

lemma behead_facts:
  assumes "frag_ok f" "f_off f < offset" "offset < f_end f"
  shows "frag_ok (behead offset f)" "f_off (behead offset f) = offset" "f_end (behead offset f) = f_end f"
    and "f_len (behead offset f) = f_len f - (offset - f_off f)"
    and "\<And>x. offset \<le> x \<Longrightarrow> x < f_end f \<Longrightarrow> f_data (behead offset f) ! nat (x - offset) = f_data f ! nat (x - f_off f)"
proof -
  let ?sz = "offset - f_off f"
  let ?src = "bytes_at (f_data f) ?sz (f_len f - ?sz)"
  have src: "length ?src = nat (f_len f - ?sz)"
    using assms by (simp add: frag_ok_def)
  have fit: "nat 0 + length ?src \<le> length (f_data f)"
    using src assms by (simp add: frag_ok_def) linarith
  show sel: "f_off (behead offset f) = offset" "f_end (behead offset f) = f_end f"
      "f_len (behead offset f) = f_len f - (offset - f_off f)"
    by (simp_all add: behead_def f_end_def Let_def)
  show "frag_ok (behead offset f)"
    using assms fit by (simp add: behead_def frag_ok_def Let_def f_end_def)
  fix x assume x: "offset \<le> x" "x < f_end f"
  have j: "nat (x - offset) < nat (f_len f - ?sz)" "nat ?sz + nat (x - offset) = nat (x - f_off f)"
      "nat (x - f_off f) < length (f_data f)" "nat (x - offset) < length (f_data f)"
    using x assms by (auto simp: f_end_def frag_ok_def)
  then show "f_data (behead offset f) ! nat (x - offset) = f_data f ! nat (x - f_off f)"
    using nth_memcpy_at [OF _ fit j(4)] src by (simp add: behead_def Let_def)
qed

lemma free_frags_to_post:
  assumes "wf_from lo fs" "used fs \<le> data_size (fst st)" "glob_ok (snd st)"
  shows "\<exists>fs'. free_frags_to offset fs st = (fs', shift (used fs' - used fs) st) \<and> wf_from lo fs' \<and>
     (\<forall>x. content fs' x = (if x < offset then None else content fs x))"
  using assms
proof (induction fs arbitrary: lo st)
  case Nil
  then show ?case by (simp add: shift_zero)
next
  case (Cons f fs)
  have f: "lo \<le> f_off f" "frag_ok f" "wf_from (f_end f) fs" "wf_from lo fs" "0 \<le> used fs" "0 \<le> f_len f"
    using Cons.prems wf_from_tl [of lo f fs] used_nonneg [of "f_end f" fs] by (auto simp: frag_ok_def)
  consider (all) "f_end f \<le> offset" | (part) "f_off f < offset" "offset < f_end f" | (later) "offset \<le> f_off f" "offset < f_end f"
    by linarith
  then show ?case
  proof cases
    case all
    have "enlarge_entry (- f_len f) st = shift (- f_len f) st"
      using Cons.prems f by (intro enlarge_shift) simp
    moreover obtain fs' where "free_frags_to offset fs (shift (- f_len f) st) = (fs', shift (used fs' - used fs) (shift (- f_len f) st))"
        "wf_from lo fs'" "\<forall>x. content fs' x = (if x < offset then None else content fs x)"
      using Cons.IH [OF f(4), of "shift (- f_len f) st"] Cons.prems by auto
    ultimately show ?thesis
      using all by (auto simp: f_end_def in_frag_def algebra_simps)
  next
    case part
    let ?d = "- (offset - f_off f)"
    note b = behead_facts [OF f(2) part]
    have "enlarge_entry ?d st = shift ?d st"
      using Cons.prems f part by (intro enlarge_shift) (simp add: f_end_def)
    moreover obtain fs' where fs': "free_frags_to offset fs (shift ?d st) = (fs', shift (used fs' - used fs) (shift ?d st))"
        "wf_from (f_end f) fs'" "\<forall>x. content fs' x = (if x < offset then None else content fs x)"
      using Cons.IH [OF f(3), of "shift ?d st"] Cons.prems part by (auto simp: f_end_def)
    ultimately have "free_frags_to offset (f # fs) st = (behead offset f # fs', shift (used fs' - used fs + ?d) st)"
      using part by (simp add: behead_def f_end_def Let_def)
    moreover have "used fs' - used fs + ?d = used (behead offset f # fs') - used (f # fs)"
      using b by simp
    moreover have "wf_from lo (behead offset f # fs')"
      using b fs' f part by auto
    moreover have "\<forall>x. content (behead offset f # fs') x = (if x < offset then None else content (f # fs) x)"
      using b fs'(3) part by (auto simp: in_frag_def)
    ultimately show ?thesis
      by metis
  next
    case later
    then have "free_frags_to offset (f # fs) st = (f # fs, st)" "x < offset \<Longrightarrow> content (f # fs) x = None" for x
      using content_below [of "f_off f" "f # fs" x] f by (simp_all add: f_end_def)
    with Cons.prems show ?thesis
      by (auto simp: shift_zero simp del: content.simps)
  qed
qed

lemma free_entry_to_post:
  assumes "entry_ok st"
  shows "entry_ok (free_entry_to offset st)"
    and "content (frag (fst (free_entry_to offset st))) x = (if x < offset then None else content (frag (fst st)) x)"
    and "slack (frag (fst (free_entry_to offset st))) (free_entry_to offset st) = slack (frag (fst st)) st"
proof -
  obtain fs' where t: "free_frags_to offset (frag (fst st)) st = (fs', shift (used fs' - used (frag (fst st))) st)"
      "wf_from 0 fs'" "\<forall>x. content fs' x = (if x < offset then None else content (frag (fst st)) x)"
    using free_frags_to_post [of 0 "frag (fst st)" st offset] assms by (auto simp: entry_ok_def)
  obtain c' g' where sh: "shift (used fs' - used (frag (fst st))) st = (c', g')"
    by fastforce
  have eq: "free_entry_to offset st = (c'\<lparr>frag := fs'\<rparr>, g')"
    by (simp add: free_entry_to_def t(1) sh)
  have "slack fs' (c', g') = slack (frag (fst st)) st"
    unfolding sh [symmetric] by (rule slack_shift) simp
  then show sl: "slack (frag (fst (free_entry_to offset st))) (free_entry_to offset st) = slack (frag (fst st)) st"
    by (simp add: eq slack_def)
  have "glob_ok g'"
    using shift_sel(3) [of "used fs' - used (frag (fst st))" st] sh by simp
  then show "entry_ok (free_entry_to offset st)"
    unfolding entry_ok_slack sl using assms t(2) by (simp add: eq entry_ok_slack)
  show "content (frag (fst (free_entry_to offset st))) x = (if x < offset then None else content (frag (fst st)) x)"
    using t(3) by (simp add: eq)
qed

text \<open>Emptying an entry returns its whole size to the cache, whatever the accounting was.\<close>

lemma delete_entry_content_post:
  assumes "entry_ok (c, g)" "delete_entry_content (c, g) = (c', g')"
  shows "frag c' = []" "data_size c' = 0" "incomplete c'" "cache_size g' = (cache_size g - data_size c) mod 2 ^ 64" "entry_ok (c', g')"
  using assms by (auto simp: delete_entry_content_def enlarge_entry_def entry_ok_def glob_ok_def)

lemma normalize_cache_entry_post:
  assumes "entry_ok st" "0 \<le> n"
  shows "entry_ok (normalize_cache_entry alloc n st)"
    and "content (frag (fst (normalize_cache_entry alloc n st))) = below n (content (frag (fst st)))"
    and "slack (frag (fst (normalize_cache_entry alloc n st))) (normalize_cache_entry alloc n st) = slack (frag (fst st)) st"
    and "\<not> incomplete (fst (normalize_cache_entry alloc n st))"
proof -
  obtain c g where tr: "truncate_entry alloc n True st = (c, g)"
    by fastforce
  have eq: "normalize_cache_entry alloc n st = (c\<lparr>incomplete := False, preformatted := False\<rparr>, g)"
    using assms(2) by (simp add: normalize_cache_entry_def tr)
  note post = truncate_entry_post [OF assms(1), of alloc n True, unfolded tr]
  show "entry_ok (normalize_cache_entry alloc n st)"
      "content (frag (fst (normalize_cache_entry alloc n st))) = below n (content (frag (fst st)))"
      "slack (frag (fst (normalize_cache_entry alloc n st))) (normalize_cache_entry alloc n st) = slack (frag (fst st)) st"
      "\<not> incomplete (fst (normalize_cache_entry alloc n st))"
    using post by (simp_all add: eq entry_ok_def slack_def)
qed

section \<open>The store as an interface\<close>

text \<open>Storing a list of pieces one after the other, as a download does.\<close>

fun put_all :: "(int \<Rightarrow> 'b list \<Rightarrow> 's \<Rightarrow> 's option) \<Rightarrow> int \<Rightarrow> 'b list list \<Rightarrow> 's \<Rightarrow> 's option" where
  "put_all put from [] s = Some s"
| "put_all put from (d # ds) s =
     (case put from d s of None \<Rightarrow> None | Some s' \<Rightarrow> put_all put (from + int (length d)) ds s')"

text \<open>What a client that downloads sequentially relies on.\<close>

locale byte_store =
  fixes put :: "int \<Rightarrow> 'b list \<Rightarrow> 's \<Rightarrow> 's option"
    and view :: "'s \<Rightarrow> int \<Rightarrow> 'b option"
    and ok :: "'s \<Rightarrow> bool"
  assumes put_ok: "ok s \<Longrightarrow> 0 \<le> offset \<Longrightarrow> put offset d s = Some s' \<Longrightarrow> ok s'"
    and put_written: "ok s \<Longrightarrow> 0 \<le> offset \<Longrightarrow> put offset d s = Some s' \<Longrightarrow> i < length d \<Longrightarrow>
          view s' (offset + int i) = Some (d ! i)"
    and put_before: "ok s \<Longrightarrow> 0 \<le> offset \<Longrightarrow> put offset d s = Some s' \<Longrightarrow> x < offset \<Longrightarrow> view s' x = view s x"
begin

lemma put_all_view:
  "ok s \<Longrightarrow> 0 \<le> from \<Longrightarrow> put_all put from ds s = Some s' \<Longrightarrow>
     ok s' \<and> (\<forall>i<length (concat ds). view s' (from + int i) = Some (concat ds ! i)) \<and>
     (\<forall>x<from. view s' x = view s x)"
proof (induction ds arbitrary: "from" s)
  case (Cons d ds)
  obtain s1 where s1: "put from d s = Some s1" "put_all put (from + int (length d)) ds s1 = Some s'"
    using Cons.prems(3) by (auto split: option.splits)
  let ?from = "from + int (length d)"
  have IH: "ok s'" "\<And>i. i < length (concat ds) \<Longrightarrow> view s' (?from + int i) = Some (concat ds ! i)"
      "\<And>x. x < ?from \<Longrightarrow> view s' x = view s1 x"
    using Cons.IH [OF put_ok [OF Cons.prems(1,2) s1(1)] _ s1(2)] Cons.prems(2) by auto
  have "view s' (from + int i) = Some (concat (d # ds) ! i)" if "i < length (concat (d # ds))" for i
  proof (cases "i < length d")
    case True
    then show ?thesis
      using IH(3) put_written [OF Cons.prems(1,2) s1(1) True] by (simp add: nth_append)
  next
    case False
    then have "from + int i = ?from + int (i - length d)"
      by simp
    then show ?thesis
      using IH(2) [of "i - length d"] that False by (simp add: nth_append)
  qed
  then show ?case
    using IH put_before [OF Cons.prems(1,2) s1(1)] by auto
qed simp

end

definition store_fragment :: "(int \<Rightarrow> bool) \<Rightarrow> int \<Rightarrow> uchar list \<Rightarrow> entry_state \<Rightarrow> entry_state option" where
  "store_fragment alloc offset dat st =
     (case add_fragment alloc offset dat st of (r, st') \<Rightarrow> if r = -1 then None else Some st')"

definition entry_view :: "entry_state \<Rightarrow> int \<Rightarrow> uchar option" where
  "entry_view st = content (frag (fst st))"

lemma store_fragment_post:
  assumes "entry_ok st" "0 \<le> offset" "store_fragment alloc offset dat st = Some st'"
  shows "entry_ok st' \<and> stored offset dat (entry_view st) (entry_view st') \<or> dat = [] \<and> st' = st"
proof (cases "dat = []")
  case True
  then show ?thesis
    using assms(3) by (simp add: store_fragment_def add_fragment_def)
next
  case False
  obtain c g r where "st = (c, g)" "add_fragment alloc offset dat (c, g) = (r, st')" "r \<noteq> -1"
    using assms(3) by (cases st) (auto simp: store_fragment_def split: prod.splits if_splits)
  with add_fragment_post [OF this(2,3) _ assms(2) False] assms(1) show ?thesis
    by (simp add: add_post_def entry_view_def)
qed

interpretation fs: byte_store "store_fragment alloc" entry_view entry_ok for alloc
proof
  fix s s' :: entry_state and offset d i x
  assume s: "entry_ok s" "0 \<le> offset" "store_fragment alloc offset d s = Some s'"
  note post = store_fragment_post [OF s]
  show "entry_ok s'"
    using post s(1) by auto
  show "entry_view s' (offset + int i) = Some (d ! i)" if "i < length d"
    using post that by (auto simp: stored_def)
  show "entry_view s' x = entry_view s x" if "x < offset"
    using post that by (auto simp: stored_def)
qed

text \<open>A failed store: the fragment the data touched may have lost its end.\<close>

lemma add_fragment_fails:
  assumes "add_fragment alloc offset dat (c, g) = (-1, st')" "entry_ok (c, g)" "0 \<le> offset"
  shows "entry_ok st' \<and> (\<exists>n. \<not> alloc n) \<and> (\<forall>x<offset. content (frag (fst st')) x = content (frag c) x)"
proof -
  obtain c1 g1 pre rest where fail: "new_fragment alloc pre rest offset dat (c1, g1) = (-1, st')" and
      same: "data_size c1 = data_size c" "glob_ok g1 = glob_ok g" and
      pl: "find_place offset (frag c) = Insert pre rest \<or>
           (\<exists>pre0 f. find_place offset (frag c) = Touch pre0 f rest \<and> pre = pre0 @ [f\<lparr>f_len := offset - f_off f\<rparr>] \<and>
             f_end f < offset + int (length dat))"
    using assms(1)
    by (force simp: add_fragment_def Let_def f_end_def glob_ok_def split: if_splits place.splits)
  have ok: "wf_from 0 (frag c)" "used (frag c) \<le> data_size c" "glob_ok g"
    using assms(2) by (auto simp: entry_ok_def)
  have st': "st' = (c1\<lparr>frag := pre @ rest\<rparr>, g1)" and na: "\<exists>n. \<not> alloc n"
    using fail by (auto simp: new_fragment_def frag_alloc_def Let_def split: if_splits prod.splits)
  have "wf_from 0 (pre @ rest) \<and> used (pre @ rest) \<le> used (frag c) \<and> (\<forall>x<offset. content (pre @ rest) x = content (frag c) x)"
    using pl
  proof (elim disjE exE conjE)
    assume "find_place offset (frag c) = Insert pre rest"
    from find_place_Insert [OF ok(1) assms(3) this] ok(1) show ?thesis
      by simp
  next
    fix pre0 f
    assume f: "find_place offset (frag c) = Touch pre0 f rest" "pre = pre0 @ [f\<lparr>f_len := offset - f_off f\<rparr>]"
    note fp = find_place_Touch [OF ok(1) assms(3) f(1)]
    have t: "touched offset pre0 f rest"
      using fp ok(1) wf_from_append by (metis touched_def)
    let ?f = "f\<lparr>f_len := offset - f_off f\<rparr>"
    have "frag_ok ?f" "f_end ?f = offset" "f_off ?f = f_off f" "f_len ?f \<le> f_len f"
      using t by (auto simp: touched_def frag_ok_def f_end_def)
    moreover have "wf_from 0 (pre0 @ ?f # rest)"
      using t calculation touched_rest [OF t] by (intro wf_from_join [of 0 pre0 "f_off f"]) (auto simp: touched_def)
    moreover have "content (pre0 @ ?f # rest) x = content (pre0 @ f # rest) x" if "x < offset" for x
      using that t by (auto simp: touched_def content_append in_frag_def f_end_def split: option.split)
    ultimately show ?thesis
      using fp f(2) by simp
  qed
  then show ?thesis
    using ok na same by (auto simp: st' entry_ok_def)
qed

section \<open>Properties\<close>

text \<open>C18: Storing data in a well-formed cache entry keeps the entry well-formed and leaves every byte
  before the data. It fails only when memory runs out; otherwise the bytes of the data are readable at
  their offsets afterwards, and each byte behind them is left as it was or dropped.\<close>

theorem add_fragment_stores:
  assumes "entry_ok st" "0 \<le> offset" "dat \<noteq> []" "add_fragment alloc offset dat st = (r, st')"
  shows "entry_ok st' \<and> (\<forall>x<offset. content (frag (fst st')) x = content (frag (fst st)) x) \<and>
     (if r = -1 then \<exists>n. \<not> alloc n
      else (\<forall>i<length dat. content (frag (fst st')) (offset + int i) = Some (dat ! i)) \<and>
           (\<forall>x\<ge>offset + int (length dat). content (frag (fst st')) x \<in> {content (frag (fst st)) x, None}))"
proof -
  obtain c g where st: "st = (c, g)"
    by fastforce
  show ?thesis
    using add_fragment_post [of alloc offset dat c g r st'] add_fragment_fails [of alloc offset dat c g st'] assms
    by (auto simp: st add_post_def stored_def)
qed

definition sample_entry :: "int \<Rightarrow> entry_state" where
  "sample_entry room =
     (\<lparr>frag = [\<lparr>f_off = 0, f_len = 4, f_real = room, f_data = [1, 2, 3, 4] @ replicate (nat room - 4) 0\<rparr>],
       entry_id = 1, entry_length = 4, data_size = 4, incomplete = True, preformatted = False,
       last_modified = None, etag = None\<rparr>,
      \<lparr>cache_size = 4, id_counter = 2\<rparr>)"

theorem add_fragment_stores_witness:
  "map (content (frag (fst (snd (add_fragment (\<lambda>_. True) 2 [7, 8, 9, 10] (sample_entry 8)))))) [2, 3, 4, 5] =
     [Some 7, Some 8, Some 9, Some 10]"
proof -
  have ok: "entry_ok (sample_entry 8)"
    by (simp add: entry_ok_def sample_entry_def frag_ok_def glob_ok_def f_end_def)
  obtain r st' where a: "add_fragment (\<lambda>_. True) 2 [7, 8, 9, 10] (sample_entry 8) = (r, st')"
    by (rule prod.exhaust)
  have "r \<noteq> -1"
    using add_fragment_stores [OF ok _ _ a] by auto
  then have "\<forall>i<4. content (frag (fst st')) (2 + int i) = Some ([7, 8, 9, 10] ! i)"
    using add_fragment_stores [OF ok _ _ a] by simp
  then show ?thesis
    using a by (simp add: eval_nat_numeral All_less_Suc)
qed

text \<open>The accounting of the cache. When memory does not run out, storing data changes
  \<^verbatim>\<open>data_size\<close> by the change of the bytes in use plus the bytes cut off a fragment that has no room
  for the new data, which the code forgets to subtract; \<^verbatim>\<open>cache_size\<close> moves along with
  \<^verbatim>\<open>data_size\<close>.\<close>

theorem add_fragment_accounting:
  assumes "entry_ok st" "0 \<le> offset" "dat \<noteq> []" "\<forall>n. alloc n"
  shows "let fs = frag (fst st); st' = snd (add_fragment alloc offset dat st); fs' = frag (fst st') in
     data_size (fst st') - used fs' = data_size (fst st) - used fs + cut_off offset (int (length dat)) fs \<and>
     (cache_size (snd st') - data_size (fst st')) mod 2 ^ 64 = (cache_size (snd st) - data_size (fst st)) mod 2 ^ 64"
proof -
  obtain c g r st' where st: "st = (c, g)" and a: "add_fragment alloc offset dat (c, g) = (r, st')"
    by (metis prod.exhaust)
  have "r \<noteq> -1"
    using add_fragment_fails [of alloc offset dat c g st'] a assms st by auto
  then show ?thesis
    using add_fragment_post [OF a] a assms st by (simp add: add_post_def slack_def Let_def)
qed

theorem add_fragment_accounting_witness:
  "let st' = snd (add_fragment (\<lambda>_. True) 2 [7, 8, 9, 10] (sample_entry 4))
   in data_size (fst st') = used (frag (fst st')) + 2"
proof -
  have "entry_ok (sample_entry 4)"
    by (simp add: entry_ok_def sample_entry_def frag_ok_def glob_ok_def f_end_def)
  from add_fragment_accounting [OF this, of 2 "[7, 8, 9, 10]" "\<lambda>_. True"] show ?thesis
    by (simp add: Let_def sample_entry_def cut_off_def f_end_def)
qed

text \<open>C38: A download stored piece by piece, each behind the one before, can be read back as the
  concatenation of the pieces.\<close>

theorem download_stored:
  assumes "entry_ok st" "0 \<le> from" "put_all (store_fragment alloc) from ds st = Some st'" "i < length (concat ds)"
  shows "content (frag (fst st')) (from + int i) = Some (concat ds ! i)"
  using fs.put_all_view [OF assms(1-3)] assms(4) by (simp add: entry_view_def)

theorem download_stored_witness:
  "content (frag (fst (the (put_all (store_fragment (\<lambda>_. True)) 4 [[5, 6], [7]] (sample_entry 8))))) 6 = Some 7"
proof -
  have ok: "entry_ok (sample_entry 8)"
    by (simp add: entry_ok_def sample_entry_def frag_ok_def glob_ok_def f_end_def)
  have "put_all (store_fragment (\<lambda>_. True)) 4 [[5, 6], [7]] (sample_entry 8) \<noteq> None"
    by code_simp
  then show ?thesis
    using download_stored [OF ok, of 4 "\<lambda>_. True" "[[5, 6], [7]]" _ 2] by auto
qed

text \<open>Asking for the first fragment of an entry below 2 GB never changes what is stored, nor the accounting. The fragment
  returned begins at offset 0 and holds the stored bytes up to the first gap; nothing is returned only
  when nothing is stored at offset 0.\<close>

theorem get_cache_fragment_prefix:
  assumes "wf_from 0 (frag c)" "used (frag c) < 2 ^ 31" "\<forall>n. alloc n" "get_cache_fragment alloc c = (r, c')"
  shows "content (frag c') = content (frag c) \<and> used (frag c') = used (frag c) \<and> wf_from 0 (frag c') \<and> data_size c' = data_size c \<and>
     (case r of
        None \<Rightarrow> content (frag c) 0 = None
      | Some f \<Rightarrow> f_off f = 0 \<and> content (frag c) (f_len f) = None \<and>
          (\<forall>x. 0 \<le> x \<and> x < f_len f \<longrightarrow> content (frag c) x = Some (f_data f ! nat x)))"
proof -
  note post = get_cache_fragment_post [OF assms(1,2), of alloc, unfolded assms(4) defrag_post_def prod.case]
  have "data_size c' = data_size c"
    using post by (metis cache_entry.select_convs(4) cache_entry.surjective cache_entry.update_convs(1))
  moreover have "content (f # fs) x = Some (f_data f ! nat x)" if "f_off f = 0" "0 \<le> x" "x < f_len f" for f fs x
    using that by (simp add: in_frag_def f_end_def)
  ultimately show ?thesis
    using post assms(3) by (cases r) (auto simp del: content.simps, metis)
qed

definition two_fragments :: cache_entry where
  "two_fragments = (fst (sample_entry 4))
     \<lparr>frag := [\<lparr>f_off = 0, f_len = 2, f_real = 2, f_data = [1, 2]\<rparr>, \<lparr>f_off = 2, f_len = 2, f_real = 2, f_data = [3, 4]\<rparr>]\<rparr>"

theorem get_cache_fragment_prefix_witness:
  "content (frag (snd (get_cache_fragment (\<lambda>_. True) two_fragments))) = content (frag two_fragments) \<and>
   map_option f_data (fst (get_cache_fragment (\<lambda>_. True) two_fragments)) = Some [1, 2, 3, 4]"
proof -
  have "wf_from 0 (frag two_fragments)" "used (frag two_fragments) < 2 ^ 31"
    by (simp_all add: two_fragments_def frag_ok_def f_end_def)
  moreover have "map_option f_data (fst (get_cache_fragment (\<lambda>_. True) two_fragments)) = Some [1, 2, 3, 4]"
    by code_simp
  ultimately show ?thesis
    using get_cache_fragment_prefix [of two_fragments "\<lambda>_. True" "fst (get_cache_fragment (\<lambda>_. True) two_fragments)"
      "snd (get_cache_fragment (\<lambda>_. True) two_fragments)"] by simp
qed

end
