(* ===== verification/Conv.thy ===== *)
theory Conv
  imports Prelude
begin

text \<open>
  \<^verbatim>\<open>elinks/src/util/conv.c\<close>, \<^verbatim>\<open>util/conv.h\<close> and the comparison functions of \<^verbatim>\<open>util/string.c\<close>:
  numbers to text, encoders and quoting, text clean-up, and the locale-independent case
  functions. A function that adds to a \<^verbatim>\<open>struct string\<close> is modelled by the text it adds, the
  string having the memory it needs; functions that change a buffer in place return the new text.
  The functions of \<^verbatim>\<open><ctype.h>\<close> are those of the C locale.
\<close>

section \<open>Characters\<close>

definition ccode :: "char \<Rightarrow> nat" where
  "ccode c = of_char c"

definition c_isupper :: "char \<Rightarrow> bool" where
  "c_isupper c \<longleftrightarrow> 65 \<le> ccode c \<and> ccode c \<le> 90"

definition c_islower :: "char \<Rightarrow> bool" where
  "c_islower c \<longleftrightarrow> 97 \<le> ccode c \<and> ccode c \<le> 122"

definition c_tolower :: "char \<Rightarrow> char" where
  "c_tolower c = (if c_isupper c then char_of (ccode c + 32) else c)"

definition c_toupper :: "char \<Rightarrow> char" where
  "c_toupper c = (if c_islower c then char_of (ccode c - 32) else c)"

definition isasciialpha :: "char \<Rightarrow> bool" where
  "isasciialpha c \<longleftrightarrow> c_isupper c \<or> c_islower c"

definition isasciialnum :: "char \<Rightarrow> bool" where
  "isasciialnum c \<longleftrightarrow> isasciialpha c \<or> c_isdigit c"

definition isident :: "char \<Rightarrow> bool" where
  "isident c \<longleftrightarrow> isasciialnum c \<or> c = CHR ''_'' \<or> c = CHR ''-''"

definition isquote :: "char \<Rightarrow> bool" where
  "isquote c \<longleftrightarrow> c = CHR 0x22 \<or> c = CHR 0x27"

definition is_safe_in_shell :: "char \<Rightarrow> bool" where
  "is_safe_in_shell c \<longleftrightarrow> isasciialnum c \<or> c = CHR ''@'' \<or> c = CHR ''+'' \<or> c = CHR ''.'' \<or>
     c = CHR ''/'' \<or> c = CHR '':'' \<or> c = CHR ''_''"

definition hx :: "nat \<Rightarrow> char" where
  "hx a = (if a \<ge> 10 then char_of (a + 97 - 10) else char_of (a + 48))"

definition unhx :: "char \<Rightarrow> int" where
  "unhx a =
     (if c_isdigit a then int (ccode a) - 48
      else if 97 \<le> ccode a \<and> ccode a \<le> 102 then int (ccode a) - 97 + 10
      else if 65 \<le> ccode a \<and> ccode a \<le> 70 then int (ccode a) - 65 + 10
      else -1)"

section \<open>Comparing\<close>

text \<open>The loop of \<^verbatim>\<open>c_strncasecmp\<close> over two strings and a number of bytes.\<close>

fun c_strncasecmp :: "string \<Rightarrow> string \<Rightarrow> nat \<Rightarrow> int" where
  "c_strncasecmp s1 s2 0 = 0"
| "c_strncasecmp s1 s2 (Suc n) =
     (let c1 = c_tolower (rd s1 0); c2 = c_tolower (rd s2 0) in
      if c1 \<noteq> c2 then (if ccode c1 < ccode c2 then -1 else 1)
      else if c1 = NUL then 0
      else c_strncasecmp (drop 1 s1) (drop 1 s2) n)"

function c_strcasecmp :: "string \<Rightarrow> string \<Rightarrow> int" where
  "c_strcasecmp s1 s2 =
     (let c1 = c_tolower (rd s1 0); c2 = c_tolower (rd s2 0) in
      if c1 \<noteq> c2 then (if ccode c1 < ccode c2 then -1 else 1)
      else if c1 = NUL then 0
      else c_strcasecmp (drop 1 s1) (drop 1 s2))"
  by auto
termination
proof (relation "measure (\<lambda>(s1, s2). length s1)")
  fix s1 s2 :: string and x xa
  assume "x = c_tolower (rd s1 0)" "\<not> x \<noteq> xa" "x \<noteq> NUL"
  then have "s1 \<noteq> []"
    by (auto simp: c_tolower_def c_isupper_def ccode_def NUL_def rd_def split: if_splits)
  then show "((drop 1 s1, drop 1 s2), s1, s2) \<in> measure (\<lambda>(s1, s2). length s1)"
    by simp
qed simp

fun c_strcasestr_loop :: "nat \<Rightarrow> string \<Rightarrow> nat \<Rightarrow> string \<Rightarrow> nat option" where
  "c_strcasestr_loop 0 haystack pos needle = None"
| "c_strcasestr_loop (Suc i) haystack pos needle =
     (if c_strncasecmp (drop pos haystack) needle (length needle) = 0 then Some pos
      else c_strcasestr_loop i haystack (Suc pos) needle)"

definition c_strcasestr :: "string \<Rightarrow> string \<Rightarrow> nat option" where
  "c_strcasestr haystack needle =
     (if length haystack < length needle then None
      else c_strcasestr_loop (length haystack - length needle + 1) haystack 0 needle)"

section \<open>Numbers to text\<close>

definition to_num :: "bool \<Rightarrow> nat \<Rightarrow> char" where
  "to_num upper d = (if upper then ''0123456789ABCDEF'' else ''0123456789abcdef'') ! d"

text \<open>The length of a number in characters.\<close>

function num_len :: "nat \<Rightarrow> nat \<Rightarrow> nat" where
  "num_len base q = (if base \<ge> 2 \<and> q > base - 1 then Suc (num_len base (q div base)) else 1)"
  by auto
termination
  by (relation "measure snd") auto

text \<open>The digits are written from the end.\<close>

fun put_digits :: "bool \<Rightarrow> nat \<Rightarrow> nat \<Rightarrow> nat \<Rightarrow> string" where
  "put_digits upper base 0 number = []"
| "put_digits upper base (Suc n) number =
     put_digits upper base n (number div base) @ [to_num upper (number mod base)]"

text \<open>The result and the text written behind what the buffer holds already.\<close>

definition elinks_ulongcat :: "nat \<Rightarrow> nat \<Rightarrow> char \<Rightarrow> nat \<Rightarrow> bool \<Rightarrow> int \<times> string" where
  "elinks_ulongcat number width fillchar base upper =
     (if width < 1 \<or> base < 2 \<or> base > 16 then (-1, [])
      else
        let nlen = num_len base number;
            ret = (if nlen > width then int nlen else 0);
            nlen = (if nlen > width then width else nlen);
            pad = (if fillchar \<noteq> NUL then replicate (width - nlen) fillchar else [])
        in (ret, pad @ put_digits upper base nlen number))"

definition elinks_longcat :: "int \<Rightarrow> nat \<Rightarrow> char \<Rightarrow> nat \<Rightarrow> bool \<Rightarrow> int \<times> string" where
  "elinks_longcat number width fillchar base upper =
     (if number < 0 \<and> width > 0 then
        case elinks_ulongcat (nat (- number mod 2 ^ 64)) (width - 1) fillchar base upper of
          (ret, txt) \<Rightarrow> (ret, CHR ''-'' # txt)
      else elinks_ulongcat (nat (number mod 2 ^ 64)) width fillchar base upper)"

definition ulongcat :: "int \<Rightarrow> nat \<Rightarrow> char \<Rightarrow> string" where
  "ulongcat number width fillchar = snd (elinks_ulongcat (nat (number mod 2 ^ 64)) width fillchar 10 False)"

definition add_long_to_string :: "int \<Rightarrow> string option" where
  "add_long_to_string number =
     (case elinks_longcat number 31 NUL 10 False of
        (width, buffer) \<Rightarrow> if width < 0 \<or> buffer = [] then None else Some buffer)"

definition add_knum_to_string :: "int \<Rightarrow> string option" where
  "add_knum_to_string num =
     (case (if num \<noteq> 0 \<and> num sdiv (1024 * 1024) * (1024 * 1024) = num then
              case elinks_longcat (num sdiv (1024 * 1024)) 30 NUL 10 False of (ret, t) \<Rightarrow> (ret, t @ ''M'')
            else if num \<noteq> 0 \<and> num sdiv 1024 * 1024 = num then
              case elinks_longcat (num sdiv 1024) 30 NUL 10 False of (ret, t) \<Rightarrow> (ret, t @ ''k'')
            else elinks_longcat num 31 NUL 10 False) of
        (ret, t) \<Rightarrow> if ret < 0 \<or> t = [] then None else Some t)"

definition add_xnum_to_string :: "int \<Rightarrow> string" where
  "add_xnum_to_string xnum =
     (let (suff, d, xnum) =
        (if xnum \<ge> 1024 * 1024 then (''Mi'', (xnum * 10 sdiv (1024 * 1024)) smod 10, xnum sdiv (1024 * 1024))
         else if xnum \<ge> 1024 then (''Ki'', (xnum * 10 sdiv 1024) smod 10, xnum sdiv 1024)
         else ([], -1, xnum))
      in (case add_long_to_string xnum of None \<Rightarrow> [] | Some t \<Rightarrow> t) @
         (if xnum < 10 \<and> d \<noteq> -1 then ''.'' @ (case add_long_to_string d of None \<Rightarrow> [] | Some t \<Rightarrow> t) else []) @
         '' '' @ suff @ ''B'')"

definition add_duration_to_string :: "int \<Rightarrow> string" where
  "add_duration_to_string seconds =
     (let seconds = (if seconds < 0 then 0 else seconds);
          days = (if seconds \<ge> 24 * 3600 then ulongcat (seconds sdiv (24 * 3600)) 5 NUL @ ''d '' else []);
          (hm, seconds) =
            (if seconds \<ge> 3600 then
               let seconds = seconds smod (24 * 3600)
               in (ulongcat (seconds sdiv 3600) 4 NUL @ '':'' @ ulongcat ((seconds sdiv 60) smod 60) 2 (CHR ''0''), seconds)
             else (ulongcat (seconds sdiv 60) 2 NUL, seconds))
      in days @ hm @ '':'' @ ulongcat (seconds smod 60) 2 (CHR ''0''))"

section \<open>Encoders\<close>

definition add_string_replace :: "string \<Rightarrow> char \<Rightarrow> char \<Rightarrow> string" where
  "add_string_replace src replaceable replacement =
     map (\<lambda>c. if c = replaceable then replacement else c) src"

text \<open>A character \<^verbatim>\<open>add_html_to_string\<close> copies; the other ones become a reference.\<close>

definition html_plain :: "char \<Rightarrow> bool" where
  "html_plain c \<longleftrightarrow> isasciialnum c \<or> c = CHR ''-'' \<or> c = CHR ''_'' \<or> c = CHR '' '' \<or> c = CHR ''.'' \<or>
     c = CHR '':'' \<or> c = CHR '';''"

fun add_html_to_string :: "string \<Rightarrow> string option" where
  "add_html_to_string [] = Some []"
| "add_html_to_string (c # src) =
     (if html_plain c then map_option (\<lambda>r. c # r) (add_html_to_string src)
      else case add_long_to_string (int (ccode c)) of
             None \<Rightarrow> None
           | Some n \<Rightarrow> map_option (\<lambda>r. ''&#'' @ n @ '';'' @ r) (add_html_to_string src))"

fun add_quoted_to_string :: "string \<Rightarrow> string" where
  "add_quoted_to_string [] = []"
| "add_quoted_to_string (c # src) =
     (if isquote c \<or> c = CHR 0x5C then [CHR 0x5C] else []) @ c # add_quoted_to_string src"

fun shell_quoted :: "string \<Rightarrow> string" where
  "shell_quoted [] = []"
| "shell_quoted (c # src) =
     (if c = CHR 0x27 then [CHR 0x27, CHR 0x5C, CHR 0x27, CHR 0x27] else [c]) @ shell_quoted src"

definition add_shell_quoted_to_string :: "string \<Rightarrow> string" where
  "add_shell_quoted_to_string src = [CHR 0x27] @ shell_quoted src @ [CHR 0x27]"

text \<open>\<^verbatim>\<open>prev_safe\<close> is assigned only when its disjunct of the condition is evaluated.\<close>

fun shell_safe :: "bool \<Rightarrow> string \<Rightarrow> string" where
  "shell_safe prev_safe [] = []"
| "shell_safe prev_safe (c # cmd) =
     (if c = CHR ''-'' \<and> prev_safe then c # shell_safe prev_safe cmd
      else if is_safe_in_shell c then c # shell_safe True cmd
      else CHR ''%'' # hx (ccode c div 16) # hx (ccode c mod 16) # shell_safe False cmd)"

definition add_shell_safe_to_string :: "string \<Rightarrow> string" where
  "add_shell_safe_to_string cmd = shell_safe False cmd"

section \<open>Reading numbers\<close>

definition c_isspace :: "char \<Rightarrow> bool" where
  "c_isspace c \<longleftrightarrow> c = CHR '' '' \<or> (9 \<le> ccode c \<and> ccode c \<le> 13)"

definition dec_val :: "string \<Rightarrow> int" where
  "dec_val ds = foldl (\<lambda>a d. a * 10 + digit_val d) 0 ds"

text \<open>\<^verbatim>\<open>strtol (str, &end, 10)\<close>: the value, the offset of \<^verbatim>\<open>end\<close> and whether \<^verbatim>\<open>errno\<close> is set.\<close>

definition strtol10 :: "string \<Rightarrow> int \<times> nat \<times> bool" where
  "strtol10 s =
     (let sp = length (takeWhile c_isspace s);
          neg = (rd s sp = CHR ''-'');
          sg = (if neg \<or> rd s sp = CHR ''+'' then 1 else 0);
          ds = takeWhile c_isdigit (drop (sp + sg) s);
          v = (if neg then - dec_val ds else dec_val ds)
      in if ds = [] then (0, 0, False)
         else if v > 2 ^ 63 - 1 then (2 ^ 63 - 1, sp + sg + length ds, True)
         else if v < - (2 ^ 63) then (- (2 ^ 63), sp + sg + length ds, True)
         else (v, sp + sg + length ds, False))"

definition INT_MAX :: int where
  "INT_MAX = 2 ^ 31 - 1"

text \<open>The value and the offset of the end.\<close>

definition strtolx :: "string \<Rightarrow> int \<times> nat" where
  "strtolx str =
     (case strtol10 str of (num, e, err) \<Rightarrow>
        if err then (0, e)
        else
          let postfix = c_toupper (rd str e) in
          if postfix = CHR ''K'' then
            (if num < (- INT_MAX) sdiv 1024 then - INT_MAX
             else if num > INT_MAX sdiv 1024 then INT_MAX else num * 1024, e + 1)
          else if postfix = CHR ''M'' then
            (if num < (- INT_MAX) sdiv (1024 * 1024) then - INT_MAX
             else if num > INT_MAX sdiv (1024 * 1024) then INT_MAX else num * (1024 * 1024), e + 1)
          else (num, e))"

section \<open>Clean-up\<close>

definition NBSP_CHAR :: char where
  "NBSP_CHAR = CHR 0x01"

definition blank_ctrl :: "char \<Rightarrow> char" where
  "blank_ctrl c = (if ccode c < 32 \<or> c = NBSP_CHAR then CHR '' '' else c)"

text \<open>The second loop of \<^verbatim>\<open>clr_spaces\<close>; \<open>started\<close> is \<^verbatim>\<open>dest != str\<close>.\<close>

fun squeeze :: "bool \<Rightarrow> string \<Rightarrow> string" where
  "squeeze started [] = []"
| "squeeze started (c # s) =
     (if c = CHR '' '' \<and> (\<not> started \<or> rd s 0 = CHR '' '' \<or> rd s 0 = NUL) then squeeze started s
      else c # squeeze True s)"

definition clr_spaces :: "string \<Rightarrow> string" where
  "clr_spaces str = squeeze False (map blank_ctrl str)"

definition trim_chars :: "string \<Rightarrow> char \<Rightarrow> string" where
  "trim_chars s c = rev (dropWhile (\<lambda>x. x = c) (rev (dropWhile (\<lambda>x. x = c) s)))"

definition sanitize_title :: "string \<Rightarrow> string" where
  "sanitize_title title = (if title = [] then [] else trim_chars (map blank_ctrl title) (CHR '' ''))"

definition sanitize_url :: "string \<Rightarrow> bool \<times> string" where
  "sanitize_url url =
     (if url = [] then (True, url)
      else if \<exists>c\<in>set url. ccode c < 32 then (False, url)
      else (True, trim_chars url (CHR '' '')))"

section \<open>Characters and comparison\<close>

lemma ccode_lt [simp]: "ccode c < 256"
  using of_char_mod_256 [of c] by (metis ccode_def mod_less_divisor zero_less_numeral)

lemma ccode_char_of [simp]: "n < 256 \<Longrightarrow> ccode (char_of n) = n"
  by (simp add: ccode_def)

lemma char_of_ccode [simp]: "char_of (ccode c) = c"
  by (simp add: ccode_def)

lemma ccode_eq [simp]: "ccode c = ccode d \<longleftrightarrow> c = d"
  by (metis char_of_ccode)

lemma c_tolower_NUL [simp]: "c_tolower c = NUL \<longleftrightarrow> c = NUL"
proof -
  have "c_tolower c = c \<or> 97 \<le> ccode (c_tolower c) \<and> c \<noteq> NUL"
    by (auto simp: c_tolower_def c_isupper_def ccode_def NUL_def)
  then show ?thesis
    by (auto simp: ccode_def NUL_def)
qed

lemma c_tolower_of_NUL [simp]: "c_tolower NUL = NUL"
  by (simp only: c_tolower_NUL)

lemma c_strncasecmp_eq:
  "NUL \<notin> set s1 \<Longrightarrow> NUL \<notin> set s2 \<Longrightarrow>
     c_strncasecmp s1 s2 n = 0 \<longleftrightarrow> map c_tolower (take n s1) = map c_tolower (take n s2)"
proof (induction n arbitrary: s1 s2)
  case (Suc n)
  have nul: "c_tolower a = c_tolower NUL \<longleftrightarrow> a = NUL" for a
    by (metis c_tolower_NUL)
  show ?case
  proof (cases s1; cases s2)
    fix a as b bs assume "s1 = a # as" "s2 = b # bs"
    with Suc show ?thesis
      by (auto simp: Let_def)
  qed (use Suc.prems nul nul [unfolded eq_commute [of _ "c_tolower NUL"]] in \<open>auto simp: Let_def rd_def\<close>)
qed simp

section \<open>Numbers\<close>

declare num_len.simps [simp del]

text \<open>The value of a digit and of a text of digits.\<close>

definition num_val :: "nat \<Rightarrow> string \<Rightarrow> nat" where
  "num_val base s = foldl (\<lambda>a c. a * base + nat (unhx c)) 0 s"

lemma unhx_to_num [simp]: "d < 16 \<Longrightarrow> unhx (to_num upper d) = int d"
proof -
  assume "d < 16"
  then have "d \<in> set [0..<16]"
    by simp
  moreover have "list_all (\<lambda>d. unhx (to_num True d) = int d \<and> unhx (to_num False d) = int d) [0..<16]"
    by code_simp
  ultimately show ?thesis
    by (cases upper) (auto simp: list_all_iff)
qed

lemma num_val_snoc [simp]: "num_val base (s @ [c]) = num_val base s * base + nat (unhx c)" "num_val base [] = 0"
  by (simp_all add: num_val_def)

lemma put_digits_val:
  "2 \<le> base \<Longrightarrow> base \<le> 16 \<Longrightarrow> num_val base (put_digits upper base n number) = number mod base ^ n"
proof (induction n arbitrary: number)
  case (Suc n)
  have "number mod base < 16"
    using Suc.prems mod_less_divisor [of base number] by linarith
  then show ?case
    using Suc by (simp add: mod_mult2_eq)
qed simp

lemma length_put_digits [simp]: "length (put_digits upper base n number) = n"
  by (induction n arbitrary: number) auto

lemma num_len_bounds: "2 \<le> base \<Longrightarrow> number < base ^ num_len base number \<and> 0 < num_len base number"
proof (induction base number rule: num_len.induct)
  case (1 base q)
  show ?case
  proof (cases "q > base - 1")
    case True
    then have "q div base < base ^ num_len base (q div base)"
      using 1 by simp
    then have "q < base ^ Suc (num_len base (q div base))"
      using 1(2) by (simp add: div_less_iff_less_mult mult.commute)
    with True 1(2) show ?thesis
      by (simp add: num_len.simps [of base q])
  next
    case False
    with 1(2) show ?thesis
      by (auto simp: num_len.simps [of base q])
  qed
qed

lemma num_len_least: "2 \<le> base \<Longrightarrow> 0 < n \<Longrightarrow> number < base ^ n \<Longrightarrow> num_len base number \<le> n"
proof (induction n arbitrary: number)
  case (Suc n)
  show ?case
  proof (cases "number > base - 1")
    case True
    then have "n \<noteq> 0"
      using Suc.prems by (cases n) auto
    moreover have "number div base < base ^ n"
      using Suc.prems by (simp add: div_less_iff_less_mult mult.commute)
    ultimately show ?thesis
      using Suc True by (simp add: num_len.simps [of base number])
  qed (simp add: num_len.simps)
qed simp

text \<open>Converting a number to text writes exactly its last \<open>width\<close> digits in the given base, with
  nothing lost when it fits; the result is 0 when the number fits and otherwise the width it needs.\<close>

theorem ulongcat_value:
  assumes "2 \<le> base" "base \<le> 16" "0 < width"
  shows "\<exists>ret txt. elinks_ulongcat number width NUL base upper = (ret, txt) \<and>
     num_val base txt = number mod base ^ width \<and> length txt = min width (num_len base number) \<and>
     (ret = 0 \<longleftrightarrow> number < base ^ width) \<and> (ret \<noteq> 0 \<longrightarrow> ret = int (num_len base number))"
proof -
  have nl: "number < base ^ num_len base number" "0 < num_len base number"
    using num_len_bounds [OF assms(1)] by auto
  have fits: "num_len base number \<le> width \<longleftrightarrow> number < base ^ width"
  proof
    assume "num_len base number \<le> width"
    then have "base ^ num_len base number \<le> base ^ width"
      using assms(1) by (intro power_increasing) auto
    then show "number < base ^ width"
      using nl by linarith
  qed (use num_len_least assms in blast)
  show ?thesis
  proof (cases "num_len base number > width")
    case True
    then show ?thesis
      using assms fits put_digits_val [OF assms(1,2), of upper width number]
      by (auto simp: elinks_ulongcat_def Let_def)
  next
    case False
    then show ?thesis
      using assms fits put_digits_val [OF assms(1,2), of upper "num_len base number" number] nl
      by (auto simp: elinks_ulongcat_def Let_def)
  qed
qed

theorem ulongcat_value_witness:
  "elinks_ulongcat 123 2 NUL 10 False = (3, ''23'') \<and> num_val 10 ''23'' = 123 mod 10 ^ 2"
proof -
  have "elinks_ulongcat 123 2 NUL 10 False = (3, ''23'')"
    by code_simp
  then show ?thesis
    using ulongcat_value [of 10 2 123 False] by auto
qed

section \<open>Encoders\<close>

text \<open>How a POSIX shell reads a word made of single-quoted parts and escaped characters: \<open>q\<close> tells
  whether it is between quotes. Any other unquoted character ends the guarantee.\<close>

fun sh_word :: "bool \<Rightarrow> string \<Rightarrow> string option" where
  "sh_word False [] = Some []"
| "sh_word True [] = None"
| "sh_word True (c # s) = (if c = CHR 0x27 then sh_word False s else map_option ((#) c) (sh_word True s))"
| "sh_word False [c] = (if c = CHR 0x27 then sh_word True [] else None)"
| "sh_word False (c # d # s) =
     (if c = CHR 0x27 then sh_word True (d # s)
      else if c = CHR 0x5C then map_option ((#) d) (sh_word False s)
      else None)"

lemma sh_word_open [simp]: "sh_word False (CHR 0x27 # s) = sh_word True s"
  by (cases s) auto

lemma sh_word_quoted: "sh_word True (shell_quoted src @ [CHR 0x27]) = Some src"
  by (induction src) auto

text \<open>A shell reads the quoted form of any text as one word that is the text itself.\<close>

theorem shell_quoted_roundtrip: "sh_word False (add_shell_quoted_to_string src) = Some src"
  by (simp add: add_shell_quoted_to_string_def sh_word_quoted)

text \<open>Every character that \<^verbatim>\<open>add_shell_safe_to_string\<close> adds is harmless, and a dash is never first.\<close>

lemma hx_safe: "a < 16 \<Longrightarrow> is_safe_in_shell (hx a)"
  by (auto simp: hx_def is_safe_in_shell_def isasciialnum_def isasciialpha_def c_isdigit_def c_islower_def ccode_def)

lemma shell_safe_chars:
  "c \<in> set (shell_safe p cmd) \<Longrightarrow> is_safe_in_shell c \<or> c = CHR ''%'' \<or> c = CHR ''-''"
proof (induction p cmd rule: shell_safe.induct)
  case (2 p c' cmd)
  have "ccode c' div 16 < 16" "ccode c' mod 16 < 16"
    using ccode_lt [of c'] by (auto simp: div_less_iff_less_mult)
  then show ?case
    using 2 hx_safe by (auto split: if_splits)
qed simp

lemma shell_safe_no_option: "rd (shell_safe False cmd) 0 \<noteq> CHR ''-''"
  by (cases cmd) (auto simp: NUL_def rd_def is_safe_in_shell_def isasciialnum_def isasciialpha_def c_isupper_def
      c_islower_def c_isdigit_def ccode_def)

text \<open>Shell-safe text consists of safe characters, dashes and percent signs only, and never begins
  with the dash that would make it a command-line option.\<close>

theorem shell_safe_harmless:
  "list_all (\<lambda>c. is_safe_in_shell c \<or> c = CHR ''%'' \<or> c = CHR ''-'') (add_shell_safe_to_string cmd) \<and>
   rd (add_shell_safe_to_string cmd) 0 \<noteq> CHR ''-''"
  using shell_safe_chars shell_safe_no_option by (auto simp: add_shell_safe_to_string_def list_all_iff)

text \<open>Reading quoted text back.\<close>

fun unquote :: "string \<Rightarrow> string" where
  "unquote [] = []"
| "unquote [c] = [c]"
| "unquote (c # d # s) = (if c = CHR 0x5C then d # unquote s else c # unquote (d # s))"

lemma unquote_quoted: "unquote (add_quoted_to_string src) = src"
proof (induction src)
  case (Cons c src)
  show ?case
  proof (cases "isquote c \<or> c = CHR 0x5C")
    case True
    then show ?thesis
      using Cons by simp
  next
    case False
    then show ?thesis
      using Cons by (cases "add_quoted_to_string src") auto
  qed
qed simp


section \<open>HTML references\<close>

lemma c_isdigit_to_num [simp]: "d < 10 \<Longrightarrow> c_isdigit (to_num upper d)"
proof -
  assume "d < 10"
  then have "d \<in> set [0..<10]"
    by simp
  moreover have "list_all (\<lambda>d. c_isdigit (to_num True d) \<and> c_isdigit (to_num False d)) [0..<10]"
    by code_simp
  ultimately show ?thesis
    by (cases upper) (auto simp: list_all_iff)
qed

lemma put_digits_isdigit: "list_all c_isdigit (put_digits upper 10 n number)"
  by (induction n arbitrary: number) auto

lemma digit_val_unhx: "c_isdigit c \<Longrightarrow> digit_val c = unhx c"
  by (simp add: digit_val_def unhx_def ccode_def of_nat_of_char)

lemma dec_val_snoc [simp]: "dec_val (s @ [c]) = dec_val s * 10 + digit_val c" "dec_val [] = 0"
  by (simp_all add: dec_val_def)

lemma dec_val_num_val: "list_all c_isdigit ds \<Longrightarrow> dec_val ds = int (num_val 10 ds)"
proof (induction ds rule: rev_induct)
  case (snoc c ds)
  have "0 \<le> unhx c"
    using snoc.prems digit_val_bounds [of c] by (simp add: digit_val_unhx)
  with snoc show ?case
    by (simp add: digit_val_unhx)
qed simp

lemma add_long_nonneg:
  assumes "n < 2 ^ 64"
  shows "\<exists>ds. add_long_to_string (int n) = Some ds \<and> ds \<noteq> [] \<and> list_all c_isdigit ds \<and> dec_val ds = int n"
proof -
  have "(2::nat) ^ 64 < 10 ^ 31"
    by simp
  then have fits: "n < 10 ^ 31"
    using assms by linarith
  then have nl: "num_len 10 n \<le> 31" "n < 10 ^ num_len 10 n" "0 < num_len 10 n"
    using num_len_least [of 10 31 n] num_len_bounds [of 10 n] by auto
  let ?ds = "put_digits False 10 (num_len 10 n) n"
  have "n mod 2 ^ 64 = n"
    using assms by (rule mod_less)
  then have n64: "nat (int n mod 2 ^ 64) = n"
    by (metis nat_int of_nat_numeral of_nat_power zmod_int)
  have "elinks_ulongcat n 31 NUL 10 False = (0, ?ds)"
    using nl(1) by (simp add: elinks_ulongcat_def Let_def)
  then have "elinks_longcat (int n) 31 NUL 10 False = (0, ?ds)"
    unfolding elinks_longcat_def n64 by simp
  moreover have "?ds \<noteq> []"
    using nl(3) length_put_digits [of False 10 "num_len 10 n" n] by force
  moreover have "dec_val ?ds = int n"
    using nl(2) put_digits_val [of 10 False "num_len 10 n" n] by (simp add: dec_val_num_val put_digits_isdigit)
  ultimately show ?thesis
    by (simp add: add_long_to_string_def put_digits_isdigit)
qed

text \<open>Reading numeric character references.\<close>

function html_decode :: "string \<Rightarrow> string" where
  "html_decode s =
     (if s = [] then []
      else if rd s 0 = CHR ''&'' \<and> rd s 1 = CHR ''#'' then
        let ds = takeWhile c_isdigit (drop 2 s)
        in char_of (nat (dec_val ds)) # html_decode (drop (length ds + 3) s)
      else hd s # html_decode (tl s))"
  by auto
termination
  by (relation "measure length") auto

declare html_decode.simps [simp del]

lemma html_plain_not_amp: "html_plain c \<Longrightarrow> c \<noteq> CHR ''&''"
  by (auto simp: html_plain_def isasciialnum_def isasciialpha_def c_isupper_def c_islower_def c_isdigit_def ccode_def)

lemma html_decode_ref:
  assumes "list_all c_isdigit ds" "dec_val ds = int (ccode c)"
  shows "html_decode (''&#'' @ ds @ '';'' @ r) = c # html_decode r"
proof -
  have "\<not> c_isdigit CHR '';''"
    by (simp add: c_isdigit_def)
  then have "takeWhile c_isdigit (ds @ '';'' @ r) = ds"
    using assms(1) by (simp add: takeWhile_append2 list_all_iff)
  moreover have "drop (length ds + 3) (''&#'' @ ds @ '';'' @ r) = r"
    by (simp add: numeral_3_eq_3)
  ultimately show ?thesis
    using assms(2) by (subst html_decode.simps) (simp add: rd_def)
qed

text \<open>Encoding text for HTML always succeeds, and reading the character references back gives the
  text.\<close>

theorem add_html_roundtrip: "\<exists>r. add_html_to_string src = Some r \<and> html_decode r = src"
proof (induction src)
  case Nil
  then show ?case
    by (simp add: html_decode.simps)
next
  case (Cons c src)
  then obtain r where r: "add_html_to_string src = Some r" "html_decode r = src"
    by blast
  show ?case
  proof (cases "html_plain c")
    case True
    then show ?thesis
      using r html_plain_not_amp by (simp add: html_decode.simps [of "c # r"])
  next
    case False
    have "ccode c < 2 ^ 64"
      using ccode_lt [of c] by (rule less_trans) simp
    then obtain ds where "add_long_to_string (int (ccode c)) = Some ds" "list_all c_isdigit ds" "dec_val ds = int (ccode c)"
      using add_long_nonneg by blast
    then show ?thesis
      using False r html_decode_ref [of ds c r] by simp
  qed
qed

section \<open>Blanks\<close>

text \<open>No two blanks in a row and none at the end.\<close>

fun tidy :: "string \<Rightarrow> bool" where
  "tidy [] = True"
| "tidy [c] = (c \<noteq> CHR '' '')"
| "tidy (c # d # s) = ((c = CHR '' '' \<longrightarrow> d \<noteq> CHR '' '') \<and> tidy (d # s))"

lemma tidy_Cons: "tidy (c # s) \<longleftrightarrow> (c = CHR '' '' \<longrightarrow> rd s 0 \<noteq> CHR '' '' \<and> s \<noteq> []) \<and> tidy s"
  by (cases s) auto

lemma squeeze_starts: "NUL \<notin> set s \<Longrightarrow> \<not> started \<or> rd s 0 \<noteq> CHR '' '' \<Longrightarrow> rd (squeeze started s) 0 \<noteq> CHR '' ''"
  by (induction started s rule: squeeze.induct) (auto simp: rd_def NUL_def)

lemma squeeze_ends: "s \<noteq> [] \<Longrightarrow> rd s 0 \<noteq> CHR '' '' \<Longrightarrow> squeeze started s \<noteq> []"
  by (cases s) auto

lemma squeeze_tidy: "NUL \<notin> set s \<Longrightarrow> tidy (squeeze started s)"
proof (induction started s rule: squeeze.induct)
  case (2 started c s)
  have "rd s 0 = NUL \<longleftrightarrow> s = []"
    using 2(3) by (cases s) auto
  then show ?case
    using 2 squeeze_starts [of s True] squeeze_ends [of s True] by (auto simp: tidy_Cons)
qed simp

lemma squeeze_id: "tidy s \<Longrightarrow> started \<or> rd s 0 \<noteq> CHR '' '' \<Longrightarrow> NUL \<notin> set s \<Longrightarrow> squeeze started s = s"
proof (induction started s rule: squeeze.induct)
  case (2 started c s)
  have "rd s 0 = NUL \<longleftrightarrow> s = []"
    using 2(5) by (cases s) auto
  then show ?case
    using 2 by (auto simp: tidy_Cons)
qed simp

lemma squeeze_words: "filter (\<lambda>c. c \<noteq> CHR '' '') (squeeze started s) = filter (\<lambda>c. c \<noteq> CHR '' '') s"
  by (induction started s rule: squeeze.induct) auto

lemma squeeze_set: "set (squeeze started s) \<subseteq> set s"
  by (induction started s rule: squeeze.induct) auto

lemma blank_ctrl_idem: "blank_ctrl (blank_ctrl c) = blank_ctrl c" "blank_ctrl c \<noteq> NUL"
  by (auto simp: blank_ctrl_def NBSP_CHAR_def NUL_def ccode_def)

text \<open>Cleaning up blanks leaves no leading, trailing or doubled blank, loses no other character,
  and changes nothing when done again.\<close>

theorem clr_spaces_tidy:
  "tidy (clr_spaces s) \<and> rd (clr_spaces s) 0 \<noteq> CHR '' '' \<and>
   filter (\<lambda>c. c \<noteq> CHR '' '') (clr_spaces s) = filter (\<lambda>c. c \<noteq> CHR '' '') (map blank_ctrl s) \<and>
   clr_spaces (clr_spaces s) = clr_spaces s"
proof -
  have nn: "NUL \<notin> set (map blank_ctrl s)"
    using blank_ctrl_idem(2) by (metis imageE list.set_map)
  then have t: "tidy (clr_spaces s)" "rd (clr_spaces s) 0 \<noteq> CHR '' ''"
    using squeeze_tidy squeeze_starts by (auto simp: clr_spaces_def)
  have sub: "set (clr_spaces s) \<subseteq> blank_ctrl ` set s"
    using squeeze_set [of False "map blank_ctrl s"] by (simp add: clr_spaces_def)
  then have "map blank_ctrl (clr_spaces s) = clr_spaces s"
    using blank_ctrl_idem(1) by (intro map_idI) blast
  then have "clr_spaces (clr_spaces s) = clr_spaces s"
    using squeeze_id [of "clr_spaces s" False] t nn sub by (auto simp: clr_spaces_def [of "clr_spaces s"])
  with t show ?thesis
    by (simp add: clr_spaces_def squeeze_words)
qed

end
