(* ===== verification/Protocols.thy ===== *)
theory Protocols
  imports Conv
begin

text \<open>
  \<^verbatim>\<open>elinks/src/protocol/protocol.c\<close>: the table of protocol backends, its accessors and the search
  for a protocol by name. Whether a backend has a handler depends on the build and is not part
  of the table here. \<open>user_program\<close> is \<^verbatim>\<open>get_user_program\<close>: whether the
  options name a program for a protocol.
\<close>

datatype protocol =
    PROTOCOL_ABOUT | PROTOCOL_BITTORRENT | PROTOCOL_DATA | PROTOCOL_FILE | PROTOCOL_FINGER
  | PROTOCOL_FSP | PROTOCOL_FTP | PROTOCOL_GOPHER | PROTOCOL_HTTP | PROTOCOL_HTTPS
  | PROTOCOL_JAVASCRIPT | PROTOCOL_NEWS | PROTOCOL_NNTP | PROTOCOL_NNTPS | PROTOCOL_PROXY
  | PROTOCOL_SMB | PROTOCOL_SNEWS | PROTOCOL_UNKNOWN | PROTOCOL_USER | PROTOCOL_LUA

record protocol_backend =
  pb_name :: "string option"
  pb_port :: int
  pb_need_slashes :: bool
  pb_need_slash_after_host :: bool
  pb_free_syntax :: bool
  pb_need_ssl :: bool

definition backend :: "string option \<Rightarrow> int \<Rightarrow> bool \<Rightarrow> bool \<Rightarrow> bool \<Rightarrow> bool \<Rightarrow> protocol_backend" where
  "backend name port slashes host_slash free ssl =
     \<lparr>pb_name = name, pb_port = port, pb_need_slashes = slashes, pb_need_slash_after_host = host_slash,
      pb_free_syntax = free, pb_need_ssl = ssl\<rparr>"

fun protocol_backends :: "protocol \<Rightarrow> protocol_backend" where
  "protocol_backends PROTOCOL_ABOUT = backend (Some ''about'') 0 False False True False"
| "protocol_backends PROTOCOL_BITTORRENT = backend (Some ''bittorrent'') 0 False False True False"
| "protocol_backends PROTOCOL_DATA = backend (Some ''data'') 0 False False True False"
| "protocol_backends PROTOCOL_FILE = backend (Some ''file'') 0 True False False False"
| "protocol_backends PROTOCOL_FINGER = backend (Some ''finger'') 79 True True False False"
| "protocol_backends PROTOCOL_FSP = backend (Some ''fsp'') 21 True True False False"
| "protocol_backends PROTOCOL_FTP = backend (Some ''ftp'') 21 True True False False"
| "protocol_backends PROTOCOL_GOPHER = backend (Some ''gopher'') 70 True True False False"
| "protocol_backends PROTOCOL_HTTP = backend (Some ''http'') 80 True True False False"
| "protocol_backends PROTOCOL_HTTPS = backend (Some ''https'') 443 True True False True"
| "protocol_backends PROTOCOL_JAVASCRIPT = backend (Some ''javascript'') 0 False False True False"
| "protocol_backends PROTOCOL_NEWS = backend (Some ''news'') 0 False False True False"
| "protocol_backends PROTOCOL_NNTP = backend (Some ''nntp'') 119 True True False False"
| "protocol_backends PROTOCOL_NNTPS = backend (Some ''nntps'') 563 True True False True"
| "protocol_backends PROTOCOL_PROXY = backend (Some ''proxy'') 3128 True True False False"
| "protocol_backends PROTOCOL_SMB = backend (Some ''smb'') 139 True True False False"
| "protocol_backends PROTOCOL_SNEWS = backend (Some ''snews'') 0 False False True False"
| "protocol_backends PROTOCOL_UNKNOWN = backend None 0 False False True False"
| "protocol_backends PROTOCOL_USER = backend (Some ''user'') 0 False False False False"
| "protocol_backends PROTOCOL_LUA = backend (Some ''custom'') 0 False False True False"

text \<open>The values of the enumeration in order, and back; 17 is \<^verbatim>\<open>PROTOCOL_UNKNOWN\<close>.\<close>

definition protocols :: "protocol list" where
  "protocols =
     [PROTOCOL_ABOUT, PROTOCOL_BITTORRENT, PROTOCOL_DATA, PROTOCOL_FILE, PROTOCOL_FINGER,
      PROTOCOL_FSP, PROTOCOL_FTP, PROTOCOL_GOPHER, PROTOCOL_HTTP, PROTOCOL_HTTPS,
      PROTOCOL_JAVASCRIPT, PROTOCOL_NEWS, PROTOCOL_NNTP, PROTOCOL_NNTPS, PROTOCOL_PROXY,
      PROTOCOL_SMB, PROTOCOL_SNEWS, PROTOCOL_UNKNOWN, PROTOCOL_USER, PROTOCOL_LUA]"

definition protocol_at :: "int \<Rightarrow> protocol" where
  "protocol_at i = protocols ! nat i"

definition pname_at :: "int \<Rightarrow> string" where
  "pname_at i = (case pb_name (protocol_backends (protocol_at i)) of Some n \<Rightarrow> n | None \<Rightarrow> [])"

text \<open>How a name compares with a table entry: 0 when equal but for case.\<close>

definition compare_name :: "string \<Rightarrow> string \<Rightarrow> int" where
  "compare_name pname name =
     (let compare = c_strncasecmp pname name (min (length pname) (length name)) in
      if compare = 0 \<and> length pname \<noteq> length name then (if length pname > length name then 1 else -1)
      else compare)"

text \<open>The search loop. The guess always lies between the bounds, which the C code asserts once.\<close>

function search_protocol :: "string \<Rightarrow> int \<Rightarrow> int \<Rightarrow> int \<Rightarrow> int option" where
  "search_protocol name start endd protocol =
     (if start \<le> endd \<and> start \<le> protocol \<and> protocol \<le> endd then
        let compare = compare_name (pname_at protocol) name in
        if compare = 0 then Some protocol
        else
          let (start, endd) = (if compare > 0 then (start, protocol - 1) else (protocol + 1, endd))
          in search_protocol name start endd ((start + endd) sdiv 2)
      else None)"
  by auto
termination
  by (relation "measure (\<lambda>(name, s, e, p). nat (e - s + 1))") (auto split: if_splits)

definition get_protocol :: "(string \<Rightarrow> bool) \<Rightarrow> string \<Rightarrow> protocol" where
  "get_protocol user_program name =
     (case search_protocol name 0 16 8 of
        Some p \<Rightarrow> protocol_at p
      | None \<Rightarrow> if user_program name then PROTOCOL_USER else PROTOCOL_UNKNOWN)"

definition uri_port_is_valid :: "int \<Rightarrow> bool" where
  "uri_port_is_valid port \<longleftrightarrow> 0 \<le> port \<and> port \<le> 65535"

definition get_protocol_port :: "protocol \<Rightarrow> int" where
  "get_protocol_port p = (if uri_port_is_valid (pb_port (protocol_backends p)) then pb_port (protocol_backends p) else 0)"

definition get_protocol_need_slashes :: "protocol \<Rightarrow> bool" where
  "get_protocol_need_slashes p = pb_need_slashes (protocol_backends p)"

definition get_protocol_need_slash_after_host :: "protocol \<Rightarrow> bool" where
  "get_protocol_need_slash_after_host p = pb_need_slash_after_host (protocol_backends p)"

definition get_protocol_free_syntax :: "protocol \<Rightarrow> bool" where
  "get_protocol_free_syntax p = pb_free_syntax (protocol_backends p)"

definition get_protocol_need_ssl :: "protocol \<Rightarrow> bool" where
  "get_protocol_need_ssl p = pb_need_ssl (protocol_backends p)"

section \<open>Correctness of the search\<close>

declare search_protocol.simps [simp del]

lemma c_tolower_idem [simp]: "c_tolower (c_tolower c) = c_tolower c"
proof (cases "c_isupper c")
  case True
  then have "ccode (c_tolower c) = ccode c + 32" "65 \<le> ccode c" "ccode c \<le> 90"
    by (auto simp: c_tolower_def c_isupper_def)
  then have "\<not> c_isupper (c_tolower c)"
    by (simp add: c_isupper_def)
  then show ?thesis
    by (simp add: c_tolower_def)
qed (simp add: c_tolower_def)

text \<open>The comparison sees the name in lower case only.\<close>

lemma c_strncasecmp_lower: "c_strncasecmp s1 (map c_tolower s2) n = c_strncasecmp s1 s2 n"
proof (induction n arbitrary: s1 s2)
  case (Suc n)
  have "c_tolower (rd (map c_tolower s2) 0) = c_tolower (rd s2 0)"
    by (cases s2) auto
  with Suc show ?case
    by (simp add: Let_def drop_map)
qed simp

lemma compare_name_lower: "compare_name pname (map c_tolower name) = compare_name pname name"
  by (simp add: compare_name_def c_strncasecmp_lower)

lemma c_strncasecmp_prefix:
  "n \<le> length s1 \<Longrightarrow> n \<le> length s2 \<Longrightarrow> c_strncasecmp s1 s2 n = 0 \<Longrightarrow> NUL \<notin> set s1 \<Longrightarrow>
     map c_tolower (take n s1) = map c_tolower (take n s2)"
proof (induction n arbitrary: s1 s2)
  case (Suc n)
  then obtain a as b bs where "s1 = a # as" "s2 = b # bs"
    by (metis Suc_le_length_iff)
  moreover have "c_tolower a \<noteq> NUL"
    using calculation Suc.prems(4) by auto
  ultimately show ?case
    using Suc by (auto simp: Let_def split: if_splits)
qed simp

lemma compare_name_0:
  assumes "compare_name pname name = 0" "NUL \<notin> set pname"
  shows "map c_tolower name = map c_tolower pname"
proof -
  have len: "length pname = length name" "c_strncasecmp pname name (length pname) = 0"
    using assms(1) by (auto simp: compare_name_def Let_def split: if_splits)
  then show ?thesis
    using c_strncasecmp_prefix [of "length pname" pname name] assms(2) by simp
qed

lemma search_sound:
  "search_protocol name s e p = Some i \<Longrightarrow> compare_name (pname_at i) name = 0 \<and> s \<le> i \<and> i \<le> e"
proof (induction name s e p rule: search_protocol.induct)
  case (1 name s e p)
  show ?case
    using 1(2) 1(1) [OF _ refl _ refl] by (subst (asm) search_protocol.simps) (fastforce simp: Let_def split: if_splits)
qed

definition builtin_names :: "string list" where
  "builtin_names = map pname_at [0..16]"

lemma builtin_names_eval:
  "builtin_names = [''about'', ''bittorrent'', ''data'', ''file'', ''finger'', ''fsp'', ''ftp'', ''gopher'', ''http'',
     ''https'', ''javascript'', ''news'', ''nntp'', ''nntps'', ''proxy'', ''smb'', ''snews'']"
  by code_simp

lemma builtin_names_nth: "0 \<le> i \<Longrightarrow> i \<le> 16 \<Longrightarrow> pname_at i = builtin_names ! nat i"
  by (simp add: builtin_names_def nth_upto)

lemma builtin_names_lower: "n \<in> set builtin_names \<Longrightarrow> map c_tolower n = n \<and> NUL \<notin> set n"
  unfolding builtin_names_eval by (auto simp: c_tolower_def c_isupper_def ccode_def NUL_def)

lemma search_complete:
  "list_all (\<lambda>i. search_protocol (builtin_names ! nat i) 0 16 8 = Some i) [0..16]"
  unfolding builtin_names_eval by code_simp

lemma search_lower: "search_protocol (map c_tolower name) s e p = search_protocol name s e p"
proof (induction name s e p rule: search_protocol.induct)
  case (1 name s e p)
  show ?case
    using 1 [OF _ refl] by (subst (1 2) search_protocol.simps) (auto simp: Let_def compare_name_lower)
qed

text \<open>The binary search by name finds a built-in protocol exactly when the name equals that of the
  table entry up to case; any other name is a user protocol when the options name a program for
  it, and unknown otherwise.\<close>

theorem get_protocol_is_lookup:
  "get_protocol user_program name =
     (case find_index (\<lambda>n. n = map c_tolower name) builtin_names of
        Some i \<Rightarrow> protocols ! i
      | None \<Rightarrow> if user_program name then PROTOCOL_USER else PROTOCOL_UNKNOWN)"
proof (cases "find_index (\<lambda>n. n = map c_tolower name) builtin_names")
  case (Some i)
  have i: "i < length builtin_names" "builtin_names ! i = map c_tolower name"
    using find_index_Some [OF Some] by auto
  then have "int i \<in> set [0..16]"
    by (simp add: builtin_names_eval)
  then have "search_protocol (builtin_names ! i) 0 16 8 = Some (int i)"
    using search_complete unfolding list_all_iff by (metis nat_int)
  then have "search_protocol name 0 16 8 = Some (int i)"
    using i(2) search_lower [of name] by simp
  with Some show ?thesis
    by (simp add: get_protocol_def protocol_at_def)
next
  case None
  have "search_protocol name 0 16 8 = None"
  proof (rule ccontr)
    assume "search_protocol name 0 16 8 \<noteq> None"
    then obtain i where i: "compare_name (pname_at i) name = 0" "0 \<le> i" "i \<le> 16"
      using search_sound [of name 0 16 8] by auto
    have "pname_at i \<in> set builtin_names"
      using i by (simp add: builtin_names_def)
    then have "map c_tolower name \<in> set builtin_names"
      using compare_name_0 [OF i(1)] builtin_names_lower by metis
    then show False
      using None by (auto simp: find_index_None)
  qed
  with None show ?thesis
    by (simp add: get_protocol_def)
qed

end
