(* ===== verification/Uri.thy ===== *)
theory Uri
  imports Protocols
begin

text \<open>
  \<^verbatim>\<open>elinks/src/protocol/uri.c\<close> and \<^verbatim>\<open>uri.h\<close>: parsing a URI into its components, comparing URIs and
  composing strings from components. The pointers of \<^verbatim>\<open>struct uri\<close> all point into
  the URI string, so they are offsets into it; the lengths are kept in 16 (for the port 8) bits.
  The build has IPv6; \<open>idn\<close> is the IDN library's conversion of a host name, \<open>user_program\<close> the
  user's protocol options.
\<close>

section \<open>Data\<close>

record uri =
  u_string :: string
  u_protocol :: protocol
  ip_family :: int
  u_user :: "nat option"
  u_password :: "nat option"
  u_host :: "nat option"
  u_port :: "nat option"
  u_data :: "nat option"
  u_fragment :: "nat option"
  u_post :: "nat option"
  protocollen :: nat
  userlen :: nat
  passwordlen :: nat
  hostlen :: nat
  portlen :: nat
  datalen :: nat
  fragmentlen :: nat
  ipv6 :: bool

datatype uri_errno =
    URI_ERRNO_OK | URI_ERRNO_EMPTY | URI_ERRNO_INVALID_PROTOCOL | URI_ERRNO_NO_SLASHES
  | URI_ERRNO_TOO_MANY_SLASHES | URI_ERRNO_TRAILING_DOTS | URI_ERRNO_NO_HOST
  | URI_ERRNO_NO_PORT_COLON | URI_ERRNO_NO_HOST_SLASH | URI_ERRNO_IPV6_SECURITY
  | URI_ERRNO_INVALID_PORT | URI_ERRNO_INVALID_PORT_RANGE

text \<open>A stage of the parser returns from it, or continues at an offset.\<close>

type_synonym uri_step = "(uri_errno \<times> uri) + (uri \<times> nat)"

definition uri_zero :: uri where
  "uri_zero = \<lparr>u_string = [], u_protocol = PROTOCOL_ABOUT, ip_family = 0, u_user = None, u_password = None,
     u_host = None, u_port = None, u_data = None, u_fragment = None, u_post = None, protocollen = 0, userlen = 0,
     passwordlen = 0, hostlen = 0, portlen = 0, datalen = 0, fragmentlen = 0, ipv6 = False\<rparr>"

definition POST_CHAR :: char where
  "POST_CHAR = CHR 0x01"

definition NI_MAXHOST :: nat where
  "NI_MAXHOST = 1025"

text \<open>The width of the length fields.\<close>

definition len16 :: "nat \<Rightarrow> nat" where
  "len16 n = n mod 2 ^ 16"

definition len8 :: "nat \<Rightarrow> nat" where
  "len8 n = n mod 2 ^ 8"

text \<open>\<^verbatim>\<open>strcspn\<close> and \<^verbatim>\<open>strchr\<close> at an offset of a string.\<close>

definition strcspn :: "string \<Rightarrow> nat \<Rightarrow> char list \<Rightarrow> nat" where
  "strcspn s p reject = length (takeWhile (\<lambda>c. c \<notin> set reject) (drop p s))"

definition strchr :: "string \<Rightarrow> nat \<Rightarrow> char \<Rightarrow> nat option" where
  "strchr s p c = (let i = p + strcspn s p [c] in if i < length s then Some i else None)"

definition end_of_dir :: "char \<Rightarrow> bool" where
  "end_of_dir c \<longleftrightarrow> c = POST_CHAR \<or> c = CHR ''#'' \<or> c = CHR '';'' \<or> c = CHR ''?''"

definition dir_sep :: "char \<Rightarrow> bool" where
  "dir_sep c \<longleftrightarrow> c = CHR ''/''"

definition is_uri_dir_sep :: "protocol \<Rightarrow> char \<Rightarrow> bool" where
  "is_uri_dir_sep p c = (if p = PROTOCOL_FILE then dir_sep c else c = CHR ''/'')"

section \<open>Parsing\<close>

definition scheme_char :: "char \<Rightarrow> bool" where
  "scheme_char c \<longleftrightarrow> isasciialnum c \<or> c = CHR ''+'' \<or> c = CHR ''-'' \<or> c = CHR ''.''"

definition get_protocol_length :: "string \<Rightarrow> nat" where
  "get_protocol_length url =
     (let e = length (takeWhile scheme_char url);
          e = (if e \<noteq> 0 \<and> c_isdigit (rd url (e - 1)) then e - 1 else e)
      in if rd url e = CHR '':'' \<or> c_isdigit (rd url e) then e else 0)"

definition parse_scheme :: "(string \<Rightarrow> bool) \<Rightarrow> string \<Rightarrow> uri_step" where
  "parse_scheme user_program s =
     (let u = uri_zero\<lparr>u_string := s, protocollen := len16 (get_protocol_length s)\<rparr> in
      if protocollen u = 0 then Inl (URI_ERRNO_INVALID_PROTOCOL, u)
      else
        let u = u\<lparr>u_protocol := get_protocol user_program (take (protocollen u) s)\<rparr>;
            p = protocollen u;
            (u, p) = (if c_isdigit (rd s p) then (u\<lparr>ip_family := digit_val (rd s p)\<rparr>, p + 1) else (u, p))
        in if rd s p \<noteq> CHR '':'' then Inl (URI_ERRNO_INVALID_PROTOCOL, u)
           else
             let p = p + 1 in
             if rd s p = CHR ''/'' \<and> rd s (p + 1) = CHR ''/'' then
               if rd s (p + 2) = CHR ''/'' \<and> get_protocol_need_slash_after_host (u_protocol u)
               then Inl (URI_ERRNO_TOO_MANY_SLASHES, u)
               else Inr (u, p + 2)
             else if get_protocol_need_slashes (u_protocol u) then Inl (URI_ERRNO_NO_SLASHES, u)
             else Inr (u, p))"

text \<open>The fragment and the post data behind the data that ends at an offset.\<close>

definition parse_frag_post :: "uri \<Rightarrow> nat \<Rightarrow> uri" where
  "parse_frag_post u e =
     (let s = u_string u;
          (u, e) =
            (if rd s e = CHR ''#'' then
               let n = len16 (strcspn s (e + 1) [POST_CHAR])
               in (u\<lparr>u_fragment := Some (e + 1), fragmentlen := n\<rparr>, e + 1 + n)
             else (u, e))
      in if rd s e = POST_CHAR then u\<lparr>u_post := Some (e + 1)\<rparr> else u)"

definition check_uri_file :: "string \<Rightarrow> nat \<Rightarrow> nat" where
  "check_uri_file s p = strcspn s p [POST_CHAR, CHR ''#'']"

definition parse_file_data :: "uri \<Rightarrow> nat \<Rightarrow> uri" where
  "parse_file_data u p =
     (let n = check_uri_file (u_string u) p
      in (parse_frag_post u (p + n))\<lparr>u_data := Some p, datalen := len16 n\<rparr>)"

text \<open>The brackets around an IPv6 address.\<close>

definition brackets :: "string \<Rightarrow> nat \<Rightarrow> (nat \<times> nat) option" where
  "brackets s p =
     (case strchr s p (CHR ''['') of
        None \<Rightarrow> None
      | Some l \<Rightarrow>
          (case strchr s l (CHR '']'') of
             None \<Rightarrow> None
           | Some r \<Rightarrow> if r < p + strcspn s p ''/'' then Some (l, r) else None))"

text \<open>The last \<^verbatim>\<open>@\<close> of the authority part.\<close>

function last_at :: "string \<Rightarrow> nat \<Rightarrow> nat" where
  "last_at s h =
     (if strcspn s (h + 1) ''@'' < strcspn s (h + 1) ''/?'' then last_at s (h + 1 + strcspn s (h + 1) ''@'') else h)"
  by auto
termination
proof (relation "measure (\<lambda>(s, h). length s - h)")
  fix s h assume "strcspn s (h + 1) ''@'' < strcspn s (h + 1) ''/?''"
  then have "0 < length (drop (h + 1) s)"
    by (cases "drop (h + 1) s") (auto simp: strcspn_def)
  then show "((s, h + 1 + strcspn s (h + 1) ''@''), s, h) \<in> measure (\<lambda>(s, h). length s - h)"
    by simp
qed simp

definition parse_auth :: "uri \<Rightarrow> nat \<Rightarrow> uri \<times> nat" where
  "parse_auth u p =
     (let s = u_string u; h = p + strcspn s p ''@'' in
      if p + strcspn s p ''/'' > h \<and> rd s h \<noteq> NUL then
        let h = last_at s h;
            u = (case strchr s p (CHR '':'') of
                   None \<Rightarrow> u\<lparr>u_user := Some p, userlen := len16 (h - p)\<rparr>
                 | Some e \<Rightarrow>
                     if e > h then u\<lparr>u_user := Some p, userlen := len16 (h - p)\<rparr>
                     else u\<lparr>u_user := Some p, userlen := len16 (e - p),
                            u_password := Some (e + 1), passwordlen := len16 (h - e - 1)\<rparr>)
        in (u, h + 1)
      else (u, p))"

definition parse_host :: "(nat \<times> nat) option \<Rightarrow> uri \<Rightarrow> nat \<Rightarrow> uri_step" where
  "parse_host br u p =
     (let s = u_string u in
      case br of
        Some (l, r) \<Rightarrow>
          if r - l - 1 < NI_MAXHOST
          then Inr (u\<lparr>ipv6 := True, u_host := Some (l + 1), hostlen := len16 (r - l - 1)\<rparr>, r + strcspn s r '':/?'')
          else Inl (URI_ERRNO_IPV6_SECURITY, u\<lparr>ipv6 := True\<rparr>)
      | None \<Rightarrow>
          let n = strcspn s p '':/?''; u = u\<lparr>u_host := Some p, hostlen := len16 n\<rparr> in
          if hostlen u \<noteq> 0 \<and> rd s (p + hostlen u - 1) = CHR ''.'' then Inl (URI_ERRNO_TRAILING_DOTS, u)
          else Inr (u, p + n))"

definition parse_port :: "uri \<Rightarrow> nat \<Rightarrow> uri_step" where
  "parse_port u h =
     (let s = u_string u in
      if rd s h = CHR '':'' then
        let n = strcspn s (h + 1) ''/''; u = u\<lparr>u_port := Some (h + 1), portlen := len8 n\<rparr> in
        if portlen u = 0 then Inl (URI_ERRNO_NO_PORT_COLON, u)
        else if portlen u \<noteq> n then Inl (URI_ERRNO_INVALID_PORT, u)
        else if \<not> list_all c_isdigit (take n (drop (h + 1) s)) then Inl (URI_ERRNO_INVALID_PORT, u)
        else
          (case strtol10 (drop (h + 1) s) of (num, e, err) \<Rightarrow>
             if err \<or> \<not> uri_port_is_valid (int32 num) then Inl (URI_ERRNO_INVALID_PORT, u)
             else Inr (u, h + 1 + n))
      else Inr (u, h))"

definition parse_data :: "uri \<Rightarrow> nat \<Rightarrow> uri_errno \<times> uri" where
  "parse_data u h =
     (let s = u_string u in
      if rd s h \<noteq> CHR ''/'' \<and> get_protocol_need_slash_after_host (u_protocol u) then
        (if hostlen u = 0 then URI_ERRNO_NO_HOST else URI_ERRNO_NO_HOST_SLASH, u)
      else
        let h = (if rd s h = CHR ''/'' then h + 1 else h);
            n = strcspn s h [CHR ''#'', POST_CHAR]
        in (URI_ERRNO_OK, parse_frag_post (u\<lparr>u_data := Some h, datalen := len16 n\<rparr>) (h + n)))"

definition parse_server :: "uri \<Rightarrow> nat \<Rightarrow> uri_errno \<times> uri" where
  "parse_server u p =
     (let br = brackets (u_string u) p in
      case parse_auth u p of (u, p) \<Rightarrow>
      case parse_host br u p of
        Inl r \<Rightarrow> r
      | Inr (u, h) \<Rightarrow> (case parse_port u h of Inl r \<Rightarrow> r | Inr (u, h) \<Rightarrow> parse_data u h))"

definition parse_uri :: "(string \<Rightarrow> bool) \<Rightarrow> string \<Rightarrow> uri_errno \<times> uri" where
  "parse_uri user_program uristring =
     (if uristring = [] then (URI_ERRNO_EMPTY, uri_zero)
      else
        case parse_scheme user_program uristring of
          Inl r \<Rightarrow> r
        | Inr (u, p) \<Rightarrow>
            if get_protocol_free_syntax (u_protocol u) then
              (URI_ERRNO_OK, u\<lparr>u_data := Some p, datalen := len16 (length uristring - p)\<rparr>)
            else if u_protocol u = PROTOCOL_FILE then (URI_ERRNO_OK, parse_file_data u p)
            else parse_server u p)"

definition get_uri_port :: "uri \<Rightarrow> int" where
  "get_uri_port u =
     (case u_port u of
        Some p \<Rightarrow>
          if portlen u \<noteq> 0 then
            (case strtol10 (drop p (u_string u)) of (n, e, err) \<Rightarrow>
               if e \<noteq> 0 then int32 n else get_protocol_port (u_protocol u))
          else get_protocol_port (u_protocol u)
      | None \<Rightarrow> get_protocol_port (u_protocol u))"

section \<open>Comparing\<close>

definition compare_component :: "string \<Rightarrow> nat option \<Rightarrow> nat \<Rightarrow> string \<Rightarrow> nat option \<Rightarrow> nat \<Rightarrow> bool" where
  "compare_component sa a alen sb b blen =
     (if alen \<noteq> blen \<or> (a = None) \<noteq> (b = None) then False
      else case (a, b) of
             (Some i, Some j) \<Rightarrow> alen = 0 \<or> take alen (drop i sa) = take blen (drop j sb)
           | _ \<Rightarrow> True)"

definition URI_PROTOCOL :: int where "URI_PROTOCOL = 1"
definition URI_IP_FAMILY :: int where "URI_IP_FAMILY = 2"
definition URI_USER :: int where "URI_USER = 4"
definition URI_PASSWORD :: int where "URI_PASSWORD = 8"
definition URI_HOST :: int where "URI_HOST = 16"
definition URI_PORT :: int where "URI_PORT = 32"
definition URI_DEFAULT_PORT :: int where "URI_DEFAULT_PORT = 64"
definition URI_DATA :: int where "URI_DATA = 128"
definition URI_FRAGMENT :: int where "URI_FRAGMENT = 256"
definition URI_POST :: int where "URI_POST = 512"
definition URI_POST_INFO :: int where "URI_POST_INFO = 1024"
definition URI_IDN :: int where "URI_IDN = 2048"
definition URI_PATH :: int where "URI_PATH = 4096"
definition URI_FILENAME :: int where "URI_FILENAME = 8192"
definition URI_QUERY :: int where "URI_QUERY = 16384"

lemmas uri_bits = URI_PROTOCOL_def URI_IP_FAMILY_def URI_USER_def URI_PASSWORD_def URI_HOST_def URI_PORT_def
  URI_DEFAULT_PORT_def URI_DATA_def URI_FRAGMENT_def URI_POST_def URI_POST_INFO_def URI_IDN_def URI_PATH_def
  URI_FILENAME_def URI_QUERY_def

definition URI_SPECIAL :: int where
  "URI_SPECIAL = (URI_DEFAULT_PORT OR URI_PATH OR URI_FILENAME OR URI_QUERY)"
definition URI_RARE :: int where
  "URI_RARE = (URI_SPECIAL OR URI_POST OR URI_POST_INFO OR URI_IDN)"
definition URI_ORIGINAL :: int where
  "URI_ORIGINAL = NOT URI_RARE"
definition URI_BASE :: int where
  "URI_BASE = (NOT (URI_RARE OR URI_FRAGMENT) OR URI_POST)"
definition URI_HTTP_REFERRER_HOST :: int where
  "URI_HTTP_REFERRER_HOST = (URI_PROTOCOL OR URI_HOST OR URI_PORT)"
definition URI_KEEPALIVE :: int where
  "URI_KEEPALIVE = (URI_PROTOCOL OR URI_USER OR URI_PASSWORD OR URI_HOST OR URI_PORT)"

definition wants :: "int \<Rightarrow> int \<Rightarrow> bool" where
  "wants components x \<longleftrightarrow> components AND x \<noteq> 0"

definition postlen :: "uri \<Rightarrow> nat" where
  "postlen u = (case u_post u of None \<Rightarrow> 0 | Some p \<Rightarrow> length (u_string u) - p)"

text \<open>\<open>same\<close> tells whether both arguments are the same object.\<close>

definition compare_uri :: "bool \<Rightarrow> uri \<Rightarrow> uri \<Rightarrow> int \<Rightarrow> bool" where
  "compare_uri same a b components =
     (if same then True
      else if components = 0 then False
      else
        (\<not> wants components URI_PROTOCOL \<or> u_protocol a = u_protocol b) \<and>
        (\<not> wants components URI_IP_FAMILY \<or> ip_family a = ip_family b) \<and>
        (\<not> wants components URI_USER \<or>
           compare_component (u_string a) (u_user a) (userlen a) (u_string b) (u_user b) (userlen b)) \<and>
        (\<not> wants components URI_PASSWORD \<or>
           compare_component (u_string a) (u_password a) (passwordlen a) (u_string b) (u_password b) (passwordlen b)) \<and>
        (\<not> wants components URI_HOST \<or>
           compare_component (u_string a) (u_host a) (hostlen a) (u_string b) (u_host b) (hostlen b)) \<and>
        (\<not> wants components URI_PORT \<or>
           compare_component (u_string a) (u_port a) (portlen a) (u_string b) (u_port b) (portlen b)) \<and>
        (\<not> wants components URI_DATA \<or>
           compare_component (u_string a) (u_data a) (datalen a) (u_string b) (u_data b) (datalen b)) \<and>
        (\<not> wants components URI_FRAGMENT \<or>
           compare_component (u_string a) (u_fragment a) (fragmentlen a) (u_string b) (u_fragment b) (fragmentlen b)) \<and>
        (\<not> wants components URI_POST \<or>
           compare_component (u_string a) (u_post a) (postlen a) (u_string b) (u_post b) (postlen b)))"

section \<open>Composing\<close>

text \<open>The text of a field.\<close>

definition field :: "uri \<Rightarrow> nat option \<Rightarrow> nat \<Rightarrow> string" where
  "field u off n = (case off of None \<Rightarrow> [] | Some i \<Rightarrow> take n (drop i (u_string u)))"

definition opt_text :: "string option \<Rightarrow> string" where
  "opt_text t = (case t of None \<Rightarrow> [] | Some s \<Rightarrow> s)"

definition add_scheme :: "uri \<Rightarrow> int \<Rightarrow> string" where
  "add_scheme u components =
     (if wants components URI_PROTOCOL then
        take (protocollen u) (u_string u) @
        (if wants components URI_IP_FAMILY \<and> ip_family u \<noteq> 0 then opt_text (add_long_to_string (ip_family u)) else []) @
        '':'' @ (if get_protocol_need_slashes (u_protocol u) then ''//'' else [])
      else [])"

definition add_auth :: "uri \<Rightarrow> int \<Rightarrow> string" where
  "add_auth u components =
     (if wants components URI_USER \<and> userlen u \<noteq> 0 then
        field u (u_user u) (userlen u) @
        (if wants components URI_PASSWORD \<and> passwordlen u \<noteq> 0
         then '':'' @ field u (u_password u) (passwordlen u) else []) @ ''@''
      else [])"

definition add_host :: "(string \<Rightarrow> string option) \<Rightarrow> uri \<Rightarrow> int \<Rightarrow> string" where
  "add_host idn u components =
     (if wants components URI_HOST \<and> hostlen u \<noteq> 0 then
        let h = field u (u_host u) (hostlen u);
            br = (ipv6 u \<and> wants components URI_PORT)
        in (if br then ''['' else []) @
           (if wants components URI_IDN then (case idn h of Some n \<Rightarrow> n | None \<Rightarrow> h) else h) @
           (if br then '']'' else [])
      else [])"

definition add_port :: "uri \<Rightarrow> int \<Rightarrow> string" where
  "add_port u components =
     (if wants components URI_PORT \<or> wants components URI_DEFAULT_PORT then
        if portlen u \<noteq> 0 then '':'' @ field u (u_port u) (portlen u)
        else if wants components URI_DEFAULT_PORT \<and> u_protocol u \<noteq> PROTOCOL_USER
        then '':'' @ opt_text (add_long_to_string (get_protocol_port (u_protocol u)))
        else []
      else [])"

text \<open>The path of the data: for \<^verbatim>\<open>URI_FILENAME\<close> only what follows the last separator.\<close>

definition add_path :: "uri \<Rightarrow> int \<Rightarrow> string" where
  "add_path u components =
     (let rest = (case u_data u of None \<Rightarrow> [] | Some d \<Rightarrow> drop d (u_string u));
          sep = is_uri_dir_sep (u_protocol u);
          path = takeWhile (\<lambda>c. \<not> end_of_dir c) rest
      in (if wants components URI_PATH \<and> \<not> sep (rd rest 0) then ''/'' else []) @
         (if datalen u = 0 then []
          else if wants components URI_FILENAME then rev (takeWhile (\<lambda>c. \<not> sep c) (rev path))
          else path))"

definition add_query :: "uri \<Rightarrow> string" where
  "add_query u =
     (case u_data u of
        None \<Rightarrow> []
      | Some d \<Rightarrow>
          let q = length (takeWhile (\<lambda>c. c \<noteq> CHR ''?'') (take (datalen u) (drop d (u_string u)))) in
          if q < datalen u
          then take (strcspn (u_string u) (d + q + 1) [CHR ''#'', POST_CHAR]) (drop (d + q + 1) (u_string u))
          else [])"

definition add_frag_post :: "uri \<Rightarrow> int \<Rightarrow> string" where
  "add_frag_post u components =
     (if wants components URI_FRAGMENT \<and> fragmentlen u \<noteq> 0 then ''#'' @ field u (u_fragment u) (fragmentlen u) else []) @
     (case u_post u of
        None \<Rightarrow> []
      | Some p \<Rightarrow>
          if wants components URI_POST then POST_CHAR # drop p (u_string u)
          else if wants components URI_POST_INFO then
            if take 10 (drop p (u_string u)) = ''text/plain'' then '' (PLAIN TEXT DATA)''
            else if take 20 (drop p (u_string u)) = ''multipart/form-data;'' then '' (MULTIPART FORM DATA)''
            else '' (POST DATA)''
          else [])"

definition add_uri_to_string :: "(string \<Rightarrow> string option) \<Rightarrow> uri \<Rightarrow> int \<Rightarrow> string" where
  "add_uri_to_string idn u components =
     (if u_protocol u = PROTOCOL_UNKNOWN then u_string u
      else
        add_scheme u components @ add_auth u components @ add_host idn u components @ add_port u components @
        (if (wants components URI_DATA \<or> wants components URI_POST \<or> components = URI_HTTP_REFERRER_HOST) \<and>
            wants components (NOT (URI_DATA OR URI_PORT)) \<and> get_protocol_need_slash_after_host (u_protocol u)
         then ''/'' else []) @
        (if wants components URI_DATA \<and> datalen u \<noteq> 0 then field u (u_data u) (datalen u) else []) @
        (if wants components URI_PATH \<or> wants components URI_FILENAME then add_path u components
         else if wants components URI_QUERY \<and> datalen u \<noteq> 0 then add_query u
         else add_frag_post u components))"

text \<open>Parsing a string and composing the wanted parts of it.\<close>

definition add_string_uri_to_string :: "(string \<Rightarrow> bool) \<Rightarrow> (string \<Rightarrow> string option) \<Rightarrow> string \<Rightarrow> int \<Rightarrow> string option" where
  "add_string_uri_to_string user_program idn uristring components =
     (case parse_uri user_program uristring of
        (URI_ERRNO_OK, u) \<Rightarrow> Some (add_uri_to_string idn u components)
      | _ \<Rightarrow> None)"

definition get_extension_from_uri_loop :: "uri \<Rightarrow> string \<Rightarrow> nat option \<times> bool" where
  "get_extension_from_uri_loop u path =
     foldl (\<lambda>(ext, afterslash) (i, c).
              if \<not> afterslash \<and> ext = None \<and> c = CHR ''.'' then (Some i, afterslash)
              else if is_uri_dir_sep (u_protocol u) c then (None, True)
              else (ext, False))
       (None, True) (enumerate 0 path)"

text \<open>The extension of the last path component, with its dot.\<close>

definition get_extension_from_uri :: "uri \<Rightarrow> string option" where
  "get_extension_from_uri u =
     (let rest = (case u_data u of None \<Rightarrow> [] | Some d \<Rightarrow> drop d (u_string u));
          path = takeWhile (\<lambda>c. \<not> end_of_dir c) rest
      in case fst (get_extension_from_uri_loop u path) of
           None \<Rightarrow> None
         | Some i \<Rightarrow> Some (drop i path))"

definition get_real_uri_length :: "uri \<Rightarrow> nat" where
  "get_real_uri_length u = (case u_post u of Some p \<Rightarrow> p - 1 | None \<Rightarrow> length (u_string u))"

section \<open>Offsets stay in the string\<close>

lemma strcspn_le: "strcspn s p reject \<le> length s - p"
  unfolding strcspn_def by (metis length_drop length_takeWhile_le)

lemma strcspn_in: "p \<le> length s \<Longrightarrow> p + strcspn s p reject \<le> length s"
  using strcspn_le [of s p reject] by linarith

lemma len16_le: "len16 n \<le> n"
  by (simp add: len16_def)

lemma len8_le: "len8 n \<le> n"
  by (simp add: len8_def)

lemma len16_id: "n < 2 ^ 16 \<Longrightarrow> len16 n = n"
  by (simp add: len16_def)

lemma rd_nonNUL: "rd s p \<noteq> NUL \<Longrightarrow> p < length s"
  by (cases "p < length s") auto

text \<open>Reading a given character other than NUL.\<close>

lemma rd_eq: "rd s p = c \<Longrightarrow> c \<noteq> NUL \<Longrightarrow> p + 1 \<le> length s"
  by (metis Suc_eq_plus1 Suc_leI rd_nonNUL)

lemma strchr_Some: "strchr s p c = Some i \<Longrightarrow> p \<le> i \<and> i < length s"
  by (auto simp: strchr_def Let_def split: if_splits)

definition within :: "nat \<Rightarrow> nat option \<Rightarrow> nat \<Rightarrow> bool" where
  "within N off n = (case off of None \<Rightarrow> True | Some i \<Rightarrow> i + n \<le> N)"

lemma within_simps [simp]: "within N None n" "within N (Some i) n \<longleftrightarrow> i + n \<le> N"
  by (simp_all add: within_def)

definition uri_ok :: "uri \<Rightarrow> bool" where
  "uri_ok u \<longleftrightarrow>
     (let N = length (u_string u) in
      protocollen u \<le> N \<and> within N (u_user u) (userlen u) \<and> within N (u_password u) (passwordlen u) \<and>
      within N (u_host u) (hostlen u) \<and> within N (u_port u) (portlen u) \<and> within N (u_data u) (datalen u) \<and>
      within N (u_fragment u) (fragmentlen u) \<and> within N (u_post u) 0)"

definition step_ok :: "string \<Rightarrow> uri_step \<Rightarrow> bool" where
  "step_ok s r = (case r of
      Inl (e, u) \<Rightarrow> uri_ok u \<and> u_string u = s
    | Inr (u, p) \<Rightarrow> uri_ok u \<and> u_string u = s \<and> p \<le> length s)"

text \<open>Setting a component keeps the URI in bounds.\<close>

lemma uri_ok_upd:
  "uri_ok u \<Longrightarrow> i + n \<le> length (u_string u) \<Longrightarrow> uri_ok (u\<lparr>u_fragment := Some i, fragmentlen := n\<rparr>)"
  "uri_ok u \<Longrightarrow> i \<le> length (u_string u) \<Longrightarrow> uri_ok (u\<lparr>u_post := Some i\<rparr>)"
  "uri_ok u \<Longrightarrow> i + n \<le> length (u_string u) \<Longrightarrow> uri_ok (u\<lparr>u_data := Some i, datalen := n\<rparr>)"
  "uri_ok u \<Longrightarrow> i + n \<le> length (u_string u) \<Longrightarrow> uri_ok (u\<lparr>u_user := Some i, userlen := n\<rparr>)"
  "uri_ok u \<Longrightarrow> i + n \<le> length (u_string u) \<Longrightarrow> uri_ok (u\<lparr>u_password := Some i, passwordlen := n\<rparr>)"
  "uri_ok u \<Longrightarrow> i + n \<le> length (u_string u) \<Longrightarrow> uri_ok (u\<lparr>u_host := Some i, hostlen := n\<rparr>)"
  "uri_ok u \<Longrightarrow> i + n \<le> length (u_string u) \<Longrightarrow> uri_ok (u\<lparr>u_port := Some i, portlen := n\<rparr>)"
  "uri_ok u \<Longrightarrow> uri_ok (u\<lparr>ipv6 := b\<rparr>)" "uri_ok u \<Longrightarrow> uri_ok (u\<lparr>u_protocol := q\<rparr>)" "uri_ok u \<Longrightarrow> uri_ok (u\<lparr>ip_family := f\<rparr>)"
  by (simp_all add: uri_ok_def Let_def)

lemma get_protocol_length_le: "get_protocol_length s \<le> length s"
proof -
  have "length (takeWhile scheme_char s) \<le> length s"
    by (rule length_takeWhile_le)
  then show ?thesis
    by (auto simp: get_protocol_length_def Let_def)
qed

lemma sep_nonNUL [simp]: "CHR ''/'' \<noteq> NUL" "CHR '':'' \<noteq> NUL" "CHR ''#'' \<noteq> NUL" "POST_CHAR \<noteq> NUL"
  by (simp_all add: NUL_def POST_CHAR_def)

lemma parse_scheme_ok: "step_ok s (parse_scheme up s)"
proof -
  define u where "u = uri_zero\<lparr>u_string := s, protocollen := len16 (get_protocol_length s)\<rparr>"
  have "len16 (get_protocol_length s) \<le> length s"
    using get_protocol_length_le [of s] len16_le [of "get_protocol_length s"] by linarith
  then have "uri_ok u" "u_string u = s"
    by (simp_all add: u_def uri_ok_def Let_def uri_zero_def le_trans)
  moreover have "rd s p = CHR '':'' \<Longrightarrow> p + 1 \<le> length s" "rd s p = CHR ''/'' \<Longrightarrow> p + 1 \<le> length s" for p
    by (auto intro: rd_eq simp del: One_nat_def)
  ultimately show ?thesis
    unfolding parse_scheme_def u_def [symmetric] by (simp add: step_ok_def uri_ok_upd Let_def)
qed

lemma parse_frag_post_ok:
  assumes "uri_ok u" "e \<le> length (u_string u)"
  shows "uri_ok (parse_frag_post u e) \<and> u_string (parse_frag_post u e) = u_string u"
proof -
  let ?s = "u_string u"
  let ?n = "len16 (strcspn ?s (e + 1) [POST_CHAR])"
  have f: "e + 1 + ?n \<le> length ?s" if "rd ?s e = CHR ''#''"
  proof -
    have "e + 1 \<le> length ?s"
      by (rule rd_eq [OF that]) simp
    then show ?thesis
      using strcspn_in [of "e + 1" ?s "[POST_CHAR]"] len16_le [of "strcspn ?s (e + 1) [POST_CHAR]"] by linarith
  qed
  have p: "q + 1 \<le> length ?s" if "rd ?s q = POST_CHAR" for q
    by (rule rd_eq [OF that]) simp
  show ?thesis
    using assms(1) f p by (simp add: parse_frag_post_def uri_ok_upd Let_def)
qed

declare last_at.simps [simp del]

lemma last_at_bounds: "h < length s \<Longrightarrow> h \<le> last_at s h \<and> last_at s h < length s"
proof (induction s h rule: last_at.induct)
  case (1 s h)
  show ?case
  proof (cases "strcspn s (h + 1) ''@'' < strcspn s (h + 1) ''/?''")
    case True
    have "h + 1 + strcspn s (h + 1) ''@'' < length s"
      using True strcspn_in [of "h + 1" s "''/?''"] 1(2) by linarith
    with 1(1) [OF True] True show ?thesis
      by (simp add: last_at.simps [of s h])
  next
    case False
    with 1(2) show ?thesis
      by (simp add: last_at.simps [of s h])
  qed
qed

lemma parse_auth_ok:
  assumes "uri_ok u" "p \<le> length (u_string u)"
  shows "uri_ok (fst (parse_auth u p)) \<and> u_string (fst (parse_auth u p)) = u_string u \<and>
     snd (parse_auth u p) \<le> length (u_string u)"
proof -
  let ?s = "u_string u"
  define h where "h = last_at ?s (p + strcspn ?s p ''@'')"
  show ?thesis
  proof (cases "p + strcspn ?s p ''/'' > p + strcspn ?s p ''@'' \<and> rd ?s (p + strcspn ?s p ''@'') \<noteq> NUL")
    case False
    show ?thesis
      unfolding parse_auth_def Let_def if_not_P [OF False] using assms by simp
  next
    case True
    then have h: "p \<le> h" "h < length ?s"
      using last_at_bounds [OF rd_nonNUL, of ?s "p + strcspn ?s p ''@''"] by (auto simp: h_def)
    have eq: "parse_auth u p =
        (case strchr ?s p (CHR '':'') of
                   None \<Rightarrow> u\<lparr>u_user := Some p, userlen := len16 (h - p)\<rparr>
                 | Some e \<Rightarrow>
                     if e > h then u\<lparr>u_user := Some p, userlen := len16 (h - p)\<rparr>
                     else u\<lparr>u_user := Some p, userlen := len16 (e - p),
                            u_password := Some (e + 1), passwordlen := len16 (h - e - 1)\<rparr>, h + 1)"
      unfolding parse_auth_def Let_def if_P [OF True] h_def by (rule refl)
    have l: "len16 (h - p) \<le> h - p" "\<And>e. len16 (e - p) \<le> e - p" "\<And>e. len16 (h - e - 1) \<le> h - e - 1"
      by (rule len16_le)+
    have b: "p + len16 (h - p) \<le> length ?s"
      using l(1) h by linarith
    have c: "p + len16 (e - p) \<le> length ?s \<and> e + 1 + len16 (h - e - 1) \<le> length ?s" if "p \<le> e" "e < length ?s" "e \<le> h" for e
      using l(2) [of e] l(3) [of e] h that by linarith
    show ?thesis
      unfolding eq using assms(1) b c h by (auto simp: uri_ok_upd dest!: strchr_Some split: option.split)
  qed
qed

lemma brackets_Some: "brackets s p = Some (l, r) \<Longrightarrow> l \<le> r \<and> r < length s"
  by (auto simp: brackets_def dest!: strchr_Some split: option.splits if_splits)

lemma parse_host_ok:
  assumes "uri_ok u" "p \<le> length (u_string u)" "br = None \<or> (\<exists>l r. br = Some (l, r) \<and> l \<le> r \<and> r < length (u_string u))"
  shows "step_ok (u_string u) (parse_host br u p)"
proof (cases br)
  case None
  let ?n = "strcspn (u_string u) p '':/?''"
  have "p + ?n \<le> length (u_string u)" "p + len16 ?n \<le> length (u_string u)"
    using strcspn_in [OF assms(2), of "'':/?''"] len16_le [of ?n] by linarith+
  then show ?thesis
    using assms(1) None by (simp add: parse_host_def step_ok_def uri_ok_upd Let_def)
next
  case (Some lr)
  then obtain l r where lr: "br = Some (l, r)" "l \<le> r" "r < length (u_string u)"
    using assms(3) by auto
  have "r + strcspn (u_string u) r '':/?'' \<le> length (u_string u)" "l + 1 + len16 (r - l - 1) \<le> length (u_string u)"
    using lr strcspn_in [of r "u_string u" "'':/?''"] len16_le [of "r - l - 1"] by linarith+
  then show ?thesis
    using assms(1) lr(1) uri_ok_upd(6) [of "u\<lparr>ipv6 := True\<rparr>" "l + 1" "len16 (r - l - 1)"]
    by (simp add: parse_host_def step_ok_def uri_ok_upd Let_def)
qed

lemma parse_port_ok:
  assumes "uri_ok u" "h \<le> length (u_string u)"
  shows "step_ok (u_string u) (parse_port u h)"
proof (cases "rd (u_string u) h = CHR '':''")
  case True
  let ?n = "strcspn (u_string u) (h + 1) ''/''"
  have "h + 1 \<le> length (u_string u)"
    by (rule rd_eq [OF True]) simp
  then have "h + 1 + ?n \<le> length (u_string u)"
    by (rule strcspn_in)
  moreover from this have "h + 1 + len8 ?n \<le> length (u_string u)"
    using len8_le [of ?n] by linarith
  moreover define u1 where "u1 = u\<lparr>u_port := Some (h + 1), portlen := len8 ?n\<rparr>"
  ultimately have "uri_ok u1" "u_string u1 = u_string u" "h + 1 + ?n \<le> length (u_string u)"
    using assms(1) uri_ok_upd(7) by simp_all
  then show ?thesis
    unfolding parse_port_def Let_def if_P [OF True] u1_def [symmetric] by (simp add: step_ok_def split: prod.split)
next
  case False
  then show ?thesis
    using assms by (simp add: parse_port_def step_ok_def)
qed

lemma parse_data_ok:
  assumes "uri_ok u" "h \<le> length (u_string u)"
  shows "uri_ok (snd (parse_data u h)) \<and> u_string (snd (parse_data u h)) = u_string u"
proof -
  have n: "i + n \<le> length (u_string u) \<and> i + len16 n \<le> length (u_string u)"
    if "i \<le> length (u_string u)" "n = strcspn (u_string u) i [CHR ''#'', POST_CHAR]" for i n
    using strcspn_in [OF that(1), of "[CHR ''#'', POST_CHAR]"] len16_le [of n] that(2) by linarith
  have "h + 1 \<le> length (u_string u)" if "rd (u_string u) h = CHR ''/''"
    by (rule rd_eq [OF that]) simp
  then show ?thesis
    using assms n parse_frag_post_ok uri_ok_upd(3) by (simp add: parse_data_def Let_def)
qed

lemma parse_server_ok:
  assumes "uri_ok u" "p \<le> length (u_string u)"
  shows "uri_ok (snd (parse_server u p)) \<and> u_string (snd (parse_server u p)) = u_string u"
proof -
  let ?br = "brackets (u_string u) p"
  have br: "?br = None \<or> (\<exists>l r. ?br = Some (l, r) \<and> l \<le> r \<and> r < length (u_string u))"
    using brackets_Some by (cases ?br) auto
  obtain u1 p1 where a: "parse_auth u p = (u1, p1)"
    by fastforce
  have u1: "uri_ok u1" "u_string u1 = u_string u" "p1 \<le> length (u_string u1)"
    using parse_auth_ok [OF assms] a by auto
  have "step_ok (u_string u) (parse_host ?br u1 p1)"
    using parse_host_ok [OF u1(1,3), of ?br] br u1(2) by simp
  moreover have "step_ok (u_string u) (parse_port u2 h)" if "uri_ok u2" "u_string u2 = u_string u" "h \<le> length (u_string u)" for u2 h
    using parse_port_ok [of u2 h] that by simp
  moreover have "uri_ok (snd (parse_data u2 h)) \<and> u_string (snd (parse_data u2 h)) = u_string u"
    if "uri_ok u2" "u_string u2 = u_string u" "h \<le> length (u_string u)" for u2 h
    using parse_data_ok [of u2 h] that by simp
  ultimately show ?thesis
    unfolding parse_server_def Let_def a prod.case
    by (fastforce simp: step_ok_def split: sum.split prod.split)
qed

lemma parse_uri_ok:
  "uri_ok (snd (parse_uri user_program s)) \<and> (s = [] \<or> u_string (snd (parse_uri user_program s)) = s)"
proof (cases "s = []")
  case True
  then show ?thesis
    by (simp add: parse_uri_def uri_zero_def uri_ok_def)
next
  case False
  note sc = parse_scheme_ok [of s user_program]
  show ?thesis
  proof (cases "parse_scheme user_program s")
    case (Inl r)
    then show ?thesis
      using False sc by (auto simp: parse_uri_def step_ok_def split: prod.splits)
  next
    case (Inr r)
    obtain u p where r: "r = (u, p)"
      by fastforce
    have u: "uri_ok u" "u_string u = s" "p \<le> length s"
      using sc by (auto simp: Inr r step_ok_def)
    have "p + len16 (length s - p) \<le> length s" "p + len16 (check_uri_file s p) \<le> length s" "p + check_uri_file s p \<le> length s"
      using u(3) len16_le [of "length s - p"] len16_le [of "check_uri_file s p"] strcspn_in [OF u(3), of "[POST_CHAR, CHR ''#'']"]
      unfolding check_uri_file_def by linarith+
    then show ?thesis
      using False u uri_ok_upd(3) parse_frag_post_ok [OF u(1)] parse_server_ok [OF u(1)]
      by (simp add: parse_uri_def Inr r parse_file_data_def Let_def)
  qed
qed

text \<open>C2: Every component that parsing a URI reports, whether it succeeds or fails, lies inside the URI
  string, which is kept as it is.\<close>

theorem parse_uri_in_bounds:
  "uri_ok (snd (parse_uri user_program s)) \<and> (s = [] \<or> u_string (snd (parse_uri user_program s)) = s)"
  by (rule parse_uri_ok)

section \<open>Parsing what was composed\<close>

lemma strcspn_at:
  "drop p s = xs @ r \<Longrightarrow> set xs \<inter> set reject = {} \<Longrightarrow> r = [] \<or> hd r \<in> set reject \<Longrightarrow> strcspn s p reject = length xs"
  unfolding strcspn_def by (cases r) (auto simp: disjoint_iff takeWhile_eq_all_conv intro!: arg_cong [of _ _ length])

lemma strcspn_past:
  "drop p s = xs @ r \<Longrightarrow> set xs \<inter> set reject = {} \<Longrightarrow> length xs \<le> strcspn s p reject"
  unfolding strcspn_def by (auto simp: disjoint_iff takeWhile_append2)

lemma rd_at: "drop p s = c # r \<Longrightarrow> rd s p = c"
  by (metis rd_Cons(1) rd_drop add.right_neutral)

lemma rd_at_end: "drop p s = [] \<Longrightarrow> rd s p = NUL"
  by simp

lemma drop_step: "drop p s = c # r \<Longrightarrow> drop (p + 1) s = r"
  using drop_advance [of p s "[c]" r] by simp

definition wf_scheme :: "(string \<Rightarrow> bool) \<Rightarrow> string \<Rightarrow> bool" where
  "wf_scheme up scheme \<longleftrightarrow> scheme \<noteq> [] \<and> list_all scheme_char scheme \<and> \<not> c_isdigit (last scheme) \<and>
     get_protocol_need_slash_after_host (get_protocol up scheme)"

lemma server_protocol:
  "get_protocol_need_slash_after_host p \<Longrightarrow>
     get_protocol_need_slashes p \<and> \<not> get_protocol_free_syntax p \<and> p \<noteq> PROTOCOL_FILE \<and> p \<noteq> PROTOCOL_UNKNOWN"
  by (cases p) (simp_all add: get_protocol_need_slash_after_host_def get_protocol_need_slashes_def
      get_protocol_free_syntax_def backend_def)

lemma get_protocol_length_scheme:
  assumes "scheme \<noteq> []" "list_all scheme_char scheme" "\<not> c_isdigit (last scheme)"
  shows "get_protocol_length (scheme @ CHR '':'' # r) = length scheme"
proof -
  have "\<not> scheme_char CHR '':''"
    by (simp add: scheme_char_def isasciialnum_def isasciialpha_def c_isupper_def c_islower_def c_isdigit_def ccode_def)
  then have t: "takeWhile scheme_char (scheme @ CHR '':'' # r) = scheme"
    using assms(2) by (simp add: takeWhile_append2 list_all_iff)
  have "rd (scheme @ CHR '':'' # r) (length scheme - 1) = last scheme"
    using assms(1) by (subst rd_in) (auto simp: nth_append last_conv_nth)
  moreover have "rd (scheme @ CHR '':'' # r) (length scheme) = CHR '':''"
    by (rule rd_at) simp
  ultimately show ?thesis
    using assms(3) by (simp add: get_protocol_length_def t)
qed

lemma parse_scheme_text:
  assumes "wf_scheme up scheme" "s = scheme @ ''://'' @ r" "rd r 0 \<noteq> CHR ''/''" "length s < 2 ^ 16"
  shows "parse_scheme up s =
     Inr (uri_zero\<lparr>u_string := s, protocollen := length scheme, u_protocol := get_protocol up scheme\<rparr>, length scheme + 3)"
proof -
  let ?n = "length scheme"
  have n: "get_protocol_length s = ?n" "len16 ?n = ?n" "0 < ?n"
    using assms get_protocol_length_scheme [of scheme "''//'' @ r"] by (auto simp: wf_scheme_def len16_id)
  have d: "drop ?n s = ''://'' @ r"
    by (simp add: assms(2))
  have "drop (?n + 1) s = ''//'' @ r" "drop (?n + 2) s = ''/'' @ r" "drop (?n + 3) s = r"
    by (simp_all add: assms(2))
  then have rds: "rd s ?n = CHR '':''" "rd s (?n + 1) = CHR ''/''" "rd s (?n + 2) = CHR ''/''" "rd s (?n + 3) \<noteq> CHR ''/''"
    using d assms(3) rd_drop [of s "?n + 3" 0] by (simp_all add: rd_at)
  have dig: "\<not> c_isdigit CHR '':''"
    by (simp add: c_isdigit_def)
  have "take ?n s = scheme"
    by (simp add: assms(2))
  then show ?thesis
    using n rds dig by (simp add: parse_scheme_def Let_def uri_zero_def numeral_3_eq_3)
qed

lemma brackets_none:
  assumes "drop p s = a @ CHR ''/'' # r" "CHR ''['' \<notin> set a" "CHR ''/'' \<notin> set a"
  shows "brackets s p = None"
proof -
  have sl: "strcspn s p ''/'' = length a"
    using strcspn_at [OF assms(1), of "''/''"] assms(3) by simp
  have "length a \<le> strcspn s p [CHR ''['']"
    using strcspn_past [OF assms(1), of "[CHR ''['']"] assms(2) by simp
  then have "p + length a \<le> l" if "strchr s p (CHR ''['') = Some l" for l
    using that by (auto simp: strchr_def Let_def split: if_splits)
  moreover have "l \<le> r" if "strchr s l (CHR '']'') = Some r" for l r
    using strchr_Some [OF that] by simp
  ultimately show ?thesis
    using sl by (fastforce simp: brackets_def split: option.split)
qed


text \<open>The authority part up to the host.\<close>

lemma parse_auth_none:
  assumes "drop p s = a @ CHR ''/'' # r" "CHR ''@'' \<notin> set a" "CHR ''/'' \<notin> set a" "u_string u = s"
  shows "parse_auth u p = (u, p)"
proof -
  have "strcspn s p ''/'' = length a"
    using strcspn_at [OF assms(1), of "''/''"] assms(3) by simp
  moreover have "length a \<le> strcspn s p ''@''"
    using strcspn_past [OF assms(1), of "''@''"] assms(2) by simp
  ultimately show ?thesis
    using assms(4) by (simp add: parse_auth_def Let_def)
qed

lemma parse_auth_some:
  assumes "drop p s = x @ CHR ''@'' # a @ CHR ''/'' # r" "u_string u = s"
    and "CHR ''@'' \<notin> set x" "CHR ''/'' \<notin> set x" "CHR ''@'' \<notin> set a" "CHR ''/'' \<notin> set a" "CHR ''?'' \<notin> set a"
  shows "parse_auth u p =
     (case strchr s p (CHR '':'') of
        None \<Rightarrow> u\<lparr>u_user := Some p, userlen := len16 (length x)\<rparr>
      | Some e \<Rightarrow>
          if e > p + length x then u\<lparr>u_user := Some p, userlen := len16 (length x)\<rparr>
          else u\<lparr>u_user := Some p, userlen := len16 (e - p), u_password := Some (e + 1),
                 passwordlen := len16 (p + length x - e - 1)\<rparr>,
      p + length x + 1)"
proof -
  let ?h = "p + length x"
  have at: "strcspn s p ''@'' = length x"
    using strcspn_at [OF assms(1), of "''@''"] assms(3) by simp
  have "drop p s = (x @ CHR ''@'' # a) @ CHR ''/'' # r"
    using assms(1) by simp
  then have sl: "strcspn s p ''/'' = length x + 1 + length a"
    using strcspn_at [of p s "x @ CHR ''@'' # a" "CHR ''/'' # r" "''/''"] assms(4,6) by simp
  have dh: "drop ?h s = CHR ''@'' # a @ CHR ''/'' # r"
    using drop_advance [OF assms(1)] .
  then have rest: "drop (?h + 1) s = a @ CHR ''/'' # r"
    by (rule drop_step)
  have "strcspn s (?h + 1) ''/?'' = length a" "length a \<le> strcspn s (?h + 1) ''@''"
    using strcspn_at [OF rest, of "''/?''"] strcspn_past [OF rest, of "''@''"] assms(5-7) by auto
  then have "last_at s ?h = ?h"
    by (simp add: last_at.simps [of s ?h])
  moreover have "rd s ?h = CHR ''@''"
    using dh by (rule rd_at)
  moreover have "CHR ''@'' \<noteq> NUL"
    by (simp add: NUL_def)
  ultimately show ?thesis
    using at sl assms(2) by (simp add: parse_auth_def Let_def split: option.split)
qed

type_synonym auth = "(string \<times> string option) option"

fun auth_text :: "auth \<Rightarrow> string" where
  "auth_text None = []"
| "auth_text (Some (usr, None)) = usr @ ''@''"
| "auth_text (Some (usr, Some pw)) = usr @ '':'' @ pw @ ''@''"

definition no_chars :: "string \<Rightarrow> string \<Rightarrow> bool" where
  "no_chars cs t \<longleftrightarrow> set cs \<inter> set t = {}"

fun wf_auth :: "auth \<Rightarrow> bool" where
  "wf_auth None = True"
| "wf_auth (Some (usr, None)) = (usr \<noteq> [] \<and> no_chars ''@/:['' usr)"
| "wf_auth (Some (usr, Some pw)) = (usr \<noteq> [] \<and> no_chars ''@/:['' usr \<and> pw \<noteq> [] \<and> no_chars ''@/['' pw)"

text \<open>Where the parser puts the user and the password.\<close>

fun set_auth :: "auth \<Rightarrow> nat \<Rightarrow> uri \<Rightarrow> uri" where
  "set_auth None p u = u"
| "set_auth (Some (usr, None)) p u = u\<lparr>u_user := Some p, userlen := length usr\<rparr>"
| "set_auth (Some (usr, Some pw)) p u =
     u\<lparr>u_user := Some p, userlen := length usr, u_password := Some (p + length usr + 1), passwordlen := length pw\<rparr>"

lemma parse_auth_text:
  assumes "wf_auth auth" "drop p s = auth_text auth @ a @ CHR ''/'' # r" "no_chars ''@/?'' a" "u_string u = s" "length s < 2 ^ 16"
  shows "parse_auth u p = (set_auth auth p u, p + length (auth_text auth))"
proof (cases auth rule: auth_text.cases)
  case 1
  then show ?thesis
    using parse_auth_none [of p s a r u] assms by (simp add: no_chars_def)
next
  case (2 usr)
  have a: "drop p s = usr @ CHR ''@'' # a @ CHR ''/'' # r" "CHR '':'' \<notin> set (usr @ ''@'')"
    using assms 2 by (auto simp: no_chars_def)
  have l: "len16 (length usr) = length usr"
    using arg_cong [OF a(1), of length] assms(5) by (intro len16_id) simp
  have "drop p s = (usr @ ''@'') @ a @ CHR ''/'' # r"
    using a(1) by simp
  from strcspn_past [OF this, of "'':''"] have "strchr s p (CHR '':'') = Some e \<Longrightarrow> p + length usr < e" for e
    using a(2) by (auto simp: strchr_def Let_def split: if_splits)
  then show ?thesis
    using parse_auth_some [OF a(1) assms(4)] assms 2 l by (auto simp: no_chars_def split: option.split)
next
  case (3 usr pw)
  let ?x = "usr @ CHR '':'' # pw"
  have a: "drop p s = ?x @ CHR ''@'' # a @ CHR ''/'' # r"
    using assms 3 by simp
  have l: "len16 (length usr) = length usr" "len16 (length pw) = length pw"
    using arg_cong [OF a(1), of length] assms(5) by (auto intro!: len16_id)
  have b: "drop p s = usr @ CHR '':'' # pw @ CHR ''@'' # a @ CHR ''/'' # r"
    using a by simp
  have "p < length s"
    using arg_cong [OF b, of length] by simp
  then have "strchr s p (CHR '':'') = Some (p + length usr)"
    using strcspn_at [OF b, of "'':''"] assms(1) 3 arg_cong [OF b, of length] by (simp add: strchr_def no_chars_def Let_def)
  then show ?thesis
    using parse_auth_some [OF a assms(4)] assms 3 l by (simp add: no_chars_def)
qed


text \<open>The host, the port and what follows.\<close>

lemma parse_host_text:
  assumes "drop p s = host @ c # r" "c = CHR '':'' \<or> c = CHR ''/''" "no_chars '':/?'' host" "host \<noteq> []" "last host \<noteq> CHR ''.''"
    and "u_string u = s" "length s < 2 ^ 16"
  shows "parse_host None u p = Inr (u\<lparr>u_host := Some p, hostlen := length host\<rparr>, p + length host)"
proof -
  have n: "strcspn s p '':/?'' = length host"
    using strcspn_at [OF assms(1), of "'':/?''"] assms(2,3) by (auto simp: no_chars_def)
  have l: "len16 (length host) = length host"
    using arg_cong [OF assms(1), of length] assms(7) by (intro len16_id) simp
  have "rd s (p + (length host - 1)) = rd (host @ c # r) (length host - 1)"
    by (simp only: rd_drop assms(1))
  also have "\<dots> = last host"
    using assms(4) by (subst rd_in) (auto simp: nth_append last_conv_nth)
  finally have "rd s (p + length host - 1) \<noteq> CHR ''.''"
    using assms(4,5) by (simp add: Suc_leI)
  then show ?thesis
    using n l assms(6) by (simp add: parse_host_def Let_def)
qed

lemma dec_val_nonneg: "list_all c_isdigit ds \<Longrightarrow> 0 \<le> dec_val ds"
  by (simp add: dec_val_num_val)

lemma digit_not_space: "c_isdigit c \<Longrightarrow> \<not> c_isspace c \<and> c \<noteq> CHR ''-'' \<and> c \<noteq> CHR ''+''"
  by (auto simp: c_isdigit_def c_isspace_def ccode_def)

lemma strtol10_digits:
  assumes "list_all c_isdigit ds" "ds \<noteq> []" "dec_val ds < 2 ^ 63" "r = [] \<or> \<not> c_isdigit (hd r)"
  shows "strtol10 (ds @ r) = (dec_val ds, length ds, False)"
proof -
  obtain d ds' where d: "ds = d # ds'"
    using assms(2) by (cases ds) auto
  have nd: "\<not> c_isspace d" "d \<noteq> CHR ''-''" "d \<noteq> CHR ''+''"
    using digit_not_space [of d] assms(1) d by auto
  have "takeWhile c_isdigit (ds @ r) = ds"
    using assms(1,4) by (cases r) (auto simp: list_all_iff takeWhile_append2 takeWhile_eq_all_conv)
  then show ?thesis
    using nd assms(2,3) dec_val_nonneg [OF assms(1)] d by (simp add: strtol10_def Let_def)
qed

fun port_text :: "string option \<Rightarrow> string" where
  "port_text None = []"
| "port_text (Some ds) = '':'' @ ds"

fun wf_port :: "string option \<Rightarrow> bool" where
  "wf_port None = True"
| "wf_port (Some ds) = (ds \<noteq> [] \<and> length ds < 256 \<and> list_all c_isdigit ds \<and> dec_val ds \<le> 65535)"

fun set_port :: "string option \<Rightarrow> nat \<Rightarrow> uri \<Rightarrow> uri" where
  "set_port None h u = u"
| "set_port (Some ds) h u = u\<lparr>u_port := Some (h + 1), portlen := length ds\<rparr>"

lemma digits_no_slash: "list_all c_isdigit ds \<Longrightarrow> CHR ''/'' \<notin> set ds \<and> CHR ''@'' \<notin> set ds \<and> CHR ''?'' \<notin> set ds \<and> CHR ''['' \<notin> set ds"
  by (auto simp: list_all_iff c_isdigit_def)

lemma parse_port_text:
  assumes "wf_port port" "drop h s = port_text port @ CHR ''/'' # r" "u_string u = s"
  shows "parse_port u h = Inr (set_port port h u, h + length (port_text port))"
proof (cases port)
  case None
  then have "rd s h = CHR ''/''"
    using assms(2) by (simp add: rd_at)
  then show ?thesis
    using None assms(3) by (simp add: parse_port_def)
next
  case (Some ds)
  have ds: "ds \<noteq> []" "length ds < 256" "list_all c_isdigit ds" "dec_val ds \<le> 65535" "0 \<le> dec_val ds"
    using assms(1) Some dec_val_nonneg by auto
  have "drop h s = CHR '':'' # ds @ CHR ''/'' # r"
    using assms(2) Some by simp
  note d = rd_at [OF this] drop_step [OF this]
  have n: "strcspn s (h + 1) ''/'' = length ds"
    using strcspn_at [OF d(2), of "''/''"] digits_no_slash [OF ds(3)] by simp
  have "\<not> c_isdigit CHR ''/''"
    by (simp add: c_isdigit_def)
  then have "strtol10 (drop (h + 1) s) = (dec_val ds, length ds, False)"
    unfolding d(2) using ds by (intro strtol10_digits) auto
  moreover have "uri_port_is_valid (int32 (dec_val ds))"
    using ds(4,5) by (simp add: uri_port_is_valid_def int32_id)
  moreover have "len8 (length ds) = length ds"
    using ds(2) by (simp add: len8_def)
  ultimately show ?thesis
    using Some d n ds assms(3) by (simp add: parse_port_def Let_def)
qed

fun frag_text :: "string option \<Rightarrow> string" where
  "frag_text None = []"
| "frag_text (Some f) = ''#'' @ f"

fun post_text :: "string option \<Rightarrow> string" where
  "post_text None = []"
| "post_text (Some d) = POST_CHAR # d"

definition set_rest :: "string \<Rightarrow> string option \<Rightarrow> string option \<Rightarrow> nat \<Rightarrow> uri \<Rightarrow> uri" where
  "set_rest path frag post h u =
     u\<lparr>u_data := Some h, datalen := length path,
       u_fragment := map_option (\<lambda>_. h + length path + 1) frag,
       fragmentlen := (case frag of None \<Rightarrow> fragmentlen u | Some f \<Rightarrow> length f),
       u_post := map_option (\<lambda>_. h + length path + length (frag_text frag) + 1) post\<rparr>"

lemma parse_frag_post_text:
  assumes "drop e s = frag_text frag @ post_text post" "\<forall>f. frag = Some f \<longrightarrow> POST_CHAR \<notin> set f" "u_string u = s" "length s < 2 ^ 16"
    "u_fragment u = None" "u_post u = None"
  shows "parse_frag_post u e =
     u\<lparr>u_fragment := map_option (\<lambda>_. e + 1) frag, fragmentlen := (case frag of None \<Rightarrow> fragmentlen u | Some f \<Rightarrow> length f),
       u_post := map_option (\<lambda>_. e + length (frag_text frag) + 1) post\<rparr>"
proof -
  have post: "rd s q = POST_CHAR \<longleftrightarrow> post \<noteq> None" if "drop q s = post_text post" for q
    using that by (cases post) (auto simp: rd_at NUL_def POST_CHAR_def)
  have hash: "CHR ''#'' \<noteq> POST_CHAR"
    by (simp add: POST_CHAR_def)
  show ?thesis
  proof (cases frag)
    case None
    then have "drop e s = post_text post"
      using assms(1) by simp
    moreover from this have "rd s e \<noteq> CHR ''#''"
      using hash by (cases post) (auto simp: rd_at NUL_def)
    ultimately show ?thesis
      using None post [of e] assms by (cases post) (simp_all add: parse_frag_post_def)
  next
    case (Some f)
    have d: "drop e s = CHR ''#'' # f @ post_text post"
      using assms(1) Some by simp
    note d1 = rd_at [OF d] drop_step [OF d]
    have n: "strcspn s (e + 1) [POST_CHAR] = length f"
      using strcspn_at [OF d1(2), of "[POST_CHAR]"] assms(2) Some by (cases post) auto
    have "len16 (length f) = length f"
      using arg_cong [OF d, of length] assms(4) by (intro len16_id) simp
    then show ?thesis
      using Some n d1 post [OF drop_advance [OF d1(2)]] assms by (cases post) (simp_all add: parse_frag_post_def Let_def)
  qed
qed

lemma parse_data_text:
  assumes "drop h s = CHR ''/'' # path @ frag_text frag @ post_text post" "no_chars [CHR ''#'', POST_CHAR] path"
    and "\<forall>f. frag = Some f \<longrightarrow> POST_CHAR \<notin> set f" "u_string u = s" "length s < 2 ^ 16" "u_fragment u = None" "u_post u = None"
  shows "parse_data u h = (URI_ERRNO_OK, set_rest path frag post (h + 1) u)"
proof -
  note d = rd_at [OF assms(1)] drop_step [OF assms(1)]
  have "frag_text frag @ post_text post = [] \<or> hd (frag_text frag @ post_text post) \<in> {CHR ''#'', POST_CHAR}"
    by (cases frag; cases post) auto
  then have n: "strcspn s (h + 1) [CHR ''#'', POST_CHAR] = length path"
    using strcspn_at [OF d(2), of "[CHR ''#'', POST_CHAR]"] assms(2) by (auto simp: no_chars_def)
  have l: "len16 (length path) = length path"
    using arg_cong [OF d(2), of length] assms(5) by (intro len16_id) simp
  show ?thesis
    using d n l assms parse_frag_post_text [OF drop_advance [OF d(2)] assms(3), of "u\<lparr>u_data := Some (h + 1), datalen := length path\<rparr>"]
    by (cases frag) (simp_all add: parse_data_def set_rest_def Let_def)
qed

definition uri_text :: "string \<Rightarrow> auth \<Rightarrow> string \<Rightarrow> string option \<Rightarrow> string \<Rightarrow> string option \<Rightarrow> string option \<Rightarrow> string" where
  "uri_text scheme auth host port path frag post =
     scheme @ ''://'' @ auth_text auth @ host @ port_text port @ ''/'' @ path @ frag_text frag @ post_text post"

definition wf_frag :: "string option \<Rightarrow> bool" where
  "wf_frag frag = (case frag of None \<Rightarrow> True | Some f \<Rightarrow> f \<noteq> [] \<and> POST_CHAR \<notin> set f)"

definition wf_uri :: "(string \<Rightarrow> bool) \<Rightarrow> string \<Rightarrow> auth \<Rightarrow> string \<Rightarrow> string option \<Rightarrow> string \<Rightarrow> string option \<Rightarrow> string option \<Rightarrow> bool" where
  "wf_uri up scheme auth host port path frag post \<longleftrightarrow>
     wf_scheme up scheme \<and> wf_auth auth \<and> host \<noteq> [] \<and> no_chars ''@:/?['' host \<and> last host \<noteq> CHR ''.'' \<and> wf_port port \<and>
     no_chars [CHR ''#'', POST_CHAR] path \<and> wf_frag frag \<and> length (uri_text scheme auth host port path frag post) < 2 ^ 16"

text \<open>The parsed form of a composed URI.\<close>

definition parsed :: "(string \<Rightarrow> bool) \<Rightarrow> string \<Rightarrow> auth \<Rightarrow> string \<Rightarrow> string option \<Rightarrow> string \<Rightarrow> string option \<Rightarrow> string option \<Rightarrow> uri" where
  "parsed up scheme auth host port path frag post =
     (let p = length scheme + 3; h = p + length (auth_text auth); e = h + length host; d = e + length (port_text port);
          u0 = uri_zero\<lparr>u_string := uri_text scheme auth host port path frag post, protocollen := length scheme,
                        u_protocol := get_protocol up scheme\<rparr>
      in set_rest path frag post (d + 1) (set_port port e ((set_auth auth p u0)\<lparr>u_host := Some h, hostlen := length host\<rparr>)))"

lemma auth_no_chars: "wf_auth auth \<Longrightarrow> CHR ''/'' \<notin> set (auth_text auth) \<and> CHR ''['' \<notin> set (auth_text auth)"
  by (cases auth rule: auth_text.cases) (auto simp: no_chars_def)

lemma port_no_chars: "wf_port port \<Longrightarrow> no_chars ''@/?['' (port_text port)"
  using digits_no_slash by (cases port) (auto simp: no_chars_def)

lemma set_auth_sel [simp]:
  "u_string (set_auth auth p u) = u_string u" "u_fragment (set_auth auth p u) = u_fragment u" "u_post (set_auth auth p u) = u_post u"
  "u_protocol (set_auth auth p u) = u_protocol u"
  by (cases auth rule: auth_text.cases; simp)+

lemma set_port_sel [simp]:
  "u_string (set_port port h u) = u_string u" "u_fragment (set_port port h u) = u_fragment u" "u_post (set_port port h u) = u_post u"
  "u_protocol (set_port port h u) = u_protocol u"
  by (cases port; simp)+

lemma parse_uri_parsed:
  assumes "wf_uri up scheme auth host port path frag post"
  shows "parse_uri up (uri_text scheme auth host port path frag post) =
     (URI_ERRNO_OK, parsed up scheme auth host port path frag post)"
proof -
  note wf = assms [unfolded wf_uri_def]
  define s where "s = uri_text scheme auth host port path frag post"
  define rest where "rest = path @ frag_text frag @ post_text post"
  define p where "p = length scheme + 3"
  define u0 where "u0 = uri_zero\<lparr>u_string := s, protocollen := length scheme, u_protocol := get_protocol up scheme\<rparr>"
  have s: "s = scheme @ ''://'' @ auth_text auth @ host @ port_text port @ ''/'' @ rest"
    by (simp add: s_def uri_text_def rest_def)
  have len: "length s < 2 ^ 16"
    using wf by (simp add: s_def)
  have u0: "u_string u0 = s" "u_fragment u0 = None" "u_post u0 = None" "u_protocol u0 = get_protocol up scheme"
    by (simp_all add: u0_def uri_zero_def)
  define a where "a = host @ port_text port"
  have a: "no_chars ''@/?['' a"
    using wf port_no_chars [of port] by (auto simp: a_def no_chars_def)
  have dp: "drop p s = auth_text auth @ a @ CHR ''/'' # rest"
    by (simp add: s p_def a_def)
  have "rd (drop p s) 0 \<noteq> CHR ''/''"
    using wf a auth_no_chars [of auth] unfolding dp
    by (cases "auth_text auth"; cases host) (auto simp: no_chars_def a_def)
  then have sc: "parse_scheme up s = Inr (u0, p)"
    using parse_scheme_text [of up scheme s "auth_text auth @ a @ CHR ''/'' # rest"] wf len dp
    by (simp add: s p_def u0_def a_def)
  have br: "brackets s p = None"
    using brackets_none [of p s "auth_text auth @ a" rest] dp a auth_no_chars [of auth] wf by (auto simp: no_chars_def)
  have au: "parse_auth u0 p = (set_auth auth p u0, p + length (auth_text auth))"
    using parse_auth_text [OF _ dp _ u0(1) len] wf a by (simp add: no_chars_def)
  define h where "h = p + length (auth_text auth)"
  define u1 where "u1 = set_auth auth p u0"
  have dh: "drop h s = host @ port_text port @ CHR ''/'' # rest"
    using drop_advance [OF dp] by (simp add: h_def a_def)
  obtain c r where c: "port_text port @ CHR ''/'' # rest = c # r" "c = CHR '':'' \<or> c = CHR ''/''"
    by (cases port) auto
  have ho: "parse_host None u1 h = Inr (u1\<lparr>u_host := Some h, hostlen := length host\<rparr>, h + length host)"
    using parse_host_text [of h s host c r u1] dh c wf len by (simp add: u1_def u0 no_chars_def)
  define u2 where "u2 = u1\<lparr>u_host := Some h, hostlen := length host\<rparr>"
  have de: "drop (h + length host) s = port_text port @ CHR ''/'' # rest"
    using drop_advance [OF dh] .
  have po: "parse_port u2 (h + length host) = Inr (set_port port (h + length host) u2, h + length host + length (port_text port))"
    using parse_port_text [OF _ de, of u2] wf by (simp add: u2_def u1_def u0)
  have dd: "drop (h + length host + length (port_text port)) s = CHR ''/'' # rest"
    using drop_advance [OF de] .
  have da: "parse_data (set_port port (h + length host) u2) (h + length host + length (port_text port)) =
      (URI_ERRNO_OK, set_rest path frag post (h + length host + length (port_text port) + 1) (set_port port (h + length host) u2))"
    using parse_data_text [OF dd [unfolded rest_def]] wf len by (auto simp: u2_def u1_def u0 wf_frag_def split: option.splits)
  have prot: "\<not> get_protocol_free_syntax (u_protocol u0)" "u_protocol u0 \<noteq> PROTOCOL_FILE"
    using wf server_protocol [of "get_protocol up scheme"] by (auto simp: wf_scheme_def u0)
  have "s \<noteq> []"
    by (simp add: s)
  then have "parse_uri up s = (URI_ERRNO_OK, set_rest path frag post (h + length host + length (port_text port) + 1) (set_port port (h + length host) u2))"
    using prot sc br au ho po da by (simp add: parse_uri_def parse_server_def u0(1) h_def [symmetric] u1_def [symmetric] u2_def [symmetric])
  then show ?thesis
    by (simp add: parsed_def s_def [symmetric] u0_def [symmetric] p_def [symmetric] h_def [symmetric] u1_def [symmetric]
        u2_def [symmetric] Let_def)
qed

text \<open>All components that make up a URI string.\<close>

definition URI_WHOLE :: int where
  "URI_WHOLE = (URI_ORIGINAL OR URI_POST)"

lemma wants_whole:
  "wants URI_WHOLE URI_PROTOCOL" "wants URI_WHOLE URI_IP_FAMILY" "wants URI_WHOLE URI_USER" "wants URI_WHOLE URI_PASSWORD"
  "wants URI_WHOLE URI_HOST" "wants URI_WHOLE URI_PORT" "\<not> wants URI_WHOLE URI_DEFAULT_PORT" "wants URI_WHOLE URI_DATA"
  "wants URI_WHOLE URI_FRAGMENT" "wants URI_WHOLE URI_POST" "\<not> wants URI_WHOLE URI_IDN" "\<not> wants URI_WHOLE URI_PATH"
  "\<not> wants URI_WHOLE URI_FILENAME" "\<not> wants URI_WHOLE URI_QUERY" "wants URI_WHOLE (NOT (URI_DATA OR URI_PORT))"
  by (simp_all add: wants_def URI_WHOLE_def URI_ORIGINAL_def URI_RARE_def URI_SPECIAL_def uri_bits)

lemma set_rest_sel [simp]:
  "u_string (set_rest path frag post h u) = u_string u" "u_protocol (set_rest path frag post h u) = u_protocol u"
  "protocollen (set_rest path frag post h u) = protocollen u" "ip_family (set_rest path frag post h u) = ip_family u"
  "u_user (set_rest path frag post h u) = u_user u" "userlen (set_rest path frag post h u) = userlen u"
  "u_password (set_rest path frag post h u) = u_password u" "passwordlen (set_rest path frag post h u) = passwordlen u"
  "u_host (set_rest path frag post h u) = u_host u" "hostlen (set_rest path frag post h u) = hostlen u"
  "u_port (set_rest path frag post h u) = u_port u" "portlen (set_rest path frag post h u) = portlen u"
  "ipv6 (set_rest path frag post h u) = ipv6 u"
  "u_data (set_rest path frag post h u) = Some h" "datalen (set_rest path frag post h u) = length path"
  by (simp_all add: set_rest_def)

lemma set_port_sels [simp]:
  "protocollen (set_port port h u) = protocollen u" "ip_family (set_port port h u) = ip_family u"
  "u_user (set_port port h u) = u_user u" "userlen (set_port port h u) = userlen u"
  "u_password (set_port port h u) = u_password u" "passwordlen (set_port port h u) = passwordlen u"
  "u_host (set_port port h u) = u_host u" "hostlen (set_port port h u) = hostlen u"
  "ipv6 (set_port port h u) = ipv6 u" "fragmentlen (set_port port h u) = fragmentlen u"
  by (cases port; simp)+

lemma set_auth_sels [simp]:
  "protocollen (set_auth auth p u) = protocollen u" "ip_family (set_auth auth p u) = ip_family u"
  "u_port (set_auth auth p u) = u_port u" "portlen (set_auth auth p u) = portlen u"
  "ipv6 (set_auth auth p u) = ipv6 u" "fragmentlen (set_auth auth p u) = fragmentlen u"
  by (cases auth rule: auth_text.cases; simp)+

lemma field_at: "drop i (u_string u) = x @ r \<Longrightarrow> field u (Some i) (length x) = x"
  by (simp add: field_def)

text \<open>The texts the parts of a parsed URI stand for.\<close>

lemma add_auth_text:
  assumes "wf_auth auth" "drop p (u_string u) = auth_text auth @ r" "userlen u0 = 0"
    and "u_user u = u_user (set_auth auth p u0)" "userlen u = userlen (set_auth auth p u0)"
      "u_password u = u_password (set_auth auth p u0)" "passwordlen u = passwordlen (set_auth auth p u0)" "passwordlen u0 = 0"
  shows "add_auth u URI_WHOLE = auth_text auth"
proof (cases auth rule: auth_text.cases)
  case (2 usr)
  then show ?thesis
    using assms by (simp add: add_auth_def wants_whole field_def)
next
  case (3 usr pw)
  have "drop (p + length usr) (u_string u) = CHR '':'' # pw @ CHR ''@'' # r"
    using assms(2) 3 drop_advance [of p "u_string u" usr] by simp
  from drop_step [OF this] show ?thesis
    using assms 3 by (simp add: add_auth_def wants_whole field_def)
qed (use assms in \<open>simp add: add_auth_def\<close>)

lemma add_port_text:
  assumes "wf_port port" "drop h (u_string u) = port_text port @ r" "portlen u0 = 0"
    and "u_port u = u_port (set_port port h u0)" "portlen u = portlen (set_port port h u0)"
  shows "add_port u URI_WHOLE = port_text port"
proof (cases port)
  case (Some ds)
  have "drop (h + 1) (u_string u) = ds @ r"
    using assms(2) Some drop_step [of h "u_string u" "CHR '':''"] by simp
  then show ?thesis
    using assms Some by (simp add: add_port_def wants_whole field_def)
qed (use assms in \<open>simp add: add_port_def wants_whole\<close>)

lemma add_frag_post_text:
  assumes "wf_frag frag" "drop (h + length path) (u_string u) = frag_text frag @ post_text post" "fragmentlen u = 0"
  shows "add_frag_post (set_rest path frag post h u) URI_WHOLE = frag_text frag @ post_text post"
proof -
  let ?e = "h + length path"
  have d: "drop (?e + length (frag_text frag)) (u_string u) = post_text post"
    using drop_advance [OF assms(2)] .
  have "drop (?e + 1) (u_string u) = f @ post_text post" if "frag = Some f" for f
    using assms(2) that drop_step [of ?e "u_string u" "CHR ''#''"] by simp
  moreover have "drop (?e + length (frag_text frag) + 1) (u_string u) = t" if "post = Some t" for t
    using d that drop_step [of "?e + length (frag_text frag)" "u_string u" POST_CHAR] by simp
  ultimately show ?thesis
    using assms(1,3) by (cases frag; cases post) (auto simp: add_frag_post_def set_rest_def wants_whole field_def wf_frag_def)
qed

lemma add_uri_parsed:
  assumes "wf_uri up scheme auth host port path frag post"
  defines "u \<equiv> parsed up scheme auth host port path frag post"
  shows "add_uri_to_string idn u URI_WHOLE = uri_text scheme auth host port path frag post"
    and "u_protocol u = get_protocol up scheme" "field u (u_host u) (hostlen u) = host" "field u (u_data u) (datalen u) = path"
proof -
  note wf = assms(1) [unfolded wf_uri_def]
  define s where "s = uri_text scheme auth host port path frag post"
  define p where "p = length scheme + 3"
  define h where "h = p + length (auth_text auth)"
  define e where "e = h + length host"
  define d where "d = e + length (port_text port) + 1"
  define u0 where "u0 = uri_zero\<lparr>u_string := s, protocollen := length scheme, u_protocol := get_protocol up scheme\<rparr>"
  define u1 where "u1 = (set_auth auth p u0)\<lparr>u_host := Some h, hostlen := length host\<rparr>"
  have u_eq: "u = set_rest path frag post d (set_port port e u1)"
    by (simp add: parsed_def u_def u1_def u0_def s_def p_def h_def e_def d_def Let_def)
  have us: "u_string u = s" "ip_family u = 0" "protocollen u = length scheme" "u_protocol u = get_protocol up scheme" "\<not> ipv6 u"
      "u_host u = Some h" "hostlen u = length host" "u_data u = Some d" "datalen u = length path"
    by (simp_all add: u_eq u1_def u0_def uri_zero_def)
  have "drop p s = auth_text auth @ host @ port_text port @ ''/'' @ path @ frag_text frag @ post_text post"
    by (simp add: s_def uri_text_def p_def)
  note dp = this drop_advance [OF this, folded h_def]
  note dh = dp(2) drop_advance [OF dp(2), folded e_def]
  have dd: "drop d s = path @ frag_text frag @ post_text post"
    using drop_step [of "e + length (port_text port)" s "CHR ''/''"] drop_advance [OF dh(2)] by (simp add: d_def)
  have prot: "get_protocol_need_slashes (u_protocol u)" "get_protocol_need_slash_after_host (u_protocol u)" "u_protocol u \<noteq> PROTOCOL_UNKNOWN"
    using wf server_protocol [of "get_protocol up scheme"] by (auto simp: wf_scheme_def us)
  have "add_auth u URI_WHOLE = auth_text auth"
    using wf dp(1) us(1) by (intro add_auth_text [of auth p u _ u0]) (simp_all add: u_eq u1_def u0_def uri_zero_def)
  moreover have "add_port u URI_WHOLE = port_text port"
    using wf dh(2) us(1) by (intro add_port_text [of port e u _ u1]) (simp_all add: u_eq u1_def u0_def uri_zero_def)
  moreover have "add_frag_post u URI_WHOLE = frag_text frag @ post_text post"
    unfolding u_eq using wf drop_advance [OF dd] by (intro add_frag_post_text) (simp_all add: u1_def u0_def uri_zero_def)
  moreover have "add_scheme u URI_WHOLE = scheme @ ''://''"
    using prot by (simp add: add_scheme_def wants_whole us s_def uri_text_def)
  moreover have "add_host idn u URI_WHOLE = host"
    using wf dh(1) by (simp add: add_host_def wants_whole us field_def Let_def)
  moreover show path: "field u (u_data u) (datalen u) = path"
    using dd by (simp add: field_def us)
  ultimately show "add_uri_to_string idn u URI_WHOLE = uri_text scheme auth host port path frag post"
    using prot by (simp add: add_uri_to_string_def wants_whole wants_whole(15) [simplified] uri_text_def us)
  show "field u (u_host u) (hostlen u) = host"
    using dh(1) by (simp add: field_def us)
  show "u_protocol u = get_protocol up scheme"
    by (rule us)
qed

text \<open>C1: Parsing a URI composed of a scheme with a server, user information, host, port, path,
  fragment and post data succeeds, finds the protocol of the scheme, and gives a structure from
  which the composition of all components is the same string again.\<close>

theorem parse_uri_roundtrip:
  assumes "wf_uri up scheme auth host port path frag post"
  shows "\<exists>u. parse_uri up (uri_text scheme auth host port path frag post) = (URI_ERRNO_OK, u) \<and>
     u_protocol u = get_protocol up scheme \<and> field u (u_host u) (hostlen u) = host \<and> field u (u_data u) (datalen u) = path \<and>
     add_uri_to_string idn u URI_WHOLE = uri_text scheme auth host port path frag post"
  using parse_uri_parsed [OF assms] add_uri_parsed [OF assms] by blast

theorem parse_uri_roundtrip_witness:
  "\<exists>u. parse_uri (\<lambda>_. False) ''http://me:pw@elinks.cz:80/a?b#top'' = (URI_ERRNO_OK, u) \<and>
     add_uri_to_string (\<lambda>_. None) u URI_WHOLE = ''http://me:pw@elinks.cz:80/a?b#top''"
proof -
  have "wf_scheme (\<lambda>_. False) ''http''"
    by code_simp
  moreover have "wf_port (Some ''80'')"
    by (simp add: c_isdigit_def dec_val_def digit_val_def)
  ultimately have "wf_uri (\<lambda>_. False) ''http'' (Some (''me'', Some ''pw'')) ''elinks.cz'' (Some ''80'') ''a?b'' (Some ''top'') None"
    by (simp add: wf_uri_def no_chars_def wf_frag_def POST_CHAR_def uri_text_def)
  from parse_uri_roundtrip [OF this, of "\<lambda>_. None"] show ?thesis
    by (simp add: uri_text_def) blast
qed

section \<open>Ports\<close>

text \<open>A port number beyond 32 bits is accepted when its low 32 bits form a valid port, and these
  are then the port of the URI: the value \<^verbatim>\<open>strtol\<close> returns is cut down to an \<^verbatim>\<open>int\<close> before it is
  checked.\<close>

theorem parse_port_wraps:
  assumes "list_all c_isdigit ds" "length ds < 256" "ds \<noteq> []" "dec_val ds = 2 ^ 32 * k + n" "0 \<le> n" "n \<le> 65535" "dec_val ds < 2 ^ 63"
    and "drop h (u_string u) = CHR '':'' # ds @ CHR ''/'' # r"
  shows "\<exists>u' h'. parse_port u h = Inr (u', h') \<and> get_uri_port u' = n"
proof -
  note d = rd_at [OF assms(8)] drop_step [OF assms(8)]
  have n: "strcspn (u_string u) (h + 1) ''/'' = length ds"
    using strcspn_at [OF d(2), of "''/''"] digits_no_slash [OF assms(1)] by simp
  have "\<not> c_isdigit CHR ''/''"
    by (simp add: c_isdigit_def)
  then have st: "strtol10 (drop (h + 1) (u_string u)) = (dec_val ds, length ds, False)"
    unfolding d(2) using assms by (intro strtol10_digits) auto
  have "int32 (dec_val ds) = n"
  proof -
    have "(2 ^ 32 * k + n + 2 ^ 31) mod 2 ^ 32 = n + 2 ^ 31"
      using assms(5,6) mod_mult_self2 [of "n + 2 ^ 31" "2 ^ 32" k] by (simp add: add.assoc)
    then show ?thesis
      by (simp add: int32_def assms(4))
  qed
  moreover have "len8 (length ds) = length ds"
    using assms(2) by (simp add: len8_def)
  ultimately show ?thesis
    using d n st assms(1,3,5,6) by (simp add: parse_port_def Let_def uri_port_is_valid_def get_uri_port_def)
qed

theorem parse_port_wraps_witness:
  "\<exists>u' h'. parse_port (uri_zero\<lparr>u_string := '':4294967376/''\<rparr>) 0 = Inr (u', h') \<and> get_uri_port u' = 80"
proof -
  have "list_all c_isdigit ''4294967376''" "dec_val ''4294967376'' = 2 ^ 32 * 1 + 80"
    by (simp_all add: c_isdigit_def dec_val_def digit_val_def)
  from parse_port_wraps [OF this(1) _ _ this(2), of 0 "uri_zero\<lparr>u_string := '':4294967376/''\<rparr>" "[]"] this(2) show ?thesis
    by simp
qed

section \<open>Comparison\<close>

text \<open>What a component compares.\<close>

definition component :: "string \<Rightarrow> nat option \<Rightarrow> nat \<Rightarrow> (nat \<times> string) option" where
  "component s off n = (case off of None \<Rightarrow> None | Some i \<Rightarrow> Some (n, take n (drop i s)))"

definition part :: "bool \<Rightarrow> string \<Rightarrow> nat option \<Rightarrow> nat \<Rightarrow> (nat \<times> (nat \<times> string) option) option" where
  "part w s off n = (if w then Some (n, component s off n) else None)"

lemma part_eq:
  "part w sa a alen = part w sb b blen \<longleftrightarrow> \<not> w \<or> compare_component sa a alen sb b blen"
  by (auto simp: part_def compare_component_def component_def split: option.splits)

definition uri_key where
  "uri_key c u =
     (if wants c URI_PROTOCOL then Some (u_protocol u) else None,
      if wants c URI_IP_FAMILY then Some (ip_family u) else None,
      part (wants c URI_USER) (u_string u) (u_user u) (userlen u),
      part (wants c URI_PASSWORD) (u_string u) (u_password u) (passwordlen u),
      part (wants c URI_HOST) (u_string u) (u_host u) (hostlen u),
      part (wants c URI_PORT) (u_string u) (u_port u) (portlen u),
      part (wants c URI_DATA) (u_string u) (u_data u) (datalen u),
      part (wants c URI_FRAGMENT) (u_string u) (u_fragment u) (fragmentlen u),
      part (wants c URI_POST) (u_string u) (u_post u) (postlen u))"

lemma compare_uri_key: "c \<noteq> 0 \<Longrightarrow> compare_uri False a b c \<longleftrightarrow> uri_key c a = uri_key c b"
  by (simp add: compare_uri_def uri_key_def part_eq)

text \<open>For every non-empty choice of components, being equal in them is an equivalence relation on
  URIs.\<close>

theorem compare_uri_equivalence:
  "components \<noteq> 0 \<Longrightarrow> equivp (\<lambda>a b. compare_uri False a b components)"
  by (intro equivpI reflpI sympI transpI) (simp_all add: compare_uri_key)

theorem compare_uri_equivalence_witness: "equivp (\<lambda>a b. compare_uri False a b URI_BASE)"
proof -
  have "URI_BASE \<noteq> 0"
    by (simp add: URI_BASE_def URI_RARE_def URI_SPECIAL_def uri_bits)
  then show ?thesis
    by (rule compare_uri_equivalence)
qed

end
