(* ===== verification/UriPath.thy ===== *)
theory UriPath
  imports Uri
begin

text \<open>
  \<^verbatim>\<open>elinks/src/protocol/uri.c\<close>, continued: the escaping of URI text and the normalisation of the
  path. \<^verbatim>\<open>normalize_uri\<close> works in place with two pointers into one NUL-terminated buffer;
  \<open>normalize_loop\<close> is that loop on a buffer whose list includes the NUL, and \<open>norm_path\<close> is
  the reference it is proved equal to.
\<close>

section \<open>Escaping\<close>

definition safe_char :: "char \<Rightarrow> bool" where
  "safe_char c \<longleftrightarrow> isident c \<or> c = CHR ''.'' \<or> c = CHR ''!'' \<or> c = CHR ''~'' \<or> c = CHR ''*'' \<or> c = CHR 0x27 \<or>
     c = CHR ''('' \<or> c = CHR '')''"

definition encode_char :: "bool \<Rightarrow> char \<Rightarrow> string" where
  "encode_char convert_slashes c =
     (if safe_char c \<or> (\<not> convert_slashes \<and> c = CHR ''/'') then [c]
      else [CHR ''%'', hx (ccode c div 16), hx (ccode c mod 16)])"

text \<open>A negative length stands for the whole name.\<close>

definition encode_uri_string :: "string \<Rightarrow> int \<Rightarrow> bool \<Rightarrow> string" where
  "encode_uri_string name namelen convert_slashes =
     concat (map (encode_char convert_slashes) (if namelen < 0 then name else take (nat namelen) name))"

fun decode_uri :: "string \<Rightarrow> string" where
  "decode_uri [] = []"
| "decode_uri (c # src) =
     (if c = CHR ''%'' \<and> unhx (rd src 0) \<ge> 0 \<and> unhx (rd src 1) \<ge> 0 \<and> unhx (rd src 0) * 16 + unhx (rd src 1) \<noteq> 0
      then char_of (nat (unhx (rd src 0) * 16 + unhx (rd src 1))) # decode_uri (drop 2 src)
      else c # decode_uri src)"

definition c_isprint :: "char \<Rightarrow> bool" where
  "c_isprint c \<longleftrightarrow> 32 \<le> ccode c \<and> ccode c < 127"

definition decode_uri_for_display :: "string \<Rightarrow> string" where
  "decode_uri_for_display src = map (\<lambda>c. if \<not> c_isprint c then CHR ''*'' else c) (decode_uri src)"

section \<open>Normalising\<close>

text \<open>Reading the buffer, which ends with its NUL.\<close>

definition rdb :: "char list \<Rightarrow> nat \<Rightarrow> char" where
  "rdb buf i = (if i < length buf then buf ! i else NUL)"

text \<open>Moving \<^verbatim>\<open>dest\<close> back to the last separator.\<close>

fun back_sep :: "(char \<Rightarrow> bool) \<Rightarrow> char list \<Rightarrow> nat \<Rightarrow> nat \<Rightarrow> nat" where
  "back_sep sep buf path 0 = 0"
| "back_sep sep buf path (Suc d) =
     (if Suc d > path then (if sep (rdb buf d) then d else back_sep sep buf path d) else Suc d)"

text \<open>\<^verbatim>\<open>memmove (dest, src, strlen (src) + 1)\<close>.\<close>

definition move_rest :: "char list \<Rightarrow> nat \<Rightarrow> nat \<Rightarrow> char list" where
  "move_rest buf dest src =
     (let rest = takeWhile (\<lambda>c. c \<noteq> NUL) (drop src buf) @ [NUL]
      in take dest buf @ rest @ drop (dest + length rest) buf)"

text \<open>The loop. \<^verbatim>\<open>src\<close> cannot run past the NUL; the guard says so for termination.\<close>

function normalize_loop :: "(char \<Rightarrow> bool) \<Rightarrow> nat \<Rightarrow> char list \<Rightarrow> nat \<Rightarrow> nat \<Rightarrow> char list" where
  "normalize_loop sep path buf dest src =
     (if rdb buf dest \<noteq> NUL \<and> src < length buf then
        let s0 = rdb buf src; s1 = rdb buf (src + 1); s2 = rdb buf (src + 2); s3 = rdb buf (src + 3);
            copy = normalize_loop sep path (buf[dest := s0]) (if s0 \<noteq> NUL then dest + 1 else dest) (src + 1)
        in if end_of_dir s0 then move_rest buf dest src
           else if \<not> sep s0 then copy
           else if s1 = CHR ''.'' then
             if s2 = NUL then buf[dest := s0, dest + 1 := NUL]
             else if sep s2 then normalize_loop sep path buf dest (src + 2)
             else if s2 = CHR ''.'' \<and> (sep s3 \<or> s3 = NUL) then
               let dest = back_sep sep buf path (if dest > path then dest - 1 else dest) in
               if s3 = NUL then buf[dest := s0, dest + 1 := NUL]
               else normalize_loop sep path buf dest (src + 3)
             else copy
           else if sep s1 then normalize_loop sep path buf dest (src + 1)
           else copy
      else buf)"
  by auto
termination
  by (relation "measure (\<lambda>(sep, path, buf, dest, src). length buf - src)") auto

text \<open>The loop applied to a string, from an offset on.\<close>

definition normalize_from :: "protocol \<Rightarrow> nat \<Rightarrow> string \<Rightarrow> string" where
  "normalize_from p path s = takeWhile (\<lambda>c. c \<noteq> NUL) (normalize_loop (is_uri_dir_sep p) path (s @ [NUL]) path path)"

text \<open>\<^verbatim>\<open>convert_to_lowercase\<close> of a part of the string.\<close>

definition lower_range :: "string \<Rightarrow> nat \<Rightarrow> nat \<Rightarrow> string" where
  "lower_range s i n = take i s @ map c_tolower (take n (drop i s)) @ drop (i + n) s"

definition lower_uri :: "uri \<Rightarrow> string" where
  "lower_uri u =
     (let s = lower_range (u_string u) 0 (protocollen u) in
      case u_host u of
        Some h \<Rightarrow> if hostlen u \<noteq> 0 then lower_range s h (hostlen u) else s
      | None \<Rightarrow> s)"

definition data_off :: "uri \<Rightarrow> nat" where
  "data_off u = (case u_data u of Some d \<Rightarrow> d | None \<Rightarrow> 0)"

definition normalize_parsed :: "uri \<Rightarrow> string" where
  "normalize_parsed u =
     (if get_protocol_free_syntax (u_protocol u) then lower_uri u
      else
        let need_slash = (if u_protocol u \<noteq> PROTOCOL_UNKNOWN \<and> get_protocol_need_slash_after_host (u_protocol u) then 1 else 0)
        in normalize_from (u_protocol u) (data_off u - need_slash) (lower_uri u))"

lemma length_lower_range [simp]: "length (lower_range s i n) = length s"
  by (simp add: lower_range_def min_def)

lemma length_lower_uri [simp]: "length (lower_uri u) = length (u_string u)"
  by (simp add: lower_uri_def Let_def split: option.split)

text \<open>
  The outer loop follows a proxy URI to the URI it holds, which begins at the data. The data of a
  proxy URI lies behind the scheme, so the rest gets shorter; the guard says so for
  termination.
\<close>

function normalize_uri_reparse :: "(string \<Rightarrow> bool) \<Rightarrow> string \<Rightarrow> string" where
  "normalize_uri_reparse user_program s =
     (let r = parse_uri user_program s; u = snd r in
      if fst r \<noteq> URI_ERRNO_OK then s
      else if u_protocol u = PROTOCOL_PROXY \<and> 0 < data_off u \<and> s \<noteq> []
      then take (data_off u) (lower_uri u) @ normalize_uri_reparse user_program (drop (data_off u) (lower_uri u))
      else normalize_parsed u)"
  by auto
termination
proof (relation "measure (\<lambda>(up, s). length s)")
  fix up s x xa
  assume "x = parse_uri up s" "xa = snd x" "u_protocol xa = PROTOCOL_PROXY \<and> 0 < data_off xa \<and> s \<noteq> []"
  then show "((up, drop (data_off xa) (lower_uri xa)), up, s) \<in> measure (\<lambda>(up, s). length s)"
    using parse_uri_ok [of up s] by (auto simp: less_diff_conv)
qed simp

definition normalize_uri :: "(string \<Rightarrow> bool) \<Rightarrow> uri option \<Rightarrow> string \<Rightarrow> string" where
  "normalize_uri user_program pu uristring =
     (case pu of
        None \<Rightarrow> normalize_uri_reparse user_program uristring
      | Some u \<Rightarrow>
          if u_protocol u = PROTOCOL_PROXY
          then take (data_off u) (lower_uri u) @ normalize_uri_reparse user_program (drop (data_off u) (lower_uri u))
          else normalize_parsed u)"

section \<open>Escaping is undone by unescaping\<close>

lemma unhx_hx [simp]: "a < 16 \<Longrightarrow> unhx (hx a) = int a"
  by (auto simp: hx_def unhx_def c_isdigit_def ccode_def)

lemma decode_encode_char:
  assumes "c \<noteq> NUL"
  shows "decode_uri (encode_char cs c @ r) = c # decode_uri r"
proof (cases "safe_char c \<or> (\<not> cs \<and> c = CHR ''/'')")
  case True
  have "\<not> safe_char CHR ''%''"
    by (simp add: safe_char_def isident_def isasciialnum_def isasciialpha_def c_isupper_def c_islower_def c_isdigit_def ccode_def)
  then show ?thesis
    using True by (auto simp: encode_char_def)
next
  case False
  have h: "ccode c div 16 < 16" "ccode c mod 16 < 16"
    using ccode_lt [of c] by (auto simp: div_less_iff_less_mult)
  have v: "int (ccode c div 16) * 16 + int (ccode c mod 16) = int (ccode c)"
    by (metis div_mult_mod_eq of_nat_add of_nat_mult of_nat_numeral)
  have "ccode c \<noteq> 0"
    using assms ccode_eq [of c NUL] by (simp add: ccode_def NUL_def)
  then show ?thesis
    using False h v by (simp add: encode_char_def)
qed

lemma decode_encode: "NUL \<notin> set name \<Longrightarrow> decode_uri (concat (map (encode_char cs) name)) = name"
  by (induction name) (auto simp: decode_encode_char)

text \<open>C36: Unescaping an escaped name gives the name.\<close>

theorem uri_escape_roundtrip:
  "NUL \<notin> set name \<Longrightarrow> decode_uri (encode_uri_string name (-1) convert_slashes) = name"
  by (simp add: encode_uri_string_def decode_encode)

theorem uri_escape_roundtrip_witness:
  "decode_uri (encode_uri_string ''a b%/~'' (-1) True) = ''a b%/~'' \<and> encode_uri_string ''a b'' (-1) True = ''a%20b''"
proof -
  have "encode_uri_string ''a b'' (-1) True = ''a%20b''"
    by code_simp
  then show ?thesis
    using uri_escape_roundtrip [of "''a b%/~''" True] by (simp add: NUL_def)
qed

section \<open>The reference normalisation\<close>

text \<open>The text written so far is kept in reverse.\<close>

definition pop_dir :: "(char \<Rightarrow> bool) \<Rightarrow> string \<Rightarrow> string" where
  "pop_dir sep out = drop 1 (dropWhile (\<lambda>c. \<not> sep c) (drop 1 out))"

text \<open>What follows the separator at the head of the source.\<close>

fun norm_path :: "(char \<Rightarrow> bool) \<Rightarrow> string \<Rightarrow> string \<Rightarrow> string" where
  "norm_path sep out [] = rev out"
| "norm_path sep out (c # cs) =
     (if end_of_dir c then rev out @ c # cs
      else if \<not> sep c then norm_path sep (c # out) cs
      else if rd cs 0 = CHR ''.'' then
        if rd cs 1 = NUL then rev out @ [c]
        else if sep (rd cs 1) then norm_path sep out (drop 1 cs)
        else if rd cs 1 = CHR ''.'' \<and> (sep (rd cs 2) \<or> rd cs 2 = NUL) then
          if rd cs 2 = NUL then rev (pop_dir sep out) @ [c]
          else norm_path sep (pop_dir sep out) (drop 2 cs)
        else norm_path sep (c # out) cs
      else if sep (rd cs 0) then norm_path sep out cs
      else norm_path sep (c # out) cs)"

declare normalize_loop.simps [simp del]

text \<open>The buffer holds what precedes the path, the text written, bytes already read, and the source.\<close>

definition layout :: "string \<Rightarrow> string \<Rightarrow> string \<Rightarrow> string \<Rightarrow> char list" where
  "layout pre out mid rest = pre @ rev out @ mid @ rest @ [NUL]"

lemma rdb_app: "rdb (xs @ ys) (length xs + i) = rdb ys i"
  by (simp add: rdb_def nth_append)

lemma rdb_src: "rdb (layout pre out mid rest) (length pre + length out + length mid + i) = rd rest i"
proof -
  have "rdb (layout pre out mid rest) (length pre + length out + length mid + i) = rdb (rest @ [NUL]) i"
    using rdb_app [of "pre @ rev out @ mid" "rest @ [NUL]" i] by (simp add: layout_def add.assoc)
  also have "\<dots> = rd rest i"
    by (auto simp: rdb_def rd_def nth_append less_Suc_eq)
  finally show ?thesis .
qed

lemma rdb_dest: "rdb (layout pre out mid rest) (length pre + length out) = rd (mid @ rest) 0"
  using rdb_src [of pre out "[]" "mid @ rest" 0] by (simp add: layout_def)

lemma back_sep_pop:
  "back_sep sep (pre @ rev o1 @ w) (length pre) (length pre + length o1) =
     length pre + length (drop 1 (dropWhile (\<lambda>c. \<not> sep c) o1))"
proof (induction o1 arbitrary: w)
  case Nil
  show ?case
    by (cases "length pre") simp_all
next
  case (Cons x o1)
  have "rdb (pre @ rev (x # o1) @ w) (length pre + length o1) = x"
    using rdb_app [of "pre @ rev o1" "x # w" 0] by (simp add: rdb_def add.assoc)
  then show ?case
    using Cons [of "x # w"] by simp
qed

lemma pop_dir_back:
  "back_sep sep (layout pre out mid rest) (length pre)
     (if length pre + length out > length pre then length pre + length out - 1 else length pre + length out) =
     length pre + length (pop_dir sep out)"
proof (cases out)
  case Nil
  then show ?thesis
    using back_sep_pop [of sep pre "[]"] by (simp add: pop_dir_def layout_def)
next
  case (Cons x o1)
  then show ?thesis
    using back_sep_pop [of sep pre o1 "x # mid @ rest @ [NUL]"] by (simp add: pop_dir_def layout_def)
qed

lemma pop_dir_suffix: "\<exists>q. out = q @ pop_dir sep out"
proof -
  have "\<exists>q. out = q @ drop 1 (dropWhile P (drop 1 out))" for P
    by (metis append.assoc append_take_drop_id takeWhile_dropWhile_id)
  then show ?thesis
    by (simp add: pop_dir_def)
qed

lemma layout_pop:
  assumes "NUL \<notin> set (out @ mid)"
  shows "\<exists>mid'. layout pre out mid rest = layout pre (pop_dir sep out) mid' rest \<and> NUL \<notin> set mid' \<and> set (pop_dir sep out) \<subseteq> set out \<and>
     length out + length mid = length (pop_dir sep out) + length mid'"
proof -
  obtain q where q: "out = q @ pop_dir sep out"
    using pop_dir_suffix by blast
  then have "rev out = rev (pop_dir sep out) @ rev q" "set out = set q \<union> set (pop_dir sep out)" "length out = length q + length (pop_dir sep out)"
    by (metis rev_append, metis set_append, metis length_append)
  then show ?thesis
    using assms by (intro exI [of _ "rev q @ mid"]) (auto simp: layout_def)
qed

text \<open>What the string is after the loop put a NUL behind the text written.\<close>

lemma cut_at: "NUL \<notin> set xs \<Longrightarrow> takeWhile (\<lambda>c. c \<noteq> NUL) (xs @ NUL # r) = xs"
  by (induction xs) auto

lemma write_end:
  assumes "NUL \<notin> set (pre @ out)" "c \<noteq> NUL" "mid @ rest \<noteq> []"
  shows "takeWhile (\<lambda>c. c \<noteq> NUL) ((layout pre out mid rest)[length pre + length out := c, length pre + length out + 1 := NUL]) =
     pre @ rev out @ [c]"
proof -
  obtain x w where w: "mid @ rest = x # w"
    using assms(3) by (cases "mid @ rest") auto
  have "layout pre out mid rest = (pre @ rev out) @ x # w @ [NUL]"
    using w by (simp add: layout_def)
  also have "\<dots> [length pre + length out := c] = (pre @ rev out) @ c # w @ [NUL]"
    by (simp add: list_update_append)
  finally have "(layout pre out mid rest)[length pre + length out := c, length pre + length out + 1 := NUL] =
      (pre @ rev out @ [c]) @ (w @ [NUL])[0 := NUL]"
    by (simp add: list_update_append)
  moreover obtain z where "(w @ [NUL])[0 := NUL] = NUL # z"
    by (cases w) auto
  ultimately show ?thesis
    using assms(1,2) cut_at [of "pre @ rev out @ [c]" z] by simp
qed

lemma write_copy:
  "c \<noteq> NUL \<Longrightarrow> \<exists>mid'. (layout pre out mid (c # cs))[length pre + length out := c] = layout pre (c # out) mid' cs \<and>
     length mid' = length mid \<and> set mid' \<subseteq> insert c (set mid)"
proof (intro exI conjI)
  show "(layout pre out mid (c # cs))[length pre + length out := c] = layout pre (c # out) (drop 1 (mid @ [c])) cs"
    by (cases mid) (simp_all add: layout_def list_update_append)
  show "length (drop 1 (mid @ [c])) = length mid"
    by simp
  show "set (drop 1 (mid @ [c])) \<subseteq> insert c (set mid)"
    by (cases mid) auto
qed

lemma move_end:
  assumes "NUL \<notin> set (pre @ out @ rest)"
  shows "takeWhile (\<lambda>c. c \<noteq> NUL)
      (move_rest (layout pre out mid rest) (length pre + length out) (length pre + length out + length mid)) = pre @ rev out @ rest"
proof -
  have "drop (length pre + length out + length mid) (layout pre out mid rest) = rest @ [NUL]"
    by (simp add: layout_def)
  moreover have "take (length pre + length out) (layout pre out mid rest) = pre @ rev out"
    by (simp add: layout_def)
  ultimately show ?thesis
    using assms cut_at [of "pre @ rev out @ rest"] by (simp add: move_rest_def Let_def cut_at)
qed


text \<open>The loop computes the reference.\<close>

lemma loop_copy:
  assumes IH: "\<And>mid. NUL \<notin> set mid \<Longrightarrow> takeWhile (\<lambda>c. c \<noteq> NUL)
      (normalize_loop sep (length pre) (layout pre (c # out) mid cs) (length pre + length (c # out)) (length pre + length (c # out) + length mid)) = r"
    and "c \<noteq> NUL" "NUL \<notin> set mid"
  shows "takeWhile (\<lambda>c. c \<noteq> NUL)
      (normalize_loop sep (length pre) ((layout pre out mid (c # cs))[length pre + length out := c])
         (length pre + length out + 1) (length pre + length out + length mid + 1)) = r"
proof -
  obtain mid' where m: "(layout pre out mid (c # cs))[length pre + length out := c] = layout pre (c # out) mid' cs"
      "length mid' = length mid" "set mid' \<subseteq> insert c (set mid)"
    using write_copy [OF assms(2)] by blast
  have "NUL \<notin> set mid'"
    using m(3) assms(2,3) by auto
  from IH [OF this] show ?thesis
    using m by (simp add: add.assoc)
qed

lemma loop_skip:
  assumes IH: "\<And>mid. NUL \<notin> set mid \<Longrightarrow> takeWhile (\<lambda>c. c \<noteq> NUL)
      (normalize_loop sep (length pre) (layout pre out mid (drop k rest)) (length pre + length out) (length pre + length out + length mid)) = r"
    and "NUL \<notin> set mid" "NUL \<notin> set rest" "k \<le> length rest"
  shows "takeWhile (\<lambda>c. c \<noteq> NUL)
      (normalize_loop sep (length pre) (layout pre out mid rest) (length pre + length out) (length pre + length out + length mid + k)) = r"
proof -
  have "layout pre out mid rest = layout pre out (mid @ take k rest) (drop k rest)"
    by (simp add: layout_def)
  moreover have "NUL \<notin> set (mid @ take k rest)"
    using assms(2,3) by (auto dest: in_set_takeD)
  ultimately show ?thesis
    using IH [of "mid @ take k rest"] assms(4) by (simp add: add.assoc)
qed

lemma loop_pop:
  assumes IH: "\<And>mid. NUL \<notin> set mid \<Longrightarrow> takeWhile (\<lambda>c. c \<noteq> NUL)
      (normalize_loop sep (length pre) (layout pre (pop_dir sep out) mid (drop k rest)) (length pre + length (pop_dir sep out))
        (length pre + length (pop_dir sep out) + length mid)) = r"
    and "NUL \<notin> set mid" "NUL \<notin> set rest" "k \<le> length rest" "NUL \<notin> set out"
  shows "takeWhile (\<lambda>c. c \<noteq> NUL)
      (normalize_loop sep (length pre) (layout pre out mid rest) (length pre + length (pop_dir sep out)) (length pre + length out + length mid + k)) = r"
proof -
  obtain mid' where m: "layout pre out mid rest = layout pre (pop_dir sep out) mid' rest" "NUL \<notin> set mid'"
      "length out + length mid = length (pop_dir sep out) + length mid'"
    using layout_pop [of out mid pre rest sep] assms(2,5) by auto
  have "length pre + length out + length mid + k = length pre + length (pop_dir sep out) + length mid' + k"
    using m(3) by simp
  moreover have "takeWhile (\<lambda>c. c \<noteq> NUL)
      (normalize_loop sep (length pre) (layout pre (pop_dir sep out) mid' rest) (length pre + length (pop_dir sep out))
        (length pre + length (pop_dir sep out) + length mid' + k)) = r"
    using m(2) assms(3,4) by (intro loop_skip IH)
  ultimately show ?thesis
    using m(1) by (simp only:)
qed

lemma loop_end:
  assumes "\<not> sep NUL" "NUL \<notin> set pre" "NUL \<notin> set out" "NUL \<notin> set mid"
  shows "takeWhile (\<lambda>c. c \<noteq> NUL)
       (normalize_loop sep (length pre) (layout pre out mid []) (length pre + length out) (length pre + length out + length mid)) =
     pre @ rev out"
proof (cases mid)
  case Nil
  have "normalize_loop sep (length pre) (layout pre out mid []) (length pre + length out) (length pre + length out + length mid) = layout pre out mid []"
    using rdb_dest [of pre out mid "[]"] Nil by (subst normalize_loop.simps) simp
  then show ?thesis
    using assms cut_at [of "pre @ rev out" "[]"] by (simp add: layout_def Nil)
next
  case (Cons m ms)
  let ?b = "layout pre out mid []" and ?d = "length pre + length out"
  have e: "\<not> end_of_dir NUL"
    by (simp add: end_of_dir_def NUL_def POST_CHAR_def)
  have s0: "rdb ?b (?d + length mid) = NUL"
    using rdb_src [of pre out mid "[]" 0] by simp
  have upd: "?b[?d := NUL] = (pre @ rev out) @ NUL # ms @ [NUL]"
    by (simp add: layout_def Cons list_update_append)
  have "rdb (?b[?d := NUL]) ?d = NUL"
    unfolding upd using rdb_app [of "pre @ rev out" "NUL # ms @ [NUL]" 0] by (simp add: rdb_def)
  then have stop: "normalize_loop sep (length pre) (?b[?d := NUL]) ?d (?d + length mid + 1) = ?b[?d := NUL]"
    by (subst normalize_loop.simps) simp
  have live: "rdb ?b ?d \<noteq> NUL" "?d + length mid < length ?b"
    using rdb_dest [of pre out mid "[]"] Cons assms(4) by (auto simp: layout_def)
  have "normalize_loop sep (length pre) ?b ?d (?d + length mid) = ?b[?d := NUL]"
    using live s0 e assms(1) stop by (simp add: normalize_loop.simps [of sep "length pre" ?b ?d "?d + length mid"] Let_def)
  then show ?thesis
    unfolding upd using assms(2,3) cut_at [of "pre @ rev out" "ms @ [NUL]"] by simp
qed

lemma normalize_loop_norm_path:
  assumes "NUL \<notin> set pre"
  shows "\<not> sep NUL \<Longrightarrow> NUL \<notin> set out \<Longrightarrow> NUL \<notin> set mid \<Longrightarrow> NUL \<notin> set rest \<Longrightarrow>
     takeWhile (\<lambda>c. c \<noteq> NUL)
       (normalize_loop sep (length pre) (layout pre out mid rest) (length pre + length out) (length pre + length out + length mid)) =
     pre @ norm_path sep out rest"
proof (induction sep out rest arbitrary: mid rule: norm_path.induct)
  case (1 sep out)
  then show ?case
    using loop_end [of sep pre out mid] assms by simp
next
  case (2 sep out c cs)
  let ?b = "layout pre out mid (c # cs)"
  let ?d = "length pre + length out"
  let ?s = "?d + length mid"
  note prems = 2(7-10)
  have c: "c \<noteq> NUL" "NUL \<notin> set cs"
    using prems by auto
  have "rd (mid @ c # cs) 0 \<noteq> NUL"
    using c prems by (cases mid) auto
  then have live: "rdb ?b ?d \<noteq> NUL" "?s < length ?b"
    by (simp_all add: rdb_dest, simp add: layout_def)
  have rds: "rdb ?b ?s = c" "rdb ?b (?s + 1) = rd cs 0" "rdb ?b (?s + 2) = rd cs 1" "rdb ?b (?s + 3) = rd cs 2"
    using rdb_src [of pre out mid "c # cs" 0] rdb_src [of pre out mid "c # cs" 1] rdb_src [of pre out mid "c # cs" 2]
      rdb_src [of pre out mid "c # cs" 3] by (simp_all add: numeral_eq_Suc)
  note unf = normalize_loop.simps [of sep "length pre" ?b ?d ?s, unfolded Let_def rds if_P [OF conjI [OF live]]]
  have len: "1 \<le> length cs" if "rd cs 0 \<noteq> NUL"
    using rd_nonNUL [OF that] by linarith
  have len2: "2 \<le> length cs" if "rd cs 1 \<noteq> NUL"
    using rd_nonNUL [OF that] by linarith
  have copy: "takeWhile (\<lambda>c. c \<noteq> NUL) (normalize_loop sep (length pre) (?b[?d := c]) (if c \<noteq> NUL then ?d + 1 else ?d) (?s + 1)) = r"
    if "\<And>mid. NUL \<notin> set mid \<Longrightarrow> takeWhile (\<lambda>c. c \<noteq> NUL)
      (normalize_loop sep (length pre) (layout pre (c # out) mid cs) (length pre + length (c # out)) (length pre + length (c # out) + length mid)) = r" for r
    using loop_copy [OF that c(1) prems(3)] c(1) by simp
  have nn: "NUL \<notin> set (c # out)" "NUL \<notin> set (pop_dir sep out)" "NUL \<notin> set (drop k cs)" for k
    using prems(2) c pop_dir_suffix [of out sep] by (auto dest: in_set_dropD) (metis Un_iff set_append)
  show ?case
  proof (cases "end_of_dir c")
    case True
    then show ?thesis
      using unf move_end [of pre out "c # cs" mid] assms prems by simp
  next
    case e: False
    show ?thesis
    proof (cases "sep c")
      case False
      then show ?thesis
        using copy [OF 2(1) [OF e False prems(1) nn(1) _ c(2)]] e by (simp add: unf)
    next
      case sc: True
      show ?thesis
      proof (cases "rd cs 0 = CHR ''.''")
        case dot: True
        then have "CHR ''.'' \<noteq> NUL" "rd cs 0 \<noteq> NUL"
          by (simp_all add: NUL_def)
        note l1 = len [OF this(2)]
        consider (last) "rd cs 1 = NUL" | (self) "rd cs 1 \<noteq> NUL" "sep (rd cs 1)"
          | (up_last) "rd cs 1 = CHR ''.''" "\<not> sep (rd cs 1)" "rd cs 2 = NUL"
          | (up) "rd cs 1 = CHR ''.''" "\<not> sep (rd cs 1)" "sep (rd cs 2)" "rd cs 2 \<noteq> NUL"
          | (other) "rd cs 1 \<noteq> NUL" "\<not> sep (rd cs 1)" "\<not> (rd cs 1 = CHR ''.'' \<and> (sep (rd cs 2) \<or> rd cs 2 = NUL))"
          by blast
        then show ?thesis
        proof cases
          case last
          then show ?thesis
            using dot e sc write_end [of pre out c mid "c # cs"] assms prems(2) c(1) by (simp add: unf)
        next
          case self
          have "takeWhile (\<lambda>c. c \<noteq> NUL) (normalize_loop sep (length pre) ?b ?d (?s + 2)) = pre @ norm_path sep out (drop 1 cs)"
          proof (rule loop_skip)
            show "takeWhile (\<lambda>c. c \<noteq> NUL) (normalize_loop sep (length pre) (layout pre out m (drop 2 (c # cs))) ?d (?d + length m)) =
                pre @ norm_path sep out (drop 1 cs)" if "NUL \<notin> set m" for m
              using 2(2) [OF e _ dot self prems(1,2) that nn(3)] sc by (simp add: drop_Suc numeral_eq_Suc)
          qed (use prems l1 in auto)
          then show ?thesis
            using dot e sc self by (simp add: unf)
        next
          case up_last
          then have "rd cs 1 \<noteq> NUL"
            by (simp add: NUL_def)
          then show ?thesis
            using dot e sc up_last write_end [of pre "pop_dir sep out" c _ "c # cs"] assms nn c(1) pop_dir_back [of sep pre out mid "c # cs"]
              layout_pop [of out mid pre "c # cs" sep] prems(2,3) by (auto simp: unf)
        next
          case up
          then have n1: "rd cs 1 \<noteq> NUL"
            by (simp add: NUL_def)
          have "takeWhile (\<lambda>c. c \<noteq> NUL) (normalize_loop sep (length pre) ?b (length pre + length (pop_dir sep out)) (?s + 3)) =
              pre @ norm_path sep (pop_dir sep out) (drop 2 cs)"
          proof (rule loop_pop)
            show "takeWhile (\<lambda>c. c \<noteq> NUL) (normalize_loop sep (length pre) (layout pre (pop_dir sep out) m (drop 3 (c # cs)))
                (length pre + length (pop_dir sep out)) (length pre + length (pop_dir sep out) + length m)) =
                pre @ norm_path sep (pop_dir sep out) (drop 2 cs)" if "NUL \<notin> set m" for m
              using 2(3) [OF e _ dot n1 up(2) _ up(4) prems(1) nn(2) that nn(3)] sc up by (simp add: drop_Suc numeral_eq_Suc)
          qed (use prems len2 [OF n1] in auto)
          then show ?thesis
            using dot e sc up n1 pop_dir_back [of sep pre out mid "c # cs"] by (simp add: unf)
        next
          case other
          then show ?thesis
            using copy [OF 2(4) [OF e _ dot other prems(1) nn(1) _ c(2)]] e sc dot by (auto simp: unf)
        qed
      next
        case nodot: False
        show ?thesis
        proof (cases "sep (rd cs 0)")
          case True
          then have "rd cs 0 \<noteq> NUL"
            using prems(1) by auto
          note l1 = len [OF this]
          have "takeWhile (\<lambda>c. c \<noteq> NUL) (normalize_loop sep (length pre) ?b ?d (?s + 1)) = pre @ norm_path sep out cs"
          proof (rule loop_skip)
            show "takeWhile (\<lambda>c. c \<noteq> NUL) (normalize_loop sep (length pre) (layout pre out m (drop 1 (c # cs))) ?d (?d + length m)) =
                pre @ norm_path sep out cs" if "NUL \<notin> set m" for m
              using 2(5) [OF e _ nodot True prems(1,2) that c(2)] sc by simp
          qed (use prems l1 in auto)
          then show ?thesis
            using nodot e sc True by (simp add: unf)
        next
          case False
          then show ?thesis
            using copy [OF 2(6) [OF e _ nodot False prems(1) nn(1) _ c(2)]] e sc nodot by (simp add: unf)
        qed
      qed
    qed
  qed
qed

lemma is_uri_dir_sep_eq: "is_uri_dir_sep p c \<longleftrightarrow> c = CHR ''/''"
  by (simp add: is_uri_dir_sep_def dir_sep_def)

lemma normalize_from_norm_path:
  assumes "NUL \<notin> set s" "path \<le> length s"
  shows "normalize_from p path s = take path s @ norm_path (is_uri_dir_sep p) [] (drop path s)"
proof -
  have "layout (take path s) [] [] (drop path s) = s @ [NUL]"
    by (simp add: layout_def)
  moreover have "NUL \<notin> set (take path s)" "NUL \<notin> set (drop path s)" "\<not> is_uri_dir_sep p NUL"
    using assms(1) by (auto dest: in_set_takeD in_set_dropD simp: NUL_def is_uri_dir_sep_eq)
  ultimately show ?thesis
    using normalize_loop_norm_path [of "take path s" "is_uri_dir_sep p" "[]" "[]" "drop path s"] assms(2)
    by (simp add: normalize_from_def)
qed

section \<open>Normal paths\<close>

text \<open>What must not follow a separator: another one, or a directory elevator.\<close>

definition ok_after :: "(char \<Rightarrow> bool) \<Rightarrow> string \<Rightarrow> bool" where
  "ok_after sep s \<longleftrightarrow> \<not> sep (rd s 0) \<and> \<not> (rd s 0 = CHR ''.'' \<and> (rd s 1 = NUL \<or> sep (rd s 1))) \<and>
     \<not> (rd s 0 = CHR ''.'' \<and> rd s 1 = CHR ''.'' \<and> (rd s 2 = NUL \<or> sep (rd s 2)))"

text \<open>The specification of a normal path: no separator is followed by another one or by a directory elevator, up to where the path ends. An elevator is \<open>.\<close> or
  \<open>..\<close> before a separator or at the end of the whole string, as the loop of \<^verbatim>\<open>normalize_uri\<close> sees it; the ones directly before a query or fragment
  are none.\<close>

fun clean :: "(char \<Rightarrow> bool) \<Rightarrow> string \<Rightarrow> bool" where
  "clean sep [] = True"
| "clean sep (c # cs) = (end_of_dir c \<or> (sep c \<longrightarrow> ok_after sep cs) \<and> clean sep cs)"

lemma norm_path_clean_id:
  "clean sep rest \<Longrightarrow> NUL \<notin> set rest \<Longrightarrow> norm_path sep out rest = rev out @ rest"
  by (induction sep out rest rule: norm_path.induct) (auto simp: ok_after_def)

text \<open>The separators of the text written are followed properly, given what comes next.\<close>

fun okp :: "(char \<Rightarrow> bool) \<Rightarrow> string \<Rightarrow> string \<Rightarrow> bool" where
  "okp sep [] rest = True"
| "okp sep (c # b) rest = ((sep c \<longrightarrow> ok_after sep (b @ rest)) \<and> okp sep b rest)"

lemma okp_append: "okp sep (xs @ ys) rest \<longleftrightarrow> okp sep xs (ys @ rest) \<and> okp sep ys rest"
  by (induction xs) auto

lemma ok_after_swap:
  assumes "sep x" "sep y" "\<not> sep (CHR ''.'')" "\<not> sep NUL" "ok_after sep (b @ x # r)"
  shows "ok_after sep (b @ y # r')"
proof -
  consider "b = []" | b0 where "b = [b0]" | b0 b1 where "b = [b0, b1]" | b0 b1 b2 bs where "b = b0 # b1 # b2 # bs"
    by (metis neq_Nil_conv)
  then show ?thesis
    using assms by cases (auto simp: ok_after_def)
qed

lemma okp_swap:
  "sep x \<Longrightarrow> sep y \<Longrightarrow> \<not> sep (CHR ''.'') \<Longrightarrow> \<not> sep NUL \<Longrightarrow> okp sep xs (x # r) \<Longrightarrow> okp sep xs (y # r')"
  by (induction xs) (auto intro: ok_after_swap)

lemma clean_append: "okp sep xs rest \<Longrightarrow> clean sep rest \<Longrightarrow> clean sep (xs @ rest)"
  by (induction xs) auto

lemma okp_pop:
  assumes "okp sep (rev out) (x # r)" "sep x" "sep y" "\<not> sep (CHR ''.'')" "\<not> sep NUL"
  shows "okp sep (rev (pop_dir sep out)) (y # r')"
proof (cases "dropWhile (\<lambda>c. \<not> sep c) (drop 1 out)")
  case Nil
  show ?thesis
    unfolding pop_dir_def Nil by simp
next
  case (Cons z o1)
  then have z: "sep z"
    using hd_dropWhile [of "\<lambda>c. \<not> sep c" "drop 1 out"] by simp
  have "pop_dir sep out = o1"
    unfolding pop_dir_def Cons by simp
  moreover obtain q where "out = q @ z # o1"
    by (metis Cons append.assoc append_take_drop_id takeWhile_dropWhile_id)
  ultimately have "okp sep (rev (pop_dir sep out)) (z # rev q @ x # r)"
    using assms(1) by (simp add: okp_append)
  then show ?thesis
    using okp_swap z assms(3-5) by blast
qed

lemma rd_dropE: "rd cs k = c \<Longrightarrow> c \<noteq> NUL \<Longrightarrow> \<exists>r. drop k cs = c # r"
  by (metis Cons_nth_drop_Suc rd_in rd_nonNUL)

lemma norm_path_clean:
  "okp sep (rev out) rest \<Longrightarrow> NUL \<notin> set rest \<Longrightarrow> \<not> sep (CHR ''.'') \<Longrightarrow> \<not> sep NUL \<Longrightarrow> clean sep (norm_path sep out rest)"
proof (induction sep out rest rule: norm_path.induct)
  case (1 sep out)
  then show ?case
    using clean_append [of sep "rev out" "[]"] by simp
next
  case (2 sep out c cs)
  note okc = 2(7) and nn = 2(8) and sd = 2(9) and sn = 2(10)
  show ?case
  proof (cases "end_of_dir c \<or> \<not> sep c")
    case True
    then show ?thesis
      using 2 clean_append [OF okc] by (auto simp: okp_append)
  next
    case sc: False
    have one: "clean sep [c]"
      using sn by (simp add: ok_after_def NUL_def)
    have seps: "okp sep (rev out) (y # r)" "okp sep (rev (pop_dir sep out)) (y # r)" if "sep y" for y r
      using okp_swap [OF _ that sd sn okc] okp_pop [OF okc _ that sd sn] sc by auto
    have k: "\<exists>r. drop k cs = rd cs k # r" if "sep (rd cs k)" for k
      using rd_dropE [OF refl, of cs k] sn that by metis
    have fin: "clean sep (rev out @ [c])" "clean sep (rev (pop_dir sep out) @ [c])"
      using clean_append one seps sc by auto
    have copy: "okp sep (rev (c # out)) cs" if "ok_after sep cs"
      using okc that by (simp add: okp_append)
    have k1: "okp sep (rev out) (drop 1 cs)" if "sep (rd cs 1)"
      using k [OF that] seps(1) [OF that] by auto
    have k2: "okp sep (rev (pop_dir sep out)) (drop 2 cs)" if "sep (rd cs 2)"
      using k [OF that] seps(2) [OF that] by auto
    have k0: "okp sep (rev out) cs" if "sep (rd cs 0)"
      using k [OF that] seps(1) [OF that] by (metis drop_0)
    have nd: "NUL \<notin> set (drop j cs)" for j
      using nn by (auto dest: in_set_dropD)
    show ?thesis
      using 2(1-6) sc fin copy k0 k1 k2 nd nn sd sn by (auto simp: ok_after_def simp del: rev.simps)
  qed
qed


lemma pop_dir_NUL: "NUL \<notin> set out \<Longrightarrow> NUL \<notin> set (pop_dir sep out)"
  by (metis pop_dir_suffix set_append UnCI)

lemma drop_NUL: "NUL \<notin> set s \<Longrightarrow> NUL \<notin> set (drop k s)"
  by (auto dest: in_set_dropD)

lemma norm_path_NUL: "NUL \<notin> set out \<Longrightarrow> NUL \<notin> set rest \<Longrightarrow> NUL \<notin> set (norm_path sep out rest)"
  by (induction sep out rest rule: norm_path.induct) (simp_all add: pop_dir_NUL drop_NUL)

text \<open>C12: The in-place loop of \<^verbatim>\<open>normalize_uri\<close> leaves the text before the path as it is and turns the
  path into what the reference computes from it, for every URI string.\<close>

theorem normalize_loop_reference:
  "NUL \<notin> set s \<Longrightarrow> path \<le> length s \<Longrightarrow>
     normalize_from p path s = take path s @ norm_path (is_uri_dir_sep p) [] (drop path s)"
  by (rule normalize_from_norm_path)

theorem normalize_loop_reference_witness:
  "normalize_from PROTOCOL_HTTP 8 ''http://h/.././etc////..//usr/'' = ''http://h'' @ ''/usr/''"
proof -
  have "norm_path (is_uri_dir_sep PROTOCOL_HTTP) [] ''/.././etc////..//usr/'' = ''/usr/''"
    by code_simp
  then show ?thesis
    using normalize_loop_reference [of "''http://h/.././etc////..//usr/''" 8 PROTOCOL_HTTP] by (simp add: NUL_def)
qed

text \<open>C15: In a normalised path, up to where the path ends, no separator is followed by another separator, or by a directory elevator (\<open>.\<close> or \<open>..\<close>) that stands
  before a separator or at the end of the whole string (\<open>clean\<close>); and normalising it again changes nothing. An elevator directly before the query, the fragment or parameters is
  not among them: the code does not see it and leaves it where it is.\<close>

theorem normalized_path_clean:
  assumes "NUL \<notin> set s" "path \<le> length s"
  shows "let r = normalize_from p path s in
     take path r = take path s \<and> clean (is_uri_dir_sep p) (drop path r) \<and> normalize_from p path r = r"
proof -
  let ?sep = "is_uri_dir_sep p"
  let ?n = "norm_path ?sep [] (drop path s)"
  have eq: "normalize_from p path s = take path s @ ?n"
    using normalize_from_norm_path [OF assms] .
  have nn: "NUL \<notin> set (drop path s)" "NUL \<notin> set ?n" "\<not> ?sep (CHR ''.'')" "\<not> ?sep NUL"
    using assms(1) norm_path_NUL [of "[]" "drop path s" ?sep] by (auto dest: in_set_dropD simp: NUL_def is_uri_dir_sep_eq)
  have cl: "clean ?sep ?n"
    using nn by (intro norm_path_clean) auto
  have "NUL \<notin> set (take path s @ ?n)"
    using assms(1) nn(2) by (auto dest: in_set_takeD)
  then have "normalize_from p path (take path s @ ?n) = take path s @ norm_path ?sep [] ?n"
    using normalize_from_norm_path [of "take path s @ ?n" path p] assms(2) by simp
  also have "norm_path ?sep [] ?n = ?n"
    using norm_path_clean_id [OF cl nn(2)] by simp
  finally show ?thesis
    using cl assms(2) by (simp add: eq Let_def)
qed

theorem normalized_path_clean_witness:
  "let r = normalize_from PROTOCOL_HTTP 8 ''http://h/a/..//b'' in
     take 8 r = ''http://h'' \<and> clean (is_uri_dir_sep PROTOCOL_HTTP) (drop 8 r) \<and> normalize_from PROTOCOL_HTTP 8 r = r"
  using normalized_path_clean [of "''http://h/a/..//b''" 8 PROTOCOL_HTTP] by (simp add: NUL_def Let_def)

text \<open>An elevator before a query stays.\<close>

lemma elevator_before_query: "normalize_from PROTOCOL_HTTP 8 ''http://h/a/..?x'' = ''http://h/a/..?x''"
proof -
  have "norm_path (is_uri_dir_sep PROTOCOL_HTTP) [] ''/a/..?x'' = ''/a/..?x''"
    by code_simp
  then show ?thesis
    using normalize_from_norm_path [of "''http://h/a/..?x''" 8 PROTOCOL_HTTP] by (simp add: NUL_def)
qed

end
