(* ===== verification/UriJoin.thy ===== *)
theory UriJoin
  imports UriPath
begin

text \<open>
  \<^verbatim>\<open>elinks/src/protocol/uri.c\<close>, continued: translating what a user types into a URI and resolving a
  relative reference against a base URI. What the code asks of the system (which files
  exist, home directories) and of the options is collected in \<open>uri_env\<close>. The loop
  of \<^verbatim>\<open>translate_url\<close> is bounded by its own count of attempts; its recursion into the URI that a proxy
  URI holds is bounded by fuel, one unit for each nesting.
\<close>

record uri_env =
  env_user_program :: "string \<Rightarrow> bool"
  env_file_exists :: "string \<Rightarrow> bool"
  env_home :: "string option"
  env_pw_dir :: "string \<Rightarrow> string option"

section \<open>Helpers\<close>

definition insert_in_string :: "string \<Rightarrow> nat \<Rightarrow> string \<Rightarrow> string" where
  "insert_in_string dst pos seq = take pos dst @ seq @ drop pos dst"

definition expand_tilde :: "uri_env \<Rightarrow> string \<Rightarrow> string" where
  "expand_tilde env filename =
     (if rd filename 0 = CHR ''~'' then
        if rd filename 1 = NUL \<or> dir_sep (rd filename 1) then
          (case env_home env of Some home \<Rightarrow> home @ drop 1 filename | None \<Rightarrow> filename)
        else
          let user = takeWhile (\<lambda>c. \<not> dir_sep c) (drop 1 filename) in
          (case env_pw_dir env user of Some dir \<Rightarrow> dir @ drop (1 + length user) filename | None \<Rightarrow> filename)
      else filename)"

definition known_tlds :: "string list" where
  "known_tlds = [''com'', ''edu'', ''net'', ''org'', ''gov'', ''mil'', ''int'', ''biz'', ''arpa'', ''aero'', ''coop'',
     ''info'', ''museum'', ''name'', ''pro'']"

fun tld_search :: "string list \<Rightarrow> string \<Rightarrow> int \<Rightarrow> int" where
  "tld_search [] s slen = -1"
| "tld_search (t # ts) s slen =
     (let pos = slen - int (length t) in
      if pos \<ge> 0 \<and> c_strncasecmp (drop (nat pos) s) t (length t) = 0 then pos else tld_search ts s slen)"

definition end_with_known_tld :: "string \<Rightarrow> int \<Rightarrow> int" where
  "end_with_known_tld s slen =
     (if slen = 0 then -1 else tld_search known_tlds s (if slen < 0 then int (length s) else slen))"

fun existing_prefix :: "uri_env \<Rightarrow> string \<Rightarrow> char list \<Rightarrow> int" where
  "existing_prefix env name [] = -1"
| "existing_prefix env name (c # cs) =
     (case strchr name 0 c of
        Some pos \<Rightarrow> if env_file_exists env (take pos name) then int pos else existing_prefix env name cs
      | None \<Rightarrow> existing_prefix env name cs)"

definition check_whether_file_exists :: "uri_env \<Rightarrow> string \<Rightarrow> int" where
  "check_whether_file_exists env name =
     (if env_file_exists env name then int (length name)
      else existing_prefix env name [POST_CHAR, CHR ''#'', CHR ''?''])"

definition encode_file_uri_string :: "uri_env \<Rightarrow> string \<Rightarrow> string" where
  "encode_file_uri_string env uristring =
     (let n = check_whether_file_exists env uristring
      in encode_uri_string uristring n False @ (if n > 0 then drop (nat n) uristring else []))"

text \<open>The last label of a host name and where it ends.\<close>

function last_domain :: "string \<Rightarrow> nat \<Rightarrow> nat \<times> nat" where
  "last_domain s domain =
     (let host_end = domain + strcspn s domain ''.:/?'' in
      if rd s host_end = CHR ''.'' then last_domain s (host_end + 1) else (domain, host_end))"
  by auto
termination
proof (relation "measure (\<lambda>(s, d). length s - d)")
  fix s d x assume x: "x = d + strcspn s d ''.:/?''" "rd s x = CHR ''.''"
  have "x < length s"
    using x(2) by (intro rd_nonNUL) (simp add: NUL_def)
  then show "((s, x + 1), s, d) \<in> measure (\<lambda>(s, d). length s - d)"
    using x(1) by simp
qed simp

definition find_uri_protocol :: "uri_env \<Rightarrow> string \<Rightarrow> protocol" where
  "find_uri_protocol env newurl =
     (if check_whether_file_exists env newurl \<ge> 0 then PROTOCOL_FILE
      else
        let ch = strcspn newurl 0 ''.:/@''; c = rd newurl ch; first = rd newurl 0 in
        if c = CHR ''@'' \<or> (c = CHR '':'' \<and> first \<noteq> CHR ''['' \<and> strchr newurl 0 (CHR ''@'') \<noteq> None) \<or>
           c_strncasecmp newurl ''ftp.'' 4 = 0
        then PROTOCOL_FTP
        else if first = CHR ''['' \<and> c = CHR '':'' then
          (case (strchr newurl (ch + 1) (CHR '']''), strchr newurl (ch + 1) (CHR '':'')) of
             (Some bracket2, Some colon2) \<Rightarrow> if bracket2 > colon2 then PROTOCOL_HTTP else PROTOCOL_UNKNOWN
           | _ \<Rightarrow> PROTOCOL_UNKNOWN)
        else if first \<noteq> CHR ''.'' \<and> c = CHR ''.'' then
          (case last_domain newurl (ch + 1) of (domain, host_end) \<Rightarrow>
             let ipscan = rd (dropWhile (\<lambda>c. c_isdigit c \<or> c = CHR ''.'') (drop ch newurl)) 0 in
             if ipscan = NUL \<or> ipscan = CHR '':'' \<or> ipscan = CHR ''/'' then PROTOCOL_HTTP
             else if host_end - domain = 2 \<or>
                     end_with_known_tld (drop domain newurl) (int (host_end - domain)) \<ge> 0
             then PROTOCOL_HTTP
             else PROTOCOL_UNKNOWN)
        else PROTOCOL_UNKNOWN)"

section \<open>Translating\<close>

definition transform_file_url :: "uri \<Rightarrow> string \<Rightarrow> string" where
  "transform_file_url u cwd =
     (let s = u_string u; d = data_off u in
      if rd s d = CHR ''.'' \<or> rd s d = NUL then
        insert_in_string (if rd s d = CHR ''.'' then s[d := CHR ''/''] else s) 7 (encode_uri_string cwd (-1) False)
      else take d s @ dropWhile (\<lambda>c. \<not> dir_sep c) (drop d s))"

definition file_uri_prefix :: "string \<Rightarrow> string" where
  "file_uri_prefix newurl = ''file://'' @ (if dir_sep (rd newurl 0) then [] else ''./'')"

text \<open>The URI string tried next when the scheme is unknown but the text looks like something known.\<close>

definition add_known_protocol :: "protocol \<Rightarrow> string \<Rightarrow> string" where
  "add_known_protocol p newurl =
     (if p = PROTOCOL_FTP then ''ftp://'' @ encode_uri_string newurl (-1) False
      else if p = PROTOCOL_HTTP then ''http://'' @ newurl
      else file_uri_prefix newurl @ newurl)"

text \<open>The one tried next when there is no scheme at all.\<close>

definition add_missing_protocol :: "uri_env \<Rightarrow> string \<Rightarrow> string" where
  "add_missing_protocol env newurl =
     (let p = find_uri_protocol env newurl in
      if p = PROTOCOL_FTP then ''ftp://'' @ encode_uri_string newurl (-1) False
      else if p = PROTOCOL_HTTP then ''http://'' @ newurl
      else file_uri_prefix newurl @ encode_file_uri_string env newurl)"

definition off :: "nat option \<Rightarrow> nat" where
  "off p = (case p of Some i \<Rightarrow> i | None \<Rightarrow> 0)"

text \<open>The repairs of a URI string for the errors that allow one.\<close>

definition fix_too_many_slashes :: "uri \<Rightarrow> string" where
  "fix_too_many_slashes u =
     (let p = protocollen u + 3
      in take p (u_string u) @ dropWhile (\<lambda>c. c = CHR ''/'') (drop p (u_string u)))"

definition fix_no_slashes :: "uri \<Rightarrow> string" where
  "fix_no_slashes u =
     (let p = protocollen u + 1
      in insert_in_string (u_string u) p (if rd (u_string u) p = CHR ''/'' then ''/'' else ''//''))"

definition fix_trailing_dots :: "uri \<Rightarrow> string" where
  "fix_trailing_dots u =
     (let h = off (u_host u); host = take (hostlen u) (drop h (u_string u))
      in take h (u_string u) @ rev (dropWhile (\<lambda>c. c = CHR ''.'') (rev host)) @ drop (h + hostlen u) (u_string u))"

definition fix_no_port_colon :: "uri \<Rightarrow> string" where
  "fix_no_port_colon u = (let p = off (u_port u) in take (p - 1) (u_string u) @ drop p (u_string u))"

definition fix_no_host_slash :: "uri \<Rightarrow> string" where
  "fix_no_host_slash u =
     insert_in_string (u_string u)
       (case u_port u of
          Some p \<Rightarrow> p + portlen u
        | None \<Rightarrow> off (u_host u) + hostlen u + (if ipv6 u then 1 else 0)) ''/''"

definition MAX_TRANSLATION_ATTEMPTS :: nat where
  "MAX_TRANSLATION_ATTEMPTS = 32"

text \<open>The \<^verbatim>\<open>goto\<close> loop; \<open>translate\<close> is the recursive call on the data of a proxy URI.\<close>

function translate_loop ::
  "uri_env \<Rightarrow> (string \<Rightarrow> string option) \<Rightarrow> string option \<Rightarrow> string \<Rightarrow> uri_errno \<Rightarrow> nat \<Rightarrow> string option" where
  "translate_loop env translate cwd newurl prev_errno retries =
     (case parse_uri (env_user_program env) newurl of (e, u) \<Rightarrow>
        if e = prev_errno \<or> retries > MAX_TRANSLATION_ATTEMPTS then None
        else
          (case e of
             URI_ERRNO_OK \<Rightarrow>
               let p = (if u_protocol u = PROTOCOL_UNKNOWN then find_uri_protocol env newurl else PROTOCOL_UNKNOWN) in
               if p \<noteq> PROTOCOL_UNKNOWN
               then translate_loop env translate cwd (add_known_protocol p newurl) URI_ERRNO_EMPTY (retries + 1)
               else if u_protocol u = PROTOCOL_FILE \<and> cwd \<noteq> None \<and> cwd \<noteq> Some []
               then Some (normalize_uri (env_user_program env) None
                            (transform_file_url u (case cwd of Some d \<Rightarrow> d | None \<Rightarrow> [])))
               else if u_protocol u = PROTOCOL_PROXY then
                 (case translate (drop (data_off u) newurl) of
                    None \<Rightarrow> None
                  | Some t \<Rightarrow> Some (normalize_uri (env_user_program env) None (take (data_off u) newurl @ t)))
               else Some (normalize_uri (env_user_program env) (Some u) newurl)
           | URI_ERRNO_TOO_MANY_SLASHES \<Rightarrow> translate_loop env translate cwd (fix_too_many_slashes u) e (retries + 1)
           | URI_ERRNO_NO_SLASHES \<Rightarrow> translate_loop env translate cwd (fix_no_slashes u) e (retries + 1)
           | URI_ERRNO_TRAILING_DOTS \<Rightarrow> translate_loop env translate cwd (fix_trailing_dots u) e (retries + 1)
           | URI_ERRNO_NO_PORT_COLON \<Rightarrow> translate_loop env translate cwd (fix_no_port_colon u) e (retries + 1)
           | URI_ERRNO_NO_HOST_SLASH \<Rightarrow> translate_loop env translate cwd (fix_no_host_slash u) e (retries + 1)
           | URI_ERRNO_INVALID_PROTOCOL \<Rightarrow>
               translate_loop env translate cwd (add_missing_protocol env newurl) e (retries + 1)
           | _ \<Rightarrow> None))"
  by auto
termination
  by (relation "measure (\<lambda>(env, translate, cwd, newurl, prev, retries). Suc MAX_TRANSLATION_ATTEMPTS - retries)") auto

fun translate_url_n :: "nat \<Rightarrow> uri_env \<Rightarrow> string \<Rightarrow> string option \<Rightarrow> string option" where
  "translate_url_n 0 env url cwd = None"
| "translate_url_n (Suc n) env url cwd =
     (let url = dropWhile (\<lambda>c. c = CHR '' '') url in
      if url = [] then None
      else translate_loop env (\<lambda>d. translate_url_n n env d cwd) cwd (expand_tilde env url) URI_ERRNO_EMPTY 0)"

definition translate_url :: "uri_env \<Rightarrow> string \<Rightarrow> string option \<Rightarrow> string option" where
  "translate_url env url cwd = translate_url_n (length url + 1) env url cwd"

section \<open>Joining\<close>

text \<open>The length of the base that a fragment, a query or a network path keeps; 0 when the
  reference is none of these.\<close>

definition base_length :: "uri \<Rightarrow> string \<Rightarrow> nat" where
  "base_length base rel =
     (let stripped = (case u_fragment base of Some f \<Rightarrow> f - 1 | None \<Rightarrow> get_real_uri_length base) in
      if rd rel 0 = CHR ''#'' then stripped
      else if rd rel 0 = CHR ''?'' then
        let d = data_off base; q = length (takeWhile (\<lambda>c. c \<noteq> CHR ''?'') (take (datalen base) (drop d (u_string base))))
        in if q < length (take (datalen base) (drop d (u_string base))) then d + q else stripped
      else if rd rel 0 = CHR ''/'' \<and> rd rel 1 = CHR ''/'' then protocollen base + 1
      else 0)"

text \<open>The offset in the base up to which a path reference keeps it.\<close>

definition base_path :: "uri \<Rightarrow> nat" where
  "base_path base =
     (let s = u_string base; d = data_off base; sep = is_uri_dir_sep (u_protocol base) in
      if rd s d \<noteq> NUL then (if \<not> sep (rd s d) then d - 1 else d)
      else if d > 0 \<and> sep (rd s (d - 1)) then d - 1 else d)"

text \<open>The offset behind the last separator of the path that begins at an offset.\<close>

definition last_dir :: "uri \<Rightarrow> nat \<Rightarrow> nat" where
  "last_dir base path =
     (let rest = takeWhile (\<lambda>c. \<not> end_of_dir c) (drop path (u_string base));
          sep = is_uri_dir_sep (u_protocol base)
      in if \<exists>c\<in>set rest. sep c then path + (length rest - length (takeWhile (\<lambda>c. \<not> sep c) (rev rest))) else path)"

definition join_path :: "uri_env \<Rightarrow> uri \<Rightarrow> string \<Rightarrow> string option" where
  "join_path env base rel =
     (let s = u_string base; path = base_path base; sep = is_uri_dir_sep (u_protocol base);
          (path, add_slash) =
            (if \<not> sep (rd rel 0) then (last_dir base path, if rd s path = NUL then ''/'' else [])
             else (path, []))
      in Some (normalize_uri (env_user_program env) None (take path s @ add_slash @ rel)))"

definition join_urls :: "uri_env \<Rightarrow> uri \<Rightarrow> string \<Rightarrow> string option" where
  "join_urls env base rel =
     (let net = (rd rel 0 = CHR ''/'' \<and> rd rel 1 = CHR ''/''); n = base_length base rel in
      if net \<and> \<not> get_protocol_need_slashes (u_protocol base) then None
      else if n \<noteq> 0 then
        let uristring = take n (u_string base) @ rel in
        if net then translate_url env uristring None
        else Some (normalize_uri (env_user_program env) None uristring)
      else
        let k = get_protocol_length rel; p = get_protocol (env_user_program env) (take k rel);
            t = (if k \<noteq> 0 \<and> p \<noteq> PROTOCOL_UNKNOWN \<and> p \<noteq> PROTOCOL_PROXY then translate_url env rel None else None)
        in case t of
             Some r \<Rightarrow> Some r
           | None \<Rightarrow> (case u_data base of None \<Rightarrow> None | Some d \<Rightarrow> join_path env base rel))"

declare translate_loop.simps [simp del]
declare last_domain.simps [simp del]
declare norm_path.simps(2) [simp del]
declare normalize_uri_reparse.simps [simp del]

section \<open>Canonical URIs\<close>

definition server_text :: "string \<Rightarrow> auth \<Rightarrow> string \<Rightarrow> string option \<Rightarrow> string" where
  "server_text scheme auth host port = scheme @ ''://'' @ auth_text auth @ host @ port_text port"

lemma uri_text_server:
  "uri_text scheme auth host port path frag post = server_text scheme auth host port @ ''/'' @ path @ frag_text frag @ post_text post"
  by (simp add: uri_text_def server_text_def)

text \<open>A well-formed URI of a server other than a proxy, with scheme and host in lower case.\<close>

definition canonical :: "(string \<Rightarrow> bool) \<Rightarrow> string \<Rightarrow> auth \<Rightarrow> string \<Rightarrow> string option \<Rightarrow> string \<Rightarrow> string option \<Rightarrow> string option \<Rightarrow> bool" where
  "canonical up scheme auth host port path frag post \<longleftrightarrow>
     wf_uri up scheme auth host port path frag post \<and> map c_tolower scheme = scheme \<and> map c_tolower host = host \<and>
     get_protocol up scheme \<noteq> PROTOCOL_PROXY \<and> NUL \<notin> set (uri_text scheme auth host port path frag post)"

lemma parsed_sel:
  "u_string (parsed up scheme auth host port path frag post) = uri_text scheme auth host port path frag post"
  "protocollen (parsed up scheme auth host port path frag post) = length scheme"
  "u_protocol (parsed up scheme auth host port path frag post) = get_protocol up scheme"
  "u_host (parsed up scheme auth host port path frag post) = Some (length scheme + 3 + length (auth_text auth))"
  "hostlen (parsed up scheme auth host port path frag post) = length host"
  "u_data (parsed up scheme auth host port path frag post) = Some (length (server_text scheme auth host port) + 1)"
  "datalen (parsed up scheme auth host port path frag post) = length path"
  by (simp_all add: parsed_def Let_def server_text_def)

lemma parsed_rest:
  "u_fragment (parsed up scheme auth host port path frag post) =
     map_option (\<lambda>_. length (server_text scheme auth host port) + 1 + length path + 1) frag"
  "u_post (parsed up scheme auth host port path frag post) =
     map_option (\<lambda>_. length (server_text scheme auth host port) + 1 + length path + length (frag_text frag) + 1) post"
  by (cases frag; cases post; simp add: parsed_def Let_def server_text_def set_rest_def)+

lemma lower_range_id:
  assumes "drop i s = x @ r" "map c_tolower x = x"
  shows "lower_range s i (length x) = s"
proof -
  have "drop (i + length x) s = r"
    using drop_advance [OF assms(1)] .
  then have "lower_range s i (length x) = take i s @ x @ r"
    using assms by (simp add: lower_range_def)
  also have "\<dots> = s"
    by (metis append_take_drop_id assms(1))
  finally show ?thesis .
qed

lemma lower_parsed:
  assumes "canonical up scheme auth host port path frag post"
  shows "lower_uri (parsed up scheme auth host port path frag post) = uri_text scheme auth host port path frag post"
proof -
  let ?s = "uri_text scheme auth host port path frag post"
  have "lower_range ?s 0 (length scheme) = ?s"
    using assms by (intro lower_range_id [where r = "drop (length scheme) ?s"]) (auto simp: canonical_def uri_text_def)
  moreover have "drop (length scheme + 3) ?s = auth_text auth @ host @ port_text port @ ''/'' @ path @ frag_text frag @ post_text post"
    by (simp add: uri_text_def)
  from lower_range_id [OF drop_advance [OF this]]
  have "lower_range ?s (length scheme + 3 + length (auth_text auth)) (length host) = ?s"
    using assms by (simp add: canonical_def)
  ultimately show ?thesis
    by (simp add: lower_uri_def parsed_sel Let_def)
qed

lemma normalize_parsed_text:
  assumes "canonical up scheme auth host port path frag post"
  shows "normalize_parsed (parsed up scheme auth host port path frag post) =
     server_text scheme auth host port @ norm_path (is_uri_dir_sep (get_protocol up scheme)) [] (''/'' @ path @ frag_text frag @ post_text post)"
proof -
  have "wf_scheme up scheme"
    using assms by (simp add: canonical_def wf_uri_def)
  then have "get_protocol_need_slash_after_host (get_protocol up scheme)"
    by (simp add: wf_scheme_def)
  note p = this server_protocol [OF this]
  have "NUL \<notin> set (uri_text scheme auth host port path frag post)"
    using assms by (simp add: canonical_def)
  then show ?thesis
    using p normalize_from_norm_path [of "uri_text scheme auth host port path frag post" "length (server_text scheme auth host port)"]
    by (simp add: normalize_parsed_def lower_parsed [OF assms] parsed_sel data_off_def uri_text_server Let_def)
qed

lemma normalize_canonical:
  assumes "canonical up scheme auth host port path frag post"
  defines "s \<equiv> uri_text scheme auth host port path frag post"
  defines "r \<equiv> server_text scheme auth host port @ norm_path (is_uri_dir_sep (get_protocol up scheme)) [] (''/'' @ path @ frag_text frag @ post_text post)"
  shows "normalize_uri up None s = r" "normalize_uri up (Some (parsed up scheme auth host port path frag post)) s = r"
proof -
  have pr: "get_protocol up scheme \<noteq> PROTOCOL_PROXY" "wf_uri up scheme auth host port path frag post"
    using assms(1) by (simp_all add: canonical_def)
  show "normalize_uri up (Some (parsed up scheme auth host port path frag post)) s = r"
    using pr normalize_parsed_text [OF assms(1)] by (simp add: normalize_uri_def parsed_sel r_def)
  show "normalize_uri up None s = r"
    using pr normalize_parsed_text [OF assms(1)] parse_uri_parsed [OF pr(2)] unfolding s_def r_def normalize_uri_def option.case
    by (subst normalize_uri_reparse.simps) (simp add: parsed_sel Let_def)
qed

text \<open>A path that is already normal.\<close>

definition normal :: "(string \<Rightarrow> bool) \<Rightarrow> string \<Rightarrow> string \<Rightarrow> bool" where
  "normal up scheme rest \<longleftrightarrow> clean (is_uri_dir_sep (get_protocol up scheme)) (''/'' @ rest)"

lemma normalize_normal:
  assumes "canonical up scheme auth host port path frag post" "normal up scheme (path @ frag_text frag @ post_text post)"
  shows "server_text scheme auth host port @ norm_path (is_uri_dir_sep (get_protocol up scheme)) [] (''/'' @ path @ frag_text frag @ post_text post) =
     uri_text scheme auth host port path frag post"
proof -
  have "NUL \<notin> set (''/'' @ path @ frag_text frag @ post_text post)"
    using assms(1) by (simp add: canonical_def uri_text_server)
  then show ?thesis
    using norm_path_clean_id [of _ "''/'' @ path @ frag_text frag @ post_text post" "[]"] assms(2)
    by (simp add: normal_def uri_text_server)
qed

definition no_env :: uri_env where
  "no_env = \<lparr>env_user_program = \<lambda>_. False, env_file_exists = \<lambda>_. False, env_home = None, env_pw_dir = \<lambda>_. None\<rparr>"

lemma http_sample:
  "get_protocol (\<lambda>_. False) ''http'' = PROTOCOL_HTTP" "wf_scheme (\<lambda>_. False) ''http''"
  "map c_tolower ''http'' = ''http''" "map c_tolower ''elinks.cz'' = ''elinks.cz''"
  by code_simp+

lemmas sample_simps = canonical_def wf_uri_def no_chars_def wf_frag_def POST_CHAR_def uri_text_def NUL_def http_sample

text \<open>C35: Translating a canonical URI whose path is normal gives the URI itself, whatever files exist
  and whatever the working directory is.\<close>

theorem translate_canonical:
  assumes "canonical (env_user_program env) scheme auth host port path frag post"
    and "normal (env_user_program env) scheme (path @ frag_text frag @ post_text post)"
  shows "translate_url env (uri_text scheme auth host port path frag post) cwd = Some (uri_text scheme auth host port path frag post)"
proof -
  let ?up = "env_user_program env"
  let ?s = "uri_text scheme auth host port path frag post"
  have wf: "wf_uri ?up scheme auth host port path frag post" "get_protocol ?up scheme \<noteq> PROTOCOL_PROXY"
    using assms(1) by (simp_all add: canonical_def)
  then have sch: "scheme \<noteq> []" "list_all scheme_char scheme" "get_protocol_need_slash_after_host (get_protocol ?up scheme)"
    by (auto simp: wf_uri_def wf_scheme_def)
  obtain c cs where c: "scheme = c # cs" "scheme_char c"
    using sch by (cases scheme) auto
  have "c \<noteq> CHR '' ''" "c \<noteq> CHR ''~''"
    using c(2) by (auto simp: scheme_char_def isasciialnum_def isasciialpha_def c_isupper_def c_islower_def c_isdigit_def ccode_def)
  then have strip: "dropWhile (\<lambda>c. c = CHR '' '') ?s = ?s" "expand_tilde env ?s = ?s" "?s \<noteq> []"
    using c(1) by (simp_all add: uri_text_def expand_tilde_def)
  have p: "get_protocol ?up scheme \<noteq> PROTOCOL_FILE" "get_protocol ?up scheme \<noteq> PROTOCOL_UNKNOWN"
    using server_protocol [OF sch(3)] by auto
  have "translate_loop env tr cwd ?s URI_ERRNO_EMPTY 0 = Some ?s" for tr
    using parse_uri_parsed [OF wf(1)] p wf(2) normalize_canonical(2) [OF assms(1)] normalize_normal [OF assms]
    by (simp add: translate_loop.simps [of env tr cwd ?s URI_ERRNO_EMPTY 0] parsed_sel MAX_TRANSLATION_ATTEMPTS_def)
  then show ?thesis
    using strip by (simp add: translate_url_def)
qed


theorem translate_canonical_witness:
  "translate_url no_env ''http://elinks.cz/a/b'' (Some ''/tmp'') = Some ''http://elinks.cz/a/b''"
proof -
  have "canonical (env_user_program no_env) ''http'' None ''elinks.cz'' None ''a/b'' None None"
    using http_sample by (simp add: sample_simps no_env_def)
  moreover have "normal (env_user_program no_env) ''http'' (''a/b'' @ frag_text None @ post_text None)"
    by (simp add: normal_def no_env_def http_sample is_uri_dir_sep_eq ok_after_def NUL_def)
  ultimately show ?thesis
    using translate_canonical [of no_env "''http''" None "''elinks.cz''" None "''a/b''" None None "Some ''/tmp''"]
    by (simp add: uri_text_def)
qed

section \<open>Resolving references\<close>

text \<open>C34: Resolving a fragment reference against a canonical URI with a normal path replaces its
  fragment and drops its post data.\<close>

theorem join_fragment:
  assumes "canonical (env_user_program env) scheme auth host port path (Some f) None"
    and "normal (env_user_program env) scheme (path @ ''#'' @ f)"
  shows "join_urls env (parsed (env_user_program env) scheme auth host port path frag post) (''#'' @ f) =
     Some (uri_text scheme auth host port path (Some f) None)"
proof -
  let ?u = "parsed (env_user_program env) scheme auth host port path frag post"
  have "take (length (server_text scheme auth host port) + 1 + length path) (uri_text scheme auth host port path frag post) =
      server_text scheme auth host port @ ''/'' @ path"
    by (simp add: uri_text_server)
  moreover have "base_length ?u (''#'' @ f) = length (server_text scheme auth host port) + 1 + length path"
    by (cases frag; cases post) (simp_all add: base_length_def parsed_rest get_real_uri_length_def parsed_sel uri_text_server)
  moreover have "(server_text scheme auth host port @ ''/'' @ path) @ ''#'' @ f = uri_text scheme auth host port path (Some f) None"
    by (simp add: uri_text_server)
  ultimately show ?thesis
    using normalize_canonical(1) [OF assms(1)] normalize_normal [OF assms(1)] assms(2)
    by (simp add: join_urls_def parsed_sel Let_def)
qed

theorem join_fragment_witness:
  "join_urls no_env (snd (parse_uri (\<lambda>_. False) ''http://elinks.cz/a#old'')) ''#new'' = Some ''http://elinks.cz/a#new''"
proof -
  have "canonical (env_user_program no_env) ''http'' None ''elinks.cz'' None ''a'' (Some ''new'') None"
    using http_sample by (simp add: sample_simps no_env_def)
  moreover have "normal (env_user_program no_env) ''http'' (''a'' @ ''#'' @ ''new'')"
    by (simp add: normal_def no_env_def http_sample is_uri_dir_sep_eq ok_after_def end_of_dir_def NUL_def)
  moreover have "parse_uri (\<lambda>_. False) (uri_text ''http'' None ''elinks.cz'' None ''a'' (Some ''old'') None) =
      (URI_ERRNO_OK, parsed (\<lambda>_. False) ''http'' None ''elinks.cz'' None ''a'' (Some ''old'') None)"
    using http_sample by (intro parse_uri_parsed) (simp add: sample_simps)
  ultimately show ?thesis
    using join_fragment [of no_env "''http''" None "''elinks.cz''" None "''a''" "''new''" "Some ''old''" None]
    by (simp add: uri_text_def no_env_def)
qed

lemma takeWhile_stop: "c \<notin> set xs \<Longrightarrow> takeWhile (\<lambda>x. x \<noteq> c) (xs @ c # r) = xs"
  by (induction xs) auto

lemma takeWhile_rest:
  assumes "\<not> (\<exists>c\<in>set x. end_of_dir c)"
  shows "takeWhile (\<lambda>c. \<not> end_of_dir c) (x @ frag_text frag @ post_text post) = x"
proof -
  have "end_of_dir CHR ''#''" "end_of_dir POST_CHAR"
    by (simp_all add: end_of_dir_def)
  then have "takeWhile (\<lambda>c. \<not> end_of_dir c) (frag_text frag @ post_text post) = []"
    by (cases frag; cases post) simp_all
  then show ?thesis
    using assms by (simp add: takeWhile_append2)
qed

text \<open>Where the directory of the base path ends.\<close>

lemma last_dir_at:
  assumes "drop path (u_string u) = x @ CHR ''/'' # fname @ frag_text frag @ post_text post"
    and "\<not> (\<exists>c\<in>set (x @ fname). end_of_dir c)" "CHR ''/'' \<notin> set fname"
  shows "last_dir u path = path + length x + 1"
proof -
  let ?r = "x @ CHR ''/'' # fname"
  have "\<not> (\<exists>c\<in>set ?r. end_of_dir c)"
    using assms(2) by (auto simp: end_of_dir_def POST_CHAR_def)
  from takeWhile_rest [OF this, of frag post] have r: "takeWhile (\<lambda>c. \<not> end_of_dir c) (drop path (u_string u)) = ?r"
    by (simp add: assms(1))
  have "takeWhile (\<lambda>c. c \<noteq> CHR ''/'') (rev ?r) = rev fname"
    using assms(3) takeWhile_stop [of "CHR ''/''" "rev fname"] by simp
  then show ?thesis
    unfolding last_dir_def Let_def r is_uri_dir_sep_eq by simp
qed

lemma base_path_dir:
  assumes "dir = [] \<or> last dir = CHR ''/''" "CHR ''/'' \<notin> set fname" "\<not> (\<exists>c\<in>set (dir @ fname). end_of_dir c)"
    and u_def: "u = parsed up scheme auth host port (dir @ fname) frag post"
  shows "\<exists>path. base_path u = path \<and> rd (uri_text scheme auth host port (dir @ fname) frag post) path = CHR ''/'' \<and>
     last_dir u path = length (server_text scheme auth host port) + 1 + length dir"
proof -
  let ?n = "length (server_text scheme auth host port)"
  let ?s = "uri_text scheme auth host port (dir @ fname) frag post"
  have us: "u_string u = ?s" "data_off u = ?n + 1"
    by (simp_all add: u_def parsed_sel data_off_def)
  have dn: "drop ?n ?s = CHR ''/'' # dir @ fname @ frag_text frag @ post_text post"
    by (simp add: uri_text_server)
  note dd = drop_step [OF dn]
  show ?thesis
  proof (cases "rd (dir @ fname @ frag_text frag @ post_text post) 0 = CHR ''/''")
    case True
    then have "rd ?s (?n + 1) = CHR ''/''"
      using rd_drop [of ?s "?n + 1" 0] dd by simp
    moreover from this have "base_path u = ?n + 1"
      by (simp add: base_path_def us is_uri_dir_sep_eq Let_def)
    moreover have "dir \<noteq> []"
      using True assms(2) by (cases dir; cases fname; cases frag; cases post) (auto simp: NUL_def POST_CHAR_def)
    then obtain x where x: "dir = x @ [CHR ''/'']"
      using assms(1) by (metis append_butlast_last_id)
    have "last_dir u (?n + 1) = ?n + 1 + length x + 1"
      using last_dir_at [of "?n + 1" u x fname frag post] dd assms(2,3) x us(1) by simp
    ultimately show ?thesis
      using x by simp
  next
    case False
    then have "rd ?s (?n + 1) \<noteq> CHR ''/''"
      using rd_drop [of ?s "?n + 1" 0] dd by simp
    moreover have sl: "rd ?s ?n = CHR ''/''"
      using dn by (rule rd_at)
    ultimately have "base_path u = ?n"
      by (simp add: base_path_def us is_uri_dir_sep_eq Let_def)
    moreover obtain x where x: "CHR ''/'' # dir = x @ [CHR ''/'']"
      using assms(1) by (metis append_Nil append_butlast_last_id append_Cons)
    have "last_dir u ?n = ?n + length x + 1"
    proof (rule last_dir_at)
      show "drop ?n (u_string u) = x @ CHR ''/'' # fname @ frag_text frag @ post_text post"
        using dn x us(1) by (metis append.assoc append_Cons append_Nil)
      have "set x \<subseteq> insert (CHR ''/'') (set dir)"
        using arg_cong [OF x, of set] by auto
      then show "\<not> (\<exists>c\<in>set (x @ fname). end_of_dir c)"
        using assms(3) by (auto simp: end_of_dir_def POST_CHAR_def)
    qed (rule assms(2))
    moreover have "length x = length dir"
      using arg_cong [OF x, of length] by simp
    ultimately show ?thesis
      using sl by simp
  qed
qed




text \<open>For a base whose scheme forces an IP family the kept part ends with the digit instead of the
  colon, so a network-path reference loses the scheme.\<close>

lemma join_network_path_family:
  assumes "u_string base = scheme @ d # CHR '':'' # r" "protocollen base = length scheme"
    and "get_protocol_need_slashes (u_protocol base)"
  shows "join_urls env base (''//'' @ x) = translate_url env (scheme @ [d] @ ''//'' @ x) None"
  using assms by (simp add: join_urls_def base_length_def Let_def)

end
