(* ===== verification/UriCache.thy ===== *)
theory UriCache
  imports Hashtab UriJoin
begin

text \<open>
  \<^verbatim>\<open>elinks/src/protocol/uri.c\<close>, concluded: the cache that interns URIs by their string and counts the
  references to them, and the lists of URIs. An entry lives at an address; the hash table of
  \<^verbatim>\<open>util/hash.c\<close> maps the bytes of the string to it. The table exists only while the cache has
  entries: \<open>uc_map\<close> is \<open>None\<close> before \<^verbatim>\<open>init_hash\<close> and after \<^verbatim>\<open>free_hash\<close>. Reference counts are
  \<^verbatim>\<open>int\<close>s that would need \<open>2 ^ 31\<close> references to overflow, and are mathematical integers here.

  What an operation may allocate is the parameter \<open>uri_mem\<close>: whether the table can be
  allocated, and the addresses of the new entry and of the new hash item.
\<close>

section \<open>Data\<close>

record uri_cache_entry =
  ce_uri :: uri
  ce_refs :: int

record uri_cache =
  uc_map :: "nat hash option"
  uc_refs :: int
  uc_heap :: "nat \<rightharpoonup> uri_cache_entry"

record uri_mem =
  mem_map :: bool
  mem_entry :: "nat option"
  mem_item :: "nat option"

definition empty_uri_cache :: uri_cache where
  "empty_uri_cache = \<lparr>uc_map = None, uc_refs = 0, uc_heap = (\<lambda>_. None)\<rparr>"

text \<open>The bytes of a string, as the hash table reads them.\<close>

definition bytes :: "string \<Rightarrow> uchar list" where
  "bytes s = map of_char s"

section \<open>Operations\<close>

definition get_uri_cache_entry ::
  "(string \<Rightarrow> bool) \<Rightarrow> uri_mem \<Rightarrow> string \<Rightarrow> uri_cache \<Rightarrow> nat option \<times> uri_cache" where
  "get_uri_cache_entry user_program m s uc =
     (if s = [] then (None, uc)
      else case uc_map uc of
        None \<Rightarrow> (None, uc)
      | Some h \<Rightarrow>
         (case get_hash_item h (bytes s) (length s) of
            (Some item, h) \<Rightarrow> (Some (item_value item), uc\<lparr>uc_map := Some h\<rparr>)
          | (None, h) \<Rightarrow>
             (case mem_entry m of
                None \<Rightarrow> (None, uc\<lparr>uc_map := Some h\<rparr>)
              | Some a \<Rightarrow>
                  let (err, u) = parse_uri user_program s in
                  if err \<noteq> URI_ERRNO_OK then (None, uc\<lparr>uc_map := Some h\<rparr>)
                  else case add_hash_item (mem_item m) h (bytes s) (length s) a of
                      (None, h) \<Rightarrow> (None, uc\<lparr>uc_map := Some h\<rparr>)
                    | (Some item, h) \<Rightarrow>
                        (Some a, uc\<lparr>uc_map := Some h, uc_refs := uc_refs uc + 1,
                                    uc_heap := (uc_heap uc)(a \<mapsto> \<lparr>ce_uri = u, ce_refs = 0\<rparr>)\<rparr>))))"

definition add_refs :: "int \<Rightarrow> nat \<Rightarrow> uri_cache \<Rightarrow> uri_cache" where
  "add_refs d a uc =
     uc\<lparr>uc_heap := (uc_heap uc)(a := map_option (\<lambda>e. e\<lparr>ce_refs := ce_refs e + d\<rparr>) (uc_heap uc a))\<rparr>"

text \<open>\<^verbatim>\<open>get_uri\<close> without components; the table is created on demand and given back when
  the first URI could not be registered.\<close>

definition get_whole_uri ::
  "(string \<Rightarrow> bool) \<Rightarrow> uri_mem \<Rightarrow> string \<Rightarrow> uri_cache \<Rightarrow> nat option \<times> uri_cache" where
  "get_whole_uri user_program m s uc =
     (let uc = (if uc_refs uc = 0 then uc\<lparr>uc_map := init_hash (mem_map m) (hash_size 3) strhash\<rparr> else uc) in
      if uc_refs uc = 0 \<and> uc_map uc = None then (None, uc)
      else case get_uri_cache_entry user_program m s uc of
          (None, uc) \<Rightarrow> (None, if uc_refs uc = 0 then uc\<lparr>uc_map := None\<rparr> else uc)
        | (Some a, uc) \<Rightarrow> (Some a, add_refs 1 a uc))"

definition get_composed_uri ::
  "(string \<Rightarrow> bool) \<Rightarrow> (string \<Rightarrow> string option) \<Rightarrow> uri_mem \<Rightarrow> uri \<Rightarrow> int \<Rightarrow> uri_cache \<Rightarrow> nat option \<times> uri_cache" where
  "get_composed_uri user_program idn m u components uc =
     get_whole_uri user_program m (add_uri_to_string idn u components) uc"

definition get_uri ::
  "(string \<Rightarrow> bool) \<Rightarrow> (string \<Rightarrow> string option) \<Rightarrow> uri_mem \<Rightarrow> string \<Rightarrow> int \<Rightarrow> uri_cache \<Rightarrow> nat option \<times> uri_cache" where
  "get_uri user_program idn m s components uc =
     (if components \<noteq> 0 then
        (case parse_uri user_program s of (err, u) \<Rightarrow>
           if err \<noteq> URI_ERRNO_OK then (None, uc) else get_composed_uri user_program idn m u components uc)
      else get_whole_uri user_program m s uc)"

definition get_translated_uri ::
  "uri_env \<Rightarrow> uri_mem \<Rightarrow> string \<Rightarrow> string option \<Rightarrow> uri_cache \<Rightarrow> nat option \<times> uri_cache" where
  "get_translated_uri env m uristring cwd uc =
     (case translate_url env uristring cwd of
        None \<Rightarrow> (None, uc)
      | Some s \<Rightarrow> get_whole_uri (env_user_program env) m s uc)"

definition get_uri_reference :: "nat \<Rightarrow> uri_cache \<Rightarrow> uri_cache" where
  "get_uri_reference a uc = add_refs 1 a uc"

text \<open>Nothing is done for an address that holds no URI: in C that is a use of freed memory.\<close>

definition done_uri :: "nat \<Rightarrow> uri_cache \<Rightarrow> uri_cache" where
  "done_uri a uc =
     (case uc_heap uc a of
        None \<Rightarrow> uc
      | Some e \<Rightarrow>
          let s = u_string (ce_uri e); uc = add_refs (- 1) a uc in
          if ce_refs e - 1 \<noteq> 0 then uc
          else
            let (item, h) = get_hash_item (the (uc_map uc)) (bytes s) (length s);
                uc = uc\<lparr>uc_map := Some h\<rparr>;
                uc = (case item of
                        None \<Rightarrow> uc
                      | Some it \<Rightarrow> uc\<lparr>uc_map := Some (del_hash_item h (item_addr it)),
                                      uc_heap := (uc_heap uc)(item_value it := None)\<rparr>);
                uc = uc\<lparr>uc_refs := uc_refs uc - 1\<rparr>
            in if uc_refs uc = 0 then uc\<lparr>uc_map := None\<rparr> else uc)"

text \<open>Lists of URIs; the array grows by reallocation, whose outcome is \<open>alloc\<close>.\<close>

definition add_to_uri_list :: "bool \<Rightarrow> nat list \<Rightarrow> nat \<Rightarrow> uri_cache \<Rightarrow> nat option \<times> nat list \<times> uri_cache" where
  "add_to_uri_list alloc uris a uc =
     (if \<not> alloc then (None, uris, uc) else (Some a, uris @ [a], get_uri_reference a uc))"

definition free_uri_list :: "nat list \<Rightarrow> uri_cache \<Rightarrow> nat list \<times> uri_cache" where
  "free_uri_list uris uc = ([], foldl (\<lambda>uc a. done_uri a uc) uc uris)"

section \<open>Counted references\<close>

text \<open>The view of the cache: the string and the URI at an address, and how many references
  to it are held.\<close>

definition held :: "uri_cache \<Rightarrow> nat \<Rightarrow> nat" where
  "held uc a = (case uc_heap uc a of None \<Rightarrow> 0 | Some e \<Rightarrow> nat (ce_refs e))"

definition uri_at :: "uri_cache \<Rightarrow> nat \<Rightarrow> uri option" where
  "uri_at uc a = map_option ce_uri (uc_heap uc a)"

definition key_stack :: "nat hash \<Rightarrow> string \<Rightarrow> nat hash_item list" where
  "key_stack h s = stack h (bytes s) (length s)"

text \<open>The table holds exactly one item for every entry, under the string of the entry.\<close>

definition linked :: "nat hash \<Rightarrow> (nat \<rightharpoonup> uri_cache_entry) \<Rightarrow> bool" where
  "linked h heap \<longleftrightarrow> table_inv h \<and>
     (\<forall>a e. heap a = Some e \<longrightarrow> (\<exists>it. key_stack h (u_string (ce_uri e)) = [it] \<and> item_value it = a)) \<and>
     (\<forall>s it. it \<in> set (key_stack h s) \<longrightarrow> (\<exists>e. heap (item_value it) = Some e \<and> u_string (ce_uri e) = s)) \<and>
     (\<forall>s s' it it'. it \<in> set (key_stack h s) \<longrightarrow> it' \<in> set (key_stack h s') \<longrightarrow> item_addr it = item_addr it' \<longrightarrow> s = s')"

definition uc_ok :: "(string \<Rightarrow> bool) \<Rightarrow> uri_cache \<Rightarrow> bool" where
  "uc_ok up uc \<longleftrightarrow>
     finite (dom (uc_heap uc)) \<and> uc_refs uc = int (card (dom (uc_heap uc))) \<and>
     (\<forall>a e. uc_heap uc a = Some e \<longrightarrow> 1 \<le> ce_refs e \<and> parse_uri up (u_string (ce_uri e)) = (URI_ERRNO_OK, ce_uri e)) \<and>
     (case uc_map uc of None \<Rightarrow> uc_refs uc = 0 | Some h \<Rightarrow> uc_refs uc \<noteq> 0 \<and> linked h (uc_heap uc))"

text \<open>The allocator hands out addresses that are not in use.\<close>

definition fresh_mem :: "uri_mem \<Rightarrow> uri_cache \<Rightarrow> bool" where
  "fresh_mem m uc \<longleftrightarrow>
     (case mem_entry m of None \<Rightarrow> True | Some a \<Rightarrow> uc_heap uc a = None) \<and>
     (case (mem_item m, uc_map uc) of
        (Some i, Some h) \<Rightarrow> i \<notin> item_addr ` set (concat (buckets h))
      | _ \<Rightarrow> True)"

section \<open>The table and the entries\<close>

lemma bytes_inj: "bytes s = bytes t \<longleftrightarrow> s = t"
proof -
  have "unat (of_nat (of_char c) :: uchar) = of_char c" for c
    by (simp only: unat_of_nat) (simp add: of_char_mod_256)
  then have "unat (of_char c :: uchar) = of_char c" for c
    by (simp only: of_nat_of_char)
  then have "inj (of_char :: char \<Rightarrow> uchar)"
    by (metis injI of_char_eq_iff)
  then show ?thesis
    by (simp add: bytes_def inj_map_eq_map)
qed

lemma length_bytes [simp]: "length (bytes s) = length s"
  by (simp add: bytes_def)

lemma key_stack_get: "table_inv h \<Longrightarrow> key_stack (snd (get_hash_item h k n)) s = key_stack h s"
  by (simp add: key_stack_def ht.stk_get)

lemma get_key_stack:
  "fst (get_hash_item h (bytes s) (length s)) = (case key_stack h s of [] \<Rightarrow> None | it # _ \<Rightarrow> Some it)"
  by (simp add: key_stack_def ht.get_top)

lemma key_stack_add:
  assumes "table_inv h" "add_hash_item (Some i) h (bytes s) (length s) a = (Some it, h')"
  shows "key_stack h' t = (if t = s then it # key_stack h t else key_stack h t)" "item_addr it = i" "item_value it = a"
    "table_inv h'"
proof -
  have it: "it = \<lparr>item_addr = i, item_key = bytes s, item_keylen = length s, item_value = a\<rparr>"
    using assms(2) by (auto simp: add_hash_item_def Let_def)
  then have "key_matches (bytes t) (length t) it \<longleftrightarrow> t = s"
    by (auto simp: key_matches_def bytes_inj)
  with stack_add_hash_item [OF assms, of "bytes t" "length t"]
  show "key_stack h' t = (if t = s then it # key_stack h t else key_stack h t)"
    by (simp add: key_stack_def)
  show "table_inv h'"
    using add_hash_item_inv [OF assms(1), of "Some i" "bytes s" "length s" a] assms(2) by simp
qed (use assms(2) in \<open>auto simp: add_hash_item_def Let_def\<close>)

lemma key_stack_del:
  "table_inv h \<Longrightarrow> key_stack (del_hash_item h i) s = filter (\<lambda>it. item_addr it \<noteq> i) (key_stack h s)"
  by (simp add: key_stack_def ht.stk_remove)

lemma key_stack_items: "table_inv h \<Longrightarrow> set (key_stack h s) \<subseteq> set (concat (buckets h))"
  using hashval_bound [of h "bytes s" "length s"]
  by (auto simp: key_stack_def stack_def intro!: bexI [of _ "buckets h ! hashval h (bytes s) (length s)"])

lemma linked_get: "linked h heap \<Longrightarrow> linked (snd (get_hash_item h k n)) heap"
  unfolding linked_def by (simp add: key_stack_get ht.inv_get)

lemma linked_None:
  "linked h heap \<Longrightarrow> fst (get_hash_item h (bytes s) (length s)) = None \<Longrightarrow>
     key_stack h s = [] \<and> (\<forall>a e. heap a = Some e \<longrightarrow> u_string (ce_uri e) \<noteq> s)"
  unfolding linked_def get_key_stack by (cases "key_stack h s") force+

lemma linked_Some:
  assumes "linked h heap" "fst (get_hash_item h (bytes s) (length s)) = Some it"
  shows "key_stack h s = [it]" "\<exists>e. heap (item_value it) = Some e \<and> u_string (ce_uri e) = s"
proof -
  have it: "it \<in> set (key_stack h s)"
    using assms(2) by (auto simp: get_key_stack split: list.splits)
  with assms(1) show ex: "\<exists>e. heap (item_value it) = Some e \<and> u_string (ce_uri e) = s"
    unfolding linked_def by blast
  then obtain it' where "key_stack h s = [it']"
    using assms(1) unfolding linked_def by blast
  with it show "key_stack h s = [it]"
    by simp
qed

lemma linked_entry:
  assumes "linked h heap" "heap a = Some e"
  obtains it where "fst (get_hash_item h (bytes (u_string (ce_uri e))) (length (u_string (ce_uri e)))) = Some it"
    "key_stack h (u_string (ce_uri e)) = [it]" "item_value it = a"
proof -
  from assms obtain it where "key_stack h (u_string (ce_uri e)) = [it]" "item_value it = a"
    unfolding linked_def by blast
  then show thesis
    by (intro that [of it]) (simp_all add: get_key_stack)
qed

lemma linked_dist:
  "linked h heap \<Longrightarrow> x \<in> set (key_stack h s) \<Longrightarrow> y \<in> set (key_stack h t) \<Longrightarrow> item_addr x = item_addr y \<Longrightarrow> s = t"
  unfolding linked_def by blast

text \<open>At most one entry for a string.\<close>

lemma linked_unique:
  assumes "linked h heap" "heap a = Some e" "heap b = Some e'" "u_string (ce_uri e) = u_string (ce_uri e')"
  shows "a = b"
proof -
  obtain it where "key_stack h (u_string (ce_uri e)) = [it]" "item_value it = a"
    using linked_entry [OF assms(1,2)] by metis
  moreover obtain it' where "key_stack h (u_string (ce_uri e')) = [it']" "item_value it' = b"
    using linked_entry [OF assms(1,3)] by metis
  ultimately show ?thesis
    using assms(4) by simp
qed

lemma linked_add:
  assumes "linked h heap" "key_stack h s = []" "heap a = None" "i \<notin> item_addr ` set (concat (buckets h))"
    and "add_hash_item (Some i) h (bytes s) (length s) a = (Some it, h')" "u_string (ce_uri e) = s"
  shows "linked h' (heap(a \<mapsto> e))"
proof -
  have inv: "table_inv h"
    using assms(1) by (simp add: linked_def)
  note add = key_stack_add [OF inv assms(5)]
  have fresh: "item_addr it' \<noteq> i" if "it' \<in> set (key_stack h t)" for it' t
    using that key_stack_items [OF inv, of t] assms(4) by blast
  have ks: "key_stack h' t = (if t = s then [it] else key_stack h t)" for t
    using add(1) assms(2) by simp
  have old: "heap b = Some e' \<Longrightarrow> u_string (ce_uri e') \<noteq> s" for b e'
    using assms(1,2) unfolding linked_def by fastforce
  show ?thesis
    unfolding linked_def ks
  proof (intro conjI allI impI)
    fix b e' assume b: "(heap(a \<mapsto> e)) b = Some e'"
    show "\<exists>it'. (if u_string (ce_uri e') = s then [it] else key_stack h (u_string (ce_uri e'))) = [it'] \<and> item_value it' = b"
      using b old [of b e'] assms(1,6) add(3) unfolding linked_def by (cases "b = a") auto
  next
    fix t it' assume "it' \<in> set (if t = s then [it] else key_stack h t)"
    then show "\<exists>e'. (heap(a \<mapsto> e)) (item_value it') = Some e' \<and> u_string (ce_uri e') = t"
      using assms(1,3,6) add(3) unfolding linked_def by (cases "t = s") (auto, force)
  next
    fix t t' x y
    assume "x \<in> set (if t = s then [it] else key_stack h t)" "y \<in> set (if t' = s then [it] else key_stack h t')"
      and "item_addr x = item_addr y"
    then show "t = t'"
      using linked_dist [OF assms(1), of x t y t'] add(2) fresh [of x t] fresh [of y t']
      by (cases "t = s"; cases "t' = s") auto
  qed (rule add(4))
qed

lemma linked_del:
  assumes "linked h heap" "heap a = Some e" "key_stack h (u_string (ce_uri e)) = [it]"
  shows "linked (del_hash_item h (item_addr it)) (heap(a := None))"
proof -
  let ?s = "u_string (ce_uri e)"
  have inv: "table_inv h"
    using assms(1) by (simp add: linked_def)
  have val: "item_value it = a"
    using linked_entry [OF assms(1,2)] assms(3) by (metis list.inject)
  have other: "item_addr it' \<noteq> item_addr it" if "it' \<in> set (key_stack h t)" "t \<noteq> ?s" for it' t
    using assms(1,3) that unfolding linked_def by (metis list.set_intros(1))
  have ks: "key_stack (del_hash_item h (item_addr it)) t = (if t = ?s then [] else key_stack h t)" for t
    using other [of _ t] assms(3) by (auto simp: key_stack_del [OF inv] filter_id_conv)
  show ?thesis
    unfolding linked_def ks
  proof (intro conjI allI impI)
    fix b e' assume b: "(heap(a := None)) b = Some e'"
    then have "b \<noteq> a" "heap b = Some e'"
      by (auto split: if_splits)
    then show "\<exists>it'. (if u_string (ce_uri e') = ?s then [] else key_stack h (u_string (ce_uri e'))) = [it'] \<and> item_value it' = b"
      using linked_unique [OF assms(1), of b e' a e] assms(1,2) unfolding linked_def by auto
  next
    fix t it' assume t: "it' \<in> set (if t = ?s then [] else key_stack h t)"
    then obtain e' where e': "heap (item_value it') = Some e'" "u_string (ce_uri e') = t" "t \<noteq> ?s"
      using assms(1) unfolding linked_def by (metis empty_iff list.set(1))
    then have "item_value it' \<noteq> a"
      using assms(2) by auto
    with e' show "\<exists>e'. (heap(a := None)) (item_value it') = Some e' \<and> u_string (ce_uri e') = t"
      by auto
  next
    fix t t' x y
    assume "x \<in> set (if t = ?s then [] else key_stack h t)" "y \<in> set (if t' = ?s then [] else key_stack h t')"
      and "item_addr x = item_addr y"
    then show "t = t'"
      using linked_dist [OF assms(1), of x t y t'] by (cases "t = ?s"; cases "t' = ?s") auto
  qed (rule ht.inv_remove [OF inv])
qed

lemma linked_cong:
  assumes "linked h heap" "\<And>a. map_option ce_uri (heap' a) = map_option ce_uri (heap a)"
  shows "linked h heap'"
proof -
  have fwd: "\<exists>e. heap a = Some e \<and> ce_uri e = ce_uri e'" if "heap' a = Some e'" for a e'
    using assms(2) [of a] that by (cases "heap a") auto
  have bwd: "\<exists>e. heap' a = Some e \<and> ce_uri e = ce_uri e'" if "heap a = Some e'" for a e'
    using assms(2) [of a] that by (cases "heap' a") auto
  show ?thesis
    unfolding linked_def
  proof (intro conjI allI impI)
    fix a e' assume "heap' a = Some e'"
    with fwd linked_entry [OF assms(1)] show "\<exists>it. key_stack h (u_string (ce_uri e')) = [it] \<and> item_value it = a"
      by metis
  next
    fix s it assume "it \<in> set (key_stack h s)"
    then obtain e where "heap (item_value it) = Some e" "u_string (ce_uri e) = s"
      using assms(1) unfolding linked_def by blast
    with bwd show "\<exists>e. heap' (item_value it) = Some e \<and> u_string (ce_uri e) = s"
      by metis
  next
    show "table_inv h"
      using assms(1) by (simp add: linked_def)
  qed (rule linked_dist [OF assms(1)])
qed

lemma linked_init: "init_hash alloc (hash_size 3) strhash = Some h \<Longrightarrow> linked h (\<lambda>_. None)"
proof -
  assume h: "init_hash alloc (hash_size 3) strhash = Some h"
  then have inv: "table_inv h"
    by (rule init_hash_inv) (simp_all add: strhash_ok hash_size_pow)
  have "concat (buckets h) = []"
    using h by (auto simp: init_hash_def split: if_splits)
  then have "key_stack h s = []" for s
    using key_stack_items [OF inv, of s] by (simp del: concat_eq_Nil_conv)
  with inv show ?thesis
    by (simp add: linked_def)
qed

section \<open>Registering and releasing\<close>

lemma get_miss: "fst (get_hash_item h k n) = None \<Longrightarrow> get_hash_item h k n = (None, h)"
  by (auto simp: get_hash_item_def Let_def split: option.splits)

lemma parse_string: "parse_uri up s = (URI_ERRNO_OK, u) \<Longrightarrow> u_string u = s"
  using parse_uri_ok [of up s] by (cases "s = []") (auto simp: parse_uri_def)

text \<open>What \<^verbatim>\<open>get_uri_cache_entry\<close> does with an existing table.\<close>

lemma get_entry_miss:
  assumes "uc_map uc = Some h" "fst (get_hash_item h (bytes s) (length s)) = None" "s \<noteq> []"
  shows "get_uri_cache_entry up m s uc =
     (case (mem_entry m, parse_uri up s, mem_item m) of
        (Some a, (URI_ERRNO_OK, u), Some i) \<Rightarrow>
          (Some a, uc\<lparr>uc_map := Some (snd (add_hash_item (Some i) h (bytes s) (length s) a)), uc_refs := uc_refs uc + 1,
                      uc_heap := (uc_heap uc)(a \<mapsto> \<lparr>ce_uri = u, ce_refs = 0\<rparr>)\<rparr>)
      | _ \<Rightarrow> (None, uc))"
proof -
  have "uc\<lparr>uc_map := Some h\<rparr> = uc"
    using assms(1) by (cases uc) simp
  then show ?thesis
    using assms get_miss [OF assms(2)]
    by (cases "mem_entry m"; cases "parse_uri up s"; cases "mem_item m"; cases "fst (parse_uri up s)")
      (simp_all add: get_uri_cache_entry_def add_hash_item_def Let_def)
qed

lemma get_entry_hit:
  assumes "uc_map uc = Some h" "fst (get_hash_item h (bytes s) (length s)) = Some it" "s \<noteq> []"
  shows "get_uri_cache_entry up m s uc = (Some (item_value it), uc\<lparr>uc_map := Some (snd (get_hash_item h (bytes s) (length s)))\<rparr>)"
  using assms by (cases "get_hash_item h (bytes s) (length s)") (simp add: get_uri_cache_entry_def)

definition uentry_ok :: "(string \<Rightarrow> bool) \<Rightarrow> uri_cache_entry \<Rightarrow> bool" where
  "uentry_ok up e \<longleftrightarrow> 1 \<le> ce_refs e \<and> parse_uri up (u_string (ce_uri e)) = (URI_ERRNO_OK, ce_uri e)"

lemma uc_okI:
  assumes "finite (dom (uc_heap uc))" "uc_refs uc = int (card (dom (uc_heap uc)))" "uc_map uc = Some h"
    and "linked h (uc_heap uc)" "uc_refs uc \<noteq> 0" "\<And>a e. uc_heap uc a = Some e \<Longrightarrow> uentry_ok up e"
  shows "uc_ok up uc"
  using assms by (auto simp: uc_ok_def uentry_ok_def)

lemma uc_okD:
  assumes "uc_ok up uc"
  shows "finite (dom (uc_heap uc))" "uc_refs uc = int (card (dom (uc_heap uc)))" "\<And>a e. uc_heap uc a = Some e \<Longrightarrow> uentry_ok up e"
    "uc_refs uc = 0 \<longleftrightarrow> uc_map uc = None" "uc_map uc = Some h \<Longrightarrow> linked h (uc_heap uc)"
  using assms by (auto simp: uc_ok_def uentry_ok_def split: option.splits)

lemma uc_empty: "uc_ok up uc \<Longrightarrow> uc_refs uc = 0 \<Longrightarrow> uc_heap uc = (\<lambda>_. None)"
  using uc_okD(1,2) [of up uc] by simp

text \<open>Taking a reference to an entry that may have none yet.\<close>

lemma add_refs_ok:
  assumes "finite (dom (uc_heap uc))" "uc_refs uc = int (card (dom (uc_heap uc)))" "uc_map uc = Some h" "linked h (uc_heap uc)"
    and "\<And>b e. uc_heap uc b = Some e \<Longrightarrow> b \<noteq> a \<Longrightarrow> uentry_ok up e"
    and "uc_heap uc a = Some e" "0 \<le> ce_refs e" "parse_uri up (u_string (ce_uri e)) = (URI_ERRNO_OK, ce_uri e)"
  shows "uc_ok up (add_refs 1 a uc)"
proof -
  have "dom (uc_heap (add_refs 1 a uc)) = dom (uc_heap uc)" "uc_refs uc \<noteq> 0"
    using assms(1,2,6) by (auto simp: add_refs_def)
  then show ?thesis
    using assms by (intro uc_okI [of _ h] linked_cong [OF assms(4)])
      (auto simp: add_refs_def uentry_ok_def split: if_splits)
qed

lemma held_add_refs:
  "uc_heap uc a = Some e \<Longrightarrow> 0 \<le> ce_refs e \<Longrightarrow> held (add_refs 1 a uc) = (held uc)(a := held uc a + 1)"
  by (auto simp: held_def add_refs_def fun_eq_iff)

lemma uri_at_add_refs [simp]: "uri_at (add_refs d a uc) = uri_at uc"
  by (auto simp: uri_at_def add_refs_def fun_eq_iff option.map_comp o_def)

text \<open>The abstract effect of an operation that may return a URI.\<close>

definition registers :: "(string \<Rightarrow> bool) \<Rightarrow> string \<Rightarrow> uri_cache \<Rightarrow> nat option \<times> uri_cache \<Rightarrow> bool" where
  "registers up s uc res \<longleftrightarrow>
     (case res of
        (None, uc') \<Rightarrow> uc_ok up uc' \<and> uc_heap uc' = uc_heap uc
      | (Some a, uc') \<Rightarrow>
          uc_ok up uc' \<and> held uc' = (held uc)(a := held uc a + 1) \<and>
          uri_at uc' = (uri_at uc)(a \<mapsto> snd (parse_uri up s)) \<and> fst (parse_uri up s) = URI_ERRNO_OK \<and>
          uri_at uc a \<in> {None, Some (snd (parse_uri up s))})"

lemma register_hit:
  assumes "uc_ok up uc" "uc_map uc = Some h" "fst (get_hash_item h (bytes s) (length s)) = Some it" "s \<noteq> []"
  shows "registers up s uc (Some (item_value it), add_refs 1 (item_value it) (uc\<lparr>uc_map := Some (snd (get_hash_item h (bytes s) (length s)))\<rparr>))"
proof -
  let ?a = "item_value it" and ?uc = "uc\<lparr>uc_map := Some (snd (get_hash_item h (bytes s) (length s)))\<rparr>"
  note ok = uc_okD [OF assms(1)]
  obtain e where e: "uc_heap uc ?a = Some e" "u_string (ce_uri e) = s"
    using linked_Some(2) [OF ok(5) [OF assms(2)] assms(3)] by blast
  have "uentry_ok up e"
    using ok(3) e(1) by blast
  moreover from this have pos: "0 \<le> ce_refs e" "parse_uri up (u_string (ce_uri e)) = (URI_ERRNO_OK, ce_uri e)"
    by (simp_all add: uentry_ok_def)
  moreover have "uc_ok up (add_refs 1 ?a ?uc)"
    using ok e pos by (intro add_refs_ok [of _ "snd (get_hash_item h (bytes s) (length s))"])
      (auto simp: linked_get assms(2))
  moreover have "held (add_refs 1 ?a ?uc) = (held uc)(?a := held uc ?a + 1)"
    using held_add_refs [of ?uc ?a e] e \<open>uentry_ok up e\<close> by (simp add: uentry_ok_def held_def [abs_def])
  moreover have "uri_at ?uc = uri_at uc" "uri_at uc = (uri_at uc)(?a \<mapsto> ce_uri e)"
    using e(1) by (auto simp: uri_at_def fun_eq_iff)
  moreover have "uri_at uc ?a = Some (ce_uri e)"
    using e(1) by (simp add: uri_at_def)
  ultimately show ?thesis
    using e(2) by (simp add: registers_def uentry_ok_def)
qed

lemma register_new:
  assumes "finite (dom (uc_heap uc))" "uc_refs uc = int (card (dom (uc_heap uc)))" "uc_map uc = Some h" "linked h (uc_heap uc)"
    and "\<And>b e. uc_heap uc b = Some e \<Longrightarrow> uentry_ok up e"
    and "fst (get_hash_item h (bytes s) (length s)) = None" "parse_uri up s = (URI_ERRNO_OK, u)"
    and "uc_heap uc a = None" "i \<notin> item_addr ` set (concat (buckets h))"
  shows "registers up s uc (Some a, add_refs 1 a (uc\<lparr>uc_map := Some (snd (add_hash_item (Some i) h (bytes s) (length s) a)),
     uc_refs := uc_refs uc + 1, uc_heap := (uc_heap uc)(a \<mapsto> \<lparr>ce_uri = u, ce_refs = 0\<rparr>)\<rparr>))"
proof -
  let ?e = "\<lparr>ce_uri = u, ce_refs = 0\<rparr>"
  obtain it h' where add: "add_hash_item (Some i) h (bytes s) (length s) a = (Some it, h')"
    by (simp add: add_hash_item_def Let_def)
  let ?uc = "uc\<lparr>uc_map := Some h', uc_refs := uc_refs uc + 1, uc_heap := (uc_heap uc)(a \<mapsto> ?e)\<rparr>"
  have s: "u_string u = s"
    using assms(7) by (rule parse_string)
  have "linked h' ((uc_heap uc)(a \<mapsto> ?e))"
    using linked_add [OF assms(4) _ assms(8,9) add, of ?e] linked_None [OF assms(4,6)] s by simp
  moreover have "a \<notin> dom (uc_heap uc)"
    using assms(8) by auto
  ultimately have "uc_ok up (add_refs 1 a ?uc)"
    using assms(1,2,5,7) s by (intro add_refs_ok [of _ h' _ _ ?e]) auto
  moreover have "held (add_refs 1 a ?uc) = (held uc)(a := held uc a + 1)"
    using assms(8) by (auto simp: held_def add_refs_def fun_eq_iff)
  moreover have "uri_at ?uc = (uri_at uc)(a \<mapsto> u)"
    by (auto simp: uri_at_def fun_eq_iff)
  moreover have "uri_at uc a = None"
    using assms(8) by (simp add: uri_at_def)
  ultimately show ?thesis
    using assms(7) add by (simp add: registers_def)
qed

lemma view_map [simp]: "held (uc\<lparr>uc_map := x\<rparr>) = held uc" "uri_at (uc\<lparr>uc_map := x\<rparr>) = uri_at uc"
  by (auto simp: held_def uri_at_def fun_eq_iff)

lemma registers_map [simp]: "registers up s (uc\<lparr>uc_map := x\<rparr>) res = registers up s uc res"
  by (simp add: registers_def split: prod.split option.split)

lemma registers_None: "uc_ok up uc \<Longrightarrow> registers up s uc (None, uc)"
  by (simp add: registers_def)

lemma registers_fail: "uc_ok up uc \<Longrightarrow> uc_refs uc = 0 \<Longrightarrow> registers up s uc (None, uc\<lparr>uc_map := None\<rparr>)"
  by (auto simp: registers_def uc_ok_def)

lemma get_entry_none: "get_uri_cache_entry up m [] uc = (None, uc)"
  by (simp add: get_uri_cache_entry_def)

lemma register_first:
  assumes "uc_ok up uc" "uc_refs uc = 0" "fresh_mem m uc"
  shows "registers up s uc (get_whole_uri up m s uc)"
proof (cases "init_hash (mem_map m) (hash_size 3) strhash :: nat hash option")
  case None
  then show ?thesis
    using registers_fail [OF assms(1,2)] assms(2) by (simp add: get_whole_uri_def Let_def)
next
  case (Some h)
  let ?uc = "uc\<lparr>uc_map := Some h\<rparr>"
  have heap: "uc_heap uc = (\<lambda>_. None)"
    using assms(1,2) by (rule uc_empty)
  have "concat (buckets h) = []"
    using Some by (auto simp: init_hash_def split: if_splits)
  then have fresh: "i \<notin> item_addr ` set (concat (buckets h))" for i
    by (simp del: concat_eq_Nil_conv set_concat)
  have link: "linked h (uc_heap uc)"
    using linked_init [OF Some] heap by simp
  then have miss: "fst (get_hash_item h (bytes s) (length s)) = None"
    using linked_Some(2) [of h "uc_heap uc" s] heap by (cases "fst (get_hash_item h (bytes s) (length s))") auto
  have new: "registers up s uc (Some a, add_refs 1 a (?uc\<lparr>uc_map := Some (snd (add_hash_item (Some i) h (bytes s) (length s) a)),
     uc_refs := uc_refs ?uc + 1, uc_heap := (uc_heap ?uc)(a \<mapsto> \<lparr>ce_uri = u, ce_refs = 0\<rparr>)\<rparr>))"
    if "parse_uri up s = (URI_ERRNO_OK, u)" for a i u
    using register_new [of ?uc h up s u a i] link miss that fresh assms(2) heap by simp
  show ?thesis
  proof (cases "s = []")
    case True
    then show ?thesis
      using registers_fail [OF assms(1,2)] assms(2) Some by (simp add: get_whole_uri_def Let_def get_entry_none)
  next
    case False
    show ?thesis
      using get_entry_miss [of ?uc h s up m] miss False registers_fail [OF assms(1,2)] assms(2) Some new
      by (auto simp: get_whole_uri_def Let_def split: option.split uri_errno.split prod.split)
  qed
qed

lemma register_more:
  assumes "uc_ok up uc" "uc_refs uc \<noteq> 0" "fresh_mem m uc"
  shows "registers up s uc (get_whole_uri up m s uc)"
proof -
  obtain h where h: "uc_map uc = Some h"
    using assms(1,2) uc_okD(4) by blast
  note ok = uc_okD [OF assms(1)] and link = uc_okD(5) [OF assms(1) h]
  consider "s = []" | "s \<noteq> []" "fst (get_hash_item h (bytes s) (length s)) = None"
    | it where "s \<noteq> []" "fst (get_hash_item h (bytes s) (length s)) = Some it"
    by fastforce
  then show ?thesis
  proof cases
    case 1
    then show ?thesis
      using assms(1,2) by (simp add: get_whole_uri_def Let_def get_entry_none registers_None)
  next
    case 2
    have new: "registers up s uc (Some a, add_refs 1 a (uc\<lparr>uc_map := Some (snd (add_hash_item (Some i) h (bytes s) (length s) a)),
       uc_refs := uc_refs uc + 1, uc_heap := (uc_heap uc)(a \<mapsto> \<lparr>ce_uri = u, ce_refs = 0\<rparr>)\<rparr>))"
      if "parse_uri up s = (URI_ERRNO_OK, u)" "mem_entry m = Some a" "mem_item m = Some i" for a i u
      using register_new [OF ok(1,2) h link ok(3) 2(2) that(1)] that(2,3) assms(3) h by (simp add: fresh_mem_def)
    show ?thesis
      using get_entry_miss [OF h 2(2,1), of up m] assms(1,2) new
      by (auto simp: get_whole_uri_def Let_def registers_None split: option.split uri_errno.split prod.split)
  next
    case 3
    then show ?thesis
      using get_entry_hit [OF h 3(2,1), of up m] register_hit [OF assms(1) h 3(2,1)] assms(2)
      by (simp add: get_whole_uri_def Let_def)
  qed
qed

lemma get_whole_uri_registers: "uc_ok up uc \<Longrightarrow> fresh_mem m uc \<Longrightarrow> registers up s uc (get_whole_uri up m s uc)"
  using register_first register_more by blast

lemma done_shared:
  assumes "uc_ok up uc" "uc_heap uc a = Some e" "ce_refs e \<noteq> 1"
  shows "uc_ok up (done_uri a uc) \<and> held (done_uri a uc) = (held uc)(a := held uc a - 1) \<and> uri_at (done_uri a uc) = uri_at uc"
proof -
  note ok = uc_okD [OF assms(1)]
  have d: "done_uri a uc = add_refs (- 1) a uc"
    using assms(2,3) by (simp add: done_uri_def Let_def)
  have e: "uentry_ok up e" "2 \<le> ce_refs e"
    using ok(3) [OF assms(2)] assms(3) by (auto simp: uentry_ok_def)
  obtain h where h: "uc_map uc = Some h" "uc_refs uc \<noteq> 0"
    using ok(1,2,4) assms(2) by (cases "uc_map uc") auto
  have "dom (uc_heap (add_refs (- 1) a uc)) = dom (uc_heap uc)"
    using assms(2) by (auto simp: add_refs_def)
  then have "uc_ok up (add_refs (- 1) a uc)"
    using ok(1,2) h e ok(3) assms(2) by (intro uc_okI [of _ h] linked_cong [OF ok(5) [OF h(1)]])
      (auto simp: add_refs_def uentry_ok_def split: if_splits)
  moreover have "held (add_refs (- 1) a uc) = (held uc)(a := held uc a - 1)"
    using assms(2) by (auto simp: held_def add_refs_def fun_eq_iff)
  ultimately show ?thesis
    by (simp add: d)
qed

lemma done_last:
  assumes "uc_ok up uc" "uc_heap uc a = Some e" "ce_refs e = 1"
  shows "uc_ok up (done_uri a uc) \<and> held (done_uri a uc) = (held uc)(a := 0) \<and> uri_at (done_uri a uc) = (uri_at uc)(a := None)"
proof -
  note ok = uc_okD [OF assms(1)]
  let ?s = "u_string (ce_uri e)"
  obtain h where h: "uc_map uc = Some h" "uc_refs uc \<noteq> 0"
    using ok(1,2,4) assms(2) by (cases "uc_map uc") auto
  obtain it where it: "fst (get_hash_item h (bytes ?s) (length ?s)) = Some it" "key_stack h ?s = [it]" "item_value it = a"
    using linked_entry [OF ok(5) [OF h(1)] assms(2)] .
  define h' where "h' = snd (get_hash_item h (bytes ?s) (length ?s))"
  have link: "linked h' (uc_heap uc)" "key_stack h' ?s = [it]"
    using linked_get [OF ok(5) [OF h(1)]] it(2) ok(5) [OF h(1)] by (simp_all add: h'_def key_stack_get linked_def)
  define uc1 where "uc1 = uc\<lparr>uc_map := Some (del_hash_item h' (item_addr it)), uc_refs := uc_refs uc - 1, uc_heap := (uc_heap uc)(a := None)\<rparr>"
  have g: "get_hash_item h (bytes ?s) (length ?s) = (Some it, h')"
    using it(1) by (simp add: h'_def prod_eq_iff)
  have d: "done_uri a uc = (if uc_refs uc - 1 = 0 then uc1\<lparr>uc_map := None\<rparr> else uc1)"
    using assms(2,3) g h(1) it(3) by (simp add: done_uri_def Let_def add_refs_def uc1_def)
  have card: "card (dom ((uc_heap uc)(a := None))) = card (dom (uc_heap uc)) - 1" "0 < card (dom (uc_heap uc))"
    using ok(1) assms(2) by (simp add: card_Diff_singleton domI, auto simp: card_gt_0_iff)
  have link1: "linked (del_hash_item h' (item_addr it)) (uc_heap uc1)"
    using linked_del [OF link(1) assms(2) link(2)] by (simp add: uc1_def)
  have refs: "uc_refs uc1 = int (card (dom (uc_heap uc1)))" "finite (dom (uc_heap uc1))"
    using ok(1,2) card by (simp_all add: uc1_def of_nat_diff)
  have ents: "uc_heap uc1 b = Some e' \<Longrightarrow> uentry_ok up e'" for b e'
    using ok(3) by (auto simp: uc1_def split: if_splits)
  have "uc_ok up (done_uri a uc)"
  proof (cases "uc_refs uc - 1 = 0")
    case True
    then have "uc_refs uc1 = 0" by (simp add: uc1_def)
    with True refs ents show ?thesis
      unfolding d by (auto simp: uc_ok_def uentry_ok_def)
  next
    case False
    with refs link1 ents show ?thesis
      unfolding d by (intro uc_okI [of _ "del_hash_item h' (item_addr it)"]) (simp_all add: uc1_def)
  qed
  moreover have "held uc1 = (held uc)(a := 0)" "uri_at uc1 = (uri_at uc)(a := None)"
    by (auto simp: uc1_def held_def uri_at_def fun_eq_iff)
  ultimately show ?thesis
    unfolding d by simp
qed

lemma done_uri_post:
  assumes "uc_ok up uc" "0 < held uc a"
  shows "uc_ok up (done_uri a uc) \<and> held (done_uri a uc) = (held uc)(a := held uc a - 1) \<and>
     uri_at (done_uri a uc) = (if held uc a = 1 then (uri_at uc)(a := None) else uri_at uc)"
proof -
  obtain e where e: "uc_heap uc a = Some e" "held uc a = nat (ce_refs e)"
    using assms(2) by (cases "uc_heap uc a") (auto simp: held_def)
  have "1 \<le> ce_refs e"
    using uc_okD(3) [OF assms(1) e(1)] by (simp add: uentry_ok_def)
  then show ?thesis
    using done_shared [OF assms(1) e(1)] done_last [OF assms(1) e(1)] e(2) by (cases "ce_refs e = 1") (auto simp: fun_upd_def)
qed

section \<open>The interface of the reference counts\<close>

text \<open>What the holders of URI references rely on: taking and releasing a reference changes the
  count of that address by one, as long as a reference is held.\<close>

locale counted_refs =
  fixes acquire release :: "nat \<Rightarrow> 's \<Rightarrow> 's"
    and refs :: "'s \<Rightarrow> nat \<Rightarrow> nat"
    and ok :: "'s \<Rightarrow> bool"
  assumes acquire: "ok s \<Longrightarrow> 0 < refs s a \<Longrightarrow> ok (acquire a s) \<and> refs (acquire a s) = (refs s)(a := refs s a + 1)"
    and release: "ok s \<Longrightarrow> 0 < refs s a \<Longrightarrow> ok (release a s) \<and> refs (release a s) = (refs s)(a := refs s a - 1)"
begin

text \<open>Releasing all references of a list, each held at least as often as the list has it.\<close>

lemma release_all:
  "ok s \<Longrightarrow> \<forall>a. count_list as a \<le> refs s a \<Longrightarrow>
     ok (foldl (\<lambda>s a. release a s) s as) \<and> refs (foldl (\<lambda>s a. release a s) s as) = (\<lambda>a. refs s a - count_list as a)"
proof (induction as arbitrary: s)
  case Nil
  then show ?case by simp
next
  case (Cons a as)
  have "0 < refs s a"
    using Cons.prems(2) [rule_format, of a] by simp
  with Cons.prems(1) have r: "ok (release a s)" "refs (release a s) = (refs s)(a := refs s a - 1)"
    using release by blast+
  have "\<forall>b. count_list as b \<le> refs (release a s) b"
  proof
    fix b
    show "count_list as b \<le> refs (release a s) b"
      using Cons.prems(2) [rule_format, of b] r(2) by (cases "b = a") simp_all
  qed
  from Cons.IH [OF r(1) this] r(2) show ?case
    by (auto simp: fun_eq_iff)
qed

text \<open>A reference taken and released leaves the counts as they were.\<close>

lemma release_acquired:
  "ok s \<Longrightarrow> 0 < refs s a \<Longrightarrow> ok (release a (acquire a s)) \<and> refs (release a (acquire a s)) = refs s"
  using acquire [of s a] release [of "acquire a s" a] by simp

end

lemma get_uri_reference_post:
  assumes "uc_ok up uc" "0 < held uc a"
  shows "uc_ok up (get_uri_reference a uc) \<and> held (get_uri_reference a uc) = (held uc)(a := held uc a + 1)"
proof -
  note ok = uc_okD [OF assms(1)]
  obtain e where e: "uc_heap uc a = Some e"
    using assms(2) by (cases "uc_heap uc a") (auto simp: held_def)
  then obtain h where h: "uc_map uc = Some h"
    using ok(1,2,4) by (cases "uc_map uc") auto
  have pos: "0 \<le> ce_refs e" "parse_uri up (u_string (ce_uri e)) = (URI_ERRNO_OK, ce_uri e)"
    using ok(3) [OF e] by (simp_all add: uentry_ok_def)
  have "uc_ok up (add_refs 1 a uc)"
    using ok(3) by (intro add_refs_ok [OF ok(1,2) h ok(5) [OF h] _ e pos]) blast
  then show ?thesis
    using held_add_refs [OF e pos(1)] by (simp add: get_uri_reference_def)
qed

interpretation ur: counted_refs get_uri_reference done_uri held "uc_ok up" for up
  by unfold_locales (use get_uri_reference_post done_uri_post in blast)+

lemma uri_at_unique:
  assumes "uc_ok up uc" "uri_at uc a = Some u" "uri_at uc b = Some v" "u_string u = u_string v"
  shows "a = b"
proof -
  obtain e e' where e: "uc_heap uc a = Some e" "uc_heap uc b = Some e'" "u_string (ce_uri e) = u_string (ce_uri e')"
    using assms(2-4) by (auto simp: uri_at_def)
  then obtain h where "uc_map uc = Some h"
    using uc_okD(1,2,4) [OF assms(1)] by (cases "uc_map uc") auto
  with e show ?thesis
    using linked_unique [OF uc_okD(5) [OF assms(1)]] by blast
qed

lemma get_whole_uri_succeeds:
  assumes "mem_map m" "mem_entry m \<noteq> None" "mem_item m \<noteq> None" "parse_uri up s = (URI_ERRNO_OK, u)" "uc_ok up uc"
  shows "fst (get_whole_uri up m s uc) \<noteq> None"
proof -
  have "s \<noteq> []"
    using assms(4) by (auto simp: parse_uri_def)
  have tab: "init_hash True (hash_size 3) strhash \<noteq> (None :: nat hash option)"
    by (simp add: init_hash_def hash_size_pow)
  have "fst (get_uri_cache_entry up m s uc') \<noteq> None" if "uc_map uc' = Some h" for uc' h
  proof (cases "fst (get_hash_item h (bytes s) (length s))")
    case None
    then show ?thesis
      using get_entry_miss [OF that None \<open>s \<noteq> []\<close>, of up m] assms(2-4) by auto
  next
    case (Some it)
    then show ?thesis
      using get_entry_hit [OF that Some \<open>s \<noteq> []\<close>, of up m] by simp
  qed
  moreover define uc1 where
    "uc1 = (if uc_refs uc = 0 then uc\<lparr>uc_map := init_hash (mem_map m) (hash_size 3) strhash\<rparr> else uc)"
  moreover obtain h where "uc_map uc1 = Some h"
    using tab assms(1) uc_okD(4) [OF assms(5)] by (fastforce simp: uc1_def)
  ultimately obtain a uc2 where "get_uri_cache_entry up m s uc1 = (Some a, uc2)" "uc_map uc1 \<noteq> None"
    by (metis not_None_eq option.distinct(1) prod.collapse)
  then show ?thesis
    unfolding get_whole_uri_def uc1_def [symmetric] Let_def by simp
qed

lemma uri_at_held: "uc_ok up uc \<Longrightarrow> held uc a = 0 \<longleftrightarrow> uri_at uc a = None"
  using uc_okD(3) [of up uc a] by (auto simp: held_def uri_at_def uentry_ok_def split: option.split)

lemma release_uris:
  "uc_ok up uc \<Longrightarrow> \<forall>a. count_list uris a \<le> held uc a \<Longrightarrow>
     uri_at (foldl (\<lambda>uc a. done_uri a uc) uc uris) a =
       (if held (foldl (\<lambda>uc a. done_uri a uc) uc uris) a = 0 then None else uri_at uc a)"
proof (induction uris arbitrary: uc)
  case Nil
  then show ?case
    using uri_at_held by auto
next
  case (Cons b uris)
  have b: "0 < held uc b"
    using Cons.prems(2) [rule_format, of b] by simp
  note d = done_uri_post [OF Cons.prems(1) b]
  have le: "\<forall>a. count_list uris a \<le> held (done_uri b uc) a"
  proof
    fix a
    show "count_list uris a \<le> held (done_uri b uc) a"
      using Cons.prems(2) [rule_format, of a] d by (cases "a = b") simp_all
  qed
  let ?uc = "foldl (\<lambda>uc a. done_uri a uc) (done_uri b uc) uris"
  have "held ?uc a \<le> held (done_uri b uc) a"
    using ur.release_all [of up "done_uri b uc" uris] d le by simp
  then have "held ?uc a \<noteq> 0 \<Longrightarrow> uri_at (done_uri b uc) a = uri_at uc a"
    using d by (cases "a = b") (auto split: if_splits)
  with Cons.IH [of "done_uri b uc"] d le show ?case
    by simp
qed

section \<open>Properties\<close>



text \<open>A cache with two references to one URI, and memory for another.\<close>

definition sample_mem :: uri_mem where
  "sample_mem = \<lparr>mem_map = True, mem_entry = Some 1, mem_item = Some 2\<rparr>"

lemma empty_uri_cache_ok: "uc_ok up empty_uri_cache" "fresh_mem m empty_uri_cache"
  by (auto simp: uc_ok_def empty_uri_cache_def fresh_mem_def split: option.split)

abbreviation sample_uri :: uri where
  "sample_uri \<equiv> parsed (\<lambda>_. False) ''http'' None ''elinks.cz'' None ''a/b'' None None"

lemma sample_parse: "parse_uri (\<lambda>_. False) ''http://elinks.cz/a/b'' = (URI_ERRNO_OK, sample_uri)"
  using parse_uri_parsed [of "\<lambda>_. False" "''http''" None "''elinks.cz''" None "''a/b''" None None]
  by (simp add: sample_simps)


text \<open>Releasing the URIs of a list with \<^verbatim>\<open>free_uri_list\<close> gives back exactly the references the
  list held: every address loses as many references as it occurs in the list, a URI
  whose last reference is gone is unregistered, the others stay, and the cache remains consistent.
  In particular a list filled by \<^verbatim>\<open>add_to_uri_list\<close> and freed again has no effect on the counts.\<close>

theorem free_uri_list_balanced:
  assumes "uc_ok up uc" "\<forall>a. count_list uris a \<le> held uc a"
  shows "case free_uri_list uris uc of (uris', uc') \<Rightarrow>
     uris' = [] \<and> uc_ok up uc' \<and> held uc' = (\<lambda>a. held uc a - count_list uris a) \<and>
     (\<forall>a. uri_at uc' a = (if held uc a = count_list uris a then None else uri_at uc a))"
proof -
  let ?uc = "foldl (\<lambda>uc a. done_uri a uc) uc uris"
  have post: "uc_ok up ?uc" "held ?uc = (\<lambda>a. held uc a - count_list uris a)"
    using ur.release_all [OF assms] by simp_all
  have "uri_at ?uc a = (if held ?uc a = 0 then None else uri_at uc a)" for a
    using assms by (rule release_uris)
  moreover have "held ?uc a = 0 \<longleftrightarrow> held uc a = count_list uris a" for a
    using assms(2) [rule_format, of a] post(2) by simp
  ultimately show ?thesis
    using post by (simp add: free_uri_list_def)
qed


theorem free_uri_list_balanced_witness:
  "\<exists>a uc uc'. get_uri (\<lambda>_. False) (\<lambda>_. None) sample_mem ''http://elinks.cz/a/b'' 0 empty_uri_cache = (Some a, uc) \<and>
     free_uri_list [a] uc = ([], uc') \<and> uc_ok (\<lambda>_. False) uc' \<and> held uc' a = 0 \<and> uri_at uc' a = None"
proof -
  have "fst (get_whole_uri (\<lambda>_. False) sample_mem ''http://elinks.cz/a/b'' empty_uri_cache) \<noteq> None"
    by (rule get_whole_uri_succeeds [OF _ _ _ sample_parse empty_uri_cache_ok(1)]) (simp_all add: sample_mem_def)
  then obtain a uc where g: "get_whole_uri (\<lambda>_. False) sample_mem ''http://elinks.cz/a/b'' empty_uri_cache = (Some a, uc)"
    by (metis not_None_eq prod.collapse)
  have z: "held empty_uri_cache b = 0" for b
    by (simp add: held_def empty_uri_cache_def)
  have ok: "uc_ok (\<lambda>_. False) uc" "held uc = (held empty_uri_cache)(a := held empty_uri_cache a + 1)"
    using get_whole_uri_registers [OF empty_uri_cache_ok(1) empty_uri_cache_ok(2) [of sample_mem], where up = "\<lambda>_. False" and s = "''http://elinks.cz/a/b''"] g
    by (simp_all add: registers_def)
  then have "\<forall>b. count_list [a] b \<le> held uc b"
    by (simp add: z)
  from free_uri_list_balanced [OF ok(1) this] ok(2) z g show ?thesis
    by (auto simp: get_uri_def)
qed

end
