(* ===== verification/Proxy.thy ===== *)
theory Proxy
  imports UriCache
begin

text \<open>
  \<^verbatim>\<open>elinks/src/protocol/proxy.c\<close>: which proxy a URI is loaded through. Options, environment variables
  and the answer of the \<^verbatim>\<open>get-proxy\<close> script hook are collected in \<open>proxy_env\<close>. A URI loaded through a
  proxy is written as a \<^verbatim>\<open>proxy://\<close> URI whose path is the proxied URI. The strings the code cuts
  at a separator and mends again are described by their parts; the proxy setting, which is cut
  for good at its first slash, is only used as far as that slash.
\<close>

section \<open>Operations\<close>

record proxy_env =
  penv_user_program :: "string \<Rightarrow> bool"
  penv_idn :: "string \<Rightarrow> string option"
  penv_opt :: "string \<Rightarrow> string"
  penv_getenv :: "string \<Rightarrow> string option"
  penv_script :: "string option"

datatype proxy_state = S_PROXY_ERROR | S_OUT_OF_MEM

text \<open>The loop over the comma separated items of the setting \<open>no_proxy\<close>.\<close>

function no_proxy_loop :: "string \<Rightarrow> string \<Rightarrow> bool" where
  "no_proxy_loop url no_proxy =
     (if no_proxy = [] then False
      else
        let item = dropWhile c_isspace (takeWhile (\<lambda>c. c \<noteq> CHR '','') no_proxy);
            jumper = dropWhile (\<lambda>c. c \<noteq> CHR '','') no_proxy
        in if c_strcasestr url item \<noteq> None then True
           else if jumper = [] then False
           else no_proxy_loop url (tl jumper))"
  by auto
termination
proof (relation "measure (\<lambda>(url, no_proxy). length no_proxy)")
  fix url no_proxy :: string and item jumper :: string
  assume "jumper = dropWhile (\<lambda>c. c \<noteq> CHR '','') no_proxy" "jumper \<noteq> []"
  then have "length (tl jumper) < length jumper" "length jumper \<le> length no_proxy"
    by (simp_all add: length_dropWhile_le)
  then show "((url, tl jumper), url, no_proxy) \<in> measure (\<lambda>(url, no_proxy). length no_proxy)"
    by simp
qed simp

definition proxy_probe_no_proxy :: "string \<Rightarrow> string option \<Rightarrow> bool" where
  "proxy_probe_no_proxy url no_proxy =
     (case no_proxy of None \<Rightarrow> False | Some s \<Rightarrow> no_proxy_loop (takeWhile (\<lambda>c. c \<noteq> CHR ''/'') url) s)"

text \<open>A proxy that makes no valid URI is reported through the state the caller passed.\<close>

definition proxy_uri ::
  "proxy_env \<Rightarrow> uri_mem \<Rightarrow> uri \<Rightarrow> string \<Rightarrow> uri_cache \<Rightarrow> nat option \<times> proxy_state option \<times> uri_cache" where
  "proxy_uri env m u proxy uc =
     (case get_uri (penv_user_program env) (penv_idn env) m
             (''proxy://'' @ proxy @ ''/'' @ add_uri_to_string (penv_idn env) u URI_BASE) 0 uc of
        (None, uc) \<Rightarrow> (None, Some S_PROXY_ERROR, uc)
      | (Some a, uc) \<Rightarrow> (Some a, None, uc))"

definition strip_proxy_protocol :: "string \<Rightarrow> string \<Rightarrow> string option \<Rightarrow> string" where
  "strip_proxy_protocol proxy strip1 strip2 =
     (if c_strncasecmp proxy strip1 (length strip1) = 0 then drop (length strip1) proxy
      else case strip2 of
          None \<Rightarrow> proxy
        | Some s \<Rightarrow> if c_strncasecmp proxy s (length s) = 0 then drop (length s) proxy else proxy)"

definition get_protocol_proxy ::
  "proxy_env \<Rightarrow> string \<Rightarrow> string \<Rightarrow> string \<Rightarrow> string \<Rightarrow> string option \<Rightarrow> string option" where
  "get_protocol_proxy env opt env1 env2 strip1 strip2 =
     (let proxy = Some (penv_opt env opt);
          proxy = (if proxy = Some [] then penv_getenv env env1 else proxy);
          proxy = (if proxy = None \<or> proxy = Some [] then penv_getenv env env2 else proxy)
      in case proxy of
           None \<Rightarrow> None
         | Some p \<Rightarrow> Some (if p = [] then p else strip_proxy_protocol p strip1 strip2))"

definition protocol_proxy :: "proxy_env \<Rightarrow> protocol \<Rightarrow> string option" where
  "protocol_proxy env p =
     (if p = PROTOCOL_HTTP then
        get_protocol_proxy env ''protocol.http.proxy.host'' ''HTTP_PROXY'' ''http_proxy'' ''http://'' None
      else if p = PROTOCOL_HTTPS then
        get_protocol_proxy env ''protocol.https.proxy.host'' ''HTTPS_PROXY'' ''https_proxy'' ''http://'' None
      else if p = PROTOCOL_FTP then
        get_protocol_proxy env ''protocol.ftp.proxy.host'' ''FTP_PROXY'' ''ftp_proxy'' ''ftp://'' (Some ''http://'')
      else None)"

definition no_proxy_setting :: "proxy_env \<Rightarrow> string option" where
  "no_proxy_setting env =
     (let np = Some (penv_opt env ''protocol.no_proxy'');
          np = (if np = Some [] then penv_getenv env ''NO_PROXY'' else np)
      in if np = None \<or> np = Some [] then penv_getenv env ''no_proxy'' else np)"

text \<open>The text at the \<^verbatim>\<open>host\<close> pointer of a URI, up to the end of its string.\<close>

definition host_rest :: "uri \<Rightarrow> string" where
  "host_rest u = (case u_host u of None \<Rightarrow> [] | Some h \<Rightarrow> drop h (u_string u))"

definition base_uri ::
  "proxy_env \<Rightarrow> uri_mem \<Rightarrow> uri \<Rightarrow> uri_cache \<Rightarrow> nat option \<times> proxy_state option \<times> uri_cache" where
  "base_uri env m u uc =
     (case get_composed_uri (penv_user_program env) (penv_idn env) m u URI_BASE uc of (a, uc) \<Rightarrow> (a, None, uc))"

definition get_proxy_worker ::
  "proxy_env \<Rightarrow> uri_mem \<Rightarrow> uri \<Rightarrow> string option \<Rightarrow> uri_cache \<Rightarrow> nat option \<times> proxy_state option \<times> uri_cache" where
  "get_proxy_worker env m u proxy uc =
     (case proxy of
        Some p \<Rightarrow>
          if p \<noteq> [] then proxy_uri env m u (strip_proxy_protocol p ''http://'' (Some ''ftp://'')) uc
          else base_uri env m u uc
      | None \<Rightarrow>
         (case protocol_proxy env (u_protocol u) of
            None \<Rightarrow> base_uri env m u uc
          | Some p \<Rightarrow>
              if p \<noteq> [] \<and> \<not> proxy_probe_no_proxy (host_rest u) (no_proxy_setting env)
              then proxy_uri env m u (takeWhile (\<lambda>c. c \<noteq> CHR ''/'') p) uc
              else base_uri env m u uc))"

definition get_proxy_uri ::
  "proxy_env \<Rightarrow> uri_mem \<Rightarrow> uri \<Rightarrow> uri_cache \<Rightarrow> nat option \<times> proxy_state option \<times> uri_cache" where
  "get_proxy_uri env m u uc =
     (if u_protocol u = PROTOCOL_PROXY then base_uri env m u uc
      else get_proxy_worker env m u (penv_script env) uc)"

definition get_proxied_uri :: "proxy_env \<Rightarrow> uri_mem \<Rightarrow> uri \<Rightarrow> uri_cache \<Rightarrow> nat option \<times> uri_cache" where
  "get_proxied_uri env m u uc =
     (if u_protocol u = PROTOCOL_PROXY then
        get_uri (penv_user_program env) (penv_idn env) m
          (case u_data u of None \<Rightarrow> [] | Some d \<Rightarrow> drop d (u_string u)) URI_BASE uc
      else get_composed_uri (penv_user_program env) (penv_idn env) m u URI_BASE uc)"

declare no_proxy_loop.simps [simp del]

section \<open>Proxied URIs are registered URIs\<close>

text \<open>Each of the operations registers one URI in the cache or none.\<close>

definition registers_some :: "proxy_env \<Rightarrow> uri_cache \<Rightarrow> nat option \<times> uri_cache \<Rightarrow> bool" where
  "registers_some env uc res \<longleftrightarrow> (\<exists>s. registers (penv_user_program env) s uc res)"

lemma proxy_uri_registers:
  assumes "uc_ok (penv_user_program env) uc" "fresh_mem m uc" "proxy_uri env m u proxy uc = (a, st, uc')"
  shows "registers (penv_user_program env) (''proxy://'' @ proxy @ ''/'' @ add_uri_to_string (penv_idn env) u URI_BASE) uc (a, uc')"
  using assms(3) get_whole_uri_registers [OF assms(1,2), of "''proxy://'' @ proxy @ ''/'' @ add_uri_to_string (penv_idn env) u URI_BASE"]
  by (auto simp: proxy_uri_def get_uri_def split: prod.splits option.splits)

lemma base_uri_registers:
  assumes "uc_ok (penv_user_program env) uc" "fresh_mem m uc" "base_uri env m u uc = (a, st, uc')"
  shows "registers (penv_user_program env) (add_uri_to_string (penv_idn env) u URI_BASE) uc (a, uc')"
  using assms(3) get_whole_uri_registers [OF assms(1,2), of "add_uri_to_string (penv_idn env) u URI_BASE"]
  by (auto simp: base_uri_def get_composed_uri_def split: prod.splits)

lemma get_proxy_uri_registers:
  assumes "uc_ok (penv_user_program env) uc" "fresh_mem m uc" "get_proxy_uri env m u uc = (a, st, uc')"
  shows "registers_some env uc (a, uc')"
proof -
  have "proxy_uri env m u p uc = (a, st, uc') \<Longrightarrow> registers_some env uc (a, uc')" for p
    using proxy_uri_registers [OF assms(1,2)] unfolding registers_some_def by blast
  moreover have "base_uri env m u uc = (a, st, uc') \<Longrightarrow> registers_some env uc (a, uc')"
    using base_uri_registers [OF assms(1,2)] unfolding registers_some_def by blast
  ultimately show ?thesis
    using assms(3) by (auto simp: get_proxy_uri_def get_proxy_worker_def split: if_splits option.splits)
qed

lemma get_proxied_uri_registers:
  assumes "uc_ok (penv_user_program env) uc" "fresh_mem m uc"
  shows "registers_some env uc (get_proxied_uri env m u uc)"
proof -
  have "registers_some env uc (get_whole_uri (penv_user_program env) m s uc)" for s
    using get_whole_uri_registers [OF assms] unfolding registers_some_def by blast
  moreover have "registers_some env uc (None, uc)"
    using registers_None [OF assms(1)] unfolding registers_some_def by blast
  ultimately show ?thesis
    by (simp add: get_proxied_uri_def get_composed_uri_def get_uri_def split: prod.split)
qed

section \<open>From a URI to its proxy form and back\<close>

lemma wants_base:
  "wants URI_BASE URI_PROTOCOL" "wants URI_BASE URI_IP_FAMILY" "wants URI_BASE URI_USER" "wants URI_BASE URI_PASSWORD"
  "wants URI_BASE URI_HOST" "wants URI_BASE URI_PORT" "\<not> wants URI_BASE URI_DEFAULT_PORT" "wants URI_BASE URI_DATA"
  "\<not> wants URI_BASE URI_FRAGMENT" "wants URI_BASE URI_POST" "\<not> wants URI_BASE URI_IDN" "\<not> wants URI_BASE URI_PATH"
  "\<not> wants URI_BASE URI_FILENAME" "\<not> wants URI_BASE URI_QUERY" "wants URI_BASE (NOT (URI_DATA OR URI_PORT))"
  by (simp_all add: wants_def URI_BASE_def URI_RARE_def URI_SPECIAL_def uri_bits)

text \<open>Without a fragment the base of a URI is all of it.\<close>

lemma add_uri_base: "fragmentlen u = 0 \<Longrightarrow> add_uri_to_string idn u URI_BASE = add_uri_to_string idn u URI_WHOLE"
  by (simp add: add_uri_to_string_def add_scheme_def add_auth_def add_host_def add_port_def add_frag_post_def
      wants_base wants_whole wants_base(15) [simplified] wants_whole(15) [simplified] cong: option.case_cong)

lemma base_parsed:
  assumes "wf_uri up scheme auth host port path None post"
  shows "add_uri_to_string idn (parsed up scheme auth host port path None post) URI_BASE = uri_text scheme auth host port path None post"
proof -
  have "fragmentlen (parsed up scheme auth host port path None post) = 0"
    by (simp add: parsed_def Let_def set_rest_def uri_zero_def)
  then show ?thesis
    using add_uri_parsed(1) [OF assms] by (simp add: add_uri_base)
qed

lemma proxy_protocol: "get_protocol up ''proxy'' = PROTOCOL_PROXY"
proof -
  have "search_protocol ''proxy'' 0 16 8 = Some 14"
    by code_simp
  then show ?thesis
    by (simp add: get_protocol_def protocol_at_def protocols_def)
qed

text \<open>A URI that is loaded through a proxy can be recovered from its proxy form: for a URI and a
  proxy host and port that parse, the URI \<^verbatim>\<open>proxy_uri\<close> registers belongs to the proxy protocol, and
  \<^verbatim>\<open>get_proxied_uri\<close> of it gives the original URI, when memory is available.\<close>

theorem proxied_roundtrip:
  assumes "wf_uri (penv_user_program env) scheme auth host port path None None"
    and "wf_uri (penv_user_program env) ''proxy'' None phost pport (uri_text scheme auth host port path None None) None None"
    and "uc_ok (penv_user_program env) uc" "fresh_mem m uc"
    and "proxy_uri env m (parsed (penv_user_program env) scheme auth host port path None None) (phost @ port_text pport) uc = (Some a, st, uc1)"
    and "fresh_mem m' uc1" "mem_map m'" "mem_entry m' \<noteq> None" "mem_item m' \<noteq> None"
  shows "\<exists>pu b uc2. uri_at uc1 a = Some pu \<and> u_protocol pu = PROTOCOL_PROXY \<and>
     get_proxied_uri env m' pu uc1 = (Some b, uc2) \<and>
     uri_at uc2 b = Some (parsed (penv_user_program env) scheme auth host port path None None)"
proof -
  let ?up = "penv_user_program env" and ?s = "uri_text scheme auth host port path None None"
  let ?u = "parsed ?up scheme auth host port path None None" and ?pu = "parsed ?up ''proxy'' None phost pport ?s None None"
  note parse = parse_uri_parsed [OF assms(1)] parse_uri_parsed [OF assms(2)]
  have ptext: "''proxy://'' @ (phost @ port_text pport) @ ''/'' @ ?s = uri_text ''proxy'' None phost pport ?s None None"
    by (simp add: uri_text_def)
  have reg: "uc_ok ?up uc1" "uri_at uc1 a = Some ?pu"
    using proxy_uri_registers [OF assms(3-5)] unfolding base_parsed [OF assms(1)] ptext by (simp_all add: registers_def parse)
  have data: "drop (length (server_text ''proxy'' None phost pport) + 1) (uri_text ''proxy'' None phost pport ?s None None) = ?s"
    by (simp add: uri_text_server)
  have "URI_BASE \<noteq> 0"
    using wants_base(1) by (auto simp: wants_def)
  then have g: "get_proxied_uri env m' ?pu uc1 = get_whole_uri ?up m' ?s uc1"
    unfolding get_proxied_uri_def parsed_sel proxy_protocol option.case data get_uri_def parse prod.case
    by (simp add: get_composed_uri_def base_parsed [OF assms(1)])
  obtain b uc2 where b: "get_whole_uri ?up m' ?s uc1 = (Some b, uc2)"
    using get_whole_uri_succeeds [OF assms(7-9) parse(1) reg(1)] by (metis not_None_eq prod.collapse)
  have "uri_at uc2 b = Some ?u"
    using get_whole_uri_registers [OF reg(1) assms(6), of ?s] unfolding b by (simp add: registers_def parse)
  with reg(2) g b show ?thesis
    by (intro exI [of _ ?pu]) (simp add: parsed_sel proxy_protocol)
qed


definition sample_proxy_env :: proxy_env where
  "sample_proxy_env = \<lparr>penv_user_program = (\<lambda>_. False), penv_idn = (\<lambda>_. None), penv_opt = (\<lambda>_. []),
     penv_getenv = (\<lambda>_. None), penv_script = None\<rparr>"

text \<open>Addresses never run out.\<close>

lemma fresh_exists:
  assumes "uc_ok up uc"
  obtains e i where "fresh_mem \<lparr>mem_map = True, mem_entry = Some e, mem_item = Some i\<rparr> uc"
proof -
  have "finite (dom (uc_heap uc))"
    using uc_okD(1) [OF assms] .
  then obtain e where "e \<notin> dom (uc_heap uc)"
    using ex_new_if_finite infinite_UNIV_nat by blast
  moreover have "finite (case uc_map uc of None \<Rightarrow> {} | Some h \<Rightarrow> item_addr ` set (concat (buckets h)))"
    by (simp split: option.split)
  then obtain i where "i \<notin> (case uc_map uc of None \<Rightarrow> {} | Some h \<Rightarrow> item_addr ` set (concat (buckets h)))"
    using ex_new_if_finite [OF infinite_UNIV_nat] by blast
  ultimately show thesis
    by (intro that [of e i]) (auto simp: fresh_mem_def split: option.splits)
qed

lemma proxy_uri_result:
  "fst (proxy_uri env m u p uc) =
     fst (get_whole_uri (penv_user_program env) m (''proxy://'' @ p @ ''/'' @ add_uri_to_string (penv_idn env) u URI_BASE) uc)"
  unfolding proxy_uri_def get_uri_def by (simp split: prod.split option.split)

lemma sample_wf:
  "wf_uri (\<lambda>_. False) ''http'' None ''elinks.cz'' None ''a/b'' None None"
  "wf_uri (\<lambda>_. False) ''proxy'' None ''cache'' (Some ''8080'') (uri_text ''http'' None ''elinks.cz'' None ''a/b'' None None) None None"
proof -
  show "wf_uri (\<lambda>_. False) ''http'' None ''elinks.cz'' None ''a/b'' None None"
    by (simp add: sample_simps)
  have "wf_scheme (\<lambda>_. False) ''proxy''"
    by code_simp
  moreover have "wf_port (Some ''8080'')"
    by (simp add: c_isdigit_def dec_val_def digit_val_def)
  ultimately show "wf_uri (\<lambda>_. False) ''proxy'' None ''cache'' (Some ''8080'') (uri_text ''http'' None ''elinks.cz'' None ''a/b'' None None) None None"
    by (simp add: wf_uri_def no_chars_def wf_frag_def POST_CHAR_def uri_text_def del: wf_port.simps)
qed

theorem proxied_roundtrip_witness:
  "\<exists>a st uc m pu b uc2. proxy_uri sample_proxy_env sample_mem sample_uri ''cache:8080'' empty_uri_cache = (Some a, st, uc) \<and>
     uri_at uc a = Some pu \<and> get_proxied_uri sample_proxy_env m pu uc = (Some b, uc2) \<and> uri_at uc2 b = Some sample_uri"
proof -
  let ?up = "\<lambda>_ :: string. False" and ?s = "uri_text ''http'' None ''elinks.cz'' None ''a/b'' None None"
  have up: "penv_user_program sample_proxy_env = ?up"
    by (simp add: sample_proxy_env_def)
  have "parse_uri ?up (uri_text ''proxy'' None ''cache'' (Some ''8080'') ?s None None) =
      (URI_ERRNO_OK, parsed ?up ''proxy'' None ''cache'' (Some ''8080'') ?s None None)"
    by (rule parse_uri_parsed [OF sample_wf(2)])
  then have "fst (get_whole_uri ?up sample_mem (uri_text ''proxy'' None ''cache'' (Some ''8080'') ?s None None) empty_uri_cache) \<noteq> None"
    by (intro get_whole_uri_succeeds [OF _ _ _ _ empty_uri_cache_ok(1)]) (simp_all add: sample_mem_def)
  moreover have "uri_text ''proxy'' None ''cache'' (Some ''8080'') ?s None None =
      ''proxy://'' @ ''cache:8080'' @ ''/'' @ add_uri_to_string (penv_idn sample_proxy_env) sample_uri URI_BASE"
    unfolding base_parsed [OF sample_wf(1)] by (simp add: uri_text_def)
  ultimately have "fst (proxy_uri sample_proxy_env sample_mem sample_uri ''cache:8080'' empty_uri_cache) \<noteq> None"
    unfolding proxy_uri_result up by (simp only: not_False_eq_True)
  then obtain a st uc where p: "proxy_uri sample_proxy_env sample_mem sample_uri ''cache:8080'' empty_uri_cache = (Some a, st, uc)"
    by (metis not_None_eq prod.collapse)
  have "uc_ok ?up uc"
    using proxy_uri_registers [OF _ _ p] empty_uri_cache_ok unfolding up by (simp add: registers_def)
  then obtain e i where "fresh_mem \<lparr>mem_map = True, mem_entry = Some e, mem_item = Some i\<rparr> uc"
    by (rule fresh_exists)
  from proxied_roundtrip [of sample_proxy_env "''http''" None "''elinks.cz''" None "''a/b''" "''cache''" "Some ''8080''",
      unfolded up, OF sample_wf empty_uri_cache_ok(1) empty_uri_cache_ok(2) _ this] p
  have "\<exists>pu b uc2. uri_at uc a = Some pu \<and>
      get_proxied_uri sample_proxy_env \<lparr>mem_map = True, mem_entry = Some e, mem_item = Some i\<rparr> pu uc = (Some b, uc2) \<and>
      uri_at uc2 b = Some sample_uri"
    by fastforce
  with p show ?thesis
    by blast
qed

section \<open>Hosts without a proxy\<close>

lemma c_strcasestr_empty [simp]: "c_strcasestr url [] = Some 0"
  by (simp add: c_strcasestr_def)

text \<open>An empty item, or one that is only space, matches every host.\<close>

lemma no_proxy_next: "CHR '','' \<notin> set xs \<Longrightarrow> no_proxy_loop url r \<Longrightarrow> no_proxy_loop url (xs @ CHR '','' # r)"
proof -
  assume xs: "CHR '','' \<notin> set xs" and r: "no_proxy_loop url r"
  have "dropWhile (\<lambda>c. c \<noteq> CHR '','') (xs @ CHR '','' # r) = CHR '','' # r"
    using xs by (induction xs) auto
  with r show ?thesis
    by (subst no_proxy_loop.simps) (simp add: Let_def)
qed

lemma no_proxy_empty_item: "no_proxy_loop url (pre @ '',,'' @ rest)"
proof (induction "length pre" arbitrary: pre rule: less_induct)
  case less
  show ?case
  proof (cases "CHR '','' \<in> set pre")
    case True
    then obtain xs ys where pre: "pre = xs @ CHR '','' # ys" "CHR '','' \<notin> set xs"
      by (auto dest: split_list_first)
    with no_proxy_next [OF pre(2) less [of ys]] show ?thesis
      by simp
  next
    case False
    have "no_proxy_loop url (CHR '','' # rest)"
      by (simp add: no_proxy_loop.simps)
    from no_proxy_next [OF False this] show ?thesis
      by simp
  qed
qed

end
