(* ===== verification/Cache.thy ===== *)
theory Cache
  imports "HOL-Library.Sublist" Timeval Fragments Proxy
begin

text \<open>
  \<^verbatim>\<open>elinks/src/cache/cache.c\<close>, continued: the list of cache entries, most recently used first, with
  lookup, validation, redirects, deletion and the garbage collector. An entry owns references to
  its URIs, which deletion gives back to the URI cache. Entries are referred to by
  their address; the connections that load into an entry (\<^verbatim>\<open>network/connection.c\<close>) are given
  as the list of their \<^verbatim>\<open>cached\<close> pointers. The text fields of an entry that only the protocols read, and
  the listbox item of the cache manager, are left out.
\<close>

section \<open>Data\<close>

datatype cache_mode =
    CACHE_MODE_INCREMENT | CACHE_MODE_ALWAYS | CACHE_MODE_NORMAL | CACHE_MODE_CHECK_IF_MODIFIED
  | CACHE_MODE_FORCE_RELOAD | CACHE_MODE_NEVER

fun mode_val :: "cache_mode \<Rightarrow> int" where
  "mode_val CACHE_MODE_INCREMENT = -1"
| "mode_val CACHE_MODE_ALWAYS = 0"
| "mode_val CACHE_MODE_NORMAL = 1"
| "mode_val CACHE_MODE_CHECK_IF_MODIFIED = 2"
| "mode_val CACHE_MODE_FORCE_RELOAD = 3"
| "mode_val CACHE_MODE_NEVER = 4"

instantiation cache_mode :: linorder
begin

definition less_eq_cache_mode :: "cache_mode \<Rightarrow> cache_mode \<Rightarrow> bool" where
  "less_eq_cache_mode m n \<longleftrightarrow> mode_val m \<le> mode_val n"

definition less_cache_mode :: "cache_mode \<Rightarrow> cache_mode \<Rightarrow> bool" where
  "less_cache_mode m n \<longleftrightarrow> mode_val m < mode_val n"

instance
proof
  fix m n :: cache_mode
  show "m \<le> n \<Longrightarrow> n \<le> m \<Longrightarrow> m = n"
    by (cases m; cases n) (simp_all add: less_eq_cache_mode_def)
qed (auto simp: less_eq_cache_mode_def less_cache_mode_def)

end

record cached =
  ca_addr :: nat
  ca_refs :: int
  ca_body :: cache_entry
  ca_uri :: nat
  ca_proxy_uri :: nat
  ca_redirect :: "nat option"
  ca_max_age :: timeval_T
  ca_expire :: bool
  ca_redirect_get :: bool
  ca_valid :: bool
  ca_gc_target :: bool
  ca_mode :: cache_mode

record cache_state =
  cs_entries :: "cached list"
  cs_globals :: cache_globals
  cs_uris :: uri_cache

text \<open>What the code asks of its surroundings: the connection queue, the options, the clock and
  the settings for proxies and for resolving references.\<close>

record cache_env =
  cv_conns :: "nat option list"
  cv_memory_size :: int
  cv_cache_redirects :: bool
  cv_now :: timeval_T
  cv_proxy :: proxy_env
  cv_uri_env :: uri_env

definition MAX_REDIRECTS :: nat where
  "MAX_REDIRECTS = 10"

definition MEMORY_CACHE_GC_PERCENT :: int where
  "MEMORY_CACHE_GC_PERCENT = 90"

abbreviation ca_size :: "cached \<Rightarrow> int" where
  "ca_size c \<equiv> data_size (ca_body c)"

section \<open>Lookup\<close>

definition is_object_used :: "cached \<Rightarrow> bool" where
  "is_object_used c \<longleftrightarrow> ca_refs c \<noteq> 0"

definition is_entry_used :: "cache_env \<Rightarrow> cached \<Rightarrow> bool" where
  "is_entry_used env c \<longleftrightarrow> Some (ca_addr c) \<in> set (cv_conns env)"

definition get_cache_size :: "cache_state \<Rightarrow> int" where
  "get_cache_size cs = cache_size (cs_globals cs)"

definition get_cache_entry_count :: "cache_state \<Rightarrow> nat" where
  "get_cache_entry_count cs = length (cs_entries cs)"

definition get_cache_entry_used_count :: "cache_state \<Rightarrow> nat" where
  "get_cache_entry_used_count cs = length (filter is_object_used (cs_entries cs))"

definition get_cache_entry_loading_count :: "cache_env \<Rightarrow> cache_state \<Rightarrow> nat" where
  "get_cache_entry_loading_count env cs = length (filter (is_entry_used env) (cs_entries cs))"

text \<open>The URI behind a pointer.\<close>

definition uri_of :: "uri_cache \<Rightarrow> nat \<Rightarrow> uri" where
  "uri_of uc a = (case uri_at uc a of Some u \<Rightarrow> u | None \<Rightarrow> uri_zero)"

definition entry_matches :: "uri_cache \<Rightarrow> nat \<Rightarrow> cached \<Rightarrow> bool" where
  "entry_matches uc a c \<longleftrightarrow>
     ca_valid c \<and>
     (let c_uri = (if u_protocol (uri_of uc a) = PROTOCOL_PROXY then ca_proxy_uri c else ca_uri c)
      in compare_uri (c_uri = a) (uri_of uc c_uri) (uri_of uc a) URI_BASE)"

definition find_in_cache :: "nat \<Rightarrow> cache_state \<Rightarrow> cached option \<times> cache_state" where
  "find_in_cache a cs =
     (case find_index (entry_matches (cs_uris cs) a) (cs_entries cs) of
        None \<Rightarrow> (None, cs)
      | Some i \<Rightarrow> (Some (cs_entries cs ! i), cs\<lparr>cs_entries := move_to_top_of_list (cs_entries cs) i\<rparr>))"

definition cache_entry_is_valid :: "nat \<Rightarrow> cache_state \<Rightarrow> bool" where
  "cache_entry_is_valid a cs \<longleftrightarrow> (\<exists>c\<in>set (cs_entries cs). ca_addr c = a)"

text \<open>The loop of \<^verbatim>\<open>follow_cached_redirects\<close>; \<open>redirects\<close> counts the steps made.\<close>

function follow_redirects :: "nat \<Rightarrow> cached option \<Rightarrow> cache_state \<Rightarrow> cached option \<times> cache_state" where
  "follow_redirects redirects None cs = (None, cs)"
| "follow_redirects redirects (Some c) cs =
     (case ca_redirect c of
        None \<Rightarrow> (Some c, cs)
      | Some r \<Rightarrow>
          if redirects + 1 > MAX_REDIRECTS then (None, cs)
          else let (c', cs') = find_in_cache r cs in follow_redirects (redirects + 1) c' cs')"
  by pat_completeness auto
termination
  by (relation "measure (\<lambda>(redirects, c, cs). Suc MAX_REDIRECTS - redirects)") auto

definition follow_cached_redirects :: "cached option \<Rightarrow> cache_state \<Rightarrow> cached option \<times> cache_state" where
  "follow_cached_redirects c cs = follow_redirects 0 c cs"

definition get_redirected_cache_entry :: "nat \<Rightarrow> cache_state \<Rightarrow> cached option \<times> cache_state" where
  "get_redirected_cache_entry a cs =
     (case find_in_cache a cs of
        (None, cs) \<Rightarrow> (None, cs)
      | (Some c, cs) \<Rightarrow> follow_cached_redirects (Some c) cs)"

section \<open>Deleting entries\<close>

text \<open>The references to URIs an entry owns, in the order it gives them back.\<close>

definition owned_uris :: "cached \<Rightarrow> nat list" where
  "owned_uris c = ca_uri c # ca_proxy_uri c # (case ca_redirect c of None \<Rightarrow> [] | Some r \<Rightarrow> [r])"

text \<open>The assertions that the entry is in use neither as an object nor by a connection do not
  stop the deletion.\<close>

definition done_cache_entry :: "cached \<Rightarrow> cache_state \<Rightarrow> cache_state" where
  "done_cache_entry c cs =
     cs\<lparr>cs_globals := snd (delete_entry_content (ca_body c, cs_globals cs)),
        cs_uris := foldl (\<lambda>uc a. done_uri a uc) (cs_uris cs) (owned_uris c)\<rparr>"

definition delete_cache_entry :: "cached \<Rightarrow> cache_state \<Rightarrow> cache_state" where
  "delete_cache_entry c cs =
     done_cache_entry c (cs\<lparr>cs_entries := filter (\<lambda>c'. ca_addr c' \<noteq> ca_addr c) (cs_entries cs)\<rparr>)"

definition cache_entry_has_expired :: "cache_env \<Rightarrow> cached \<Rightarrow> bool" where
  "cache_entry_has_expired env c \<longleftrightarrow> timeval_cmp (ca_max_age c) (cv_now env) \<le> 0"

definition get_validated_cache_entry :: "cache_env \<Rightarrow> nat \<Rightarrow> cache_mode \<Rightarrow> cache_state \<Rightarrow> cached option \<times> cache_state" where
  "get_validated_cache_entry env a mode cs =
     (if mode > CACHE_MODE_NORMAL then (None, cs)
      else case find_in_cache a cs of
          (None, cs) \<Rightarrow> (None, cs)
        | (Some c, cs) \<Rightarrow>
            if incomplete (ca_body c) then (None, cs)
            else if is_object_used c then (Some c, cs)
            else if (ca_mode c = CACHE_MODE_NEVER \<and> mode \<noteq> CACHE_MODE_ALWAYS) \<or>
                    (ca_redirect c \<noteq> None \<and> \<not> cv_cache_redirects env) \<or>
                    (ca_expire c \<and> cache_entry_has_expired env c)
            then (None, delete_cache_entry c cs)
            else (Some c, cs))"

section \<open>Garbage collection\<close>

text \<open>Sizes are \<^verbatim>\<open>unsigned long long\<close>; a failed assertion resets the running size to 0.\<close>

definition u64 :: "int \<Rightarrow> int" where
  "u64 x = x mod 2 ^ 64"

definition entry_busy :: "cache_env \<Rightarrow> cached \<Rightarrow> bool" where
  "entry_busy env c \<longleftrightarrow> is_object_used c \<or> is_entry_used env c"

definition subtract_size :: "int \<Rightarrow> cached \<Rightarrow> int" where
  "subtract_size new_size c = (if new_size \<ge> u64 (ca_size c) then new_size - u64 (ca_size c) else 0)"

text \<open>Pass 1: the recomputed total and what remains without the used entries.\<close>

fun gc_pass1 :: "cache_env \<Rightarrow> cached list \<Rightarrow> int \<Rightarrow> int \<Rightarrow> int \<times> int" where
  "gc_pass1 env [] old_size new_size = (old_size, new_size)"
| "gc_pass1 env (c # cs) old_size new_size =
     gc_pass1 env cs (u64 (old_size + ca_size c)) (if entry_busy env c then subtract_size new_size c else new_size)"

text \<open>
  Pass 2 walks from the oldest entry, the last of the list, and marks unused entries until the
  remaining size is small enough. The argument is the reversed list; the result is the part
  visited, in list order, the part not visited, reversed, and the size.
\<close>

fun gc_pass2 :: "cache_env \<Rightarrow> bool \<Rightarrow> int \<Rightarrow> cached list \<Rightarrow> cached list \<Rightarrow> int \<Rightarrow> cached list \<times> cached list \<times> int" where
  "gc_pass2 env whole gc_size [] visited new_size = (visited, [], if new_size = 0 then new_size else 0)"
| "gc_pass2 env whole gc_size (c # cs) visited new_size =
     (if \<not> whole \<and> new_size \<le> gc_size then (visited, c # cs, new_size)
      else if entry_busy env c then gc_pass2 env whole gc_size cs (c\<lparr>ca_gc_target := False\<rparr> # visited) new_size
      else gc_pass2 env whole gc_size cs (c\<lparr>ca_gc_target := True\<rparr> # visited) (subtract_size new_size c))"

text \<open>Pass 3: the marked entries that still fit are unmarked, newest first.\<close>

fun gc_pass3 :: "int \<Rightarrow> cached list \<Rightarrow> int \<Rightarrow> cached list" where
  "gc_pass3 gc_size [] new_size = []"
| "gc_pass3 gc_size (c # cs) new_size =
     (let newer = u64 (new_size + ca_size c) in
      if newer > gc_size then c # gc_pass3 gc_size cs new_size
      else c\<lparr>ca_gc_target := False\<rparr> # gc_pass3 gc_size cs newer)"

text \<open>Pass 4: the marked entries are destroyed.\<close>

definition gc_pass4 :: "cached list \<Rightarrow> cache_state \<Rightarrow> cache_state" where
  "gc_pass4 visited cs = foldl (\<lambda>cs c. if ca_gc_target c then delete_cache_entry c cs else cs) cs visited"

definition garbage_collection :: "cache_env \<Rightarrow> bool \<Rightarrow> cache_state \<Rightarrow> cache_state" where
  "garbage_collection env whole cs =
     (let opt_size = u64 (cv_memory_size env);
          gc_size = u64 (opt_size * MEMORY_CACHE_GC_PERCENT) div 100;
          size = cache_size (cs_globals cs)
      in if \<not> whole \<and> size \<le> opt_size then cs
         else
           let (old_size, new_size) = gc_pass1 env (cs_entries cs) 0 size;
               cs = cs\<lparr>cs_globals := (cs_globals cs)\<lparr>cache_size := old_size\<rparr>\<rparr>
           in if \<not> whole \<and> new_size \<le> opt_size then cs
              else
                let (visited, rest, new_size) = gc_pass2 env whole gc_size (rev (cs_entries cs)) [] new_size
                in if visited = [] then cs
                   else
                     let visited = (if whole then visited else gc_pass3 gc_size visited new_size)
                     in gc_pass4 visited (cs\<lparr>cs_entries := rev rest @ visited\<rparr>))"

section \<open>Adding and redirecting entries\<close>

text \<open>\<^verbatim>\<open>shrink_memory(0)\<close>: dropping formatted documents gives back references to the cache
  entries \<open>dropped\<close> before the collector runs.\<close>

definition object_unlock :: "nat \<Rightarrow> cached list \<Rightarrow> cached list" where
  "object_unlock a es = map (\<lambda>c. if ca_addr c = a then c\<lparr>ca_refs := ca_refs c - 1\<rparr> else c) es"

definition shrink_memory :: "cache_env \<Rightarrow> nat list \<Rightarrow> bool \<Rightarrow> cache_state \<Rightarrow> cache_state" where
  "shrink_memory env dropped whole cs =
     garbage_collection env whole (cs\<lparr>cs_entries := foldl (\<lambda>es a. object_unlock a es) (cs_entries cs) dropped\<rparr>)"

definition fresh_entry :: "nat \<Rightarrow> nat \<Rightarrow> nat \<Rightarrow> int \<Rightarrow> cached" where
  "fresh_entry addr u pu n =
     \<lparr>ca_addr = addr, ca_refs = 0,
      ca_body = \<lparr>frag = [], entry_id = n, entry_length = 0, data_size = 0, incomplete = True, preformatted = False,
                 last_modified = None, etag = None\<rparr>,
      ca_uri = u, ca_proxy_uri = pu, ca_redirect = None, ca_max_age = \<lparr>sec = 0, usec = 0\<rparr>, ca_expire = False,
      ca_redirect_get = False, ca_valid = True, ca_gc_target = False, ca_mode = CACHE_MODE_ALWAYS\<rparr>"

text \<open>
  \<open>alloc\<close> is the address of the new entry, \<open>m\<close> the memory available to a given URI cache. The call of
  \<^verbatim>\<open>get_proxy_uri\<close> passes a null pointer for the connection state: when the proxy
  is not valid, the state is stored through it, which is the result \<open>None\<close>.
\<close>

definition get_cache_entry ::
  "cache_env \<Rightarrow> nat list \<Rightarrow> nat option \<Rightarrow> (uri_cache \<Rightarrow> uri_mem) \<Rightarrow> nat \<Rightarrow> cache_state \<Rightarrow> (cached option \<times> cache_state) option" where
  "get_cache_entry env dropped alloc m a cs =
     (case find_in_cache a cs of
        (Some c, cs) \<Rightarrow> Some (Some c, cs)
      | (None, cs) \<Rightarrow>
          let cs = shrink_memory env dropped False cs; u = uri_of (cs_uris cs) a in
          case alloc of
            None \<Rightarrow> Some (None, cs)
          | Some addr \<Rightarrow>
             (case get_proxied_uri (cv_proxy env) (m (cs_uris cs)) u (cs_uris cs) of
                (None, uc) \<Rightarrow> Some (None, cs\<lparr>cs_uris := uc\<rparr>)
              | (Some cu, uc) \<Rightarrow>
                 (case get_proxy_uri (cv_proxy env) (m uc) u uc of
                    (_, Some _, uc) \<Rightarrow> None
                  | (None, None, uc) \<Rightarrow> Some (None, cs\<lparr>cs_uris := done_uri cu uc\<rparr>)
                  | (Some pu, None, uc) \<Rightarrow>
                      let c = fresh_entry addr cu pu (id_counter (cs_globals cs))
                      in Some (Some c, cs\<lparr>cs_entries := c # cs_entries cs, cs_uris := uc,
                           cs_globals := (cs_globals cs)\<lparr>id_counter := id_counter (cs_globals cs) + 1\<rparr>\<rparr>))))"

text \<open>The string a redirect leads to: a lone slash added to the URI, or the location resolved against it, with
  the post data of the URI unless the redirect is to be followed by \<^verbatim>\<open>GET\<close>.\<close>

definition redirect_string :: "cache_env \<Rightarrow> uri \<Rightarrow> bool \<Rightarrow> string \<Rightarrow> bool \<Rightarrow> int \<Rightarrow> string option" where
  "redirect_string env u redirect_get location get incompl =
     (let target = (if incompl = 0 \<and> location = ''/''
                    then Some (add_uri_to_string (penv_idn (cv_proxy env)) u URI_ORIGINAL @ location)
                    else join_urls (cv_uri_env env) u location)
      in case target of
           None \<Rightarrow> None
         | Some s \<Rightarrow>
            (case u_post u of
               Some p \<Rightarrow> if \<not> redirect_get \<and> \<not> get then Some (s @ drop (p - 1) (u_string u)) else Some s
             | None \<Rightarrow> Some s))"

definition redirect_cache ::
  "cache_env \<Rightarrow> uri_mem \<Rightarrow> cached \<Rightarrow> string \<Rightarrow> bool \<Rightarrow> int \<Rightarrow> cache_state \<Rightarrow> nat option \<times> cache_state" where
  "redirect_cache env m c location get incompl cs =
     (case redirect_string env (uri_of (cs_uris cs) (ca_uri c)) (ca_redirect_get c) location get incompl of
        None \<Rightarrow> (None, cs)
      | Some s \<Rightarrow>
          let uc = (case ca_redirect c of None \<Rightarrow> cs_uris cs | Some r \<Rightarrow> done_uri r (cs_uris cs));
              (r, uc) = get_uri (penv_user_program (cv_proxy env)) (penv_idn (cv_proxy env)) m s 0 uc;
              c' = c\<lparr>ca_redirect := r, ca_redirect_get := get,
                     ca_body := (if incompl \<ge> 0 then (ca_body c)\<lparr>incomplete := (incompl \<noteq> 0)\<rparr> else ca_body c)\<rparr>
          in (r, cs\<lparr>cs_uris := uc, cs_entries := map (\<lambda>d. if ca_addr d = ca_addr c then c' else d) (cs_entries cs)\<rparr>))"

section \<open>The state of the cache\<close>

definition total_size :: "cached list \<Rightarrow> int" where
  "total_size es = sum_list (map ca_size es)"

text \<open>How often the entries of a list own a reference to a URI.\<close>

definition owned :: "cached list \<Rightarrow> nat \<Rightarrow> nat" where
  "owned es a = count_list (concat (map owned_uris es)) a"

text \<open>
  The entries have distinct addresses and sizes that add up to \<^verbatim>\<open>cache_size\<close>, the URI cache is
  consistent, and every reference the entries own is held.
\<close>

definition cache_ok :: "cache_env \<Rightarrow> cache_state \<Rightarrow> bool" where
  "cache_ok env cs \<longleftrightarrow>
     distinct (map ca_addr (cs_entries cs)) \<and> list_all (\<lambda>c. 0 \<le> ca_size c) (cs_entries cs) \<and>
     cache_size (cs_globals cs) = total_size (cs_entries cs) \<and> total_size (cs_entries cs) < 2 ^ 64 \<and>
     uc_ok (penv_user_program (cv_proxy env)) (cs_uris cs) \<and> (\<forall>a. owned (cs_entries cs) a \<le> held (cs_uris cs) a)"

text \<open>References to a URI that are held by others than the cache entries.\<close>

definition outside :: "cache_state \<Rightarrow> nat \<Rightarrow> nat" where
  "outside cs a = held (cs_uris cs) a - owned (cs_entries cs) a"

lemma total_size_simps [simp]:
  "total_size [] = 0" "total_size (c # es) = ca_size c + total_size es" "total_size (es @ fs) = total_size es + total_size fs"
  by (simp_all add: total_size_def)

lemma owned_simps [simp]:
  "owned [] a = 0" "owned (c # es) a = count_list (owned_uris c) a + owned es a" "owned (es @ fs) a = owned es a + owned fs a"
  by (simp_all add: owned_def count_list_append)

lemma total_size_nonneg: "list_all (\<lambda>c. 0 \<le> ca_size c) es \<Longrightarrow> 0 \<le> total_size es"
  by (induction es) auto

lemma total_size_mem: "list_all (\<lambda>c. 0 \<le> ca_size c) es \<Longrightarrow> c \<in> set es \<Longrightarrow> ca_size c \<le> total_size es"
  by (induction es) (auto simp: add_increasing dest: total_size_nonneg)

text \<open>Removing the one entry at an address.\<close>

lemma filter_addr:
  assumes "distinct (map ca_addr (xs @ c # ys))"
  shows "filter (\<lambda>d. ca_addr d \<noteq> ca_addr c) (xs @ c # ys) = xs @ ys"
proof -
  have "filter (\<lambda>d. ca_addr d \<noteq> ca_addr c) xs = xs" "filter (\<lambda>d. ca_addr d \<noteq> ca_addr c) ys = ys"
    using assms by (auto simp: filter_id_conv) (metis image_eqI)+
  then show ?thesis
    by simp
qed

lemma remove_entry:
  assumes "distinct (map ca_addr es)" "c \<in> set es"
  shows "total_size (filter (\<lambda>d. ca_addr d \<noteq> ca_addr c) es) = total_size es - ca_size c"
    "owned es a = owned (filter (\<lambda>d. ca_addr d \<noteq> ca_addr c) es) a + count_list (owned_uris c) a"
proof -
  obtain xs ys where "es = xs @ c # ys"
    using assms(2) by (auto dest: split_list)
  with filter_addr [of xs c ys] assms(1)
  show "total_size (filter (\<lambda>d. ca_addr d \<noteq> ca_addr c) es) = total_size es - ca_size c"
    "owned es a = owned (filter (\<lambda>d. ca_addr d \<noteq> ca_addr c) es) a + count_list (owned_uris c) a"
    by simp_all
qed

lemma delete_entry_ok:
  assumes "cache_ok env cs" "c \<in> set (cs_entries cs)"
  defines "cs' \<equiv> delete_cache_entry c cs"
  shows "cache_ok env cs'" "cs_entries cs' = filter (\<lambda>d. ca_addr d \<noteq> ca_addr c) (cs_entries cs)" "outside cs' = outside cs"
proof -
  let ?es = "filter (\<lambda>d. ca_addr d \<noteq> ca_addr c) (cs_entries cs)"
  have ok: "distinct (map ca_addr (cs_entries cs))" "list_all (\<lambda>c. 0 \<le> ca_size c) (cs_entries cs)"
    "cache_size (cs_globals cs) = total_size (cs_entries cs)" "total_size (cs_entries cs) < 2 ^ 64"
    "uc_ok (penv_user_program (cv_proxy env)) (cs_uris cs)" "\<And>a. owned (cs_entries cs) a \<le> held (cs_uris cs) a"
    using assms(1) by (simp_all add: cache_ok_def)
  note rem = remove_entry [OF ok(1) assms(2)]
  have pos: "list_all (\<lambda>c. 0 \<le> ca_size c) ?es"
    using ok(2) by (simp add: list_all_iff)
  have c0: "0 \<le> ca_size c"
    using ok(2) assms(2) by (simp add: list_all_iff)
  have "\<forall>a. count_list (owned_uris c) a \<le> held (cs_uris cs) a"
    using ok(6) rem(2) by (metis add_leD2)
  from ur.release_all [OF ok(5) this] have uris: "uc_ok (penv_user_program (cv_proxy env)) (cs_uris cs')"
    "held (cs_uris cs') = (\<lambda>a. held (cs_uris cs) a - count_list (owned_uris c) a)"
    by (simp_all add: cs'_def delete_cache_entry_def done_cache_entry_def)
  show es: "cs_entries cs' = ?es"
    by (simp add: cs'_def delete_cache_entry_def done_cache_entry_def)
  have "cache_size (cs_globals cs') = (cache_size (cs_globals cs) - ca_size c) mod 2 ^ 64"
    by (simp add: cs'_def delete_cache_entry_def done_cache_entry_def delete_entry_content_def enlarge_entry_def)
  also have "\<dots> = total_size ?es"
    using ok(3,4) rem(1) c0 total_size_nonneg [OF pos] by simp
  finally have size: "cache_size (cs_globals cs') = total_size ?es" .
  have "owned ?es a \<le> held (cs_uris cs') a" for a
    using ok(6) [of a] rem(2) [of a] by (simp add: uris(2))
  moreover have "distinct (map ca_addr ?es)"
    using ok(1) by (rule distinct_map_filter)
  ultimately show "cache_ok env cs'"
    using pos size uris(1) ok(4) rem(1) c0 by (simp add: cache_ok_def es)
  show "outside cs' = outside cs"
    using rem(2) by (simp add: fun_eq_iff outside_def es uris(2) add.commute)
qed

section \<open>The collector\<close>

text \<open>An entry without its mark; the marks have no effect on anything but the collector.\<close>

definition unmarked :: "cached \<Rightarrow> cached" where
  "unmarked c = c\<lparr>ca_gc_target := False\<rparr>"

definition idle :: "cache_env \<Rightarrow> cached \<Rightarrow> bool" where
  "idle env c \<longleftrightarrow> \<not> entry_busy env c"

lemma unmarked_sel [simp]:
  "ca_addr (unmarked c) = ca_addr c" "ca_body (unmarked c) = ca_body c" "owned_uris (unmarked c) = owned_uris c"
  "entry_busy env (unmarked c) = entry_busy env c" "idle env (unmarked c) = idle env c"
  "unmarked (c\<lparr>ca_gc_target := b\<rparr>) = unmarked c" "\<not> ca_gc_target (unmarked c)"
  "entry_busy env (c\<lparr>ca_gc_target := b\<rparr>) = entry_busy env c" "idle env (c\<lparr>ca_gc_target := b\<rparr>) = idle env c"
  by (simp_all add: unmarked_def owned_uris_def entry_busy_def idle_def is_object_used_def is_entry_used_def)

lemma unmarked_maps [simp]:
  "map ca_addr (map unmarked es) = map ca_addr es" "total_size (map unmarked es) = total_size es"
  "owned (map unmarked es) = owned es" "list_all (\<lambda>c. 0 \<le> ca_size c) (map unmarked es) \<longleftrightarrow> list_all (\<lambda>c. 0 \<le> ca_size c) es"
  "total_size (filter (idle env) (map unmarked es)) = total_size (filter (idle env) es)"
  by (induction es) (simp_all add: fun_eq_iff)

lemma cache_ok_unmarked:
  assumes "map unmarked es = map unmarked (cs_entries cs)"
  shows "cache_ok env (cs\<lparr>cs_entries := es\<rparr>) = cache_ok env cs" "outside (cs\<lparr>cs_entries := es\<rparr>) = outside cs"
proof -
  have "map ca_addr es = map ca_addr (cs_entries cs)" "total_size es = total_size (cs_entries cs)"
    "owned es = owned (cs_entries cs)" "list_all (\<lambda>c. 0 \<le> ca_size c) es = list_all (\<lambda>c. 0 \<le> ca_size c) (cs_entries cs)"
    by (metis assms unmarked_maps)+
  then show "cache_ok env (cs\<lparr>cs_entries := es\<rparr>) = cache_ok env cs" "outside (cs\<lparr>cs_entries := es\<rparr>) = outside cs"
    by (simp_all add: cache_ok_def outside_def [abs_def])
qed

lemma total_size_split: "total_size (filter (idle env) es) + total_size (filter (entry_busy env) es) = total_size es"
  by (induction es) (auto simp: idle_def)

lemma total_size_filter_le: "list_all (\<lambda>c. 0 \<le> ca_size c) es \<Longrightarrow> total_size (filter P es) \<le> total_size es"
  by (induction es) auto

lemma u64_id [simp]: "0 \<le> x \<Longrightarrow> x < 2 ^ 64 \<Longrightarrow> u64 x = x"
  by (simp add: u64_def)

lemma subtract_size_eq: "0 \<le> ca_size c \<Longrightarrow> ca_size c \<le> n \<Longrightarrow> n < 2 ^ 64 \<Longrightarrow> subtract_size n c = n - ca_size c"
  by (simp add: subtract_size_def)

lemma gc_pass1_eq:
  assumes "list_all (\<lambda>c. 0 \<le> ca_size c) es" "0 \<le> old" "old + total_size es < 2 ^ 64"
    and "total_size (filter (entry_busy env) es) \<le> new" "new < 2 ^ 64"
  shows "gc_pass1 env es old new = (old + total_size es, new - total_size (filter (entry_busy env) es))"
  using assms
proof (induction es arbitrary: old new)
  case Nil
  then show ?case by simp
next
  case (Cons c es)
  have nonneg: "0 \<le> total_size es" "0 \<le> total_size (filter (entry_busy env) es)"
    using Cons.prems(1) total_size_nonneg by (auto simp: list_all_iff intro!: total_size_nonneg)
  then have "u64 (old + ca_size c) = old + ca_size c"
    using Cons.prems by (intro u64_id) simp_all
  moreover have "entry_busy env c \<Longrightarrow> subtract_size new c = new - ca_size c"
    using Cons.prems nonneg by (intro subtract_size_eq) simp_all
  ultimately show ?case
    using Cons.prems nonneg Cons.IH [of "old + ca_size c" new] Cons.IH [of "old + ca_size c" "new - ca_size c"]
    by (cases "entry_busy env c") (simp_all add: diff_diff_eq add.assoc)
qed

text \<open>Pass 2 splits the list in the part left alone and the visited part, whose unused entries are
  marked; the size it leaves is that of the unused entries left alone.\<close>

definition mark_idle :: "cache_env \<Rightarrow> cached \<Rightarrow> cached" where
  "mark_idle env c = c\<lparr>ca_gc_target := idle env c\<rparr>"

lemma gc_pass2_eq:
  assumes "list_all (\<lambda>c. 0 \<le> ca_size c) rs" "total_size rs < 2 ^ 64" "new = total_size (filter (idle env) rs)"
  shows "\<exists>ws rest. rs = ws @ rest \<and> (rest \<noteq> [] \<longrightarrow> \<not> whole \<and> total_size (filter (idle env) rest) \<le> gc) \<and>
     (\<not> whole \<and> rs \<noteq> [] \<and> gc < new \<longrightarrow> ws \<noteq> []) \<and>
     gc_pass2 env whole gc rs visited new = (map (mark_idle env) (rev ws) @ visited, rest, total_size (filter (idle env) rest))"
  using assms
proof (induction rs arbitrary: visited new)
  case Nil
  then show ?case by simp
next
  case (Cons c rs)
  show ?case
  proof (cases "\<not> whole \<and> new \<le> gc")
    case True
    with Cons.prems show ?thesis
      by (intro exI [of _ "[]"] exI [of _ "c # rs"]) simp
  next
    case False
    have nonneg: "0 \<le> total_size (filter (idle env) rs)" "0 \<le> total_size rs"
      using Cons.prems(1) by (auto simp: list_all_iff intro!: total_size_nonneg)
    have le: "total_size (filter (idle env) rs) \<le> total_size rs"
      using Cons.prems(1) by (intro total_size_filter_le) simp
    let ?new = "total_size (filter (idle env) rs)"
    have step: "gc_pass2 env whole gc (c # rs) visited new = gc_pass2 env whole gc rs (mark_idle env c # visited) ?new"
    proof (cases "entry_busy env c")
      case True
      then have "\<not> idle env c"
        by (simp add: idle_def)
      with True False Cons.prems(3) show ?thesis
        by (auto simp: mark_idle_def)
    next
      case idle: False
      then have i: "idle env c"
        by (simp add: idle_def)
      then have "subtract_size new c = ?new"
        using Cons.prems nonneg le by (subst subtract_size_eq) simp_all
      with idle i False show ?thesis
        by (auto simp: mark_idle_def)
    qed
    have rs: "list_all (\<lambda>c. 0 \<le> ca_size c) rs" "total_size rs < 2 ^ 64"
      using Cons.prems nonneg by simp_all
    obtain ws rest where ws: "rs = ws @ rest" "rest \<noteq> [] \<longrightarrow> \<not> whole \<and> total_size (filter (idle env) rest) \<le> gc"
      "gc_pass2 env whole gc rs (mark_idle env c # visited) ?new =
         (map (mark_idle env) (rev ws) @ mark_idle env c # visited, rest, total_size (filter (idle env) rest))"
      using Cons.IH [OF rs refl, of "mark_idle env c # visited"] by blast
    then show ?thesis
      unfolding step by (intro exI [of _ "c # ws"] exI [of _ rest]) simp
  qed
qed

lemma gc_pass3_unmarked: "map unmarked (gc_pass3 gc vs n) = map unmarked vs"
  by (induction gc vs n rule: gc_pass3.induct) (simp_all add: Let_def)

lemma gc_pass3_marks:
  "list_all (\<lambda>c. ca_gc_target c \<longrightarrow> idle env c) vs \<Longrightarrow> list_all (\<lambda>c. ca_gc_target c \<longrightarrow> idle env c) (gc_pass3 gc vs n)"
  by (induction gc vs n rule: gc_pass3.induct) (simp_all add: Let_def)

lemma gc_pass3_fits:
  assumes "list_all (\<lambda>c. 0 \<le> ca_size c) vs" "list_all (\<lambda>c. idle env c \<longrightarrow> ca_gc_target c) vs"
    and "0 \<le> n" "n \<le> gc" "n + total_size vs < 2 ^ 64"
  shows "n + total_size (filter (idle env) (filter (\<lambda>c. \<not> ca_gc_target c) (gc_pass3 gc vs n))) \<le> gc"
  using assms
proof (induction gc vs n rule: gc_pass3.induct)
  case (1 gc n)
  then show ?case by simp
next
  case (2 gc c vs n)
  have "0 \<le> total_size vs"
    using 2(3) by (intro total_size_nonneg) simp
  then have u: "u64 (n + ca_size c) = n + ca_size c"
    using 2(3-) by (intro u64_id) simp_all
  show ?case
  proof (cases "n + ca_size c > gc")
    case True
    with 2(1) [OF refl] 2(3-) u show ?thesis
      by (auto simp: Let_def)
  next
    case False
    then have "n + ca_size c + total_size (filter (idle env) (filter (\<lambda>c. \<not> ca_gc_target c) (gc_pass3 gc vs (n + ca_size c)))) \<le> gc"
      using 2(2) [OF refl] 2(3-) u by (simp add: ac_simps)
    with False 2(3) u show ?thesis
      by (simp add: Let_def)
  qed
qed

lemma gc_pass4_ok:
  assumes "cache_ok env cs" "cs_entries cs = pre @ vs"
  shows "cache_ok env (gc_pass4 vs cs)" "cs_entries (gc_pass4 vs cs) = pre @ filter (\<lambda>c. \<not> ca_gc_target c) vs"
    "outside (gc_pass4 vs cs) = outside cs"
proof -
  have "cache_ok env (gc_pass4 vs cs) \<and> cs_entries (gc_pass4 vs cs) = pre @ filter (\<lambda>c. \<not> ca_gc_target c) vs \<and>
      outside (gc_pass4 vs cs) = outside cs"
    using assms
  proof (induction vs arbitrary: pre cs)
    case Nil
    then show ?case by (simp add: gc_pass4_def)
  next
    case (Cons c vs)
    show ?case
    proof (cases "ca_gc_target c")
      case True
      have "distinct (map ca_addr (pre @ c # vs))"
        using Cons.prems by (simp add: cache_ok_def)
      then have "cs_entries (delete_cache_entry c cs) = pre @ vs"
        using Cons.prems(2) filter_addr by (simp add: delete_cache_entry_def done_cache_entry_def)
      with delete_entry_ok [OF Cons.prems(1), of c] Cons.prems(2) Cons.IH [of "delete_cache_entry c cs" pre] True show ?thesis
        by (simp add: gc_pass4_def)
    next
      case False
      with Cons.prems Cons.IH [of cs "pre @ [c]"] show ?thesis
        by (simp add: gc_pass4_def)
    qed
  qed
  then show "cache_ok env (gc_pass4 vs cs)" "cs_entries (gc_pass4 vs cs) = pre @ filter (\<lambda>c. \<not> ca_gc_target c) vs"
    "outside (gc_pass4 vs cs) = outside cs"
    by simp_all
qed

definition gc_limit :: "cache_env \<Rightarrow> int" where
  "gc_limit env = u64 (u64 (cv_memory_size env) * MEMORY_CACHE_GC_PERCENT) div 100"

definition idle_size :: "cache_env \<Rightarrow> cache_state \<Rightarrow> int" where
  "idle_size env cs = total_size (filter (idle env) (cs_entries cs))"

lemma gc_limit_bounds: "0 \<le> gc_limit env" "gc_limit env \<le> u64 (cv_memory_size env) * 9 div 10"
proof -
  let ?m = "u64 (cv_memory_size env)"
  have "0 \<le> ?m"
    by (simp add: u64_def)
  then show "0 \<le> gc_limit env"
    by (simp add: gc_limit_def u64_def)
  have "u64 (?m * 90) \<le> ?m * 90"
    using \<open>0 \<le> ?m\<close> by (simp only: u64_def zmod_le_nonneg_dividend)
  then have "u64 (?m * 90) div 100 \<le> ?m * 90 div 100"
    by (rule zdiv_mono1) simp
  also have "?m * 90 div 100 = ?m * 9 div 10"
    using zdiv_zmult2_eq [of 10 "?m * 90" 10] by simp
  finally show "gc_limit env \<le> ?m * 9 div 10"
    by (simp add: gc_limit_def MEMORY_CACHE_GC_PERCENT_def)
qed

text \<open>Nothing is done while the unused entries are within the limit of the user.\<close>

lemma gc_pass1_ok:
  assumes "cache_ok env cs"
  shows "gc_pass1 env (cs_entries cs) 0 (cache_size (cs_globals cs)) = (cache_size (cs_globals cs), idle_size env cs)"
    "0 \<le> idle_size env cs" "idle_size env cs \<le> cache_size (cs_globals cs)"
proof -
  have ok: "list_all (\<lambda>c. 0 \<le> ca_size c) (cs_entries cs)" "cache_size (cs_globals cs) = total_size (cs_entries cs)"
    "total_size (cs_entries cs) < 2 ^ 64"
    using assms by (simp_all add: cache_ok_def)
  have split: "idle_size env cs + total_size (filter (entry_busy env) (cs_entries cs)) = total_size (cs_entries cs)"
    by (simp add: idle_size_def total_size_split)
  have le: "total_size (filter (entry_busy env) (cs_entries cs)) \<le> total_size (cs_entries cs)"
    using ok(1) by (rule total_size_filter_le)
  show "gc_pass1 env (cs_entries cs) 0 (cache_size (cs_globals cs)) = (cache_size (cs_globals cs), idle_size env cs)"
    using gc_pass1_eq [OF ok(1), of 0 env "total_size (cs_entries cs)"] ok(2,3) le split by simp
  show "0 \<le> idle_size env cs" "idle_size env cs \<le> cache_size (cs_globals cs)"
    using ok(1,2) le split total_size_filter_le [OF ok(1), of "idle env"] by (simp_all add: idle_size_def)
qed

lemma gc_same:
  assumes "cache_ok env cs" "\<not> whole" "idle_size env cs \<le> u64 (cv_memory_size env)"
  shows "garbage_collection env whole cs = cs"
  using assms(2,3) by (simp add: garbage_collection_def Let_def gc_pass1_ok(1) [OF assms(1)])

lemma gc_run:
  assumes "cache_ok env cs" "whole \<or> u64 (cv_memory_size env) < idle_size env cs"
  obtains pre vs where
    "garbage_collection env whole cs = gc_pass4 vs (cs\<lparr>cs_entries := pre @ vs\<rparr>)"
    "map unmarked (pre @ vs) = map unmarked (cs_entries cs)"
    "list_all (\<lambda>c. ca_gc_target c \<longrightarrow> idle env c) vs"
    "whole \<Longrightarrow> pre = [] \<and> list_all (\<lambda>c. ca_gc_target c \<longleftrightarrow> idle env c) vs"
    "\<not> whole \<Longrightarrow> total_size (filter (idle env) (pre @ filter (\<lambda>c. \<not> ca_gc_target c) vs)) \<le> gc_limit env"
proof -
  let ?es = "cs_entries cs"
  have ok: "list_all (\<lambda>c. 0 \<le> ca_size c) ?es" "total_size ?es < 2 ^ 64"
    using assms(1) by (simp_all add: cache_ok_def)
  have rev: "list_all (\<lambda>c. 0 \<le> ca_size c) (rev ?es)" "total_size (rev ?es) = total_size ?es"
      "idle_size env cs = total_size (filter (idle env) (rev ?es))"
    using ok(1) by (simp_all add: total_size_def idle_size_def rev_filter [symmetric] rev_map [symmetric] sum_list_rev)
  obtain ws rest where ws: "rev ?es = ws @ rest" "rest \<noteq> [] \<longrightarrow> \<not> whole \<and> total_size (filter (idle env) rest) \<le> gc_limit env"
    "gc_pass2 env whole (gc_limit env) (rev ?es) [] (idle_size env cs) =
       (map (mark_idle env) (rev ws) @ [], rest, total_size (filter (idle env) rest))"
    using gc_pass2_eq [OF rev(1) _ rev(3), where whole = whole and gc = "gc_limit env" and visited = "[]"] ok(2)
    unfolding rev(2) by blast
  define vs where "vs = (if whole then map (mark_idle env) (rev ws)
    else gc_pass3 (gc_limit env) (map (mark_idle env) (rev ws)) (total_size (filter (idle env) rest)))"
  have es: "?es = rev rest @ rev ws"
    using ws(1) by (metis rev_append rev_rev_ident)
  have um: "map unmarked (rev rest @ vs) = map unmarked ?es"
    unfolding es vs_def by (simp add: gc_pass3_unmarked mark_idle_def)
  have "list_all (\<lambda>c. ca_gc_target c \<longrightarrow> idle env c) (map (mark_idle env) (rev ws))"
    by (simp add: list_all_iff mark_idle_def)
  then have marks: "list_all (\<lambda>c. ca_gc_target c \<longrightarrow> idle env c) vs"
    unfolding vs_def by (simp add: gc_pass3_marks)
  have run: "garbage_collection env whole cs = gc_pass4 vs (cs\<lparr>cs_entries := rev rest @ vs\<rparr>)"
  proof (cases "ws = []")
    case True
    then have "vs = []" "rev rest = ?es"
      using es by (simp_all add: vs_def)
    then show ?thesis
      using True ws(3) assms(2) gc_pass1_ok(3) [OF assms(1)]
      by (auto simp: garbage_collection_def Let_def gc_pass1_ok(1) [OF assms(1)] gc_pass4_def gc_limit_def [symmetric])
  next
    case False
    then show ?thesis
      using ws(3) assms(2) gc_pass1_ok(3) [OF assms(1)]
      by (auto simp: garbage_collection_def Let_def gc_pass1_ok(1) [OF assms(1)] gc_limit_def [symmetric] vs_def)
  qed
  show thesis
  proof (rule that [OF run um marks])
    assume "whole"
    then show "rev rest = [] \<and> list_all (\<lambda>c. ca_gc_target c \<longleftrightarrow> idle env c) vs"
      using ws(2) by (simp add: vs_def list_all_iff mark_idle_def)
  next
    assume "\<not> whole"
    let ?n = "total_size (filter (idle env) rest)"
    have "list_all (\<lambda>c. 0 \<le> ca_size c) rest" "list_all (\<lambda>c. 0 \<le> ca_size c) (rev ws)"
      using ok(1) unfolding es by simp_all
    moreover have "?n \<le> gc_limit env"
      using ws(2) gc_limit_bounds(1) [of env] by (cases "rest = []") simp_all
    moreover have "0 \<le> ?n" "?n + total_size (rev ws) < 2 ^ 64"
      using total_size_filter_le [of rest "idle env"] calculation ok(2) total_size_nonneg [of "filter (idle env) rest"] unfolding es
      by (auto simp: list_all_iff total_size_def sum_list_rev rev_map [symmetric])
    ultimately have "?n + total_size (filter (idle env) (filter (\<lambda>c. \<not> ca_gc_target c) vs)) \<le> gc_limit env"
      unfolding vs_def using \<open>\<not> whole\<close>
      by (simp only: if_False) (rule gc_pass3_fits, auto simp: list_all_iff mark_idle_def total_size_def o_def)
    moreover have "total_size (filter (idle env) (rev rest)) = ?n"
      by (simp add: total_size_def rev_filter [symmetric] rev_map [symmetric] sum_list_rev)
    ultimately show "total_size (filter (idle env) (rev rest @ filter (\<lambda>c. \<not> ca_gc_target c) vs)) \<le> gc_limit env"
      by simp
  qed
qed

section \<open>Properties of the collector\<close>

lemma gc_outcome:
  assumes "cache_ok env cs"
  obtains pre vs where
    "cs_entries (garbage_collection env whole cs) = pre @ filter (\<lambda>c. \<not> ca_gc_target c) vs"
    "map unmarked (pre @ vs) = map unmarked (cs_entries cs)" "list_all (\<lambda>c. ca_gc_target c \<longrightarrow> idle env c) vs"
    "cache_ok env (garbage_collection env whole cs)" "outside (garbage_collection env whole cs) = outside cs"
    "whole \<Longrightarrow> pre = [] \<and> list_all (\<lambda>c. ca_gc_target c \<longleftrightarrow> idle env c) vs"
    "\<not> whole \<Longrightarrow> u64 (cv_memory_size env) < idle_size env cs \<Longrightarrow> idle_size env (garbage_collection env whole cs) \<le> gc_limit env"
proof (cases "whole \<or> u64 (cv_memory_size env) < idle_size env cs")
  case True
  obtain pre vs where run: "garbage_collection env whole cs = gc_pass4 vs (cs\<lparr>cs_entries := pre @ vs\<rparr>)"
    and um: "map unmarked (pre @ vs) = map unmarked (cs_entries cs)"
    and rest: "list_all (\<lambda>c. ca_gc_target c \<longrightarrow> idle env c) vs" "whole \<Longrightarrow> pre = [] \<and> list_all (\<lambda>c. ca_gc_target c \<longleftrightarrow> idle env c) vs"
      "\<not> whole \<Longrightarrow> total_size (filter (idle env) (pre @ filter (\<lambda>c. \<not> ca_gc_target c) vs)) \<le> gc_limit env"
    using gc_run [OF assms True] by blast
  have "cache_ok env (cs\<lparr>cs_entries := pre @ vs\<rparr>)"
    using assms cache_ok_unmarked(1) [OF um] by simp
  note p4 = gc_pass4_ok [OF this, of pre vs, simplified]
  show thesis
  proof (rule that [of pre vs])
    show "outside (garbage_collection env whole cs) = outside cs"
      using p4(3) cache_ok_unmarked(2) [OF um] by (simp add: run)
  qed (use um rest p4 run in \<open>simp_all add: idle_size_def\<close>)
next
  case False
  then have "garbage_collection env whole cs = cs"
    using assms by (intro gc_same) auto
  with False assms show thesis
    by (intro that [of "cs_entries cs" "[]"]) simp_all
qed

lemma filter_marks:
  "list_all (\<lambda>c. ca_gc_target c \<longrightarrow> idle env c) vs \<Longrightarrow>
     filter (entry_busy env) (map unmarked (filter (\<lambda>c. \<not> ca_gc_target c) vs)) = filter (entry_busy env) (map unmarked vs)"
  by (induction vs) (auto simp: idle_def)

text \<open>A cache of an unused and a used entry for one URI, with room for neither.\<close>

definition sample_cached :: "nat \<Rightarrow> int \<Rightarrow> int \<Rightarrow> nat \<Rightarrow> cached" where
  "sample_cached addr refs sz u =
     (fresh_entry addr u u 0)\<lparr>ca_refs := refs, ca_body := (ca_body (fresh_entry addr u u 0))\<lparr>data_size := sz\<rparr>\<rparr>"

definition sample_cache_env :: cache_env where
  "sample_cache_env = \<lparr>cv_conns = [], cv_memory_size = 20, cv_cache_redirects = False, cv_now = \<lparr>sec = 0, usec = 0\<rparr>,
     cv_proxy = sample_proxy_env, cv_uri_env = no_env\<rparr>"

definition sample_cache :: "nat \<Rightarrow> uri_cache \<Rightarrow> cache_state" where
  "sample_cache u uc =
     \<lparr>cs_entries = [sample_cached 10 0 40 u, sample_cached 11 1 70 u],
      cs_globals = \<lparr>cache_size = 110, id_counter = 5\<rparr>, cs_uris = uc\<rparr>"

lemma sample_registered:
  obtains u uc where "uc_ok (\<lambda>_. False) uc" "held uc u = 1" "uri_at uc u = Some sample_uri"
proof -
  obtain u uc where g: "get_whole_uri (\<lambda>_. False) sample_mem ''http://elinks.cz/a/b'' empty_uri_cache = (Some u, uc)"
    using get_whole_uri_succeeds [OF _ _ _ sample_parse empty_uri_cache_ok(1), of sample_mem]
    by (metis not_None_eq prod.collapse sample_mem_def option.distinct(1) uri_mem.select_convs)
  then show thesis
    using get_whole_uri_registers [OF empty_uri_cache_ok(1) empty_uri_cache_ok(2) [of sample_mem], where up = "\<lambda>_. False" and s = "''http://elinks.cz/a/b''"]
    by (intro that [of uc u]) (simp_all add: registers_def held_def empty_uri_cache_def sample_parse)
qed

lemma sample_cache_ok: "\<exists>u uc. cache_ok sample_cache_env (sample_cache u uc)"
proof -
  let ?up = "\<lambda>_ :: string. False"
  obtain u uc where uc: "uc_ok ?up uc" "held uc u = 1"
    by (rule sample_registered)
  define uc4 where "uc4 = get_uri_reference u (get_uri_reference u (get_uri_reference u uc))"
  from uc have "uc_ok ?up uc4" "held uc4 u = 4"
    using ur.acquire [of ?up] by (simp_all add: uc4_def)
  then have "cache_ok sample_cache_env (sample_cache u uc4)"
    by (auto simp: cache_ok_def sample_cache_def sample_cached_def fresh_entry_def owned_uris_def sample_cache_env_def sample_proxy_env_def)
  then show ?thesis
    by blast
qed

lemmas sample_cache_simps = sample_cache_def sample_cached_def fresh_entry_def sample_cache_env_def
  entry_busy_def idle_def is_object_used_def is_entry_used_def unmarked_def

text \<open>C14: The garbage collector only removes entries that are in use neither as objects nor by a
  connection: what is left is a part of the list in its order, with every used
  entry. The cache stays consistent, its size in step with its entries, and the deleted
  entries give back exactly the URI references they owned, so that no other holder of a URI is
  affected.\<close>

theorem gc_keeps_used:
  assumes "cache_ok env cs"
  shows "let cs' = garbage_collection env whole cs in
     cache_ok env cs' \<and> outside cs' = outside cs \<and>
     subseq (map unmarked (cs_entries cs')) (map unmarked (cs_entries cs)) \<and>
     filter (entry_busy env) (map unmarked (cs_entries cs')) = filter (entry_busy env) (map unmarked (cs_entries cs))"
proof -
  let ?cs' = "garbage_collection env whole cs"
  obtain pre vs where out: "cs_entries ?cs' = pre @ filter (\<lambda>c. \<not> ca_gc_target c) vs"
    "map unmarked (pre @ vs) = map unmarked (cs_entries cs)" "list_all (\<lambda>c. ca_gc_target c \<longrightarrow> idle env c) vs"
    "cache_ok env ?cs'" "outside ?cs' = outside cs"
    using gc_outcome [OF assms, of whole] by metis
  have "subseq (map unmarked (pre @ filter (\<lambda>c. \<not> ca_gc_target c) vs)) (map unmarked (pre @ vs))"
    by (intro subseq_map list_emb_append_mono) auto
  moreover have "filter (entry_busy env) (map unmarked (pre @ filter (\<lambda>c. \<not> ca_gc_target c) vs)) =
      filter (entry_busy env) (map unmarked (pre @ vs))"
    using filter_marks [OF out(3)] by simp
  ultimately show ?thesis
    unfolding out(2) out(1) [symmetric] using out(4,5) by (simp only: Let_def simp_thms)
qed

theorem gc_keeps_used_witness:
  "\<exists>u uc. cache_ok sample_cache_env (garbage_collection sample_cache_env False (sample_cache u uc)) \<and>
     sample_cached 11 1 70 u \<in> set (map unmarked (cs_entries (garbage_collection sample_cache_env False (sample_cache u uc))))"
proof -
  obtain u uc where ok: "cache_ok sample_cache_env (sample_cache u uc)"
    using sample_cache_ok by blast
  have "filter (entry_busy sample_cache_env) (map unmarked (cs_entries (sample_cache u uc))) = [sample_cached 11 1 70 u]"
    by (simp add: sample_cache_simps)
  moreover have "filter P xs = [x] \<Longrightarrow> x \<in> set xs" for P and x :: cached and xs
    using filter_is_subset [of P xs] by auto
  ultimately show ?thesis
    using gc_keeps_used [OF ok, of False] unfolding Let_def by metis
qed

text \<open>C19: After the regular run of the collector the unused entries occupy at most the configured
  memory size, and at most nine tenths of it when anything had to be done; otherwise the cache
  is not touched. A run for the whole cache leaves only used entries.\<close>

theorem gc_bounds_unused:
  assumes "cache_ok env cs"
  shows "idle_size env (garbage_collection env False cs) \<le> u64 (cv_memory_size env) \<and>
     (if idle_size env cs \<le> u64 (cv_memory_size env) then garbage_collection env False cs = cs
      else idle_size env (garbage_collection env False cs) \<le> u64 (cv_memory_size env) * 9 div 10) \<and>
     list_all (entry_busy env) (cs_entries (garbage_collection env True cs))"
proof -
  have "list_all (entry_busy env) (cs_entries (garbage_collection env True cs))"
  proof -
    obtain pre vs where "cs_entries (garbage_collection env True cs) = pre @ filter (\<lambda>c. \<not> ca_gc_target c) vs"
      "pre = [] \<and> list_all (\<lambda>c. ca_gc_target c \<longleftrightarrow> idle env c) vs"
      using gc_outcome [OF assms, of True] by metis
    then show ?thesis
      by (auto simp: list_all_iff idle_def)
  qed
  moreover have "u64 (cv_memory_size env) * 9 div 10 \<le> u64 (cv_memory_size env)"
    by (simp add: u64_def)
  moreover have "idle_size env (garbage_collection env False cs) \<le> gc_limit env" if "u64 (cv_memory_size env) < idle_size env cs"
    using gc_outcome [OF assms, of False] that by metis
  ultimately show ?thesis
    using gc_limit_bounds(2) [of env] gc_same [OF assms, of False] by (auto simp: not_le)
qed


theorem gc_bounds_unused_witness:
  "\<exists>u uc. idle_size sample_cache_env (sample_cache u uc) = 40 \<and>
     idle_size sample_cache_env (garbage_collection sample_cache_env False (sample_cache u uc)) \<le> 18"
proof -
  obtain u uc where ok: "cache_ok sample_cache_env (sample_cache u uc)"
    using sample_cache_ok by blast
  have "idle_size sample_cache_env (sample_cache u uc) = 40"
    by (simp add: idle_size_def sample_cache_simps)
  moreover have "u64 (cv_memory_size sample_cache_env) = 20"
    by (simp add: sample_cache_env_def)
  ultimately show ?thesis
    using gc_bounds_unused [OF ok] by (intro exI [of _ u] exI [of _ uc]) simp
qed

section \<open>Looking up what was added\<close>

lemma find_in_cache_cases:
  assumes "find_in_cache a cs = (r, cs')"
  obtains "r = None" "cs' = cs" "\<forall>c\<in>set (cs_entries cs). \<not> entry_matches (cs_uris cs) a c"
  | c i where "r = Some c" "i < length (cs_entries cs)" "c = cs_entries cs ! i" "entry_matches (cs_uris cs) a c"
    "cs' = cs\<lparr>cs_entries := move_to_top_of_list (cs_entries cs) i\<rparr>"
proof (cases "find_index (entry_matches (cs_uris cs) a) (cs_entries cs)")
  case None
  with assms show thesis
    using that(1) by (simp add: find_in_cache_def find_index_None)
next
  case (Some i)
  with assms find_index_Some [OF Some] show thesis
    using that(2) [of "cs_entries cs ! i" i] by (simp add: find_in_cache_def)
qed

lemma cache_ok_mset:
  assumes "mset es = mset (cs_entries cs)"
  shows "cache_ok env (cs\<lparr>cs_entries := es\<rparr>) = cache_ok env cs" "outside (cs\<lparr>cs_entries := es\<rparr>) = outside cs"
proof -
  have "total_size es = total_size (cs_entries cs)"
    by (simp only: total_size_def sum_mset_sum_list [symmetric] mset_map assms)
  moreover have "set es = set (cs_entries cs)" "mset (map ca_addr es) = mset (map ca_addr (cs_entries cs))"
    by (rule mset_eq_setD [OF assms], simp add: assms)
  moreover have "owned fs a = sum_list (map (\<lambda>c. count_list (owned_uris c) a) fs)" for fs a
    by (induction fs) simp_all
  then have "owned es = owned (cs_entries cs)"
    by (simp only: fun_eq_iff sum_mset_sum_list [symmetric] mset_map assms simp_thms)
  ultimately show "cache_ok env (cs\<lparr>cs_entries := es\<rparr>) = cache_ok env cs" "outside (cs\<lparr>cs_entries := es\<rparr>) = outside cs"
    using mset_eq_imp_distinct_iff [of "map ca_addr es" "map ca_addr (cs_entries cs)"]
    by (simp_all add: cache_ok_def outside_def [abs_def] list_all_iff)
qed

lemma find_in_cache_keeps:
  assumes "find_in_cache a cs = (r, cs')"
  shows "cache_ok env cs' = cache_ok env cs" "outside cs' = outside cs" "cs_uris cs' = cs_uris cs" "cs_globals cs' = cs_globals cs"
  using assms by (cases rule: find_in_cache_cases; simp add: cache_ok_mset mset_move_to_top)+

lemma find_first:
  "cs_entries cs = c # es \<Longrightarrow> entry_matches (cs_uris cs) a c \<Longrightarrow> find_in_cache a cs = (Some c, cs)"
  by (cases cs) (simp add: find_in_cache_def move_to_top_of_list_def)

text \<open>A lookup that succeeded leaves the entry in front, where the next one finds it.\<close>

lemma find_again: "find_in_cache a cs = (Some c, cs') \<Longrightarrow> find_in_cache a cs' = (Some c, cs')"
proof -
  assume f: "find_in_cache a cs = (Some c, cs')"
  then obtain i where i: "i < length (cs_entries cs)" "c = cs_entries cs ! i" "entry_matches (cs_uris cs) a c"
    "cs' = cs\<lparr>cs_entries := move_to_top_of_list (cs_entries cs) i\<rparr>"
    by (cases rule: find_in_cache_cases) auto
  have "\<exists>es. move_to_top_of_list (cs_entries cs) i = c # es"
    using i(1,2) by (cases "cs_entries cs") (auto simp: move_to_top_of_list_def)
  with i show ?thesis
    by (auto intro: find_first)
qed

text \<open>A URI to which somebody else holds a reference survives deletions.\<close>

lemma delete_entry_uri:
  assumes "cache_ok env cs" "c \<in> set (cs_entries cs)" "0 < outside cs a"
  shows "uri_at (cs_uris (delete_cache_entry c cs)) a = uri_at (cs_uris cs) a"
proof -
  let ?uc = "foldl (\<lambda>uc a. done_uri a uc) (cs_uris cs) (owned_uris c)"
  have ok: "uc_ok (penv_user_program (cv_proxy env)) (cs_uris cs)" "\<And>a. owned (cs_entries cs) a \<le> held (cs_uris cs) a"
    "distinct (map ca_addr (cs_entries cs))"
    using assms(1) by (simp_all add: cache_ok_def)
  have "\<forall>a. count_list (owned_uris c) a \<le> held (cs_uris cs) a"
    using ok(2) remove_entry(2) [OF ok(3) assms(2)] by (metis add_leD2)
  from release_uris [OF ok(1) this, of a] have "uri_at ?uc a = (if held ?uc a = 0 then None else uri_at (cs_uris cs) a)" .
  moreover have "held ?uc a \<noteq> 0"
    using delete_entry_ok(3) [OF assms(1,2)] assms(3)
    by (auto simp: outside_def fun_eq_iff delete_cache_entry_def done_cache_entry_def dest!: spec [of _ a])
  ultimately show ?thesis
    by (simp add: delete_cache_entry_def done_cache_entry_def)
qed

lemma gc_pass4_uri:
  "cache_ok env cs \<Longrightarrow> cs_entries cs = pre @ vs \<Longrightarrow> 0 < outside cs a \<Longrightarrow> uri_at (cs_uris (gc_pass4 vs cs)) a = uri_at (cs_uris cs) a"
proof (induction vs arbitrary: pre cs)
  case Nil
  then show ?case by (simp add: gc_pass4_def)
next
  case (Cons c vs)
  show ?case
  proof (cases "ca_gc_target c")
    case True
    have mem: "c \<in> set (cs_entries cs)"
      using Cons.prems(2) by simp
    note d = delete_entry_ok [OF Cons.prems(1) mem] delete_entry_uri [OF Cons.prems(1) mem Cons.prems(3)]
    have "distinct (map ca_addr (pre @ c # vs))"
      using Cons.prems by (simp add: cache_ok_def)
    then have "cs_entries (delete_cache_entry c cs) = pre @ vs"
      unfolding d(2) Cons.prems(2) by (rule filter_addr)
    from Cons.IH [OF d(1) this] d(3,4) Cons.prems(3) True show ?thesis
      by (simp add: gc_pass4_def)
  next
    case False
    with Cons.prems Cons.IH [of cs "pre @ [c]"] show ?thesis
      by (simp add: gc_pass4_def)
  qed
qed

lemma gc_uri:
  assumes "cache_ok env cs" "0 < outside cs a"
  shows "uri_at (cs_uris (garbage_collection env whole cs)) a = uri_at (cs_uris cs) a"
proof (cases "whole \<or> u64 (cv_memory_size env) < idle_size env cs")
  case True
  obtain pre vs where run: "garbage_collection env whole cs = gc_pass4 vs (cs\<lparr>cs_entries := pre @ vs\<rparr>)"
    and um: "map unmarked (pre @ vs) = map unmarked (cs_entries cs)"
    using gc_run [OF assms(1) True] by metis
  show ?thesis
    using gc_pass4_uri [of env "cs\<lparr>cs_entries := pre @ vs\<rparr>" pre vs a] cache_ok_unmarked [OF um] assms by (simp add: run)
next
  case False
  then show ?thesis
    using gc_same [OF assms(1)] by auto
qed

text \<open>What consistency depends on.\<close>

lemma cache_ok_core:
  assumes "map (\<lambda>c. (ca_addr c, ca_body c, owned_uris c)) es = map (\<lambda>c. (ca_addr c, ca_body c, owned_uris c)) (cs_entries cs)"
  shows "cache_ok env (cs\<lparr>cs_entries := es\<rparr>) = cache_ok env cs" "outside (cs\<lparr>cs_entries := es\<rparr>) = outside cs"
proof -
  have addr: "map ca_addr es = map ca_addr (cs_entries cs)"
    using arg_cong [OF assms, of "map fst"] by (simp add: o_def)
  have size: "map ca_size es = map ca_size (cs_entries cs)"
    using arg_cong [OF assms, of "map (\<lambda>(_, b, _). data_size b)"] by (simp add: o_def)
  have uris: "map owned_uris es = map owned_uris (cs_entries cs)"
    using arg_cong [OF assms, of "map (\<lambda>(_, _, o'). o')"] by (simp add: o_def)
  have "list_all (\<lambda>c. 0 \<le> ca_size c) fs = list_all (\<lambda>n. 0 \<le> n) (map ca_size fs)" for fs
    by (simp add: list.pred_map o_def)
  then have "list_all (\<lambda>c. 0 \<le> ca_size c) es = list_all (\<lambda>c. 0 \<le> ca_size c) (cs_entries cs)"
    using size by simp
  with addr size uris show "cache_ok env (cs\<lparr>cs_entries := es\<rparr>) = cache_ok env cs" "outside (cs\<lparr>cs_entries := es\<rparr>) = outside cs"
    by (simp_all add: cache_ok_def outside_def [abs_def] total_size_def owned_def)
qed

lemma unlocks_core:
  "map (\<lambda>c. (ca_addr c, ca_body c, owned_uris c)) (foldl (\<lambda>es a. object_unlock a es) es dropped) =
     map (\<lambda>c. (ca_addr c, ca_body c, owned_uris c)) es"
proof (induction dropped arbitrary: es)
  case Nil
  then show ?case by simp
next
  case (Cons a dropped)
  have "map (\<lambda>c. (ca_addr c, ca_body c, owned_uris c)) (object_unlock a es) = map (\<lambda>c. (ca_addr c, ca_body c, owned_uris c)) es"
    by (simp add: object_unlock_def owned_uris_def)
  with Cons show ?case by simp
qed

lemma shrink_memory_ok:
  assumes "cache_ok env cs"
  shows "cache_ok env (shrink_memory env dropped whole cs)" "outside (shrink_memory env dropped whole cs) = outside cs"
    "0 < outside cs a \<Longrightarrow> uri_at (cs_uris (shrink_memory env dropped whole cs)) a = uri_at (cs_uris cs) a"
    "ca_addr ` set (cs_entries (shrink_memory env dropped whole cs)) \<subseteq> ca_addr ` set (cs_entries cs)"
proof -
  let ?es = "foldl (\<lambda>es a. object_unlock a es) (cs_entries cs) dropped"
  let ?cs = "cs\<lparr>cs_entries := ?es\<rparr>"
  have ok: "cache_ok env ?cs" "outside ?cs = outside cs"
    using cache_ok_core [OF unlocks_core [of "cs_entries cs" dropped]] assms by simp_all
  have es: "cs_entries ?cs = ?es"
    by simp
  obtain pre vs where out: "cs_entries (garbage_collection env whole ?cs) = pre @ filter (\<lambda>c. \<not> ca_gc_target c) vs"
    "map unmarked (pre @ vs) = map unmarked (cs_entries ?cs)"
    "cache_ok env (garbage_collection env whole ?cs)" "outside (garbage_collection env whole ?cs) = outside ?cs"
    by (rule gc_outcome [OF ok(1), of whole])
  show "cache_ok env (shrink_memory env dropped whole cs)" "outside (shrink_memory env dropped whole cs) = outside cs"
    using out(3,4) ok(2) by (simp_all add: shrink_memory_def)
  show "uri_at (cs_uris (shrink_memory env dropped whole cs)) a = uri_at (cs_uris cs) a" if "0 < outside cs a"
    using gc_uri [OF ok(1), of a] that ok(2) by (simp add: shrink_memory_def)
  have "ca_addr ` set (pre @ filter (\<lambda>c. \<not> ca_gc_target c) vs) \<subseteq> ca_addr ` set (pre @ vs)"
    by auto
  also have "map ca_addr (pre @ vs) = map ca_addr ?es"
    using arg_cong [OF out(2), of "map ca_addr"] by (simp del: map_append add: o_def es)
  then have "ca_addr ` set (pre @ vs) = ca_addr ` set ?es"
    by (metis list.set_map)
  also have "map ca_addr ?es = map ca_addr (cs_entries cs)"
    using arg_cong [OF unlocks_core [of "cs_entries cs" dropped], of "map fst"] by (simp add: o_def)
  then have "ca_addr ` set ?es = ca_addr ` set (cs_entries cs)"
    by (metis list.set_map)
  finally show "ca_addr ` set (cs_entries (shrink_memory env dropped whole cs)) \<subseteq> ca_addr ` set (cs_entries cs)"
    by (simp add: shrink_memory_def out(1))
qed

lemma add_entry_ok:
  assumes "cache_ok env cs" "addr \<notin> ca_addr ` set (cs_entries cs)"
    and "registers_some (cv_proxy env) (cs_uris cs) (Some cu, uc1)" "registers_some (cv_proxy env) uc1 (Some pu, uc2)"
  shows "cache_ok env (cs\<lparr>cs_entries := fresh_entry addr cu pu n # cs_entries cs, cs_uris := uc2,
     cs_globals := (cs_globals cs)\<lparr>id_counter := k\<rparr>\<rparr>)"
proof -
  have held: "uc_ok (penv_user_program (cv_proxy env)) uc2" "held uc1 = (held (cs_uris cs))(cu := held (cs_uris cs) cu + 1)"
    "held uc2 = (held uc1)(pu := held uc1 pu + 1)"
    using assms(3,4) by (auto simp: registers_some_def registers_def)
  have "owned (fresh_entry addr cu pu n # cs_entries cs) a \<le> held uc2 a" for a
  proof -
    have "owned (cs_entries cs) a \<le> held (cs_uris cs) a"
      using assms(1) by (simp add: cache_ok_def)
    then show ?thesis
      by (auto simp: fresh_entry_def owned_uris_def held(2,3))
  qed
  with assms(1,2) held(1) show ?thesis
    by (simp add: cache_ok_def fresh_entry_def)
qed

text \<open>A registered URI is found again under its address.\<close>

lemma registers_known:
  assumes "uc_ok up uc" "uri_at uc a = Some u" "registers up s uc (Some b, uc')" "u_string u = s"
  shows "b = a"
proof -
  have r: "uc_ok up uc'" "uri_at uc' = (uri_at uc)(b \<mapsto> snd (parse_uri up s))" "u_string (snd (parse_uri up s)) = s"
    using assms(3) parse_string [of up s "snd (parse_uri up s)"] by (simp_all add: registers_def prod_eq_iff)
  show ?thesis
  proof (rule ccontr)
    assume "b \<noteq> a"
    then have "uri_at uc' a = Some u"
      using assms(2) r(2) by simp
    with uri_at_unique [OF r(1), of b "snd (parse_uri up s)" a u] r(2,3) assms(4) \<open>b \<noteq> a\<close> show False
      by simp
  qed
qed

lemma registers_keeps: "registers up s uc (Some b, uc') \<Longrightarrow> uri_at uc a = Some u \<Longrightarrow> uri_at uc' a = Some u"
  by (cases "a = b") (auto simp: registers_def)

definition allocates_fresh :: "cache_env \<Rightarrow> (uri_cache \<Rightarrow> uri_mem) \<Rightarrow> bool" where
  "allocates_fresh env m \<longleftrightarrow> (\<forall>uc. uc_ok (penv_user_program (cv_proxy env)) uc \<longrightarrow> fresh_mem (m uc) uc)"

text \<open>The new entry of \<^verbatim>\<open>get_cache_entry\<close>.\<close>

lemma get_cache_entry_new:
  assumes "cache_ok env cs" "find_in_cache a cs = (None, cs0)" "0 < outside cs a"
    and "get_cache_entry env dropped (Some addr) m a cs = Some (Some c, cs')" "allocates_fresh env m"
  defines "s \<equiv> shrink_memory env dropped False cs"
  obtains cu uc1 pu where "get_proxied_uri (cv_proxy env) (m (cs_uris s)) (uri_of (cs_uris cs) a) (cs_uris s) = (Some cu, uc1)"
    "registers_some (cv_proxy env) uc1 (Some pu, cs_uris cs')"
    "c = fresh_entry addr cu pu (id_counter (cs_globals s))" "cs_entries cs' = c # cs_entries s"
    "cs' = s\<lparr>cs_entries := c # cs_entries s, cs_uris := cs_uris cs',
           cs_globals := (cs_globals s)\<lparr>id_counter := id_counter (cs_globals s) + 1\<rparr>\<rparr>"
proof -
  let ?u = "uri_of (cs_uris cs) a"
  have cs0: "cs0 = cs"
    using assms(2) by (cases rule: find_in_cache_cases) auto
  note sh = shrink_memory_ok [OF assms(1), where dropped = dropped and whole = False, folded s_def]
  have u: "uri_of (cs_uris s) a = ?u"
    using sh(3) [OF assms(3)] by (simp add: uri_of_def)
  have okm: "uc_ok (penv_user_program (cv_proxy env)) (cs_uris s)" "fresh_mem (m (cs_uris s)) (cs_uris s)"
    using sh(1) assms(5) by (simp_all add: cache_ok_def allocates_fresh_def)
  obtain cu uc1 where g1: "get_proxied_uri (cv_proxy env) (m (cs_uris s)) ?u (cs_uris s) = (Some cu, uc1)"
    using assms(4) by (auto simp: get_cache_entry_def assms(2) cs0 Let_def u s_def [symmetric] split: prod.splits option.splits)
  have "uc_ok (penv_user_program (cv_proxy env)) uc1"
    using get_proxied_uri_registers [OF okm, of ?u] g1 by (auto simp: registers_some_def registers_def)
  then have ok1: "uc_ok (penv_user_program (cv_proxy env)) uc1" "fresh_mem (m uc1) uc1"
    using assms(5) by (simp_all add: allocates_fresh_def)
  obtain pu uc2 where g2: "get_proxy_uri (cv_proxy env) (m uc1) ?u uc1 = (Some pu, None, uc2)"
    using assms(4) g1 by (auto simp: get_cache_entry_def assms(2) cs0 Let_def u s_def [symmetric] split: prod.splits option.splits)
  have res: "c = fresh_entry addr cu pu (id_counter (cs_globals s))"
    "cs' = s\<lparr>cs_entries := c # cs_entries s, cs_uris := uc2, cs_globals := (cs_globals s)\<lparr>id_counter := id_counter (cs_globals s) + 1\<rparr>\<rparr>"
    using assms(4) g1 g2 by (auto simp: get_cache_entry_def assms(2) cs0 Let_def u s_def [symmetric])
  then show thesis
    using that [OF g1] get_proxy_uri_registers [OF ok1 g2] by simp
qed

lemma get_cache_entry_added:
  assumes "cache_ok env cs" "0 < outside cs a" "allocates_fresh env m"
    and "uri_at (cs_uris cs) a = Some (parsed (penv_user_program (cv_proxy env)) scheme auth host port path None post)"
    and "wf_uri (penv_user_program (cv_proxy env)) scheme auth host port path None post"
    and "get_protocol (penv_user_program (cv_proxy env)) scheme \<noteq> PROTOCOL_PROXY"
    and "addr \<notin> ca_addr ` set (cs_entries cs)"
    and "get_cache_entry env dropped (Some addr) m a cs = Some (Some c, cs')"
    and "find_in_cache a cs = (None, cs0)"
  shows "find_in_cache a cs' = (Some c, cs') \<and> cache_ok env cs'"
proof -
  let ?up = "penv_user_program (cv_proxy env)" and ?s = "shrink_memory env dropped False cs"
  let ?u = "parsed ?up scheme auth host port path None post" and ?t = "uri_text scheme auth host port path None post"
  have u: "uri_of (cs_uris cs) a = ?u" "u_protocol ?u \<noteq> PROTOCOL_PROXY" "u_string ?u = ?t"
    using assms(4,6) by (simp_all add: uri_of_def parsed_sel)
  note sh = shrink_memory_ok [OF assms(1), where dropped = dropped and whole = False]
  have uc: "uc_ok ?up (cs_uris ?s)" "uri_at (cs_uris ?s) a = Some ?u" "fresh_mem (m (cs_uris ?s)) (cs_uris ?s)"
    using sh(1) sh(3) [OF assms(2)] assms(3,4) by (simp_all add: cache_ok_def allocates_fresh_def)
  obtain cu uc1 pu where new: "get_proxied_uri (cv_proxy env) (m (cs_uris ?s)) ?u (cs_uris ?s) = (Some cu, uc1)"
    "registers_some (cv_proxy env) uc1 (Some pu, cs_uris cs')"
    "c = fresh_entry addr cu pu (id_counter (cs_globals ?s))" "cs_entries cs' = c # cs_entries ?s"
    "cs' = ?s\<lparr>cs_entries := c # cs_entries ?s, cs_uris := cs_uris cs',
           cs_globals := (cs_globals ?s)\<lparr>id_counter := id_counter (cs_globals ?s) + 1\<rparr>\<rparr>"
    using get_cache_entry_new [OF assms(1) assms(9) assms(2,8,3)] unfolding u(1) by metis
  have reg: "registers ?up ?t (cs_uris ?s) (Some cu, uc1)"
    using get_whole_uri_registers [OF uc(1,3), of ?t] new(1) u(2)
    by (simp add: get_proxied_uri_def get_composed_uri_def base_parsed [OF assms(5)])
  have "cu = a"
    using registers_known [OF uc(1,2) reg u(3)] .
  moreover have "uri_at (cs_uris cs') a = Some ?u"
    using registers_keeps [OF reg uc(2)] new(2) registers_keeps unfolding registers_some_def by blast
  ultimately have "entry_matches (cs_uris cs') a c"
    using u(2) by (simp add: entry_matches_def new(3) fresh_entry_def uri_of_def compare_uri_def)
  then have "find_in_cache a cs' = (Some c, cs')"
    using find_first [OF new(4)] by blast
  moreover have "addr \<notin> ca_addr ` set (cs_entries ?s)"
    using assms(7) sh(4) by blast
  moreover have "registers_some (cv_proxy env) (cs_uris ?s) (Some cu, uc1)"
    using reg unfolding registers_some_def by blast
  ultimately show ?thesis
    using add_entry_ok [OF sh(1) _ _ new(2), of addr cu] new(3,5) by metis
qed

text \<open>C20: The entry \<^verbatim>\<open>get_cache_entry\<close> returns for a URI is the one the next \<^verbatim>\<open>find_in_cache\<close> finds for
  it, whether it was in the cache or has been added, and whatever the collection that runs before an addition
  removed; the cache is consistent afterwards. The caller holds a reference to the URI, which
  is well-formed, has no fragment and is not itself a proxy URI.\<close>

theorem get_cache_entry_found:
  assumes "cache_ok env cs" "0 < outside cs a" "allocates_fresh env m"
    and "uri_at (cs_uris cs) a = Some (parsed (penv_user_program (cv_proxy env)) scheme auth host port path None post)"
    and "wf_uri (penv_user_program (cv_proxy env)) scheme auth host port path None post"
    and "get_protocol (penv_user_program (cv_proxy env)) scheme \<noteq> PROTOCOL_PROXY"
    and "addr \<notin> ca_addr ` set (cs_entries cs)"
    and "get_cache_entry env dropped (Some addr) m a cs = Some (Some c, cs')"
  shows "find_in_cache a cs' = (Some c, cs') \<and> cache_ok env cs'"
proof (cases "find_in_cache a cs")
  case (Pair r cs0)
  show ?thesis
  proof (cases r)
    case (Some d)
    then have "d = c" "cs0 = cs'"
      using assms(8) Pair by (simp_all add: get_cache_entry_def)
    then show ?thesis
      using Pair Some find_again find_in_cache_keeps(1) assms(1) by blast
  next
    case None
    with Pair show ?thesis
      using get_cache_entry_added [OF assms] by simp
  qed
qed

text \<open>An allocator that never fails.\<close>

lemma good_allocator:
  obtains m where "allocates_fresh env m"
    "\<And>uc. uc_ok (penv_user_program (cv_proxy env)) uc \<Longrightarrow> mem_map (m uc) \<and> mem_entry (m uc) \<noteq> None \<and> mem_item (m uc) \<noteq> None"
proof -
  have "\<exists>mm. uc_ok (penv_user_program (cv_proxy env)) uc \<longrightarrow>
      fresh_mem mm uc \<and> mem_map mm \<and> mem_entry mm \<noteq> None \<and> mem_item mm \<noteq> None" for uc
    using fresh_exists [of "penv_user_program (cv_proxy env)" uc]
    by (metis option.distinct(1) uri_mem.select_convs(1) uri_mem.select_convs(2) uri_mem.select_convs(3))
  then obtain m where "\<forall>uc. uc_ok (penv_user_program (cv_proxy env)) uc \<longrightarrow>
      fresh_mem (m uc) uc \<and> mem_map (m uc) \<and> mem_entry (m uc) \<noteq> None \<and> mem_item (m uc) \<noteq> None"
    by (metis (no_types, lifting))
  then show thesis
    by (intro that [of m]) (auto simp: allocates_fresh_def)
qed

text \<open>The proxied and the proxy URI of the sample URI: both are the URI itself.\<close>

lemma sample_uris:
  assumes "allocates_fresh sample_cache_env m"
    and "\<And>uc. uc_ok (\<lambda>_. False) uc \<Longrightarrow> mem_map (m uc) \<and> mem_entry (m uc) \<noteq> None \<and> mem_item (m uc) \<noteq> None"
    and "uc_ok (\<lambda>_. False) uc"
  obtains cu uc1 pu uc2 where "get_proxied_uri sample_proxy_env (m uc) sample_uri uc = (Some cu, uc1)" "uc_ok (\<lambda>_. False) uc1"
    "get_proxy_uri sample_proxy_env (m uc1) sample_uri uc1 = (Some pu, None, uc2)" "uri_at uc2 pu = Some sample_uri"
    "\<forall>a u. uri_at uc a = Some u \<longrightarrow> uri_at uc1 a = Some u"
proof -
  let ?up = "\<lambda>_ :: string. False" and ?t = "''http://elinks.cz/a/b''"
  have up: "penv_user_program (cv_proxy sample_cache_env) = ?up"
    by (simp add: sample_cache_env_def sample_proxy_env_def)
  have base: "add_uri_to_string idn sample_uri URI_BASE = ?t" for idn
    using base_parsed [OF sample_wf(1)] by (simp add: uri_text_def)
  have get: "\<exists>b uc''. get_whole_uri ?up (m uc') ?t uc' = (Some b, uc'') \<and> registers ?up ?t uc' (Some b, uc'')" if "uc_ok ?up uc'" for uc'
    using get_whole_uri_succeeds [OF _ _ _ sample_parse that, of "m uc'"] assms(2) [OF that]
      get_whole_uri_registers [OF that, of "m uc'" ?t] assms(1) that
    by (cases "get_whole_uri ?up (m uc') ?t uc'") (auto simp: allocates_fresh_def up)
  obtain cu uc1 where g1: "get_whole_uri ?up (m uc) ?t uc = (Some cu, uc1)" "registers ?up ?t uc (Some cu, uc1)"
    using get [OF assms(3)] by blast
  then have uc1: "uc_ok ?up uc1"
    by (simp add: registers_def)
  obtain pu uc2 where g2: "get_whole_uri ?up (m uc1) ?t uc1 = (Some pu, uc2)" "registers ?up ?t uc1 (Some pu, uc2)"
    using get [OF uc1] by blast
  have http: "u_protocol sample_uri = PROTOCOL_HTTP"
    by (simp add: parsed_sel http_sample)
  have "get_proxied_uri sample_proxy_env (m uc) sample_uri uc = (Some cu, uc1)"
    using g1(1) by (simp add: get_proxied_uri_def get_composed_uri_def http base) (simp add: sample_proxy_env_def)
  moreover have "protocol_proxy sample_proxy_env PROTOCOL_HTTP = None" "penv_script sample_proxy_env = None"
    by (simp_all add: protocol_proxy_def get_protocol_proxy_def sample_proxy_env_def)
  then have "get_proxy_uri sample_proxy_env (m uc1) sample_uri uc1 = (Some pu, None, uc2)"
    using g2(1) by (simp add: get_proxy_uri_def get_proxy_worker_def base_uri_def get_composed_uri_def http base) (simp add: sample_proxy_env_def)
  moreover have "uri_at uc2 pu = Some sample_uri"
    using g2(2) by (simp add: registers_def sample_parse)
  ultimately show thesis
    using that uc1 registers_keeps [OF g1(2)] by blast
qed

theorem get_cache_entry_found_witness:
  "\<exists>a cs m c cs'. get_cache_entry sample_cache_env [] (Some 5) m a cs = Some (Some c, cs') \<and>
     find_in_cache a cs' = (Some c, cs') \<and> cache_ok sample_cache_env cs'"
proof -
  let ?up = "\<lambda>_ :: string. False"
  have up: "penv_user_program (cv_proxy sample_cache_env) = ?up" and env: "cv_proxy sample_cache_env = sample_proxy_env"
    by (simp_all add: sample_cache_env_def sample_proxy_env_def)
  obtain a uc where uc: "uc_ok ?up uc" "held uc a = 1" "uri_at uc a = Some sample_uri"
    by (rule sample_registered)
  obtain m where m: "allocates_fresh sample_cache_env m"
    "\<And>uc. uc_ok ?up uc \<Longrightarrow> mem_map (m uc) \<and> mem_entry (m uc) \<noteq> None \<and> mem_item (m uc) \<noteq> None"
    using good_allocator [of sample_cache_env] unfolding up by blast
  define cs where "cs = \<lparr>cs_entries = [], cs_globals = \<lparr>cache_size = 0, id_counter = 1\<rparr>, cs_uris = uc\<rparr>"
  have ok: "cache_ok sample_cache_env cs" "0 < outside cs a"
    using uc(1,2) by (simp_all add: cache_ok_def up cs_def outside_def)
  obtain cu uc1 pu uc2 where p: "get_proxied_uri sample_proxy_env (m uc) sample_uri uc = (Some cu, uc1)"
      "get_proxy_uri sample_proxy_env (m uc1) sample_uri uc1 = (Some pu, None, uc2)"
    by (rule sample_uris [OF m uc(1)])
  have sh: "shrink_memory sample_cache_env [] False cs = cs"
    by (simp add: shrink_memory_def garbage_collection_def cs_def sample_cache_env_def Let_def)
  have "find_in_cache a cs = (None, cs)" "uri_of (cs_uris cs) a = sample_uri" "cs_uris cs = uc"
    using uc(3) by (simp_all add: cs_def find_in_cache_def uri_of_def)
  then have "\<exists>c cs'. get_cache_entry sample_cache_env [] (Some 5) m a cs = Some (Some c, cs')"
    by (simp add: get_cache_entry_def sh Let_def env p)
  then obtain c cs' where c: "get_cache_entry sample_cache_env [] (Some 5) m a cs = Some (Some c, cs')"
    by blast
  have "uri_at (cs_uris cs) a = Some sample_uri" "5 \<notin> ca_addr ` set (cs_entries cs)" "get_protocol ?up ''http'' \<noteq> PROTOCOL_PROXY"
    using uc(3) by (simp_all add: cs_def http_sample)
  from get_cache_entry_found [OF ok m(1), unfolded up, OF this(1) sample_wf(1) this(3,2) c] c show ?thesis
    by blast
qed

end
