(* ===== verification/Base64.thy ===== *)
theory Base64
  imports Prelude
begin

text \<open>
  \<^verbatim>\<open>util/base64.c\<close>: the encoder (HTTP basic authentication) and the decoder (stored form
  passwords). Both receive a C string and fill a buffer whose size they compute first; the model
  returns the bytes stored before the closing NUL, so that the number of stored bytes can be
  compared with the size of the buffer. The index expressions are computed in \<^verbatim>\<open>int\<close> on values
  below \<open>2 ^ 12\<close>, where no overflow is possible; the decoder's accumulator is a 32-bit word.
\<close>

section \<open>Encoding\<close>

definition base64_chars :: string where
  "base64_chars = ''ABCDEFGHIJKLMNOPQRSTUVWXYZabcdefghijklmnopqrstuvwxyz0123456789+/''"

abbreviation b64 :: "nat \<Rightarrow> char" where
  "b64 i \<equiv> base64_chars ! i"

abbreviation ord_of :: "char \<Rightarrow> nat" where
  "ord_of c \<equiv> of_char c"

text \<open>The four table indices of a group of three bytes.\<close>

definition idx0 :: "nat \<Rightarrow> nat" where
  "idx0 a = drop_bit 2 a"

definition idx1 :: "nat \<Rightarrow> nat \<Rightarrow> nat" where
  "idx1 a b = (push_bit 4 a OR drop_bit 4 b) AND 63"

definition idx2 :: "nat \<Rightarrow> nat \<Rightarrow> nat" where
  "idx2 b c = (push_bit 2 b OR drop_bit 6 c) AND 63"

definition idx3 :: "nat \<Rightarrow> nat" where
  "idx3 c = c AND 63"

text \<open>The loop over whole groups, then the remainder of one or two bytes with its padding.\<close>

fun encode_groups :: "string \<Rightarrow> string" where
  "encode_groups (a # b # c # rest) =
     b64 (idx0 (ord_of a)) # b64 (idx1 (ord_of a) (ord_of b)) # b64 (idx2 (ord_of b) (ord_of c)) #
     b64 (idx3 (ord_of c)) # encode_groups rest"
| "encode_groups [a, b] =
     [b64 (idx0 (ord_of a)), b64 (idx1 (ord_of a) (ord_of b)), b64 (push_bit 2 (ord_of b) AND 63), CHR ''='']"
| "encode_groups [a] = [b64 (idx0 (ord_of a)), b64 (push_bit 4 (ord_of a) AND 63), CHR ''='', CHR ''='']"
| "encode_groups [] = []"

definition encode_alloc :: "string \<Rightarrow> nat" where
  "encode_alloc s = length s div 3 * 4 + 4 + 1"

text \<open>The assertion refuses the empty string, and the allocation of the buffer may fail.\<close>

definition base64_encode :: "(nat \<Rightarrow> bool) \<Rightarrow> string \<Rightarrow> string option" where
  "base64_encode alloc s =
     (if s = [] then None else if \<not> alloc (encode_alloc s) then None else Some (encode_groups s))"

section \<open>Decoding\<close>

text \<open>
  The two tables filled on the first call: the loop runs down to index 0, so for a byte that
  occurs several times the least index would remain; the terminating NUL of the array gets the
  index 64, which is never looked up because the reading loop stops at a NUL.
\<close>

definition is_base64_char :: "char \<Rightarrow> bool" where
  "is_base64_char c \<longleftrightarrow> c \<in> set (base64_chars @ [NUL])"

definition decode_char :: "char \<Rightarrow> uint32" where
  "decode_char c = of_nat (case find_index (\<lambda>d. d = c) (base64_chars @ [NUL]) of None \<Rightarrow> 0 | Some i \<Rightarrow> i)"

text \<open>A store into the \<^verbatim>\<open>unsigned char\<close> output keeps the low eight bits.\<close>

definition byte :: "uint32 \<Rightarrow> char" where
  "byte w = char_of (unat w)"

definition three_bytes :: "uint32 \<Rightarrow> string" where
  "three_bytes bits = [byte (drop_bit 16 bits), byte (drop_bit 8 bits AND 0xff), byte (bits AND 0xff)]"

text \<open>What follows the loop: the end of the string with a complete group, or padding.\<close>

definition decode_tail :: "nat \<Rightarrow> uint32 \<Rightarrow> string option" where
  "decode_tail cnt bits =
     (if cnt = 1 then None
      else if cnt = 2 then Some [byte (drop_bit 10 bits)]
      else if cnt = 3 then Some [byte (drop_bit 16 bits), byte (drop_bit 8 bits AND 0xff)]
      else Some [])"

fun decode_loop :: "string \<Rightarrow> nat \<Rightarrow> uint32 \<Rightarrow> string option" where
  "decode_loop [] cnt bits = (if cnt \<noteq> 0 then None else Some [])"
| "decode_loop (c # cs) cnt bits =
     (if c = CHR ''='' then decode_tail cnt bits
      else if \<not> is_base64_char c then None
      else let bits' = bits + decode_char c in
        if cnt + 1 = 4 then map_option (\<lambda>out. three_bytes bits' @ out) (decode_loop cs 0 0)
        else decode_loop cs (cnt + 1) (push_bit 6 bits'))"

definition decode_alloc :: "string \<Rightarrow> nat" where
  "decode_alloc s = length s div 4 * 3 + 1"

definition base64_decode :: "(nat \<Rightarrow> bool) \<Rightarrow> string \<Rightarrow> string option" where
  "base64_decode alloc s =
     (if s = [] then None else if \<not> alloc (decode_alloc s) then None else decode_loop s 0 0)"

section \<open>The decoder inverts the table\<close>

lemma length_base64_chars: "length base64_chars = 64"
  by (simp add: base64_chars_def)

lemma distinct_base64_chars: "distinct base64_chars"
  by (simp add: base64_chars_def)

lemma pad_not_base64: "CHR ''='' \<notin> set base64_chars"
  by (simp add: base64_chars_def)

lemma find_index_nth_distinct:
  "distinct xs \<Longrightarrow> i < length xs \<Longrightarrow> find_index (\<lambda>d. d = xs ! i) (xs @ ys) = Some i"
proof (induction xs arbitrary: i)
  case Nil
  then show ?case by simp
next
  case (Cons x xs)
  then show ?case by (cases i) auto
qed

lemma b64_in [simp]: "i < 64 \<Longrightarrow> is_base64_char (b64 i)"
  by (simp add: is_base64_char_def length_base64_chars)

lemma b64_not_pad [simp]: "i < 64 \<Longrightarrow> b64 i \<noteq> CHR ''=''"
  using pad_not_base64 by (metis length_base64_chars nth_mem)

lemma decode_b64 [simp]: "i < 64 \<Longrightarrow> decode_char (b64 i) = of_nat i"
  using find_index_nth_distinct [OF distinct_base64_chars, of i "[NUL]"]
  by (simp add: decode_char_def length_base64_chars)

section \<open>Index arithmetic\<close>

lemma or_below:
  assumes "y < 2 ^ n"
  shows "push_bit n x OR y = x * 2 ^ n + (y :: nat)"
proof -
  have y: "take_bit n y = y"
    using assms by (simp add: take_bit_nat_eq_self_iff)
  have "push_bit n x AND take_bit n y = 0"
    by (rule bit_eqI) (auto simp: bit_simps)
  with y show ?thesis
    by (simp add: disjunctive_add_eq_or [symmetric] push_bit_eq_mult)
qed

lemma and63: "(n :: nat) AND 63 = n mod 64"
  using take_bit_eq_mask [of 6 n] by (simp add: take_bit_eq_mod mask_eq_exp_minus_1)

lemma mod_digits: "y < m \<Longrightarrow> (x * m + y) mod (m * k) = x mod k * m + (y :: nat)"
  by (simp add: mod_mult2_eq)

lemma mod_shift: "x * m mod (m * k) = x mod k * (m :: nat)"
  by (cases "m = 0") (simp_all add: mod_mult2_eq)

lemma idx_values:
  "idx0 a = a div 4" "b < 256 \<Longrightarrow> idx1 a b = a mod 4 * 16 + b div 16"
  "c < 256 \<Longrightarrow> idx2 b c = b mod 16 * 4 + c div 64" "idx3 c = c mod 64"
  "push_bit 2 b AND 63 = b mod 16 * 4" "push_bit 4 a AND 63 = a mod 4 * 16"
proof -
  show "idx1 a b = a mod 4 * 16 + b div 16" if "b < 256"
    using that or_below [of "b div 16" 4 a] mod_digits [of "b div 16" 16 a 4] by (simp add: idx1_def and63 drop_bit_eq_div)
  show "idx2 b c = b mod 16 * 4 + c div 64" if "c < 256"
    using that or_below [of "c div 64" 2 b] mod_digits [of "c div 64" 4 b 16] by (simp add: idx2_def and63 drop_bit_eq_div)
qed (use mod_shift [of b 4 16] mod_shift [of a 16 4] in
     \<open>simp_all add: idx0_def idx3_def and63 drop_bit_eq_div push_bit_eq_mult\<close>)

lemma byte_shift: "n < 2 ^ 32 \<Longrightarrow> byte (drop_bit k (of_nat n)) = char_of (n div 2 ^ k)"
  by (simp only: byte_def unsigned_drop_bit_eq) (simp add: take_bit_eq_mod drop_bit_eq_div unat_of_nat)

lemma byte_mask: "byte (w AND 0xff) = byte w"
proof -
  have "w AND 0xff = take_bit 8 w"
    by (simp add: take_bit_eq_mask mask_eq_exp_minus_1)
  then show ?thesis
    by (simp add: byte_def unsigned_take_bit_eq) (simp add: take_bit_eq_mod char_of_mod_256 [symmetric])
qed

lemma three_bytes_value:
  "n < 2 ^ 24 \<Longrightarrow> three_bytes (of_nat n) = [char_of (n div 2 ^ 16), char_of (n div 2 ^ 8), char_of n]"
  using byte_shift [of n 16] byte_shift [of n 8] byte_shift [of n 0] by (simp add: three_bytes_def byte_mask)

lemma push_of_nat: "push_bit 6 (of_nat n :: uint32) = of_nat (n * 64)"
  by (simp add: push_bit_eq_mult)

lemma decode_more:
  "i < 64 \<Longrightarrow> k < 3 \<Longrightarrow> decode_loop (b64 i # cs) k (of_nat n) = decode_loop cs (k + 1) (of_nat ((n + i) * 64))"
  using push_of_nat [of "n + i"] by (simp add: Let_def)

lemma decode_full:
  "i < 64 \<Longrightarrow> n + i < 2 ^ 24 \<Longrightarrow> decode_loop (b64 i # cs) 3 (of_nat n) =
     map_option (\<lambda>out. char_of ((n + i) div 2 ^ 16) # char_of ((n + i) div 2 ^ 8) # char_of (n + i) # out) (decode_loop cs 0 0)"
  using three_bytes_value [of "n + i"] by (simp add: Let_def fun_eq_iff cong: map_option_cong)

lemma char_of_byte: "(n :: nat) mod 256 = ord_of c \<Longrightarrow> char_of n = c"
  by (metis char_of_mod_256 char_of_char)

section \<open>Round trip and buffer sizes\<close>

lemma ord_less: "ord_of c < 256"
  using mod_less_divisor [of 256 "ord_of c"] by (simp add: of_char_mod_256)

lemma regroup:
  "a = 4 * qa + ra \<Longrightarrow> b = 16 * qb + rb \<Longrightarrow> c = 64 * qc + rc \<Longrightarrow>
     ((qa * 64 + (ra * 16 + qb)) * 64 + (rb * 4 + qc)) * 64 + rc = (a * 256 + b) * 256 + (c :: nat)"
  by simp

lemma group_value:
  assumes "b < 256" "c < (256 :: nat)"
  shows "((idx0 a * 64 + idx1 a b) * 64 + idx2 b c) * 64 + idx3 c = (a * 256 + b) * 256 + c"
  unfolding idx_values(1,4) idx_values(2) [OF assms(1)] idx_values(3) [OF assms(2)] by (rule regroup) simp_all

lemma digits256:
  assumes "b < 256" "c < (256 :: nat)"
  shows "((a * 256 + b) * 256 + c) div 2 ^ 16 = a" "((a * 256 + b) * 256 + c) div 2 ^ 8 mod 256 = b"
    "((a * 256 + b) * 256 + c) mod 256 = c"
proof -
  show "((a * 256 + b) * 256 + c) div 2 ^ 16 = a"
    using assms by (intro div_nat_eqI) simp_all
  have "((a * 256 + b) * 256 + c) div 2 ^ 8 = a * 256 + b"
    using assms by (intro div_nat_eqI) simp_all
  then show "((a * 256 + b) * 256 + c) div 2 ^ 8 mod 256 = b"
    using assms by (simp only: mod_mult_self3 mod_less)
  show "((a * 256 + b) * 256 + c) mod 256 = c"
    using assms by (simp only: mod_mult_self3 mod_less)
qed

lemma idx_less:
  "a < 256 \<Longrightarrow> idx0 a < 64" "b < 256 \<Longrightarrow> idx1 a b < 64" "c < 256 \<Longrightarrow> idx2 b c < 64" "idx3 c < 64"
proof -
  show "idx1 a b < 64" if "b < 256"
  proof -
    have "a mod 4 \<le> 3" "b div 16 \<le> 15" using that by simp_all
    with that show ?thesis by (simp add: idx_values)
  qed
  show "idx2 b c < 64" if "c < 256"
  proof -
    have "b mod 16 \<le> 15" "c div 64 \<le> 3" using that by simp_all
    with that show ?thesis by (simp add: idx_values)
  qed
qed (simp_all add: idx_values)

lemma idx_low: "idx1 a 0 = a mod 4 * 16" "idx2 b 0 = b mod 16 * 4"
  by (simp_all add: idx_values)

lemma decode_two:
  "i < 64 \<Longrightarrow> j < 64 \<Longrightarrow> decode_loop (b64 i # b64 j # cs) 0 0 = decode_loop cs 2 (of_nat ((i * 64 + j) * 64))"
  using decode_more [of i 0 "b64 j # cs" 0] decode_more [of j 1 cs "i * 64"]
  by (simp del: decode_loop.simps of_nat_mult of_nat_add of_nat_numeral add: numeral_2_eq_2)

lemma decode_three:
  "i < 64 \<Longrightarrow> j < 64 \<Longrightarrow> k < 64 \<Longrightarrow>
     decode_loop (b64 i # b64 j # b64 k # cs) 0 0 = decode_loop cs 3 (of_nat (((i * 64 + j) * 64 + k) * 64))"
  using decode_two [of i j "b64 k # cs"] decode_more [of k 2 cs "(i * 64 + j) * 64"]
  by (simp only: numeral_less_iff semiring_norm one_plus_numeral numeral_plus_one)

lemma decode_quad:
  assumes "i < 64" "j < 64" "k < 64" "l < 64" "((i * 64 + j) * 64 + k) * 64 + l = (ord_of a * 256 + ord_of b) * 256 + ord_of c"
  shows "decode_loop (b64 i # b64 j # b64 k # b64 l # cs) 0 0 = map_option (\<lambda>out. a # b # c # out) (decode_loop cs 0 0)"
proof -
  let ?n = "((i * 64 + j) * 64 + k) * 64 + l"
  have lt: "?n < 2 ^ 24"
    using assms(1-4) by simp
  have "?n div 2 ^ 16 = ord_of a" "?n div 2 ^ 8 mod 256 = ord_of b" "?n mod 256 = ord_of c"
    unfolding assms(5) using digits256 [OF ord_less [of b] ord_less [of c]] by simp_all
  then have "char_of (?n div 2 ^ 16) = a" "char_of (?n div 2 ^ 8) = b" "char_of ?n = c"
    using char_of_byte [of "?n div 2 ^ 8" b] char_of_byte [of ?n c] by simp_all
  then show ?thesis
    using decode_three [OF assms(1-3), of "b64 l # cs"] decode_full [OF assms(4) lt, of cs] by (simp only:)
qed

lemma decode_pair:
  assumes "i < 64" "j < 64" "i * 64 + j = ord_of a * 16"
  shows "decode_loop (b64 i # b64 j # CHR ''='' # cs) 0 0 = Some [a]"
proof -
  have "(i * 64 + j) * 64 < 2 ^ 32" "(i * 64 + j) * 64 div 2 ^ 10 = ord_of a"
    using assms by simp_all
  then have "byte (drop_bit 10 (of_nat ((i * 64 + j) * 64))) = a"
    using byte_shift [of "(i * 64 + j) * 64" 10] by (simp only: char_of_char)
  then show ?thesis
    using decode_two [OF assms(1,2)] by (simp add: decode_tail_def del: of_nat_mult of_nat_add of_nat_numeral)
qed

lemma decode_triple:
  assumes "i < 64" "j < 64" "k < 64" "(i * 64 + j) * 64 + k = (ord_of a * 256 + ord_of b) * 4"
  shows "decode_loop (b64 i # b64 j # b64 k # CHR ''='' # cs) 0 0 = Some [a, b]"
proof -
  let ?n = "((i * 64 + j) * 64 + k) * 64"
  have n: "?n < 2 ^ 32"
    using assms(1-3) by simp
  have "?n = (ord_of a * 256 + ord_of b) * 256 + 0"
    unfolding assms(4) by simp
  then have "?n div 2 ^ 16 = ord_of a" "?n div 2 ^ 8 mod 256 = ord_of b"
    using digits256 [OF ord_less [of b], of 0 "ord_of a"] by (simp_all only:)
  then have "byte (drop_bit 16 (of_nat ?n)) = a" "byte (drop_bit 8 (of_nat ?n) AND 0xff) = b"
    using byte_shift [OF n, of 16] byte_shift [OF n, of 8] char_of_byte [of "?n div 2 ^ 8" b] by (simp_all only: byte_mask char_of_char)
  then show ?thesis
    using decode_three [OF assms(1-3)] by (simp add: decode_tail_def del: of_nat_mult of_nat_add of_nat_numeral)
qed

lemma decode_groups: "decode_loop (encode_groups s) 0 0 = Some s"
proof (induction s rule: encode_groups.induct)
  case (1 a b c rest)
  have "decode_loop (encode_groups (a # b # c # rest)) 0 0 = map_option (\<lambda>out. a # b # c # out) (decode_loop (encode_groups rest) 0 0)"
    unfolding encode_groups.simps using ord_less by (intro decode_quad group_value idx_less)
  with 1 show ?case by (simp only: option.map)
next
  case (2 a b)
  have "(idx0 (ord_of a) * 64 + idx1 (ord_of a) (ord_of b)) * 64 + idx2 (ord_of b) 0 = (ord_of a * 256 + ord_of b) * 4"
    using group_value [of "ord_of b" 0 "ord_of a"] ord_less [of b] by (simp add: idx_values(4))
  with 2 show ?case
    unfolding encode_groups.simps idx_values(5) idx_low [symmetric] by (intro decode_triple idx_less) (simp_all add: ord_less)
next
  case (3 a)
  have "idx0 (ord_of a) * 64 + idx1 (ord_of a) 0 = ord_of a * 16"
    using group_value [of 0 0 "ord_of a"] by (simp add: idx_values(4) idx_low)
  with 3 show ?case
    unfolding encode_groups.simps idx_values(6) idx_low [symmetric] by (intro decode_pair idx_less) (simp_all add: ord_less)
qed simp

lemma length_encode: "length (encode_groups s) = (length s + 2) div 3 * 4"
  by (induction s rule: encode_groups.induct) (simp_all, presburger)

text \<open>The number of bytes the decoder stores is fixed by the table characters before the padding.\<close>

lemma decode_loop_length:
  assumes "decode_loop s k w = Some out" "k < 4"
  shows "length out = (k + length (takeWhile (\<lambda>c. c \<noteq> CHR ''='') s)) * 3 div 4"
  using assms
proof (induction s k w arbitrary: out rule: decode_loop.induct)
  case (1 k w)
  then show ?case by (auto split: if_splits)
next
  case (2 c cs k w)
  show ?case
  proof (cases "c = CHR ''=''")
    case True
    with 2(3) have "decode_tail k w = Some out" by simp
    moreover have "k = 0 \<or> k = 1 \<or> k = 2 \<or> k = 3" using 2(4) by linarith
    ultimately show ?thesis using True by (auto simp: decode_tail_def)
  next
    case False
    show ?thesis
    proof (cases "k = 3")
      case True
      with False 2(3) obtain o' where o: "decode_loop cs 0 0 = Some o'" "length out = 3 + length o'"
        by (auto simp: Let_def three_bytes_def split: if_splits)
      with 2(1) 2(3) False True have "length o' = length (takeWhile (\<lambda>c. c \<noteq> CHR ''='') cs) * 3 div 4"
        by (auto split: if_splits)
      with o(2) True False show ?thesis by simp
    next
      case k: False
      with False 2 show ?thesis by (auto simp: Let_def split: if_splits)
    qed
  qed
qed

lemma decode_unpadded: "decode_loop s k w = Some out \<Longrightarrow> k < 4 \<Longrightarrow> CHR ''='' \<notin> set s \<Longrightarrow> (k + length s) mod 4 = 0"
proof (induction s k w arbitrary: out rule: decode_loop.induct)
  case (2 c cs k w)
  show ?case
  proof (cases "k = 3")
    case True
    with 2(3,5) obtain o' where "decode_loop cs 0 0 = Some o'"
      by (auto simp: Let_def split: if_splits)
    with 2(1) [OF _ _ refl _ this] 2(3,5) True show ?thesis by (auto split: if_splits)
  next
    case False
    with 2(2) [OF _ _ refl, of out] 2(3-5) show ?thesis
      by (auto simp: Let_def split: if_splits)
  qed
qed (simp split: if_splits)

text \<open>C40: Base64 decoding returns what was encoded, for every non-empty string whose buffers can
  be allocated, and both routines stay within the buffers they allocate, closing NUL included.\<close>

theorem base64_roundtrip:
  assumes "base64_encode alloc s = Some e" "alloc (decode_alloc e)"
  shows "base64_decode alloc e = Some s \<and> length e + 1 \<le> encode_alloc s \<and> length s + 1 \<le> decode_alloc e"
proof -
  have e: "s \<noteq> []" "e = encode_groups s"
    using assms(1) by (auto simp: base64_encode_def split: if_splits)
  have len: "length e = (length s + 2) div 3 * 4"
    by (simp add: e(2) length_encode)
  have "e \<noteq> []"
  proof
    assume "e = []"
    with len have "(length s + 2) div 3 = 0" by simp
    with e(1) show False by (cases s) auto
  qed
  then have "base64_decode alloc e = Some s"
    using assms(2) decode_groups by (simp add: base64_decode_def e(2))
  moreover have "length e + 1 \<le> encode_alloc s"
    unfolding len encode_alloc_def by presburger
  moreover have "length s + 1 \<le> decode_alloc e"
    unfolding len decode_alloc_def by presburger
  ultimately show ?thesis by simp
qed

theorem base64_roundtrip_witness:
  "base64_encode (\<lambda>_. True) ''user:pw'' = Some ''dXNlcjpwdw=='' \<and> base64_decode (\<lambda>_. True) ''dXNlcjpwdw=='' = Some ''user:pw''"
proof -
  have e: "base64_encode (\<lambda>_. True) ''user:pw'' = Some ''dXNlcjpwdw==''"
    by (simp add: base64_encode_def idx_values base64_chars_def)
  then show ?thesis
    using base64_roundtrip [OF e] by simp
qed

lemma lone_pad:
  "(\<exists>xs. s = xs @ ''='' \<and> CHR ''='' \<notin> set xs \<and> length xs mod 4 = 2) \<longleftrightarrow>
     length (dropWhile (\<lambda>c. c \<noteq> CHR ''='') s) = 1 \<and> length (takeWhile (\<lambda>c. c \<noteq> CHR ''='') s) mod 4 = 2"
  (is "?l \<longleftrightarrow> length ?d = 1 \<and> length ?t mod 4 = 2")
proof
  assume ?l
  then obtain xs where xs: "s = xs @ ''=''" "CHR ''='' \<notin> set xs" "length xs mod 4 = 2"
    by blast
  then show "length ?d = 1 \<and> length ?t mod 4 = 2"
    by (auto simp: takeWhile_append dropWhile_append)
next
  assume r: "length ?d = 1 \<and> length ?t mod 4 = 2"
  then have "?d = [hd ?d]" "?d \<noteq> []"
    by (cases ?d; simp)+
  then have "?d = ''=''"
    using hd_dropWhile [of "\<lambda>c. c \<noteq> CHR ''=''" s] by simp
  then have "s = ?t @ ''=''"
    using takeWhile_dropWhile_id [of "\<lambda>c. c \<noteq> CHR ''=''" s] by simp
  then show ?l
    using r by (intro exI [of _ ?t]) (auto dest: set_takeWhileD)
qed

lemma decode_alloc_bound:
  assumes "length s = 4 * q + r + m" "r < 4" "m = 0 \<Longrightarrow> r = 0"
  shows "(4 * q + r) * 3 div 4 \<le> decode_alloc s \<and> (decode_alloc s < (4 * q + r) * 3 div 4 + 1 \<longleftrightarrow> m = 1 \<and> r = 2)"
proof -
  have "r = 0 \<or> r = 1 \<or> r = 2 \<or> r = 3"
    using assms(2) by linarith
  then have "(4 * q + r) * 3 div 4 = q * 3 + r * 3 div 4"
    by auto
  moreover have "(4 * q + r + m) div 4 = q + (r + m) div 4"
    by simp
  moreover have "r * 3 div 4 \<le> (r + m) div 4 * 3 + 1 \<and> ((r + m) div 4 * 3 + 1 < r * 3 div 4 + 1 \<longleftrightarrow> m = 1 \<and> r = 2)"
  proof (cases "r = 3")
    case True
    with assms(3) have "(4 :: nat) \<le> r + m"
      by (cases "m = 0") simp_all
    then have "1 \<le> (r + m) div 4"
      by (simp add: Suc_le_eq div_greater_zero_iff)
    with True show ?thesis
      by simp
  next
    case False
    with \<open>r = 0 \<or> _\<close> assms(3) show ?thesis
      by (cases "m = 0") (auto simp: Suc_le_eq div_eq_0_iff div_greater_zero_iff)
  qed
  ultimately show ?thesis
    by (simp add: decode_alloc_def assms(1) add_mult_distrib)
qed

text \<open>A decoded string fits the buffer of \<^verbatim>\<open>base64_decode\<close> together with its NUL, with one
  exception: when a lone padding character ends the input behind a group of two characters, the
  terminating NUL is written one byte behind the allocated block.\<close>

theorem base64_decode_overflow:
  assumes "base64_decode alloc s = Some out"
  shows "length out \<le> decode_alloc s \<and>
     (decode_alloc s < length out + 1 \<longleftrightarrow> (\<exists>xs. s = xs @ ''='' \<and> CHR ''='' \<notin> set xs \<and> length xs mod 4 = 2))"
proof -
  let ?t = "takeWhile (\<lambda>c. c \<noteq> CHR ''='') s" and ?d = "dropWhile (\<lambda>c. c \<noteq> CHR ''='') s"
  have dec: "decode_loop s 0 0 = Some out"
    using assms by (auto simp: base64_decode_def split: if_splits)
  have len: "length out = length ?t * 3 div 4" "length s = length ?t + length ?d"
    using decode_loop_length [OF dec] by (simp_all flip: length_append)
  have unpadded: "length ?t mod 4 = 0" if "length ?d = 0"
  proof -
    have "CHR ''='' \<notin> set s"
      using that by auto
    from decode_unpadded [OF dec _ this] that len(2) show ?thesis
      by simp
  qed
  define q r where "q = length ?t div 4" and "r = length ?t mod 4"
  then have t: "length ?t = 4 * q + r" "r < 4"
    by simp_all
  have "length s = 4 * q + r + length ?d"
    by (simp only: len(2) t(1))
  from decode_alloc_bound [OF this t(2)] unpadded show ?thesis
    unfolding lone_pad len(1) t(1) using t(2) by simp
qed

theorem base64_decode_overflow_witness:
  "base64_decode (\<lambda>_. True) ''QQ='' = Some ''A'' \<and> decode_alloc ''QQ='' = 1 \<and> \<not> length ''A'' + 1 \<le> decode_alloc ''QQ=''"
proof -
  have d: "base64_decode (\<lambda>_. True) ''QQ='' = Some ''A''"
    by (simp add: base64_decode_def is_base64_char_def decode_char_def base64_chars_def decode_tail_def byte_def Let_def char_of_byte)
  have "\<exists>xs. ''QQ='' = xs @ ''='' \<and> CHR ''='' \<notin> set xs \<and> length xs mod 4 = 2"
    by (rule exI [of _ "''QQ''"]) simp
  then show ?thesis
    using base64_decode_overflow [OF d] d by (simp add: decode_alloc_def)
qed

end
