(* ===== verification/History.thy ===== *)
theory History
  imports Prelude
begin

text \<open>
  \<^verbatim>\<open>elinks/src/session/history.c\<close>, with the part of \<^verbatim>\<open>ses_forward\<close> (\<^verbatim>\<open>session/task.c\<close>) that it calls: the
  visited locations of a session, first visited first, and the pointer to the current one. What
  follows the current location is the unhistory. The promise of the component is a zipper: the
  locations behind, the current one and those ahead. Locations are referred to by address;
  of a location only the URI of its view is kept.

  A call that leaves the history alone but starts or restarts loading (\<^verbatim>\<open>reload\<close>, \<^verbatim>\<open>ses_goto\<close>) is
  the value of the operation.
\<close>

section \<open>Data\<close>

record location =
  loc_addr :: nat
  loc_uri :: nat

record ses_history =
  h_list :: "location list"
  h_current :: "nat option"

datatype task_type = TASK_NONE | TASK_FORWARD | TASK_IMGMAP | TASK_RELOAD | TASK_HISTORY

text \<open>A pointer into the list is an element or the list head.\<close>

datatype loc_ptr = Head | Loc nat

record session =
  s_history :: ses_history
  s_task :: task_type
  s_target :: "loc_ptr option"
  s_loading_uri :: nat

datatype load_action = Ignore | Reload | Goto nat

section \<open>Operations\<close>

definition create_history :: ses_history where
  "create_history = \<lparr>h_list = [], h_current = None\<rparr>"

text \<open>\<^verbatim>\<open>free_history\<close> takes the first location off the list until it is empty.\<close>

fun free_history :: "location list \<Rightarrow> location list" where
  "free_history [] = []"
| "free_history (l # ls) = free_history ls"

definition destroy_history :: "ses_history \<Rightarrow> ses_history" where
  "destroy_history h = h\<lparr>h_list := free_history (h_list h), h_current := None\<rparr>"

text \<open>The successor and the predecessor of a location.\<close>

fun loc_next :: "nat \<Rightarrow> location list \<Rightarrow> loc_ptr" where
  "loc_next a [] = Head"
| "loc_next a (l # ls) =
     (if loc_addr l = a then (case ls of [] \<Rightarrow> Head | m # _ \<Rightarrow> Loc (loc_addr m)) else loc_next a ls)"

definition loc_prev :: "nat \<Rightarrow> location list \<Rightarrow> loc_ptr" where
  "loc_prev a ls = loc_next a (rev ls)"

definition del_loc :: "nat \<Rightarrow> location list \<Rightarrow> location list" where
  "del_loc a ls = filter (\<lambda>l. loc_addr l \<noteq> a) ls"

text \<open>The loop that deletes the successor of the current location while there is one.\<close>

fun clean_loop :: "nat \<Rightarrow> location list \<Rightarrow> location list" where
  "clean_loop a [] = []"
| "clean_loop a (l # ls) = (if loc_addr l = a then [l] else l # clean_loop a ls)"

definition clean_unhistory :: "ses_history \<Rightarrow> ses_history" where
  "clean_unhistory h =
     (case h_current h of None \<Rightarrow> h | Some a \<Rightarrow> h\<lparr>h_list := clean_loop a (h_list h)\<rparr>)"

fun add_at_pos :: "nat \<Rightarrow> location \<Rightarrow> location list \<Rightarrow> location list" where
  "add_at_pos a x [] = []"
| "add_at_pos a x (l # ls) = (if loc_addr l = a then l # x # ls else l # add_at_pos a x ls)"

definition add_to_history :: "ses_history \<Rightarrow> location \<Rightarrow> ses_history" where
  "add_to_history h l =
     (case h_current h of
        None \<Rightarrow> h\<lparr>h_list := l # h_list h, h_current := Some (loc_addr l)\<rparr>
      | Some a \<Rightarrow> h\<lparr>h_list := add_at_pos a l (h_list h), h_current := Some (loc_addr l)\<rparr>)"

definition del_from_history :: "ses_history \<Rightarrow> nat \<Rightarrow> ses_history" where
  "del_from_history h a =
     (let cur = map_option Loc (h_current h);
          cur = (if cur = Some (Loc a) then Some (loc_prev a (h_list h)) else cur);
          cur = (if cur = Some Head then Some (loc_next a (h_list h)) else cur);
          cur = (if cur = Some Head then None else cur)
      in h\<lparr>h_list := del_loc a (h_list h),
           h_current := (case cur of Some (Loc b) \<Rightarrow> Some b | _ \<Rightarrow> None)\<rparr>)"

text \<open>The current location, which a session has when its history is not empty.\<close>

definition have_location :: "session \<Rightarrow> bool" where
  "have_location ses \<longleftrightarrow> h_current (s_history ses) \<noteq> None"

definition find_loc :: "nat \<Rightarrow> location list \<Rightarrow> location option" where
  "find_loc a ls = List.find (\<lambda>l. loc_addr l = a) ls"

text \<open>\<^verbatim>\<open>ses_forward\<close> for a whole document: a new location at \<open>alloc\<close>; a forward task starts a new branch.\<close>

definition ses_forward :: "nat option \<Rightarrow> session \<Rightarrow> session" where
  "ses_forward alloc ses =
     (case alloc of
        None \<Rightarrow> ses
      | Some a \<Rightarrow>
          let h = add_to_history (s_history ses) \<lparr>loc_addr = a, loc_uri = s_loading_uri ses\<rparr>
          in ses\<lparr>s_history := (if s_task ses = TASK_FORWARD then clean_unhistory h else h)\<rparr>)"

definition ses_history_move :: "nat option \<Rightarrow> bool \<Rightarrow> session \<Rightarrow> session" where
  "ses_history_move alloc keep_unhistory ses =
     (if \<not> have_location ses then ses
      else case s_target ses of
          None \<Rightarrow> ses
        | Some Head \<Rightarrow> ses
        | Some (Loc a) \<Rightarrow>
            let ses = ses\<lparr>s_history := (s_history ses)\<lparr>h_current := Some a\<rparr>\<rparr> in
            case find_loc a (h_list (s_history ses)) of
              None \<Rightarrow> ses
            | Some l \<Rightarrow>
                if loc_uri l = s_loading_uri ses then ses
                else
                  let ses = ses_forward alloc (ses\<lparr>s_history := del_from_history (s_history ses) a\<rparr>)
                  in if keep_unhistory then ses\<lparr>s_history := clean_unhistory (s_history ses)\<rparr> else ses)"

definition go_history :: "session \<Rightarrow> loc_ptr \<Rightarrow> load_action" where
  "go_history ses p =
     (if s_task ses \<noteq> TASK_NONE then Reload
      else if \<not> have_location ses \<or> p = Head then Ignore
      else case p of Head \<Rightarrow> Ignore | Loc a \<Rightarrow> Goto a)"

text \<open>The two loops of \<^verbatim>\<open>go_history_by_n\<close>: at most \<open>n\<close> steps, stopping at the end of the list.\<close>

fun walk :: "(nat \<Rightarrow> loc_ptr) \<Rightarrow> nat \<Rightarrow> nat \<Rightarrow> nat" where
  "walk step 0 a = a"
| "walk step (Suc n) a = (case step a of Head \<Rightarrow> a | Loc b \<Rightarrow> walk step n b)"

definition go_history_by_n :: "session \<Rightarrow> int \<Rightarrow> load_action" where
  "go_history_by_n ses n =
     (case h_current (s_history ses) of
        None \<Rightarrow> Ignore
      | Some a \<Rightarrow>
          let ls = h_list (s_history ses) in
          go_history ses
            (Loc (if n > 0 then walk (\<lambda>a. loc_next a ls) (nat n) a else walk (\<lambda>a. loc_prev a ls) (nat (- n)) a)))"

definition go_back :: "session \<Rightarrow> load_action" where
  "go_back ses = go_history_by_n ses (- 1)"

definition go_unback :: "session \<Rightarrow> load_action" where
  "go_unback ses = go_history_by_n ses 1"

section \<open>The zipper\<close>

type_synonym zipper = "(location list \<times> location \<times> location list) option"

fun unzip :: "zipper \<Rightarrow> ses_history" where
  "unzip None = create_history"
| "unzip (Some (bk, c, ahead)) = \<lparr>h_list = rev bk @ c # ahead, h_current = Some (loc_addr c)\<rparr>"

fun zlocs :: "zipper \<Rightarrow> location list" where
  "zlocs None = []"
| "zlocs (Some (bk, c, ahead)) = rev bk @ c # ahead"

fun zvisit :: "location \<Rightarrow> zipper \<Rightarrow> zipper" where
  "zvisit l None = Some ([], l, [])"
| "zvisit l (Some (bk, c, ahead)) = Some (c # bk, l, ahead)"

fun zclean :: "zipper \<Rightarrow> zipper" where
  "zclean None = None"
| "zclean (Some (bk, c, ahead)) = Some (bk, c, [])"

text \<open>Deleting the current location goes back, or ahead when there is nothing behind.\<close>

fun zdel :: "nat \<Rightarrow> zipper \<Rightarrow> zipper" where
  "zdel a None = None"
| "zdel a (Some (bk, c, ahead)) =
     (if loc_addr c \<noteq> a then Some (del_loc a bk, c, del_loc a ahead)
      else case (bk, ahead) of
          (b # bs, _) \<Rightarrow> Some (bs, b, ahead)
        | ([], x # xs) \<Rightarrow> Some ([], x, xs)
        | ([], []) \<Rightarrow> None)"

definition zmove :: "nat \<Rightarrow> zipper \<Rightarrow> zipper" where
  "zmove a z =
     (case find_index (\<lambda>l. loc_addr l = a) (zlocs z) of
        None \<Rightarrow> z
      | Some i \<Rightarrow> Some (rev (take i (zlocs z)), zlocs z ! i, drop (Suc i) (zlocs z)))"

section \<open>The operations implement the zipper\<close>

abbreviation addrs :: "location list \<Rightarrow> nat set" where
  "addrs ls \<equiv> loc_addr ` set ls"

lemma skip_front:
  "a \<notin> addrs xs \<Longrightarrow> clean_loop a (xs @ ys) = xs @ clean_loop a ys"
  "a \<notin> addrs xs \<Longrightarrow> add_at_pos a l (xs @ ys) = xs @ add_at_pos a l ys"
  "a \<notin> addrs xs \<Longrightarrow> loc_next a (xs @ ys) = loc_next a ys"
  "a \<notin> addrs xs \<Longrightarrow> del_loc a (xs @ ys) = xs @ del_loc a ys"
  by (induction xs) (auto simp: del_loc_def)

lemma del_loc_id: "a \<notin> addrs ls \<Longrightarrow> del_loc a ls = ls"
  by (auto simp: del_loc_def filter_id_conv)

lemma del_loc_rev: "del_loc a (rev ls) = rev (del_loc a ls)"
  by (simp add: del_loc_def rev_filter)

lemma loc_prev_at: "a \<notin> addrs ys \<Longrightarrow> loc_prev a (rev xs @ c # ys) = loc_next a (c # xs)" if "loc_addr c = a"
  using skip_front(3) [of a "rev ys" "c # xs"] that by (simp add: loc_prev_def)

definition zdistinct :: "zipper \<Rightarrow> bool" where
  "zdistinct z \<longleftrightarrow> distinct (map loc_addr (zlocs z))"

lemma add_zvisit: "zdistinct z \<Longrightarrow> add_to_history (unzip z) l = unzip (zvisit l z)"
proof (cases z rule: zlocs.cases)
  case (2 bk c ahead)
  assume "zdistinct z"
  then have "loc_addr c \<notin> addrs (rev bk)"
    by (auto simp: 2 zdistinct_def)
  with skip_front(2) [of "loc_addr c" "rev bk" l "c # ahead"] 2 show ?thesis
    by (simp add: add_to_history_def)
qed (simp add: add_to_history_def create_history_def)

lemma clean_zclean: "zdistinct z \<Longrightarrow> clean_unhistory (unzip z) = unzip (zclean z)"
proof (cases z rule: zlocs.cases)
  case (2 bk c ahead)
  assume "zdistinct z"
  then have "loc_addr c \<notin> addrs (rev bk)"
    by (auto simp: 2 zdistinct_def)
  with skip_front(1) [of "loc_addr c" "rev bk" "c # ahead"] 2 show ?thesis
    by (simp add: clean_unhistory_def)
qed (simp add: clean_unhistory_def create_history_def)

lemma del_zdel:
  assumes "zdistinct z" "a \<in> addrs (zlocs z)"
  shows "del_from_history (unzip z) a = unzip (zdel a z)"
proof (cases z rule: zlocs.cases)
  case (2 bk c ahead)
  have d: "distinct (map loc_addr (rev bk @ c # ahead))"
    using assms(1) by (simp add: 2 zdistinct_def)
  show ?thesis
  proof (cases "loc_addr c = a")
    case True
    then have a: "a \<notin> addrs bk" "a \<notin> addrs ahead"
      using d by auto
    have next_prev: "loc_next a (rev bk @ c # ahead) = (case ahead of [] \<Rightarrow> Head | m # _ \<Rightarrow> Loc (loc_addr m))"
      "loc_prev a (rev bk @ c # ahead) = (case bk of [] \<Rightarrow> Head | m # _ \<Rightarrow> Loc (loc_addr m))"
      using skip_front(3) [of a "rev bk" "c # ahead"] loc_prev_at [OF True a(2), of bk] a True by simp_all
    have "del_loc a (rev bk @ c # ahead) = rev bk @ ahead"
      using skip_front(4) [of a "rev bk" "c # ahead"] a True del_loc_id [OF a(2)] by (simp add: del_loc_def)
    with next_prev True 2 show ?thesis
      by (cases bk; cases ahead) (simp_all add: del_from_history_def Let_def create_history_def)
  next
    case False
    have "del_loc a (rev bk @ c # ahead) = rev (del_loc a bk) @ c # del_loc a ahead"
      using False by (simp add: del_loc_def rev_filter)
    with False 2 show ?thesis
      by (simp add: del_from_history_def Let_def)
  qed
qed (use assms(2) in simp)

lemma move_zmove:
  assumes "a \<in> addrs (zlocs z)"
  shows "(unzip z)\<lparr>h_current := Some a\<rparr> = unzip (zmove a z)" "zlocs (zmove a z) = zlocs z"
proof -
  obtain i where i: "find_index (\<lambda>l. loc_addr l = a) (zlocs z) = Some i"
    using assms find_index_None [of "\<lambda>l. loc_addr l = a" "zlocs z"] by (cases "find_index (\<lambda>l. loc_addr l = a) (zlocs z)") auto
  from find_index_Some [OF i] have at: "i < length (zlocs z)" "loc_addr (zlocs z ! i) = a"
    by simp_all
  have ls: "h_list (unzip z) = zlocs z"
    by (cases z rule: zlocs.cases) (simp_all add: create_history_def)
  show "zlocs (zmove a z) = zlocs z"
    using i at by (simp add: zmove_def id_take_nth_drop [symmetric])
  show "(unzip z)\<lparr>h_current := Some a\<rparr> = unzip (zmove a z)"
    using i at ls by (cases "unzip z") (simp add: zmove_def id_take_nth_drop [symmetric])
qed

section \<open>Sequences of operations\<close>

datatype hist_op = Visit location | Clean | Delete nat | Move nat | Destroy

fun run_hist :: "ses_history \<Rightarrow> hist_op \<Rightarrow> ses_history" where
  "run_hist h (Visit l) = add_to_history h l"
| "run_hist h Clean = clean_unhistory h"
| "run_hist h (Delete a) = del_from_history h a"
| "run_hist h (Move a) = h\<lparr>h_current := Some a\<rparr>"
| "run_hist h Destroy = destroy_history h"

fun zrun :: "zipper \<Rightarrow> hist_op \<Rightarrow> zipper" where
  "zrun z (Visit l) = zvisit l z"
| "zrun z Clean = zclean z"
| "zrun z (Delete a) = zdel a z"
| "zrun z (Move a) = zmove a z"
| "zrun z Destroy = None"

text \<open>New locations have addresses of their own; only locations of the list are deleted or moved to.\<close>

fun hist_op_ok :: "zipper \<Rightarrow> hist_op \<Rightarrow> bool" where
  "hist_op_ok z (Visit l) = (loc_addr l \<notin> addrs (zlocs z))"
| "hist_op_ok z (Delete a) = (a \<in> addrs (zlocs z))"
| "hist_op_ok z (Move a) = (a \<in> addrs (zlocs z))"
| "hist_op_ok z _ = True"

fun hist_ops_ok :: "zipper \<Rightarrow> hist_op list \<Rightarrow> bool" where
  "hist_ops_ok z [] = True"
| "hist_ops_ok z (x # xs) = (hist_op_ok z x \<and> hist_ops_ok (zrun z x) xs)"

lemma free_history_Nil [simp]: "free_history ls = []"
  by (induction ls) simp_all

lemma run_hist_zrun: "zdistinct z \<Longrightarrow> hist_op_ok z x \<Longrightarrow> run_hist (unzip z) x = unzip (zrun z x)"
  by (cases x) (simp_all add: add_zvisit clean_zclean del_zdel move_zmove destroy_history_def create_history_def)

lemma zlocs_ops:
  "set (zlocs (zvisit l z)) = insert l (set (zlocs z))" "set (zlocs (zclean z)) \<subseteq> set (zlocs z)"
  by (cases z rule: zlocs.cases; auto)+

lemma zdel_locs: "zdistinct z \<Longrightarrow> zlocs (zdel a z) = del_loc a (zlocs z)"
proof (cases z rule: zlocs.cases)
  case (2 bk c ahead)
  assume "zdistinct z"
  then have "loc_addr c = a \<Longrightarrow> del_loc a (rev bk) = rev bk \<and> del_loc a ahead = ahead"
    by (auto simp: 2 zdistinct_def intro!: del_loc_id)
  with 2 show ?thesis
    by (cases bk; cases ahead) (auto simp: del_loc_def rev_filter)
qed (simp add: del_loc_def)

lemma zrun_distinct: "zdistinct z \<Longrightarrow> hist_op_ok z x \<Longrightarrow> zdistinct (zrun z x)"
proof (cases x)
  case (Visit l)
  assume "zdistinct z" "hist_op_ok z x"
  with Visit show ?thesis
    by (cases z rule: zlocs.cases) (auto simp: zdistinct_def)
next
  case Clean
  assume "zdistinct z"
  with Clean show ?thesis
    by (cases z rule: zlocs.cases) (auto simp: zdistinct_def)
next
  case (Delete a)
  assume z: "zdistinct z"
  then have "distinct (map loc_addr (del_loc a (zlocs z)))"
    unfolding del_loc_def zdistinct_def by (rule distinct_map_filter)
  with z Delete show ?thesis
    by (simp add: zdistinct_def zdel_locs)
next
  case (Move a)
  assume "zdistinct z" "hist_op_ok z x"
  with Move show ?thesis
    by (simp add: zdistinct_def move_zmove(2))
qed (simp add: zdistinct_def)

lemma run_hists_zrun:
  "zdistinct z \<Longrightarrow> hist_ops_ok z ops \<Longrightarrow> foldl run_hist (unzip z) ops = unzip (foldl zrun z ops) \<and> zdistinct (foldl zrun z ops)"
  by (induction ops arbitrary: z) (simp_all add: run_hist_zrun zrun_distinct)

lemma h_list_unzip [simp]: "h_list (unzip z) = zlocs z"
  by (cases z rule: zlocs.cases) (simp_all add: create_history_def)

lemma walk_next:
  "distinct (map loc_addr (xs @ c # ys)) \<Longrightarrow>
     walk (\<lambda>a. loc_next a (xs @ c # ys)) n (loc_addr c) = loc_addr ((c # ys) ! min n (length ys))"
proof (induction ys arbitrary: xs c n)
  case Nil
  have "loc_next (loc_addr c) (xs @ [c]) = Head"
    using Nil skip_front(3) [of "loc_addr c" xs "[c]"] by simp
  then show ?case
    by (cases n) simp_all
next
  case (Cons y ys)
  have "loc_next (loc_addr c) (xs @ c # y # ys) = Loc (loc_addr y)"
    using Cons.prems skip_front(3) [of "loc_addr c" xs "c # y # ys"] by auto
  with Cons.IH [of "xs @ [c]" y] Cons.prems show ?case
    by (cases n) simp_all
qed

text \<open>C25: Any sequence of visits, moves, deletions and cleanings of a session's history, starting
  from the empty history, keeps it a zipper: the list and the pointer to the current location are
  those of the abstract zipper on which the same operations are performed, and no location occurs twice.\<close>

theorem history_refines:
  assumes "hist_ops_ok None ops"
  shows "foldl run_hist create_history ops = unzip (foldl zrun None ops) \<and>
     distinct (map loc_addr (h_list (foldl run_hist create_history ops)))"
proof -
  have run: "foldl run_hist (unzip None) ops = unzip (foldl zrun None ops)" "zdistinct (foldl zrun None ops)"
    using run_hists_zrun [of None ops] assms by (simp_all add: zdistinct_def)
  then show ?thesis
    by (simp add: zdistinct_def)
qed

definition sample_ops :: "hist_op list" where
  "sample_ops = [Visit \<lparr>loc_addr = 1, loc_uri = 7\<rparr>, Visit \<lparr>loc_addr = 2, loc_uri = 8\<rparr>,
     Visit \<lparr>loc_addr = 3, loc_uri = 9\<rparr>, Move 2, Delete 2, Clean]"

theorem history_refines_witness:
  "foldl run_hist create_history sample_ops = unzip (Some ([], \<lparr>loc_addr = 1, loc_uri = 7\<rparr>, []))"
proof -
  have "hist_ops_ok None sample_ops" "foldl zrun None sample_ops = Some ([], \<lparr>loc_addr = 1, loc_uri = 7\<rparr>, [])"
    by code_simp+
  with history_refines [of sample_ops] show ?thesis
    by simp
qed

text \<open>Going \<open>n\<close> steps through the history of an idle session asks for the location \<open>n\<close> places ahead
  of the current one, or behind it when \<open>n\<close> is negative, and for the last or first
  location when there are not that many.\<close>

theorem go_history_by_n_target:
  assumes "s_history ses = unzip (Some (bk, c, ahead))" "zdistinct (Some (bk, c, ahead))" "s_task ses = TASK_NONE"
  shows "go_history_by_n ses n = Goto (loc_addr (if n > 0 then (c # ahead) ! min (nat n) (length ahead)
     else (c # bk) ! min (nat (- n)) (length bk)))"
proof -
  let ?ls = "rev bk @ c # ahead"
  have "walk (\<lambda>a. loc_next a ?ls) (nat n) (loc_addr c) = loc_addr ((c # ahead) ! min (nat n) (length ahead))"
    using assms(2) by (intro walk_next) (simp add: zdistinct_def)
  moreover have "walk (\<lambda>a. loc_next a (rev ahead @ c # bk)) (nat (- n)) (loc_addr c) = loc_addr ((c # bk) ! min (nat (- n)) (length bk))"
    using assms(2) by (intro walk_next) (auto simp: zdistinct_def rev_map [symmetric])
  ultimately show ?thesis
    using assms(1,3) by (simp add: go_history_by_n_def go_history_def have_location_def loc_prev_def)
qed

definition sample_session :: session where
  "sample_session = \<lparr>s_history = unzip (Some ([\<lparr>loc_addr = 2, loc_uri = 8\<rparr>, \<lparr>loc_addr = 1, loc_uri = 7\<rparr>], \<lparr>loc_addr = 3, loc_uri = 9\<rparr>, [])),
     s_task = TASK_NONE, s_target = None, s_loading_uri = 9\<rparr>"

theorem go_history_by_n_target_witness:
  "go_back sample_session = Goto 2 \<and> go_history_by_n sample_session (- 5) = Goto 1 \<and> go_unback sample_session = Goto 3"
  using go_history_by_n_target [of sample_session "[\<lparr>loc_addr = 2, loc_uri = 8\<rparr>, \<lparr>loc_addr = 1, loc_uri = 7\<rparr>]" "\<lparr>loc_addr = 3, loc_uri = 9\<rparr>" "[]" "- 1"]
    go_history_by_n_target [of sample_session "[\<lparr>loc_addr = 2, loc_uri = 8\<rparr>, \<lparr>loc_addr = 1, loc_uri = 7\<rparr>]" "\<lparr>loc_addr = 3, loc_uri = 9\<rparr>" "[]" "- 5"]
    go_history_by_n_target [of sample_session "[\<lparr>loc_addr = 2, loc_uri = 8\<rparr>, \<lparr>loc_addr = 1, loc_uri = 7\<rparr>]" "\<lparr>loc_addr = 3, loc_uri = 9\<rparr>" "[]" 1]
  by (simp add: sample_session_def zdistinct_def go_back_def go_unback_def)

section \<open>Moving in the history\<close>

text \<open>When the location a session moves to turns out to have another URI, it is replaced, and the
  unhistory is thrown away exactly if the option asks to keep it.\<close>

lemma find_loc_at: "a \<in> addrs ls \<Longrightarrow> \<exists>l. find_loc a ls = Some l \<and> l \<in> set ls \<and> loc_addr l = a"
  by (induction ls) (auto simp: find_loc_def)

lemma history_move_replaces:
  assumes "s_history ses = unzip z" "zdistinct z" "z \<noteq> None" "s_target ses = Some (Loc a)" "a \<in> addrs (zlocs z)"
    and "\<forall>l\<in>set (zlocs z). loc_addr l = a \<longrightarrow> loc_uri l \<noteq> s_loading_uri ses"
    and "s_task ses = TASK_HISTORY" "b \<notin> addrs (zlocs z)"
  shows "s_history (ses_history_move (Some b) keep ses) =
     unzip ((if keep then zclean else id) (zvisit \<lparr>loc_addr = b, loc_uri = s_loading_uri ses\<rparr> (zdel a (zmove a z))))"
proof -
  let ?l = "\<lparr>loc_addr = b, loc_uri = s_loading_uri ses\<rparr>"
  note mv = move_zmove [OF assms(5)]
  have z1: "zdistinct (zmove a z)" "a \<in> addrs (zlocs (zmove a z))"
    using assms(2,5) mv(2) by (simp_all add: zdistinct_def)
  have z2: "zdistinct (zdel a (zmove a z))" "b \<notin> addrs (zlocs (zdel a (zmove a z)))"
    using z1 zrun_distinct [of "zmove a z" "Delete a"] assms(8) mv(2) by (auto simp: zdel_locs del_loc_def)
  have z3: "zdistinct (zvisit ?l (zdel a (zmove a z)))"
    using zrun_distinct [of "zdel a (zmove a z)" "Visit ?l"] z2 by simp
  have cur: "h_current (unzip z) \<noteq> None"
    using assms(3) by (cases z rule: zlocs.cases) simp_all
  obtain l where l: "find_loc a (zlocs z) = Some l" "loc_uri l \<noteq> s_loading_uri ses"
    using find_loc_at [OF assms(5)] assms(6) by blast
  show ?thesis
    using assms(1,4,7) cur l
    by (simp add: ses_history_move_def have_location_def ses_forward_def Let_def mv del_zdel [OF z1] add_zvisit [OF z2(1)] clean_zclean [OF z3])
qed

end
