(* ===== verification/Progress.thy ===== *)
theory Progress
  imports Timers
begin

text \<open>
  \<^verbatim>\<open>elinks/src/network/progress.c\<close>: the statistics of a running transfer. The speed of the last
  seconds is computed from a window of \<^verbatim>\<open>CURRENT_SPD_SEC\<close> cells, each the bytes of one tenth of a
  second; \<open>cur_loaded\<close> is the running sum of the window. The cells and the speeds are \<^verbatim>\<open>int\<close>s and
  wrap, the positions are \<^verbatim>\<open>off_t\<close>. The timer the progress installs lives in the queue of
  \<^verbatim>\<open>main/timer.c\<close>, which the operations take and return; the function 0 is the null pointer.
\<close>

section \<open>Data\<close>

record progress =
  pg_elapsed :: timeval_T
  pg_last_time :: timeval_T
  pg_dis_b :: timeval_T
  pg_estimated_time :: timeval_T
  pg_average_speed :: int
  pg_current_speed :: int
  pg_valid :: bool
  pg_size :: int
  pg_loaded :: int
  pg_last_loaded :: int
  pg_cur_loaded :: int
  pg_start :: int
  pg_pos :: int
  pg_seek :: int
  pg_timer :: "nat option"
  pg_timer_func :: nat
  pg_timer_func_data :: nat
  pg_data_in_secs :: "int list"

definition CURRENT_SPD_SEC :: nat where
  "CURRENT_SPD_SEC = 50"

definition SPD_DISP_TIME :: int where
  "SPD_DISP_TIME = 100"

definition CURRENT_SPD_AFTER :: int where
  "CURRENT_SPD_AFTER = 100"

definition progress_zero :: progress where
  "progress_zero =
     \<lparr>pg_elapsed = \<lparr>sec = 0, usec = 0\<rparr>, pg_last_time = \<lparr>sec = 0, usec = 0\<rparr>, pg_dis_b = \<lparr>sec = 0, usec = 0\<rparr>,
      pg_estimated_time = \<lparr>sec = 0, usec = 0\<rparr>, pg_average_speed = 0, pg_current_speed = 0, pg_valid = False,
      pg_size = 0, pg_loaded = 0, pg_last_loaded = 0, pg_cur_loaded = 0, pg_start = 0, pg_pos = 0, pg_seek = 0,
      pg_timer = None, pg_timer_func = 0, pg_timer_func_data = 0, pg_data_in_secs = replicate CURRENT_SPD_SEC 0\<rparr>"

section \<open>Operations\<close>

definition has_progress :: "progress \<Rightarrow> bool" where
  "has_progress p \<longleftrightarrow> timeval_cmp (pg_elapsed p) (timeval_from_milliseconds CURRENT_SPD_AFTER) \<ge> 0"

definition init_progress :: "bool \<Rightarrow> int \<Rightarrow> progress option" where
  "init_progress alloc start = (if alloc then Some (progress_zero\<lparr>pg_start := start, pg_timer := None\<rparr>) else None)"

definition dis_b_max :: timeval_T where
  "dis_b_max = timeval_from_milliseconds (the (mult_ms SPD_DISP_TIME (int CURRENT_SPD_SEC)))"

definition dis_b_interval :: timeval_T where
  "dis_b_interval = timeval_from_milliseconds SPD_DISP_TIME"

lemma dis_b_values: "dis_b_max = \<lparr>sec = 5, usec = 0\<rparr>" "dis_b_interval = \<lparr>sec = 0, usec = 100000\<rparr>"
  by (simp_all add: dis_b_max_def dis_b_interval_def SPD_DISP_TIME_def CURRENT_SPD_SEC_def mult_ms_def LONG_MAX_def
      timeval_from_milliseconds_def signed_divide_int_def signed_modulo_int_def sgn_if)

text \<open>The loop that moves the window: the oldest cell leaves it and an empty one enters.\<close>

function shift_window :: "timeval_T \<Rightarrow> int \<Rightarrow> int list \<Rightarrow> timeval_T \<times> int \<times> int list" where
  "shift_window dis_b cur_loaded cells =
     (if timeval_cmp dis_b dis_b_max \<ge> 0
      then shift_window (timeval_sub_interval dis_b dis_b_interval) (cur_loaded - hd cells) (tl cells @ [0])
      else (dis_b, cur_loaded, cells))"
  by pat_completeness auto
termination
proof (relation "measure (\<lambda>(dis_b, _, _). if timeval_cmp dis_b dis_b_max \<ge> 0 then nat (tv_us dis_b) + 1 else 0)", simp, goal_cases)
  case (1 t cur_loaded cells)
  let ?t = "timeval_sub_interval t dis_b_interval" and ?b = "borrow_usec \<lparr>sec = sec t, usec = usec t - 100000\<rparr>"
  have "5 \<le> sec t"
    using 1 by (auto simp: timeval_cmp_def dis_b_values split: if_splits)
  then have t: "?t = (if sec ?b < 0 then \<lparr>sec = 0, usec = 0\<rparr> else ?b)"
    by (simp add: timeval_sub_interval_def dis_b_values Let_def)
  show ?case
  proof (cases "sec ?b < 0")
    case True
    with 1 t show ?thesis
      by (simp add: timeval_cmp_def dis_b_values)
  next
    case False
    then have "0 \<le> tv_us ?b" "tv_us ?b = tv_us t - 100000"
      using borrow_usec_nonneg [of "\<lparr>sec = sec t, usec = usec t - 100000\<rparr>"]
      by (simp add: tv_us_def, simp add: borrow_usec_us) (simp add: tv_us_def)
    with 1 t False show ?thesis
      by simp
  qed
qed

declare shift_window.simps [simp del]

definition set_estimate :: "progress \<Rightarrow> progress" where
  "set_estimate p =
     (if pg_average_speed p \<noteq> 0
      then p\<lparr>pg_estimated_time := timeval_from_seconds ((pg_size p - pg_pos p) sdiv pg_average_speed p)\<rparr> else p)"

definition install_progress_timer :: "nat option \<Rightarrow> progress \<Rightarrow> timer list \<Rightarrow> progress \<times> timer list" where
  "install_progress_timer alloc p ts =
     (case install_timer alloc SPD_DISP_TIME (pg_timer_func p) (pg_timer_func_data p) ts of (i, ts) \<Rightarrow> (p\<lparr>pg_timer := i\<rparr>, ts))"

text \<open>\<open>now\<close> is the clock, \<open>alloc\<close> the address of the new timer.\<close>

definition update_progress :: "timeval_T \<Rightarrow> nat option \<Rightarrow> progress \<Rightarrow> int \<Rightarrow> int \<Rightarrow> int \<Rightarrow> timer list \<Rightarrow> progress \<times> timer list" where
  "update_progress now alloc p loaded sz pos ts =
     (let elapsed = timeval_sub (pg_last_time p) now;
          bytes_delta = loaded - pg_last_loaded p;
          p = p\<lparr>pg_last_time := now, pg_loaded := loaded, pg_last_loaded := loaded,
                pg_elapsed := timeval_add_interval (pg_elapsed p) elapsed\<rparr>;
          (dis_b, cur_loaded, cells) =
            shift_window (timeval_add_interval (pg_dis_b p) elapsed) (pg_cur_loaded p) (pg_data_in_secs p);
          cells = cells[CURRENT_SPD_SEC - 1 := int32 (cells ! (CURRENT_SPD_SEC - 1) + bytes_delta)];
          cur_loaded = cur_loaded + bytes_delta;
          p = p\<lparr>pg_dis_b := dis_b, pg_cur_loaded := cur_loaded, pg_data_in_secs := cells,
                pg_current_speed := int32 (cur_loaded sdiv (int CURRENT_SPD_SEC * SPD_DISP_TIME sdiv 1000)),
                pg_pos := pos, pg_size := (if sz \<noteq> - 1 \<and> sz < pos then pos else sz)\<rparr>;
          p = p\<lparr>pg_average_speed := int32 (timeval_div_off_t (pg_loaded p) (pg_elapsed p))\<rparr>
      in install_progress_timer alloc (set_estimate p) ts)"

definition start_update_progress :: "timeval_T \<Rightarrow> progress \<Rightarrow> nat \<Rightarrow> nat \<Rightarrow> progress" where
  "start_update_progress now p timer_func timer_func_data =
     (let p = (if \<not> pg_valid p
               then progress_zero\<lparr>pg_start := pg_start p, pg_seek := pg_seek p, pg_valid := True\<rparr> else p)
      in p\<lparr>pg_last_time := now, pg_last_loaded := pg_loaded p, pg_timer_func := timer_func,
            pg_timer_func_data := timer_func_data\<rparr>)"

section \<open>The window of the current speed\<close>

text \<open>The window keeps its size, and the running sum is the sum of its cells: exactly, as long as what one
  update adds does not overflow the newest cell.\<close>

definition window_ok :: "progress \<Rightarrow> bool" where
  "window_ok p \<longleftrightarrow> length (pg_data_in_secs p) = CURRENT_SPD_SEC \<and> pg_cur_loaded p = sum_list (pg_data_in_secs p)"

lemma shift_window_sum:
  "shift_window t n cells = (t', n', cells') \<Longrightarrow> cells \<noteq> [] \<Longrightarrow> n = sum_list cells \<Longrightarrow>
     length cells' = length cells \<and> n' = sum_list cells' \<and> timeval_cmp t' dis_b_max < 0 \<and> (\<forall>x\<in>set cells'. x = 0 \<or> x \<in> set cells)"
proof (induction t n cells arbitrary: t' n' cells' rule: shift_window.induct)
  case (1 t n cells)
  show ?case
  proof (cases "timeval_cmp t dis_b_max \<ge> 0")
    case True
    have "shift_window (timeval_sub_interval t dis_b_interval) (n - hd cells) (tl cells @ [0]) = (t', n', cells')"
      using "1.prems"(1) True by (simp add: shift_window.simps [of t])
    moreover have "n - hd cells = sum_list (tl cells @ [0])" "length (tl cells @ [0]) = length cells"
      using "1.prems"(2,3) by (cases cells; simp)+
    ultimately show ?thesis
      using "1.IH" [OF True, of t' n' cells'] "1.prems"(2) by (fastforce dest: list.set_sel(2))
  next
    case False
    with "1.prems" show ?thesis
      by (auto simp: shift_window.simps [of t])
  qed
qed

lemma sum_list_add_nth: "i < length xs \<Longrightarrow> sum_list (xs[i := xs ! i + d]) = sum_list xs + (d :: int)"
  by (induction xs arbitrary: i) (auto split: nat.split)

lemma init_progress_window: "init_progress True start = Some p \<Longrightarrow> window_ok p"
  by (auto simp: init_progress_def window_ok_def progress_zero_def sum_list_replicate)

lemma start_update_progress_window: "window_ok p \<Longrightarrow> window_ok (start_update_progress now p f d)"
  by (simp add: start_update_progress_def window_ok_def progress_zero_def sum_list_replicate)

lemma install_progress_timer_sel [simp]:
  "pg_data_in_secs (fst (install_progress_timer alloc p ts)) = pg_data_in_secs p"
  "pg_cur_loaded (fst (install_progress_timer alloc p ts)) = pg_cur_loaded p"
  "pg_current_speed (fst (install_progress_timer alloc p ts)) = pg_current_speed p"
  by (simp_all add: install_progress_timer_def split: option.split prod.split)

lemma set_estimate_sel [simp]:
  "pg_data_in_secs (set_estimate p) = pg_data_in_secs p" "pg_cur_loaded (set_estimate p) = pg_cur_loaded p"
  "pg_current_speed (set_estimate p) = pg_current_speed p"
  by (simp_all add: set_estimate_def)

lemma update_progress_window:
  assumes "window_ok p" "\<forall>x\<in>set (pg_data_in_secs p). 0 \<le> x \<and> x < 2 ^ 30"
    and "0 \<le> loaded - pg_last_loaded p" "loaded - pg_last_loaded p < 2 ^ 30"
  shows "window_ok (fst (update_progress now alloc p loaded sz pos ts))"
    "pg_current_speed (fst (update_progress now alloc p loaded sz pos ts)) =
       int32 (sum_list (pg_data_in_secs (fst (update_progress now alloc p loaded sz pos ts))) sdiv 5)"
proof -
  obtain t n cells where sh: "shift_window (timeval_add_interval (pg_dis_b p) (timeval_sub (pg_last_time p) now))
      (pg_cur_loaded p) (pg_data_in_secs p) = (t, n, cells)"
    using prod_cases3 by blast
  have len: "length (pg_data_in_secs p) = CURRENT_SPD_SEC" "pg_data_in_secs p \<noteq> []"
    using assms(1) by (auto simp: window_ok_def CURRENT_SPD_SEC_def)
  have w: "length cells = CURRENT_SPD_SEC" "n = sum_list cells" "\<forall>x\<in>set cells. x = 0 \<or> x \<in> set (pg_data_in_secs p)"
    using shift_window_sum [OF sh len(2)] assms(1) len(1) by (simp_all add: window_ok_def)
  have "cells ! (CURRENT_SPD_SEC - 1) \<in> set cells"
    using w(1) by (intro nth_mem) (simp add: CURRENT_SPD_SEC_def)
  then have "int32 (cells ! (CURRENT_SPD_SEC - 1) + (loaded - pg_last_loaded p)) = cells ! (CURRENT_SPD_SEC - 1) + (loaded - pg_last_loaded p)"
    using w(3) assms(2-4) by (intro int32_id) force+
  moreover have "sum_list (cells[CURRENT_SPD_SEC - 1 := cells ! (CURRENT_SPD_SEC - 1) + d]) = sum_list cells + d" for d
    using w(1) by (intro sum_list_add_nth) (simp add: CURRENT_SPD_SEC_def)
  moreover have "int CURRENT_SPD_SEC * SPD_DISP_TIME sdiv 1000 = 5"
    by (simp add: CURRENT_SPD_SEC_def SPD_DISP_TIME_def signed_divide_int_def)
  ultimately show "window_ok (fst (update_progress now alloc p loaded sz pos ts))"
    "pg_current_speed (fst (update_progress now alloc p loaded sz pos ts)) =
       int32 (sum_list (pg_data_in_secs (fst (update_progress now alloc p loaded sz pos ts))) sdiv 5)"
    using w(1,2) sh by (simp_all add: update_progress_def window_ok_def Let_def)
qed

end
