(* ===== verification/Connection.thy ===== *)
theory Connection
  imports Cache Progress
begin

text \<open>
  \<^verbatim>\<open>elinks/src/network/connection.c\<close>: the queue of connections. A connection is on the queue from
  \<^verbatim>\<open>load_uri\<close> to \<^verbatim>\<open>done_connection\<close>; it waits (\<open>S_WAIT\<close>) or runs. The module keeps the queue ordered by
  priority, counts the running connections in total and per host, suspends running
  connections in favour of more important ones, and keeps idle server connections alive.

  Objects that the code compares by pointer carry their address. What other parts of the program do
  when they are called is a parameter, collected in \<open>net_env\<close>: the protocol handlers, the
  callbacks of downloads and the \<^verbatim>\<open>done\<close> functions of protocols are functions from the state of the
  module to its state, because they may call back into it; options, clock, sockets and the outcome of
  allocations are values. A call for a connection that is not on the queue is a use of freed memory in
  C; it has no effect here.
\<close>

section \<open>Data\<close>

text \<open>Connection states are integers: progress states are not negative, results are, and the negated
  values of \<^verbatim>\<open>errno\<close> lie between \<open>S_OK\<close> and \<open>S_WAIT\<close>.\<close>

definition S_WAIT :: int where "S_WAIT = 0"
definition S_TRANS :: int where "S_TRANS = 8"
definition S_OK :: int where "S_OK = - 100000"
definition S_INTERRUPTED :: int where "S_INTERRUPTED = - 100001"
definition S_INTERNAL :: int where "S_INTERNAL = - 100003"
definition S_BAD_URL :: int where "S_BAD_URL = - 100009"

fun proxy_state_code :: "proxy_state \<Rightarrow> int" where
  "proxy_state_code S_OUT_OF_MEM = - 100004"
| "proxy_state_code S_PROXY_ERROR = - 100700"

lemmas conn_states = S_WAIT_def S_TRANS_def S_OK_def S_INTERRUPTED_def S_INTERNAL_def S_BAD_URL_def

definition is_system_error :: "int \<Rightarrow> bool" where
  "is_system_error st \<longleftrightarrow> S_OK < st \<and> st < S_WAIT"
definition is_in_result_state :: "int \<Rightarrow> bool" where
  "is_in_result_state st \<longleftrightarrow> st < 0"
definition is_in_progress_state :: "int \<Rightarrow> bool" where
  "is_in_progress_state st \<longleftrightarrow> st \<ge> 0"
definition is_in_connecting_state :: "int \<Rightarrow> bool" where
  "is_in_connecting_state st \<longleftrightarrow> S_WAIT < st \<and> st < S_TRANS"
definition is_in_transfering_state :: "int \<Rightarrow> bool" where
  "is_in_transfering_state st \<longleftrightarrow> st \<ge> S_TRANS"
definition is_in_queued_state :: "int \<Rightarrow> bool" where
  "is_in_queued_state st \<longleftrightarrow> is_in_connecting_state st \<or> st = S_WAIT"

definition PRI_CANCEL :: nat where "PRI_CANCEL = 6"
definition PRIORITIES :: nat where "PRIORITIES = 7"

definition MAX_KEEPALIVE_CONNECTIONS :: nat where "MAX_KEEPALIVE_CONNECTIONS = 30"
definition KEEPALIVE_CHECK_TIME :: int where "KEEPALIVE_CHECK_TIME = 20000"
definition MAX_CACHED_OBJECT_PERCENT :: int where "MAX_CACHED_OBJECT_PERCENT = 25"

text \<open>The functions that timers of this module call.\<close>

definition STAT_TIMER :: nat where "STAT_TIMER = 1"
definition KEEPALIVE_TIMER :: nat where "KEEPALIVE_TIMER = 2"
definition CONNECTION_TIMEOUT :: nat where "CONNECTION_TIMEOUT = 3"
definition CONNECTION_TIMEOUT_1 :: nat where "CONNECTION_TIMEOUT_1 = 4"

record download =
  dl_conn :: "nat option"
  dl_cached :: "nat option"
  dl_callback :: bool
  dl_progress :: "nat option"
  dl_state :: int
  dl_prev_error :: int
  dl_pri :: nat

record conn_socket =
  sk_fd :: int
  sk_family :: bool

record connection =
  cn_addr :: nat
  cn_id :: uint32
  cn_downloads :: "nat list"
  cn_progress :: progress
  cn_uri :: nat
  cn_proxied_uri :: nat
  cn_referrer :: "nat option"
  cn_cache_mode :: cache_mode
  cn_cached :: "nat option"
  cn_from :: int
  cn_received :: int
  cn_est_length :: int
  cn_done :: "nat option"
  cn_state :: int
  cn_prev_error :: int
  cn_socket :: conn_socket
  cn_data_socket :: conn_socket
  cn_tries :: int
  cn_timer :: "nat option"
  cn_cgi_pipes :: "int \<times> int"
  cn_stream :: bool
  cn_stream_pipes :: "int \<times> int"
  cn_info :: bool
  cn_running :: bool
  cn_unrestartable :: bool
  cn_detached :: bool
  cn_pri :: "int list"

record host_connection =
  hc_uri :: nat
  hc_refs :: int

record keepalive_connection =
  ka_addr :: nat
  ka_uri :: nat
  ka_done :: "nat option"
  ka_timeout :: timeval_T
  ka_creation_time :: timeval_T
  ka_family :: bool
  ka_socket :: int

text \<open>The variables of the module and what it shares with others: downloads by address, the cache with
  its URIs, the timers, the descriptors closed so far and whether \<^verbatim>\<open>check_queue\<close> is
  registered as a bottom half. \<open>n_clients\<close> are the references to URIs that the rest of the program
  holds; no operation of the module reads or changes it.\<close>

record net =
  n_queue :: "connection list"
  n_hosts :: "host_connection list"
  n_keepalives :: "keepalive_connection list"
  n_connection_id :: uint32
  n_active :: int
  n_keepalive_timeout :: "nat option"
  n_downloads :: "nat \<rightharpoonup> download"
  n_cache :: cache_state
  n_timers :: "timer list"
  n_closed :: "int list"
  n_check :: bool
  n_clients :: "nat list"

record net_env =
  nv_cache :: cache_env
  nv_uri_mem :: "uri_cache \<Rightarrow> uri_mem"
  nv_conn_mem :: "net \<Rightarrow> nat option"
  nv_keep_mem :: "net \<Rightarrow> nat option"
  nv_host_mem :: "net \<Rightarrow> bool"
  nv_timer_mem :: "net \<Rightarrow> nat option"
  nv_bottom_half_mem :: "net \<Rightarrow> bool"
  nv_max_conns :: int
  nv_max_conns_to_host :: int
  nv_retries :: int
  nv_receive_timeout :: int
  nv_unrestartable_timeout :: int
  nv_can_read :: "int \<Rightarrow> bool"
  nv_callback :: "nat \<Rightarrow> net \<Rightarrow> net"
  nv_handler :: "protocol \<Rightarrow> nat \<Rightarrow> net \<Rightarrow> net"
  nv_done :: "nat \<Rightarrow> nat \<Rightarrow> net \<Rightarrow> net"
  nv_format_cache :: "net \<Rightarrow> nat list"

abbreviation n_uris :: "net \<Rightarrow> uri_cache" where
  "n_uris s \<equiv> cs_uris (n_cache s)"

definition upd_uris :: "(uri_cache \<Rightarrow> uri_cache) \<Rightarrow> net \<Rightarrow> net" where
  "upd_uris f s = s\<lparr>n_cache := (n_cache s)\<lparr>cs_uris := f (n_uris s)\<rparr>\<rparr>"

definition conn_at :: "net \<Rightarrow> nat \<Rightarrow> connection option" where
  "conn_at s a = find (\<lambda>c. cn_addr c = a) (n_queue s)"

definition upd_conn :: "nat \<Rightarrow> (connection \<Rightarrow> connection) \<Rightarrow> net \<Rightarrow> net" where
  "upd_conn a f s = s\<lparr>n_queue := map (\<lambda>c. if cn_addr c = a then f c else c) (n_queue s)\<rparr>"

definition del_conn :: "nat \<Rightarrow> net \<Rightarrow> net" where
  "del_conn a s = s\<lparr>n_queue := filter (\<lambda>c. cn_addr c \<noteq> a) (n_queue s)\<rparr>"

definition upd_download :: "nat \<Rightarrow> (download \<Rightarrow> download) \<Rightarrow> net \<Rightarrow> net" where
  "upd_download d f s = s\<lparr>n_downloads := (n_downloads s)(d := map_option f (n_downloads s d))\<rparr>"

definition conn_uri :: "net \<Rightarrow> connection \<Rightarrow> uri" where
  "conn_uri s c = uri_of (n_uris s) (cn_uri c)"

definition close_fd :: "int \<Rightarrow> net \<Rightarrow> net" where
  "close_fd fd s = s\<lparr>n_closed := fd # n_closed s\<rparr>"

section \<open>Priorities and counts\<close>

definition get_priority :: "connection \<Rightarrow> nat" where
  "get_priority c = length (takeWhile (\<lambda>n. n = 0) (cn_pri c))"

definition get_connections_count :: "net \<Rightarrow> nat" where
  "get_connections_count s = length (n_queue s)"

definition get_keepalive_connections_count :: "net \<Rightarrow> nat" where
  "get_keepalive_connections_count s = length (n_keepalives s)"

definition get_connections_connecting_count :: "net \<Rightarrow> nat" where
  "get_connections_connecting_count s = length (filter (\<lambda>c. is_in_connecting_state (cn_state c)) (n_queue s))"

definition get_connections_transfering_count :: "net \<Rightarrow> nat" where
  "get_connections_transfering_count s = length (filter (\<lambda>c. is_in_transfering_state (cn_state c)) (n_queue s))"

text \<open>The test compares the pointers only: both identifiers are read through the same pointer.\<close>

definition connection_disappeared :: "nat \<Rightarrow> net \<Rightarrow> bool" where
  "connection_disappeared a s \<longleftrightarrow> conn_at s a = None"

section \<open>Host connections\<close>

definition get_host_connection :: "net \<Rightarrow> connection \<Rightarrow> nat option" where
  "get_host_connection s c =
     (if u_host (conn_uri s c) = None then None
      else find_index (\<lambda>h. compare_uri (hc_uri h = cn_uri c) (uri_of (n_uris s) (hc_uri h)) (conn_uri s c) URI_HOST)
             (n_hosts s))"

definition add_host_connection :: "net_env \<Rightarrow> connection \<Rightarrow> net \<Rightarrow> bool \<times> net" where
  "add_host_connection env c s =
     (case get_host_connection s c of
        Some i \<Rightarrow> (True, s\<lparr>n_hosts := (n_hosts s)[i := (n_hosts s ! i)\<lparr>hc_refs := hc_refs (n_hosts s ! i) + 1\<rparr>]\<rparr>)
      | None \<Rightarrow>
          if u_host (conn_uri s c) = None then (True, s)
          else if \<not> nv_host_mem env s then (False, s)
          else (True, upd_uris (get_uri_reference (cn_uri c))
                  (s\<lparr>n_hosts := \<lparr>hc_uri = cn_uri c, hc_refs = 1\<rparr> # n_hosts s\<rparr>)))"

definition done_host_connection :: "connection \<Rightarrow> net \<Rightarrow> net" where
  "done_host_connection c s =
     (case get_host_connection s c of
        None \<Rightarrow> s
      | Some i \<Rightarrow>
          let h = n_hosts s ! i in
          if hc_refs h - 1 \<noteq> 0 then s\<lparr>n_hosts := (n_hosts s)[i := h\<lparr>hc_refs := hc_refs h - 1\<rparr>]\<rparr>
          else upd_uris (done_uri (hc_uri h)) (s\<lparr>n_hosts := del_nth (n_hosts s) i\<rparr>))"

section \<open>The life of a connection\<close>

definition new_socket :: conn_socket where
  "new_socket = \<lparr>sk_fd = - 1, sk_family = False\<rparr>"

text \<open>The four allocations of \<^verbatim>\<open>init_connection\<close> fail alike: \<open>nv_conn_mem\<close> is the address when all succeed.\<close>

definition init_connection ::
  "net_env \<Rightarrow> nat \<Rightarrow> nat \<Rightarrow> nat option \<Rightarrow> int \<Rightarrow> cache_mode \<Rightarrow> nat \<Rightarrow> net \<Rightarrow> connection option \<times> net" where
  "init_connection env u pu referrer start mode priority s =
     (case nv_conn_mem env s of
        None \<Rightarrow> (None, s)
      | Some a \<Rightarrow>
          let c = \<lparr>cn_addr = a, cn_id = n_connection_id s, cn_downloads = [],
                   cn_progress = the (init_progress True start), cn_uri = u, cn_proxied_uri = pu, cn_referrer = None,
                   cn_cache_mode = mode, cn_cached = None, cn_from = 0, cn_received = 0, cn_est_length = - 1,
                   cn_done = None, cn_state = S_WAIT, cn_prev_error = 0, cn_socket = new_socket,
                   cn_data_socket = new_socket, cn_tries = 0, cn_timer = None, cn_cgi_pipes = (- 1, - 1),
                   cn_stream = False, cn_stream_pipes = (- 1, - 1), cn_info = False, cn_running = False,
                   cn_unrestartable = False, cn_detached = False, cn_pri = (replicate PRIORITIES 0)[priority := 1]\<rparr>;
              s = s\<lparr>n_connection_id := n_connection_id s + 1\<rparr>
          in case referrer of
               None \<Rightarrow> (Some c, s)
             | Some r \<Rightarrow>
                 if u_protocol (uri_of (n_uris s) r) \<noteq> PROTOCOL_FILE \<or> u_protocol (uri_of (n_uris s) u) = PROTOCOL_FILE
                 then (Some (c\<lparr>cn_referrer := Some r\<rparr>), upd_uris (get_uri_reference r) s)
                 else (Some c, s))"

text \<open>The walk over the downloads of a connection, as the list is when the walk begins; \<open>c\<close> is the
  connection as it was then, which is what is left of it once it is off the queue.\<close>

fun notify_loop :: "net_env \<Rightarrow> connection \<Rightarrow> nat list \<Rightarrow> net \<Rightarrow> net" where
  "notify_loop env c [] s = s"
| "notify_loop env c (d # ds) s =
     (let cached = cn_cached (case conn_at s (cn_addr c) of Some c' \<Rightarrow> c' | None \<Rightarrow> c);
          s = upd_download d (\<lambda>x. x\<lparr>dl_cached := cached\<rparr>) s;
          s = (case n_downloads s d of
                 Some x \<Rightarrow> if dl_callback x then nv_callback env d s else s
               | None \<Rightarrow> s)
      in if is_in_progress_state (cn_state c) \<and> connection_disappeared (cn_addr c) s then s
         else notify_loop env c ds s)"

definition notify_connection_callbacks :: "net_env \<Rightarrow> connection \<Rightarrow> net \<Rightarrow> net" where
  "notify_connection_callbacks env c s = notify_loop env c (cn_downloads c) s"

definition update_connection_progress :: "net_env \<Rightarrow> nat \<Rightarrow> net \<Rightarrow> net" where
  "update_connection_progress env a s =
     (case conn_at s a of
        None \<Rightarrow> s
      | Some c \<Rightarrow>
         (case update_progress (cv_now (nv_cache env)) (nv_timer_mem env s) (cn_progress c)
                 (cn_received c) (cn_est_length c) (cn_from c) (n_timers s) of
            (p, ts) \<Rightarrow> upd_conn a (\<lambda>c. c\<lparr>cn_progress := p\<rparr>) (s\<lparr>n_timers := ts\<rparr>)))"

definition stat_timer :: "net_env \<Rightarrow> nat \<Rightarrow> net \<Rightarrow> net" where
  "stat_timer env a s =
     (let s = update_connection_progress env a s
      in case conn_at s a of None \<Rightarrow> s | Some c \<Rightarrow> notify_connection_callbacks env c s)"

definition start_or_stop_progress :: "net_env \<Rightarrow> nat \<Rightarrow> int \<Rightarrow> net \<Rightarrow> net" where
  "start_or_stop_progress env a st s =
     (case conn_at s a of
        None \<Rightarrow> s
      | Some c \<Rightarrow>
          if st = S_TRANS then
            if pg_timer (cn_progress c) = None then
              update_connection_progress env a
                (upd_conn a (\<lambda>c. c\<lparr>cn_progress := start_update_progress (cv_now (nv_cache env)) (cn_progress c) STAT_TIMER a\<rparr>) s)
            else s
          else case kill_timer (pg_timer (cn_progress c)) (n_timers s) of
              (i, ts) \<Rightarrow> upd_conn a (\<lambda>c. c\<lparr>cn_progress := (cn_progress c)\<lparr>pg_timer := i\<rparr>\<rparr>) (s\<lparr>n_timers := ts\<rparr>))"

text \<open>Nothing between the first lines and the notification calls out of the module, so that the connection
  cannot have disappeared after the progress was started.\<close>

definition set_connection_state :: "net_env \<Rightarrow> nat \<Rightarrow> int \<Rightarrow> net \<Rightarrow> net" where
  "set_connection_state env a st s =
     (let s = upd_conn a (\<lambda>c. (if is_in_result_state (cn_state c) \<and> is_in_progress_state st
                               then c\<lparr>cn_prev_error := cn_state c\<rparr> else c)\<lparr>cn_state := st\<rparr>) s;
          s = start_or_stop_progress env a st s
      in case conn_at s a of
           None \<Rightarrow> s
         | Some c \<Rightarrow>
             let s = foldl (\<lambda>s d. upd_download d (\<lambda>x. x\<lparr>dl_state := st, dl_prev_error := cn_prev_error c\<rparr>) s) s (cn_downloads c)
             in if is_in_progress_state st then notify_connection_callbacks env c s else s)"

definition done_socket :: "conn_socket \<Rightarrow> net \<Rightarrow> net" where
  "done_socket sk s = (if sk_fd sk = - 1 then s else close_fd (sk_fd sk) s)"

definition shutdown_connection_stream :: "nat \<Rightarrow> net \<Rightarrow> net" where
  "shutdown_connection_stream a s =
     (case conn_at s a of
        None \<Rightarrow> s
      | Some c \<Rightarrow>
          let s = (if snd (cn_stream_pipes c) \<ge> 0 then close_fd (snd (cn_stream_pipes c)) s else s)
          in upd_conn a (\<lambda>c. c\<lparr>cn_stream := False, cn_stream_pipes := (- 1, - 1)\<rparr>) s)"

definition shutdown_cgi_pipes :: "nat \<Rightarrow> net \<Rightarrow> net" where
  "shutdown_cgi_pipes a s =
     (case conn_at s a of
        None \<Rightarrow> s
      | Some c \<Rightarrow>
          let s = (if fst (cn_cgi_pipes c) \<ge> 0 then close_fd (fst (cn_cgi_pipes c)) s else s);
              s = (if snd (cn_cgi_pipes c) \<ge> 0 then close_fd (snd (cn_cgi_pipes c)) s else s)
          in upd_conn a (\<lambda>c. c\<lparr>cn_cgi_pipes := (- 1, - 1)\<rparr>) s)"

text \<open>What \<^verbatim>\<open>free_connection_data\<close> does once the protocol has cleaned up: the sockets, the stream and the pipes
  are closed and the timer is stopped.\<close>

definition release_connection :: "nat \<Rightarrow> net \<Rightarrow> net" where
  "release_connection a s =
     (case conn_at s a of
        None \<Rightarrow> s
      | Some c \<Rightarrow>
          let s = done_socket (cn_data_socket c) (done_socket (cn_socket c) s);
              s = upd_conn a (\<lambda>c. c\<lparr>cn_socket := (cn_socket c)\<lparr>sk_fd := - 1\<rparr>,
                                    cn_data_socket := (cn_data_socket c)\<lparr>sk_fd := - 1\<rparr>\<rparr>) s;
              s = shutdown_cgi_pipes a (shutdown_connection_stream a s)
          in case kill_timer (cn_timer c) (n_timers s) of
               (i, ts) \<Rightarrow> upd_conn a (\<lambda>c. c\<lparr>cn_info := False, cn_timer := i\<rparr>) (s\<lparr>n_timers := ts\<rparr>))"

text \<open>The assertion that the connection runs does not stop the function.\<close>

definition free_connection_data :: "net_env \<Rightarrow> nat \<Rightarrow> net \<Rightarrow> net" where
  "free_connection_data env a s =
     (case conn_at s a of
        None \<Rightarrow> s
      | Some c \<Rightarrow>
          let s = upd_conn a (\<lambda>c. c\<lparr>cn_running := False\<rparr>) s;
              s = s\<lparr>n_active := (if n_active s - 1 < 0 then 0 else n_active s - 1)\<rparr>;
              s = (case cn_done c of None \<Rightarrow> s | Some f \<Rightarrow> nv_done env f a s);
              s = release_connection a s
          in case conn_at s a of
               None \<Rightarrow> s
             | Some c \<Rightarrow> if cn_state c \<noteq> S_WAIT then done_host_connection c s else s)"

definition done_connection :: "net_env \<Rightarrow> nat \<Rightarrow> net \<Rightarrow> net" where
  "done_connection env a s =
     (let s = (case conn_at s a of
                 None \<Rightarrow> s
               | Some c \<Rightarrow> if \<not> is_in_result_state (cn_state c) then set_connection_state env a S_INTERNAL s else s)
      in case conn_at s a of
           None \<Rightarrow> s
         | Some c \<Rightarrow>
             let s = notify_connection_callbacks env c (del_conn a s);
                 s = (case cn_referrer c of None \<Rightarrow> s | Some r \<Rightarrow> upd_uris (done_uri r) s)
             in upd_uris (done_uri (cn_proxied_uri c)) (upd_uris (done_uri (cn_uri c)) s))"

fun enqueue :: "connection \<Rightarrow> connection list \<Rightarrow> connection list" where
  "enqueue n [] = [n]"
| "enqueue n (c # cs) = (if get_priority c > get_priority n then n # c # cs else c # enqueue n cs)"

definition add_to_queue :: "connection \<Rightarrow> net \<Rightarrow> net" where
  "add_to_queue c s = s\<lparr>n_queue := enqueue c (n_queue s)\<rparr>"

definition register_check_queue :: "net_env \<Rightarrow> net \<Rightarrow> net" where
  "register_check_queue env s = s\<lparr>n_check := n_check s \<or> nv_bottom_half_mem env s\<rparr>"

section \<open>Keepalive connections\<close>

definition get_keepalive_connection :: "net \<Rightarrow> connection \<Rightarrow> keepalive_connection option" where
  "get_keepalive_connection s c =
     (if u_host (conn_uri s c) = None then None
      else find (\<lambda>k. compare_uri (ka_uri k = cn_uri c) (uri_of (n_uris s) (ka_uri k)) (conn_uri s c) URI_KEEPALIVE)
             (n_keepalives s))"

text \<open>The end of \<^verbatim>\<open>done_keepalive_connection\<close>.\<close>

definition free_keepalive_connection :: "keepalive_connection \<Rightarrow> net \<Rightarrow> net" where
  "free_keepalive_connection k s =
     (let s = s\<lparr>n_keepalives := filter (\<lambda>k'. ka_addr k' \<noteq> ka_addr k) (n_keepalives s)\<rparr>;
          s = (if ka_socket k \<noteq> - 1 then close_fd (ka_socket k) s else s)
      in upd_uris (done_uri (ka_uri k)) s)"

text \<open>The connection takes over the socket, so that the entry is freed without closing it and without
  calling its function.\<close>

definition has_keepalive_connection :: "nat \<Rightarrow> net \<Rightarrow> bool \<times> net" where
  "has_keepalive_connection a s =
     (case conn_at s a of
        None \<Rightarrow> (False, s)
      | Some c \<Rightarrow>
         (case get_keepalive_connection s c of
            None \<Rightarrow> (False, s)
          | Some k \<Rightarrow>
              (True, free_keepalive_connection (k\<lparr>ka_socket := - 1, ka_done := None\<rparr>)
                 (upd_conn a (\<lambda>c. c\<lparr>cn_socket := \<lparr>sk_fd = ka_socket k, sk_family = ka_family k\<rparr>\<rparr>) s))))"

text \<open>The connection made for the call of \<^verbatim>\<open>done\<close> takes the socket of the entry. When it cannot, the
  code frees a connection that has not been counted as running, and then the entry again.\<close>

definition do_keepalive_connection_callback :: "net_env \<Rightarrow> keepalive_connection \<Rightarrow> nat \<Rightarrow> net \<Rightarrow> bool \<times> net" where
  "do_keepalive_connection_callback env k f s =
     (case get_proxied_uri (cv_proxy (nv_cache env)) (nv_uri_mem env (n_uris s)) (uri_of (n_uris s) (ka_uri k)) (n_uris s) of
        (proxied, uc) \<Rightarrow>
          let s = upd_uris (\<lambda>_. uc) s in
          case get_proxy_uri (cv_proxy (nv_cache env)) (nv_uri_mem env (n_uris s)) (uri_of (n_uris s) (ka_uri k)) (n_uris s) of
            (proxy, _, uc) \<Rightarrow>
              let s = upd_uris (\<lambda>_. uc) s;
                  give_back = (\<lambda>r s. case r of None \<Rightarrow> s | Some u \<Rightarrow> upd_uris (done_uri u) s)
              in case (proxied, proxy) of
                   (Some pu, Some u) \<Rightarrow>
                     (case init_connection env u pu None 0 CACHE_MODE_NEVER PRI_CANCEL s of
                        (Some c, s) \<Rightarrow>
                          let s = add_to_queue c s; (found, s) = has_keepalive_connection (cn_addr c) s;
                              (added, s) = (if found then add_host_connection env c s else (False, s))
                          in if \<not> added then
                               (False, done_connection env (cn_addr c) (free_connection_data env (cn_addr c) s))
                             else
                               (True, nv_done env f (cn_addr c)
                                  (upd_conn (cn_addr c) (\<lambda>c. c\<lparr>cn_running := True\<rparr>) (s\<lparr>n_active := n_active s + 1\<rparr>)))
                      | (None, s) \<Rightarrow> (False, give_back proxy (give_back proxied s)))
                 | _ \<Rightarrow> (False, give_back proxy (give_back proxied s)))"

definition done_keepalive_connection :: "net_env \<Rightarrow> keepalive_connection \<Rightarrow> net \<Rightarrow> net" where
  "done_keepalive_connection env k s =
     (case ka_done k of
        None \<Rightarrow> free_keepalive_connection k s
      | Some f \<Rightarrow>
         (case do_keepalive_connection_callback env k f s of
            (True, s) \<Rightarrow> s
          | (False, s) \<Rightarrow> free_keepalive_connection k s))"

definition init_keepalive_connection ::
  "net_env \<Rightarrow> connection \<Rightarrow> int \<Rightarrow> nat option \<Rightarrow> net \<Rightarrow> keepalive_connection option \<times> net" where
  "init_keepalive_connection env c timeout done s =
     (if u_host (conn_uri s c) = None then (None, s)
      else case nv_keep_mem env s of
          None \<Rightarrow> (None, s)
        | Some a \<Rightarrow>
            (Some \<lparr>ka_addr = a, ka_uri = cn_uri c, ka_done = done, ka_timeout = timeval_from_seconds timeout,
                   ka_creation_time = cv_now (nv_cache env), ka_family = sk_family (cn_socket c), ka_socket = sk_fd (cn_socket c)\<rparr>,
             upd_uris (get_uri_reference (cn_uri c)) s))"

definition finish_connection :: "net_env \<Rightarrow> nat \<Rightarrow> net \<Rightarrow> net" where
  "finish_connection env a s = register_check_queue env (done_connection env a (free_connection_data env a s))"

definition add_keepalive_connection :: "net_env \<Rightarrow> nat \<Rightarrow> int \<Rightarrow> nat option \<Rightarrow> net \<Rightarrow> net" where
  "add_keepalive_connection env a timeout done s =
     (case conn_at s a of
        None \<Rightarrow> s
      | Some c \<Rightarrow>
          if sk_fd (cn_socket c) = - 1 then finish_connection env a s
          else case init_keepalive_connection env c timeout done s of
              (Some k, s) \<Rightarrow>
                finish_connection env a
                  (upd_conn a (\<lambda>c. c\<lparr>cn_socket := (cn_socket c)\<lparr>sk_fd := - 1\<rparr>\<rparr>) (s\<lparr>n_keepalives := k # n_keepalives s\<rparr>))
            | (None, s) \<Rightarrow>
               (case done of
                  None \<Rightarrow> finish_connection env a s
                | Some f \<Rightarrow> nv_done env f a s))"

definition keepalive_expired :: "net_env \<Rightarrow> keepalive_connection \<Rightarrow> bool" where
  "keepalive_expired env k \<longleftrightarrow>
     nv_can_read env (ka_socket k) \<or>
     timeval_cmp (timeval_sub (ka_creation_time k) (cv_now (nv_cache env))) (ka_timeout k) > 0"

text \<open>The first loop of \<^verbatim>\<open>check_keepalive_connections\<close> over the list as it is in the beginning; entries that a
  \<^verbatim>\<open>done\<close> function has used up are passed over. The number of entries kept is returned.\<close>

fun expire_keepalives :: "net_env \<Rightarrow> keepalive_connection list \<Rightarrow> net \<Rightarrow> nat \<times> net" where
  "expire_keepalives env [] s = (0, s)"
| "expire_keepalives env (k # ks) s =
     (if ka_addr k \<notin> ka_addr ` set (n_keepalives s) then expire_keepalives env ks s
      else if keepalive_expired env k then expire_keepalives env ks (done_keepalive_connection env k s)
      else case expire_keepalives env ks s of (p, s) \<Rightarrow> (Suc p, s))"

text \<open>The second loop closes the oldest ones; a failed assertion returns from the function.\<close>

fun trim_keepalives :: "net_env \<Rightarrow> nat \<Rightarrow> net \<Rightarrow> net option" where
  "trim_keepalives env 0 s = Some s"
| "trim_keepalives env (Suc n) s =
     (if n_keepalives s = [] then None else trim_keepalives env n (done_keepalive_connection env (last (n_keepalives s)) s))"

definition check_keepalive_connections :: "net_env \<Rightarrow> net \<Rightarrow> net" where
  "check_keepalive_connections env s =
     (let (i, ts) = kill_timer (n_keepalive_timeout s) (n_timers s);
          s = s\<lparr>n_keepalive_timeout := i, n_timers := ts\<rparr>;
          (p, s) = expire_keepalives env (n_keepalives s) s
      in case trim_keepalives env (p - MAX_KEEPALIVE_CONNECTIONS) s of
           None \<Rightarrow> s
         | Some s \<Rightarrow>
             if n_keepalives s = [] then s
             else case install_timer (nv_timer_mem env s) KEEPALIVE_CHECK_TIME KEEPALIVE_TIMER 0 (n_timers s) of
                 (i, ts) \<Rightarrow> s\<lparr>n_keepalive_timeout := i, n_timers := ts\<rparr>)"

definition keepalive_timer :: "net_env \<Rightarrow> net \<Rightarrow> net" where
  "keepalive_timer env s = check_keepalive_connections env (s\<lparr>n_keepalive_timeout := None\<rparr>)"

partial_function (option) abort_keepalives :: "net_env \<Rightarrow> net \<Rightarrow> net option" where
  "abort_keepalives env s =
     (case n_keepalives s of
        [] \<Rightarrow> Some s
      | k # _ \<Rightarrow> abort_keepalives env (done_keepalive_connection env k s))"

definition abort_all_keepalive_connections :: "net_env \<Rightarrow> net \<Rightarrow> net option" where
  "abort_all_keepalive_connections env s = map_option (check_keepalive_connections env) (abort_keepalives env s)"

section \<open>Scheduling\<close>

text \<open>One pass of the bubble sort: an element that is less important than its successor moves behind it, and
  the loop then goes on with the element behind the moved one, which is not compared with it in this pass. The
  flag tells whether anything moved.\<close>

fun sort_pass :: "connection list \<Rightarrow> connection list \<times> bool" where
  "sort_pass (c # d # cs) =
     (if get_priority d < get_priority c then (case sort_pass cs of (q, _) \<Rightarrow> (d # c # q, True))
      else case sort_pass (d # cs) of (q, swp) \<Rightarrow> (c # q, swp))"
| "sort_pass cs = (cs, False)"

text \<open>The number of pairs in the wrong order, which every pass that moves something makes smaller.\<close>

fun inversions :: "connection list \<Rightarrow> nat" where
  "inversions [] = 0"
| "inversions (c # cs) = length (filter (\<lambda>d. get_priority d < get_priority c) cs) + inversions cs"

lemma sort_pass_mset: "mset (fst (sort_pass cs)) = mset cs"
  by (induction cs rule: sort_pass.induct) (auto split: prod.splits)

lemma sort_pass_count: "length (filter P (fst (sort_pass cs))) = length (filter P cs)"
  by (metis mset_filter size_mset sort_pass_mset)

lemma inversions_mono:
  "inversions (fst (sort_pass cs)) \<le> inversions cs \<and> (snd (sort_pass cs) \<longrightarrow> inversions (fst (sort_pass cs)) < inversions cs)"
proof (induction cs rule: sort_pass.induct)
  case (1 c d cs)
  then show ?case
    by (auto split: prod.split simp: prod_eq_iff sort_pass_count)
qed auto

function sort_conns :: "connection list \<Rightarrow> connection list" where
  "sort_conns cs = (case sort_pass cs of (q, swp) \<Rightarrow> if swp then sort_conns q else q)"
  by pat_completeness auto
termination
  by (relation "measure inversions") (use inversions_mono in \<open>auto simp: prod_eq_iff\<close>)

declare sort_conns.simps [simp del]

definition sort_queue :: "net \<Rightarrow> net" where
  "sort_queue s = s\<lparr>n_queue := sort_conns (n_queue s)\<rparr>"

definition interrupt_connection :: "net_env \<Rightarrow> nat \<Rightarrow> net \<Rightarrow> net" where
  "interrupt_connection env a s = free_connection_data env a s"

definition suspend_connection :: "net_env \<Rightarrow> nat \<Rightarrow> net \<Rightarrow> net" where
  "suspend_connection env a s = set_connection_state env a S_WAIT (interrupt_connection env a s)"

definition run_connection :: "net_env \<Rightarrow> nat \<Rightarrow> net \<Rightarrow> net" where
  "run_connection env a s =
     (case conn_at s a of
        None \<Rightarrow> s
      | Some c \<Rightarrow>
          if cn_running c then s
          else case add_host_connection env c s of
              (False, s) \<Rightarrow> done_connection env a (set_connection_state env a (proxy_state_code S_OUT_OF_MEM) s)
            | (True, s) \<Rightarrow>
                nv_handler env (u_protocol (conn_uri s c)) a
                  (upd_conn a (\<lambda>c. c\<lparr>cn_running := True\<rparr>) (s\<lparr>n_active := n_active s + 1\<rparr>)))"

definition abort_connection :: "net_env \<Rightarrow> nat \<Rightarrow> int \<Rightarrow> net \<Rightarrow> net" where
  "abort_connection env a st s =
     (let s = set_connection_state env a st s;
          s = (case conn_at s a of Some c \<Rightarrow> if cn_running c then interrupt_connection env a s else s | None \<Rightarrow> s)
      in register_check_queue env (done_connection env a s))"

definition retry_connection :: "net_env \<Rightarrow> nat \<Rightarrow> int \<Rightarrow> net \<Rightarrow> net" where
  "retry_connection env a st s =
     (let s = interrupt_connection env a (set_connection_state env a st s)
      in case conn_at s a of
           None \<Rightarrow> s
         | Some c \<Rightarrow>
             if u_post (conn_uri s c) \<noteq> None \<or> nv_retries env = 0
             then register_check_queue env (done_connection env a s)
             else
               let s = upd_conn a (\<lambda>c. c\<lparr>cn_tries := cn_tries c + 1\<rparr>) s in
               if cn_tries c + 1 \<ge> nv_retries env then register_check_queue env (done_connection env a s)
               else run_connection env a (upd_conn a (\<lambda>c. c\<lparr>cn_prev_error := cn_state c\<rparr>) s))"

text \<open>The loop runs from the end of the queue: the argument is the reversed queue. The result is the
  connection to suspend.\<close>

fun find_victim :: "net \<Rightarrow> nat \<Rightarrow> nat option \<Rightarrow> connection list \<Rightarrow> nat option" where
  "find_victim s priority u [] = None"
| "find_victim s priority u (c # cs) =
     (if get_priority c \<le> priority then None
      else if cn_state c = S_WAIT then find_victim s priority u cs
      else if u_post (conn_uri s c) \<noteq> None \<and> get_priority c < PRI_CANCEL then find_victim s priority u cs
      else if (case u of None \<Rightarrow> False
               | Some u \<Rightarrow> \<not> compare_uri (u = cn_uri c) (uri_of (n_uris s) u) (conn_uri s c) URI_HOST)
      then find_victim s priority u cs
      else Some (cn_addr c))"

definition try_to_suspend_connection :: "net_env \<Rightarrow> connection \<Rightarrow> nat option \<Rightarrow> net \<Rightarrow> int \<times> net" where
  "try_to_suspend_connection env c u s =
     (case find_victim s (get_priority c) u (rev (n_queue s)) of
        None \<Rightarrow> (- 1, s)
      | Some v \<Rightarrow> (0, suspend_connection env v s))"

definition try_connection :: "net_env \<Rightarrow> connection \<Rightarrow> net \<Rightarrow> int \<times> net" where
  "try_connection env c s =
     (case map_option ((!) (n_hosts s)) (get_host_connection s c) of
        Some h \<Rightarrow>
          if hc_refs h \<ge> nv_max_conns_to_host env
          then case try_to_suspend_connection env c (Some (hc_uri h)) s of (r, s) \<Rightarrow> (if r \<noteq> 0 then 0 else - 1, s)
          else if n_active s \<ge> nv_max_conns env
          then case try_to_suspend_connection env c None s of (r, s) \<Rightarrow> (if r \<noteq> 0 then 0 else - 1, s)
          else (1, run_connection env (cn_addr c) s)
      | None \<Rightarrow>
          if n_active s \<ge> nv_max_conns env
          then case try_to_suspend_connection env c None s of (r, s) \<Rightarrow> (if r \<noteq> 0 then 0 else - 1, s)
          else (1, run_connection env (cn_addr c) s))"

text \<open>One of the two inner loops of \<^verbatim>\<open>check_queue\<close>, over the waiting connections among \<open>cs\<close>; \<open>Some\<close> is the
  jump back to \<^verbatim>\<open>again\<close>. Nothing has changed when \<^verbatim>\<open>try_connection\<close> returns 0.\<close>

fun try_conns :: "net_env \<Rightarrow> bool \<Rightarrow> connection list \<Rightarrow> net \<Rightarrow> net option" where
  "try_conns env keep [] s = None"
| "try_conns env keep (c # cs) s =
     (if cn_state c = S_WAIT \<and> (keep \<longrightarrow> get_keepalive_connection s c \<noteq> None) then
        (case try_connection env c s of (r, s) \<Rightarrow> if r \<noteq> 0 then Some s else try_conns env keep cs s)
      else try_conns env keep cs s)"

text \<open>The outer loop, over the connections of equal priority.\<close>

function scan_queue :: "net_env \<Rightarrow> connection list \<Rightarrow> net \<Rightarrow> net option" where
  "scan_queue env [] s = None"
| "scan_queue env (conn # cs) s =
     (let grp = takeWhile (\<lambda>c. get_priority c = get_priority conn) (conn # cs);
          rest = dropWhile (\<lambda>c. get_priority c = get_priority conn) (conn # cs)
      in case try_conns env True grp s of
           Some s \<Rightarrow> Some s
         | None \<Rightarrow>
            (case try_conns env False grp s of
               Some s \<Rightarrow> Some s
             | None \<Rightarrow> scan_queue env rest s))"
  by pat_completeness auto
termination
  by (relation "measure (\<lambda>(env, cs, s). length cs)") (auto simp: length_dropWhile_le le_imp_less_Suc)

text \<open>The last loop, from \<^verbatim>\<open>again2\<close>: the first waiting connection from the end among those nobody wants.\<close>

fun find_cancelled :: "connection list \<Rightarrow> nat option" where
  "find_cancelled [] = None"
| "find_cancelled (c # cs) =
     (if get_priority c < PRI_CANCEL then None
      else if cn_state c = S_WAIT then Some (cn_addr c)
      else find_cancelled cs)"

partial_function (option) cancel_waiting :: "net_env \<Rightarrow> net \<Rightarrow> net option" where
  "cancel_waiting env s =
     (case find_cancelled (rev (n_queue s)) of
        None \<Rightarrow> Some s
      | Some a \<Rightarrow> cancel_waiting env (done_connection env a (set_connection_state env a S_INTERRUPTED s)))"

partial_function (option) check_queue :: "net_env \<Rightarrow> net \<Rightarrow> net option" where
  "check_queue env s =
     (let s = check_keepalive_connections env s
      in case scan_queue env (n_queue s) s of
           Some s \<Rightarrow> check_queue env s
         | None \<Rightarrow> cancel_waiting env s)"

declare scan_queue.simps [simp del]

section \<open>The interface of the module\<close>

definition call_download :: "net_env \<Rightarrow> nat option \<Rightarrow> net \<Rightarrow> net" where
  "call_download env download s =
     (case download of
        None \<Rightarrow> s
      | Some d \<Rightarrow> (case n_downloads s d of Some x \<Rightarrow> if dl_callback x then nv_callback env d s else s | None \<Rightarrow> s))"

definition set_download :: "nat option \<Rightarrow> (download \<Rightarrow> download) \<Rightarrow> net \<Rightarrow> net" where
  "set_download download f s = (case download of None \<Rightarrow> s | Some d \<Rightarrow> upd_download d f s)"

definition give_back_uri :: "nat option \<Rightarrow> net \<Rightarrow> net" where
  "give_back_uri u s = (case u of None \<Rightarrow> s | Some u \<Rightarrow> upd_uris (done_uri u) s)"

text \<open>The cache asks the queue which entries are being loaded.\<close>

definition net_cache_env :: "net_env \<Rightarrow> net \<Rightarrow> cache_env" where
  "net_cache_env env s = (nv_cache env)\<lparr>cv_conns := map cn_cached (n_queue s)\<rparr>"

text \<open>The proxied and the proxy URI for a URI, with the state when a proxy is not valid.\<close>

definition connection_uris :: "net_env \<Rightarrow> nat \<Rightarrow> net \<Rightarrow> nat option \<times> nat option \<times> int \<times> net" where
  "connection_uris env u s =
     (case get_proxied_uri (cv_proxy (nv_cache env)) (nv_uri_mem env (n_uris s)) (uri_of (n_uris s) u) (n_uris s) of
        (proxied, uc) \<Rightarrow>
          let s = upd_uris (\<lambda>_. uc) s in
          case get_proxy_uri (cv_proxy (nv_cache env)) (nv_uri_mem env (n_uris s)) (uri_of (n_uris s) u) (n_uris s) of
            (proxy, st, uc) \<Rightarrow>
              (proxied, proxy, case st of None \<Rightarrow> S_OK | Some st \<Rightarrow> proxy_state_code st, upd_uris (\<lambda>_. uc) s))"

text \<open>A download joins the connection \<open>c\<close> that loads the same URI already.\<close>

definition join_connection :: "net_env \<Rightarrow> connection \<Rightarrow> nat option \<Rightarrow> nat \<Rightarrow> net \<Rightarrow> net" where
  "join_connection env c download pri s =
     (let a = cn_addr c; c' = c\<lparr>cn_pri := (cn_pri c)[pri := cn_pri c ! pri + 1]\<rparr>;
          s = (if get_priority c > pri then register_check_queue env (add_to_queue c' (del_conn a s))
               else upd_conn a (\<lambda>_. c') s)
      in case download of
           None \<Rightarrow> s
         | Some d \<Rightarrow>
             set_connection_state env a (cn_state c)
               (upd_conn a (\<lambda>c. c\<lparr>cn_downloads := d # cn_downloads c\<rparr>)
                 (upd_download d (\<lambda>x. x\<lparr>dl_progress := Some a, dl_conn := Some a, dl_cached := cn_cached c\<rparr>) s)))"

text \<open>A new connection is queued for the download.\<close>

definition start_connection :: "net_env \<Rightarrow> connection \<Rightarrow> nat option \<Rightarrow> net \<Rightarrow> net" where
  "start_connection env c download s =
     (let a = cn_addr c;
          s = set_download download (\<lambda>x. x\<lparr>dl_progress := Some a, dl_conn := Some a, dl_cached := None\<rparr>) s;
          c = (case download of None \<Rightarrow> c | Some d \<Rightarrow> c\<lparr>cn_downloads := d # cn_downloads c\<rparr>)
      in register_check_queue env (set_connection_state env a S_WAIT (add_to_queue c s)))"

text \<open>The lines that take the position from an incomplete cache entry are never reached with an entry: the
  function has returned when one was found.\<close>

definition load_uri ::
  "net_env \<Rightarrow> nat \<Rightarrow> nat option \<Rightarrow> nat option \<Rightarrow> nat \<Rightarrow> cache_mode \<Rightarrow> int \<Rightarrow> net \<Rightarrow> int \<times> net" where
  "load_uri env u referrer download pri mode start s =
     (let out_of_mem = proxy_state_code S_OUT_OF_MEM;
          s = set_download download (\<lambda>x. x\<lparr>dl_conn := None, dl_cached := None, dl_pri := pri, dl_state := out_of_mem,
                                           dl_prev_error := 0\<rparr>) s
      in case get_validated_cache_entry (net_cache_env env s) u mode (n_cache s) of
           (Some cached, cs) \<Rightarrow>
             (0, call_download env download
                   (set_download download (\<lambda>x. x\<lparr>dl_cached := Some (ca_addr cached), dl_state := S_OK\<rparr>) (s\<lparr>n_cache := cs\<rparr>)))
         | (None, cs) \<Rightarrow>
            (case connection_uris env u (s\<lparr>n_cache := cs\<rparr>) of
               (Some pu, Some xu, st, s) \<Rightarrow>
                 if get_protocol_need_slash_after_host (u_protocol (uri_of (n_uris s) xu)) \<and> hostlen (uri_of (n_uris s) xu) = 0
                 then (- 1, give_back_uri (Some pu) (give_back_uri (Some xu)
                         (call_download env download (set_download download
                            (\<lambda>x. x\<lparr>dl_state := (if st = S_OK then S_BAD_URL else st)\<rparr>) s))))
                 else (case find (\<lambda>c. \<not> cn_detached c \<and> cn_uri c = xu) (n_queue s) of
                     Some c \<Rightarrow> (0, join_connection env c download pri (give_back_uri (Some pu) (give_back_uri (Some xu) s)))
                   | None \<Rightarrow>
                      (case init_connection env xu pu referrer start mode pri s of
                         (None, s) \<Rightarrow>
                           (- 1, give_back_uri (Some pu) (give_back_uri (Some xu)
                              (call_download env download (set_download download (\<lambda>x. x\<lparr>dl_state := out_of_mem\<rparr>) s))))
                       | (Some c, s) \<Rightarrow> (0, start_connection env c download s)))
             | (pu, xu, st, s) \<Rightarrow>
                 (- 1, give_back_uri pu (give_back_uri xu
                    (call_download env download (set_download download
                       (\<lambda>x. x\<lparr>dl_state := (if st = S_OK then out_of_mem else st)\<rparr>) s))))))"

text \<open>The owner of a connection changes: the download \<open>old\<close> leaves it, \<open>new\<close> takes its place.\<close>

definition change_priority :: "nat \<Rightarrow> nat \<Rightarrow> connection \<Rightarrow> connection" where
  "change_priority old new c =
     (let pri = (cn_pri c)[old := (if cn_pri c ! old - 1 < 0 then 0 else cn_pri c ! old - 1)]
      in c\<lparr>cn_pri := pri[new := pri ! new + 1]\<rparr>)"

definition change_connection :: "net_env \<Rightarrow> nat \<Rightarrow> nat option \<Rightarrow> nat \<Rightarrow> bool \<Rightarrow> net \<Rightarrow> net" where
  "change_connection env old new newpri interrupt s =
     (case n_downloads s old of
        None \<Rightarrow> s
      | Some ol \<Rightarrow>
          if is_in_result_state (dl_state ol) then
            call_download env new (set_download new
              (\<lambda>x. x\<lparr>dl_cached := dl_cached ol, dl_state := dl_state ol, dl_prev_error := dl_prev_error ol\<rparr>) s)
          else case dl_conn ol of
              None \<Rightarrow> s
            | Some a \<Rightarrow>
                let s = upd_conn a (\<lambda>c. (change_priority (dl_pri ol) newpri c)\<lparr>cn_downloads := remove1 old (cn_downloads c)\<rparr>) s;
                    s = upd_download old (\<lambda>x. x\<lparr>dl_state := S_INTERRUPTED\<rparr>) s;
                    s = (case (new, conn_at s a) of
                           (_, None) \<Rightarrow> s
                         | (Some n, Some c) \<Rightarrow>
                             upd_download n (\<lambda>x. x\<lparr>dl_progress := Some a, dl_state := cn_state c, dl_prev_error := cn_prev_error c,
                                                   dl_pri := newpri, dl_conn := Some a, dl_cached := cn_cached c\<rparr>)
                               (upd_conn a (\<lambda>c. c\<lparr>cn_downloads := n # cn_downloads c\<rparr>) s)
                         | (None, Some c) \<Rightarrow>
                             if cn_detached c \<or> interrupt then abort_connection env a S_INTERRUPTED s else s)
                in register_check_queue env (sort_queue s))"

text \<open>The entry at an address, changed together with the accounting of the cache.\<close>

definition upd_entry :: "nat \<Rightarrow> (cached \<times> cache_globals \<Rightarrow> cached \<times> cache_globals) \<Rightarrow> cache_state \<Rightarrow> cache_state" where
  "upd_entry e f cs =
     (case find (\<lambda>c. ca_addr c = e) (cs_entries cs) of
        None \<Rightarrow> cs
      | Some c \<Rightarrow>
         (case f (c, cs_globals cs) of
            (c', g) \<Rightarrow> cs\<lparr>cs_entries := map (\<lambda>x. if ca_addr x = e then c' else x) (cs_entries cs), cs_globals := g\<rparr>))"

definition strip_entry :: "nat \<Rightarrow> int \<Rightarrow> net \<Rightarrow> net" where
  "strip_entry e pos s =
     s\<lparr>n_cache := upd_entry e (\<lambda>(c, g). case free_entry_to pos (ca_body c, g) of (b, g) \<Rightarrow> (c\<lparr>ca_body := b\<rparr>, g)) (n_cache s)\<rparr>"

definition detach_connection :: "net_env \<Rightarrow> nat \<Rightarrow> int \<Rightarrow> net \<Rightarrow> net" where
  "detach_connection env download pos s =
     (case n_downloads s download of
        None \<Rightarrow> s
      | Some x \<Rightarrow>
          if is_in_result_state (dl_state x) then s
          else case dl_conn x of
              None \<Rightarrow> s
            | Some a \<Rightarrow>
               (case conn_at s a of
                  None \<Rightarrow> s
                | Some c \<Rightarrow>
                   (case cn_cached c of
                      None \<Rightarrow> s
                    | Some e \<Rightarrow>
                        if cn_detached c then strip_entry e pos s
                        else
                          let total_len = (if cn_est_length c = - 1 then cn_from c else cn_est_length c);
                              total_pri = sum_list (take PRI_CANCEL (cn_pri c))
                          in if total_len < cv_memory_size (nv_cache env) * MAX_CACHED_OBJECT_PERCENT sdiv 100 then s
                             else
                               let s = s\<lparr>n_cache := (n_cache s)\<lparr>cs_entries :=
                                           foldl (\<lambda>es x. object_unlock x es) (cs_entries (n_cache s)) (nv_format_cache env s)\<rparr>\<rparr>
                               in if total_pri \<noteq> 1 \<or>
                                     (\<exists>x\<in>set (cs_entries (n_cache s)). ca_addr x = e \<and> is_object_used x) then s
                                  else strip_entry e pos
                                         (upd_conn a (\<lambda>c. c\<lparr>cn_detached := True\<rparr>)
                                           (s\<lparr>n_cache := upd_entry e (\<lambda>(c, g). (c\<lparr>ca_valid := False\<rparr>, g)) (n_cache s)\<rparr>)))))"

definition timeout_delay :: "net_env \<Rightarrow> connection \<Rightarrow> int" where
  "timeout_delay env c = (if cn_unrestartable c then nv_unrestartable_timeout env else nv_receive_timeout env) * 500"

definition install_conn_timer :: "net_env \<Rightarrow> nat \<Rightarrow> nat \<Rightarrow> net \<Rightarrow> net" where
  "install_conn_timer env a f s =
     (case conn_at s a of
        None \<Rightarrow> s
      | Some c \<Rightarrow>
         (case install_timer (nv_timer_mem env s) (timeout_delay env c) f a (n_timers s) of
            (i, ts) \<Rightarrow> upd_conn a (\<lambda>c. c\<lparr>cn_timer := i\<rparr>) (s\<lparr>n_timers := ts\<rparr>)))"

definition connection_timeout_1 :: "net_env \<Rightarrow> nat \<Rightarrow> net \<Rightarrow> net" where
  "connection_timeout_1 env a s = install_conn_timer env a CONNECTION_TIMEOUT s"

definition set_connection_timeout :: "net_env \<Rightarrow> nat \<Rightarrow> net \<Rightarrow> net" where
  "set_connection_timeout env a s =
     (case conn_at s a of
        None \<Rightarrow> s
      | Some c \<Rightarrow>
         (case kill_timer (cn_timer c) (n_timers s) of
            (i, ts) \<Rightarrow> install_conn_timer env a CONNECTION_TIMEOUT_1 (upd_conn a (\<lambda>c. c\<lparr>cn_timer := i\<rparr>) (s\<lparr>n_timers := ts\<rparr>))))"

partial_function (option) abort_conns :: "net_env \<Rightarrow> net \<Rightarrow> net option" where
  "abort_conns env s =
     (case n_queue s of
        [] \<Rightarrow> Some s
      | c # _ \<Rightarrow> abort_conns env (abort_connection env (cn_addr c) S_INTERRUPTED s))"

definition abort_all_connections :: "net_env \<Rightarrow> net \<Rightarrow> net option" where
  "abort_all_connections env s =
     (case abort_conns env s of None \<Rightarrow> None | Some s \<Rightarrow> abort_all_keepalive_connections env s)"

text \<open>The walk of \<^verbatim>\<open>abort_background_connections\<close> over the queue as it is when the walk begins.\<close>

definition abort_background_connections :: "net_env \<Rightarrow> net \<Rightarrow> net" where
  "abort_background_connections env s =
     foldl (\<lambda>s a. case conn_at s a of
                    None \<Rightarrow> s
                  | Some c \<Rightarrow> if get_priority c \<ge> PRI_CANCEL then abort_connection env a S_INTERRUPTED s else s)
       s (map cn_addr (n_queue s))"

end
