(* ===== verification/ConnInv.thy ===== *)
theory ConnInv
  imports Connection
begin

text \<open>
  The invariant of the connection queue: what \<^verbatim>\<open>check_queue_bugs\<close> asserts (the queue is sorted by
  priority, every connection on it is in progress, \<^verbatim>\<open>active_connections\<close> counts the running ones)
  with the facts that make it inductive, the agreement of the host connections with the queue,
  the limits of the options, and the ownership of the references to URIs.
\<close>

section \<open>The connection at an address\<close>

lemma conn_at_Some:
  assumes "distinct (map cn_addr (n_queue s))" "conn_at s a = Some c"
  obtains xs ys where "n_queue s = xs @ c # ys" "cn_addr c = a" "\<forall>d\<in>set (xs @ ys). cn_addr d \<noteq> a"
proof -
  have c: "c \<in> set (n_queue s)" "cn_addr c = a"
    using assms(2) by (auto simp: conn_at_def find_Some_iff)
  then obtain xs ys where q: "n_queue s = xs @ c # ys"
    by (meson split_list)
  with assms(1) c(2) have "\<forall>d\<in>set (xs @ ys). cn_addr d \<noteq> a"
    by (auto simp: rev_image_eqI)
  with q c(2) that show thesis
    by blast
qed

lemma conn_at_mem: "conn_at s a = Some c \<Longrightarrow> c \<in> set (n_queue s) \<and> cn_addr c = a"
  by (auto simp: conn_at_def find_Some_iff)

lemma conn_at_None: "conn_at s a = None \<longleftrightarrow> a \<notin> cn_addr ` set (n_queue s)"
  by (auto simp: conn_at_def find_None_iff)

lemma conn_at_split:
  assumes "n_queue s = xs @ c # ys" "cn_addr c = a" "\<forall>d\<in>set (xs @ ys). cn_addr d \<noteq> a"
  shows "conn_at s a = Some c" "n_queue (upd_conn a f s) = xs @ f c # ys" "n_queue (del_conn a s) = xs @ ys"
proof -
  have "find (\<lambda>d. cn_addr d = a) (xs @ c # ys) = Some c"
    using assms(2,3) by (induction xs) auto
  then show "conn_at s a = Some c"
    by (simp add: conn_at_def assms(1))
  have "map (\<lambda>c. if cn_addr c = a then f c else c) zs = zs" if "\<forall>d\<in>set zs. cn_addr d \<noteq> a" for zs
    using that by (simp add: map_idI)
  with assms show "n_queue (upd_conn a f s) = xs @ f c # ys"
    by (simp add: upd_conn_def)
  show "n_queue (del_conn a s) = xs @ ys"
    using assms by (simp add: del_conn_def)
qed

lemma conn_at_upd:
  "(\<And>c. cn_addr (f c) = cn_addr c) \<Longrightarrow> conn_at (upd_conn a f s) b = (if b = a then map_option f (conn_at s b) else conn_at s b)"
proof -
  assume f: "\<And>c. cn_addr (f c) = cn_addr c"
  have "find (\<lambda>c. cn_addr c = b) (map (\<lambda>c. if cn_addr c = a then f c else c) q) =
      (if b = a then map_option f (find (\<lambda>c. cn_addr c = b) q) else find (\<lambda>c. cn_addr c = b) q)" for q
    by (induction q) (auto simp: f)
  then show ?thesis
    by (simp add: conn_at_def upd_conn_def)
qed

lemma upd_conn_sel [simp]:
  "n_hosts (upd_conn a f s) = n_hosts s" "n_keepalives (upd_conn a f s) = n_keepalives s" "n_active (upd_conn a f s) = n_active s"
  "n_cache (upd_conn a f s) = n_cache s" "n_clients (upd_conn a f s) = n_clients s"
  "n_downloads (upd_conn a f s) = n_downloads s" "n_timers (upd_conn a f s) = n_timers s"
  by (simp_all add: upd_conn_def)

lemma del_conn_sel [simp]:
  "n_hosts (del_conn a s) = n_hosts s" "n_keepalives (del_conn a s) = n_keepalives s" "n_active (del_conn a s) = n_active s"
  "n_cache (del_conn a s) = n_cache s" "n_clients (del_conn a s) = n_clients s"
  by (simp_all add: del_conn_def)

lemma upd_uris_sel [simp]:
  "n_hosts (upd_uris f s) = n_hosts s" "n_keepalives (upd_uris f s) = n_keepalives s" "n_active (upd_uris f s) = n_active s"
  "n_queue (upd_uris f s) = n_queue s" "n_clients (upd_uris f s) = n_clients s" "n_uris (upd_uris f s) = f (n_uris s)"
  "cs_entries (n_cache (upd_uris f s)) = cs_entries (n_cache s)" "conn_at (upd_uris f s) = conn_at s"
  by (simp_all add: upd_uris_def conn_at_def [abs_def])

section \<open>What the invariant sees\<close>

text \<open>The fields of a connection the scheduler works with.\<close>

definition core :: "connection \<Rightarrow> nat \<times> nat \<times> nat \<times> nat option \<times> int \<times> bool \<times> int list \<times> bool" where
  "core c = (cn_addr c, cn_uri c, cn_proxied_uri c, cn_referrer c, cn_state c, cn_running c, cn_pri c, cn_detached c)"

definition same_view :: "net \<Rightarrow> net \<Rightarrow> bool" where
  "same_view s t \<longleftrightarrow>
     map core (n_queue t) = map core (n_queue s) \<and> n_hosts t = n_hosts s \<and> n_keepalives t = n_keepalives s \<and>
     n_active t = n_active s \<and> n_cache t = n_cache s \<and> n_clients t = n_clients s"

lemma same_view_refl [simp]: "same_view s s"
  by (simp add: same_view_def)

lemma same_view_trans [trans]: "same_view s t \<Longrightarrow> same_view t u \<Longrightarrow> same_view s u"
  by (simp add: same_view_def)

lemma same_view_sym: "same_view s t \<Longrightarrow> same_view t s"
  by (simp add: same_view_def)

text \<open>The updates of other fields are not seen.\<close>

lemma same_view_upd_conn: "(\<And>c. core (f c) = core c) \<Longrightarrow> same_view s t \<Longrightarrow> same_view s (upd_conn a f t)"
proof -
  assume f: "\<And>c. core (f c) = core c"
  have "core (if P then f c else c) = core c" for P c
    by (simp add: f)
  then show "same_view s t \<Longrightarrow> ?thesis"
    by (simp add: same_view_def upd_conn_def comp_def)
qed

lemma same_view_fields:
  "same_view s t \<Longrightarrow> same_view s (upd_download d g t)" "same_view s t \<Longrightarrow> same_view s (close_fd fd t)"
  "same_view s t \<Longrightarrow> same_view s (t\<lparr>n_timers := ts\<rparr>)" "same_view s t \<Longrightarrow> same_view s (register_check_queue env t)"
  "same_view s t \<Longrightarrow> same_view s (set_download e g t)" "same_view s t \<Longrightarrow> same_view s (done_socket sk t)"
  by (simp_all add: same_view_def upd_download_def close_fd_def register_check_queue_def set_download_def done_socket_def
      split: option.split)

lemma same_view_downloads: "same_view s t \<Longrightarrow> same_view s (foldl (\<lambda>s d. upd_download d g s) t ds)"
  by (induction ds arbitrary: t) (simp_all add: same_view_fields)

lemma same_view_update_progress: "same_view s t \<Longrightarrow> same_view s (update_connection_progress env a t)"
  by (auto simp: update_connection_progress_def core_def intro!: same_view_upd_conn same_view_fields split: option.split prod.split)

lemma same_view_start_or_stop: "same_view s t \<Longrightarrow> same_view s (start_or_stop_progress env a st t)"
  by (auto simp: start_or_stop_progress_def core_def
      intro!: same_view_upd_conn same_view_fields same_view_update_progress split: option.split prod.split)

lemma same_view_shutdown:
  "same_view s t \<Longrightarrow> same_view s (shutdown_connection_stream a t)" "same_view s t \<Longrightarrow> same_view s (shutdown_cgi_pipes a t)"
  by (cases "conn_at t a"; simp add: shutdown_connection_stream_def shutdown_cgi_pipes_def Let_def same_view_fields
      same_view_upd_conn core_def)+

lemma same_view_release: "same_view s t \<Longrightarrow> same_view s (release_connection a t)"
  unfolding release_connection_def Let_def case_prod_beta
  apply (cases "conn_at t a"; simp only: option.case)
  apply (rule same_view_upd_conn, simp add: core_def)
  apply (rule same_view_fields, rule same_view_shutdown, rule same_view_shutdown)
  apply (rule same_view_upd_conn, simp add: core_def)
  apply (rule same_view_fields, rule same_view_fields, assumption)
  done

lemmas same_view_intros = same_view_upd_conn same_view_fields same_view_downloads same_view_update_progress
  same_view_start_or_stop same_view_release

lemma same_view_conn_at: "same_view s t \<Longrightarrow> map_option core (conn_at t a) = map_option core (conn_at s a)"
proof -
  have "map core q = map core p \<Longrightarrow> map_option core (find (\<lambda>c. cn_addr c = a) q) = map_option core (find (\<lambda>c. cn_addr c = a) p)" for p q
  proof (induction q p rule: list_induct2')
    case (4 x xs y ys)
    then have "cn_addr x = cn_addr y"
      by (simp add: core_def)
    with 4 show ?case
      by simp
  qed simp_all
  from this [of "n_queue t" "n_queue s"] show "same_view s t \<Longrightarrow> ?thesis"
    by (simp add: same_view_def conn_at_def)
qed

section \<open>The invariant\<close>

text \<open>The host a URI names, as far as the comparison of hosts sees it.\<close>

definition hkey :: "uri_cache \<Rightarrow> nat \<Rightarrow> (nat \<times> (nat \<times> string) option) option" where
  "hkey uc a = (let u = uri_of uc a in part True (u_string u) (u_host u) (hostlen u))"

definition hosted :: "uri_cache \<Rightarrow> nat \<Rightarrow> bool" where
  "hosted uc a \<longleftrightarrow> u_host (uri_of uc a) \<noteq> None"

definition conn_wf :: "connection \<Rightarrow> bool" where
  "conn_wf c \<longleftrightarrow> length (cn_pri c) = PRIORITIES \<and> list_all (\<lambda>n. 0 \<le> n) (cn_pri c) \<and> get_priority c < PRIORITIES"

text \<open>A connection that waits does not run, and one that does not wait does; both are in progress.\<close>

definition conn_link :: "connection \<Rightarrow> bool" where
  "conn_link c \<longleftrightarrow> is_in_progress_state (cn_state c) \<and> (cn_running c \<longleftrightarrow> cn_state c \<noteq> S_WAIT)"

definition running :: "connection list \<Rightarrow> nat" where
  "running q = length (filter cn_running q)"

definition users where
  "users uc q k = length (filter (\<lambda>c. cn_running c \<and> hosted uc (cn_uri c) \<and> hkey uc (cn_uri c) = k) q)"

definition queue_ok :: "net \<Rightarrow> bool" where
  "queue_ok s \<longleftrightarrow>
     distinct (map cn_addr (n_queue s)) \<and> list_all conn_wf (n_queue s) \<and> sorted (map get_priority (n_queue s)) \<and>
     n_active s = int (running (n_queue s))"

text \<open>For every host there is one host connection, or none when no connection to it runs; it counts them.\<close>

definition hcount where
  "hcount uc hs k = sum_list (map hc_refs (filter (\<lambda>h. hkey uc (hc_uri h) = k) hs))"

definition hosts_ok :: "uri_cache \<Rightarrow> host_connection list \<Rightarrow> connection list \<Rightarrow> bool" where
  "hosts_ok uc hs q \<longleftrightarrow>
     distinct (map (\<lambda>h. hkey uc (hc_uri h)) hs) \<and> (\<forall>h\<in>set hs. 0 < hc_refs h) \<and> (\<forall>k. hcount uc hs k = int (users uc q k))"

definition conn_refs :: "connection \<Rightarrow> nat list" where
  "conn_refs c = (case cn_referrer c of None \<Rightarrow> [] | Some r \<Rightarrow> [r]) @ [cn_uri c, cn_proxied_uri c]"

definition net_refs :: "net \<Rightarrow> nat list" where
  "net_refs s = concat (map conn_refs (n_queue s)) @ map hc_uri (n_hosts s) @ map ka_uri (n_keepalives s) @ n_clients s"

text \<open>\<open>R\<close> are references whose owner has just left the queue.\<close>

definition uris_ok :: "(string \<Rightarrow> bool) \<Rightarrow> nat list \<Rightarrow> net \<Rightarrow> bool" where
  "uris_ok up R s \<longleftrightarrow>
     uc_ok up (n_uris s) \<and> distinct (map ca_addr (cs_entries (n_cache s))) \<and>
     (\<forall>a. owned (cs_entries (n_cache s)) a + count_list (net_refs s @ R) a \<le> held (n_uris s) a)"

definition limits_ok :: "net_env \<Rightarrow> net \<Rightarrow> bool" where
  "limits_ok env s \<longleftrightarrow> n_active s \<le> nv_max_conns env \<and> (\<forall>h\<in>set (n_hosts s). hc_refs h \<le> nv_max_conns_to_host env)"

definition up_of :: "net_env \<Rightarrow> string \<Rightarrow> bool" where
  "up_of env = penv_user_program (cv_proxy (nv_cache env))"

text \<open>The invariant but for the state of the connections at the addresses \<open>X\<close>, and the invariant.\<close>

definition inv_but :: "net_env \<Rightarrow> nat list \<Rightarrow> nat set \<Rightarrow> net \<Rightarrow> bool" where
  "inv_but env R X s \<longleftrightarrow>
     queue_ok s \<and> hosts_ok (n_uris s) (n_hosts s) (n_queue s) \<and> uris_ok (up_of env) R s \<and> limits_ok env s \<and>
     (\<forall>k\<in>set (n_keepalives s). ka_done k = None) \<and> distinct (map ka_addr (n_keepalives s)) \<and>
     (\<forall>c\<in>set (n_queue s). cn_addr c \<notin> X \<longrightarrow> conn_link c)"

abbreviation net_inv :: "net_env \<Rightarrow> nat list \<Rightarrow> net \<Rightarrow> bool" where
  "net_inv env R s \<equiv> inv_but env R {} s"

text \<open>What \<^verbatim>\<open>check_queue_bugs\<close> asserts.\<close>

definition check_queue_bugs :: "net \<Rightarrow> bool" where
  "check_queue_bugs s \<longleftrightarrow>
     sorted (map get_priority (n_queue s)) \<and> list_all (\<lambda>c. is_in_progress_state (cn_state c)) (n_queue s) \<and>
     int (length (filter cn_running (n_queue s))) = n_active s"

text \<open>It depends on what the view shows.\<close>

lemma core_eqD:
  "core c = core d \<Longrightarrow> cn_addr c = cn_addr d \<and> cn_uri c = cn_uri d \<and> cn_running c = cn_running d \<and> cn_pri c = cn_pri d \<and>
     conn_refs c = conn_refs d \<and> conn_wf c = conn_wf d \<and> conn_link c = conn_link d \<and> get_priority c = get_priority d \<and>
     cn_state c = cn_state d \<and> cn_detached c = cn_detached d"
  by (auto simp: core_def conn_refs_def conn_wf_def conn_link_def get_priority_def)

lemma core_factor:
  assumes "\<And>c d. core c = core d \<Longrightarrow> f c = f d"
  obtains g where "f = (\<lambda>c. g (core c))"
proof
  show "f = (\<lambda>c. (\<lambda>x. f (SOME d. core d = x)) (core c))"
  proof
    fix c
    have "core (SOME d. core d = core c) = core c"
      by (rule someI) (rule refl)
    then show "f c = f (SOME d. core d = core c)"
      by (rule assms [symmetric])
  qed
qed

lemma map_core_cong:
  assumes "map core p = map core q" "\<And>c d. core c = core d \<Longrightarrow> f c = f d"
  shows "map f p = map f q"
proof -
  obtain g where f: "f = (\<lambda>c. g (core c))"
    using core_factor [of f] assms(2) by blast
  have "map f r = map g (map core r)" for r
    by (simp add: f)
  from this [of p] this [of q] assms(1) show ?thesis
    by (simp only:)
qed

lemma length_filter_core:
  assumes "map core p = map core q" "\<And>c d. core c = core d \<Longrightarrow> P c = P d"
  shows "length (filter P p) = length (filter P q)"
proof -
  have "length (filter P r) = length (filter id (map P r))" for r
    by (simp add: filter_map)
  moreover have "map P p = map P q"
    by (rule map_core_cong [OF assms])
  ultimately show ?thesis
    by (simp only:)
qed

lemma ball_core:
  assumes "map core p = map core q" "\<And>c d. core c = core d \<Longrightarrow> P c = P d"
  shows "(\<forall>c\<in>set p. P c) = (\<forall>c\<in>set q. P c)"
proof -
  have "(\<forall>c\<in>set r. P c) = (\<forall>b\<in>set (map P r). b)" for r
    by simp
  moreover have "map P p = map P q"
    by (rule map_core_cong [OF assms])
  ultimately show ?thesis
    by (simp only:)
qed

lemma inv_view:
  assumes "same_view s t"
  shows "inv_but env R X t = inv_but env R X s"
proof -
  have q: "map core (n_queue t) = map core (n_queue s)"
    using assms by (simp add: same_view_def)
  note m = map_core_cong [OF q] note l = length_filter_core [OF q] note b = ball_core [OF q]
  have "map cn_addr (n_queue t) = map cn_addr (n_queue s)" "map get_priority (n_queue t) = map get_priority (n_queue s)"
    "map conn_refs (n_queue t) = map conn_refs (n_queue s)" "running (n_queue t) = running (n_queue s)"
    "users uc (n_queue t) k = users uc (n_queue s) k"
    "(\<forall>c\<in>set (n_queue t). conn_wf c) = (\<forall>c\<in>set (n_queue s). conn_wf c)"
    "(\<forall>c\<in>set (n_queue t). cn_addr c \<notin> X \<longrightarrow> conn_link c) = (\<forall>c\<in>set (n_queue s). cn_addr c \<notin> X \<longrightarrow> conn_link c)" for uc k
    unfolding running_def users_def by (intro m l b, (auto dest: core_eqD)[1])+
  then show ?thesis
    using assms unfolding inv_but_def queue_ok_def hosts_ok_def uris_ok_def net_refs_def limits_ok_def list_all_iff
    by (simp add: same_view_def)
qed

section \<open>References to URIs\<close>

lemma inv_perm: "mset R = mset R' \<Longrightarrow> inv_but env R X s = inv_but env R' X s"
  by (simp add: inv_but_def uris_ok_def count_list_append flip: count_mset)

lemma users_simps [simp]:
  "users uc [] k = 0" "users uc (p @ q) k = users uc p k + users uc q k"
  "users uc (c # q) k = (if cn_running c \<and> hosted uc (cn_uri c) \<and> hkey uc (cn_uri c) = k then 1 else 0) + users uc q k"
  by (simp_all add: users_def)

lemma running_simps [simp]:
  "running [] = 0" "running (p @ q) = running p + running q" "running (c # q) = (if cn_running c then 1 else 0) + running q"
  by (simp_all add: running_def)

lemma hosts_ok_cong:
  assumes "\<And>a. a \<in> cn_uri ` set q \<union> hc_uri ` set hs \<Longrightarrow> uri_of uc' a = uri_of uc a"
  shows "hosts_ok uc' hs q = hosts_ok uc hs q"
proof -
  have "users uc' q k = users uc q k" for k
    unfolding users_def by (rule arg_cong [where f = length], rule filter_cong) (auto simp: hosted_def hkey_def assms)
  moreover have "map (\<lambda>h. hkey uc' (hc_uri h)) hs = map (\<lambda>h. hkey uc (hc_uri h)) hs"
    by (simp add: hkey_def assms)
  moreover have "hcount uc' hs k = hcount uc hs k" for k
    unfolding hcount_def by (rule arg_cong [where f = "\<lambda>xs. sum_list (map hc_refs xs)"], rule filter_cong) (auto simp: hkey_def assms)
  ultimately show ?thesis
    unfolding hosts_ok_def by (simp only:)
qed

lemma refs_mem:
  "c \<in> set (n_queue s) \<Longrightarrow> set (conn_refs c) \<subseteq> set (net_refs s)" "h \<in> set (n_hosts s) \<Longrightarrow> hc_uri h \<in> set (net_refs s)"
  "k \<in> set (n_keepalives s) \<Longrightarrow> ka_uri k \<in> set (net_refs s)" "set (n_clients s) \<subseteq> set (net_refs s)"
  by (auto simp: net_refs_def)

lemma cn_uri_mem [simp]: "cn_uri c \<in> set (conn_refs c)"
  by (simp add: conn_refs_def)

lemma count_list_pos: "x \<in> set xs \<Longrightarrow> 0 < count_list xs x"
  by (induction xs) auto

lemma uris_held:
  assumes "uris_ok up R s" "a \<in> set (net_refs s @ R)"
  shows "0 < held (n_uris s) a"
proof -
  have "0 < count_list (net_refs s @ R) a"
    using assms(2) by (rule count_list_pos)
  with assms(1) show ?thesis
    unfolding uris_ok_def by (metis add_gr_0 dual_order.strict_trans1)
qed

text \<open>An operation on the URI cache that leaves the URIs in use where they are and accounts for what it takes and
  gives back keeps the invariant.\<close>

lemma inv_uris:
  assumes "inv_but env R X s" "uris_ok (up_of env) R' (upd_uris f s)"
    and "\<And>a. a \<in> set (net_refs s) \<Longrightarrow> uri_of (f (n_uris s)) a = uri_of (n_uris s) a"
  shows "inv_but env R' X (upd_uris f s)"
proof -
  have "hosts_ok (f (n_uris s)) (n_hosts s) (n_queue s)"
  proof (subst hosts_ok_cong)
    show "hosts_ok (n_uris s) (n_hosts s) (n_queue s)"
      using assms(1) by (simp add: inv_but_def)
    fix a assume "a \<in> cn_uri ` set (n_queue s) \<union> hc_uri ` set (n_hosts s)"
    then show "uri_of (f (n_uris s)) a = uri_of (n_uris s) a"
      using refs_mem(1,2) cn_uri_mem by (intro assms(3)) blast
  qed
  with assms(1,2) show ?thesis
    by (simp add: inv_but_def queue_ok_def limits_ok_def)
qed

lemma net_refs_upd_uris [simp]: "net_refs (upd_uris f s) = net_refs s"
  by (simp add: net_refs_def)

lemma uri_at_reference [simp]: "uri_at (get_uri_reference a uc) = uri_at uc"
  by (auto simp: get_uri_reference_def add_refs_def uri_at_def fun_eq_iff option.map_comp comp_def)

lemma inv_acquire:
  assumes "inv_but env R X s" "b \<in> set (net_refs s @ R)"
  shows "inv_but env (b # R) X (upd_uris (get_uri_reference b) s)"
proof (rule inv_uris [OF assms(1)])
  have ok: "uris_ok (up_of env) R s"
    using assms(1) by (simp add: inv_but_def)
  note acq = ur.acquire [of "up_of env" "n_uris s" b] uris_held [OF ok assms(2)]
  then show "uris_ok (up_of env) (b # R) (upd_uris (get_uri_reference b) s)"
    using ok by (auto simp: uris_ok_def count_list_append)
qed (simp add: uri_of_def)

lemma inv_release:
  assumes "inv_but env (b # R) X s"
  shows "inv_but env R X (upd_uris (done_uri b) s)" "\<And>a. a \<in> set (net_refs s @ R) \<Longrightarrow> uri_of (done_uri b (n_uris s)) a = uri_of (n_uris s) a"
proof -
  have ok: "uris_ok (up_of env) (b # R) s"
    using assms(1) by (simp add: inv_but_def)
  then have b: "uc_ok (up_of env) (n_uris s)" "0 < held (n_uris s) b"
    using uris_held [OF ok, of b] by (simp_all add: uris_ok_def)
  note d = done_uri_post [OF this]
  show same: "uri_of (done_uri b (n_uris s)) a = uri_of (n_uris s) a" if "a \<in> set (net_refs s @ R)" for a
  proof (cases "a = b")
    case True
    have "count_list (net_refs s @ b # R) b \<le> held (n_uris s) b"
      using ok unfolding uris_ok_def by (metis add_leD2)
    with that True have "held (n_uris s) b \<noteq> 1"
      using count_list_pos [OF that] by (auto simp: count_list_append)
    with d show ?thesis
      by (simp add: uri_of_def)
  next
    case False
    with d show ?thesis
      by (simp add: uri_of_def)
  qed
  have "owned (cs_entries (n_cache s)) a + count_list (net_refs s @ R) a \<le> held (done_uri b (n_uris s)) a" for a
  proof -
    have "owned (cs_entries (n_cache s)) a + count_list (net_refs s @ b # R) a \<le> held (n_uris s) a"
      using ok by (simp add: uris_ok_def)
    with d show ?thesis
      by (cases "a = b") (auto simp: count_list_append)
  qed
  then have "uris_ok (up_of env) R (upd_uris (done_uri b) s)"
    using ok d by (simp add: uris_ok_def)
  then show "inv_but env R X (upd_uris (done_uri b) s)"
    by (rule inv_uris [OF assms]) (rule same, simp)
qed

section \<open>Connections leave and enter the queue\<close>

lemma inv_del_conn:
  assumes "inv_but env R X s" "conn_at s a = Some c" "\<not> cn_running c"
  shows "inv_but env (conn_refs c @ R) (X - {a}) (del_conn a s)"
proof -
  have q: "queue_ok s" "hosts_ok (n_uris s) (n_hosts s) (n_queue s)"
    using assms(1) by (simp_all add: inv_but_def)
  then obtain xs ys where sp: "n_queue s = xs @ c # ys" "cn_addr c = a" "\<forall>d\<in>set (xs @ ys). cn_addr d \<noteq> a"
    using conn_at_Some [OF _ assms(2)] by (auto simp: queue_ok_def)
  note del = conn_at_split(3) [OF sp]
  have "queue_ok (del_conn a s)"
    using q(1) assms(3) by (simp add: queue_ok_def del sp(1) sorted_append)
  moreover have "hosts_ok (n_uris s) (n_hosts s) (xs @ ys)"
    using q(2) assms(3) by (simp add: hosts_ok_def sp(1))
  moreover have "uris_ok (up_of env) (conn_refs c @ R) (del_conn a s)"
    using assms(1) by (simp add: inv_but_def uris_ok_def net_refs_def del sp(1) count_list_append ac_simps)
  ultimately show ?thesis
    using assms(1) sp by (auto simp: inv_but_def del limits_ok_def)
qed

lemma set_enqueue: "set (enqueue c q) = insert c (set q)"
  by (induction q) auto

lemma mset_enqueue: "mset (enqueue c q) = add_mset c (mset q)"
  by (induction q) auto

lemma sorted_enqueue: "sorted (map get_priority q) \<Longrightarrow> sorted (map get_priority (enqueue c q))"
  by (induction q) (auto simp: set_enqueue)

lemma enqueue_split: "\<exists>xs ys. q = xs @ ys \<and> enqueue c q = xs @ c # ys"
proof (induction q)
  case (Cons d q)
  then obtain xs ys where "q = xs @ ys" "enqueue c q = xs @ c # ys"
    by blast
  then show ?case
    by (cases "get_priority d > get_priority c") (auto intro: exI [of _ "d # xs"] exI [of _ "[]"])
qed simp

lemma inv_enqueue:
  assumes "inv_but env (conn_refs c @ R) X s" "conn_wf c" "conn_at s (cn_addr c) = None" "\<not> cn_running c"
    and "cn_addr c \<notin> X \<Longrightarrow> conn_link c"
  shows "inv_but env R X (add_to_queue c s)"
proof -
  obtain xs ys where q: "n_queue s = xs @ ys" "enqueue c (n_queue s) = xs @ c # ys"
    using enqueue_split by blast
  have "sorted (map get_priority (xs @ c # ys))"
    using sorted_enqueue [of "n_queue s" c] assms(1) q by (simp add: inv_but_def queue_ok_def)
  then have "queue_ok (add_to_queue c s)"
    using assms(1-4) q by (auto simp: inv_but_def queue_ok_def add_to_queue_def conn_at_None)
  moreover have "hosts_ok (n_uris s) (n_hosts s) (xs @ c # ys)"
    using assms(1,4) q by (simp add: inv_but_def hosts_ok_def)
  moreover have "uris_ok (up_of env) R (add_to_queue c s)"
    using assms(1) q by (simp add: inv_but_def uris_ok_def net_refs_def add_to_queue_def count_list_append ac_simps)
  ultimately show ?thesis
    using assms(1,5) q by (auto simp: inv_but_def add_to_queue_def limits_ok_def)
qed

text \<open>A change of one connection that keeps its owners, its URIs and whether it runs.\<close>

lemma inv_upd_conn:
  assumes "inv_but env R X s" "conn_at s a = Some c"
    and "cn_addr (f c) = a" "conn_refs (f c) = conn_refs c" "cn_uri (f c) = cn_uri c" "cn_pri (f c) = cn_pri c" "cn_running (f c) = cn_running c"
    and "a \<notin> Y \<Longrightarrow> conn_link (f c)" "X \<subseteq> insert a Y"
  shows "inv_but env R Y (upd_conn a f s)"
proof -
  have q: "queue_ok s" "hosts_ok (n_uris s) (n_hosts s) (n_queue s)"
    using assms(1) by (simp_all add: inv_but_def)
  then obtain xs ys where sp: "n_queue s = xs @ c # ys" "cn_addr c = a" "\<forall>d\<in>set (xs @ ys). cn_addr d \<noteq> a"
    using conn_at_Some [OF _ assms(2)] by (auto simp: queue_ok_def)
  note upd = conn_at_split(2) [OF sp, of f]
  have wf: "get_priority (f c) = get_priority c" "conn_wf (f c) = conn_wf c"
    using assms(6) by (simp_all add: get_priority_def conn_wf_def)
  have "queue_ok (upd_conn a f s)"
    using q(1) assms(3,7) wf sp by (simp add: queue_ok_def upd)
  moreover have "hosts_ok (n_uris s) (n_hosts s) (xs @ f c # ys)"
    using q(2) assms(5,7) by (simp add: hosts_ok_def sp(1))
  moreover have "uris_ok (up_of env) R (upd_conn a f s)"
    using assms(1,4) by (simp add: inv_but_def uris_ok_def net_refs_def upd sp(1) count_list_append)
  moreover have "\<forall>d\<in>set (xs @ f c # ys). cn_addr d \<notin> Y \<longrightarrow> conn_link d"
    using assms(1,3,8,9) sp by (auto simp: inv_but_def)
  ultimately show ?thesis
    using assms(1) by (simp add: inv_but_def upd limits_ok_def)
qed

lemma inv_weaken: "inv_but env R X s \<Longrightarrow> X \<subseteq> Y \<Longrightarrow> inv_but env R Y s"
  by (auto simp: inv_but_def)

section \<open>Host connections\<close>

lemma wants_host:
  "wants URI_HOST URI_HOST" "\<not> wants URI_HOST URI_PROTOCOL" "\<not> wants URI_HOST URI_IP_FAMILY" "\<not> wants URI_HOST URI_USER"
  "\<not> wants URI_HOST URI_PASSWORD" "\<not> wants URI_HOST URI_PORT" "\<not> wants URI_HOST URI_DATA" "\<not> wants URI_HOST URI_FRAGMENT"
  "\<not> wants URI_HOST URI_POST"
  by (simp_all add: wants_def uri_bits)

lemma compare_host: "compare_uri (x = y) (uri_of uc x) (uri_of uc y) URI_HOST \<longleftrightarrow> hkey uc x = hkey uc y"
proof -
  have "URI_HOST \<noteq> 0"
    by (simp add: uri_bits)
  then show ?thesis
    by (cases "x = y") (simp add: compare_uri_def, simp add: compare_uri_def wants_host hkey_def Let_def part_eq)
qed

lemma get_host_connection_key:
  "get_host_connection s c =
     (if hosted (n_uris s) (cn_uri c)
      then find_index (\<lambda>h. hkey (n_uris s) (hc_uri h) = hkey (n_uris s) (cn_uri c)) (n_hosts s) else None)"
  by (simp add: get_host_connection_def conn_uri_def hosted_def compare_host)

lemma hcount_simps [simp]:
  "hcount uc [] k = 0" "hcount uc (hs @ gs) k = hcount uc hs k + hcount uc gs k"
  "hcount uc (h # hs) k = (if hkey uc (hc_uri h) = k then hc_refs h else 0) + hcount uc hs k"
  by (simp_all add: hcount_def)

lemma hcount_mem:
  "distinct (map (\<lambda>h. hkey uc (hc_uri h)) hs) \<Longrightarrow> h \<in> set hs \<Longrightarrow> hcount uc hs (hkey uc (hc_uri h)) = hc_refs h"
proof (induction hs)
  case (Cons g hs)
  have "k \<notin> (\<lambda>h. hkey uc (hc_uri h)) ` set hs \<Longrightarrow> hcount uc hs k = 0" for k
    by (induction hs) auto
  with Cons show ?case
    by (auto simp: rev_image_eqI)
qed simp

lemma hcount_none: "\<forall>h\<in>set hs. hkey uc (hc_uri h) \<noteq> k \<Longrightarrow> hcount uc hs k = 0"
  by (induction hs) auto

text \<open>One more or one less connection to the host of an entry.\<close>

lemma nth_parts:
  assumes "i < length hs"
  obtains gs js where "hs = gs @ hs ! i # js" "\<And>h. hs[i := h] = gs @ h # js" "del_nth hs i = gs @ js"
proof
  show "hs = take i hs @ hs ! i # drop (Suc i) hs"
    using assms by (rule id_take_nth_drop)
  show "hs[i := h] = take i hs @ h # drop (Suc i) hs" for h
    using assms by (rule upd_conv_take_nth_drop)
qed (simp add: del_nth_def)

lemma hosts_add_old:
  assumes "hosts_ok uc hs (xs @ c # ys)" "\<not> cn_running c" "cn_running c'" "cn_uri c' = cn_uri c" "hosted uc (cn_uri c)"
    and "i < length hs" "hkey uc (hc_uri (hs ! i)) = hkey uc (cn_uri c)"
  shows "hosts_ok uc (hs[i := (hs ! i)\<lparr>hc_refs := hc_refs (hs ! i) + 1\<rparr>]) (xs @ c' # ys)"
proof -
  obtain gs js where p: "hs = gs @ hs ! i # js" "\<And>h. hs[i := h] = gs @ h # js"
    using nth_parts [OF assms(6)] by metis
  have cnt: "hcount uc (hs[i := (hs ! i)\<lparr>hc_refs := hc_refs (hs ! i) + 1\<rparr>]) k =
      hcount uc hs k + (if hkey uc (cn_uri c) = k then 1 else 0)" for k
    using assms(7) by (subst p(2), subst (3) p(1)) simp
  have "\<forall>h\<in>set hs. 0 < hc_refs h"
    using assms(1) by (simp add: hosts_ok_def)
  moreover from this have "0 < hc_refs (hs ! i)"
    using assms(6) by simp
  ultimately have "\<forall>h\<in>set (hs[i := (hs ! i)\<lparr>hc_refs := hc_refs (hs ! i) + 1\<rparr>]). 0 < hc_refs h"
    by (auto dest!: set_update_subset_insert [THEN subsetD])
  moreover have "map (\<lambda>h. hkey uc (hc_uri h)) (gs @ (hs ! i)\<lparr>hc_refs := r\<rparr> # js) = map (\<lambda>h. hkey uc (hc_uri h)) (gs @ hs ! i # js)" for r
    by simp
  then have "map (\<lambda>h. hkey uc (hc_uri h)) (hs[i := (hs ! i)\<lparr>hc_refs := r\<rparr>]) = map (\<lambda>h. hkey uc (hc_uri h)) hs" for r
    by (simp only: p(2) p(1) [symmetric])
  ultimately show ?thesis
    using assms(1-5) cnt by (auto simp: hosts_ok_def)
qed

lemma hosts_add_new:
  assumes "hosts_ok uc hs (xs @ c # ys)" "\<not> cn_running c" "cn_running c'" "cn_uri c' = cn_uri c" "hosted uc (cn_uri c)"
    and "\<forall>h\<in>set hs. hkey uc (hc_uri h) \<noteq> hkey uc (cn_uri c)"
  shows "hosts_ok uc (\<lparr>hc_uri = cn_uri c, hc_refs = 1\<rparr> # hs) (xs @ c' # ys)"
  using assms by (auto simp: hosts_ok_def rev_image_eqI)

lemma hosts_del:
  assumes "hosts_ok uc hs (xs @ c # ys)" "cn_running c" "\<not> cn_running c'" "cn_uri c' = cn_uri c" "hosted uc (cn_uri c)"
    and "i < length hs" "hkey uc (hc_uri (hs ! i)) = hkey uc (cn_uri c)"
  shows "hc_refs (hs ! i) \<noteq> 1 \<Longrightarrow> hosts_ok uc (hs[i := (hs ! i)\<lparr>hc_refs := hc_refs (hs ! i) - 1\<rparr>]) (xs @ c' # ys)"
    and "hc_refs (hs ! i) = 1 \<Longrightarrow> hosts_ok uc (del_nth hs i) (xs @ c' # ys)"
proof -
  obtain gs js where p: "hs = gs @ hs ! i # js" "\<And>h. hs[i := h] = gs @ h # js" "del_nth hs i = gs @ js"
    using nth_parts [OF assms(6)] by metis
  define h where "h = hs ! i"
  have hs: "hs = gs @ h # js"
    using p(1) by (simp add: h_def)
  have h: "0 < hc_refs h" "hkey uc (hc_uri h) = hkey uc (cn_uri c)"
    using assms(1,7) by (simp add: hosts_ok_def hs, simp only: h_def)
  have cnt: "hcount uc (gs @ js) k = hcount uc hs k - (if hkey uc (cn_uri c) = k then hc_refs h else 0)" for k
    using h(2) by (simp add: hs)
  have ok: "distinct (map (\<lambda>h. hkey uc (hc_uri h)) (gs @ h # js))" "\<forall>g\<in>set (gs @ js). 0 < hc_refs g"
    "\<And>k. hcount uc hs k = int (users uc (xs @ c # ys) k)"
    using assms(1) by (simp_all add: hosts_ok_def hs)
  show "hosts_ok uc (hs[i := (hs ! i)\<lparr>hc_refs := hc_refs (hs ! i) - 1\<rparr>]) (xs @ c' # ys)" if "hc_refs (hs ! i) \<noteq> 1"
  proof -
    have "hcount uc (gs @ h\<lparr>hc_refs := hc_refs h - 1\<rparr> # js) k = hcount uc hs k - (if hkey uc (cn_uri c) = k then 1 else 0)" for k
      using cnt [of k] h(2) by (cases "hkey uc (cn_uri c) = k") simp_all
    with ok h that assms(2-5) show ?thesis
      unfolding p(2) h_def [symmetric] by (auto simp: hosts_ok_def)
  qed
  show "hosts_ok uc (del_nth hs i) (xs @ c' # ys)" if "hc_refs (hs ! i) = 1"
    using ok cnt that assms(2-5) unfolding p(3) h_def [symmetric] by (auto simp: hosts_ok_def)
qed


lemma uris_ok_perm:
  "uris_ok up R s \<Longrightarrow> n_cache t = n_cache s \<Longrightarrow> mset (net_refs t @ R') = mset (net_refs s @ R) \<Longrightarrow> uris_ok up R' t"
  by (simp add: uris_ok_def flip: count_mset)

lemma cn_uri_ref: "c \<in> set (n_queue s) \<Longrightarrow> cn_uri c \<in> set (net_refs s)"
  using refs_mem(1) [of c s] cn_uri_mem [of c] by blast

lemma add_host_old:
  "get_host_connection s c = Some i \<Longrightarrow>
     add_host_connection env c s = (True, s\<lparr>n_hosts := (n_hosts s)[i := (n_hosts s ! i)\<lparr>hc_refs := hc_refs (n_hosts s ! i) + 1\<rparr>]\<rparr>)"
  by (simp add: add_host_connection_def)

definition has_capacity :: "net_env \<Rightarrow> net \<Rightarrow> connection \<Rightarrow> bool" where
  "has_capacity env s c \<longleftrightarrow>
     n_active s < nv_max_conns env \<and>
     (case get_host_connection s c of None \<Rightarrow> True | Some i \<Rightarrow> hc_refs (n_hosts s ! i) < nv_max_conns_to_host env)"

definition start_running :: "nat \<Rightarrow> net \<Rightarrow> net" where
  "start_running a s = upd_conn a (\<lambda>c. c\<lparr>cn_running := True\<rparr>) (s\<lparr>n_active := n_active s + 1\<rparr>)"

text \<open>What \<^verbatim>\<open>add_host_connection\<close> does when it succeeds for a connection \<open>c\<close> that will run as \<open>c'\<close>.\<close>

definition host_added :: "net_env \<Rightarrow> nat list \<Rightarrow> net \<Rightarrow> net \<Rightarrow> connection list \<Rightarrow> bool" where
  "host_added env R s t q \<longleftrightarrow>
     n_queue t = n_queue s \<and> n_keepalives t = n_keepalives s \<and> n_active t = n_active s \<and> n_clients t = n_clients s \<and>
     n_cache t = (n_cache s)\<lparr>cs_uris := n_uris t\<rparr> \<and> uri_of (n_uris t) = uri_of (n_uris s) \<and> uris_ok (up_of env) R t \<and>
     hosts_ok (n_uris s) (n_hosts t) q \<and> (\<forall>h\<in>set (n_hosts t). hc_refs h \<le> nv_max_conns_to_host env)"

lemma add_host_effect:
  assumes "hosts_ok (n_uris s) (n_hosts s) (n_queue s)" "uris_ok (up_of env) R s" "limits_ok env s"
    and "n_queue s = xs @ c # ys" "\<not> cn_running c" "has_capacity env s c" "1 \<le> nv_max_conns_to_host env"
    and "add_host_connection env c s = (True, t)"
  shows "host_added env R s t (xs @ c\<lparr>cn_running := True\<rparr> # ys)"
proof -
  let ?c = "c\<lparr>cn_running := True\<rparr>" and ?uc = "n_uris s"
  note ok = assms(1) [unfolded assms(4)]
  consider (old) i where "get_host_connection s c = Some i" | (new) "get_host_connection s c = None" "hosted ?uc (cn_uri c)"
    | (none) "get_host_connection s c = None" "\<not> hosted ?uc (cn_uri c)"
    by (cases "get_host_connection s c") auto
  then show ?thesis
  proof cases
    case old
    then have h: "hosted ?uc (cn_uri c)" "i < length (n_hosts s)" "hkey ?uc (hc_uri (n_hosts s ! i)) = hkey ?uc (cn_uri c)"
      using find_index_Some unfolding get_host_connection_key by (auto split: if_splits)
    have t: "t = s\<lparr>n_hosts := (n_hosts s)[i := (n_hosts s ! i)\<lparr>hc_refs := hc_refs (n_hosts s ! i) + 1\<rparr>]\<rparr>"
      using assms(8) add_host_old [OF old] by simp
    have "map hc_uri (n_hosts t) = map hc_uri (n_hosts s)"
      using h(2) by (simp add: t map_update list_update_same_conv)
    then have "uris_ok (up_of env) R t"
      using assms(2) by (simp add: uris_ok_def net_refs_def t)
    then show ?thesis
      using hosts_add_old [OF ok assms(5) _ _ h, of ?c] assms(3,6) old
      by (auto simp: host_added_def t limits_ok_def has_capacity_def dest!: set_update_subset_insert [THEN subsetD])
  next
    case new
    have t: "t = upd_uris (get_uri_reference (cn_uri c)) (s\<lparr>n_hosts := \<lparr>hc_uri = cn_uri c, hc_refs = 1\<rparr> # n_hosts s\<rparr>)"
      using assms(8) new by (auto simp: add_host_connection_def hosted_def conn_uri_def split: if_splits)
    have fresh: "\<forall>h\<in>set (n_hosts s). hkey ?uc (hc_uri h) \<noteq> hkey ?uc (cn_uri c)"
      using new by (simp add: get_host_connection_key find_index_None)
    have "0 < held ?uc (cn_uri c)"
      using uris_held [OF assms(2), of "cn_uri c"] cn_uri_ref [of c s] assms(4) by simp
    then have "uris_ok (up_of env) R t"
      using assms(2) ur.acquire [of "up_of env" ?uc "cn_uri c"] by (auto simp: uris_ok_def t net_refs_def count_list_append)
    then show ?thesis
      using hosts_add_new [OF ok assms(5) _ _ new(2) fresh, of ?c] assms(3,7)
      by (simp add: host_added_def t uri_of_def [abs_def] limits_ok_def upd_uris_def)
  next
    case none
    then have "t = s"
      using assms(8) by (simp add: add_host_connection_def hosted_def conn_uri_def)
    moreover have "hosts_ok ?uc (n_hosts s) (xs @ ?c # ys)"
      using ok assms(5) none(2) by (simp add: hosts_ok_def)
    ultimately show ?thesis
      using assms(2,3) by (simp add: host_added_def limits_ok_def)
  qed
qed

lemma add_host_inv:
  assumes "inv_but env R X s" "conn_at s a = Some c" "\<not> cn_running c" "has_capacity env s c" "1 \<le> nv_max_conns_to_host env"
    and "add_host_connection env c s = (True, t)"
  shows "inv_but env R (insert a X) (start_running a t)" "n_queue t = n_queue s" "n_keepalives t = n_keepalives s"
    "uri_of (n_uris t) = uri_of (n_uris s)" "n_active t = n_active s"
proof -
  have inv: "queue_ok s" "hosts_ok (n_uris s) (n_hosts s) (n_queue s)" "uris_ok (up_of env) R s" "limits_ok env s"
    using assms(1) by (simp_all add: inv_but_def)
  then obtain xs ys where sp: "n_queue s = xs @ c # ys" "cn_addr c = a" "\<forall>d\<in>set (xs @ ys). cn_addr d \<noteq> a"
    using conn_at_Some [OF _ assms(2)] by (auto simp: queue_ok_def)
  let ?c = "c\<lparr>cn_running := True\<rparr>"
  have t: "n_queue t = xs @ c # ys" "n_keepalives t = n_keepalives s" "n_active t = n_active s" "n_clients t = n_clients s"
    "n_cache t = (n_cache s)\<lparr>cs_uris := n_uris t\<rparr>" "uri_of (n_uris t) = uri_of (n_uris s)" "uris_ok (up_of env) R t"
    "hosts_ok (n_uris s) (n_hosts t) (xs @ ?c # ys)" "\<forall>h\<in>set (n_hosts t). hc_refs h \<le> nv_max_conns_to_host env"
    using add_host_effect [OF inv(2-4) sp(1) assms(3-6)] sp(1) by (simp_all add: host_added_def)
  then show "n_queue t = n_queue s" "n_keepalives t = n_keepalives s" "n_active t = n_active s"
    "uri_of (n_uris t) = uri_of (n_uris s)"
    using sp(1) by simp_all
  have q: "n_queue (t\<lparr>n_active := n_active t + 1\<rparr>) = xs @ c # ys"
    using t(1) by simp
  have start: "n_queue (start_running a t) = xs @ ?c # ys"
    unfolding start_running_def by (rule conn_at_split(2) [OF q sp(2,3)])
  have pri: "get_priority ?c = get_priority c" "conn_wf ?c = conn_wf c" "conn_refs ?c = conn_refs c"
    by (simp_all add: get_priority_def conn_wf_def conn_refs_def)
  have "queue_ok (start_running a t)"
    using inv(1) t(3) pri assms(3) by (simp add: queue_ok_def start sp(1)) (simp add: start_running_def)
  moreover have "hosts_ok (n_uris t) (n_hosts t) (xs @ ?c # ys)"
    using t(6,8) hosts_ok_cong [of "xs @ ?c # ys" "n_hosts t" "n_uris t" "n_uris s"] by simp
  moreover have "uris_ok (up_of env) R (start_running a t)"
    using t(7) pri(3) t(1) by (simp add: uris_ok_def net_refs_def start) (simp add: start_running_def)
  moreover have "limits_ok env (start_running a t)"
    using t(3,9) assms(4) by (simp add: limits_ok_def start_running_def has_capacity_def)
  ultimately show "inv_but env R (insert a X) (start_running a t)"
    using assms(1) t(2) sp unfolding inv_but_def start by (auto simp: start_running_def)
qed

text \<open>The other way round: a connection has stopped running and gives up its share of the host connection.\<close>

definition stop_running :: "nat \<Rightarrow> net \<Rightarrow> net" where
  "stop_running a s =
     (upd_conn a (\<lambda>c. c\<lparr>cn_running := False\<rparr>) s)\<lparr>n_active := (if n_active s - 1 < 0 then 0 else n_active s - 1)\<rparr>"

lemma stop_running_inv:
  assumes "inv_but env R X s" "conn_at s a = Some c" "cn_running c" "a \<in> X"
  obtains xs ys where "n_queue s = xs @ c # ys" "n_queue (stop_running a s) = xs @ c\<lparr>cn_running := False\<rparr> # ys"
    "queue_ok (stop_running a s)" "n_active (stop_running a s) = n_active s - 1" "uris_ok (up_of env) R (stop_running a s)"
    "\<forall>d\<in>set (xs @ c\<lparr>cn_running := False\<rparr> # ys). cn_addr d \<notin> X \<longrightarrow> conn_link d"
proof -
  have inv: "queue_ok s" "uris_ok (up_of env) R s"
    using assms(1) by (simp_all add: inv_but_def)
  then obtain xs ys where sp: "n_queue s = xs @ c # ys" "cn_addr c = a" "\<forall>d\<in>set (xs @ ys). cn_addr d \<noteq> a"
    using conn_at_Some [OF _ assms(2)] by (auto simp: queue_ok_def)
  let ?c = "c\<lparr>cn_running := False\<rparr>"
  have q: "n_queue (stop_running a s) = xs @ ?c # ys"
    using conn_at_split(2) [OF sp, of "\<lambda>c. c\<lparr>cn_running := False\<rparr>"] by (simp add: stop_running_def)
  have pri: "get_priority ?c = get_priority c" "conn_wf ?c = conn_wf c" "conn_refs ?c = conn_refs c"
    by (simp_all add: get_priority_def conn_wf_def conn_refs_def)
  have act: "n_active s = int (running (n_queue s))"
    using inv(1) by (simp add: queue_ok_def)
  have "queue_ok (stop_running a s)"
    using inv(1) pri assms(3) act by (simp add: queue_ok_def q sp(1)) (simp add: stop_running_def)
  moreover have "n_active (stop_running a s) = n_active s - 1"
    using act assms(3) by (simp add: stop_running_def sp(1))
  moreover have "uris_ok (up_of env) R (stop_running a s)"
    using inv(2) pri(3) by (simp add: uris_ok_def net_refs_def q sp(1)) (simp add: stop_running_def)
  moreover have "\<forall>d\<in>set (xs @ ?c # ys). cn_addr d \<notin> X \<longrightarrow> conn_link d"
    using assms(1,4) sp by (auto simp: inv_but_def)
  ultimately show thesis
    using that sp(1) q by blast
qed

lemma stop_running_sel [simp]:
  "n_hosts (stop_running a s) = n_hosts s" "n_keepalives (stop_running a s) = n_keepalives s" "n_cache (stop_running a s) = n_cache s"
  "n_clients (stop_running a s) = n_clients s"
  by (simp_all add: stop_running_def)

lemma get_host_found:
  assumes "hosts_ok uc hs q" "c \<in> set q" "cn_running c" "hosted uc (cn_uri c)"
  obtains i where "find_index (\<lambda>h. hkey uc (hc_uri h) = hkey uc (cn_uri c)) hs = Some i" "i < length hs"
    "hkey uc (hc_uri (hs ! i)) = hkey uc (cn_uri c)"
proof (cases "find_index (\<lambda>h. hkey uc (hc_uri h) = hkey uc (cn_uri c)) hs")
  case None
  then have "hcount uc hs (hkey uc (cn_uri c)) = 0"
    by (intro hcount_none) (simp add: find_index_None)
  moreover obtain xs ys where "q = xs @ c # ys"
    using assms(2) by (meson split_list)
  ultimately show thesis
    using assms(1,3,4) by (auto simp: hosts_ok_def dest: spec [of _ "hkey uc (cn_uri c)"])
next
  case (Some i)
  with find_index_Some [OF Some] that show thesis
    by blast
qed

lemma done_host_effect:
  assumes "hosts_ok (n_uris t) (n_hosts t) (xs @ c # ys)" "uris_ok up R t" "\<forall>h\<in>set (n_hosts t). hc_refs h \<le> m"
    and "cn_running c" "\<not> cn_running c'" "cn_uri c' = cn_uri c"
  shows "\<exists>R' hs f. done_host_connection c' t = f (t\<lparr>n_hosts := hs\<rparr>) \<and> hosts_ok (n_uris t) hs (xs @ c' # ys) \<and>
     (\<forall>h\<in>set hs. hc_refs h \<le> m) \<and> uris_ok up R' (t\<lparr>n_hosts := hs\<rparr>) \<and>
     (f = id \<and> R' = R \<or> (\<exists>b. f = upd_uris (done_uri b) \<and> R' = b # R))"
proof (cases "hosted (n_uris t) (cn_uri c)")
  case False
  then have "done_host_connection c' t = id (t\<lparr>n_hosts := n_hosts t\<rparr>)"
    using assms(6) by (simp add: done_host_connection_def get_host_connection_key)
  moreover have "hosts_ok (n_uris t) (n_hosts t) (xs @ c' # ys)"
    using assms(1,4-6) False by (simp add: hosts_ok_def)
  ultimately show ?thesis
    using assms(2,3) by (intro exI [of _ R] exI [of _ "n_hosts t"] exI [of _ id]) simp
next
  case True
  let ?uc = "n_uris t"
  obtain i where i: "find_index (\<lambda>h. hkey ?uc (hc_uri h) = hkey ?uc (cn_uri c)) (n_hosts t) = Some i" "i < length (n_hosts t)"
      "hkey ?uc (hc_uri (n_hosts t ! i)) = hkey ?uc (cn_uri c)"
    using get_host_found [OF assms(1) _ assms(4) True] by auto
  note del = hosts_del [OF assms(1,4,5,6) True i(2,3)]
  define h where "h = n_hosts t ! i"
  obtain gs js where p: "n_hosts t = gs @ h # js" "\<And>h. (n_hosts t)[i := h] = gs @ h # js" "del_nth (n_hosts t) i = gs @ js"
    using nth_parts [OF i(2)] unfolding h_def by metis
  let ?hs = "gs @ h\<lparr>hc_refs := hc_refs h - 1\<rparr> # js"
  have get: "get_host_connection t c' = Some i"
    using i(1) True assms(6) by (simp add: get_host_connection_key)
  show ?thesis
  proof (cases "hc_refs h = 1")
    case False
    have "done_host_connection c' t = id (t\<lparr>n_hosts := ?hs\<rparr>)"
      using False by (simp add: done_host_connection_def get Let_def p(2) flip: h_def)
    moreover have "hosts_ok ?uc ?hs (xs @ c' # ys)"
      using del(1) False by (simp add: p(2) flip: h_def)
    moreover have "uris_ok up R (t\<lparr>n_hosts := ?hs\<rparr>)"
      using assms(2) by (simp add: uris_ok_def net_refs_def p(1))
    ultimately show ?thesis
      using assms(3) by (intro exI [of _ R] exI [of _ ?hs] exI [of _ id]) (simp add: p(1) ball_Un)
  next
    case last: True
    have "done_host_connection c' t = upd_uris (done_uri (hc_uri h)) (t\<lparr>n_hosts := gs @ js\<rparr>)"
      using last by (simp add: done_host_connection_def get Let_def p(3) flip: h_def)
    moreover have "hosts_ok ?uc (gs @ js) (xs @ c' # ys)"
      using del(2) last by (simp add: p(3) flip: h_def)
    moreover have "uris_ok up (hc_uri h # R) (t\<lparr>n_hosts := gs @ js\<rparr>)"
      by (rule uris_ok_perm [OF assms(2)]) (simp_all add: net_refs_def p(1))
    ultimately show ?thesis
      using assms(3) by (intro exI [of _ "hc_uri h # R"] exI [of _ "gs @ js"] exI [of _ "upd_uris (done_uri (hc_uri h))"])
        (simp add: p(1) ball_Un)
  qed
qed

lemma done_host_sel [simp]:
  "n_queue (done_host_connection c t) = n_queue t" "n_keepalives (done_host_connection c t) = n_keepalives t"
  "n_active (done_host_connection c t) = n_active t"
  by (simp_all add: done_host_connection_def Let_def split: option.split)

lemma done_host_inv:
  assumes "inv_but env R X s" "conn_at s a = Some c" "cn_running c" "a \<in> X"
  shows "inv_but env R X (done_host_connection (c\<lparr>cn_running := False\<rparr>) (stop_running a s))"
    "b \<in> set (net_refs (done_host_connection (c\<lparr>cn_running := False\<rparr>) (stop_running a s)) @ R) \<Longrightarrow>
      uri_of (n_uris (done_host_connection (c\<lparr>cn_running := False\<rparr>) (stop_running a s))) b = uri_of (n_uris s) b"
proof -
  let ?c = "c\<lparr>cn_running := False\<rparr>" and ?t = "stop_running a s"
  obtain xs ys where q: "n_queue s = xs @ c # ys" "n_queue ?t = xs @ ?c # ys" "queue_ok ?t" "n_active ?t = n_active s - 1"
      "uris_ok (up_of env) R ?t" "\<forall>d\<in>set (xs @ ?c # ys). cn_addr d \<notin> X \<longrightarrow> conn_link d"
    using stop_running_inv [OF assms] .
  have inv: "hosts_ok (n_uris s) (n_hosts s) (xs @ c # ys)" "limits_ok env s" "\<forall>k\<in>set (n_keepalives s). ka_done k = None"
      "distinct (map ka_addr (n_keepalives s))"
    using assms(1) q(1) by (simp_all add: inv_but_def)
  obtain R' hs f where e: "done_host_connection ?c ?t = f (?t\<lparr>n_hosts := hs\<rparr>)" "hosts_ok (n_uris s) hs (xs @ ?c # ys)"
      "\<forall>h\<in>set hs. hc_refs h \<le> nv_max_conns_to_host env" "uris_ok (up_of env) R' (?t\<lparr>n_hosts := hs\<rparr>)"
      "f = id \<and> R' = R \<or> (\<exists>b. f = upd_uris (done_uri b) \<and> R' = b # R)"
    using done_host_effect [of ?t xs c ys "up_of env" R "nv_max_conns_to_host env" ?c] inv(1,2) q(5) assms(3)
    by (auto simp: limits_ok_def)
  have "inv_but env R' X (?t\<lparr>n_hosts := hs\<rparr>)"
    using e(2-4) q inv by (simp add: inv_but_def queue_ok_def limits_ok_def)
  with e(5) inv_release [of env _ R X "?t\<lparr>n_hosts := hs\<rparr>"]
  show "inv_but env R X (done_host_connection ?c ?t)"
    "b \<in> set (net_refs (done_host_connection ?c ?t) @ R) \<Longrightarrow> uri_of (n_uris (done_host_connection ?c ?t)) b = uri_of (n_uris s) b"
    unfolding e(1) by auto
qed

section \<open>The operations keep the invariant\<close>

text \<open>
  What the module may assume of its surroundings: sensible limits, an allocator that returns unused
  addresses, protocol clean-up that does not touch the queue, and callbacks and handlers that
  keep the invariant whatever references \<open>R\<close> are in use elsewhere. A handler is called for a connection that is
  marked as running and has to leave it in a state of progress, or finish it.
\<close>

definition env_ok :: "net_env \<Rightarrow> bool" where
  "env_ok env \<longleftrightarrow>
     1 \<le> nv_max_conns env \<and> 1 \<le> nv_max_conns_to_host env \<and>
     (\<forall>s a. nv_conn_mem env s = Some a \<longrightarrow> conn_at s a = None) \<and>
     (\<forall>s a. nv_keep_mem env s = Some a \<longrightarrow> a \<notin> ka_addr ` set (n_keepalives s)) \<and>
     allocates_fresh (nv_cache env) (nv_uri_mem env) \<and>
     (\<forall>f a s. same_view s (nv_done env f a s)) \<and>
     (\<forall>R d s. net_inv env R s \<longrightarrow> net_inv env R (nv_callback env d s)) \<and>
     (\<forall>R p a s c. inv_but env R {a} s \<and> conn_at s a = Some c \<and> cn_running c \<longrightarrow> net_inv env R (nv_handler env p a s))"

lemma env_okD:
  assumes "env_ok env"
  shows "1 \<le> nv_max_conns env" "1 \<le> nv_max_conns_to_host env" "nv_conn_mem env s = Some a \<Longrightarrow> conn_at s a = None"
    "nv_keep_mem env s = Some a \<Longrightarrow> a \<notin> ka_addr ` set (n_keepalives s)" "uc_ok (up_of env) uc \<Longrightarrow> fresh_mem (nv_uri_mem env uc) uc"
    "same_view s (nv_done env f a s)" "net_inv env R s \<Longrightarrow> net_inv env R (nv_callback env d s)"
    "inv_but env R {a} s \<Longrightarrow> conn_at s a = Some c \<Longrightarrow> cn_running c \<Longrightarrow> net_inv env R (nv_handler env p a s)"
  using assms unfolding env_ok_def allocates_fresh_def up_of_def by blast+

lemma inv_absent: "inv_but env R (insert a X) s \<Longrightarrow> conn_at s a = None \<Longrightarrow> inv_but env R X s"
  by (auto simp: inv_but_def conn_at_None)

lemma inv_same_view: "same_view s t \<Longrightarrow> inv_but env R X s \<Longrightarrow> inv_but env R X t"
  by (simp add: inv_view)

lemma notify_inv:
  assumes "env_ok env"
  shows "net_inv env R s \<Longrightarrow> net_inv env R (notify_loop env c ds s)"
proof (induction ds arbitrary: s)
  case (Cons d ds)
  have "net_inv env R (upd_download d f s)" for f
    by (rule inv_same_view [OF same_view_fields(1) Cons.prems]) simp
  then have "net_inv env R (case n_downloads (upd_download d f s) d of
      Some x \<Rightarrow> if dl_callback x then nv_callback env d (upd_download d f s) else upd_download d f s | None \<Rightarrow> upd_download d f s)" for f
    using env_okD(7) [OF assms] by (simp split: option.split)
  with Cons.IH show ?case
    by (simp add: Let_def)
qed simp

lemma call_download_inv: "env_ok env \<Longrightarrow> net_inv env R s \<Longrightarrow> net_inv env R (call_download env d s)"
  using env_okD(7) by (simp add: call_download_def split: option.split)

text \<open>Setting a state: the view changes in that state only, then the downloads are told.\<close>

definition with_state :: "nat \<Rightarrow> int \<Rightarrow> net \<Rightarrow> net" where
  "with_state a st s = upd_conn a (\<lambda>c. c\<lparr>cn_state := st\<rparr>) s"

definition before_notify :: "net_env \<Rightarrow> nat \<Rightarrow> int \<Rightarrow> net \<Rightarrow> net" where
  "before_notify env a st s =
     (let s = upd_conn a (\<lambda>c. (if is_in_result_state (cn_state c) \<and> is_in_progress_state st
                               then c\<lparr>cn_prev_error := cn_state c\<rparr> else c)\<lparr>cn_state := st\<rparr>) s
      in start_or_stop_progress env a st s)"

lemma same_view_before: "same_view (with_state a st s) (before_notify env a st s)"
proof -
  have "core ((if P then c\<lparr>cn_prev_error := e\<rparr> else c)\<lparr>cn_state := st\<rparr>) = core (c\<lparr>cn_state := st\<rparr>)" for P c e
    by (simp add: core_def)
  then have "core (if Q then (if P then c\<lparr>cn_prev_error := e\<rparr> else c)\<lparr>cn_state := st\<rparr> else c) = core (if Q then c\<lparr>cn_state := st\<rparr> else c)" for P Q c e
    by simp
  then show ?thesis
    unfolding before_notify_def with_state_def Let_def
    by (intro same_view_start_or_stop) (simp add: same_view_def upd_conn_def comp_def)
qed

lemma set_state_before:
  "set_connection_state env a st s =
     (case conn_at (before_notify env a st s) a of
        None \<Rightarrow> before_notify env a st s
      | Some c \<Rightarrow>
          let t = foldl (\<lambda>s d. upd_download d (\<lambda>x. x\<lparr>dl_state := st, dl_prev_error := cn_prev_error c\<rparr>) s) (before_notify env a st s) (cn_downloads c)
          in if is_in_progress_state st then notify_connection_callbacks env c t else t)"
  unfolding set_connection_state_def before_notify_def Let_def ..

lemma set_state_result: "is_in_result_state st \<Longrightarrow> same_view (with_state a st s) (set_connection_state env a st s)"
  using same_view_before [of a st s env]
  by (auto simp: set_state_before is_in_result_state_def is_in_progress_state_def Let_def intro: same_view_downloads split: option.split)

lemma set_state_inv:
  assumes "env_ok env" "net_inv env R (with_state a st s)"
  shows "net_inv env R (set_connection_state env a st s)"
proof -
  have "net_inv env R (before_notify env a st s)"
    using inv_same_view [OF same_view_before assms(2)] .
  moreover from this have "net_inv env R (foldl (\<lambda>s d. upd_download d f s) (before_notify env a st s) ds)" for f ds
    by (rule inv_same_view [OF same_view_downloads [OF same_view_refl]])
  ultimately show ?thesis
    using notify_inv [OF assms(1)] by (simp add: set_state_before Let_def notify_connection_callbacks_def split: option.split)
qed

lemma with_state_inv:
  assumes "inv_but env R X s" "conn_at s a = Some c" "a \<notin> Y \<Longrightarrow> conn_link (c\<lparr>cn_state := st\<rparr>)" "X \<subseteq> insert a Y"
  shows "inv_but env R Y (with_state a st s)"
  unfolding with_state_def using assms conn_at_mem [OF assms(2)] by (intro inv_upd_conn [OF assms(1,2)]) (auto simp: conn_refs_def)

lemma conn_at_with_state: "conn_at (with_state a st s) a = map_option (\<lambda>c. c\<lparr>cn_state := st\<rparr>) (conn_at s a)"
  by (simp add: with_state_def conn_at_upd)

text \<open>The connection after a change that its core shows.\<close>

lemma conn_at_core:
  assumes "same_view s t" "conn_at s a = Some c"
  obtains d where "conn_at t a = Some d" "core d = core c"
  using same_view_conn_at [OF assms(1), of a] assms(2) by auto

lemma conn_at_gone: "same_view s t \<Longrightarrow> conn_at s a = None \<Longrightarrow> conn_at t a = None"
  using same_view_conn_at [of s t a] by simp

lemma done_host_view: "same_view s t \<Longrightarrow> cn_uri c = cn_uri d \<Longrightarrow> same_view (done_host_connection c s) (done_host_connection d t)"
  by (simp add: same_view_def done_host_connection_def get_host_connection_key Let_def upd_uris_def split: option.split)

lemma free_data_unfold:
  "conn_at s a = Some c \<Longrightarrow> free_connection_data env a s =
     (let t = release_connection a (case cn_done c of None \<Rightarrow> stop_running a s | Some f \<Rightarrow> nv_done env f a (stop_running a s))
      in case conn_at t a of None \<Rightarrow> t | Some c \<Rightarrow> if cn_state c \<noteq> S_WAIT then done_host_connection c t else t)"
  by (simp only: free_connection_data_def stop_running_def option.case Let_def upd_conn_sel)

lemma free_data_view:
  assumes "env_ok env" "conn_at s a = Some c" "cn_state c \<noteq> S_WAIT"
  shows "same_view (done_host_connection (c\<lparr>cn_running := False\<rparr>) (stop_running a s)) (free_connection_data env a s)"
proof -
  let ?s = "stop_running a s"
  let ?t = "case cn_done c of None \<Rightarrow> ?s | Some f \<Rightarrow> nv_done env f a ?s"
  have "same_view ?s ?t"
    using env_okD(6) [OF assms(1)] by (simp split: option.split)
  then have v: "same_view ?s (release_connection a ?t)"
    by (rule same_view_release)
  moreover have "conn_at ?s a = Some (c\<lparr>cn_running := False\<rparr>)"
    using assms(2) conn_at_upd [of "\<lambda>c. c\<lparr>cn_running := False\<rparr>" a s a] by (simp add: stop_running_def conn_at_def)
  ultimately obtain d where d: "conn_at (release_connection a ?t) a = Some d" "core d = core (c\<lparr>cn_running := False\<rparr>)"
    using conn_at_core by blast
  then have "free_connection_data env a s = done_host_connection d (release_connection a ?t)"
    using assms(3) core_eqD [OF d(2)] by (simp add: free_data_unfold [OF assms(2)])
  then show ?thesis
    using done_host_view [OF v, of "c\<lparr>cn_running := False\<rparr>" d] core_eqD [OF d(2)] by simp
qed

lemma free_data_inv:
  assumes "env_ok env" "inv_but env R X s" "conn_at s a = Some c" "cn_running c" "cn_state c \<noteq> S_WAIT" "a \<in> X"
  shows "inv_but env R X (free_connection_data env a s)"
    "\<exists>d. conn_at (free_connection_data env a s) a = Some d \<and> core d = core (c\<lparr>cn_running := False\<rparr>)"
proof -
  let ?c = "c\<lparr>cn_running := False\<rparr>" and ?t = "done_host_connection (c\<lparr>cn_running := False\<rparr>) (stop_running a s)"
  note view = free_data_view [OF assms(1,3,5)]
  show "inv_but env R X (free_connection_data env a s)"
    using inv_same_view [OF view done_host_inv(1) [OF assms(2,3,4,6)]] .
  have "conn_at ?t a = Some ?c"
    using assms(3) conn_at_upd [of "\<lambda>c. c\<lparr>cn_running := False\<rparr>" a s a] by (simp add: stop_running_def conn_at_def)
  with view show "\<exists>d. conn_at (free_connection_data env a s) a = Some d \<and> core d = core ?c"
    by (rule conn_at_core) blast
qed

text \<open>The end of a connection in a result state: it leaves the queue, then gives up its references.\<close>

lemma done_result_inv:
  assumes "env_ok env" "conn_at s a = Some d" "is_in_result_state (cn_state d)" "net_inv env (conn_refs d @ R) (del_conn a s)"
  shows "net_inv env R (done_connection env a s)"
proof -
  define t where "t = notify_connection_callbacks env d (del_conn a s)"
  have t: "net_inv env (conn_refs d @ R) t"
    using notify_inv [OF assms(1,4)] by (simp add: t_def notify_connection_callbacks_def)
  define t' where "t' = (case cn_referrer d of None \<Rightarrow> t | Some r \<Rightarrow> upd_uris (done_uri r) t)"
  have "net_inv env (cn_uri d # cn_proxied_uri d # R) t'"
    using t inv_release(1) by (simp add: t'_def conn_refs_def split: option.splits)
  then have "net_inv env R (upd_uris (done_uri (cn_proxied_uri d)) (upd_uris (done_uri (cn_uri d)) t'))"
    by (intro inv_release(1))
  moreover have "done_connection env a s = upd_uris (done_uri (cn_proxied_uri d)) (upd_uris (done_uri (cn_uri d)) t')"
    using assms(3) by (simp only: done_connection_def assms(2) option.case Let_def t_def t'_def not_True_eq_False if_False)
  ultimately show ?thesis
    by simp
qed

text \<open>A connection that is still in progress is first set to an error.\<close>

lemma done_connection_state:
  assumes "inv_but env R {a} s" "conn_at s a = Some c" "\<not> cn_running c"
  obtains t d where "done_connection env a s = done_connection env a t" "inv_but env R {a} t" "conn_at t a = Some d"
    "\<not> cn_running d" "is_in_result_state (cn_state d)" "t = s \<or> t = set_connection_state env a S_INTERNAL s"
proof (cases "is_in_result_state (cn_state c)")
  case True
  with assms show thesis
    by (intro that [of s c]) simp_all
next
  case False
  let ?s = "set_connection_state env a S_INTERNAL s"
  have res: "is_in_result_state S_INTERNAL"
    by (simp add: is_in_result_state_def conn_states)
  note view = set_state_result [OF res, of a s env]
  obtain d where d: "conn_at ?s a = Some d" "core d = core (c\<lparr>cn_state := S_INTERNAL\<rparr>)"
    using conn_at_core [OF view, of a] assms(2) by (auto simp: conn_at_with_state)
  have "inv_but env R {a} ?s"
    by (rule inv_same_view [OF view with_state_inv [OF assms(1,2)]]) simp_all
  moreover have "is_in_result_state (cn_state d)" "\<not> cn_running d"
    using core_eqD [OF d(2)] res assms(3) by simp_all
  moreover from this have "done_connection env a s = done_connection env a ?s"
    using assms(2) False d(1) by (simp add: done_connection_def)
  ultimately show thesis
    using d(1) by (intro that [of ?s d]) simp_all
qed

lemma done_connection_inv:
  assumes "env_ok env" "inv_but env R {a} s" "conn_at s a = Some c" "\<not> cn_running c"
  shows "net_inv env R (done_connection env a s)"
proof -
  obtain t d where t: "done_connection env a s = done_connection env a t" "inv_but env R {a} t" "conn_at t a = Some d"
      "\<not> cn_running d" "is_in_result_state (cn_state d)"
    using done_connection_state [OF assms(2-4)] by metis
  show ?thesis
    unfolding t(1) using inv_del_conn [OF t(2-4)] by (intro done_result_inv [OF assms(1) t(3,5)]) simp
qed

lemma done_connection_absent: "conn_at s a = None \<Longrightarrow> done_connection env a s = s"
  by (simp add: done_connection_def)

text \<open>The number of running connections to a host.\<close>

lemma host_refs_users:
  assumes "inv_but env R X s" "get_host_connection s c = Some i"
  shows "hc_refs (n_hosts s ! i) = int (users (n_uris s) (n_queue s) (hkey (n_uris s) (cn_uri c)))" "i < length (n_hosts s)"
    "hosted (n_uris s) (cn_uri c)" "hkey (n_uris s) (hc_uri (n_hosts s ! i)) = hkey (n_uris s) (cn_uri c)"
proof -
  have i: "i < length (n_hosts s)" "hkey (n_uris s) (hc_uri (n_hosts s ! i)) = hkey (n_uris s) (cn_uri c)" "hosted (n_uris s) (cn_uri c)"
    using assms(2) find_index_Some unfolding get_host_connection_key by (auto split: if_splits)
  have ok: "hosts_ok (n_uris s) (n_hosts s) (n_queue s)"
    using assms(1) by (simp add: inv_but_def)
  from i show "i < length (n_hosts s)" "hosted (n_uris s) (cn_uri c)" "hkey (n_uris s) (hc_uri (n_hosts s ! i)) = hkey (n_uris s) (cn_uri c)"
    by simp_all
  show "hc_refs (n_hosts s ! i) = int (users (n_uris s) (n_queue s) (hkey (n_uris s) (cn_uri c)))"
    using hcount_mem [of "n_uris s" "n_hosts s" "n_hosts s ! i"] ok i by (simp add: hosts_ok_def)
qed

lemma users_limit:
  assumes "inv_but env R X s" "1 \<le> nv_max_conns_to_host env"
  shows "int (users (n_uris s) (n_queue s) k) \<le> nv_max_conns_to_host env"
proof -
  have ok: "hosts_ok (n_uris s) (n_hosts s) (n_queue s)" "\<forall>h\<in>set (n_hosts s). hc_refs h \<le> nv_max_conns_to_host env"
    using assms(1) by (simp_all add: inv_but_def limits_ok_def)
  show ?thesis
  proof (cases "\<exists>h\<in>set (n_hosts s). hkey (n_uris s) (hc_uri h) = k")
    case True
    then show ?thesis
      using ok hcount_mem [of "n_uris s" "n_hosts s"] by (auto simp: hosts_ok_def)
  next
    case False
    then show ?thesis
      using ok(1) assms(2) hcount_none [of "n_hosts s" "n_uris s" k] by (auto simp: hosts_ok_def)
  qed
qed

lemma has_capacity_users:
  assumes "inv_but env R X s" "n_active s < nv_max_conns env"
    and "int (users (n_uris s) (n_queue s) (hkey (n_uris s) (cn_uri c))) < nv_max_conns_to_host env"
  shows "has_capacity env s c"
  using assms host_refs_users [OF assms(1)] by (auto simp: has_capacity_def split: option.split)

lemma has_capacity_view: "same_view s t \<Longrightarrow> cn_uri c = cn_uri d \<Longrightarrow> has_capacity env t d = has_capacity env s c"
  by (simp add: same_view_def has_capacity_def get_host_connection_key split: option.split)

lemma users_core:
  "map core p = map core q \<Longrightarrow> (\<And>c. c \<in> set q \<Longrightarrow> uri_of uc (cn_uri c) = uri_of uc' (cn_uri c)) \<Longrightarrow> users uc p k = users uc' q k"
proof -
  assume p: "map core p = map core q" and uc: "\<And>c. c \<in> set q \<Longrightarrow> uri_of uc (cn_uri c) = uri_of uc' (cn_uri c)"
  have "users uc p k = users uc q k"
    unfolding users_def by (rule length_filter_core [OF p]) (auto dest: core_eqD)
  also have "\<dots> = users uc' q k"
    unfolding users_def by (rule arg_cong [where f = length], rule filter_cong) (auto simp: hosted_def hkey_def uc)
  finally show ?thesis .
qed

text \<open>Freeing a running connection leaves room for one to the same host.\<close>

lemma free_data_effect:
  assumes "env_ok env" "inv_but env R X s" "conn_at s a = Some c" "cn_running c" "cn_state c \<noteq> S_WAIT" "a \<in> X"
  defines "t \<equiv> free_connection_data env a s"
  obtains xs ys where "n_queue s = xs @ c # ys" "map core (n_queue t) = map core (xs @ c\<lparr>cn_running := False\<rparr> # ys)"
    "n_active t = n_active s - 1" "n_keepalives t = n_keepalives s" "n_clients t = n_clients s"
    "\<And>d. d \<in> set (n_queue s) \<Longrightarrow> uri_of (n_uris t) (cn_uri d) = uri_of (n_uris s) (cn_uri d)"
    "\<And>k. k \<in> set (n_keepalives s) \<Longrightarrow> uri_of (n_uris t) (ka_uri k) = uri_of (n_uris s) (ka_uri k)"
proof -
  let ?c = "c\<lparr>cn_running := False\<rparr>" and ?t = "done_host_connection (c\<lparr>cn_running := False\<rparr>) (stop_running a s)"
  have view: "same_view ?t t"
    unfolding t_def by (rule free_data_view [OF assms(1,3,5)])
  obtain xs ys where q: "n_queue s = xs @ c # ys" "n_queue (stop_running a s) = xs @ ?c # ys" "n_active (stop_running a s) = n_active s - 1"
    using stop_running_inv [OF assms(2,3,4,6)] by metis
  have refs: "uri_of (n_uris t) b = uri_of (n_uris s) b" if "b \<in> set (net_refs ?t)" for b
    using done_host_inv(2) [OF assms(2,3,4,6), of b] that view by (simp add: same_view_def)
  have "cn_uri d \<in> set (net_refs ?t)" if "d \<in> set (n_queue s)" for d
    using that cn_uri_ref [of d ?t] cn_uri_ref [of ?c ?t] q by auto
  moreover have "ka_uri k \<in> set (net_refs ?t)" if "k \<in> set (n_keepalives s)" for k
    using that refs_mem(3) [of k ?t] by simp
  moreover have "n_clients ?t = n_clients s"
    by (simp add: done_host_connection_def Let_def split: option.split)
  ultimately show thesis
    using q view refs by (intro that [of xs ys]) (simp_all add: same_view_def)
qed

lemma free_data_capacity:
  assumes "env_ok env" "inv_but env R X s" "conn_at s a = Some c" "cn_running c" "cn_state c \<noteq> S_WAIT" "a \<in> X"
    and "hkey (n_uris s) (cn_uri d) = hkey (n_uris s) (cn_uri c) \<and> hosted (n_uris s) (cn_uri c)" "d \<in> set (n_queue s)"
  shows "has_capacity env (free_connection_data env a s) d"
proof -
  let ?t = "free_connection_data env a s" and ?c = "c\<lparr>cn_running := False\<rparr>"
  obtain xs ys where q: "n_queue s = xs @ c # ys" "map core (n_queue ?t) = map core (xs @ ?c # ys)" "n_active ?t = n_active s - 1"
    "\<And>d. d \<in> set (n_queue s) \<Longrightarrow> uri_of (n_uris ?t) (cn_uri d) = uri_of (n_uris s) (cn_uri d)"
    using free_data_effect [OF assms(1-6)] by metis
  let ?k = "hkey (n_uris s) (cn_uri c)"
  have "users (n_uris ?t) (n_queue ?t) ?k = users (n_uris s) (xs @ ?c # ys) ?k"
    by (rule users_core [OF q(2)]) (use q(1,4) in auto)
  moreover have "users (n_uris s) (n_queue s) ?k = users (n_uris s) (xs @ ?c # ys) ?k + 1"
    using assms(4,7) by (simp add: q(1))
  moreover have "hkey (n_uris ?t) (cn_uri d) = ?k"
    using q(4) [OF assms(8)] assms(7) by (simp add: hkey_def)
  ultimately have "int (users (n_uris ?t) (n_queue ?t) (hkey (n_uris ?t) (cn_uri d))) < nv_max_conns_to_host env"
    using users_limit [OF assms(2) env_okD(2) [OF assms(1)], of ?k] by simp
  moreover have "n_active ?t < nv_max_conns env"
    using q(3) assms(2) by (simp add: inv_but_def limits_ok_def)
  ultimately show ?thesis
    using has_capacity_users [OF free_data_inv(1) [OF assms(1-6)]] by simp
qed

text \<open>A connection that has been set to a result state is finished, running or not.\<close>

lemma result_state_inv:
  assumes "inv_but env R {a} s" "conn_at s a = Some c" "is_in_result_state st"
  obtains d where "inv_but env R {a} (set_connection_state env a st s)" "conn_at (set_connection_state env a st s) a = Some d"
    "core d = core (c\<lparr>cn_state := st\<rparr>)" "same_view (with_state a st s) (set_connection_state env a st s)"
proof -
  note view = set_state_result [OF assms(3), of a s env]
  obtain d where "conn_at (set_connection_state env a st s) a = Some d" "core d = core (c\<lparr>cn_state := st\<rparr>)"
    using conn_at_core [OF view, of a] assms(2) by (auto simp: conn_at_with_state)
  moreover have "inv_but env R {a} (with_state a st s)"
    by (rule with_state_inv [OF assms(1,2)]) simp_all
  ultimately show thesis
    using that inv_same_view [OF view] view by blast
qed

lemma run_connection_inv:
  assumes "env_ok env" "inv_but env R {a} s" "conn_at s a = Some c" "\<not> cn_running c" "has_capacity env s c"
  shows "net_inv env R (run_connection env a s)"
proof (cases "add_host_connection env c s")
  case (Pair ok t)
  show ?thesis
  proof (cases ok)
    case True
    note add = add_host_inv [OF assms(2-5) env_okD(2) [OF assms(1)]]
    have t: "inv_but env R {a} (start_running a t)" "n_queue t = n_queue s"
      using add(1,2) [of t] Pair True by simp_all
    have "conn_at (start_running a t) a = Some (c\<lparr>cn_running := True\<rparr>)"
      using assms(3) t(2) by (simp add: start_running_def conn_at_upd) (simp add: conn_at_def)
    then have "net_inv env R (nv_handler env p a (start_running a t))" for p
      by (rule env_okD(8) [OF assms(1) t(1)]) simp
    then show ?thesis
      using assms(3,4) Pair True by (simp add: run_connection_def start_running_def)
  next
    case False
    let ?st = "proxy_state_code S_OUT_OF_MEM"
    have "t = s"
      using Pair False by (auto simp: add_host_connection_def split: option.splits if_splits)
    then have run: "run_connection env a s = done_connection env a (set_connection_state env a ?st s)"
      using assms(3,4) Pair False by (simp add: run_connection_def)
    obtain d where d: "inv_but env R {a} (set_connection_state env a ?st s)" "conn_at (set_connection_state env a ?st s) a = Some d"
        "core d = core (c\<lparr>cn_state := ?st\<rparr>)"
      using result_state_inv [OF assms(2,3), of ?st] by (simp add: is_in_result_state_def) blast
    show ?thesis
      unfolding run using assms(4) core_eqD [OF d(3)] by (intro done_connection_inv [OF assms(1) d(1,2)]) simp
  qed
qed

lemma finish_inv:
  assumes "env_ok env" "inv_but env R {a} s" "conn_at s a = Some c" "cn_running c" "cn_state c \<noteq> S_WAIT"
  shows "net_inv env R (done_connection env a (free_connection_data env a s))"
proof -
  obtain d where "conn_at (free_connection_data env a s) a = Some d" "core d = core (c\<lparr>cn_running := False\<rparr>)"
    using free_data_inv(2) [OF assms] by auto
  then show ?thesis
    using free_data_inv(1) [OF assms] by (intro done_connection_inv [OF assms(1)]) (auto dest: core_eqD)
qed

lemma register_inv: "inv_but env R X s \<Longrightarrow> inv_but env R X (register_check_queue env s)"
  by (rule inv_same_view [OF same_view_fields(4) [OF same_view_refl]])

lemma abort_connection_inv:
  assumes "env_ok env" "inv_but env R {a} s" "is_in_result_state st"
  shows "net_inv env R (abort_connection env a st s)"
proof (cases "conn_at s a")
  case None
  have "same_view (with_state a st s) (set_connection_state env a st s)" "same_view s (with_state a st s)"
    using set_state_result [OF assms(3)] None by (simp_all add: with_state_def same_view_def upd_conn_def conn_at_None rev_image_eqI)
      (metis (mono_tags, lifting) image_eqI map_idI)
  then have "conn_at (set_connection_state env a st s) a = None" "inv_but env R {a} (set_connection_state env a st s)"
    using None conn_at_gone inv_same_view [OF _ assms(2)] by (blast dest: same_view_trans)+
  then show ?thesis
    by (auto simp: abort_connection_def Let_def done_connection_absent intro: register_inv inv_absent)
next
  case (Some c)
  obtain d where d: "inv_but env R {a} (set_connection_state env a st s)" "conn_at (set_connection_state env a st s) a = Some d"
    "core d = core (c\<lparr>cn_state := st\<rparr>)"
    using result_state_inv [OF assms(2) Some assms(3)] .
  have "cn_state d \<noteq> S_WAIT"
    using core_eqD [OF d(3)] assms(3) by (simp add: is_in_result_state_def conn_states)
  then show ?thesis
    using finish_inv [OF assms(1) d(1,2)] done_connection_inv [OF assms(1) d(1,2)] d(2)
    by (auto simp: abort_connection_def Let_def interrupt_connection_def intro: register_inv)
qed

lemma suspend_inv:
  assumes "env_ok env" "net_inv env R s" "conn_at s a = Some c" "cn_running c" "cn_state c \<noteq> S_WAIT"
  shows "net_inv env R (suspend_connection env a s)"
proof -
  let ?t = "free_connection_data env a s"
  have s: "inv_but env R {a} s"
    by (rule inv_weaken [OF assms(2)]) simp
  note free = free_data_inv [OF assms(1) s assms(3-5)]
  obtain d where d: "conn_at ?t a = Some d" "core d = core (c\<lparr>cn_running := False\<rparr>)"
    using free(2) by auto
  have "net_inv env R (with_state a S_WAIT ?t)"
    using core_eqD [OF d(2)]
    by (intro with_state_inv [OF free(1) d(1)]) (auto simp: conn_link_def is_in_progress_state_def conn_states)
  then show ?thesis
    unfolding suspend_connection_def interrupt_connection_def by (rule set_state_inv [OF assms(1)])
qed

lemma free_data_own_capacity:
  assumes "env_ok env" "inv_but env R X s" "conn_at s a = Some d" "cn_running d" "cn_state d \<noteq> S_WAIT" "a \<in> X"
    and "core e = core (d\<lparr>cn_running := False\<rparr>)"
  shows "has_capacity env (free_connection_data env a s) e"
proof -
  let ?t = "free_connection_data env a s"
  have mem: "d \<in> set (n_queue s)" "cn_uri e = cn_uri d"
    using conn_at_mem [OF assms(3)] core_eqD [OF assms(7)] by simp_all
  have "has_capacity env ?t d"
  proof (cases "hosted (n_uris s) (cn_uri d)")
    case True
    then show ?thesis
      using mem(1) by (intro free_data_capacity [OF assms(1-6)]) auto
  next
    case False
    obtain "n_active ?t = n_active s - 1" "uri_of (n_uris ?t) (cn_uri d) = uri_of (n_uris s) (cn_uri d)"
      using free_data_effect [OF assms(1-6)] mem(1) by metis
    with False assms(2) show ?thesis
      by (simp add: has_capacity_def get_host_connection_key hosted_def inv_but_def limits_ok_def)
  qed
  then show ?thesis
    using has_capacity_view [of ?t ?t d e] mem(2) by simp
qed

text \<open>Only \<open>tries\<close> and \<open>prev_error\<close> change before a connection is run again.\<close>

lemma retry_connection_inv:
  assumes "env_ok env" "inv_but env R {a} s" "conn_at s a = Some c" "cn_running c" "is_in_result_state st"
  shows "net_inv env R (retry_connection env a st s)"
proof -
  let ?s = "set_connection_state env a st s"
  obtain d where d: "inv_but env R {a} ?s" "conn_at ?s a = Some d" "core d = core (c\<lparr>cn_state := st\<rparr>)"
    using result_state_inv [OF assms(2,3,5)] .
  have run: "cn_running d" "cn_state d \<noteq> S_WAIT"
    using core_eqD [OF d(3)] assms(4,5) by (simp_all add: is_in_result_state_def conn_states)
  define t where "t = free_connection_data env a ?s"
  obtain e where t: "inv_but env R {a} t" "conn_at t a = Some e" "core e = core (d\<lparr>cn_running := False\<rparr>)"
    using free_data_inv [OF assms(1) d(1,2) run] by (auto simp: t_def)
  have stop: "\<not> cn_running e"
    using core_eqD [OF t(3)] by simp
  have cap: "has_capacity env t e"
    unfolding t_def by (rule free_data_own_capacity [OF assms(1) d(1,2) run _ t(3)]) simp
  have again: "same_view t (upd_conn a f t)" "conn_at (upd_conn a f t) a = Some (f e)" "\<not> cn_running (f e)"
      "has_capacity env (upd_conn a f t) (f e)" "inv_but env R {a} (upd_conn a f t)" if "\<And>c. core (f c) = core c" for f
  proof -
    show v: "same_view t (upd_conn a f t)"
      using that by (intro same_view_upd_conn) simp_all
    show "conn_at (upd_conn a f t) a = Some (f e)"
      using t(2) that by (subst conn_at_upd) (auto dest: core_eqD)
    show "has_capacity env (upd_conn a f t) (f e)" "\<not> cn_running (f e)"
      using cap stop core_eqD [OF that] has_capacity_view [OF v, of e "f e"] by simp_all
    show "inv_but env R {a} (upd_conn a f t)"
      by (rule inv_same_view [OF v t(1)])
  qed
  let ?tries = "\<lambda>c. c\<lparr>cn_tries := cn_tries c + 1\<rparr>" and ?err = "\<lambda>c. c\<lparr>cn_tries := cn_tries c + 1, cn_prev_error := cn_state c\<rparr>"
  have "upd_conn a (\<lambda>c. c\<lparr>cn_prev_error := cn_state c\<rparr>) (upd_conn a ?tries t) = upd_conn a ?err t"
    by (simp add: upd_conn_def comp_def if_distrib cong: if_cong)
  moreover have "net_inv env R (run_connection env a (upd_conn a ?err t))"
    by (rule run_connection_inv [OF assms(1) again(5,2,3,4)]) (simp_all add: core_def)
  moreover have "net_inv env R (done_connection env a (upd_conn a ?tries t))"
    by (rule done_connection_inv [OF assms(1) again(5,2,3)]) (simp_all add: core_def)
  moreover have "net_inv env R (done_connection env a t)"
    by (rule done_connection_inv [OF assms(1) t(1,2) stop])
  ultimately show ?thesis
    using t(2) by (simp add: retry_connection_def interrupt_connection_def Let_def register_inv flip: t_def)
qed

end
