(* ===== verification/ConnSched.thy ===== *)
theory ConnSched
  imports ConnInv
begin

text \<open>
  The scheduler of \<^verbatim>\<open>network/connection.c\<close>: \<^verbatim>\<open>sort_queue\<close>, the keepalive connections, and the loop of
  \<^verbatim>\<open>check_queue\<close> that starts waiting connections and suspends running ones in favour of more
  important ones.
\<close>

section \<open>The sort is a stable sort\<close>

lemma sort_pass_unchanged: "\<not> snd (sort_pass cs) \<Longrightarrow> fst (sort_pass cs) = cs \<and> sorted (map get_priority cs)"
proof (induction cs rule: sort_pass.induct)
  case (1 c d cs)
  then show ?case
    by (auto split: prod.splits if_splits simp: prod_eq_iff)
qed auto

text \<open>A pass only exchanges neighbours of different priority, so that connections of one priority keep their
  order.\<close>

lemma sort_pass_stable: "filter (\<lambda>c. p = get_priority c) (fst (sort_pass cs)) = filter (\<lambda>c. p = get_priority c) cs"
proof (induction cs rule: sort_pass.induct)
  case (1 c d cs)
  then show ?case
    by (auto split: prod.splits simp: prod_eq_iff)
qed auto

lemma sort_conns_spec:
  "mset (sort_conns cs) = mset cs \<and> sorted (map get_priority (sort_conns cs)) \<and>
   (\<forall>p. filter (\<lambda>c. p = get_priority c) (sort_conns cs) = filter (\<lambda>c. p = get_priority c) cs)"
proof (induction cs rule: sort_conns.induct)
  case (1 cs)
  obtain q swp where p: "sort_pass cs = (q, swp)"
    by fastforce
  have q: "mset q = mset cs" "\<And>p. filter (\<lambda>c. p = get_priority c) q = filter (\<lambda>c. p = get_priority c) cs"
    using sort_pass_mset [of cs] sort_pass_stable [of _ cs] p by simp_all
  show ?case
  proof (cases swp)
    case True
    with 1 [OF p [symmetric] True] p q show ?thesis
      by (simp add: sort_conns.simps [of cs])
  next
    case False
    with sort_pass_unchanged [of cs] p q show ?thesis
      by (simp add: sort_conns.simps [of cs])
  qed
qed

text \<open>C26: \<^verbatim>\<open>sort_queue\<close> always returns and is a stable sort: its bubble sort, which repeats passes over the
  queue until nothing moves, gives the same queue as sorting the connections by priority with equals kept in
  their order.\<close>

theorem sort_queue_stable:
  "n_queue (sort_queue s) = sort_key get_priority (n_queue s)" 
proof -
  have "sort_key get_priority (n_queue s) = sort_conns (n_queue s)"
    using sort_conns_spec [of "n_queue s"] by (intro properties_for_sort_key) auto
  then show ?thesis
    by (simp add: sort_queue_def)
qed

section \<open>Keepalive connections\<close>

text \<open>What the scheduler sees stays as it is.\<close>

definition sched_eq :: "net \<Rightarrow> net \<Rightarrow> bool" where
  "sched_eq s t \<longleftrightarrow>
     n_queue t = n_queue s \<and> n_hosts t = n_hosts s \<and> n_active t = n_active s \<and>
     (\<forall>a \<in> cn_uri ` set (n_queue s) \<union> hc_uri ` set (n_hosts s). uri_of (n_uris t) a = uri_of (n_uris s) a)"

lemma sched_eq_refl [simp]: "sched_eq s s"
  by (simp add: sched_eq_def)

lemma sched_eq_trans [trans]: "sched_eq s t \<Longrightarrow> sched_eq t u \<Longrightarrow> sched_eq s u"
  by (auto simp: sched_eq_def)

lemma free_keepalive_inv:
  assumes "inv_but env R X s" "k \<in> set (n_keepalives s)" "ka_addr k' = ka_addr k" "ka_uri k' = ka_uri k"
  shows "inv_but env R X (free_keepalive_connection k' s)" "sched_eq s (free_keepalive_connection k' s)"
    "n_keepalives (free_keepalive_connection k' s) = filter (\<lambda>j. ka_addr j \<noteq> ka_addr k) (n_keepalives s)"
proof -
  have inv: "uris_ok (up_of env) R s" "distinct (map ka_addr (n_keepalives s))"
    using assms(1) by (simp_all add: inv_but_def)
  obtain js ls where p: "n_keepalives s = js @ k # ls"
    using assms(2) by (meson split_list)
  have "\<forall>j\<in>set (js @ ls). ka_addr j \<noteq> ka_addr k"
    using inv(2) by (auto simp: p rev_image_eqI)
  then have f: "filter (\<lambda>j. ka_addr j \<noteq> ka_addr k) (n_keepalives s) = js @ ls"
    by (simp add: p)
  define t where "t = (if ka_socket k' \<noteq> - 1 then close_fd (ka_socket k') (s\<lparr>n_keepalives := js @ ls\<rparr>) else s\<lparr>n_keepalives := js @ ls\<rparr>)"
  have t: "n_queue t = n_queue s" "n_hosts t = n_hosts s" "n_active t = n_active s" "n_cache t = n_cache s" "n_clients t = n_clients s"
    "n_keepalives t = js @ ls"
    by (simp_all add: t_def close_fd_def)
  have u: "uris_ok (up_of env) (ka_uri k # R) t"
    by (rule uris_ok_perm [OF inv(1)]) (simp_all add: net_refs_def t p)
  then have i: "inv_but env (ka_uri k # R) X t"
    using assms(1) p unfolding inv_but_def queue_ok_def limits_ok_def by (simp add: t)
  have free: "free_keepalive_connection k' s = upd_uris (done_uri (ka_uri k)) t"
    by (simp add: free_keepalive_connection_def Let_def t_def assms(3,4) f)
  show "inv_but env R X (free_keepalive_connection k' s)"
    unfolding free by (rule inv_release(1) [OF i])
  have "a \<in> set (net_refs t)" if "a \<in> cn_uri ` set (n_queue s) \<union> hc_uri ` set (n_hosts s)" for a
    using that refs_mem(2) [of _ t] cn_uri_ref [of _ t] by (auto simp: t)
  then show "sched_eq s (free_keepalive_connection k' s)"
    using inv_release(2) [OF i] by (simp add: free sched_eq_def t)
  show "n_keepalives (free_keepalive_connection k' s) = filter (\<lambda>j. ka_addr j \<noteq> ka_addr k) (n_keepalives s)"
    by (simp add: free t f)
qed

lemma done_keepalive_inv:
  assumes "inv_but env R X s" "k \<in> set (n_keepalives s)"
  shows "inv_but env R X (done_keepalive_connection env k s)" "sched_eq s (done_keepalive_connection env k s)"
    "n_keepalives (done_keepalive_connection env k s) = filter (\<lambda>j. ka_addr j \<noteq> ka_addr k) (n_keepalives s)"
proof -
  have "done_keepalive_connection env k s = free_keepalive_connection k s"
    using assms by (simp add: done_keepalive_connection_def inv_but_def)
  then show "inv_but env R X (done_keepalive_connection env k s)" "sched_eq s (done_keepalive_connection env k s)"
    "n_keepalives (done_keepalive_connection env k s) = filter (\<lambda>j. ka_addr j \<noteq> ka_addr k) (n_keepalives s)"
    using free_keepalive_inv [OF assms refl refl] by simp_all
qed

lemma expire_keepalives_inv:
  assumes "inv_but env R X s" "distinct (map ka_addr K)" "set (n_keepalives s) \<subseteq> set K" "set ks \<subseteq> set K"
    "expire_keepalives env ks s = (p, t)"
  shows "inv_but env R X t \<and> sched_eq s t \<and> set (n_keepalives t) \<subseteq> set (n_keepalives s)"
  using assms(1,3-5)
proof (induction ks arbitrary: s p t)
  case (Cons k ks)
  have k: "k \<in> set (n_keepalives s)" if "ka_addr k \<in> ka_addr ` set (n_keepalives s)"
  proof -
    from that obtain j where j: "ka_addr k = ka_addr j" "j \<in> set (n_keepalives s)"
      by (rule imageE)
    have "j \<in> set K" "k \<in> set K" "inj_on ka_addr (set K)"
      using j(2) Cons.prems(2,3) assms(2) by (blast, simp, simp add: distinct_map)
    then have "j = k"
      using j(1) by (simp add: inj_on_eq_iff)
    with j(2) show ?thesis
      by simp
  qed
  show ?case
  proof (cases "ka_addr k \<in> ka_addr ` set (n_keepalives s) \<and> keepalive_expired env k")
    case True
    note d = done_keepalive_inv [OF Cons.prems(1) k]
    have "expire_keepalives env ks (done_keepalive_connection env k s) = (p, t)"
      using Cons.prems(4) True by simp
    then have "inv_but env R X t \<and> sched_eq (done_keepalive_connection env k s) t \<and>
        set (n_keepalives t) \<subseteq> set (n_keepalives (done_keepalive_connection env k s))"
      using d True Cons.prems(2,3) by (intro Cons.IH) auto
    with d(2,3) True show ?thesis
      using sched_eq_trans [of s "done_keepalive_connection env k s" t] by auto
  next
    case False
    then obtain p' where "expire_keepalives env ks s = (p', t)"
      using Cons.prems(4) by (auto split: if_splits prod.splits)
    from Cons.IH [OF Cons.prems(1,2) _ this] Cons.prems(3) show ?thesis
      by simp
  qed
qed simp

lemma trim_keepalives_inv:
  "inv_but env R X s \<Longrightarrow> trim_keepalives env n s = Some t \<Longrightarrow> inv_but env R X t \<and> sched_eq s t"
proof (induction n arbitrary: s)
  case (Suc n)
  then have ne: "last (n_keepalives s) \<in> set (n_keepalives s)"
    and t: "trim_keepalives env n (done_keepalive_connection env (last (n_keepalives s)) s) = Some t"
    by (auto split: if_splits)
  note d = done_keepalive_inv [OF Suc.prems(1) ne]
  from Suc.IH [OF d(1) t] d(2) show ?case
    using sched_eq_trans by blast
qed simp

lemma check_keepalive_inv:
  assumes "inv_but env R X s"
  shows "inv_but env R X (check_keepalive_connections env s)" "sched_eq s (check_keepalive_connections env s)"
proof -
  obtain i ts where k: "kill_timer (n_keepalive_timeout s) (n_timers s) = (i, ts)"
    by fastforce
  let ?s = "s\<lparr>n_keepalive_timeout := i, n_timers := ts\<rparr>"
  have "same_view s ?s"
    by (simp add: same_view_def)
  then have s: "inv_but env R X ?s" "sched_eq s ?s"
    using inv_same_view assms by (blast, simp add: sched_eq_def)
  obtain p t where e: "expire_keepalives env (n_keepalives s) ?s = (p, t)"
    by fastforce
  have t: "inv_but env R X t" "sched_eq s t"
    using expire_keepalives_inv [OF s(1), of "n_keepalives s" "n_keepalives s" p t] e s sched_eq_trans assms
    by (auto simp: inv_but_def)
  have view: "inv_but env R X (u\<lparr>n_keepalive_timeout := j, n_timers := us\<rparr>)" "sched_eq s (u\<lparr>n_keepalive_timeout := j, n_timers := us\<rparr>)"
    if "inv_but env R X u" "sched_eq s u" for u j us
    using that inv_same_view [of u "u\<lparr>n_keepalive_timeout := j, n_timers := us\<rparr>"] by (simp_all add: same_view_def sched_eq_def)
  have u: "inv_but env R X u \<and> sched_eq s u" if "trim_keepalives env (p - MAX_KEEPALIVE_CONNECTIONS) t = Some u" for u
    using trim_keepalives_inv [OF t(1) that] t(2) sched_eq_trans by blast
  show "inv_but env R X (check_keepalive_connections env s)" "sched_eq s (check_keepalive_connections env s)"
    unfolding check_keepalive_connections_def k Let_def prod.case using t u view
    by (simp_all add: e split: option.split prod.split)
qed

section \<open>Starting and suspending connections\<close>

lemma find_victim_Some:
  "find_victim s p u q = Some v \<Longrightarrow>
     \<exists>c\<in>set q. cn_addr c = v \<and> p < get_priority c \<and> cn_state c \<noteq> S_WAIT \<and>
       (\<forall>u'. u = Some u' \<longrightarrow> hkey (n_uris s) u' = hkey (n_uris s) (cn_uri c))"
  by (induction q) (auto simp: conn_uri_def compare_host split: if_splits option.splits)

lemma conn_at_unique: "distinct (map cn_addr (n_queue s)) \<Longrightarrow> c \<in> set (n_queue s) \<Longrightarrow> conn_at s (cn_addr c) = Some c"
proof (cases "conn_at s (cn_addr c)")
  case None
  then show "c \<in> set (n_queue s) \<Longrightarrow> ?thesis"
    by (simp add: conn_at_None)
next
  case (Some d)
  then have "d \<in> set (n_queue s)" "cn_addr d = cn_addr c"
    using conn_at_mem by blast+
  then show "distinct (map cn_addr (n_queue s)) \<Longrightarrow> c \<in> set (n_queue s) \<Longrightarrow> ?thesis"
    using Some by (auto simp: distinct_map dest: inj_onD)
qed

lemma inv_conn_at: "inv_but env R X s \<Longrightarrow> c \<in> set (n_queue s) \<Longrightarrow> conn_at s (cn_addr c) = Some c"
  by (simp add: inv_but_def queue_ok_def conn_at_unique)

lemma inv_link: "net_inv env R s \<Longrightarrow> c \<in> set (n_queue s) \<Longrightarrow> conn_link c"
  by (simp add: inv_but_def)

text \<open>The three outcomes for a waiting connection. A victim is suspended when the limit it counts against is
  reached: the limit of its host, or the limit of all connections.\<close>

lemma try_connection_cases:
  assumes "net_inv env R s" "c \<in> set (n_queue s)" "cn_state c = S_WAIT"
  obtains (idle) "try_connection env c s = (0, s)" "\<not> has_capacity env s c"
    | (suspend) v where "try_connection env c s = (- 1, suspend_connection env (cn_addr v) s)" "v \<in> set (n_queue s)"
        "get_priority c < get_priority v" "cn_state v \<noteq> S_WAIT" "\<not> has_capacity env s c"
        "hkey (n_uris s) (cn_uri c) = hkey (n_uris s) (cn_uri v) \<and> hosted (n_uris s) (cn_uri c) \<or>
         (\<forall>i. get_host_connection s c = Some i \<longrightarrow> hc_refs (n_hosts s ! i) < nv_max_conns_to_host env)"
    | (run) "try_connection env c s = (1, run_connection env (cn_addr c) s)" "has_capacity env s c"
proof (cases "get_host_connection s c")
  case None
  show thesis
  proof (cases "n_active s \<ge> nv_max_conns env")
    case True
    show thesis
    proof (cases "find_victim s (get_priority c) None (rev (n_queue s))")
      case N: None
      with None True show thesis
        by (intro idle) (simp_all add: try_connection_def try_to_suspend_connection_def has_capacity_def)
    next
      case (Some v)
      from find_victim_Some [OF this] None True Some show thesis
        by (auto simp: try_connection_def try_to_suspend_connection_def has_capacity_def intro: suspend)
    qed
  next
    case False
    with None show thesis
      by (intro run) (simp_all add: try_connection_def has_capacity_def)
  qed
next
  case (Some i)
  note host = host_refs_users [OF assms(1) Some]
  let ?h = "n_hosts s ! i"
  define u where "u = (if hc_refs ?h \<ge> nv_max_conns_to_host env then Some (hc_uri ?h) else None)"
  show thesis
  proof (cases "hc_refs ?h \<ge> nv_max_conns_to_host env \<or> n_active s \<ge> nv_max_conns env")
    case True
    have tr: "try_connection env c s = (case try_to_suspend_connection env c u s of (r, s) \<Rightarrow> (if r \<noteq> 0 then 0 else - 1, s))"
      using Some True by (auto simp: try_connection_def u_def)
    show thesis
    proof (cases "find_victim s (get_priority c) u (rev (n_queue s))")
      case N: None
      with Some True show thesis
        by (intro idle) (auto simp: tr try_to_suspend_connection_def has_capacity_def)
    next
      case v: (Some v)
      from find_victim_Some [OF this] obtain w where w: "w \<in> set (n_queue s)" "cn_addr w = v" "get_priority c < get_priority w"
          "cn_state w \<noteq> S_WAIT" "\<forall>u'. u = Some u' \<longrightarrow> hkey (n_uris s) u' = hkey (n_uris s) (cn_uri w)"
        by auto
      show thesis
      proof (rule suspend [OF _ w(1,3,4)])
        show "try_connection env c s = (- 1, suspend_connection env (cn_addr w) s)"
          using v w(2) by (simp add: tr try_to_suspend_connection_def)
        show "\<not> has_capacity env s c"
          using Some True by (auto simp: has_capacity_def)
        show "hkey (n_uris s) (cn_uri c) = hkey (n_uris s) (cn_uri w) \<and> hosted (n_uris s) (cn_uri c) \<or>
            (\<forall>i. get_host_connection s c = Some i \<longrightarrow> hc_refs (n_hosts s ! i) < nv_max_conns_to_host env)"
          using w(5) Some host(3,4) by (cases "hc_refs ?h \<ge> nv_max_conns_to_host env") (simp_all add: u_def)
      qed
    qed
  next
    case False
    with Some show thesis
      by (intro run) (simp_all add: try_connection_def has_capacity_def)
  qed
qed

lemma try_connection_inv:
  assumes "env_ok env" "net_inv env R s" "c \<in> set (n_queue s)" "cn_state c = S_WAIT"
  shows "net_inv env R (snd (try_connection env c s))" "fst (try_connection env c s) = 0 \<Longrightarrow> snd (try_connection env c s) = s"
proof -
  have "net_inv env R (snd (try_connection env c s)) \<and> (fst (try_connection env c s) = 0 \<longrightarrow> snd (try_connection env c s) = s)"
    using assms(2-4)
  proof (cases rule: try_connection_cases)
    case idle
    then show ?thesis
      using assms(2) by simp
  next
    case (suspend v)
    have "cn_running v"
      using inv_link [OF assms(2) suspend(2)] suspend(4) by (simp add: conn_link_def)
    then show ?thesis
      using suspend_inv [OF assms(1,2) inv_conn_at [OF assms(2) suspend(2)] _ suspend(4)] suspend(1) by simp
  next
    case run
    have "\<not> cn_running c"
      using inv_link [OF assms(2,3)] assms(4) by (simp add: conn_link_def)
    moreover have "inv_but env R {cn_addr c} s"
      by (rule inv_weaken [OF assms(2)]) simp
    ultimately show ?thesis
      using run_connection_inv [OF assms(1) _ inv_conn_at [OF assms(2,3)] _ run(2)] run(1) by simp
  qed
  then show "net_inv env R (snd (try_connection env c s))" "fst (try_connection env c s) = 0 \<Longrightarrow> snd (try_connection env c s) = s"
    by simp_all
qed

lemma try_conns_Some:
  assumes "env_ok env" "net_inv env R s" "set cs \<subseteq> set (n_queue s)" "try_conns env keep cs s = Some t"
  shows "\<exists>c\<in>set cs. cn_state c = S_WAIT \<and> (\<exists>r. r \<noteq> 0 \<and> try_connection env c s = (r, t))"
  using assms(3,4)
proof (induction cs)
  case (Cons c cs)
  show ?case
  proof (cases "cn_state c = S_WAIT \<and> (keep \<longrightarrow> get_keepalive_connection s c \<noteq> None)")
    case True
    obtain r u where tr: "try_connection env c s = (r, u)"
      by fastforce
    have "r = 0 \<Longrightarrow> u = s"
      using try_connection_inv(2) [OF assms(1,2), of c] Cons.prems(1) True tr by simp
    with Cons True tr show ?thesis
      by (cases "r = 0") auto
  next
    case False
    with Cons.prems(2) have "try_conns env keep cs s = Some t"
      by (simp only: try_conns.simps if_False)
    then show ?thesis
      using Cons.IH Cons.prems(1) by auto
  qed
qed simp

lemma try_conns_None:
  assumes "env_ok env" "net_inv env R s" "set cs \<subseteq> set (n_queue s)" "try_conns env False cs s = None"
  shows "\<forall>c\<in>set cs. cn_state c = S_WAIT \<longrightarrow> fst (try_connection env c s) = 0"
  using assms(3,4)
proof (induction cs)
  case (Cons c cs)
  show ?case
  proof (cases "cn_state c = S_WAIT")
    case True
    obtain r u where tr: "try_connection env c s = (r, u)"
      by fastforce
    have "r = 0"
      using Cons.prems(2) True tr by (auto split: if_splits)
    moreover from this have "u = s"
      using try_connection_inv(2) [OF assms(1,2), of c] Cons.prems(1) True tr by simp
    ultimately show ?thesis
      using Cons True tr by auto
  next
    case False
    then show ?thesis
      using Cons by auto
  qed
qed simp

text \<open>The scan tries connections in the order of their priority: it acts for a waiting connection for which
  something can be done, and for none that is less important than another such; when it does nothing,
  nothing can be done for any.\<close>

lemma scan_queue_spec:
  assumes "env_ok env" "net_inv env R s" "set cs \<subseteq> set (n_queue s)" "sorted (map get_priority cs)"
  shows "case scan_queue env cs s of
      None \<Rightarrow> \<forall>c\<in>set cs. cn_state c = S_WAIT \<longrightarrow> fst (try_connection env c s) = 0
    | Some t \<Rightarrow> \<exists>c\<in>set cs. cn_state c = S_WAIT \<and> (\<exists>r. r \<noteq> 0 \<and> try_connection env c s = (r, t)) \<and>
        (\<forall>d\<in>set cs. cn_state d = S_WAIT \<longrightarrow> fst (try_connection env d s) \<noteq> 0 \<longrightarrow> get_priority c \<le> get_priority d)"
  using assms(3,4)
proof (induction "length cs" arbitrary: cs rule: less_induct)
  case less
  show ?case
  proof (cases cs)
    case Nil
    then show ?thesis
      by (simp add: scan_queue.simps)
  next
    case (Cons conn cs')
    let ?P = "\<lambda>c. get_priority c = get_priority conn"
    let ?grp = "takeWhile ?P cs" and ?rest = "dropWhile ?P cs"
    have parts: "cs = ?grp @ ?rest" "\<forall>c\<in>set ?grp. get_priority c = get_priority conn" "set ?grp \<subseteq> set (n_queue s)"
      "set ?rest \<subseteq> set (n_queue s)"
      using less.prems(1) by (auto dest: set_takeWhileD set_dropWhileD)
    have least: "\<forall>d\<in>set cs. get_priority conn \<le> get_priority d"
      using less.prems(2) Cons by auto
    have acts: "\<exists>c\<in>set cs. cn_state c = S_WAIT \<and> (\<exists>r. r \<noteq> 0 \<and> try_connection env c s = (r, t)) \<and>
        (\<forall>d\<in>set cs. cn_state d = S_WAIT \<longrightarrow> fst (try_connection env d s) \<noteq> 0 \<longrightarrow> get_priority c \<le> get_priority d)"
      if "try_conns env keep ?grp s = Some t" for keep t
      using try_conns_Some [OF assms(1,2) parts(3) that] parts(2) least set_takeWhileD by metis
    have scan: "scan_queue env cs s =
        (case try_conns env True ?grp s of
           Some s \<Rightarrow> Some s
         | None \<Rightarrow> (case try_conns env False ?grp s of Some s \<Rightarrow> Some s | None \<Rightarrow> scan_queue env ?rest s))"
      unfolding Cons scan_queue.simps Let_def ..
    show ?thesis
    proof (cases "try_conns env True ?grp s")
      case (Some t)
      with acts [OF Some] scan show ?thesis
        by simp
    next
      case keep: None
      show ?thesis
      proof (cases "try_conns env False ?grp s")
        case (Some t)
        with acts [OF Some] scan keep show ?thesis
          by simp
      next
        case None
        have grp: "\<forall>c\<in>set ?grp. cn_state c = S_WAIT \<longrightarrow> fst (try_connection env c s) = 0"
          by (rule try_conns_None [OF assms(1,2) parts(3) None])
        have "length ?rest < length cs"
          using Cons by (simp add: length_dropWhile_le le_imp_less_Suc)
        moreover have "sorted (map get_priority ?rest)"
          using less.prems(2) parts(1) by (metis map_append sorted_append)
        ultimately have "case scan_queue env ?rest s of
            None \<Rightarrow> \<forall>c\<in>set ?rest. cn_state c = S_WAIT \<longrightarrow> fst (try_connection env c s) = 0
          | Some t \<Rightarrow> \<exists>c\<in>set ?rest. cn_state c = S_WAIT \<and> (\<exists>r. r \<noteq> 0 \<and> try_connection env c s = (r, t)) \<and>
              (\<forall>d\<in>set ?rest. cn_state d = S_WAIT \<longrightarrow> fst (try_connection env d s) \<noteq> 0 \<longrightarrow> get_priority c \<le> get_priority d)"
          by (intro less.hyps parts(4))
        moreover have "set cs = set ?grp \<union> set ?rest"
          using parts(1) by (metis set_append)
        ultimately show ?thesis
          using grp scan keep None by (auto split: option.splits)
      qed
    qed
  qed
qed

section \<open>The loop of the scheduler\<close>

lemma find_cancelled_Some:
  "find_cancelled q = Some a \<Longrightarrow> \<exists>c\<in>set q. cn_addr c = a \<and> cn_state c = S_WAIT \<and> PRI_CANCEL \<le> get_priority c"
  by (induction q) (auto split: if_splits)

lemma cancel_step_inv:
  assumes "env_ok env" "net_inv env R s" "find_cancelled (rev (n_queue s)) = Some a"
  shows "net_inv env R (done_connection env a (set_connection_state env a S_INTERRUPTED s))"
proof -
  obtain c where c: "c \<in> set (n_queue s)" "cn_addr c = a" "cn_state c = S_WAIT"
    using find_cancelled_Some [OF assms(3)] by auto
  have s: "inv_but env R {a} s"
    by (rule inv_weaken [OF assms(2)]) simp
  have "is_in_result_state S_INTERRUPTED"
    by (simp add: is_in_result_state_def conn_states)
  then obtain d where d: "inv_but env R {a} (set_connection_state env a S_INTERRUPTED s)"
      "conn_at (set_connection_state env a S_INTERRUPTED s) a = Some d" "core d = core (c\<lparr>cn_state := S_INTERRUPTED\<rparr>)"
    using result_state_inv [OF s, of c S_INTERRUPTED] inv_conn_at [OF assms(2) c(1)] c(2) by metis
  moreover have "\<not> cn_running d"
    using inv_link [OF assms(2) c(1)] c(3) core_eqD [OF d(3)] by (simp add: conn_link_def)
  ultimately show ?thesis
    using done_connection_inv [OF assms(1)] by blast
qed

lemma cancel_waiting_inv:
  assumes "cancel_waiting env s = Some t" "env_ok env" "net_inv env R s"
  shows "net_inv env R t"
proof -
  have "env_ok env \<longrightarrow> net_inv env R s \<longrightarrow> net_inv env R t"
  proof (rule cancel_waiting.raw_induct [OF _ assms(1)], intro impI)
    fix f env s t
    assume IH: "\<And>env s t. f env s = Some t \<Longrightarrow> env_ok env \<longrightarrow> net_inv env R s \<longrightarrow> net_inv env R t"
      and body: "(case find_cancelled (rev (n_queue s)) of None \<Rightarrow> Some s
        | Some a \<Rightarrow> f env (done_connection env a (set_connection_state env a S_INTERRUPTED s))) = Some t"
      and s: "env_ok env" "net_inv env R s"
    then show "net_inv env R t"
      using cancel_step_inv [OF s] by (auto split: option.splits)
  qed
  with assms(2,3) show ?thesis
    by simp
qed

lemma scan_queue_inv:
  assumes "env_ok env" "net_inv env R s" "scan_queue env (n_queue s) s = Some t"
  shows "net_inv env R t"
proof -
  have "sorted (map get_priority (n_queue s))"
    using assms(2) by (simp add: inv_but_def queue_ok_def)
  then obtain c r where "c \<in> set (n_queue s)" "cn_state c = S_WAIT" "try_connection env c s = (r, t)"
    using scan_queue_spec [OF assms(1,2), of "n_queue s"] assms(3) by auto
  then show ?thesis
    using try_connection_inv(1) [OF assms(1,2)] by fastforce
qed

lemma check_queue_inv:
  assumes "check_queue env s = Some t" "env_ok env" "net_inv env R s"
  shows "net_inv env R t"
proof -
  have "env_ok env \<longrightarrow> net_inv env R s \<longrightarrow> net_inv env R t"
  proof (rule check_queue.raw_induct [OF _ assms(1)], intro impI)
    fix f env s t
    assume IH: "\<And>env s t. f env s = Some t \<Longrightarrow> env_ok env \<longrightarrow> net_inv env R s \<longrightarrow> net_inv env R t"
      and body: "(let s = check_keepalive_connections env s
        in case scan_queue env (n_queue s) s of Some s \<Rightarrow> f env s | None \<Rightarrow> cancel_waiting env s) = Some t"
      and s: "env_ok env" "net_inv env R s"
    have keep: "net_inv env R (check_keepalive_connections env s)"
      by (rule check_keepalive_inv(1) [OF s(2)])
    show "net_inv env R t"
      using IH body s cancel_waiting_inv [OF _ s(1) keep] scan_queue_inv [OF s(1) keep] by (auto simp: Let_def split: option.splits)
  qed
  with assms(2,3) show ?thesis
    by simp
qed

end
