(* ===== verification/ConnLive.thy ===== *)
theory ConnLive
  imports ConnSched
begin

text \<open>
  The scheduler of \<^verbatim>\<open>network/connection.c\<close> comes to an end: what the operations do to the queue when callbacks and
  handlers leave it alone, and the measure that every round of \<^verbatim>\<open>check_queue\<close> makes smaller.
\<close>

section \<open>The scheduler comes to an end\<close>

text \<open>
  What the scheduler looks at: the queue with the fields of its connections that matter to it, the host connections, the
  count of running connections, and what the URIs of the queue and of the host connections are. The cache, the idle
  connections, the timers, the downloads and the references the rest of the program holds are not part of it.
\<close>

definition sched_view :: "net \<Rightarrow> net \<Rightarrow> bool" where
  "sched_view s t \<longleftrightarrow>
     map core (n_queue t) = map core (n_queue s) \<and> n_hosts t = n_hosts s \<and> n_active t = n_active s \<and>
     (\<forall>b \<in> cn_uri ` set (n_queue s) \<union> hc_uri ` set (n_hosts s). uri_of (n_uris t) b = uri_of (n_uris s) b)"

lemma sched_view_refl [simp]: "sched_view s s"
  by (simp add: sched_view_def)

lemma core_uris: "map core p = map core q \<Longrightarrow> cn_uri ` set p = cn_uri ` set q"
  by (subst (1 2) list.set_map [symmetric], rule arg_cong [where f = set], erule map_core_cong) (drule core_eqD, simp)

lemma sched_view_trans [trans]: "sched_view s t \<Longrightarrow> sched_view t u \<Longrightarrow> sched_view s u"
  using core_uris [of "n_queue t" "n_queue s"] by (auto simp: sched_view_def)

lemma sched_view_same: "same_view s t \<Longrightarrow> sched_view s t"
  by (simp add: same_view_def sched_view_def)

lemma sched_view_conn_at:
  assumes "sched_view s t" "conn_at s a = Some c"
  obtains d where "conn_at t a = Some d" "core d = core c"
proof -
  have "map core (n_queue t) = map core (n_queue s)"
    using assms(1) by (simp add: sched_view_def)
  then have "same_view s (s\<lparr>n_queue := n_queue t\<rparr>)"
    by (simp add: same_view_def)
  from conn_at_core [OF this assms(2)] that show thesis
    by (auto simp: conn_at_def)
qed

lemma sched_view_capacity:
  assumes "sched_view s t" "cn_uri c \<in> cn_uri ` set (n_queue s)"
  shows "has_capacity env t c = has_capacity env s c"
proof -
  have u: "uri_of (n_uris t) (cn_uri c) = uri_of (n_uris s) (cn_uri c)"
    "\<forall>h\<in>set (n_hosts s). uri_of (n_uris t) (hc_uri h) = uri_of (n_uris s) (hc_uri h)"
    using assms by (auto simp: sched_view_def)
  have "find_index P hs = find_index Q hs" if "\<forall>h\<in>set hs. P h = Q h" for P Q and hs :: "host_connection list"
    using that by (induction hs) auto
  then have "get_host_connection t c = get_host_connection s c"
    using u assms(1) by (simp add: get_host_connection_key hosted_def hkey_def sched_view_def)
  then show ?thesis
    using assms(1) by (simp add: has_capacity_def sched_view_def split: option.split)
qed

text \<open>
  For the scheduler to return, its surroundings have to leave it this view: a callback changes nothing of it, and the
  handler of a connection that was just started either brings the connection into a state of progress or finishes
  it as \<^verbatim>\<open>abort_connection\<close> does, and changes nothing else of it. A handler that creates a cache entry or takes an idle connection
  is covered; a callback that loads another URI and a handler that calls \<^verbatim>\<open>retry_connection\<close> before it returns are not.
\<close>

definition env_quiet :: "net_env \<Rightarrow> bool" where
  "env_quiet env \<longleftrightarrow>
     (\<forall>d s. sched_view s (nv_callback env d s)) \<and>
     (\<forall>p a s R c. inv_but env R {a} s \<and> conn_at s a = Some c \<and> cn_running c \<longrightarrow>
        (\<exists>st. 0 < st \<and> sched_view (with_state a st s) (nv_handler env p a s)) \<or>
        (\<exists>st. is_in_result_state st \<and> sched_view (abort_connection env a st s) (nv_handler env p a s)))"

lemma quiet_handler:
  assumes "env_quiet env" "inv_but env R {a} s" "conn_at s a = Some c" "cn_running c"
  obtains (on) st where "0 < st" "sched_view (with_state a st s) (nv_handler env p a s)"
    | (off) st where "is_in_result_state st" "sched_view (abort_connection env a st s) (nv_handler env p a s)"
  using assms unfolding env_quiet_def by blast

lemma quiet_notify:
  assumes "env_quiet env"
  shows "sched_view s t \<Longrightarrow> sched_view s (notify_loop env c ds t)"
proof (induction ds arbitrary: t)
  case (Cons d ds)
  have cb: "sched_view s u \<Longrightarrow> sched_view s (nv_callback env d u)" for u
    using assms sched_view_trans unfolding env_quiet_def by blast
  have "sched_view t (upd_download d f t)" for f
    by (rule sched_view_same, rule same_view_fields(1)) simp
  with Cons.prems have "sched_view s (upd_download d f t)" for f
    using sched_view_trans by blast
  with cb have "sched_view s (case n_downloads (upd_download d f t) d of
      Some x \<Rightarrow> if dl_callback x then nv_callback env d (upd_download d f t) else upd_download d f t | None \<Rightarrow> upd_download d f t)" for f
    by (simp split: option.split)
  with Cons.IH show ?case
    by (simp add: Let_def)
qed simp

lemma quiet_set_state:
  assumes "env_quiet env"
  shows "sched_view (with_state a st s) (set_connection_state env a st s)"
  using same_view_before [of a st s env]
  by (auto simp: set_state_before Let_def notify_connection_callbacks_def
      intro: sched_view_same same_view_downloads quiet_notify [OF assms] split: option.split)

text \<open>The queue, the host connections and the count without the connection at an address.\<close>

definition without :: "net \<Rightarrow> nat \<Rightarrow> net \<Rightarrow> bool" where
  "without s a t \<longleftrightarrow>
     map core (n_queue t) = map core (filter (\<lambda>c. cn_addr c \<noteq> a) (n_queue s)) \<and> n_hosts t = n_hosts s \<and> n_active t = n_active s"

lemma filter_core:
  assumes "map core p = map core q" "\<And>c d. core c = core d \<Longrightarrow> P c = P d"
  shows "map core (filter P p) = map core (filter P q)"
proof -
  obtain g where P: "P = (\<lambda>c. g (core c))"
    using core_factor [of P] assms(2) by blast
  have "map core (filter P r) = filter g (map core r)" for r
    by (simp add: P filter_map comp_def)
  with assms(1) show ?thesis
    by (simp only:)
qed

lemma with_state_core:
  assumes "map core p = map core q"
  shows "map core (map (\<lambda>c. if cn_addr c = a then c\<lparr>cn_state := st\<rparr> else c) p) =
    map core (map (\<lambda>c. if cn_addr c = a then c\<lparr>cn_state := st\<rparr> else c) q)"
proof -
  have "map (\<lambda>c. core (if cn_addr c = a then c\<lparr>cn_state := st\<rparr> else c)) p = map (\<lambda>c. core (if cn_addr c = a then c\<lparr>cn_state := st\<rparr> else c)) q"
  proof (rule map_core_cong [OF assms])
    fix c d assume "core c = core d"
    then show "core (if cn_addr c = a then c\<lparr>cn_state := st\<rparr> else c) = core (if cn_addr d = a then d\<lparr>cn_state := st\<rparr> else d)"
      by (simp add: core_def)
  qed
  then show ?thesis
    by (simp only: map_map comp_def)
qed

lemma hosted_hkey: "hkey uc a = hkey uc b \<Longrightarrow> hosted uc a = hosted uc b"
  by (auto simp: hkey_def hosted_def Let_def part_def component_def split: option.splits)

lemma with_state_filter:
  "filter (\<lambda>c. cn_addr c \<noteq> a) (n_queue (with_state a st s)) = filter (\<lambda>c. cn_addr c \<noteq> a) (n_queue s)"
  unfolding with_state_def upd_conn_def by (simp add: filter_map comp_def) (auto intro!: map_idI)

lemma with_state_uris: "cn_uri ` set (n_queue (with_state a st s)) = cn_uri ` set (n_queue s)"
proof -
  have "cn_uri ` (\<lambda>c. if cn_addr c = a then c\<lparr>cn_state := st\<rparr> else c) ` set (n_queue s) = cn_uri ` set (n_queue s)"
    unfolding image_image by (rule image_cong) simp_all
  then show ?thesis
    unfolding with_state_def upd_conn_def by simp
qed

lemma with_state_sel [simp]:
  "n_hosts (with_state a st s) = n_hosts s" "n_active (with_state a st s) = n_active s" "n_cache (with_state a st s) = n_cache s"
  "n_keepalives (with_state a st s) = n_keepalives s"
  by (simp_all add: with_state_def)

lemma with_state_without:
  assumes "sched_view (with_state a st s) t"
  shows "map core (filter (\<lambda>c. cn_addr c \<noteq> a) (n_queue t)) = map core (filter (\<lambda>c. cn_addr c \<noteq> a) (n_queue s))"
    "n_hosts t = n_hosts s" "n_active t = n_active s"
proof -
  have "map core (filter (\<lambda>c. cn_addr c \<noteq> a) (n_queue t)) = map core (filter (\<lambda>c. cn_addr c \<noteq> a) (n_queue (with_state a st s)))"
    by (rule filter_core) (use assms in \<open>auto simp: sched_view_def dest: core_eqD\<close>)
  then show "map core (filter (\<lambda>c. cn_addr c \<noteq> a) (n_queue t)) = map core (filter (\<lambda>c. cn_addr c \<noteq> a) (n_queue s))"
    by (simp add: with_state_filter)
qed (use assms in \<open>simp_all add: sched_view_def\<close>)

lemma quiet_done:
  assumes "env_quiet env" "conn_at s a = Some c"
  shows "without s a (done_connection env a s)"
proof -
  define s1 where "s1 = (if \<not> is_in_result_state (cn_state c) then set_connection_state env a S_INTERNAL s else s)"
  note view = quiet_set_state [OF assms(1), of a S_INTERNAL s]
  obtain d where d: "map core (filter (\<lambda>c. cn_addr c \<noteq> a) (n_queue s1)) = map core (filter (\<lambda>c. cn_addr c \<noteq> a) (n_queue s))"
      "n_hosts s1 = n_hosts s" "n_active s1 = n_active s" "conn_at s1 a = Some d"
  proof (cases "is_in_result_state (cn_state c)")
    case True
    then show thesis
      using assms(2) by (intro that [of c]) (simp_all add: s1_def)
  next
    case False
    moreover obtain e where "conn_at (set_connection_state env a S_INTERNAL s) a = Some e"
      using sched_view_conn_at [OF view, of a] assms(2) by (auto simp: conn_at_with_state)
    ultimately show thesis
      using with_state_without [OF view] by (intro that [of e]) (simp_all add: s1_def)
  qed
  define u where "u = notify_connection_callbacks env d (del_conn a s1)"
  have "sched_view (del_conn a s1) u"
    unfolding notify_connection_callbacks_def u_def by (rule quiet_notify [OF assms(1)]) simp
  then have "without s a u"
    using d(1-3) by (simp add: sched_view_def without_def del_conn_def)
  moreover have "done_connection env a s = upd_uris (done_uri (cn_proxied_uri d)) (upd_uris (done_uri (cn_uri d))
      (case cn_referrer d of None \<Rightarrow> u | Some r \<Rightarrow> upd_uris (done_uri r) u))"
    by (simp only: done_connection_def assms(2) option.case Let_def s1_def [symmetric] d(4) u_def)
  ultimately show ?thesis
    by (simp add: without_def split: option.split)
qed

text \<open>Where a connection is in the queue, seen from the rest of it.\<close>

lemma inv_split:
  assumes "inv_but env R X s" "c \<in> set (n_queue s)"
  obtains xs ys where "n_queue s = xs @ c # ys" "\<forall>d\<in>set (xs @ ys). cn_addr d \<noteq> cn_addr c"
    "filter (\<lambda>d. cn_addr d \<noteq> cn_addr c) (n_queue s) = xs @ ys"
proof -
  have "distinct (map cn_addr (n_queue s))"
    using assms(1) by (simp add: inv_but_def queue_ok_def)
  from conn_at_Some [OF this inv_conn_at [OF assms]]
  obtain xs ys where q: "n_queue s = xs @ c # ys" "\<forall>d\<in>set (xs @ ys). cn_addr d \<noteq> cn_addr c"
    by metis
  moreover have "filter (\<lambda>d. cn_addr d \<noteq> cn_addr c) (n_queue s) = xs @ ys"
    using q by simp
  ultimately show thesis
    using that by blast
qed

lemma quiet_abort:
  assumes "env_ok env" "env_quiet env" "inv_but env R {a} s" "conn_at s a = Some c" "is_in_result_state st"
  shows "map core (n_queue (abort_connection env a st s)) = map core (filter (\<lambda>c. cn_addr c \<noteq> a) (n_queue s))"
proof -
  obtain d where d: "inv_but env R {a} (set_connection_state env a st s)" "conn_at (set_connection_state env a st s) a = Some d"
      "core d = core (c\<lparr>cn_state := st\<rparr>)" "same_view (with_state a st s) (set_connection_state env a st s)"
    using result_state_inv [OF assms(3,4,5)] .
  define s1 where "s1 = set_connection_state env a st s"
  define s2 where "s2 = (if cn_running d then free_connection_data env a s1 else s1)"
  have s1: "map core (filter (\<lambda>c. cn_addr c \<noteq> a) (n_queue s1)) = map core (filter (\<lambda>c. cn_addr c \<noteq> a) (n_queue s))"
    unfolding s1_def by (rule with_state_without(1) [OF sched_view_same [OF d(4)]])
  obtain e where e: "conn_at s2 a = Some e" "map core (filter (\<lambda>c. cn_addr c \<noteq> a) (n_queue s2)) = map core (filter (\<lambda>c. cn_addr c \<noteq> a) (n_queue s1))"
  proof (cases "cn_running d")
    case True
    have st: "cn_state d \<noteq> S_WAIT"
      using core_eqD [OF d(3)] assms(5) by (simp add: is_in_result_state_def conn_states)
    obtain xs ys where "n_queue (set_connection_state env a st s) = xs @ d # ys"
        "map core (n_queue (free_connection_data env a (set_connection_state env a st s))) = map core (xs @ d\<lparr>cn_running := False\<rparr> # ys)"
      by (rule free_data_effect [OF assms(1) d(1,2) True st singletonI])
    then have q: "n_queue s1 = xs @ d # ys" "map core (n_queue s2) = map core (xs @ d\<lparr>cn_running := False\<rparr> # ys)"
      using True by (simp_all add: s1_def s2_def)
    have a: "cn_addr d = a"
      using conn_at_mem [OF d(2)] by simp
    have "map core (filter (\<lambda>c. cn_addr c \<noteq> a) (n_queue s2)) = map core (filter (\<lambda>c. cn_addr c \<noteq> a) (xs @ d\<lparr>cn_running := False\<rparr> # ys))"
      by (rule filter_core [OF q(2)]) (auto dest: core_eqD)
    moreover obtain e where "conn_at s2 a = Some e"
      using free_data_inv(2) [OF assms(1) d(1,2) True st] True by (auto simp: s1_def s2_def)
    ultimately show thesis
      using a by (intro that [of e]) (simp_all add: q(1))
  next
    case False
    then show thesis
      using d(2) by (intro that [of d]) (simp_all add: s1_def s2_def)
  qed
  have "abort_connection env a st s = register_check_queue env (done_connection env a s2)"
    using d(2) by (simp add: abort_connection_def Let_def s1_def s2_def interrupt_connection_def)
  then show ?thesis
    using quiet_done [OF assms(2) e(1)] e(2) s1 by (simp add: without_def register_check_queue_def)
qed

text \<open>Running a waiting connection takes it out of the waiting ones.\<close>

lemma quiet_run_fails:
  assumes "env_quiet env" "conn_at s a = Some c" "\<not> cn_running c" "add_host_connection env c s = (False, t)"
  shows "map core (n_queue (run_connection env a s)) = map core (filter (\<lambda>c. cn_addr c \<noteq> a) (n_queue s))"
proof -
  let ?s = "set_connection_state env a (proxy_state_code S_OUT_OF_MEM) s"
  have "t = s"
    using assms(4) by (auto simp: add_host_connection_def split: option.splits if_splits)
  then have run: "run_connection env a s = done_connection env a ?s"
    using assms(2-4) by (simp add: run_connection_def)
  have view: "sched_view (with_state a (proxy_state_code S_OUT_OF_MEM) s) ?s"
    by (rule quiet_set_state [OF assms(1)])
  obtain d where "conn_at ?s a = Some d"
    using sched_view_conn_at [OF view, of a] assms(2) by (auto simp: conn_at_with_state)
  from quiet_done [OF assms(1) this] with_state_without(1) [OF view] show ?thesis
    by (simp add: run without_def)
qed

lemma quiet_run:
  assumes "env_ok env" "env_quiet env" "net_inv env R s" "c \<in> set (n_queue s)" "cn_state c = S_WAIT" "has_capacity env s c"
  obtains xs ys zs where "n_queue s = xs @ c # ys" "map core (n_queue (run_connection env (cn_addr c) s)) = map core (xs @ zs @ ys)"
    "zs = [] \<or> (\<exists>st. 0 < st \<and> zs = [c\<lparr>cn_running := True, cn_state := st\<rparr>])"
proof -
  let ?a = "cn_addr c" and ?t = "run_connection env (cn_addr c) s"
  obtain xs ys where q: "n_queue s = xs @ c # ys" "\<forall>d\<in>set (xs @ ys). cn_addr d \<noteq> ?a"
      "filter (\<lambda>d. cn_addr d \<noteq> ?a) (n_queue s) = xs @ ys"
    using inv_split [OF assms(3,4)] by blast
  have idle: "\<not> cn_running c"
    using inv_link [OF assms(3,4)] assms(5) by (simp add: conn_link_def)
  note at = inv_conn_at [OF assms(3,4)]
  have s: "inv_but env R {?a} s"
    by (rule inv_weaken [OF assms(3)]) simp
  obtain ok t where add: "add_host_connection env c s = (ok, t)"
    by fastforce
  show thesis
  proof (cases ok)
    case True
    let ?h = "nv_handler env (u_protocol (conn_uri t c)) ?a (start_running ?a t)"
    have t: "inv_but env R {?a} (start_running ?a t)" "n_queue t = n_queue s"
      using add_host_inv(1,2) [OF s at idle assms(6) env_okD(2) [OF assms(1)], of t] add True by simp_all
    have run: "?t = ?h"
      using at idle add True by (simp add: run_connection_def start_running_def)
    have sr: "n_queue (start_running ?a t) = xs @ c\<lparr>cn_running := True\<rparr> # ys"
      unfolding start_running_def by (rule conn_at_split(2)) (use t(2) q in simp_all)
    then have at': "conn_at (start_running ?a t) ?a = Some (c\<lparr>cn_running := True\<rparr>)"
      using q(2) by (intro conn_at_split(1)) simp_all
    consider (on) st where "0 < st" "sched_view (with_state ?a st (start_running ?a t)) ?h"
      | (off) st where "is_in_result_state st" "sched_view (abort_connection env ?a st (start_running ?a t)) ?h"
      by (rule quiet_handler [OF assms(2) t(1) at', of "u_protocol (conn_uri t c)"]) auto
    then show thesis
    proof cases
      case on
      have "n_queue (with_state ?a st (start_running ?a t)) = xs @ c\<lparr>cn_running := True, cn_state := st\<rparr> # ys"
        unfolding with_state_def using conn_at_split(2) [OF sr, of ?a] q(2) by simp
      with on q(1) run show thesis
        by (intro that [of xs ys "[c\<lparr>cn_running := True, cn_state := st\<rparr>]"]) (auto simp: sched_view_def)
    next
      case off
      have "map core (n_queue ?h) = map core (xs @ ys)"
        using quiet_abort [OF assms(1,2) t(1) at' off(1)] off(2) q(2) by (simp add: sr sched_view_def)
      with q(1) run show thesis
        by (intro that [of xs ys "[]"]) simp_all
    qed
  next
    case False
    have "map core (n_queue ?t) = map core (xs @ ys)"
      using quiet_run_fails [OF assms(2) at idle, of t] add False q(3) by simp
    with q(1) show thesis
      by (intro that [of xs ys "[]"]) simp_all
  qed
qed


text \<open>Suspending a running connection makes room: for a connection to the same host, or for one that is only held
  up by the limit of all connections.\<close>

lemma capacity_other:
  assumes "env_ok env" "inv_but env R X s" "conn_at s a = Some v" "cn_running v" "cn_state v \<noteq> S_WAIT" "a \<in> X"
    and "\<forall>i. get_host_connection s c = Some i \<longrightarrow> hc_refs (n_hosts s ! i) < nv_max_conns_to_host env" "c \<in> set (n_queue s)"
  shows "has_capacity env (free_connection_data env a s) c"
proof -
  let ?t = "free_connection_data env a s" and ?v = "v\<lparr>cn_running := False\<rparr>"
  obtain xs ys where q: "n_queue s = xs @ v # ys" "map core (n_queue ?t) = map core (xs @ ?v # ys)" "n_active ?t = n_active s - 1"
    "\<And>d. d \<in> set (n_queue s) \<Longrightarrow> uri_of (n_uris ?t) (cn_uri d) = uri_of (n_uris s) (cn_uri d)"
    using free_data_effect [OF assms(1-6)] by metis
  have t: "inv_but env R X ?t"
    by (rule free_data_inv(1) [OF assms(1-6)])
  have act: "n_active ?t < nv_max_conns env"
    using q(3) assms(2) by (simp add: inv_but_def limits_ok_def)
  have same: "hkey (n_uris ?t) (cn_uri c) = hkey (n_uris s) (cn_uri c)" "hosted (n_uris ?t) (cn_uri c) = hosted (n_uris s) (cn_uri c)"
    using q(4) [OF assms(8)] by (simp_all add: hkey_def hosted_def)
  show ?thesis
  proof (cases "hosted (n_uris s) (cn_uri c)")
    case False
    with act same show ?thesis
      by (simp add: has_capacity_def get_host_connection_key)
  next
    case True
    let ?k = "hkey (n_uris s) (cn_uri c)"
    have "users (n_uris ?t) (n_queue ?t) ?k = users (n_uris s) (xs @ ?v # ys) ?k"
      by (rule users_core [OF q(2)]) (use q(1,4) in auto)
    also have "\<dots> \<le> users (n_uris s) (n_queue s) ?k"
      by (simp add: q(1))
    finally have le: "users (n_uris ?t) (n_queue ?t) ?k \<le> users (n_uris s) (n_queue s) ?k" .
    have "int (users (n_uris s) (n_queue s) ?k) < nv_max_conns_to_host env"
    proof (cases "get_host_connection s c")
      case None
      then have "hcount (n_uris s) (n_hosts s) ?k = 0"
        using True by (intro hcount_none) (simp add: get_host_connection_key find_index_None)
      then show ?thesis
        using assms(2) env_okD(2) [OF assms(1)] by (auto simp: inv_but_def hosts_ok_def)
    next
      case (Some i)
      then show ?thesis
        using assms(7) host_refs_users(1) [OF assms(2) Some] by simp
    qed
    with le act same show ?thesis
      by (intro has_capacity_users [OF t]) auto
  qed
qed

lemma quiet_suspend:
  assumes "env_ok env" "env_quiet env" "net_inv env R s" "v \<in> set (n_queue s)" "cn_state v \<noteq> S_WAIT"
  obtains xs ys where "n_queue s = xs @ v # ys"
    "map core (n_queue (suspend_connection env (cn_addr v) s)) = map core (xs @ v\<lparr>cn_running := False, cn_state := S_WAIT\<rparr> # ys)"
    "n_active (suspend_connection env (cn_addr v) s) = n_active s - 1"
    "\<And>c. c \<in> set (n_queue s) \<Longrightarrow> hkey (n_uris s) (cn_uri c) = hkey (n_uris s) (cn_uri v) \<and> hosted (n_uris s) (cn_uri c) \<or>
       (\<forall>i. get_host_connection s c = Some i \<longrightarrow> hc_refs (n_hosts s ! i) < nv_max_conns_to_host env) \<Longrightarrow>
       has_capacity env (suspend_connection env (cn_addr v) s) c"
proof -
  let ?a = "cn_addr v" and ?t = "free_connection_data env (cn_addr v) s" and ?s = "suspend_connection env (cn_addr v) s"
  have s: "inv_but env R {?a} s"
    by (rule inv_weaken [OF assms(3)]) simp
  have run: "cn_running v"
    using inv_link [OF assms(3,4)] assms(5) by (simp add: conn_link_def)
  note free = assms(1) s inv_conn_at [OF assms(3,4)] run assms(5) singletonI
  obtain xs ys where q: "n_queue s = xs @ v # ys" "map core (n_queue ?t) = map core (xs @ v\<lparr>cn_running := False\<rparr> # ys)"
      "n_active ?t = n_active s - 1"
    by (rule free_data_effect [OF free])
  have view: "sched_view (with_state ?a S_WAIT ?t) ?s"
    unfolding suspend_connection_def interrupt_connection_def by (rule quiet_set_state [OF assms(2)])
  have dist: "\<forall>d\<in>set (xs @ ys). cn_addr d \<noteq> ?a"
    using assms(3) by (auto simp: q(1) inv_but_def queue_ok_def rev_image_eqI)
  have "map core (map (\<lambda>c. if cn_addr c = ?a then c\<lparr>cn_state := S_WAIT\<rparr> else c) (n_queue ?t)) =
      map core (map (\<lambda>c. if cn_addr c = ?a then c\<lparr>cn_state := S_WAIT\<rparr> else c) (xs @ v\<lparr>cn_running := False\<rparr> # ys))"
    by (rule with_state_core [OF q(2)])
  also have "map (\<lambda>c. if cn_addr c = ?a then c\<lparr>cn_state := S_WAIT\<rparr> else c) (xs @ v\<lparr>cn_running := False\<rparr> # ys) =
      xs @ v\<lparr>cn_running := False, cn_state := S_WAIT\<rparr> # ys"
    using dist by (auto intro!: map_idI)
  finally have f1: "map core (n_queue ?s) = map core (xs @ v\<lparr>cn_running := False, cn_state := S_WAIT\<rparr> # ys)"
    using view by (simp add: sched_view_def with_state_def upd_conn_def)
  have f2: "n_active ?s = n_active s - 1"
    using view q(3) by (simp add: sched_view_def)
  have f3: "has_capacity env ?s c" if "c \<in> set (n_queue s)"
      "hkey (n_uris s) (cn_uri c) = hkey (n_uris s) (cn_uri v) \<and> hosted (n_uris s) (cn_uri c) \<or>
       (\<forall>i. get_host_connection s c = Some i \<longrightarrow> hc_refs (n_hosts s ! i) < nv_max_conns_to_host env)" for c
  proof -
    have "has_capacity env ?t c"
      using that(2)
    proof
      assume "hkey (n_uris s) (cn_uri c) = hkey (n_uris s) (cn_uri v) \<and> hosted (n_uris s) (cn_uri c)"
      then have "hkey (n_uris s) (cn_uri c) = hkey (n_uris s) (cn_uri v) \<and> hosted (n_uris s) (cn_uri v)"
        using hosted_hkey [of "n_uris s" "cn_uri c" "cn_uri v"] by simp
      then show ?thesis
        by (rule free_data_capacity [OF free _ that(1)])
    qed (rule capacity_other [OF free _ that(1)])
    then have "has_capacity env (with_state ?a S_WAIT ?t) c"
      by (auto simp: has_capacity_def get_host_connection_key split: option.splits if_splits)
    moreover have "cn_uri ` set (n_queue (with_state ?a S_WAIT ?t)) = cn_uri ` set (n_queue s)"
      using core_uris [OF q(2)] unfolding with_state_uris by (simp add: q(1))
    ultimately show ?thesis
      using sched_view_capacity [OF view, of c env] that(1) by simp
  qed
  show thesis
    by (rule that [OF q(1) f1 f2 f3])
qed

section \<open>The measure\<close>

text \<open>
  A waiting connection weighs the more the more important it is: one outweighs all less important ones
  together. The measure counts those waiting connections that are at least as important as the most important one
  that could run at once; when none could, all. Running a connection makes it smaller; suspending one leaves it, because
  the connection for which there is room now is more important than the suspended one.
\<close>

definition weight :: "nat \<Rightarrow> nat \<Rightarrow> connection list \<Rightarrow> nat" where
  "weight b p q =
     sum_list (map (\<lambda>c. if cn_state c = S_WAIT \<and> get_priority c \<le> p then b ^ (PRIORITIES - get_priority c) else 0) q)"

definition next_priority :: "net_env \<Rightarrow> net \<Rightarrow> nat" where
  "next_priority env s =
     Min (insert PRIORITIES (get_priority ` {c \<in> set (n_queue s). cn_state c = S_WAIT \<and> has_capacity env s c}))"

lemma weight_simps [simp]:
  "weight b p [] = 0" "weight b p (xs @ ys) = weight b p xs + weight b p ys"
  "weight b p (c # q) = (if cn_state c = S_WAIT \<and> get_priority c \<le> p then b ^ (PRIORITIES - get_priority c) else 0) + weight b p q"
  by (simp_all add: weight_def)

lemma weight_core: "map core q = map core q' \<Longrightarrow> weight b p q = weight b p q'"
  unfolding weight_def by (rule arg_cong [where f = sum_list], erule map_core_cong) (drule core_eqD, simp)

lemma weight_mono: "p \<le> p' \<Longrightarrow> weight b p q \<le> weight b p' q"
  by (induction q) auto

text \<open>What is less important than \<open>p\<close> adds little.\<close>

lemma weight_less_important:
  assumes "1 \<le> b"
  shows "weight b p' q \<le> weight b p q + length q * b ^ (PRIORITIES - Suc p)"
proof (induction q)
  case (Cons c q)
  have "b ^ (PRIORITIES - get_priority c) \<le> b ^ (PRIORITIES - Suc p)" if "\<not> get_priority c \<le> p"
    using that assms by (intro power_increasing) auto
  with Cons show ?case
    by (auto simp: algebra_simps)
qed simp

lemma weight_run:
  assumes "length (xs @ ys) < b" "p < PRIORITIES" "get_priority c = p" "cn_state c = S_WAIT" "p \<le> r"
  shows "weight b r' (xs @ ys) < weight b r (xs @ c # ys)"
proof -
  have b: "b * b ^ (PRIORITIES - Suc p) = b ^ (PRIORITIES - p)"
    using assms(2) by (simp flip: power_Suc add: Suc_diff_Suc)
  have "weight b r' (xs @ ys) \<le> weight b p (xs @ ys) + length (xs @ ys) * b ^ (PRIORITIES - Suc p)"
    using assms(1) by (intro weight_less_important) simp
  also have "\<dots> < weight b p (xs @ ys) + b * b ^ (PRIORITIES - Suc p)"
    using assms(1) by (intro add_strict_left_mono mult_strict_right_mono) auto
  also have "\<dots> = weight b p (xs @ c # ys)"
    using assms(3,4) b by simp
  also have "\<dots> \<le> weight b r (xs @ c # ys)"
    by (rule weight_mono [OF assms(5)])
  finally show ?thesis .
qed

lemma weight_suspend:
  assumes "r' < get_priority v'" "r' \<le> r"
  shows "weight b r' (xs @ v' # ys) \<le> weight b r (xs @ v # ys)"
  using assms weight_mono [OF assms(2), of b xs] weight_mono [OF assms(2), of b ys] by simp

lemma next_priority_le:
  assumes "c \<in> set (n_queue s)" "cn_state c = S_WAIT" "has_capacity env s c"
  shows "next_priority env s \<le> get_priority c"
  unfolding next_priority_def using assms by (intro Min_le) auto

lemma next_priority_cases:
  "next_priority env s = PRIORITIES \<or>
   (\<exists>c\<in>set (n_queue s). cn_state c = S_WAIT \<and> has_capacity env s c \<and> get_priority c = next_priority env s)"
proof -
  have "next_priority env s \<in> insert PRIORITIES (get_priority ` {c \<in> set (n_queue s). cn_state c = S_WAIT \<and> has_capacity env s c})"
    unfolding next_priority_def by (rule Min_in) auto
  then show ?thesis
    by auto
qed

text \<open>One round of the scheduler makes the measure smaller: by running a connection, or by suspending one, which
  leaves fewer running.\<close>

abbreviation load where
  "load env b s \<equiv> weight b (next_priority env s) (n_queue s)"

lemma run_decreases:
  assumes "env_ok env" "env_quiet env" "net_inv env R s" "c \<in> set (n_queue s)" "cn_state c = S_WAIT" "has_capacity env s c"
    and "length (n_queue s) < b" "get_priority c \<le> next_priority env s" "get_priority c < PRIORITIES"
  shows "length (n_queue (run_connection env (cn_addr c) s)) < b \<and> load env b (run_connection env (cn_addr c) s) < load env b s"
proof -
  let ?t = "run_connection env (cn_addr c) s"
  obtain xs ys zs where q: "n_queue s = xs @ c # ys" "map core (n_queue ?t) = map core (xs @ zs @ ys)"
    "zs = [] \<or> (\<exists>st. 0 < st \<and> zs = [c\<lparr>cn_running := True, cn_state := st\<rparr>])"
    by (rule quiet_run [OF assms(1-6)])
  have len: "length (n_queue ?t) = length (xs @ zs @ ys)"
    using q(2) by (metis length_map)
  have "weight b p (n_queue ?t) = weight b p (xs @ ys)" for p
    using weight_core [OF q(2)] q(3) by (auto simp: S_WAIT_def)
  then show ?thesis
    using weight_run [of xs ys b "get_priority c" c "next_priority env s" "next_priority env ?t"] assms(5,7-9) q(1,3) len
    by auto
qed

lemma suspend_decreases:
  assumes "env_ok env" "env_quiet env" "net_inv env R s" "v \<in> set (n_queue s)" "cn_state v \<noteq> S_WAIT"
    and "c \<in> set (n_queue s)" "cn_state c = S_WAIT" "get_priority c < get_priority v" "get_priority c \<le> next_priority env s"
    and "hkey (n_uris s) (cn_uri c) = hkey (n_uris s) (cn_uri v) \<and> hosted (n_uris s) (cn_uri c) \<or>
       (\<forall>i. get_host_connection s c = Some i \<longrightarrow> hc_refs (n_hosts s ! i) < nv_max_conns_to_host env)"
  defines "t \<equiv> suspend_connection env (cn_addr v) s"
  shows "length (n_queue t) = length (n_queue s) \<and> load env b t \<le> load env b s \<and> n_active t < n_active s \<and> 0 \<le> n_active t"
proof -
  let ?v = "v\<lparr>cn_running := False, cn_state := S_WAIT\<rparr>"
  obtain xs ys where q: "n_queue s = xs @ v # ys" "map core (n_queue t) = map core (xs @ ?v # ys)" "n_active t = n_active s - 1"
      "has_capacity env t c"
    unfolding t_def by (rule quiet_suspend [OF assms(1-5)]) (use assms(6,10) in blast)
  have len: "length (n_queue t) = length (n_queue s)"
    using q(1,2) by (metis length_map length_append list.size(4))
  have "core c \<in> set (map core (n_queue t))"
    using assms(5-7) unfolding q(2) by (auto simp: q(1))
  then obtain d where d: "d \<in> set (n_queue t)" "core d = core c"
    by auto
  then have "has_capacity env t d" "cn_state d = S_WAIT" "get_priority d = get_priority c"
    using has_capacity_view [of t t c d] q(4) assms(7) core_eqD [OF d(2)] by simp_all
  then have r': "next_priority env t \<le> get_priority c"
    using next_priority_le [OF d(1)] by metis
  have "load env b t \<le> load env b s"
    unfolding weight_core [OF q(2)] q(1)
    by (rule weight_suspend) (use r' assms(8,9) in \<open>simp_all add: get_priority_def\<close>)
  moreover have "cn_running v"
    using inv_link [OF assms(3,4)] assms(5) by (simp add: conn_link_def)
  then have "0 < n_active s"
    using assms(3) by (simp add: inv_but_def queue_ok_def q(1))
  ultimately show ?thesis
    using q(3) len by simp
qed

lemma scan_decreases:
  assumes "env_ok env" "env_quiet env" "net_inv env R s" "scan_queue env (n_queue s) s = Some t" "length (n_queue s) < b"
  shows "length (n_queue t) < b \<and>
    (load env b t < load env b s \<or> load env b t \<le> load env b s \<and> n_active t < n_active s \<and> 0 \<le> n_active t)"
proof -
  have sorted: "sorted (map get_priority (n_queue s))" "\<forall>c\<in>set (n_queue s). conn_wf c"
    using assms(3) by (simp_all add: inv_but_def queue_ok_def list_all_iff)
  obtain c r where c: "c \<in> set (n_queue s)" "cn_state c = S_WAIT" "try_connection env c s = (r, t)" "r \<noteq> 0"
      "\<forall>d\<in>set (n_queue s). cn_state d = S_WAIT \<longrightarrow> fst (try_connection env d s) \<noteq> 0 \<longrightarrow> get_priority c \<le> get_priority d"
    using scan_queue_spec [OF assms(1,3) _ sorted(1)] assms(4) by auto
  have pri: "get_priority c < PRIORITIES"
    using sorted(2) c(1) by (simp add: conn_wf_def)
  have le: "get_priority c \<le> next_priority env s"
    using next_priority_cases [of env s]
  proof
    assume "\<exists>d\<in>set (n_queue s). cn_state d = S_WAIT \<and> has_capacity env s d \<and> get_priority d = next_priority env s"
    then obtain d where d: "d \<in> set (n_queue s)" "cn_state d = S_WAIT" "has_capacity env s d" "get_priority d = next_priority env s"
      by blast
    have "fst (try_connection env d s) \<noteq> 0"
      using try_connection_cases [OF assms(3) d(1,2)] d(3) by (metis fst_conv zero_neq_one)
    with c(5) d show ?thesis
      by auto
  qed (use pri in simp)
  show ?thesis
    using assms(3) c(1,2)
  proof (cases rule: try_connection_cases)
    case idle
    with c(3,4) show ?thesis
      by simp
  next
    case run
    with c(3) show ?thesis
      using run_decreases [OF assms(1-3) c(1,2) run(2) assms(5) le pri] by simp
  next
    case (suspend v)
    with c(3) show ?thesis
      using suspend_decreases [OF assms(1-3) suspend(2,4) c(1,2) suspend(3) le suspend(6), of b] assms(5) by simp
  qed
qed

text \<open>Keepalive connections do not enter the measure.\<close>

lemma capacity_sched_eq: "sched_eq s t \<Longrightarrow> c \<in> set (n_queue s) \<Longrightarrow> has_capacity env t c = has_capacity env s c"
  by (rule sched_view_capacity) (simp_all add: sched_eq_def sched_view_def)

lemma load_sched_eq: "sched_eq s t \<Longrightarrow> load env b t = load env b s"
proof -
  assume e: "sched_eq s t"
  then have "{c \<in> set (n_queue t). cn_state c = S_WAIT \<and> has_capacity env t c} = {c \<in> set (n_queue s). cn_state c = S_WAIT \<and> has_capacity env s c}"
    using capacity_sched_eq [OF e] by (auto simp: sched_eq_def)
  with e show ?thesis
    by (simp add: next_priority_def sched_eq_def)
qed

section \<open>Cancelled connections\<close>

text \<open>Whether a connection can be suspended to make room for a waiting one.\<close>

definition host_full :: "net_env \<Rightarrow> net \<Rightarrow> connection \<Rightarrow> bool" where
  "host_full env s c \<longleftrightarrow> (\<exists>i. get_host_connection s c = Some i \<and> hc_refs (n_hosts s ! i) \<ge> nv_max_conns_to_host env)"

definition gives_way :: "net_env \<Rightarrow> net \<Rightarrow> connection \<Rightarrow> connection \<Rightarrow> bool" where
  "gives_way env s c v \<longleftrightarrow>
     get_priority c < get_priority v \<and> cn_state v \<noteq> S_WAIT \<and> (u_post (conn_uri s v) = None \<or> PRI_CANCEL \<le> get_priority v) \<and>
     (host_full env s c \<longrightarrow> compare_uri (cn_uri c = cn_uri v) (conn_uri s c) (conn_uri s v) URI_HOST)"

lemma find_victim_None:
  "sorted_wrt (\<ge>) (map get_priority q) \<Longrightarrow> find_victim s p u q = None \<Longrightarrow>
     \<forall>v\<in>set q. \<not> (p < get_priority v \<and> cn_state v \<noteq> S_WAIT \<and> (u_post (conn_uri s v) = None \<or> PRI_CANCEL \<le> get_priority v) \<and>
       (\<forall>u'. u = Some u' \<longrightarrow> hkey (n_uris s) u' = hkey (n_uris s) (cn_uri v)))"
proof (induction q)
  case (Cons c q)
  show ?case
  proof (cases "get_priority c \<le> p")
    case True
    with Cons.prems(1) show ?thesis
      by auto
  next
    case False
    with Cons show ?thesis
      by (auto simp: conn_uri_def compare_host split: if_splits option.splits)
  qed
qed simp

lemma find_cancelled_None:
  "sorted_wrt (\<ge>) (map get_priority q) \<Longrightarrow> find_cancelled q = None \<Longrightarrow>
     \<forall>c\<in>set q. cn_state c = S_WAIT \<longrightarrow> get_priority c < PRI_CANCEL"
  by (induction q) (auto split: if_splits)

lemma sorted_rev_queue: "sorted (map get_priority q) \<Longrightarrow> sorted_wrt (\<ge>) (map get_priority (rev q))"
  by (simp add: sorted_wrt_rev flip: rev_map)

text \<open>Nothing can be done for a waiting connection: there is no room, and none can be made.\<close>

definition blocked :: "net_env \<Rightarrow> net \<Rightarrow> connection \<Rightarrow> bool" where
  "blocked env s c \<longleftrightarrow> \<not> has_capacity env s c \<and> \<not> (\<exists>v\<in>set (n_queue s). gives_way env s c v)"

lemma victim_none_blocked:
  assumes "find_victim s (get_priority c) u (rev (n_queue s)) = None" "sorted (map get_priority (n_queue s))"
    and "\<And>u'. u = Some u' \<Longrightarrow> host_full env s c \<and> hkey (n_uris s) u' = hkey (n_uris s) (cn_uri c)"
  shows "\<not> (\<exists>v\<in>set (n_queue s). gives_way env s c v)"
proof
  assume "\<exists>v\<in>set (n_queue s). gives_way env s c v"
  then obtain v where v: "v \<in> set (n_queue s)" "gives_way env s c v"
    by blast
  have "\<forall>u'. u = Some u' \<longrightarrow> hkey (n_uris s) u' = hkey (n_uris s) (cn_uri v)"
    using assms(3) v(2) by (auto simp: gives_way_def conn_uri_def compare_host)
  with v show False
    using find_victim_None [OF sorted_rev_queue [OF assms(2)] assms(1)] by (auto simp: gives_way_def)
qed

lemma try_connection_blocked:
  assumes "net_inv env R s" "c \<in> set (n_queue s)" "cn_state c = S_WAIT" "fst (try_connection env c s) = 0"
  shows "blocked env s c"
proof -
  have cap: "\<not> has_capacity env s c"
    using assms(1-3)
    by (cases rule: try_connection_cases) (use assms(4) in auto)
  have sorted: "sorted (map get_priority (n_queue s))"
    using assms(1) by (simp add: inv_but_def queue_ok_def)
  have none: "find_victim s (get_priority c) u (rev (n_queue s)) = None"
    if "fst (case try_to_suspend_connection env c u s of (r, s) \<Rightarrow> (if r \<noteq> 0 then 0 else - 1, s)) = (0 :: int)" for u
    using that by (auto simp: try_to_suspend_connection_def split: option.splits)
  have "\<not> (\<exists>v\<in>set (n_queue s). gives_way env s c v)"
  proof (cases "host_full env s c")
    case True
    then obtain i where i: "get_host_connection s c = Some i" "hc_refs (n_hosts s ! i) \<ge> nv_max_conns_to_host env"
      by (auto simp: host_full_def)
    have "find_victim s (get_priority c) (Some (hc_uri (n_hosts s ! i))) (rev (n_queue s)) = None"
      using assms(4) i by (intro none) (simp add: try_connection_def)
    then show ?thesis
      by (rule victim_none_blocked [OF _ sorted]) (use host_refs_users(4) [OF assms(1) i(1)] True in simp)
  next
    case False
    then have "n_active s \<ge> nv_max_conns env"
      using cap by (auto simp: has_capacity_def host_full_def split: option.splits)
    then have "find_victim s (get_priority c) None (rev (n_queue s)) = None"
      using assms(4) False by (intro none) (auto simp: try_connection_def host_full_def split: option.splits)
    then show ?thesis
      by (rule victim_none_blocked [OF _ sorted]) simp
  qed
  with cap show ?thesis
    by (simp add: blocked_def)
qed

lemma blocked_sub:
  assumes "n_hosts t = n_hosts s" "n_active t = n_active s"
    and "\<forall>b \<in> cn_uri ` set (n_queue t) \<union> hc_uri ` set (n_hosts t). uri_of (n_uris t) b = uri_of (n_uris s) b"
    and "core ` set (n_queue t) \<subseteq> core ` set (n_queue s)" "c \<in> set (n_queue t)" "core d = core c" "blocked env s d"
  shows "blocked env t c"
proof -
  have fi: "find_index P hs = find_index Q hs" if "\<forall>h\<in>set hs. P h = Q h" for P Q and hs :: "host_connection list"
    using that by (induction hs) auto
  have cd: "cn_uri d = cn_uri c" "get_priority d = get_priority c"
    using core_eqD [OF assms(6)] by simp_all
  have u: "uri_of (n_uris t) (cn_uri c) = uri_of (n_uris s) (cn_uri c)"
    using assms(3,5) by simp
  have host: "get_host_connection t c = get_host_connection s d"
    unfolding get_host_connection_key hosted_def hkey_def cd(1) u using assms(1,3) by (auto intro!: fi)
  have "gives_way env s d w" if "v \<in> set (n_queue t)" "core v = core w" "gives_way env t c v" for v w
  proof -
    have "cn_uri w = cn_uri v" "get_priority w = get_priority v" "cn_state w = cn_state v"
      using core_eqD [OF that(2)] by simp_all
    moreover have "uri_of (n_uris t) (cn_uri v) = uri_of (n_uris s) (cn_uri v)"
      using assms(3) that(1) by simp
    ultimately show ?thesis
      using that(3) host u cd assms(1) by (simp add: gives_way_def host_full_def conn_uri_def)
  qed
  moreover have "has_capacity env t c = has_capacity env s d"
    using host assms(1,2) by (simp add: has_capacity_def split: option.split)
  ultimately show ?thesis
    using assms(4,7) unfolding blocked_def by (metis (no_types, lifting) image_iff subset_iff)
qed

text \<open>Removing a waiting connection nobody wants leaves the others as they are.\<close>

lemma quiet_done_uris:
  assumes "env_ok env" "env_quiet env" "inv_but env R {a} s" "conn_at s a = Some c" "\<not> cn_running c"
    and "b \<in> cn_uri ` set (n_queue (done_connection env a s)) \<union> hc_uri ` set (n_hosts (done_connection env a s))"
  shows "uri_of (n_uris (done_connection env a s)) b = uri_of (n_uris s) b"
proof -
  define s1 where "s1 = (if \<not> is_in_result_state (cn_state c) then set_connection_state env a S_INTERNAL s else s)"
  have "same_view (with_state a S_INTERNAL s) (set_connection_state env a S_INTERNAL s)"
    by (rule set_state_result) (simp add: is_in_result_state_def conn_states)
  then have "inv_but env R {a} (set_connection_state env a S_INTERNAL s)"
    "\<exists>d. conn_at (set_connection_state env a S_INTERNAL s) a = Some d \<and> core d = core (c\<lparr>cn_state := S_INTERNAL\<rparr>)"
    "n_cache (set_connection_state env a S_INTERNAL s) = n_cache s"
    using with_state_inv [OF assms(3,4), of "{a}"] inv_same_view conn_at_with_state [of a S_INTERNAL s] assms(4)
    by (blast, metis conn_at_core option.simps(9), simp add: same_view_def)
  then obtain d where d: "inv_but env R {a} s1" "conn_at s1 a = Some d" "\<not> cn_running d" "n_cache s1 = n_cache s"
    using assms(3-5) by (cases "is_in_result_state (cn_state c)") (auto simp: s1_def dest: core_eqD)
  define t where "t = notify_connection_callbacks env d (del_conn a s1)"
  have view: "sched_view (del_conn a s1) t"
    unfolding notify_connection_callbacks_def t_def by (rule quiet_notify [OF assms(2)]) simp
  have t: "net_inv env (conn_refs d @ R) t"
    using notify_inv [OF assms(1)] inv_del_conn [OF d(1-3)] by (simp add: t_def notify_connection_callbacks_def)
  define t1 where "t1 = (case cn_referrer d of None \<Rightarrow> t | Some r \<Rightarrow> upd_uris (done_uri r) t)"
  define t2 where "t2 = upd_uris (done_uri (cn_uri d)) t1"
  have done': "done_connection env a s = upd_uris (done_uri (cn_proxied_uri d)) t2"
    by (simp only: done_connection_def assms(4) option.case Let_def s1_def [symmetric] d(2) t_def t1_def t2_def)
  have refs: "net_refs t1 = net_refs t" "net_refs t2 = net_refs t"
    by (simp_all add: t1_def t2_def split: option.split)
  have same: "n_queue (done_connection env a s) = n_queue t" "n_hosts (done_connection env a s) = n_hosts t"
    by (simp_all add: done' t1_def t2_def split: option.split)
  then have b: "b \<in> set (net_refs t)"
    using assms(6) cn_uri_ref refs_mem(2) by auto
  have "b \<in> cn_uri ` set (n_queue (del_conn a s1)) \<union> hc_uri ` set (n_hosts (del_conn a s1))"
    using assms(6) view core_uris [of "n_queue t" "n_queue (del_conn a s1)"] by (simp only: same sched_view_def)
  then have old: "uri_of (n_uris t) b = uri_of (n_uris s) b"
    using view d(4) by (simp add: sched_view_def del_conn_def)
  have i1: "net_inv env (cn_uri d # cn_proxied_uri d # R) t1" "uri_of (n_uris t1) b = uri_of (n_uris t) b"
    using t inv_release [of env _ _ "{}" t] b by (simp_all add: t1_def conn_refs_def split: option.splits)
  have i2: "net_inv env (cn_proxied_uri d # R) t2" "uri_of (n_uris t2) b = uri_of (n_uris t1) b"
    using inv_release [OF i1(1)] b by (simp_all add: t2_def refs)
  have "uri_of (n_uris (done_connection env a s)) b = uri_of (n_uris t2) b"
    using inv_release(2) [OF i2(1)] b by (simp add: done' refs)
  with i1(2) i2(2) old show ?thesis
    by simp
qed

lemma cancel_step:
  assumes "env_ok env" "env_quiet env" "net_inv env R s" "find_cancelled (rev (n_queue s)) = Some a"
    and "\<forall>c\<in>set (n_queue s). cn_state c = S_WAIT \<longrightarrow> blocked env s c"
  defines "t \<equiv> done_connection env a (set_connection_state env a S_INTERRUPTED s)"
  shows "net_inv env R t" "length (n_queue t) < length (n_queue s)"
    "\<forall>c\<in>set (n_queue t). cn_state c = S_WAIT \<longrightarrow> blocked env t c"
proof -
  obtain c where c: "c \<in> set (n_queue s)" "cn_addr c = a" "cn_state c = S_WAIT"
    using find_cancelled_Some [OF assms(4)] by auto
  show t: "net_inv env R t"
    unfolding t_def by (rule cancel_step_inv [OF assms(1,3,4)])
  let ?s = "set_connection_state env a S_INTERRUPTED s"
  have s: "inv_but env R {a} s"
    by (rule inv_weaken [OF assms(3)]) simp
  have at: "conn_at s a = Some c"
    using inv_conn_at [OF assms(3) c(1)] c(2) by simp
  obtain d where d: "inv_but env R {a} ?s" "conn_at ?s a = Some d" "core d = core (c\<lparr>cn_state := S_INTERRUPTED\<rparr>)"
      "same_view (with_state a S_INTERRUPTED s) ?s"
    using result_state_inv [OF s at, of S_INTERRUPTED] by (auto simp: is_in_result_state_def conn_states)
  have idle: "\<not> cn_running d"
    using inv_link [OF assms(3) c(1)] c(3) core_eqD [OF d(3)] by (simp add: conn_link_def)
  have q: "map core (n_queue t) = map core (filter (\<lambda>c. cn_addr c \<noteq> a) (n_queue s))" "n_hosts t = n_hosts s" "n_active t = n_active s"
    using quiet_done [OF assms(2) d(2)] with_state_without [OF sched_view_same [OF d(4)]] by (simp_all add: without_def t_def)
  have "length (filter (\<lambda>c. cn_addr c \<noteq> a) (n_queue s)) < length (n_queue s)"
    using c(1,2) by (auto intro!: length_filter_less)
  then show "length (n_queue t) < length (n_queue s)"
    using q(1) by (metis length_map)
  have uris: "\<forall>b \<in> cn_uri ` set (n_queue t) \<union> hc_uri ` set (n_hosts t). uri_of (n_uris t) b = uri_of (n_uris s) b"
    using quiet_done_uris [OF assms(1,2) d(1,2) idle] d(4) by (simp add: same_view_def t_def)
  have sub: "core ` set (n_queue t) \<subseteq> core ` set (n_queue s)"
    using arg_cong [OF q(1), of set] by auto
  show "\<forall>c\<in>set (n_queue t). cn_state c = S_WAIT \<longrightarrow> blocked env t c"
  proof (intro ballI impI)
    fix e assume e: "e \<in> set (n_queue t)" "cn_state e = S_WAIT"
    obtain f where f: "f \<in> set (n_queue s)" "core f = core e"
      using sub e(1) by force
    then have "blocked env s f"
      using assms(5) e(2) core_eqD [OF f(2)] by simp
    then show "blocked env t e"
      by (rule blocked_sub [OF q(2,3) uris sub e(1) f(2)])
  qed
qed

lemma cancel_waiting_returns:
  assumes "env_ok env" "env_quiet env" "net_inv env R s" "\<forall>c\<in>set (n_queue s). cn_state c = S_WAIT \<longrightarrow> blocked env s c"
  shows "\<exists>t. cancel_waiting env s = Some t \<and> net_inv env R t \<and>
    (\<forall>c\<in>set (n_queue t). cn_state c = S_WAIT \<longrightarrow> get_priority c < PRI_CANCEL \<and> blocked env t c)"
  using assms(3,4)
proof (induction "length (n_queue s)" arbitrary: s rule: less_induct)
  case less
  show ?case
  proof (cases "find_cancelled (rev (n_queue s))")
    case None
    have "\<forall>c\<in>set (n_queue s). cn_state c = S_WAIT \<longrightarrow> get_priority c < PRI_CANCEL"
      using find_cancelled_None [OF sorted_rev_queue None] less.prems(1) by (simp add: inv_but_def queue_ok_def)
    with None less.prems show ?thesis
      by (simp add: cancel_waiting.simps)
  next
    case (Some a)
    note step = cancel_step [OF assms(1,2) less.prems(1) Some less.prems(2)]
    from less.hyps [OF step(2,1,3)] Some show ?thesis
      by (simp add: cancel_waiting.simps [of env s])
  qed
qed

lemma check_queue_ends:
  assumes "env_ok env" "env_quiet env" "net_inv env R s" "length (n_queue s) < b"
  shows "\<exists>t. check_queue env s = Some t \<and> net_inv env R t \<and>
    (\<forall>c\<in>set (n_queue t). cn_state c = S_WAIT \<longrightarrow> get_priority c < PRI_CANCEL \<and> blocked env t c)"
  using assms(3,4)
proof (induction "(load env b s, nat (n_active s))" arbitrary: s rule: wf_induct_rule [OF wf_lex_prod [OF wf_less_than wf_less_than]])
  case less: 1
  let ?s = "check_keepalive_connections env s"
  note keep = check_keepalive_inv [OF less.prems(1)]
  have eq: "n_queue ?s = n_queue s" "n_active ?s = n_active s" "load env b ?s = load env b s"
    using keep(2) load_sched_eq [OF keep(2)] by (simp_all add: sched_eq_def)
  show ?case
  proof (cases "scan_queue env (n_queue ?s) ?s")
    case None
    have "sorted (map get_priority (n_queue ?s))"
      using keep(1) by (simp add: inv_but_def queue_ok_def)
    then have "\<forall>c\<in>set (n_queue ?s). cn_state c = S_WAIT \<longrightarrow> blocked env ?s c"
      using scan_queue_spec [OF assms(1) keep(1) order_refl] None try_connection_blocked [OF keep(1)] by auto
    from cancel_waiting_returns [OF assms(1,2) keep(1) this] None show ?thesis
      by (simp add: check_queue.simps [of env s] Let_def)
  next
    case (Some t)
    have dec: "length (n_queue t) < b" "load env b t < load env b s \<or> load env b t \<le> load env b s \<and> n_active t < n_active s \<and> 0 \<le> n_active t"
      using scan_decreases [OF assms(1,2) keep(1) Some, of b] less.prems(2) eq by simp_all
    then have "((load env b t, nat (n_active t)), (load env b s, nat (n_active s))) \<in> less_than <*lex*> less_than"
      by (auto simp: nat_less_iff)
    from less.hyps [OF this scan_queue_inv [OF assms(1) keep(1) Some] dec(1)] Some show ?thesis
      by (simp add: check_queue.simps [of env s] Let_def)
  qed
qed

section \<open>The scheduler returns\<close>

text \<open>C6: \<^verbatim>\<open>check_queue\<close> returns from every state that satisfies the invariant of the queue (\<open>net_inv\<close>, which every step of
  \<open>net_step\<close> keeps; it includes that the limits are kept and that no idle connection has a \<^verbatim>\<open>done\<close> function), however connections are suspended and started in between, provided that the surroundings keep that invariant
  (\<open>env_ok\<close>) and leave the queue to the scheduler (\<open>env_quiet\<close>): callbacks change neither the queue nor the host connections nor the number of running connections, so that
  they load no URI, and a handler brings its connection into a state of progress or finishes it as
  \<^verbatim>\<open>abort_connection\<close> does. What they do to the cache, to idle connections, downloads and timers is free. When \<^verbatim>\<open>check_queue\<close> returns
  the assertions of \<^verbatim>\<open>check_queue_bugs\<close> hold, no waiting connection is left that nobody wants, and for
  every waiting connection there is neither room nor a less important running connection that could make room: the one
  limit is used up, and if it is the limit of its host, by connections to that host.\<close>

theorem check_queue_returns:
  assumes "env_ok env" "env_quiet env" "net_inv env R s"
  shows "\<exists>t. check_queue env s = Some t \<and> net_inv env R t \<and> check_queue_bugs t \<and>
    (\<forall>c\<in>set (n_queue t). cn_state c = S_WAIT \<longrightarrow>
       get_priority c < PRI_CANCEL \<and> \<not> has_capacity env t c \<and> \<not> (\<exists>v\<in>set (n_queue t). gives_way env t c v))"
proof -
  have bugs: "net_inv env R t \<Longrightarrow> check_queue_bugs t" for t
    by (auto simp: inv_but_def queue_ok_def check_queue_bugs_def conn_link_def list_all_iff running_def)
  have "length (n_queue s) < Suc (length (n_queue s))"
    by simp
  from check_queue_ends [OF assms this] bugs show ?thesis
    by (auto simp: blocked_def)
qed

text \<open>A program around the module that keeps its side: handlers that start a connection, callbacks that look on.\<close>

definition sample_net_env :: "(uri_cache \<Rightarrow> uri_mem) \<Rightarrow> net_env" where
  "sample_net_env m =
     \<lparr>nv_cache = sample_cache_env, nv_uri_mem = m, nv_conn_mem = (\<lambda>s. Some (Suc (foldr (max \<circ> cn_addr) (n_queue s) 0))),
      nv_keep_mem = (\<lambda>s. Some (Suc (foldr (max \<circ> ka_addr) (n_keepalives s) 0))), nv_host_mem = (\<lambda>_. True),
      nv_timer_mem = (\<lambda>_. None), nv_bottom_half_mem = (\<lambda>_. True), nv_max_conns = 2, nv_max_conns_to_host = 1,
      nv_retries = 3, nv_receive_timeout = 120, nv_unrestartable_timeout = 600, nv_can_read = (\<lambda>_. False),
      nv_callback = (\<lambda>_ s. s), nv_handler = (\<lambda>_ a s. with_state a 1 s), nv_done = (\<lambda>_ _ s. s), nv_format_cache = (\<lambda>_. [])\<rparr>"

lemma foldr_max: "x \<in> set xs \<Longrightarrow> (f x :: nat) \<le> foldr (max \<circ> f) xs 0"
  by (induction xs) auto

lemma sample_env_ok: "allocates_fresh sample_cache_env m \<Longrightarrow> env_ok (sample_net_env m)"
proof -
  assume m: "allocates_fresh sample_cache_env m"
  have "Suc (foldr (max \<circ> cn_addr) (n_queue s) 0) \<notin> cn_addr ` set (n_queue s)" for s
    using foldr_max [of _ "n_queue s" cn_addr] by fastforce
  moreover have "Suc (foldr (max \<circ> ka_addr) (n_keepalives s) 0) \<notin> ka_addr ` set (n_keepalives s)" for s
    using foldr_max [of _ "n_keepalives s" ka_addr] by fastforce
  moreover have "net_inv env R (with_state a 1 s)" if "inv_but env R {a} s" "conn_at s a = Some c" "cn_running c" for env R a s c
    using that by (intro with_state_inv [OF that(1,2)]) (simp_all add: conn_link_def is_in_progress_state_def conn_states)
  ultimately show ?thesis
    using m by (auto simp: env_ok_def sample_net_env_def conn_at_None)
qed

lemma sample_env_quiet: "env_quiet (sample_net_env m)"
  unfolding env_quiet_def sample_net_env_def by (auto intro: exI [of _ "1 :: int"])

definition sample_conn :: "nat \<Rightarrow> nat \<Rightarrow> nat \<Rightarrow> connection" where
  "sample_conn a pri u =
     \<lparr>cn_addr = a, cn_id = 0, cn_downloads = [], cn_progress = the (init_progress True 0), cn_uri = u, cn_proxied_uri = u,
      cn_referrer = None, cn_cache_mode = CACHE_MODE_NORMAL, cn_cached = None, cn_from = 0, cn_received = 0, cn_est_length = - 1,
      cn_done = None, cn_state = S_WAIT, cn_prev_error = 0, cn_socket = new_socket, cn_data_socket = new_socket, cn_tries = 0,
      cn_timer = None, cn_cgi_pipes = (- 1, - 1), cn_stream = False, cn_stream_pipes = (- 1, - 1), cn_info = False,
      cn_running = False, cn_unrestartable = False, cn_detached = False, cn_pri = (replicate PRIORITIES 0)[pri := 1]\<rparr>"

definition sample_net :: "nat \<Rightarrow> uri_cache \<Rightarrow> net" where
  "sample_net u uc =
     \<lparr>n_queue = [sample_conn 1 0 u, sample_conn 2 4 u], n_hosts = [], n_keepalives = [], n_connection_id = 2, n_active = 0,
      n_keepalive_timeout = None, n_downloads = (\<lambda>_. None),
      n_cache = \<lparr>cs_entries = [], cs_globals = \<lparr>cache_size = 0, id_counter = 1\<rparr>, cs_uris = uc\<rparr>,
      n_timers = [], n_closed = [], n_check = True, n_clients = []\<rparr>"

lemma sample_net_inv: "\<exists>u uc. net_inv (sample_net_env m) [] (sample_net u uc) \<and> hosted uc u"
proof -
  obtain u uc where uc: "uc_ok (\<lambda>_. False) uc" "held uc u = 1" "uri_at uc u = Some sample_uri"
    by (rule sample_registered)
  define uc' where "uc' = (get_uri_reference u ^^ 3) uc"
  have "uc_ok (\<lambda>_. False) ((get_uri_reference u ^^ n) uc) \<and> held ((get_uri_reference u ^^ n) uc) u = Suc n" for n
  proof (induction n)
    case (Suc n)
    then show ?case
      using ur.acquire [of "\<lambda>_. False" "(get_uri_reference u ^^ n) uc" u] by simp
  qed (use uc in simp)
  then have uc': "uc_ok (\<lambda>_. False) uc'" "held uc' u = 4"
    by (simp_all add: uc'_def)
  have "uri_at ((get_uri_reference u ^^ n) uc) = uri_at uc" for n
    by (induction n) simp_all
  then have "hosted uc' u"
    using uc(3) by (simp add: hosted_def uri_of_def uc'_def parsed_def Let_def)
  moreover have "up_of (sample_net_env m) = (\<lambda>_. False)"
    by (simp add: up_of_def sample_net_env_def sample_cache_env_def sample_proxy_env_def)
  with uc' have "net_inv (sample_net_env m) [] (sample_net u uc')"
    by (auto simp: inv_but_def queue_ok_def hosts_ok_def uris_ok_def limits_ok_def sample_net_def sample_conn_def net_refs_def
        conn_refs_def conn_wf_def conn_link_def get_priority_def running_def users_def hcount_def PRIORITIES_def
        is_in_progress_state_def conn_states sample_net_env_def owned_def eval_nat_numeral)
  ultimately show ?thesis
    by blast
qed

theorem check_queue_returns_witness:
  "\<exists>m u uc t. net_inv (sample_net_env m) [] (sample_net u uc) \<and> hosted uc u \<and>
     check_queue (sample_net_env m) (sample_net u uc) = Some t \<and> check_queue_bugs t"
proof -
  obtain m where "allocates_fresh sample_cache_env m"
    using good_allocator [of sample_cache_env] by blast
  moreover obtain u uc where "net_inv (sample_net_env m) [] (sample_net u uc)" "hosted uc u"
    using sample_net_inv by blast
  ultimately show ?thesis
    using check_queue_returns [OF sample_env_ok sample_env_quiet] by metis
qed

end
