(* ===== verification/ConnApi.thy ===== *)
theory ConnApi
  imports ConnLive
begin

text \<open>
  The interface of \<^verbatim>\<open>network/connection.c\<close> as a transition system: every operation that the rest of the program calls
  keeps the invariant of the queue, so that it holds in every state that can be reached.
\<close>

section \<open>The cache under the queue\<close>

text \<open>An operation on the cache that leaves the URIs in use where they are and accounts for its references.\<close>

lemma inv_cache:
  assumes "inv_but env R X s" "uris_ok (up_of env) R' (s\<lparr>n_cache := cs\<rparr>)"
    and "\<And>a. a \<in> set (net_refs s) \<Longrightarrow> uri_of (cs_uris cs) a = uri_of (n_uris s) a"
  shows "inv_but env R' X (s\<lparr>n_cache := cs\<rparr>)"
proof -
  have "hosts_ok (cs_uris cs) (n_hosts s) (n_queue s)"
  proof (subst hosts_ok_cong)
    show "hosts_ok (n_uris s) (n_hosts s) (n_queue s)"
      using assms(1) by (simp add: inv_but_def)
    fix a assume "a \<in> cn_uri ` set (n_queue s) \<union> hc_uri ` set (n_hosts s)"
    then show "uri_of (cs_uris cs) a = uri_of (n_uris s) a"
      using refs_mem(1,2) cn_uri_mem by (intro assms(3)) blast
  qed
  with assms(1,2) show ?thesis
    by (simp add: inv_but_def queue_ok_def limits_ok_def)
qed

lemma net_refs_cache [simp]: "net_refs (s\<lparr>n_cache := cs\<rparr>) = net_refs s"
  by (simp add: net_refs_def)

lemma uris_ok_cache:
  "uris_ok up R (s\<lparr>n_cache := cs\<rparr>) \<longleftrightarrow>
     uc_ok up (cs_uris cs) \<and> distinct (map ca_addr (cs_entries cs)) \<and>
     (\<forall>a. owned (cs_entries cs) a + count_list (net_refs s @ R) a \<le> held (cs_uris cs) a)"
  by (simp add: uris_ok_def)

text \<open>Entries may move and change as long as they keep their address and their URIs.\<close>

lemma inv_entries:
  assumes "inv_but env R X s" "cs_uris cs = n_uris s"
    and "mset (map (\<lambda>c. (ca_addr c, owned_uris c)) (cs_entries cs)) = mset (map (\<lambda>c. (ca_addr c, owned_uris c)) (cs_entries (n_cache s)))"
  shows "inv_but env R X (s\<lparr>n_cache := cs\<rparr>)"
proof (rule inv_cache [OF assms(1)])
  have o: "owned es a = sum_mset (image_mset (\<lambda>p. count_list (snd p) a) (mset (map (\<lambda>c. (ca_addr c, owned_uris c)) es)))" for es a
    by (induction es) simp_all
  have "owned (cs_entries cs) a = owned (cs_entries (n_cache s)) a" for a
    unfolding o assms(3) ..
  moreover have "mset (map fst (map (\<lambda>c. (ca_addr c, owned_uris c)) (cs_entries cs))) =
      mset (map fst (map (\<lambda>c. (ca_addr c, owned_uris c)) (cs_entries (n_cache s))))"
    by (simp only: mset_map [of fst] assms(3))
  then have "distinct (map ca_addr (cs_entries cs)) = distinct (map ca_addr (cs_entries (n_cache s)))"
    by (intro mset_eq_imp_distinct_iff) (simp add: comp_def)
  moreover have "uris_ok (up_of env) R s"
    using assms(1) by (simp add: inv_but_def)
  ultimately show "uris_ok (up_of env) R (s\<lparr>n_cache := cs\<rparr>)"
    unfolding uris_ok_cache by (simp add: assms(2) uris_ok_def)
qed (simp add: assms(2))

lemma inv_find_in_cache:
  assumes "inv_but env R X s" "find_in_cache a (n_cache s) = (r, cs)"
  shows "inv_but env R X (s\<lparr>n_cache := cs\<rparr>)" "\<And>c. r = Some c \<Longrightarrow> c \<in> set (cs_entries cs)"
proof -
  show "inv_but env R X (s\<lparr>n_cache := cs\<rparr>)"
    using assms(2)
  proof (cases rule: find_in_cache_cases)
    case 1
    with assms(1) show ?thesis
      by simp
  next
    case 2
    then show ?thesis
      by (intro inv_entries [OF assms(1)]) (simp_all add: mset_move_to_top)
  qed
  show "c \<in> set (cs_entries cs)" if "r = Some c" for c
    using assms(2) that by (cases rule: find_in_cache_cases) (auto simp: set_move_to_top)
qed

lemma inv_delete_entry:
  assumes "inv_but env R X s" "c \<in> set (cs_entries (n_cache s))"
  shows "inv_but env R X (s\<lparr>n_cache := delete_cache_entry c (n_cache s)\<rparr>)"
proof (rule inv_cache [OF assms(1)])
  have ok: "uc_ok (up_of env) (n_uris s)" "distinct (map ca_addr (cs_entries (n_cache s)))"
    "\<And>a. owned (cs_entries (n_cache s)) a + count_list (net_refs s @ R) a \<le> held (n_uris s) a"
    using assms(1) by (simp_all add: inv_but_def uris_ok_def)
  note rem = remove_entry(2) [OF ok(2) assms(2)]
  have le: "\<forall>a. count_list (owned_uris c) a \<le> held (n_uris s) a"
  proof
    show "count_list (owned_uris c) a \<le> held (n_uris s) a" for a
      using ok(3) [of a] rem [of a] by simp
  qed
  let ?uc = "foldl (\<lambda>uc a. done_uri a uc) (n_uris s) (owned_uris c)"
  note rel = ur.release_all [OF ok(1) le]
  have bound: "owned (filter (\<lambda>d. ca_addr d \<noteq> ca_addr c) (cs_entries (n_cache s))) a + count_list (net_refs s @ R) a \<le> held ?uc a" for a
    using ok(3) [of a] rem [of a] rel by simp
  then show "uris_ok (up_of env) R (s\<lparr>n_cache := delete_cache_entry c (n_cache s)\<rparr>)"
    unfolding uris_ok_cache using rel ok(2) by (simp add: delete_cache_entry_def done_cache_entry_def distinct_map_filter)
  fix a assume "a \<in> set (net_refs s)"
  then have "0 < held ?uc a"
    using bound [of a] count_list_pos [of a "net_refs s"] by (simp add: count_list_append)
  then show "uri_of (cs_uris (delete_cache_entry c (n_cache s))) a = uri_of (n_uris s) a"
    using release_uris [OF ok(1) le, of a] by (simp add: uri_of_def delete_cache_entry_def done_cache_entry_def)
qed

lemma inv_validated_entry:
  assumes "inv_but env R X s" "get_validated_cache_entry cenv a mode (n_cache s) = (r, cs)"
  shows "inv_but env R X (s\<lparr>n_cache := cs\<rparr>)"
proof (cases "find_in_cache a (n_cache s)")
  case (Pair r' cs')
  note find = inv_find_in_cache [OF assms(1) Pair]
  have del: "inv_but env R X (s\<lparr>n_cache := delete_cache_entry c cs'\<rparr>)" if "r' = Some c" for c
    using inv_delete_entry [OF find(1), of c] find(2) [OF that] by simp
  have "n_cache s = cs \<Longrightarrow> inv_but env R X (s\<lparr>n_cache := cs\<rparr>)"
    using assms(1) by (metis (mono_tags, lifting) inv_entries)
  with assms(2) Pair find(1) del show ?thesis
    by (auto simp: get_validated_cache_entry_def split: if_splits option.splits)
qed

text \<open>Registering a URI adds a reference and leaves the URIs in use alone.\<close>

lemma inv_registers:
  assumes "inv_but env R X s" "registers_some penv (n_uris s) (b, uc)" "penv_user_program penv = up_of env"
  shows "inv_but env ((case b of None \<Rightarrow> [] | Some b \<Rightarrow> [b]) @ R) X (upd_uris (\<lambda>_. uc) s)"
proof (rule inv_uris [OF assms(1)])
  have ok: "uris_ok (up_of env) R s"
    using assms(1) by (simp add: inv_but_def)
  obtain str where reg: "registers (up_of env) str (n_uris s) (b, uc)"
    using assms(2,3) by (auto simp: registers_some_def)
  show "uris_ok (up_of env) ((case b of None \<Rightarrow> [] | Some b \<Rightarrow> [b]) @ R) (upd_uris (\<lambda>_. uc) s)"
  proof (cases b)
    case None
    then have "held uc = held (n_uris s)"
      using reg by (simp add: registers_def held_def [abs_def])
    then show ?thesis
      using ok reg None by (simp add: uris_ok_def registers_def)
  next
    case (Some b)
    with ok reg show ?thesis
      by (auto simp: uris_ok_def registers_def count_list_append)
  qed
  fix a assume "a \<in> set (net_refs s)"
  then have "0 < held (n_uris s) a"
    using uris_held [OF ok] by simp
  then have "uri_at (n_uris s) a \<noteq> None"
    using ok uri_at_held [of "up_of env" "n_uris s" a] by (auto simp: uris_ok_def)
  then show "uri_of uc a = uri_of (n_uris s) a"
    using reg by (cases b) (auto simp: registers_def uri_of_def uri_at_def)
qed

lemma inv_connection_uris:
  assumes "env_ok env" "inv_but env R X s" "connection_uris env u s = (pu, xu, st, t)"
  shows "inv_but env ((case xu of None \<Rightarrow> [] | Some x \<Rightarrow> [x]) @ (case pu of None \<Rightarrow> [] | Some p \<Rightarrow> [p]) @ R) X t"
    "net_refs t = net_refs s" "n_queue t = n_queue s"
proof -
  have up: "penv_user_program (cv_proxy (nv_cache env)) = up_of env"
    by (simp add: up_of_def)
  have uc: "inv_but env Q X v \<Longrightarrow> uc_ok (up_of env) (n_uris v)" for Q v
    by (simp add: inv_but_def uris_ok_def)
  obtain uc1 where g1: "get_proxied_uri (cv_proxy (nv_cache env)) (nv_uri_mem env (n_uris s)) (uri_of (n_uris s) u) (n_uris s) = (pu, uc1)"
    using assms(3) by (auto simp: connection_uris_def Let_def split: prod.splits)
  define s1 where "s1 = upd_uris (\<lambda>_. uc1) s"
  have i1: "inv_but env ((case pu of None \<Rightarrow> [] | Some p \<Rightarrow> [p]) @ R) X s1"
    unfolding s1_def using get_proxied_uri_registers [of "cv_proxy (nv_cache env)" "n_uris s" "nv_uri_mem env (n_uris s)" "uri_of (n_uris s) u"]
      g1 uc [OF assms(2)] env_okD(5) [OF assms(1)] up by (intro inv_registers [OF assms(2)]) simp_all
  obtain e uc2 where g2: "get_proxy_uri (cv_proxy (nv_cache env)) (nv_uri_mem env uc1) (uri_of uc1 u) uc1 = (xu, e, uc2)"
      and t: "t = upd_uris (\<lambda>_. uc2) s1"
    using assms(3) g1 by (auto simp: connection_uris_def Let_def s1_def split: prod.splits)
  have "uc_ok (up_of env) uc1"
    using uc [OF i1] by (simp add: s1_def)
  then have "registers_some (cv_proxy (nv_cache env)) uc1 (xu, uc2)"
    using get_proxy_uri_registers [OF _ _ g2] env_okD(5) [OF assms(1)] up by simp
  then show "inv_but env ((case xu of None \<Rightarrow> [] | Some x \<Rightarrow> [x]) @ (case pu of None \<Rightarrow> [] | Some p \<Rightarrow> [p]) @ R) X t"
    unfolding t using up by (intro inv_registers [OF i1]) (simp_all add: s1_def)
  show "net_refs t = net_refs s" "n_queue t = n_queue s"
    by (simp_all add: t s1_def)
qed

section \<open>A connection changes its place\<close>

lemma inv_requeue:
  assumes "inv_but env R X s" "n_queue s = xs @ c # ys" "mset q = mset (xs @ c' # ys)" "sorted (map get_priority q)" "conn_wf c'"
    and "cn_addr c' = cn_addr c" "conn_refs c' = conn_refs c" "cn_uri c' = cn_uri c" "cn_running c' = cn_running c"
    and "cn_addr c \<notin> X \<Longrightarrow> conn_link c'"
  shows "inv_but env R X (s\<lparr>n_queue := q\<rparr>)"
proof -
  have set: "set q = set (xs @ c' # ys)"
    by (rule mset_eq_setD [OF assms(3)])
  have "mset (map cn_addr q) = mset (map cn_addr (n_queue s))"
    using assms(2,3,6) by simp
  then have "distinct (map cn_addr q) = distinct (map cn_addr (n_queue s))"
    by (rule mset_eq_imp_distinct_iff)
  moreover have len: "length (filter P q) = length (filter P (xs @ c' # ys))" for P
    using assms(3) by (metis mset_filter size_mset)
  have "running q = running (n_queue s)"
    using len [of cn_running] assms(2,9) by (simp add: running_def)
  moreover have "users uc q k = users uc (n_queue s) k" for uc k
    using len [of "\<lambda>c. cn_running c \<and> hosted uc (cn_uri c) \<and> hkey uc (cn_uri c) = k"] assms(2,8,9) by (simp add: users_def)
  moreover have "mset (concat (map conn_refs q)) = mset (concat (map conn_refs (n_queue s)))"
  proof -
    have "mset (concat (map conn_refs p)) = sum_mset (image_mset (\<lambda>c. mset (conn_refs c)) (mset p))" for p
      by (induction p) simp_all
    with assms(2,3,7) show ?thesis
      by simp
  qed
  then have refs: "mset (net_refs (s\<lparr>n_queue := q\<rparr>) @ R) = mset (net_refs s @ R)"
    by (simp add: net_refs_def del: mset_concat)
  have "uris_ok (up_of env) R (s\<lparr>n_queue := q\<rparr>)"
    by (rule uris_ok_perm [OF _ _ refs]) (use assms(1) in \<open>simp_all add: inv_but_def\<close>)
  moreover have "list_all conn_wf q" "\<forall>d\<in>set q. cn_addr d \<notin> X \<longrightarrow> conn_link d"
    using assms(1,2,5,6,10) by (auto simp: set inv_but_def queue_ok_def list_all_iff)
  ultimately show ?thesis
    using assms(1,4) by (simp add: inv_but_def queue_ok_def hosts_ok_def limits_ok_def)
qed

lemma takeWhile_zero_update:
  "i < length p \<Longrightarrow> (v :: int) \<noteq> 0 \<Longrightarrow>
     length (takeWhile (\<lambda>n. n = 0) (p[i := v])) = min (length (takeWhile (\<lambda>n. n = 0) p)) i"
  by (induction p arbitrary: i) (auto split: nat.split)

lemma wf_raise:
  assumes "conn_wf c" "pri < PRIORITIES" "0 \<le> v"
  shows "get_priority (c\<lparr>cn_pri := (cn_pri c)[pri := v + 1]\<rparr>) = min (get_priority c) pri" "conn_wf (c\<lparr>cn_pri := (cn_pri c)[pri := v + 1]\<rparr>)"
proof -
  show p: "get_priority (c\<lparr>cn_pri := (cn_pri c)[pri := v + 1]\<rparr>) = min (get_priority c) pri"
    using assms by (simp add: get_priority_def takeWhile_zero_update conn_wf_def)
  show "conn_wf (c\<lparr>cn_pri := (cn_pri c)[pri := v + 1]\<rparr>)"
    using assms p by (auto simp: conn_wf_def list_all_iff dest!: set_update_subset_insert [THEN subsetD])
qed


lemma inv_join:
  assumes "env_ok env" "net_inv env R s" "c \<in> set (n_queue s)" "pri < PRIORITIES"
  shows "net_inv env R (join_connection env c download pri s)"
proof -
  let ?a = "cn_addr c" and ?c = "c\<lparr>cn_pri := (cn_pri c)[pri := cn_pri c ! pri + 1]\<rparr>"
  obtain xs ys where q: "n_queue s = xs @ c # ys" "\<forall>d\<in>set (xs @ ys). cn_addr d \<noteq> ?a"
    using inv_split [OF assms(2,3)] by metis
  have wf: "conn_wf c" "conn_link c" "sorted (map get_priority (xs @ c # ys))" "sorted (map get_priority (xs @ ys))"
    using assms(2) by (auto simp: inv_but_def queue_ok_def q(1) sorted_append)
  have "0 \<le> cn_pri c ! pri"
    using wf(1) assms(4) by (simp add: conn_wf_def list_all_length)
  note raise = wf_raise [OF wf(1) assms(4) this]
  define t where "t = (if get_priority c > pri then register_check_queue env (add_to_queue ?c (del_conn ?a s)) else upd_conn ?a (\<lambda>_. ?c) s)"
  have link: "conn_link ?c" "conn_refs ?c = conn_refs c"
    using wf(2) by (simp_all add: conn_link_def conn_refs_def)
  have t: "net_inv env R t \<and> conn_at t ?a = Some ?c"
  proof (cases "get_priority c > pri")
    case True
    have del: "n_queue (del_conn ?a s) = xs @ ys"
      using conn_at_split(3) [OF q(1) refl q(2)] .
    obtain us vs where e: "xs @ ys = us @ vs" "enqueue ?c (xs @ ys) = us @ ?c # vs"
      using enqueue_split [of "xs @ ys" ?c] by blast
    have "net_inv env R (s\<lparr>n_queue := us @ ?c # vs\<rparr>)"
    proof (rule inv_requeue [OF assms(2) q(1)])
      have "mset (us @ vs) = mset (xs @ ys)"
        by (simp only: e(1))
      then show "mset (us @ ?c # vs) = mset (xs @ ?c # ys)"
        by simp
      show "sorted (map get_priority (us @ ?c # vs))"
        using sorted_enqueue [OF wf(4), of ?c] by (simp only: e(2))
    qed (use raise(2) link in simp_all)
    moreover have "add_to_queue ?c (del_conn ?a s) = s\<lparr>n_queue := us @ ?c # vs\<rparr>"
      using e(2) del by (simp add: add_to_queue_def) (simp add: del_conn_def)
    moreover have "conn_at (s\<lparr>n_queue := us @ ?c # vs\<rparr>) ?a = Some ?c"
      using q(2) by (intro conn_at_split(1) [where xs = us and ys = vs]) (simp_all flip: e(1))
    ultimately show ?thesis
      using True register_inv by (simp add: t_def) (simp add: conn_at_def register_check_queue_def)
  next
    case False
    have up: "n_queue (upd_conn ?a (\<lambda>_. ?c) s) = xs @ ?c # ys"
      using conn_at_split(2) [OF q(1) refl q(2)] .
    then have "upd_conn ?a (\<lambda>_. ?c) s = s\<lparr>n_queue := xs @ ?c # ys\<rparr>"
      by (simp add: upd_conn_def)
    moreover have "net_inv env R (s\<lparr>n_queue := xs @ ?c # ys\<rparr>)"
      using raise False wf(3) link by (intro inv_requeue [OF assms(2) q(1) refl]) simp_all
    moreover have "conn_at (upd_conn ?a (\<lambda>_. ?c) s) ?a = Some ?c"
      using q(2) by (intro conn_at_split(1) [OF up]) simp_all
    ultimately show ?thesis
      using False by (simp add: t_def)
  qed
  show ?thesis
  proof (cases download)
    case None
    then show ?thesis
      using t by (simp add: join_connection_def flip: t_def)
  next
    case (Some d)
    define u where "u = upd_conn ?a (\<lambda>c. c\<lparr>cn_downloads := d # cn_downloads c\<rparr>)
        (upd_download d (\<lambda>x. x\<lparr>dl_progress := Some ?a, dl_conn := Some ?a, dl_cached := cn_cached c\<rparr>) t)"
    have view: "same_view t u"
      unfolding u_def by (intro same_view_upd_conn same_view_fields same_view_refl) (simp add: core_def)
    obtain e where e: "conn_at u ?a = Some e" "core e = core ?c"
      using conn_at_core [OF view] t by blast
    have "conn_link (e\<lparr>cn_state := cn_state c\<rparr>)"
      using core_eqD [OF e(2)] link(1) by (simp add: conn_link_def)
    then have "net_inv env R (with_state ?a (cn_state c) u)"
      using t inv_same_view [OF view] e(1) by (intro with_state_inv [where X = "{}"]) auto
    then have "net_inv env R (set_connection_state env ?a (cn_state c) u)"
      by (rule set_state_inv [OF assms(1)])
    then show ?thesis
      using Some by (simp add: join_connection_def Let_def flip: t_def u_def)
  qed
qed

lemma inv_init_connection:
  assumes "env_ok env" "inv_but env R X s" "pri < PRIORITIES" "\<And>r. referrer = Some r \<Longrightarrow> r \<in> set (net_refs s @ R)"
    and "init_connection env u pu referrer start mode pri s = (Some c, t)"
  shows "inv_but env ((case cn_referrer c of None \<Rightarrow> [] | Some r \<Rightarrow> [r]) @ R) X t" "conn_wf c" "\<not> cn_running c" "cn_state c = S_WAIT"
    "cn_uri c = u" "cn_proxied_uri c = pu" "conn_at t (cn_addr c) = None"
proof -
  let ?s = "s\<lparr>n_connection_id := n_connection_id s + 1\<rparr>"
  obtain a where a: "nv_conn_mem env s = Some a"
    using assms(5) by (auto simp: init_connection_def split: option.splits)
  have fresh: "conn_at s a = None"
    by (rule env_okD(3) [OF assms(1) a])
  have "same_view s ?s"
    by (simp add: same_view_def)
  then have s: "inv_but env R X ?s"
    using inv_same_view assms(2) by blast
  have refs: "net_refs ?s = net_refs s" "conn_at ?s = conn_at s"
    by (simp_all add: net_refs_def conn_at_def [abs_def])
  have pri: "get_priority c < PRIORITIES" if "cn_pri c = (replicate PRIORITIES 0)[pri := 1]"
    using that assms(3) takeWhile_zero_update [of pri "replicate PRIORITIES 0" 1] by (simp add: get_priority_def)
  have wf: "conn_wf c" if "cn_pri c = (replicate PRIORITIES 0)[pri := 1]"
    using that pri by (auto simp: conn_wf_def list_all_iff dest!: set_update_subset_insert [THEN subsetD])
  have cases: "cn_pri c = (replicate PRIORITIES 0)[pri := 1] \<and> \<not> cn_running c \<and> cn_state c = S_WAIT \<and> cn_uri c = u \<and>
      cn_proxied_uri c = pu \<and> cn_addr c = a \<and>
      (cn_referrer c = None \<and> t = ?s \<or> (\<exists>r. referrer = Some r \<and> cn_referrer c = Some r \<and> t = upd_uris (get_uri_reference r) ?s))"
    using assms(5) a by (auto simp: init_connection_def Let_def split: option.splits if_splits)
  then show "conn_wf c" "\<not> cn_running c" "cn_state c = S_WAIT" "cn_uri c = u" "cn_proxied_uri c = pu"
    using wf by simp_all
  show "conn_at t (cn_addr c) = None"
    using cases fresh refs(2) by auto
  show "inv_but env ((case cn_referrer c of None \<Rightarrow> [] | Some r \<Rightarrow> [r]) @ R) X t"
    using cases s inv_acquire [OF s] assms(4) refs(1) by auto
qed

lemma inv_start:
  assumes "env_ok env" "net_inv env (conn_refs c @ R) s" "conn_wf c" "\<not> cn_running c" "cn_state c = S_WAIT" "conn_at s (cn_addr c) = None"
  shows "net_inv env R (start_connection env c download s)"
proof -
  let ?a = "cn_addr c"
  define t where "t = set_download download (\<lambda>x. x\<lparr>dl_progress := Some ?a, dl_conn := Some ?a, dl_cached := None\<rparr>) s"
  define d where "d = (case download of None \<Rightarrow> c | Some d \<Rightarrow> c\<lparr>cn_downloads := d # cn_downloads c\<rparr>)"
  have core: "core d = core c"
    by (simp add: d_def core_def split: option.split)
  note d = core_eqD [OF core]
  have view: "same_view s t"
    unfolding t_def by (intro same_view_fields same_view_refl)
  have t: "net_inv env R (add_to_queue d t)"
  proof (rule inv_enqueue)
    show "net_inv env (conn_refs d @ R) t"
      using inv_same_view [OF view] assms(2) d by simp
    show "conn_at t (cn_addr d) = None"
      using conn_at_gone [OF view assms(6)] d by simp
  qed (use d assms(3-5) in \<open>simp_all add: conn_link_def is_in_progress_state_def conn_states\<close>)
  have "d \<in> set (n_queue (add_to_queue d t))"
    by (simp add: add_to_queue_def set_enqueue)
  then have "conn_at (add_to_queue d t) (cn_addr d) = Some d"
    by (rule inv_conn_at [OF t])
  moreover have "cn_addr d = ?a"
    using d by simp
  ultimately have at: "conn_at (add_to_queue d t) ?a = Some d"
    by (simp only:)
  have "net_inv env R (with_state ?a S_WAIT (add_to_queue d t))"
    by (rule with_state_inv [OF t at]) (use d assms(4) in \<open>simp_all add: conn_link_def is_in_progress_state_def conn_states\<close>)
  then show ?thesis
    unfolding start_connection_def Let_def t_def [symmetric] d_def [symmetric]
    by (intro register_inv set_state_inv [OF assms(1)])
qed

section \<open>Loading a URI\<close>

lemma give_back_inv: "inv_but env ((case b of None \<Rightarrow> [] | Some b \<Rightarrow> [b]) @ R) X s \<Longrightarrow> inv_but env R X (give_back_uri b s)"
  using inv_release(1) by (simp add: give_back_uri_def split: option.splits)

lemma set_download_inv: "inv_but env R X (set_download d f s) = inv_but env R X s"
  by (rule inv_view) (rule same_view_fields(5) [OF same_view_refl])

lemma set_download_sel [simp]:
  "n_cache (set_download d f s) = n_cache s" "n_queue (set_download d f s) = n_queue s" "net_refs (set_download d f s) = net_refs s"
  by (simp_all add: set_download_def upd_download_def net_refs_def split: option.split)

lemma load_uri_inv:
  assumes "env_ok env" "net_inv env R s" "pri < PRIORITIES" "\<And>r. referrer = Some r \<Longrightarrow> r \<in> set (net_refs s @ R)"
  shows "net_inv env R (snd (load_uri env u referrer download pri mode start s))"
proof -
  define s0 where "s0 = set_download download (\<lambda>x. x\<lparr>dl_conn := None, dl_cached := None, dl_pri := pri,
      dl_state := proxy_state_code S_OUT_OF_MEM, dl_prev_error := 0\<rparr>) s"
  have s0: "net_inv env R s0" "net_refs s0 = net_refs s"
    using assms(2) by (simp_all add: s0_def set_download_inv)
  obtain r cs where v: "get_validated_cache_entry (net_cache_env env s0) u mode (n_cache s0) = (r, cs)"
    by fastforce
  have s1: "net_inv env R (s0\<lparr>n_cache := cs\<rparr>)"
    by (rule inv_validated_entry [OF s0(1) v])
  have tell: "net_inv env R (call_download env download (set_download download f t))" if "net_inv env R t" for f t R
    using that by (intro call_download_inv [OF assms(1)]) (simp add: set_download_inv)
  show ?thesis
  proof (cases r)
    case (Some cached)
    then show ?thesis
      using tell [OF s1] unfolding load_uri_def Let_def s0_def [symmetric] v by simp
  next
    case None
    obtain pu xu st t where c: "connection_uris env u (s0\<lparr>n_cache := cs\<rparr>) = (pu, xu, st, t)"
      by (metis prod_cases4)
    let ?opt = "\<lambda>b. case b of None \<Rightarrow> [] | Some b \<Rightarrow> [b :: nat]"
    have t: "net_inv env (?opt xu @ ?opt pu @ R) t" "net_refs t = net_refs s" "n_queue t = n_queue s0"
      using inv_connection_uris [OF assms(1) s1 c] s0(2) by simp_all
    have giv: "net_inv env R (give_back_uri pu (give_back_uri xu t'))" if "net_inv env (?opt xu @ ?opt pu @ R) t'" for t'
      using that by (intro give_back_inv) simp
    show ?thesis
    proof (cases "\<exists>p x. pu = Some p \<and> xu = Some x")
      case False
      then have "snd (load_uri env u referrer download pri mode start s) = give_back_uri pu (give_back_uri xu
          (call_download env download (set_download download (\<lambda>x. x\<lparr>dl_state := (if st = S_OK then proxy_state_code S_OUT_OF_MEM else st)\<rparr>) t)))"
        unfolding load_uri_def Let_def s0_def [symmetric] v using None c by (cases pu; cases xu; simp)
      then show ?thesis
        using giv [OF tell [OF t(1)]] by simp
    next
      case True
      then obtain p x where px: "pu = Some p" "xu = Some x"
        by blast
      let ?find = "find (\<lambda>c. \<not> cn_detached c \<and> cn_uri c = x) (n_queue t)"
      have load: "snd (load_uri env u referrer download pri mode start s) =
         (if get_protocol_need_slash_after_host (u_protocol (uri_of (n_uris t) x)) \<and> hostlen (uri_of (n_uris t) x) = 0
          then give_back_uri (Some p) (give_back_uri (Some x) (call_download env download
                 (set_download download (\<lambda>x. x\<lparr>dl_state := (if st = S_OK then S_BAD_URL else st)\<rparr>) t)))
          else case ?find of
              Some c \<Rightarrow> join_connection env c download pri (give_back_uri (Some p) (give_back_uri (Some x) t))
            | None \<Rightarrow>
               (case init_connection env x p referrer start mode pri t of
                  (None, t) \<Rightarrow> give_back_uri (Some p) (give_back_uri (Some x) (call_download env download
                     (set_download download (\<lambda>x. x\<lparr>dl_state := proxy_state_code S_OUT_OF_MEM\<rparr>) t)))
                | (Some c, t) \<Rightarrow> start_connection env c download t))"
        unfolding load_uri_def Let_def s0_def [symmetric] v using None c px by (simp split: option.split prod.split)
      have tpx: "net_inv env (x # p # R) t"
        using t(1) px by simp
      show ?thesis
      proof (cases ?find)
        case (Some d)
        then have "d \<in> set (n_queue t)"
          by (auto simp: find_Some_iff)
        then have "d \<in> set (n_queue (give_back_uri (Some p) (give_back_uri (Some x) t)))"
          by (simp add: give_back_uri_def)
        from inv_join [OF assms(1) giv [OF t(1), unfolded px] this assms(3)] giv [OF tell [OF t(1)], unfolded px] Some
        show ?thesis
          unfolding load by simp
      next
        case no: None
        obtain c t' where i: "init_connection env x p referrer start mode pri t = (c, t')"
          by fastforce
        have "net_inv env R (case init_connection env x p referrer start mode pri t of
            (None, t) \<Rightarrow> give_back_uri (Some p) (give_back_uri (Some x) (call_download env download
               (set_download download (\<lambda>x. x\<lparr>dl_state := proxy_state_code S_OUT_OF_MEM\<rparr>) t)))
          | (Some c, t) \<Rightarrow> start_connection env c download t)"
        proof (cases c)
          case None
          then have "t' = t"
            using i by (auto simp: init_connection_def Let_def split: option.splits if_splits)
          then show ?thesis
            using giv [OF tell [OF t(1)], unfolded px] i None by simp
        next
          case (Some d)
          note init = inv_init_connection [OF assms(1) tpx assms(3) _ i [unfolded Some], simplified t(2)]
          have "r \<in> set (net_refs s @ x # p # R)" if "referrer = Some r" for r
            using assms(4) that by auto
          note init = init [OF this]
          have "net_inv env (conn_refs d @ R) t'"
            using init(1,5,6) by (simp add: conn_refs_def)
          from inv_start [OF assms(1) this] init i Some show ?thesis
            by simp
        qed
        with giv [OF tell [OF t(1)], unfolded px] no show ?thesis
          unfolding load by simp
      qed
    qed
  qed
qed

section \<open>A change of owner\<close>

text \<open>A connection whose priority has changed is not in its place in the queue until the queue is sorted. It can be aborted
  all the same: up to the moment it leaves the queue nothing depends on its place.\<close>

lemma same_view_del: "same_view s t \<Longrightarrow> same_view (del_conn a s) (del_conn a t)"
proof -
  assume v: "same_view s t"
  have "map core (filter (\<lambda>c. cn_addr c \<noteq> a) (n_queue t)) = map core (filter (\<lambda>c. cn_addr c \<noteq> a) (n_queue s))"
    by (rule filter_core) (use v in \<open>auto simp: same_view_def dest: core_eqD\<close>)
  with v show ?thesis
    by (simp add: same_view_def) (simp add: del_conn_def)
qed

lemma same_view_stop: "same_view s t \<Longrightarrow> same_view (stop_running a s) (stop_running a t)"
proof -
  assume v: "same_view s t"
  have "map core (map (\<lambda>c. if cn_addr c = a then c\<lparr>cn_running := False\<rparr> else c) (n_queue t)) =
      map core (map (\<lambda>c. if cn_addr c = a then c\<lparr>cn_running := False\<rparr> else c) (n_queue s))"
    unfolding map_map comp_def by (rule map_core_cong) (use v in \<open>auto simp: same_view_def core_def\<close>)
  with v show ?thesis
    by (simp add: same_view_def) (simp add: stop_running_def upd_conn_def same_view_def)
qed

definition aborted :: "nat \<Rightarrow> connection \<Rightarrow> int \<Rightarrow> net \<Rightarrow> net" where
  "aborted a c st s =
     (if cn_running c then done_host_connection (c\<lparr>cn_state := st, cn_running := False\<rparr>) (stop_running a (with_state a st s))
      else with_state a st s)"

lemma aborted_inv:
  assumes "inv_but env R {a} s" "conn_at s a = Some c"
  shows "net_inv env (conn_refs c @ R) (del_conn a (aborted a c st s))"
proof -
  let ?c = "c\<lparr>cn_state := st, cn_running := False\<rparr>"
  have s: "inv_but env R {a} (with_state a st s)" "conn_at (with_state a st s) a = Some (c\<lparr>cn_state := st\<rparr>)"
    using with_state_inv [OF assms, of "{a}" st] conn_at_with_state [of a st s] assms(2) by simp_all
  have "inv_but env R {a} (aborted a c st s) \<and> conn_at (aborted a c st s) a = Some ?c"
  proof (cases "cn_running c")
    case True
    have at: "conn_at (stop_running a t) a = map_option (\<lambda>c. c\<lparr>cn_running := False\<rparr>) (conn_at t a)" for t
      using conn_at_upd [of "\<lambda>c. c\<lparr>cn_running := False\<rparr>" a t a] by (simp add: stop_running_def conn_at_def)
    have q: "conn_at (done_host_connection d t) = conn_at t" for d t
      by (simp add: conn_at_def [abs_def])
    show ?thesis
      using done_host_inv(1) [OF s] True at [of "with_state a st s"] s(2) by (simp add: aborted_def q)
  next
    case False
    with s show ?thesis
      by (simp add: aborted_def)
  qed
  then show ?thesis
    using inv_del_conn [of env R "{a}" "aborted a c st s" a ?c] by (simp add: conn_refs_def)
qed

lemma del_done_host: "del_conn a (done_host_connection c s) = done_host_connection c (del_conn a s)"
  by (simp add: done_host_connection_def get_host_connection_key Let_def upd_uris_def split: option.split) (simp add: del_conn_def)

lemma del_aborted:
  "del_conn a (aborted a c st s) =
     (if cn_running c then done_host_connection (c\<lparr>cn_state := st, cn_running := False\<rparr>)
        ((del_conn a s)\<lparr>n_active := (if n_active s - 1 < 0 then 0 else n_active s - 1)\<rparr>)
      else del_conn a s)"
proof -
  have flt: "filter (\<lambda>c. cn_addr c \<noteq> a) (map (\<lambda>c. if cn_addr c = a then f c else c) q) = filter (\<lambda>c. cn_addr c \<noteq> a) q"
    if "\<And>c. cn_addr (f c) = cn_addr c" for f and q :: "connection list"
    by (induction q) (simp_all add: that)
  have upd: "del_conn a (upd_conn a f t) = del_conn a t" if "\<And>c. cn_addr (f c) = cn_addr c" for f t
    using flt [of f "n_queue t", OF that] by (simp add: del_conn_def upd_conn_def)
  have "del_conn a (t\<lparr>n_active := n\<rparr>) = (del_conn a t)\<lparr>n_active := n\<rparr>" for t n
    by (simp add: del_conn_def)
  then have stop: "del_conn a (stop_running a t) = (del_conn a t)\<lparr>n_active := (if n_active t - 1 < 0 then 0 else n_active t - 1)\<rparr>" for t
    unfolding stop_running_def by (simp only:) (subst upd, simp_all)
  have "del_conn a (with_state a st s) = del_conn a s"
    unfolding with_state_def by (rule upd) simp
  then show ?thesis
    by (simp add: aborted_def del_done_host stop)
qed

lemma abort_moved_inv:
  assumes "env_ok env" "inv_but env R {a} (s\<lparr>n_queue := q\<rparr>)" "conn_at (s\<lparr>n_queue := q\<rparr>) a = Some c" "conn_at s a = Some c"
    and "filter (\<lambda>c. cn_addr c \<noteq> a) q = filter (\<lambda>c. cn_addr c \<noteq> a) (n_queue s)" "is_in_result_state st"
  shows "net_inv env R (abort_connection env a st s)"
proof -
  have "del_conn a (s\<lparr>n_queue := q\<rparr>) = del_conn a s"
    using assms(5) by (simp add: del_conn_def)
  then have "del_conn a (aborted a c st (s\<lparr>n_queue := q\<rparr>)) = del_conn a (aborted a c st s)"
    by (simp add: del_aborted)
  then have inv: "net_inv env (conn_refs c @ R) (del_conn a (aborted a c st s))"
    using aborted_inv [OF assms(2,3), of st] by simp
  let ?s = "set_connection_state env a st s"
  note view = set_state_result [OF assms(6), of a s env]
  obtain d where d: "conn_at ?s a = Some d" "core d = core (c\<lparr>cn_state := st\<rparr>)"
    using conn_at_core [OF view, of a] assms(4) by (auto simp: conn_at_with_state)
  define t where "t = (if cn_running d then interrupt_connection env a ?s else ?s)"
  have st: "cn_state d = st" "cn_running d = cn_running c" "cn_uri d = cn_uri c"
    using core_eqD [OF d(2)] by simp_all
  have "same_view (aborted a c st s) t \<and> (\<exists>e. conn_at t a = Some e \<and> cn_state e = st \<and> conn_refs e = conn_refs c)"
  proof (cases "cn_running c")
    case True
    have "st \<noteq> S_WAIT"
      using assms(6) by (simp add: is_in_result_state_def conn_states)
    then have v: "same_view (done_host_connection (d\<lparr>cn_running := False\<rparr>) (stop_running a ?s)) t"
      using free_data_view [OF assms(1) d(1)] True st by (simp add: t_def interrupt_connection_def)
    have "same_view (done_host_connection (c\<lparr>cn_state := st, cn_running := False\<rparr>) (stop_running a (with_state a st s)))
        (done_host_connection (d\<lparr>cn_running := False\<rparr>) (stop_running a ?s))"
      using st by (intro done_host_view same_view_stop view) simp
    then have "same_view (aborted a c st s) t"
      using v True by (simp add: aborted_def same_view_trans)
    moreover have "conn_at (done_host_connection (d\<lparr>cn_running := False\<rparr>) (stop_running a ?s)) a = Some (d\<lparr>cn_running := False\<rparr>)"
      using conn_at_upd [of "\<lambda>c. c\<lparr>cn_running := False\<rparr>" a ?s a] d(1) by (simp add: stop_running_def conn_at_def)
    from conn_at_core [OF v this] obtain e where e: "conn_at t a = Some e" "core e = core (d\<lparr>cn_running := False\<rparr>)" .
    then have "cn_state e = st" "conn_refs e = conn_refs c"
      using core_eqD [OF e(2)] core_eqD [OF d(2)] by (simp_all add: conn_refs_def)
    ultimately show ?thesis
      using e(1) by blast
  next
    case False
    then show ?thesis
      using view d(1) st core_eqD [OF d(2)] by (simp add: aborted_def t_def conn_refs_def)
  qed
  then obtain e where e: "same_view (aborted a c st s) t" "conn_at t a = Some e" "cn_state e = st" "conn_refs e = conn_refs c"
    by blast
  have "net_inv env (conn_refs e @ R) (del_conn a t)"
    using inv_same_view [OF same_view_del [OF e(1)] inv] e(4) by simp
  then have "net_inv env R (done_connection env a t)"
    using done_result_inv [OF assms(1) e(2)] e(3) assms(6) by simp
  moreover have "abort_connection env a st s = register_check_queue env (done_connection env a t)"
    using d(1) by (simp add: abort_connection_def Let_def t_def)
  ultimately show ?thesis
    by (simp add: register_inv)
qed

lemma sort_conns_sorted: "sorted (map get_priority q) \<Longrightarrow> sort_conns q = q"
proof -
  assume s: "sorted (map get_priority q)"
  have "sort_key get_priority q = sort_conns q"
    using sort_conns_spec [of q] by (intro properties_for_sort_key) auto
  with s show ?thesis
    by (simp add: sort_key_id_if_sorted)
qed

lemma sort_queue_sorted: "inv_but env R X s \<Longrightarrow> sort_queue s = s"
  by (simp add: inv_but_def queue_ok_def sort_queue_def sort_conns_sorted)

text \<open>One connection has changed its priority and the queue is sorted again.\<close>

lemma inv_resort:
  assumes "inv_but env R X s" "n_queue s = xs @ c # ys" "same_view s (t\<lparr>n_queue := n_queue s\<rparr>)" "n_queue t = xs @ c' # ys" "conn_wf c'"
    and "cn_addr c' = cn_addr c" "conn_refs c' = conn_refs c" "cn_uri c' = cn_uri c" "cn_running c' = cn_running c" "cn_state c' = cn_state c"
  shows "inv_but env R X (sort_queue t)"
proof -
  have "cn_addr c \<notin> X \<Longrightarrow> conn_link c"
    using assms(1,2) by (simp add: inv_but_def)
  then have link: "cn_addr c \<notin> X \<Longrightarrow> conn_link c'"
    using assms(9,10) by (simp add: conn_link_def)
  have q: "mset (sort_conns (n_queue t)) = mset (xs @ c' # ys)" "sorted (map get_priority (sort_conns (n_queue t)))"
    using sort_conns_spec [of "n_queue t"] assms(4) by simp_all
  have "inv_but env R X ((t\<lparr>n_queue := n_queue s\<rparr>)\<lparr>n_queue := sort_conns (n_queue t)\<rparr>)"
    by (rule inv_requeue [OF inv_same_view [OF assms(3,1)] _ q assms(5-9) link]) (simp_all add: assms(2))
  then show ?thesis
    by (simp add: sort_queue_def)
qed

lemma change_priority_wf:
  assumes "conn_wf c" "new < PRIORITIES"
  shows "conn_wf (change_priority old new c)"
proof -
  define p where "p = (cn_pri c)[old := (if cn_pri c ! old - 1 < 0 then 0 else cn_pri c ! old - 1)]"
  have p: "length p = PRIORITIES" "list_all (\<lambda>n. 0 \<le> n) p"
    using assms(1) by (auto simp: p_def conn_wf_def list_all_iff dest!: set_update_subset_insert [THEN subsetD])
  have pos: "0 \<le> p ! new"
    using p assms(2) by (metis list_all_length)
  have "change_priority old new c = (c\<lparr>cn_pri := p[new := p ! new + 1]\<rparr>)"
    by (simp add: change_priority_def Let_def p_def)
  moreover have "length (takeWhile (\<lambda>n. n = 0) (p[new := p ! new + 1])) < PRIORITIES"
    using pos p(1) assms(2) by (subst takeWhile_zero_update) simp_all
  moreover have "list_all (\<lambda>n. 0 \<le> n) (p[new := p ! new + 1])"
    using p(2) pos by (auto simp: list_all_iff dest!: set_update_subset_insert [THEN subsetD])
  ultimately show ?thesis
    using p(1) by (simp add: conn_wf_def get_priority_def)
qed

lemma change_priority_sel [simp]:
  "cn_addr (change_priority old new c) = cn_addr c" "conn_refs (change_priority old new c) = conn_refs c"
  "cn_uri (change_priority old new c) = cn_uri c" "cn_running (change_priority old new c) = cn_running c"
  "cn_state (change_priority old new c) = cn_state c"
  by (simp_all add: change_priority_def Let_def conn_refs_def)

lemma conn_refs_downloads [simp]: "conn_refs (c\<lparr>cn_downloads := ds\<rparr>) = conn_refs c"
  by (simp add: conn_refs_def)

lemma conn_wf_downloads [simp]: "conn_wf (c\<lparr>cn_downloads := ds\<rparr>) = conn_wf c"
  by (simp add: conn_wf_def get_priority_def)

lemma upd_download_sel [simp]: "n_queue (upd_download d f s) = n_queue s" "conn_at (upd_download d f s) = conn_at s"
  by (simp_all add: upd_download_def conn_at_def [abs_def])

lemma upd_conn_absent: "conn_at s a = None \<Longrightarrow> upd_conn a f s = s"
proof -
  assume "conn_at s a = None"
  then have "map (\<lambda>c. if cn_addr c = a then f c else c) (n_queue s) = n_queue s"
    by (intro map_idI) (auto simp: conn_at_None)
  then show ?thesis
    by (simp add: upd_conn_def)
qed

lemma change_connection_inv:
  assumes "env_ok env" "net_inv env R s" "newpri < PRIORITIES"
  shows "net_inv env R (change_connection env old new newpri interrupt s)"
proof -
  note defs = change_connection_def Let_def
  consider (none) "n_downloads s old = None" | (over) ol where "n_downloads s old = Some ol" "is_in_result_state (dl_state ol)"
    | (idle) ol where "n_downloads s old = Some ol" "\<not> is_in_result_state (dl_state ol)" "dl_conn ol = None"
    | (move) ol a where "n_downloads s old = Some ol" "\<not> is_in_result_state (dl_state ol)" "dl_conn ol = Some a"
    by (metis not_Some_eq)
  then show ?thesis
  proof cases
    case over
    with assms(2) show ?thesis
      by (simp add: defs call_download_inv [OF assms(1)] set_download_inv)
  next
    case move
    let ?f = "\<lambda>c. (change_priority (dl_pri ol) newpri c)\<lparr>cn_downloads := remove1 old (cn_downloads c)\<rparr>"
    define s1 where "s1 = upd_download old (\<lambda>x. x\<lparr>dl_state := S_INTERRUPTED\<rparr>) (upd_conn a ?f s)"
    define s2 where "s2 = (case (new, conn_at s1 a) of
        (_, None) \<Rightarrow> s1
      | (Some n, Some c) \<Rightarrow>
          upd_download n (\<lambda>x. x\<lparr>dl_progress := Some a, dl_state := cn_state c, dl_prev_error := cn_prev_error c,
                                dl_pri := newpri, dl_conn := Some a, dl_cached := cn_cached c\<rparr>)
            (upd_conn a (\<lambda>c. c\<lparr>cn_downloads := n # cn_downloads c\<rparr>) s1)
      | (None, Some c) \<Rightarrow> if cn_detached c \<or> interrupt then abort_connection env a S_INTERRUPTED s1 else s1)"
    have change: "change_connection env old new newpri interrupt s = register_check_queue env (sort_queue s2)"
      using move(2) unfolding change_connection_def Let_def move(1,3) option.case s1_def [symmetric] s2_def [symmetric]
      by (simp only: if_False)
    have "net_inv env R (sort_queue s2)"
    proof (cases "conn_at s a")
      case None
      have "same_view s s1"
      proof -
        show ?thesis
          unfolding s1_def upd_conn_absent [OF None] by (intro same_view_fields same_view_refl)
      qed
      then have "net_inv env R s1"
        using inv_same_view assms(2) by blast
      moreover have "s2 = s1"
        using None by (simp add: s2_def s1_def conn_at_upd split: option.split)
      ultimately show ?thesis
        using sort_queue_sorted by metis
    next
      case (Some c)
      then have c: "c \<in> set (n_queue s)" "cn_addr c = a"
        using conn_at_mem by blast+
      obtain xs ys where q: "n_queue s = xs @ c # ys" "\<forall>d\<in>set (xs @ ys). cn_addr d \<noteq> a"
        using inv_split [OF assms(2) c(1)] c(2) by metis
      have wf: "conn_wf (?f c)" "sorted (map get_priority (xs @ ys))"
        using assms(2,3) by (simp_all add: inv_but_def queue_ok_def q(1) sorted_append change_priority_wf)
      have q1: "n_queue s1 = xs @ ?f c # ys"
        using conn_at_split(2) [OF q(1) c(2) q(2)] by (simp add: s1_def)
      have at: "conn_at s1 a = Some (?f c)"
        using conn_at_split(1) [OF q1] c(2) q(2) by simp
      have rest: "same_view s (s1\<lparr>n_queue := n_queue s\<rparr>)"
        by (simp add: s1_def same_view_def upd_download_def upd_conn_def)
      note resort = inv_resort [OF assms(2) q(1)]
      show ?thesis
      proof (cases new)
        case (Some n)
        then have s2: "s2 = upd_download n (\<lambda>x. x\<lparr>dl_progress := Some a, dl_state := cn_state (?f c), dl_prev_error := cn_prev_error (?f c),
              dl_pri := newpri, dl_conn := Some a, dl_cached := cn_cached (?f c)\<rparr>)
            (upd_conn a (\<lambda>c. c\<lparr>cn_downloads := n # cn_downloads c\<rparr>) s1)"
          using at by (simp add: s2_def)
        have q2: "n_queue s2 = xs @ (?f c)\<lparr>cn_downloads := n # cn_downloads (?f c)\<rparr> # ys"
          using conn_at_split(2) [OF q1 _ q(2)] c(2) by (simp add: s2)
        have "same_view s (s2\<lparr>n_queue := n_queue s\<rparr>)"
          using rest by (simp add: s2 same_view_def upd_download_def upd_conn_def)
        from resort [OF this q2] wf(1) show ?thesis
          by simp
      next
        case None
        show ?thesis
        proof (cases "cn_detached (?f c) \<or> interrupt")
          case True
          obtain us vs where e: "xs @ ys = us @ vs" "enqueue (?f c) (xs @ ys) = us @ ?f c # vs"
            using enqueue_split by blast
          have "net_inv env R ((s1\<lparr>n_queue := n_queue s\<rparr>)\<lparr>n_queue := us @ ?f c # vs\<rparr>)"
          proof (rule inv_requeue [OF inv_same_view [OF rest assms(2)]])
            have "mset (us @ vs) = mset (xs @ ys)"
              by (simp only: e(1))
            then show "mset (us @ ?f c # vs) = mset (xs @ ?f c # ys)"
              by simp
            show "sorted (map get_priority (us @ ?f c # vs))"
              using sorted_enqueue [OF wf(2), of "?f c"] by (simp only: e(2))
            show "conn_link (?f c)"
              using inv_link [OF assms(2) c(1)] by (simp add: conn_link_def)
          qed (use wf(1) q(1) in simp_all)
          then have moved: "inv_but env R {a} (s1\<lparr>n_queue := us @ ?f c # vs\<rparr>)"
            by (simp add: inv_weaken [where X = "{}"])
          have "conn_at (s1\<lparr>n_queue := us @ ?f c # vs\<rparr>) a = Some (?f c)"
            using q(2) c(2) by (intro conn_at_split(1) [where xs = us and ys = vs]) (simp_all flip: e(1))
          moreover have "filter (\<lambda>c. cn_addr c \<noteq> a) (us @ ?f c # vs) = filter (\<lambda>c. cn_addr c \<noteq> a) (n_queue s1)"
            using c(2) arg_cong [OF e(1), of "filter (\<lambda>c. cn_addr c \<noteq> a)"] by (simp add: q1)
          ultimately have "net_inv env R (abort_connection env a S_INTERRUPTED s1)"
            using at by (intro abort_moved_inv [OF assms(1) moved]) (simp_all add: is_in_result_state_def conn_states)
          moreover have "s2 = abort_connection env a S_INTERRUPTED s1"
            using at None True by (auto simp: s2_def)
          ultimately show ?thesis
            using sort_queue_sorted by metis
        next
          case False
          have "s2 = s1"
            using at None False by (auto simp: s2_def)
          with resort [OF rest q1] wf(1) show ?thesis
            by simp
        qed
      qed
    qed
    then show ?thesis
      unfolding change by (rule register_inv)
  qed (use assms(2) in \<open>simp_all add: defs\<close>)
qed

section \<open>The other operations\<close>

lemma inv_at: "net_inv env R s \<Longrightarrow> inv_but env R {a} s"
  by (erule inv_weaken) simp

lemma add_keepalive_inv:
  assumes "env_ok env" "net_inv env R s" "conn_at s a = Some c" "cn_state c \<noteq> S_WAIT"
  shows "net_inv env R (add_keepalive_connection env a timeout None s)"
proof -
  have c: "c \<in> set (n_queue s)" "cn_addr c = a"
    using conn_at_mem [OF assms(3)] by simp_all
  have run: "cn_running c"
    using inv_link [OF assms(2) c(1)] assms(4) by (simp add: conn_link_def)
  have finish: "net_inv env R (finish_connection env a t)"
    if "inv_but env R {a} t" "conn_at t a = Some d" "core d = core c" for t d
    unfolding finish_connection_def using core_eqD [OF that(3)] run assms(4)
    by (intro register_inv finish_inv [OF assms(1) that(1,2)]) simp_all
  obtain ko t where k: "init_keepalive_connection env c timeout None s = (ko, t)"
    by fastforce
  show ?thesis
  proof (cases ko)
    case None
    then have "t = s"
      using k by (auto simp: init_keepalive_connection_def split: if_splits option.splits)
    then show ?thesis
      using finish [OF inv_at [OF assms(2)] assms(3) refl] assms(3) k None by (simp add: add_keepalive_connection_def)
  next
    case (Some e)
    then obtain b where b: "nv_keep_mem env s = Some b" "ka_addr e = b" "ka_uri e = cn_uri c" "ka_done e = None"
        and t: "t = upd_uris (get_uri_reference (cn_uri c)) s"
      using k by (auto simp: init_keepalive_connection_def split: if_splits option.splits)
    define u where "u = t\<lparr>n_keepalives := e # n_keepalives t\<rparr>"
    have acq: "net_inv env (cn_uri c # R) t"
      unfolding t by (rule inv_acquire [OF assms(2)]) (use cn_uri_ref [OF c(1)] in simp)
    have "uris_ok (up_of env) R u"
      by (rule uris_ok_perm [of _ "cn_uri c # R" t]) (use acq b(3) in \<open>simp_all add: u_def net_refs_def inv_but_def\<close>)
    then have u: "net_inv env R u"
      using acq b env_okD(4) [OF assms(1) b(1)] by (simp add: u_def inv_but_def queue_ok_def limits_ok_def) (simp add: t)
    define v where "v = upd_conn a (\<lambda>c. c\<lparr>cn_socket := (cn_socket c)\<lparr>sk_fd := - 1\<rparr>\<rparr>) u"
    have "same_view u v"
      unfolding v_def by (intro same_view_upd_conn same_view_refl) (simp add: core_def)
    moreover have "conn_at v a = Some (c\<lparr>cn_socket := (cn_socket c)\<lparr>sk_fd := - 1\<rparr>\<rparr>)"
      using assms(3) by (simp add: v_def conn_at_upd) (simp add: conn_at_def u_def t)
    ultimately have "net_inv env R (finish_connection env a v)"
      using inv_same_view [OF _ inv_at [OF u]] by (rule_tac finish) (assumption | simp add: core_def)+
    then show ?thesis
      using finish [OF inv_at [OF assms(2)] assms(3) refl] assms(3) k Some
      by (simp add: add_keepalive_connection_def v_def u_def)
  qed
qed

lemma has_keepalive_inv:
  assumes "net_inv env R s" "conn_at s a = Some c"
  shows "net_inv env R (snd (has_keepalive_connection a s))"
proof (cases "get_keepalive_connection s c")
  case None
  with assms show ?thesis
    by (simp add: has_keepalive_connection_def)
next
  case (Some k)
  let ?s = "upd_conn a (\<lambda>c. c\<lparr>cn_socket := \<lparr>sk_fd = ka_socket k, sk_family = ka_family k\<rparr>\<rparr>) s"
  have "same_view s ?s"
    by (intro same_view_upd_conn same_view_refl) (simp add: core_def)
  then have "net_inv env R ?s"
    using inv_same_view assms(1) by blast
  moreover have "k \<in> set (n_keepalives ?s)"
    using Some by (auto simp: get_keepalive_connection_def find_Some_iff split: if_splits)
  ultimately have "net_inv env R (free_keepalive_connection (k\<lparr>ka_socket := - 1, ka_done := None\<rparr>) ?s)"
    by (intro free_keepalive_inv(1)) simp_all
  with Some assms(2) show ?thesis
    by (simp add: has_keepalive_connection_def)
qed

text \<open>An entry of the cache may change as long as it keeps its address and its URIs.\<close>

lemma upd_entry_inv:
  assumes "inv_but env R X s" "\<And>c g. ca_addr (fst (f (c, g))) = ca_addr c" "\<And>c g. owned_uris (fst (f (c, g))) = owned_uris c"
  shows "inv_but env R X (s\<lparr>n_cache := upd_entry e f (n_cache s)\<rparr>)"
proof (cases "find (\<lambda>c. ca_addr c = e) (cs_entries (n_cache s))")
  case None
  with assms(1) show ?thesis
    by (simp add: upd_entry_def)
next
  case (Some c)
  let ?g = "cs_globals (n_cache s)"
  have c: "c \<in> set (cs_entries (n_cache s))" "ca_addr c = e"
    using Some by (auto simp: find_Some_iff)
  have "distinct (map ca_addr (cs_entries (n_cache s)))"
    using assms(1) by (simp add: inv_but_def uris_ok_def)
  then have "d = c" if "d \<in> set (cs_entries (n_cache s))" "ca_addr d = e" for d
    using c that by (auto simp: distinct_map dest: inj_onD)
  then have eq: "map (\<lambda>d. (ca_addr d, owned_uris d)) (map (\<lambda>x. if ca_addr x = e then fst (f (c, ?g)) else x) (cs_entries (n_cache s))) =
      map (\<lambda>d. (ca_addr d, owned_uris d)) (cs_entries (n_cache s))"
    using assms(2,3) by auto
  have "cs_entries (upd_entry e f (n_cache s)) = map (\<lambda>x. if ca_addr x = e then fst (f (c, ?g)) else x) (cs_entries (n_cache s))"
    "cs_uris (upd_entry e f (n_cache s)) = n_uris s"
    using Some by (simp_all add: upd_entry_def case_prod_beta)
  then show ?thesis
    by (intro inv_entries [OF assms(1)]) (simp only:, simp only: eq)
qed

lemma strip_entry_inv: "inv_but env R X s \<Longrightarrow> inv_but env R X (strip_entry e pos s)"
  unfolding strip_entry_def by (rule upd_entry_inv) (simp_all add: case_prod_beta owned_uris_def)

lemma detach_connection_inv:
  assumes "net_inv env R s"
  shows "net_inv env R (detach_connection env d pos s)"
proof -
  let ?cs = "(n_cache s)\<lparr>cs_entries := foldl (\<lambda>es x. object_unlock x es) (cs_entries (n_cache s)) (nv_format_cache env s)\<rparr>"
  have same: "map (\<lambda>c. (ca_addr c, owned_uris c)) (cs_entries ?cs) = map (\<lambda>c. (ca_addr c, owned_uris c)) (cs_entries (n_cache s))"
    using arg_cong [OF unlocks_core [of "cs_entries (n_cache s)" "nv_format_cache env s"], of "map (\<lambda>(a, b, o'). (a, o'))"] by (simp add: comp_def)
  define u where "u = s\<lparr>n_cache := ?cs\<rparr>"
  have u: "net_inv env R u" "conn_at u = conn_at s"
    using same by (auto simp: u_def conn_at_def [abs_def] intro!: inv_entries [OF assms])
  have detach: "net_inv env R (strip_entry e pos (upd_conn a (\<lambda>c. c\<lparr>cn_detached := True\<rparr>)
      (u\<lparr>n_cache := upd_entry e (\<lambda>(c, g). (c\<lparr>ca_valid := False\<rparr>, g)) (n_cache u)\<rparr>)))"
    if t: "conn_at s a = Some c" for a c e
  proof -
    let ?t = "u\<lparr>n_cache := upd_entry e (\<lambda>(c, g). (c\<lparr>ca_valid := False\<rparr>, g)) (n_cache u)\<rparr>"
    have i: "net_inv env R ?t"
      by (rule upd_entry_inv [OF u(1)]) (simp_all add: owned_uris_def)
    have at: "conn_at ?t a = Some c"
      using t fun_cong [OF u(2), of a] by (simp add: conn_at_def)
    have "conn_link c"
      using inv_link [OF assms] conn_at_mem [OF t] by simp
    then have "net_inv env R (upd_conn a (\<lambda>c. c\<lparr>cn_detached := True\<rparr>) ?t)"
      using conn_at_mem [OF t] by (intro inv_upd_conn [OF i at]) (simp_all add: conn_refs_def conn_link_def)
    then show ?thesis
      by (rule strip_entry_inv)
  qed
  show ?thesis
    unfolding detach_connection_def Let_def u_def [symmetric]
    using assms strip_entry_inv [OF assms] detach u(1) by (auto split: option.split)
qed

lemma stat_timer_inv: "env_ok env \<Longrightarrow> net_inv env R s \<Longrightarrow> net_inv env R (stat_timer env a s)"
proof -
  assume e: "env_ok env" and s: "net_inv env R s"
  have "net_inv env R (update_connection_progress env a s)"
    by (rule inv_same_view [OF same_view_update_progress [OF same_view_refl] s])
  then show ?thesis
    using notify_inv [OF e] by (simp add: stat_timer_def Let_def notify_connection_callbacks_def split: option.split)
qed

lemma install_conn_timer_view: "same_view s t \<Longrightarrow> same_view s (install_conn_timer env a f t)"
  by (auto simp: install_conn_timer_def core_def intro!: same_view_upd_conn same_view_fields split: option.split prod.split)

lemma timeout_inv:
  assumes "inv_but env R X s"
  shows "inv_but env R X (connection_timeout_1 env a s)" "inv_but env R X (set_connection_timeout env a s)"
proof -
  show "inv_but env R X (connection_timeout_1 env a s)"
    unfolding connection_timeout_1_def by (rule inv_same_view [OF install_conn_timer_view [OF same_view_refl] assms])
  have "same_view s (set_connection_timeout env a s)"
    by (auto simp: set_connection_timeout_def core_def
        intro!: install_conn_timer_view same_view_upd_conn same_view_fields split: option.split prod.split)
  then show "inv_but env R X (set_connection_timeout env a s)"
    using inv_same_view assms by blast
qed

lemma keepalive_timer_inv: "inv_but env R X s \<Longrightarrow> inv_but env R X (keepalive_timer env s)"
  unfolding keepalive_timer_def
  by (rule check_keepalive_inv(1), rule inv_same_view [rotated]) (simp_all add: same_view_def)

lemma abort_conns_inv:
  assumes "abort_conns env s = Some t" "env_ok env" "net_inv env R s"
  shows "net_inv env R t"
proof -
  have "env_ok env \<longrightarrow> net_inv env R s \<longrightarrow> net_inv env R t"
  proof (rule abort_conns.raw_induct [OF _ assms(1)], intro impI)
    fix f env s t
    assume IH: "\<And>env s t. f env s = Some t \<Longrightarrow> env_ok env \<longrightarrow> net_inv env R s \<longrightarrow> net_inv env R t"
      and body: "(case n_queue s of [] \<Rightarrow> Some s | c # _ \<Rightarrow> f env (abort_connection env (cn_addr c) S_INTERRUPTED s)) = Some t"
      and s: "env_ok env" "net_inv env R s"
    have "is_in_result_state S_INTERRUPTED"
      by (simp add: is_in_result_state_def conn_states)
    then show "net_inv env R t"
      using IH body s abort_connection_inv [OF s(1) inv_at [OF s(2)]] by (auto split: list.splits)
  qed
  with assms(2,3) show ?thesis
    by simp
qed

lemma abort_keepalives_inv:
  assumes "abort_keepalives env s = Some t" "net_inv env R s"
  shows "net_inv env R t"
proof -
  have "net_inv env R s \<longrightarrow> net_inv env R t"
  proof (rule abort_keepalives.raw_induct [OF _ assms(1)], intro impI)
    fix f env s t
    assume IH: "\<And>env s t. f env s = Some t \<Longrightarrow> net_inv env R s \<longrightarrow> net_inv env R t"
      and body: "(case n_keepalives s of [] \<Rightarrow> Some s | k # _ \<Rightarrow> f env (done_keepalive_connection env k s)) = Some t"
      and s: "net_inv env R s"
    then show "net_inv env R t"
      using IH body s done_keepalive_inv(1) [OF s] by (auto split: list.splits)
  qed
  with assms(2) show ?thesis
    by simp
qed

lemma abort_all_inv:
  "abort_all_connections env s = Some t \<Longrightarrow> env_ok env \<Longrightarrow> net_inv env R s \<Longrightarrow> net_inv env R t"
  using abort_conns_inv abort_keepalives_inv check_keepalive_inv(1)
  by (auto simp: abort_all_connections_def abort_all_keepalive_connections_def split: option.splits)

lemma abort_background_inv:
  assumes "env_ok env" "net_inv env R s"
  shows "net_inv env R (abort_background_connections env s)"
proof -
  let ?f = "\<lambda>s a. case conn_at s a of None \<Rightarrow> s
    | Some c \<Rightarrow> if get_priority c \<ge> PRI_CANCEL then abort_connection env a S_INTERRUPTED s else s"
  have "is_in_result_state S_INTERRUPTED"
    by (simp add: is_in_result_state_def conn_states)
  then have step: "net_inv env R s \<Longrightarrow> net_inv env R (?f s a)" for s a
    using abort_connection_inv [OF assms(1) inv_at] by (simp split: option.split)
  have "net_inv env R s \<Longrightarrow> net_inv env R (foldl ?f s as)" for as
  proof (induction as arbitrary: s)
    case (Cons a as)
    then show ?case
      using step [OF Cons.prems, of a] by (simp only: foldl.simps)
  qed simp
  then show ?thesis
    using assms(2) by (simp only: abort_background_connections_def)
qed

lemma progress_inv:
  assumes "env_ok env" "net_inv env R s" "conn_at s a = Some c" "cn_state c \<noteq> S_WAIT" "S_WAIT < st"
  shows "net_inv env R (set_connection_state env a st s)"
proof -
  have "conn_link c"
    using inv_link [OF assms(2)] conn_at_mem [OF assms(3)] by simp
  then show ?thesis
    using assms(4,5)
    by (intro set_state_inv [OF assms(1)] with_state_inv [OF assms(2,3)])
      (simp_all add: conn_link_def is_in_progress_state_def conn_states)
qed

section \<open>The transition system\<close>

text \<open>
  From call to call time passes and options change, but the limits and the protocols users define stay. Besides the
  operations of the module there are the steps of the rest of the program, which may do what it likes with its own
  references, the cache and the parts of connections that the module leaves to protocols, as long as it gives back only
  what it holds.
\<close>

definition same_setting :: "net_env \<Rightarrow> net_env \<Rightarrow> bool" where
  "same_setting env e \<longleftrightarrow>
     env_ok e \<and> nv_max_conns e = nv_max_conns env \<and> nv_max_conns_to_host e = nv_max_conns_to_host env \<and> up_of e = up_of env"

definition rest_step :: "net_env \<Rightarrow> net \<Rightarrow> net \<Rightarrow> bool" where
  "rest_step env s t \<longleftrightarrow>
     map core (n_queue t) = map core (n_queue s) \<and> n_hosts t = n_hosts s \<and> n_keepalives t = n_keepalives s \<and>
     n_active t = n_active s \<and> uris_ok (up_of env) [] t \<and>
     (\<forall>a \<in> cn_uri ` set (n_queue s) \<union> hc_uri ` set (n_hosts s). uri_of (n_uris t) a = uri_of (n_uris s) a)"

inductive net_step :: "net_env \<Rightarrow> net \<Rightarrow> net \<Rightarrow> bool" for env where
  load: "same_setting env e \<Longrightarrow> pri < PRIORITIES \<Longrightarrow> (\<And>r. referrer = Some r \<Longrightarrow> r \<in> set (net_refs s)) \<Longrightarrow>
    net_step env s (snd (load_uri e u referrer d pri mode start s))"
| change: "same_setting env e \<Longrightarrow> pri < PRIORITIES \<Longrightarrow> net_step env s (change_connection e old new pri interrupt s)"
| progress: "same_setting env e \<Longrightarrow> conn_at s a = Some c \<Longrightarrow> cn_state c \<noteq> S_WAIT \<Longrightarrow> S_WAIT < st \<Longrightarrow>
    net_step env s (set_connection_state e a st s)"
| abort: "same_setting env e \<Longrightarrow> is_in_result_state st \<Longrightarrow> net_step env s (abort_connection e a st s)"
| retry: "same_setting env e \<Longrightarrow> conn_at s a = Some c \<Longrightarrow> cn_running c \<Longrightarrow> is_in_result_state st \<Longrightarrow>
    net_step env s (retry_connection e a st s)"
| keep: "same_setting env e \<Longrightarrow> conn_at s a = Some c \<Longrightarrow> cn_state c \<noteq> S_WAIT \<Longrightarrow>
    net_step env s (add_keepalive_connection e a timeout None s)"
| reuse: "same_setting env e \<Longrightarrow> conn_at s a = Some c \<Longrightarrow> net_step env s (snd (has_keepalive_connection a s))"
| schedule: "same_setting env e \<Longrightarrow> check_queue e s = Some t \<Longrightarrow> net_step env s t"
| detach: "same_setting env e \<Longrightarrow> net_step env s (detach_connection e d pos s)"
| tick: "same_setting env e \<Longrightarrow> net_step env s (stat_timer e a s)"
| expire: "same_setting env e \<Longrightarrow> net_step env s (keepalive_timer e s)"
| timeout: "same_setting env e \<Longrightarrow> net_step env s (set_connection_timeout e a s)"
| timeout_1: "same_setting env e \<Longrightarrow> net_step env s (connection_timeout_1 e a s)"
| abort_all: "same_setting env e \<Longrightarrow> abort_all_connections e s = Some t \<Longrightarrow> net_step env s t"
| abort_background: "same_setting env e \<Longrightarrow> net_step env s (abort_background_connections e s)"
| rest: "rest_step env s t \<Longrightarrow> net_step env s t"

lemma inv_setting: "same_setting env e \<Longrightarrow> inv_but e R X s = inv_but env R X s"
  by (simp add: inv_but_def limits_ok_def same_setting_def)

lemma rest_step_inv:
  assumes "rest_step env s t" "net_inv env [] s"
  shows "net_inv env [] t"
proof -
  let ?t = "t\<lparr>n_queue := n_queue s\<rparr>"
  have q: "map core (n_queue t) = map core (n_queue s)"
    using assms(1) by (simp add: rest_step_def)
  have view: "same_view ?t t"
    using q by (simp add: same_view_def)
  have "hosts_ok (n_uris t) (n_hosts s) (n_queue s)"
  proof (subst hosts_ok_cong)
    show "hosts_ok (n_uris s) (n_hosts s) (n_queue s)"
      using assms(2) by (simp add: inv_but_def)
  qed (use assms(1) in \<open>simp add: rest_step_def\<close>)
  moreover have "map conn_refs (n_queue s) = map conn_refs (n_queue t)"
    by (rule map_core_cong [OF q [symmetric]]) (auto dest: core_eqD)
  then have refs: "net_refs ?t = net_refs t"
    by (simp add: net_refs_def)
  have "uris_ok (up_of env) [] ?t"
    using assms(1) by (simp add: rest_step_def uris_ok_def refs)
  ultimately have "net_inv env [] ?t"
    using assms by (simp add: inv_but_def queue_ok_def limits_ok_def rest_step_def)
  then show ?thesis
    by (rule inv_same_view [OF view])
qed

lemma net_step_inv: "net_step env s t \<Longrightarrow> net_inv env [] s \<Longrightarrow> net_inv env [] t"
proof (induction rule: net_step.induct)
  case (load e pri referrer s u d mode start)
  then show ?case
    using load_uri_inv [of e "[]" s pri referrer] by (simp add: same_setting_def flip: inv_setting [OF load(1)])
next
  case (change e pri s old new interrupt)
  then show ?case
    using change_connection_inv [of e "[]" s pri] by (simp add: same_setting_def flip: inv_setting [OF change(1)])
next
  case (progress e s a c st)
  then show ?case
    using progress_inv [of e "[]" s a c st] by (simp add: same_setting_def flip: inv_setting [OF progress(1)])
next
  case (abort e st s a)
  then show ?case
    using abort_connection_inv [of e "[]" a s st] inv_at [of e "[]" s a] by (simp add: same_setting_def flip: inv_setting [OF abort(1)])
next
  case (retry e s a c st)
  then show ?case
    using retry_connection_inv [of e "[]" a s c st] inv_at [of e "[]" s a] by (simp add: same_setting_def flip: inv_setting [OF retry(1)])
next
  case (keep e s a c timeout)
  then show ?case
    using add_keepalive_inv [of e "[]" s a c timeout] by (simp add: same_setting_def flip: inv_setting [OF keep(1)])
next
  case (schedule e s t)
  then show ?case
    using check_queue_inv [of e s t "[]"] by (simp add: same_setting_def flip: inv_setting [OF schedule(1)])
next
  case (tick e s a)
  then show ?case
    using stat_timer_inv [of e "[]" s a] by (simp add: same_setting_def flip: inv_setting [OF tick(1)])
next
  case (expire e s)
  then show ?case
    using keepalive_timer_inv [of e "[]" "{}" s] by (simp flip: inv_setting [OF expire(1)])
next
  case (abort_all e s t)
  then show ?case
    using abort_all_inv [of e s t "[]"] by (simp add: same_setting_def flip: inv_setting [OF abort_all(1)])
next
  case (abort_background e s)
  then show ?case
    using abort_background_inv [of e "[]" s] by (simp add: same_setting_def flip: inv_setting [OF abort_background(1)])
next
  case (detach e s d pos)
  then show ?case
    using detach_connection_inv [of e "[]" s d pos] by (simp flip: inv_setting [OF detach(1)])
next
  case (timeout e s a)
  then show ?case
    using timeout_inv(2) [of e "[]" "{}" s] by (simp flip: inv_setting [OF timeout(1)])
next
  case (timeout_1 e s a)
  then show ?case
    using timeout_inv(1) [of e "[]" "{}" s] by (simp flip: inv_setting [OF timeout_1(1)])
qed (simp_all add: has_keepalive_inv rest_step_inv)

section \<open>The queue in every reachable state\<close>

definition net_start :: "net_env \<Rightarrow> net \<Rightarrow> bool" where
  "net_start env s \<longleftrightarrow>
     n_queue s = [] \<and> n_hosts s = [] \<and> n_keepalives s = [] \<and> n_active s = 0 \<and> 0 \<le> nv_max_conns env \<and> uris_ok (up_of env) [] s"

lemma reachable_inv: "(net_step env)\<^sup>*\<^sup>* s0 s \<Longrightarrow> net_start env s0 \<Longrightarrow> net_inv env [] s"
proof (induction rule: rtranclp_induct)
  case base
  then show ?case
    by (simp add: net_start_def inv_but_def queue_ok_def hosts_ok_def limits_ok_def running_def users_def hcount_def)
qed (rule net_step_inv)

lemma host_count:
  assumes "net_inv env R s" "h \<in> set (n_hosts s)"
  shows "hc_refs h = int (length (filter (\<lambda>c. cn_running c \<and> compare_uri (cn_uri c = hc_uri h) (conn_uri s c) (uri_of (n_uris s) (hc_uri h)) URI_HOST)
    (n_queue s)))"
proof -
  let ?k = "hkey (n_uris s) (hc_uri h)"
  have ok: "hosts_ok (n_uris s) (n_hosts s) (n_queue s)"
    using assms(1) by (simp add: inv_but_def)
  then have "hcount (n_uris s) (n_hosts s) ?k = hc_refs h" "hcount (n_uris s) (n_hosts s) ?k = int (users (n_uris s) (n_queue s) ?k)"
      "0 < hc_refs h"
    using hcount_mem [of "n_uris s" "n_hosts s" h] assms(2) by (simp_all only: hosts_ok_def)
  then have refs: "hc_refs h = int (users (n_uris s) (n_queue s) ?k)" "0 < hc_refs h"
    by simp_all
  then have "filter (\<lambda>c. cn_running c \<and> hosted (n_uris s) (cn_uri c) \<and> hkey (n_uris s) (cn_uri c) = ?k) (n_queue s) \<noteq> []"
    by (auto simp: users_def)
  then obtain d :: connection where "hosted (n_uris s) (cn_uri d)" "hkey (n_uris s) (cn_uri d) = ?k"
    unfolding filter_empty_conv by blast
  then have "hosted (n_uris s) (cn_uri c)" if "hkey (n_uris s) (cn_uri c) = ?k" for c
    using hosted_hkey that by metis
  then have "(cn_running c \<and> hosted (n_uris s) (cn_uri c) \<and> hkey (n_uris s) (cn_uri c) = ?k) =
      (cn_running c \<and> compare_uri (cn_uri c = hc_uri h) (conn_uri s c) (uri_of (n_uris s) (hc_uri h)) URI_HOST)" for c
    by (auto simp: conn_uri_def compare_host)
  with refs(1) show ?thesis
    by (simp only: users_def)
qed

text \<open>C4: The queue of connections is consistent in every state that can be reached from an empty one by the steps of \<open>net_step\<close>: the
  module's operations, runs of the scheduler, and steps of the rest of the program that leave the queue alone. Two conditions limit this. Protocol handlers
  and download callbacks are part of the surroundings, which are assumed to keep the invariant themselves when they call the module
  (\<open>env_ok\<close>; clean-up functions of protocols do not touch the queue). And idle server connections are only kept without a \<^verbatim>\<open>done\<close> function, as FTP and HTTP
  do; closing one that has such a function (NNTP) runs a connection without asking for the limits and is not among the steps.
  Then what \<^verbatim>\<open>check_queue_bugs\<close> asserts is true, so it never
  reports and repairs an error: the queue is sorted by priority, every connection on it is in progress, and
  \<^verbatim>\<open>active_connections\<close> is the number of running ones. The limits of the options, which stay what they are at the start, are not exceeded, neither in
  total nor for a host, the host connections count the running connections to their host, exactly the connections
  in state \<^verbatim>\<open>S_WAIT\<close> do not run, and the URIs connections use are still registered.\<close>

theorem queue_consistent:
  assumes "net_start env s0" "(net_step env)\<^sup>*\<^sup>* s0 s"
  shows "check_queue_bugs s \<and> 0 \<le> n_active s \<and> n_active s \<le> nv_max_conns env \<and>
    (\<forall>h\<in>set (n_hosts s). hc_refs h = int (length (filter (\<lambda>c. cn_running c \<and>
       compare_uri (cn_uri c = hc_uri h) (conn_uri s c) (uri_of (n_uris s) (hc_uri h)) URI_HOST) (n_queue s))) \<and>
       0 < hc_refs h \<and> hc_refs h \<le> nv_max_conns_to_host env) \<and>
    (\<forall>c\<in>set (n_queue s). (cn_running c \<longleftrightarrow> cn_state c \<noteq> S_WAIT) \<and> (\<forall>u\<in>set (conn_refs c). uri_at (n_uris s) u \<noteq> None))"
proof -
  have inv: "net_inv env [] s"
    by (rule reachable_inv [OF assms(2,1)])
  then have ok: "uc_ok (up_of env) (n_uris s)" "uris_ok (up_of env) [] s"
    by (simp_all add: inv_but_def uris_ok_def)
  have "uri_at (n_uris s) u \<noteq> None" if "c \<in> set (n_queue s)" "u \<in> set (conn_refs c)" for c u
    using uris_held [OF ok(2), of u] refs_mem(1) [OF that(1)] that(2) uri_at_held [OF ok(1), of u] by auto
  then show ?thesis
    using inv host_count [OF inv]
    by (auto simp: inv_but_def queue_ok_def check_queue_bugs_def conn_link_def list_all_iff running_def limits_ok_def hosts_ok_def)
qed

text \<open>A state before anything was loaded, and the state after loading the sample URI.\<close>

definition idle_net :: "nat \<Rightarrow> uri_cache \<Rightarrow> net" where
  "idle_net u uc = (sample_net u uc)\<lparr>n_queue := [], n_clients := [u]\<rparr>"

lemma idle_net_start: "uc_ok (\<lambda>_. False) uc \<Longrightarrow> held uc u = 1 \<Longrightarrow> net_start (sample_net_env m) (idle_net u uc)"
  by (simp add: net_start_def idle_net_def sample_net_def sample_net_env_def uris_ok_def net_refs_def owned_def up_of_def
      sample_cache_env_def sample_proxy_env_def)

lemma sample_load:
  assumes "allocates_fresh sample_cache_env m"
    and "\<And>uc. uc_ok (\<lambda>_. False) uc \<Longrightarrow> mem_map (m uc) \<and> mem_entry (m uc) \<noteq> None \<and> mem_item (m uc) \<noteq> None"
    and "uc_ok (\<lambda>_. False) uc" "uri_at uc u = Some sample_uri"
  shows "n_queue (snd (load_uri (sample_net_env m) u None None 0 CACHE_MODE_NORMAL 0 (idle_net u uc))) \<noteq> []"
proof -
  let ?env = "sample_net_env m" and ?s = "idle_net u uc"
  obtain cu uc1 pu uc2 where p: "get_proxied_uri sample_proxy_env (m uc) sample_uri uc = (Some cu, uc1)" "uc_ok (\<lambda>_. False) uc1"
      "get_proxy_uri sample_proxy_env (m uc1) sample_uri uc1 = (Some pu, None, uc2)" "uri_at uc2 pu = Some sample_uri"
      "\<forall>a u. uri_at uc a = Some u \<longrightarrow> uri_at uc1 a = Some u"
    by (rule sample_uris [OF assms(1-3)])
  have find: "get_validated_cache_entry (net_cache_env e ?s) u CACHE_MODE_NORMAL (n_cache ?s) = (None, n_cache ?s)" for e
    by (simp add: get_validated_cache_entry_def find_in_cache_def idle_net_def sample_net_def)
  have uris: "n_uris ?s = uc" "uri_of uc u = sample_uri" "uri_of uc1 u = sample_uri" "uri_of uc2 pu = sample_uri"
    using assms(4) p(4,5) by (simp_all add: idle_net_def sample_net_def uri_of_def)
  have env: "cv_proxy (nv_cache ?env) = sample_proxy_env" "nv_uri_mem ?env = m"
    by (simp_all add: sample_net_env_def sample_cache_env_def)
  define t where "t = upd_uris (\<lambda>_. uc2) (upd_uris (\<lambda>_. uc1) ?s)"
  have con: "connection_uris ?env u ?s = (Some cu, Some pu, S_OK, t)"
    using p(1,3) by (simp add: connection_uris_def env uris t_def Let_def)
  have host: "hostlen (uri_of (n_uris t) pu) \<noteq> 0"
    using uris(4) by (simp add: t_def parsed_sel)
  have q: "n_queue t = []"
    by (simp add: t_def idle_net_def)
  obtain c where i: "init_connection ?env pu cu None 0 CACHE_MODE_NORMAL 0 t = (Some c, t\<lparr>n_connection_id := n_connection_id t + 1\<rparr>)"
    by (simp add: init_connection_def sample_net_env_def)
  have "snd (load_uri ?env u None None 0 CACHE_MODE_NORMAL 0 ?s) =
      start_connection ?env c None (t\<lparr>n_connection_id := n_connection_id t + 1\<rparr>)"
    using find con host q i by (simp add: load_uri_def set_download_def)
  moreover have "sched_view (with_state (cn_addr c) S_WAIT (add_to_queue c v)) (set_connection_state ?env (cn_addr c) S_WAIT (add_to_queue c v))" for v
    by (rule quiet_set_state [OF sample_env_quiet])
  then have "map core (n_queue (start_connection ?env c None v)) = map core (n_queue (with_state (cn_addr c) S_WAIT (add_to_queue c v)))" for v
    by (simp add: sched_view_def start_connection_def set_download_def register_check_queue_def Let_def)
  ultimately have "map core (n_queue (snd (load_uri ?env u None None 0 CACHE_MODE_NORMAL 0 ?s))) \<noteq> []"
    using q by (simp add: with_state_def upd_conn_def add_to_queue_def)
  then show ?thesis
    by auto
qed

theorem queue_consistent_witness:
  "\<exists>m s0 s. net_start (sample_net_env m) s0 \<and> (net_step (sample_net_env m))\<^sup>*\<^sup>* s0 s \<and> n_queue s \<noteq> [] \<and> check_queue_bugs s"
proof -
  have up: "penv_user_program (cv_proxy sample_cache_env) = (\<lambda>_. False)"
    by (simp add: sample_cache_env_def sample_proxy_env_def)
  obtain m where m: "allocates_fresh sample_cache_env m"
    "\<And>uc. uc_ok (\<lambda>_. False) uc \<Longrightarrow> mem_map (m uc) \<and> mem_entry (m uc) \<noteq> None \<and> mem_item (m uc) \<noteq> None"
    using good_allocator [of sample_cache_env] unfolding up by blast
  obtain u uc where uc: "uc_ok (\<lambda>_. False) uc" "held uc u = 1" "uri_at uc u = Some sample_uri"
    by (rule sample_registered)
  let ?env = "sample_net_env m" and ?s = "idle_net u uc"
  have "same_setting ?env ?env"
    by (simp add: same_setting_def sample_env_ok [OF m(1)])
  then have "net_step ?env ?s (snd (load_uri ?env u None None 0 CACHE_MODE_NORMAL 0 ?s))"
    by (rule net_step.load) (simp_all add: PRIORITIES_def)
  then have step: "(net_step ?env)\<^sup>*\<^sup>* ?s (snd (load_uri ?env u None None 0 CACHE_MODE_NORMAL 0 ?s))"
    by blast
  from queue_consistent [OF idle_net_start [OF uc(1,2)] step] idle_net_start [OF uc(1,2)] step sample_load [OF m uc(1,3)]
  show ?thesis
    by blast
qed

section \<open>Giving up\<close>

text \<open>The number of attempts, and whether a protocol has to be told when the connection is freed.\<close>

definition attempts :: "nat \<Rightarrow> net \<Rightarrow> (int \<times> nat option) option" where
  "attempts a s = map_option (\<lambda>c. (cn_tries c, cn_done c)) (conn_at s a)"

lemma attempts_upd_conn [simp]:
  "(\<And>c. cn_addr (f c) = cn_addr c \<and> cn_tries (f c) = cn_tries c \<and> cn_done (f c) = cn_done c) \<Longrightarrow> attempts a (upd_conn b f s) = attempts a s"
  by (simp add: attempts_def conn_at_upd option.map_comp comp_def)

lemma attempts_queue: "n_queue t = n_queue s \<Longrightarrow> attempts a t = attempts a s"
  by (simp add: attempts_def conn_at_def)

lemma attempts_fields [simp]:
  "attempts a (s\<lparr>n_timers := ts\<rparr>) = attempts a s" "attempts a (s\<lparr>n_active := n\<rparr>) = attempts a s"
  "attempts a (close_fd fd s) = attempts a s" "attempts a (upd_download d g s) = attempts a s" "attempts a (done_socket sk s) = attempts a s"
  "attempts a (done_host_connection c s) = attempts a s"
  by (rule attempts_queue, simp add: close_fd_def upd_download_def done_socket_def)+

lemma attempts_downloads [simp]: "attempts a (foldl (\<lambda>s d. upd_download d g s) s ds) = attempts a s"
  by (induction ds arbitrary: s) simp_all

lemma attempts_progress [simp]: "attempts a (start_or_stop_progress env b st s) = attempts a s"
  by (simp add: start_or_stop_progress_def update_connection_progress_def split: option.split prod.split)

lemma attempts_release [simp]: "attempts a (release_connection b s) = attempts a s"
  by (simp add: release_connection_def shutdown_connection_stream_def shutdown_cgi_pipes_def Let_def split: option.split prod.split)

lemma attempts_set_state: "is_in_result_state st \<Longrightarrow> attempts a (set_connection_state env b st s) = attempts a s"
  by (simp add: set_connection_state_def Let_def is_in_result_state_def is_in_progress_state_def split: option.split)

text \<open>The clean-up function of a protocol leaves the number of attempts alone.\<close>

definition keeps_tries :: "net_env \<Rightarrow> nat \<Rightarrow> nat option \<Rightarrow> bool" where
  "keeps_tries env a f \<longleftrightarrow>
     (\<forall>g u. f = Some g \<longrightarrow> map_option cn_tries (conn_at (nv_done env g a u) a) = map_option cn_tries (conn_at u a))"

lemma attempts_tries: "attempts a s = attempts a t \<Longrightarrow> map_option cn_tries (conn_at s a) = map_option cn_tries (conn_at t a)"
  by (auto simp: attempts_def map_option_case split: option.splits)

lemma tries_free:
  assumes "conn_at s a = Some c" "keeps_tries env a (cn_done c)"
  shows "map_option cn_tries (conn_at (free_connection_data env a s) a) = Some (cn_tries c)"
proof -
  define s1 where "s1 = (let s = upd_conn a (\<lambda>c. c\<lparr>cn_running := False\<rparr>) s in s\<lparr>n_active := (if n_active s - 1 < 0 then 0 else n_active s - 1)\<rparr>)"
  define s2 where "s2 = (case cn_done c of None \<Rightarrow> s1 | Some f \<Rightarrow> nv_done env f a s1)"
  have "attempts a s1 = attempts a s"
    by (simp add: s1_def Let_def)
  then have "map_option cn_tries (conn_at s1 a) = Some (cn_tries c)"
    using attempts_tries assms(1) by fastforce
  moreover have "map_option cn_tries (conn_at s2 a) = map_option cn_tries (conn_at s1 a)"
    using assms(2) by (cases "cn_done c") (simp_all add: s2_def keeps_tries_def)
  ultimately have "map_option cn_tries (conn_at s2 a) = Some (cn_tries c)"
    by (simp only:)
  moreover have "map_option cn_tries (conn_at (release_connection a s2) a) = map_option cn_tries (conn_at s2 a)"
    "map_option cn_tries (conn_at (done_host_connection d (release_connection a s2)) a) = map_option cn_tries (conn_at s2 a)" for d
    by (rule attempts_tries, simp)+
  moreover have "free_connection_data env a s = (case conn_at (release_connection a s2) a of None \<Rightarrow> release_connection a s2
      | Some c \<Rightarrow> if cn_state c \<noteq> S_WAIT then done_host_connection c (release_connection a s2) else release_connection a s2)"
    by (simp only: free_connection_data_def assms(1) option.case Let_def s1_def s2_def)
  then have "free_connection_data env a s = release_connection a s2 \<or>
      (\<exists>d. free_connection_data env a s = done_host_connection d (release_connection a s2))"
    by (auto split: option.splits)
  ultimately show ?thesis
    by metis
qed

lemma quiet_done_gone: "env_quiet env \<Longrightarrow> conn_at s a = Some c \<Longrightarrow> conn_at (done_connection env a s) a = None"
proof -
  assume "env_quiet env" "conn_at s a = Some c"
  then have "map core (n_queue (done_connection env a s)) = map core (filter (\<lambda>c. cn_addr c \<noteq> a) (n_queue s))"
    using quiet_done by (simp add: without_def)
  then have "map cn_addr (n_queue (done_connection env a s)) = map cn_addr (filter (\<lambda>c. cn_addr c \<noteq> a) (n_queue s))"
    by (rule map_core_cong) (auto dest: core_eqD)
  then have "cn_addr ` set (n_queue (done_connection env a s)) = cn_addr ` set (filter (\<lambda>c. cn_addr c \<noteq> a) (n_queue s))"
    by (metis list.set_map)
  then show ?thesis
    by (auto simp: conn_at_None)
qed

text \<open>C30: \<^verbatim>\<open>retry_connection\<close> gives up for good when the request has POST data, when the option \<^verbatim>\<open>connection.retries\<close> is 0, and
  when the connection has used up its tries, provided that the clean-up function of its protocol, if it has one, does not set the number of
  tries (\<open>keeps_tries\<close>): the connection leaves the queue. The description of the option says that 0 means to try forever. This holds from every
  state that satisfies the invariant of the queue (\<open>net_inv\<close>, with the limits kept and no idle connection that has a \<^verbatim>\<open>done\<close> function) for surroundings that keep that invariant (\<open>env_ok\<close>) and leave the queue to the module
  (\<open>env_quiet\<close>): the download callbacks that are told of the failure may not load the URI again.\<close>

theorem retry_gives_up:
  assumes "env_ok env" "env_quiet env" "net_inv env R s" "conn_at s a = Some c" "cn_running c" "is_in_result_state st"
    and "u_post (conn_uri s c) \<noteq> None \<or> nv_retries env = 0 \<or> keeps_tries env a (cn_done c) \<and> nv_retries env \<le> cn_tries c + 1"
  shows "conn_at (retry_connection env a st s) a = None"
proof -
  let ?s = "set_connection_state env a st s"
  obtain d where d: "inv_but env R {a} ?s" "conn_at ?s a = Some d" "core d = core (c\<lparr>cn_state := st\<rparr>)"
      "same_view (with_state a st s) ?s"
    using result_state_inv [OF inv_at [OF assms(3)] assms(4,6)] .
  have run: "cn_running d" "cn_state d \<noteq> S_WAIT" "cn_uri d = cn_uri c"
    using core_eqD [OF d(3)] assms(5,6) by (simp_all add: is_in_result_state_def conn_states)
  define t where "t = free_connection_data env a ?s"
  obtain e where e: "conn_at t a = Some e" "core e = core (d\<lparr>cn_running := False\<rparr>)"
    using free_data_inv(2) [OF assms(1) d(1,2) run(1,2)] by (auto simp: t_def)
  have "uri_of (n_uris t) (cn_uri d) = uri_of (n_uris ?s) (cn_uri d)"
    using free_data_effect [OF assms(1) d(1,2) run(1,2) singletonI] conn_at_mem [OF d(2)] unfolding t_def by metis
  moreover have "n_uris ?s = n_uris s"
    using d(4) by (simp add: same_view_def)
  ultimately have post: "u_post (conn_uri t e) = u_post (conn_uri s c)"
    using core_eqD [OF e(2)] run(3) by (simp add: conn_uri_def)
  have tries: "cn_tries e = cn_tries c" if "keeps_tries env a (cn_done c)"
  proof -
    have "attempts a ?s = attempts a s"
      by (rule attempts_set_state [OF assms(6)])
    then have "cn_tries d = cn_tries c" "cn_done d = cn_done c"
      using assms(4) d(2) by (simp_all add: attempts_def)
    with tries_free [OF d(2), of env] that e(1) show ?thesis
      by (simp add: t_def)
  qed
  have gone: "conn_at (register_check_queue env (done_connection env a u)) a = None" if "conn_at u a = Some d" for u d
    using quiet_done_gone [OF assms(2) that] by (simp add: register_check_queue_def conn_at_def)
  have "conn_at (upd_conn a (\<lambda>c. c\<lparr>cn_tries := cn_tries c + 1\<rparr>) t) a = Some (e\<lparr>cn_tries := cn_tries e + 1\<rparr>)"
    using e(1) by (simp add: conn_at_upd)
  from gone [OF this] gone [OF e(1)] e(1) post tries assms(7) show ?thesis
    by (auto simp: retry_connection_def interrupt_connection_def Let_def simp flip: t_def)
qed

text \<open>One connection runs, and \<^verbatim>\<open>connection.retries\<close> is 0.\<close>

definition forever_env :: "(uri_cache \<Rightarrow> uri_mem) \<Rightarrow> net_env" where
  "forever_env m = (sample_net_env m)\<lparr>nv_retries := 0\<rparr>"

lemma forever_env_ok: "allocates_fresh sample_cache_env m \<Longrightarrow> env_ok (forever_env m)" "env_quiet (forever_env m)"
proof -
  have inv: "inv_but (forever_env m) R X s = inv_but (sample_net_env m) R X s" for R X s
    by (simp add: forever_env_def inv_but_def limits_ok_def up_of_def)
  show "allocates_fresh sample_cache_env m \<Longrightarrow> env_ok (forever_env m)"
    using sample_env_ok [of m] unfolding env_ok_def inv by (simp add: forever_env_def)
  show "env_quiet (forever_env m)"
    unfolding env_quiet_def forever_env_def sample_net_env_def by (auto intro: exI [of _ 1])
qed

definition running_net :: "nat \<Rightarrow> uri_cache \<Rightarrow> net" where
  "running_net u uc = (sample_net u uc)\<lparr>n_queue := [(sample_conn 1 0 u)\<lparr>cn_running := True, cn_state := 1\<rparr>],
     n_hosts := [\<lparr>hc_uri = u, hc_refs = 1\<rparr>], n_active := 1\<rparr>"

lemma running_net_inv: "net_inv (sample_net_env m) [] (sample_net u uc) \<Longrightarrow> hosted uc u \<Longrightarrow> net_inv (forever_env m) [] (running_net u uc)"
  by (simp add: inv_but_def queue_ok_def hosts_ok_def uris_ok_def limits_ok_def sample_net_def sample_conn_def net_refs_def
      conn_refs_def conn_wf_def conn_link_def get_priority_def running_def users_def hcount_def PRIORITIES_def running_net_def
      is_in_progress_state_def conn_states sample_net_env_def owned_def eval_nat_numeral forever_env_def up_of_def split: if_splits)

theorem retry_gives_up_witness:
  "\<exists>m u uc c. net_inv (forever_env m) [] (running_net u uc) \<and> conn_at (running_net u uc) 1 = Some c \<and> cn_tries c = 0 \<and>
     nv_retries (forever_env m) = 0 \<and> conn_at (retry_connection (forever_env m) 1 S_INTERNAL (running_net u uc)) 1 = None"
proof -
  obtain m where m: "allocates_fresh sample_cache_env m"
    using good_allocator [of sample_cache_env] by blast
  obtain u uc where "net_inv (sample_net_env m) [] (sample_net u uc)" "hosted uc u"
    using sample_net_inv by blast
  then have inv: "net_inv (forever_env m) [] (running_net u uc)"
    by (rule running_net_inv)
  let ?c = "(sample_conn 1 0 u)\<lparr>cn_running := True, cn_state := 1\<rparr>"
  have c: "conn_at (running_net u uc) 1 = Some ?c" "cn_running ?c" "cn_tries ?c = 0" "nv_retries (forever_env m) = 0"
    by (simp_all add: conn_at_def running_net_def sample_conn_def forever_env_def)
  have "is_in_result_state S_INTERNAL"
    by (simp add: is_in_result_state_def conn_states)
  from retry_gives_up [OF forever_env_ok(1) [OF m] forever_env_ok(2) inv c(1,2) this] inv c show ?thesis
    by blast
qed

end
