(* ===== verification/Header.thy ===== *)
theory Header
  imports Conv
begin

text \<open>
  \<^verbatim>\<open>elinks/src/protocol/header.c\<close>: the search for a field in a block of HTTP headers and for a parameter in
  the value of a field. A pointer into a string is the rest of the string from there; the
  functions return copies, memory being available unless \<open>alloc\<close> says otherwise.
\<close>

section \<open>Header fields\<close>

definition ASCII_TAB :: char where "ASCII_TAB = CHR 0x09"
definition ASCII_LF :: char where "ASCII_LF = CHR 0x0A"
definition ASCII_CR :: char where "ASCII_CR = CHR 0x0D"
definition ASCII_DEL :: char where "ASCII_DEL = CHR 0x7F"

lemmas ascii_defs = ASCII_TAB_def ASCII_LF_def ASCII_CR_def ASCII_DEL_def

definition LWS :: "char \<Rightarrow> bool" where
  "LWS c \<longleftrightarrow> c = CHR '' '' \<or> c = ASCII_TAB"

definition rstrip :: "(char \<Rightarrow> bool) \<Rightarrow> string \<Rightarrow> string" where
  "rstrip P s = rev (dropWhile P (rev s))"

text \<open>The loop that compares the name of the field with the line.\<close>

fun match_item :: "string \<Rightarrow> string \<Rightarrow> string \<times> string" where
  "match_item (i # item) (c # pos) =
     (if c_toupper i \<noteq> c_toupper c then (i # item, c # pos) else match_item item pos)"
| "match_item item pos = (item, pos)"

text \<open>One line: the end of the search, the place where it goes on, or the value with its place.\<close>

datatype header_line = Stop | Continue string | Value string string

definition field_char :: "char \<Rightarrow> bool" where
  "field_char c \<longleftrightarrow> c \<noteq> ASCII_DEL \<and> (32 < ccode c \<or> LWS c)"

definition parse_header_line :: "string \<Rightarrow> string \<Rightarrow> header_line" where
  "parse_header_line item pos =
     (case match_item item pos of
        (_, []) \<Rightarrow> Stop
      | (_ # _, pos) \<Rightarrow> Continue pos
      | ([], nd) \<Rightarrow>
          let pos = dropWhile LWS nd in
          if pos = [] then Stop else
          let pos = (if hd pos = CHR '':'' \<or> hd pos = CHR ''='' then tl pos else pos) in
          if pos = [] then Stop else
          let pos = dropWhile LWS pos in
          if pos = [] then Stop
          else if pos = nd then Continue pos
          else
            let field = takeWhile field_char pos; nd = dropWhile field_char pos in
            if nd = [] then Stop
            else if hd nd \<noteq> ASCII_CR \<and> hd nd \<noteq> ASCII_LF then Continue pos
            else if rstrip LWS field = [] then Continue pos
            else Value (rstrip LWS field) pos)"

lemma match_item_le: "length (snd (match_item item pos)) \<le> length pos"
  by (induction item pos rule: match_item.induct) auto

lemma dropWhile_le: "length (dropWhile P s) \<le> length s"
  by (simp add: length_dropWhile_le)

lemma tl_le: "length (if P then tl s else s) \<le> length s"
  by simp

lemma parse_header_line_le: "parse_header_line item pos = Continue p \<Longrightarrow> length p \<le> length pos"
proof -
  assume a: "parse_header_line item pos = Continue p"
  obtain i nd where m: "match_item item pos = (i, nd)"
    by fastforce
  let ?p1 = "dropWhile LWS nd"
  let ?p2 = "if hd ?p1 = CHR '':'' \<or> hd ?p1 = CHR ''='' then tl ?p1 else ?p1"
  have le: "length nd \<le> length pos" "length (dropWhile LWS ?p2) \<le> length nd"
    using match_item_le [of item pos] m dropWhile_le [of LWS ?p2] dropWhile_le [of LWS nd] tl_le [of _ ?p1]
    by (simp, meson le_trans)
  have "p = nd \<or> p = dropWhile LWS ?p2"
    using a m by (auto simp: parse_header_line_def Let_def split: list.splits if_splits)
  with le show ?thesis
    by auto
qed

function parse_header_loop :: "string \<Rightarrow> string \<Rightarrow> (string \<times> string) option" where
  "parse_header_loop item pos =
     (case dropWhile (\<lambda>c. c \<noteq> ASCII_LF) pos of
        [] \<Rightarrow> None
      | _ # pos \<Rightarrow>
         (case parse_header_line item pos of
            Stop \<Rightarrow> None
          | Continue pos \<Rightarrow> parse_header_loop item pos
          | Value v pos \<Rightarrow> Some (v, pos)))"
  by auto
termination
proof (relation "measure (\<lambda>(item, pos). length pos)")
  fix item pos c p q
  assume "dropWhile (\<lambda>c. c \<noteq> ASCII_LF) pos = c # p" "parse_header_line item p = Continue q"
  then show "((item, q), item, pos) \<in> measure (\<lambda>(item, pos). length pos)"
    using parse_header_line_le [of item p q] dropWhile_le [of "\<lambda>c. c \<noteq> ASCII_LF" pos] by simp
qed simp

declare parse_header_loop.simps [simp del]

text \<open>The value of the first field \<open>item\<close>, and the offset that goes to \<^verbatim>\<open>*ptr\<close>.\<close>

definition parse_header :: "bool \<Rightarrow> string option \<Rightarrow> string \<Rightarrow> (string \<times> nat) option" where
  "parse_header alloc head item =
     (case head of
        None \<Rightarrow> None
      | Some h \<Rightarrow>
         (case parse_header_loop item h of
            None \<Rightarrow> None
          | Some (v, pos) \<Rightarrow> if alloc then Some (v, length h - length pos) else None))"

section \<open>Parameters\<close>

text \<open>The search of \<^verbatim>\<open>parse_header_param\<close> for the name, from one semicolon to the next.\<close>

function find_param :: "string \<Rightarrow> string \<Rightarrow> string option" where
  "find_param p name =
     (case dropWhile (\<lambda>c. c \<noteq> CHR '';'') p of
        [] \<Rightarrow> None
      | q # qs \<Rightarrow>
          let p = dropWhile (\<lambda>c. c = CHR '';'' \<or> ccode c \<le> 32) (q # qs) in
          if length p < length name then None
          else if c_strncasecmp p name (length name) \<noteq> 0 then find_param p name
          else Some (drop (length name) p))"
  by auto
termination
proof (relation "measure (\<lambda>(p, name). length p)")
  fix p name q qs and r :: string
  assume d: "dropWhile (\<lambda>c. c \<noteq> CHR '';'') p = q # qs" and r: "r = dropWhile (\<lambda>c. c = CHR '';'' \<or> ccode c \<le> 32) (q # qs)"
  have "q = CHR '';''"
    using hd_dropWhile [of "\<lambda>c. c \<noteq> CHR '';''" p] d by simp
  then have "length r \<le> length qs"
    using r by (simp add: length_dropWhile_le)
  moreover have "length (q # qs) \<le> length p"
    using d dropWhile_le by metis
  ultimately show "((r, name), p, name) \<in> measure (\<lambda>(p, name). length p)"
    by simp
qed simp

declare find_param.simps [simp del]

function unquote_single :: "string \<Rightarrow> string" where
  "unquote_single v =
     (if length v > 1 \<and> hd v = CHR 0x27 \<and> last v = CHR 0x27 then unquote_single (butlast (tl v)) else v)"
  by auto
termination
  by (relation "measure length") auto

declare unquote_single.simps [simp del]

text \<open>The assertion that the name is not empty returns NULL.\<close>

definition parse_header_param :: "string \<Rightarrow> string \<Rightarrow> string option" where
  "parse_header_param str name =
     (if name = [] \<or> str = [] then None
      else case find_param str name of
          None \<Rightarrow> None
        | Some p \<Rightarrow>
            let p = dropWhile (\<lambda>c. ccode c \<le> 32 \<or> c = CHR ''='') p in
            if p = [] then Some []
            else Some (unquote_single (rstrip LWS
                   (takeWhile (\<lambda>c. (32 < ccode c \<or> LWS c) \<and> c \<noteq> CHR '';'') p))))"

text \<open>The loops of \<^verbatim>\<open>get_header_param\<close> up to the end of the name.\<close>

fun match_rest :: "string \<Rightarrow> string \<Rightarrow> string \<times> string" where
  "match_rest (c # e) (n # name) = (if c_toupper c = c_toupper n then match_rest e name else (c # e, n # name))"
| "match_rest e name = (e, name)"

lemma match_rest_le: "length (fst (match_rest e n)) \<le> length e"
  by (induction e n rule: match_rest.induct) auto

lemma find_header_step: "dropWhile P e = c # es \<Longrightarrow> (r, x) = match_rest es n \<Longrightarrow> length r < length e"
proof -
  assume d: "dropWhile P e = c # es" and m: "(r, x) = match_rest es n"
  have "length r \<le> length es"
    using match_rest_le [of es n] m by (metis fst_conv)
  moreover have "length (c # es) \<le> length e"
    using d dropWhile_le by metis
  ultimately show ?thesis
    by simp
qed

text \<open>The name is not empty; the byte behind the found one must exist.\<close>

function find_header_param :: "string \<Rightarrow> string \<Rightarrow> string option" where
  "find_header_param e name =
     (case dropWhile (\<lambda>c. c_toupper c \<noteq> c_toupper (hd name)) e of
        [] \<Rightarrow> None
      | _ # e \<Rightarrow>
          if e = [] then None
          else case match_rest e (tl name) of
              (e, []) \<Rightarrow> Some e
            | (e, _ # _) \<Rightarrow> find_header_param e name)"
  by auto
termination
  by (relation "measure (\<lambda>(e, name). length e)") (auto dest: find_header_step)

declare find_header_param.simps [simp del]

definition get_header_param :: "string \<Rightarrow> string \<Rightarrow> string option" where
  "get_header_param e name =
     (case find_header_param e name of
        None \<Rightarrow> None
      | Some e \<Rightarrow>
         (case dropWhile c_isspace e of
            [] \<Rightarrow> None
          | c # e \<Rightarrow>
              if c \<noteq> CHR ''='' then None
              else
                let e = dropWhile c_isspace e;
                    v = (case e of
                           q # r \<Rightarrow>
                             if isquote q then (if q \<in> set r then Some (takeWhile (\<lambda>c. c \<noteq> q) r) else None)
                             else Some (takeWhile (\<lambda>c. \<not> c_isspace c) e)
                         | [] \<Rightarrow> Some [])
                in case v of
                     None \<Rightarrow> None
                   | Some v \<Rightarrow>
                       let v = rstrip (\<lambda>c. c = CHR '' '') (dropWhile (\<lambda>c. c = CHR '' '') v) in
                       if v = [] then None
                       else Some (map (\<lambda>c. if ccode c < 32 then CHR ''.'' else c) v)))"

section \<open>Finding a field\<close>

text \<open>A block of headers as servers write it: a status line, then names and values.\<close>

definition render_field :: "string \<times> string \<Rightarrow> string" where
  "render_field f = fst f @ '': '' @ snd f @ [ASCII_CR, ASCII_LF]"

definition render_head :: "string \<Rightarrow> (string \<times> string) list \<Rightarrow> string" where
  "render_head status fields = status @ [ASCII_CR, ASCII_LF] @ concat (map render_field fields) @ [ASCII_CR, ASCII_LF]"

definition name_char :: "char \<Rightarrow> bool" where
  "name_char c \<longleftrightarrow> 32 < ccode c \<and> c \<noteq> CHR '':'' \<and> c \<noteq> CHR ''=''"

definition field_ok :: "string \<times> string \<Rightarrow> bool" where
  "field_ok f \<longleftrightarrow> fst f \<noteq> [] \<and> list_all name_char (fst f) \<and>
     snd f \<noteq> [] \<and> list_all field_char (snd f) \<and> \<not> LWS (hd (snd f)) \<and> \<not> LWS (last (snd f))"

abbreviation same_name :: "string \<Rightarrow> string \<Rightarrow> bool" where
  "same_name m n \<equiv> map c_toupper m = map c_toupper n"

lemma ccode_simps [simp]:
  "ccode ASCII_LF = 10" "ccode ASCII_CR = 13" "ccode ASCII_TAB = 9" "ccode ASCII_DEL = 127" "ccode (CHR '' '') = 32"
  "ccode (CHR '':'') = 58" "ccode (CHR ''='') = 61"
  by (simp_all add: ccode_def ascii_defs)

lemma c_toupper_other: "c_toupper c = d \<Longrightarrow> \<not> c_isupper d \<Longrightarrow> c = d"
proof -
  assume d: "c_toupper c = d" "\<not> c_isupper d"
  have "\<not> c_islower c"
  proof
    assume l: "c_islower c"
    then have "ccode d = ccode c - 32"
      using d(1) by (auto simp: c_toupper_def c_islower_def)
    with l d(2) show False
      by (auto simp: c_isupper_def c_islower_def)
  qed
  with d(1) show ?thesis
    by (simp add: c_toupper_def)
qed

lemma toupper_sep [simp]: "name_char c \<Longrightarrow> c_toupper c \<noteq> c_toupper (CHR '':'')"
  using c_toupper_other [of c "CHR '':''"] by (auto simp: name_char_def c_toupper_def [of "CHR '':''"] c_islower_def c_isupper_def)

text \<open>What is left of the name and of the line.\<close>

lemma match_item_name:
  assumes "list_all name_char item" "list_all name_char n"
  shows "if same_name item n then match_item item (n @ CHR '':'' # r) = ([], CHR '':'' # r)
    else \<exists>i n'. match_item item (n @ CHR '':'' # r) = (i, n' @ CHR '':'' # r) \<and> list_all name_char n' \<and> (i = [] \<longrightarrow> n' \<noteq> [])"
  using assms
proof (induction item n rule: list_induct2')
  case (2 x xs)
  then show ?case
    by (auto intro!: exI [of _ "[]"])
next
  case (3 y ys)
  then show ?case
    by (auto intro!: exI [of _ "y # ys"])
next
  case (4 x xs y ys)
  then show ?case
    by (auto intro!: exI [of _ "y # ys"] split: if_splits)
qed auto

lemma name_char_facts:
  "name_char c \<Longrightarrow> \<not> LWS c" "name_char c \<Longrightarrow> c \<noteq> ASCII_LF" "name_char c \<Longrightarrow> c \<noteq> CHR '':''" "name_char c \<Longrightarrow> c \<noteq> CHR ''=''"
  by (auto simp: name_char_def LWS_def)

lemma field_char_facts: "field_char c \<Longrightarrow> c \<noteq> ASCII_LF" "\<not> field_char ASCII_CR"
  by (auto simp: field_char_def LWS_def ascii_defs ccode_def)

lemma LWS_simps [simp]: "LWS (CHR '' '')" "\<not> LWS (CHR '':'')" "\<not> LWS ASCII_CR"
  by (simp_all add: LWS_def ascii_defs)

text \<open>A field that is looked for ends the search, another one is passed over.\<close>

lemma parse_field:
  assumes "field_ok (n, v)" "list_all name_char item"
  shows "if same_name item n then parse_header_line item (render_field (n, v) @ r) = Value v (v @ [ASCII_CR, ASCII_LF] @ r)
    else \<exists>p. parse_header_line item (render_field (n, v) @ r) = Continue p \<and> (\<exists>x. p = x @ ASCII_LF # r \<and> ASCII_LF \<notin> set x)"
proof -
  let ?s = "'' '' @ v @ ASCII_CR # ASCII_LF # r"
  have f: "n \<noteq> []" "list_all name_char n" "v \<noteq> []" "list_all field_char v" "\<not> LWS (hd v)" "\<not> LWS (last v)"
    using assms(1) by (simp_all add: field_ok_def)
  have shape: "render_field (n, v) @ r = n @ CHR '':'' # ?s"
    by (simp add: render_field_def)
  note m = match_item_name [OF assms(2) f(2), of ?s]
  have lf: "ASCII_LF \<notin> set x" if "list_all name_char x" for x
    using that name_char_facts(2) [of ASCII_LF] by (auto simp: list_all_iff)
  have lfv: "ASCII_LF \<notin> set v"
    using f(4) field_char_facts(1) [of ASCII_LF] by (auto simp: list_all_iff)
  show ?thesis
  proof (cases "same_name item n")
    case True
    have "dropWhile LWS ?s = v @ ASCII_CR # ASCII_LF # r"
      using f(3,5) by (cases v) simp_all
    moreover have "takeWhile field_char (v @ ASCII_CR # ASCII_LF # r) = v" "dropWhile field_char (v @ ASCII_CR # ASCII_LF # r) = ASCII_CR # ASCII_LF # r"
      using f(4) field_char_facts(2) by (auto simp: takeWhile_append dropWhile_append list_all_iff)
    moreover have "rstrip LWS v = v"
      using f(3,6) by (cases v rule: rev_cases) (simp_all add: rstrip_def)
    ultimately show ?thesis
      using True m f(3) by (simp add: shape parse_header_line_def Let_def)
  next
    case False
    with m obtain i n' where mi: "match_item item (n @ CHR '':'' # ?s) = (i, n' @ CHR '':'' # ?s)" "list_all name_char n'" "i = [] \<longrightarrow> n' \<noteq> []"
      by auto
    have "parse_header_line item (n @ CHR '':'' # ?s) = Continue (n' @ CHR '':'' # ?s)"
    proof (cases i)
      case Nil
      then obtain y ys where "n' = y # ys" "name_char y"
        using mi(2,3) by (cases n') auto
      then show ?thesis
        using mi(1) Nil name_char_facts [of y] by (simp add: parse_header_line_def Let_def)
    next
      case (Cons a as)
      then show ?thesis
        using mi(1) by (cases n') (simp_all add: parse_header_line_def)
    qed
    moreover have "n' @ CHR '':'' # ?s = (n' @ '':'' @ '' '' @ v @ [ASCII_CR]) @ ASCII_LF # r" "ASCII_LF \<notin> set (n' @ '':'' @ '' '' @ v @ [ASCII_CR])"
      using lf [OF mi(2)] lfv by (simp_all add: ascii_defs)
    ultimately show ?thesis
      using False unfolding shape by metis
  qed
qed

lemma parse_header_loop_next:
  assumes "ASCII_LF \<notin> set x"
  shows "parse_header_loop item (x @ ASCII_LF # r) =
     (case parse_header_line item r of Stop \<Rightarrow> None | Continue pos \<Rightarrow> parse_header_loop item pos | Value v pos \<Rightarrow> Some (v, pos))"
proof -
  have "dropWhile (\<lambda>c. c \<noteq> ASCII_LF) (x @ ASCII_LF # r) = ASCII_LF # r"
    using assms by (auto simp: dropWhile_append)
  then show ?thesis
    by (simp add: parse_header_loop.simps [of item "x @ ASCII_LF # r"])
qed

lemma parse_fields:
  assumes "item \<noteq> []" "list_all name_char item" "list_all field_ok fields" "ASCII_LF \<notin> set x"
  shows "map_option fst (parse_header_loop item (x @ ASCII_LF # concat (map render_field fields) @ [ASCII_CR, ASCII_LF])) =
     map_option snd (find (\<lambda>f. same_name item (fst f)) fields)"
  using assms(3,4)
proof (induction fields arbitrary: x)
  case Nil
  obtain i ts where item: "item = i # ts" "name_char i"
    using assms(1,2) by (cases item) auto
  have "c_toupper i \<noteq> c_toupper ASCII_CR"
    using item(2) c_toupper_other [of i ASCII_CR] by (auto simp: name_char_def c_toupper_def [of ASCII_CR] c_islower_def c_isupper_def)
  then have "parse_header_line item [ASCII_CR, ASCII_LF] = Continue [ASCII_CR, ASCII_LF]"
    by (simp add: parse_header_line_def item)
  moreover have "ASCII_LF \<notin> set [ASCII_CR]"
    by (simp add: ascii_defs)
  from parse_header_loop_next [OF this, of item "[]"] have "parse_header_loop item [ASCII_CR, ASCII_LF] = None"
    by (simp add: parse_header_line_def item)
  ultimately show ?case
    using parse_header_loop_next [OF Nil(2)] by simp
next
  case (Cons f fields)
  let ?r = "concat (map render_field fields) @ [ASCII_CR, ASCII_LF]"
  obtain n v where f: "f = (n, v)" "field_ok (n, v)"
    using Cons.prems(1) by (cases f) simp
  note pf = parse_field [OF f(2) assms(2), of ?r] and nxt = parse_header_loop_next [OF Cons.prems(2)]
  show ?case
  proof (cases "same_name item n")
    case True
    with pf show ?thesis
      by (simp add: f(1) nxt)
  next
    case False
    with pf obtain y where "parse_header_line item (render_field (n, v) @ ?r) = Continue (y @ ASCII_LF # ?r)" "ASCII_LF \<notin> set y"
      by auto
    with False Cons.IH [of y] Cons.prems(1) show ?thesis
      by (simp add: f(1) nxt)
  qed
qed

text \<open>C37: In a block of headers as servers write it, \<^verbatim>\<open>parse_header\<close> finds the value of the first field with the wanted name,
  whatever the case of its letters, and only fields with exactly that name, not those it is the beginning of.\<close>

theorem parse_header_finds:
  assumes "item \<noteq> []" "list_all name_char item" "list_all field_ok fields" "ASCII_LF \<notin> set status"
  shows "map_option fst (parse_header True (Some (render_head status fields)) item) =
     map_option snd (find (\<lambda>f. same_name item (fst f)) fields)"
proof -
  have "ASCII_LF \<notin> set (status @ [ASCII_CR])"
    using assms(4) by (simp add: ascii_defs)
  from parse_fields [OF assms(1-3) this] show ?thesis
    by (auto simp: parse_header_def render_head_def split: option.splits)
qed

theorem parse_header_finds_witness:
  "map_option fst (parse_header True (Some (render_head ''HTTP/1.1 200 OK''
     [(''Content-Type'', ''text/html; charset=utf-8''), (''Content'', ''7''), (''content'', ''8'')])) ''CONTENT'') = Some ''7''"
proof -
  let ?f = "[(''Content-Type'', ''text/html; charset=utf-8''), (''Content'', ''7''), (''content'', ''8'')]"
  have ok: "list_all name_char ''CONTENT''" "list_all field_ok ?f" "ASCII_LF \<notin> set ''HTTP/1.1 200 OK''"
    by (simp_all add: field_ok_def name_char_def field_char_def LWS_def ccode_def ascii_defs)
  have "find (\<lambda>f. same_name ''CONTENT'' (fst f)) ?f = Some (''Content'', ''7'')"
    by code_simp
  with parse_header_finds [OF _ ok] show ?thesis
    by simp
qed

section \<open>Finding a parameter\<close>

definition render_param :: "string \<times> string \<Rightarrow> string" where
  "render_param p = ''; '' @ fst p @ ''='' @ snd p"

definition param_ok :: "string \<times> string \<Rightarrow> bool" where
  "param_ok p \<longleftrightarrow> fst p \<noteq> [] \<and> list_all (\<lambda>c. name_char c \<and> c \<noteq> CHR '';'' \<and> c \<noteq> CHR 0x27) (fst p) \<and>
     snd p \<noteq> [] \<and> list_all (\<lambda>c. (32 < ccode c \<or> LWS c) \<and> c \<noteq> CHR '';'') (snd p) \<and>
     32 < ccode (hd (snd p)) \<and> hd (snd p) \<noteq> CHR ''='' \<and> hd (snd p) \<noteq> CHR 0x27 \<and> \<not> LWS (last (snd p))"

abbreviation starts_with :: "string \<Rightarrow> string \<Rightarrow> bool" where
  "starts_with name n \<equiv> length name \<le> length n \<and> map c_tolower (take (length name) n) = map c_tolower name"

lemma ccode_more [simp]: "ccode (CHR '';'') = 59" "ccode NUL = 0"
  by (simp_all add: ccode_def NUL_def)

lemma list_all_notin: "list_all P xs \<Longrightarrow> \<not> P c \<Longrightarrow> c \<notin> set xs"
  by (auto simp: list_all_iff)

lemma c_tolower_other: "c_tolower c = d \<Longrightarrow> \<not> c_islower d \<Longrightarrow> c = d"
proof -
  assume d: "c_tolower c = d" "\<not> c_islower d"
  have "\<not> c_isupper c"
  proof
    assume u: "c_isupper c"
    then have "ccode d = ccode c + 32"
      using d(1) by (auto simp: c_tolower_def c_isupper_def)
    with u d(2) show False
      by (auto simp: c_isupper_def c_islower_def)
  qed
  with d(1) show ?thesis
    by (simp add: c_tolower_def)
qed

lemma starts_param:
  assumes "list_all name_char name" "list_all name_char n" "NUL \<notin> set r"
  shows "length name \<le> length (n @ CHR ''='' # r) \<and> c_strncasecmp (n @ CHR ''='' # r) name (length name) = 0 \<longleftrightarrow> starts_with name n"
proof -
  let ?s = "n @ CHR ''='' # r" and ?k = "length name"
  have nn: "\<not> name_char NUL" "\<not> name_char (CHR ''='')"
    by (simp_all add: name_char_def)
  have "NUL \<notin> set name" "NUL \<notin> set n" "CHR ''='' \<notin> set name"
    using list_all_notin [OF assms(1) nn(1)] list_all_notin [OF assms(2) nn(1)] list_all_notin [OF assms(1) nn(2)] by simp_all
  then have cmp: "c_strncasecmp ?s name ?k = 0 \<longleftrightarrow> map c_tolower (take ?k ?s) = map c_tolower name"
    using assms(3) c_strncasecmp_eq [of ?s name ?k] by (auto simp: NUL_def)
  show ?thesis
  proof (cases "?k \<le> length n")
    case True
    then show ?thesis
      using cmp by simp
  next
    case False
    have "map c_tolower (take ?k ?s) \<noteq> map c_tolower name"
    proof
      assume "map c_tolower (take ?k ?s) = map c_tolower name"
      then have "map c_tolower (take ?k ?s) ! length n = map c_tolower name ! length n"
        by simp
      then have "c_tolower (name ! length n) = c_tolower (CHR ''='')"
        using False by (simp add: nth_append)
      then have "name ! length n = CHR ''=''"
        using c_tolower_other [of "name ! length n" "CHR ''=''"] by (simp add: c_tolower_def [of "CHR ''=''"] c_isupper_def c_islower_def)
      then show False
        using False \<open>CHR ''='' \<notin> set name\<close> by (metis not_le_imp_less nth_mem)
    qed
    with cmp False show ?thesis
      by simp
  qed
qed

lemma param_facts:
  assumes "param_ok (n, v)"
  shows "list_all name_char n" "CHR '';'' \<notin> set n" "CHR '';'' \<notin> set v" "NUL \<notin> set n" "NUL \<notin> set v" "n \<noteq> []" "v \<noteq> []"
    "32 < ccode (hd n)" "hd n \<noteq> CHR '';''"
proof -
  let ?N = "\<lambda>c. name_char c \<and> c \<noteq> CHR '';'' \<and> c \<noteq> CHR 0x27" and ?V = "\<lambda>c. (32 < ccode c \<or> LWS c) \<and> c \<noteq> CHR '';''"
  have all: "list_all ?N n" "list_all ?V v" "n \<noteq> []" "v \<noteq> []"
    using assms by (simp_all add: param_ok_def)
  show "list_all name_char n"
    using all(1) by (rule list.pred_mono_strong) simp
  show "CHR '';'' \<notin> set n" "CHR '';'' \<notin> set v" "NUL \<notin> set n"
    by (rule list_all_notin [OF all(1)] list_all_notin [OF all(2)], simp add: name_char_def)+
  have "\<not> LWS NUL"
    by (simp add: LWS_def NUL_def ascii_defs)
  then show "NUL \<notin> set v"
    by (intro list_all_notin [OF all(2)]) simp
  show "n \<noteq> []" "v \<noteq> []" "32 < ccode (hd n)" "hd n \<noteq> CHR '';''"
    using all by (auto simp: neq_Nil_conv name_char_def)
qed

abbreviation render_params :: "(string \<times> string) list \<Rightarrow> string" where
  "render_params ps \<equiv> concat (map render_param ps)"

lemma params_no_NUL: "list_all param_ok ps \<Longrightarrow> NUL \<notin> set (render_params ps)"
  by (induction ps) (auto simp: render_param_def NUL_def dest: param_facts(4,5))

lemma params_end: "ps \<noteq> [] \<Longrightarrow> hd (render_params ps) = CHR '';'' \<and> render_params ps \<noteq> []"
  by (cases ps) (simp_all add: render_param_def)

text \<open>The search stops at the first parameter whose name begins with the wanted one.\<close>

lemma find_param_search:
  assumes "list_all name_char name" "list_all param_ok ps" "CHR '';'' \<notin> set x"
  shows "case find (\<lambda>p. starts_with name (fst p)) ps of
      None \<Rightarrow> find_param (x @ render_params ps) name = None
    | Some p \<Rightarrow> \<exists>qs. list_all param_ok qs \<and>
        find_param (x @ render_params ps) name = Some (drop (length name) (fst p) @ ''='' @ snd p @ render_params qs)"
  using assms(2,3)
proof (induction ps arbitrary: x)
  case Nil
  have d: "dropWhile (\<lambda>c. c \<noteq> CHR '';'') x = []"
    using Nil by auto
  show ?case
    by (simp add: find_param.simps [of x] d)
next
  case (Cons p ps)
  obtain n v where p: "p = (n, v)" "param_ok (n, v)"
    using Cons.prems(1) by (cases p) auto
  note pf = param_facts [OF p(2)]
  let ?r = "v @ render_params ps"
  have "dropWhile (\<lambda>c. c \<noteq> CHR '';'') (x @ render_params (p # ps)) = ''; '' @ n @ CHR ''='' # ?r"
    using Cons.prems(2) by (auto simp: dropWhile_append p(1) render_param_def)
  moreover have "dropWhile (\<lambda>c. c = CHR '';'' \<or> ccode c \<le> 32) (''; '' @ n @ CHR ''='' # ?r) = n @ CHR ''='' # ?r"
    using pf(6,8,9) by (cases n) simp_all
  ultimately have find: "find_param (x @ render_params (p # ps)) name =
      (if length (n @ CHR ''='' # ?r) < length name then None
       else if c_strncasecmp (n @ CHR ''='' # ?r) name (length name) \<noteq> 0 then find_param (n @ CHR ''='' # ?r) name
       else Some (drop (length name) (n @ CHR ''='' # ?r)))"
    by (simp add: find_param.simps [of "x @ _"])
  have "list_all param_ok ps"
    using Cons.prems(1) by simp
  then have nul: "NUL \<notin> set ?r"
    using pf(5) params_no_NUL [of ps] by (simp only: set_append Un_iff simp_thms)
  note start = starts_param [OF assms(1) pf(1) nul]
  show ?case
  proof (cases "starts_with name n")
    case True
    with start find Cons.prems(1) show ?thesis
      by (auto simp: p(1) intro!: exI [of _ ps])
  next
    case False
    have short: "find (\<lambda>p. starts_with name (fst p)) ps = None" if "length (n @ CHR ''='' # ?r) < length name"
    proof -
      have "length (fst q) \<le> length (render_params ps)" if "q \<in> set ps" for q
        using that by (induction ps) (auto simp: render_param_def)
      with \<open>length _ < length name\<close> show ?thesis
        by (force simp: find_None_iff)
    qed
    have "CHR '';'' \<notin> set (n @ CHR ''='' # v)"
      using pf(2,3) by simp
    with Cons.IH [of "n @ CHR ''='' # v"] Cons.prems(1) False start find short show ?thesis
      by (auto simp: p(1) split: option.splits)
  qed
qed

lemma rstrip_id: "v \<noteq> [] \<Longrightarrow> \<not> P (last v) \<Longrightarrow> rstrip P v = v"
  by (cases v rule: rev_cases) (simp_all add: rstrip_def)

text \<open>The value is cut out up to the next semicolon.\<close>

lemma param_value:
  assumes "v \<noteq> []" "list_all (\<lambda>c. (32 < ccode c \<or> LWS c) \<and> c \<noteq> CHR '';'') v" "32 < ccode (hd v)" "hd v \<noteq> CHR ''=''" "hd v \<noteq> CHR 0x27"
    "\<not> LWS (last v)" "eqs = [] \<or> eqs = ''=''"
  shows "(let p = dropWhile (\<lambda>c. ccode c \<le> 32 \<or> c = CHR ''='') (eqs @ v @ render_params qs) in
      if p = [] then Some []
      else Some (unquote_single (rstrip LWS (takeWhile (\<lambda>c. (32 < ccode c \<or> LWS c) \<and> c \<noteq> CHR '';'') p)))) = Some v"
proof -
  have "dropWhile (\<lambda>c. ccode c \<le> 32 \<or> c = CHR ''='') (eqs @ v @ render_params qs) = v @ render_params qs"
    using assms(1,3,4,7) by (cases v) auto
  moreover have "takeWhile (\<lambda>c. (32 < ccode c \<or> LWS c) \<and> c \<noteq> CHR '';'') (v @ render_params qs) = v"
    using assms(2) by (cases qs) (auto simp: takeWhile_append list_all_iff render_param_def)
  moreover have "unquote_single v = v"
    using assms(5) by (simp add: unquote_single.simps [of v])
  ultimately show ?thesis
    using assms(1,6) by (simp add: rstrip_id)
qed

text \<open>\<^verbatim>\<open>parse_header_param\<close> looks for the first parameter whose name begins with the wanted name. When that is the
  whole name it returns its value; but a longer name matches too, and then the rest of the name and
  the equals sign come back as part of the value.\<close>

theorem parse_header_param_finds:
  assumes "name \<noteq> []" "list_all name_char name" "list_all param_ok ps" "first \<noteq> []" "CHR '';'' \<notin> set first"
  shows "parse_header_param (first @ render_params ps) name =
     map_option (\<lambda>(n, v). if length n = length name then v else drop (length name) n @ ''='' @ v) (find (\<lambda>p. starts_with name (fst p)) ps)"
proof (cases "find (\<lambda>p. starts_with name (fst p)) ps")
  case None
  with find_param_search [OF assms(2,3,5)] assms(1,4) show ?thesis
    by (simp add: parse_header_param_def)
next
  case (Some p)
  obtain n v where p: "p = (n, v)"
    by fastforce
  have start: "starts_with name n" and ok: "param_ok (n, v)"
    using Some assms(3) by (auto simp: p find_Some_iff list_all_length dest: sym)
  obtain qs where f: "find_param (first @ render_params ps) name = Some (drop (length name) n @ ''='' @ v @ render_params qs)"
    using find_param_search [OF assms(2,3,5)] Some unfolding p by auto
  have v: "v \<noteq> []" "list_all (\<lambda>c. (32 < ccode c \<or> LWS c) \<and> c \<noteq> CHR '';'') v" "32 < ccode (hd v)" "hd v \<noteq> CHR ''=''" "hd v \<noteq> CHR 0x27"
    "\<not> LWS (last v)"
    and n: "list_all (\<lambda>c. name_char c \<and> c \<noteq> CHR '';'' \<and> c \<noteq> CHR 0x27) n"
    using ok by (simp_all add: param_ok_def)
  show ?thesis
  proof (cases "length n = length name")
    case True
    with param_value [OF v, of "''=''" qs] f assms(1,4) Some show ?thesis
      by (simp add: parse_header_param_def p)
  next
    case False
    let ?w = "drop (length name) n @ ''='' @ v"
    obtain c cs where w: "drop (length name) n = c # cs"
      using False start by (cases "drop (length name) n") simp_all
    then have "c \<in> set n"
      by (metis in_set_dropD list.set_intros(1))
    then have c: "name_char c" "c \<noteq> CHR 0x27"
      using n by (simp_all add: list_all_iff)
    have "list_all (\<lambda>c. (32 < ccode c \<or> LWS c) \<and> c \<noteq> CHR '';'') (drop (length name) n)"
      using n by (auto simp: list_all_iff name_char_def dest: in_set_dropD)
    then have "list_all (\<lambda>c. (32 < ccode c \<or> LWS c) \<and> c \<noteq> CHR '';'') ?w"
      using v(2) by simp
    moreover have "32 < ccode (hd ?w)" "hd ?w \<noteq> CHR ''=''" "hd ?w \<noteq> CHR 0x27" "\<not> LWS (last ?w)"
      using w c v(1,6) by (simp_all add: name_char_def)
    ultimately show ?thesis
      using param_value [of ?w "[]" qs] f assms(1,4) Some False by (simp add: parse_header_param_def p)
  qed
qed

theorem parse_header_param_finds_witness:
  "parse_header_param ''a=b; pathology=x; path=/docs'' ''path'' = Some ''ology=x''"
proof -
  let ?ps = "[(''pathology'', ''x''), (''path'', ''/docs'')]"
  have ok: "list_all name_char ''path''" "list_all param_ok ?ps" "CHR '';'' \<notin> set ''a=b''"
    by (simp_all add: param_ok_def name_char_def LWS_def ccode_def ascii_defs)
  have "find (\<lambda>p. starts_with ''path'' (fst p)) ?ps = Some (''pathology'', ''x'')"
    by code_simp
  with parse_header_param_finds [OF _ ok(1,2) _ ok(3)] show ?thesis
    by (simp add: render_param_def)
qed

end
