(* ===== verification/Cookies.thy ===== *)
theory Cookies
  imports Header UriJoin Dates
begin

text \<open>
  \<^verbatim>\<open>elinks/src/cookies/cookies.c\<close>, \<^verbatim>\<open>cookies/parser.c\<close> and what \<^verbatim>\<open>cookies/dialogs.c\<close> does to cookies: the
  cookies the program holds. A cookie comes with a reply of a server, is accepted at once or after a
  question, and is sent with requests to URIs in its domain and under its path. The record \<open>jar\<close> is
  the state of the module: the cookies, those that wait for a question to be asked and those in a message
  box, the domains for which there are cookies, the servers they came from, the flags about the file of
  cookies and that file. The widgets of the cookie manager are not modelled, nor are the items of its
  list, which mirror the cookies.
\<close>

section \<open>Parsing\<close>

record cookie_str =
  nam_end :: nat
  val_start :: nat
  val_end :: nat

text \<open>The last loop of \<^verbatim>\<open>parse_cookie_str\<close>: the end of the value without trailing blanks.\<close>

fun value_end :: "nat \<Rightarrow> nat \<Rightarrow> string \<Rightarrow> nat" where
  "value_end pos e [] = e"
| "value_end pos e (c # s) =
     (if c = CHR '';'' then e else value_end (pos + 1) (if \<not> c_isspace c then pos + 1 else e) s)"

definition parse_cookie_str :: "string \<Rightarrow> cookie_str option" where
  "parse_cookie_str str =
     (let n = length (takeWhile (\<lambda>c. c \<noteq> CHR '';'' \<and> c \<noteq> CHR ''='' \<and> \<not> c_isspace c) str);
          p = n + length (takeWhile c_isspace (drop n str))
      in if n = 0 then None
         else if rd str p = NUL \<or> rd str p = CHR '';'' then Some \<lparr>nam_end = n, val_start = p, val_end = p\<rparr>
         else if rd str p = CHR ''='' then
           let q = p + length (takeWhile (\<lambda>c. c = CHR ''='') (drop p str));
               v = q + length (takeWhile c_isspace (drop q str))
           in Some \<lparr>nam_end = n, val_start = v, val_end = value_end v v (drop v str)\<rparr>
         else None)"

section \<open>State\<close>

datatype cookies_accept = COOKIES_ACCEPT_NONE | COOKIES_ACCEPT_ASK | COOKIES_ACCEPT_ALL

record cookie_server =
  sv_addr :: nat
  sv_host :: string
  sv_refs :: int

record cookie =
  ck_name :: string
  ck_value :: string
  ck_path :: "string option"
  ck_domain :: string
  ck_server :: nat
  ck_expires :: int
  ck_secure :: bool

record jar =
  j_cookies :: "cookie list"
  j_queries :: "cookie list"
  j_asked :: "cookie list"
  j_domains :: "string list"
  j_servers :: "cookie_server list"
  j_dirty :: bool
  j_nosave :: bool
  j_resave :: bool
  j_file :: "string option"

text \<open>Options, clock, the address test of the C library and the outcomes of allocations: of the structure, of the
  strings, of the entry for the domain and of the server, which gets an address; then what belongs to files: whether
  there is a home directory, the file that is read without one, and whether the new file can be opened and
  written to its end. With \<^verbatim>\<open>infofiles.secure_save\<close>, which is on by default, the old file is replaced only then.\<close>

record jar_env =
  je_accept_policy :: cookies_accept
  je_max_age :: int
  je_paranoid :: bool
  je_save :: bool
  je_do_resave :: bool
  je_anonymous :: bool
  je_now :: int
  je_inet_pton :: "string \<Rightarrow> bool"
  je_idn :: "string \<Rightarrow> string option"
  je_mem_cookie :: bool
  je_mem_strings :: bool
  je_mem_domain :: bool
  je_mem_server :: "jar \<Rightarrow> nat option"
  je_home :: bool
  je_cwd_file :: "string option"
  je_open :: bool
  je_write :: "string \<Rightarrow> bool"

definition uri_host :: "uri \<Rightarrow> string" where
  "uri_host u = (case u_host u of None \<Rightarrow> [] | Some h \<Rightarrow> take (hostlen u) (drop h (u_string u)))"

section \<open>Servers\<close>

text \<open>The walk over the servers: the place before which a new one would go, or the server itself. The
  comparison covers as many bytes as the host has.\<close>

definition host_before :: "string \<Rightarrow> string \<Rightarrow> bool" where
  "host_before host h \<longleftrightarrow>
     (let cmp = c_strncasecmp h host (length host) in cmp > 0 \<or> (cmp = 0 \<and> length h > length host))"

definition same_host :: "string \<Rightarrow> string \<Rightarrow> bool" where
  "same_host host h \<longleftrightarrow> c_strncasecmp h host (length host) = 0 \<and> length h = length host"

fun add_server :: "cookie_server \<Rightarrow> cookie_server list \<Rightarrow> cookie_server list" where
  "add_server n [] = [n]"
| "add_server n (s # ss) = (if host_before (sv_host n) (sv_host s) then n # s # ss else s # add_server n ss)"

definition lock_server :: "nat \<Rightarrow> int \<Rightarrow> jar \<Rightarrow> jar" where
  "lock_server a d j = j\<lparr>j_servers := map (\<lambda>s. if sv_addr s = a then s\<lparr>sv_refs := sv_refs s + d\<rparr> else s) (j_servers j)\<rparr>"

definition get_cookie_server :: "jar_env \<Rightarrow> string \<Rightarrow> jar \<Rightarrow> nat option \<times> jar" where
  "get_cookie_server env host j =
     (case find (\<lambda>s. same_host host (sv_host s)) (j_servers j) of
        Some s \<Rightarrow> (Some (sv_addr s), lock_server (sv_addr s) 1 j)
      | None \<Rightarrow>
         (case je_mem_server env j of
            None \<Rightarrow> (None, j)
          | Some a \<Rightarrow> (Some a, j\<lparr>j_servers := add_server \<lparr>sv_addr = a, sv_host = host, sv_refs = 1\<rparr> (j_servers j)\<rparr>)))"

definition done_cookie_server :: "nat \<Rightarrow> jar \<Rightarrow> jar" where
  "done_cookie_server a j =
     (let j = lock_server a (- 1) j
      in j\<lparr>j_servers := filter (\<lambda>s. sv_addr s = a \<longrightarrow> sv_refs s \<noteq> 0) (j_servers j)\<rparr>)"

text \<open>The strings of a cookie are freed with it; what is left to do is to give up its server. A cookie that is deleted
  has been taken from its list.\<close>

definition done_cookie :: "cookie \<Rightarrow> jar \<Rightarrow> jar" where
  "done_cookie c j = done_cookie_server (ck_server c) j"

section \<open>Domains\<close>

definition IP_ADDRESS_BUFFER_SIZE :: nat where
  "IP_ADDRESS_BUFFER_SIZE = 46"

text \<open>The library decides, for both families, whether a text is an address.\<close>

definition is_ip_address :: "(string \<Rightarrow> bool) \<Rightarrow> string \<Rightarrow> bool" where
  "is_ip_address inet_pton address \<longleftrightarrow> length address < IP_ADDRESS_BUFFER_SIZE \<and> inet_pton address"

text \<open>The number of dots a domain needs.\<close>

definition need_dots :: "jar_env \<Rightarrow> string \<Rightarrow> nat" where
  "need_dots env domain =
     (if je_paranoid env then
        (if length domain > 0 then
           let pos = end_with_known_tld domain (int (length domain))
           in if pos \<ge> 1 \<and> rd domain (nat (pos - 1)) = CHR ''.'' then 1 else 2
         else 2)
      else 1)"

definition is_domain_security_ok :: "jar_env \<Rightarrow> string \<Rightarrow> string \<Rightarrow> bool" where
  "is_domain_security_ok env d server =
     (let domain = (if rd d 0 = CHR ''.'' then drop 1 d else d);
          domain_len = length domain; server_len = length server
      in if domain_len > server_len then False
         else if c_strncasecmp domain (drop (server_len - domain_len) server) domain_len \<noteq> 0 then False
         else if server_len = domain_len then True
         else if is_ip_address (je_inet_pton env) server then False
         else need_dots env domain \<le> length (filter (\<lambda>c. c = CHR ''.'') domain))"

definition is_in_domain :: "string \<Rightarrow> string \<Rightarrow> bool" where
  "is_in_domain domain server =
     (let domain_len = length domain; server_len = length server
      in if domain_len > server_len then False
         else if domain_len = server_len then c_strncasecmp domain server server_len = 0
         else
           let len = server_len - domain_len
           in if rd server (len - 1) \<noteq> CHR ''.'' then False
              else c_strncasecmp domain (drop len server) domain_len = 0)"

definition is_path_prefix :: "string \<Rightarrow> string \<Rightarrow> bool" where
  "is_path_prefix d s \<longleftrightarrow> \<not> length d > length s \<and> d = take (length d) s"

section \<open>Accepting cookies\<close>

definition set_cookies_dirty :: "jar \<Rightarrow> jar" where
  "set_cookies_dirty j = j\<lparr>j_dirty := True, j_resave := True\<rparr>"

text \<open>\<^verbatim>\<open>delete_cookie\<close> on the cookies of the first list that are chosen by \<open>P\<close>, in the order of the list.\<close>

definition delete_cookies :: "(cookie \<Rightarrow> bool) \<Rightarrow> jar \<Rightarrow> jar" where
  "delete_cookies P j =
     foldl (\<lambda>j c. done_cookie c j) (j\<lparr>j_cookies := filter (\<lambda>c. \<not> P c) (j_cookies j)\<rparr>) (filter P (j_cookies j))"

definition accept_cookie :: "jar_env \<Rightarrow> cookie \<Rightarrow> jar \<Rightarrow> jar" where
  "accept_cookie env cookie j =
     (let j = (if \<not> j_nosave j then
                 delete_cookies (\<lambda>c. c_strcasecmp (ck_name c) (ck_name cookie) = 0 \<and>
                                     c_strcasecmp (ck_domain c) (ck_domain cookie) = 0) j
               else j);
          j = set_cookies_dirty (j\<lparr>j_cookies := cookie # j_cookies j\<rparr>)
      in if \<exists>cd\<in>set (j_domains j). c_strcasecmp cd (ck_domain cookie) = 0 then j
         else if \<not> je_mem_domain env then j
         else j\<lparr>j_domains := ck_domain cookie # j_domains j\<rparr>)"

text \<open>Without a path in the reply it is the path of the URI up to its last slash; one from the reply is
  brought into the form of a directory.\<close>

definition cookie_path :: "jar_env \<Rightarrow> uri \<Rightarrow> string \<Rightarrow> string" where
  "cookie_path env u str =
     (case parse_header_param str ''path'' of
        None \<Rightarrow>
          let path = add_uri_to_string (je_idn env) u URI_PATH
          in if CHR ''/'' \<in> set path then rev (dropWhile (\<lambda>c. c \<noteq> CHR ''/'') (rev path)) else path
      | Some path \<Rightarrow>
          let path = (if path = [] \<or> last path \<noteq> CHR ''/'' then path @ ''/'' else path)
          in if rd path 0 \<noteq> CHR ''/'' then CHR ''/'' # path else path)"

text \<open>The number of seconds fits an \<^verbatim>\<open>int\<close>: the option goes up to 10000 days.\<close>

definition cookie_expires :: "jar_env \<Rightarrow> string \<Rightarrow> int" where
  "cookie_expires env str =
     (if je_max_age env = 0 then 0
      else case parse_header_param str ''expires'' of
          None \<Rightarrow> 0
        | Some date \<Rightarrow>
            let expires = fst (parse_date (Some date) 0 None False True)
            in if expires \<noteq> 0 \<and> je_max_age env > 0 then min expires (je_now env + je_max_age env * 24 * 3600) else expires)"

definition set_cookie :: "jar_env \<Rightarrow> uri \<Rightarrow> string \<Rightarrow> jar \<Rightarrow> jar" where
  "set_cookie env u str j =
     (if je_accept_policy env = COOKIES_ACCEPT_NONE then j
      else case parse_cookie_str str of
          None \<Rightarrow> j
        | Some cstr \<Rightarrow>
            if \<not> je_mem_cookie env then j
            else
              case get_cookie_server env (uri_host u) j of
                (None, j) \<Rightarrow> j
              | (Some a, j) \<Rightarrow>
                  if \<not> je_mem_strings env then done_cookie_server a j
                  else
                    let domain = (case parse_header_param str ''domain'' of None \<Rightarrow> uri_host u | Some d \<Rightarrow> d);
                        domain = (if rd domain 0 = CHR ''.'' then drop 1 domain else domain);
                        cookie = \<lparr>ck_name = take (nam_end cstr) str,
                                  ck_value = take (val_end cstr - val_start cstr) (drop (val_start cstr) str),
                                  ck_path = Some (cookie_path env u str),
                                  ck_domain = (if is_domain_security_ok env domain (uri_host u) then domain else uri_host u),
                                  ck_server = a,
                                  ck_expires = cookie_expires env str,
                                  ck_secure = (parse_header_param str ''secure'' \<noteq> None)\<rparr>
                    in if je_accept_policy env = COOKIES_ACCEPT_ASK then j\<lparr>j_queries := cookie # j_queries j\<rparr>
                       else accept_cookie env cookie j)"

section \<open>Sending cookies\<close>

definition cookie_expired :: "jar_env \<Rightarrow> cookie \<Rightarrow> bool" where
  "cookie_expired env c \<longleftrightarrow> ck_expires c \<noteq> 0 \<and> ck_expires c \<le> je_now env"

text \<open>The loop over the cookies; a cookie that is deleted is taken out of the list that is being walked. \<open>None\<close> is the
  read of a path that is NULL.\<close>

fun send_loop :: "jar_env \<Rightarrow> uri \<Rightarrow> string \<Rightarrow> cookie list \<Rightarrow> string \<Rightarrow> jar \<Rightarrow> (string \<times> jar) option" where
  "send_loop env u path [] header j = Some (header, j)"
| "send_loop env u path (c # cs) header j =
     (if \<not> is_in_domain (ck_domain c) (uri_host u) then
        send_loop env u path cs header (j\<lparr>j_cookies := j_cookies j @ [c]\<rparr>)
      else case ck_path c of
          None \<Rightarrow> None
        | Some d \<Rightarrow>
            if \<not> is_path_prefix d path then send_loop env u path cs header (j\<lparr>j_cookies := j_cookies j @ [c]\<rparr>)
            else if cookie_expired env c then send_loop env u path cs header (set_cookies_dirty (done_cookie c j))
            else if ck_secure c \<and> u_protocol u \<noteq> PROTOCOL_HTTPS then
              send_loop env u path cs header (j\<lparr>j_cookies := j_cookies j @ [c]\<rparr>)
            else send_loop env u path cs ((if header \<noteq> [] then header @ ''; '' else header) @ ck_name c @ ''='' @ ck_value c)
                   (j\<lparr>j_cookies := j_cookies j @ [c]\<rparr>))"

definition send_cookies :: "jar_env \<Rightarrow> uri \<Rightarrow> jar \<Rightarrow> (string option \<times> jar) option" where
  "send_cookies env u j =
     (if u_host u = None \<or> u_data u = None then Some (None, j)
      else if \<not> (\<exists>cd\<in>set (j_domains j). is_in_domain cd (uri_host u)) then Some (None, j)
      else case send_loop env u (add_uri_to_string (je_idn env) u URI_PATH) (j_cookies j) [] (j\<lparr>j_cookies := []\<rparr>) of
          None \<Rightarrow> None
        | Some (header, j) \<Rightarrow> Some (if header = [] then None else Some header, j))"

section \<open>The file of cookies\<close>

definition show_long :: "int \<Rightarrow> string" where
  "show_long n = (let d = \<lambda>k. put_digits False 10 (num_len 10 k) k in if n < 0 then CHR ''-'' # d (nat (- n)) else d (nat n))"

definition server_host :: "jar \<Rightarrow> nat \<Rightarrow> string" where
  "server_host j a = (case find (\<lambda>s. sv_addr s = a) (j_servers j) of None \<Rightarrow> [] | Some s \<Rightarrow> sv_host s)"

definition cookie_line :: "jar \<Rightarrow> cookie \<Rightarrow> string" where
  "cookie_line j c =
     ck_name c @ [ASCII_TAB] @ ck_value c @ [ASCII_TAB] @ server_host j (ck_server c) @ [ASCII_TAB] @
     (case ck_path c of None \<Rightarrow> [] | Some p \<Rightarrow> p) @ [ASCII_TAB] @ ck_domain c @ [ASCII_TAB] @
     show_long (ck_expires c) @ [ASCII_TAB] @ (if ck_secure c then ''1'' else ''0'') @ [ASCII_LF]"

definition save_cookies :: "jar_env \<Rightarrow> jar \<Rightarrow> jar" where
  "save_cookies env j =
     (if j_nosave j \<or> \<not> je_home env \<or> \<not> j_dirty j \<or> je_anonymous env then j
      else if \<not> je_mem_strings env \<or> \<not> je_open env then j
      else
        let t = concat (map (cookie_line j) (filter (\<lambda>c. ck_expires c \<noteq> 0 \<and> \<not> ck_expires c \<le> je_now env) (j_cookies j)))
        in if je_write env t then j\<lparr>j_file := Some t, j_dirty := False\<rparr> else j)"

definition resave_cookies_bottom_half :: "jar_env \<Rightarrow> jar \<Rightarrow> jar" where
  "resave_cookies_bottom_half env j =
     (let j = j\<lparr>j_resave := False\<rparr> in if je_save env \<and> je_do_resave env then save_cookies env j else j)"

definition done_cookies :: "jar_env \<Rightarrow> jar \<Rightarrow> jar" where
  "done_cookies env j =
     (let j = j\<lparr>j_domains := []\<rparr>;
          j = (if \<not> j_nosave j \<and> je_save env then save_cookies env j else j);
          j = delete_cookies (\<lambda>c. True) j;
          j = foldl (\<lambda>j c. done_cookie c j) (j\<lparr>j_queries := []\<rparr>) (j_queries j)
      in j\<lparr>j_dirty := False\<rparr>)"

text \<open>\<^verbatim>\<open>fgets\<close> with the buffer of \<^verbatim>\<open>6 * MAX_STR_LEN\<close> bytes.\<close>

definition MAX_STR_LEN :: nat where
  "MAX_STR_LEN = 1024"

definition read_len :: "string \<Rightarrow> nat" where
  "read_len s = min (6 * MAX_STR_LEN - 1) (length (takeWhile (\<lambda>c. c \<noteq> ASCII_LF) s) + 1)"

text \<open>The members of a line: the text from the beginning of each and its length.\<close>

fun find_members :: "nat \<Rightarrow> string \<Rightarrow> (string \<times> nat) list option" where
  "find_members 0 q = Some []"
| "find_members (Suc n) q =
     (if ASCII_TAB \<in> set q then
        (let k = length (takeWhile (\<lambda>c. c \<noteq> ASCII_TAB) q)
         in map_option ((#) (q, k)) (find_members n (drop (k + 1) q)))
      else if n \<noteq> 0 then None
      else if ASCII_LF \<in> set q then Some [(q, length (takeWhile (\<lambda>c. c \<noteq> ASCII_LF) q))]
      else None)"

definition member :: "(string \<times> nat) list \<Rightarrow> nat \<Rightarrow> string" where
  "member ms i = take (snd (ms ! i)) (fst (ms ! i))"

text \<open>The line up to a NUL in it.\<close>

definition load_line :: "jar_env \<Rightarrow> string \<Rightarrow> jar \<Rightarrow> jar" where
  "load_line env in_buffer j =
     (case find_members 7 (takeWhile (\<lambda>c. c \<noteq> NUL) in_buffer) of
        None \<Rightarrow> j
      | Some ms \<Rightarrow>
          let expires = fst (strtol10 (fst (ms ! 5))) in
          if expires = 0 \<or> expires \<le> je_now env then set_cookies_dirty j
          else if \<not> je_mem_cookie env then j
          else case get_cookie_server env (member ms 2) j of
              (None, j) \<Rightarrow> j
            | (Some a, j) \<Rightarrow>
                if \<not> je_mem_strings env then done_cookie_server a j
                else accept_cookie env
                       \<lparr>ck_name = member ms 0, ck_value = member ms 1, ck_path = Some (member ms 3),
                        ck_domain = member ms 4, ck_server = a, ck_expires = expires,
                        ck_secure = (int32 (fst (strtol10 (fst (ms ! 6)))) \<noteq> 0)\<rparr> j)"

function load_lines :: "jar_env \<Rightarrow> string \<Rightarrow> jar \<Rightarrow> jar" where
  "load_lines env s j = (if s = [] then j else load_lines env (drop (read_len s) s) (load_line env (take (read_len s) s) j))"
  by auto
termination
  by (relation "measure (\<lambda>(env, s, j). length s)") (auto simp: read_len_def MAX_STR_LEN_def)

declare load_lines.simps [simp del]

definition load_cookies :: "jar_env \<Rightarrow> jar \<Rightarrow> jar" where
  "load_cookies env j =
     (if je_home env \<and> \<not> je_mem_strings env then j
      else
        let j = done_cookies env (j\<lparr>j_nosave := True\<rparr>)\<lparr>j_nosave := False\<rparr>
        in case (if je_home env then j_file j else je_cwd_file env) of
             None \<Rightarrow> j
           | Some s \<Rightarrow> load_lines env s (j\<lparr>j_nosave := True\<rparr>)\<lparr>j_nosave := False\<rparr>)"

definition init_cookies :: "jar_env \<Rightarrow> jar \<Rightarrow> jar" where
  "init_cookies env j = (if je_save env then load_cookies env j else j)"

section \<open>Questions and the cookie manager\<close>

text \<open>A question takes the newest cookie that waits into a message box; the answer is about the cookie of the box.\<close>

definition accept_cookie_dialog :: "jar_env \<Rightarrow> jar \<Rightarrow> jar" where
  "accept_cookie_dialog env j =
     (case j_queries j of
        [] \<Rightarrow> j
      | cookie # qs \<Rightarrow> if \<not> je_mem_strings env then j else j\<lparr>j_queries := qs, j_asked := cookie # j_asked j\<rparr>)"

definition answer_cookie :: "jar_env \<Rightarrow> nat \<Rightarrow> bool \<Rightarrow> jar \<Rightarrow> jar" where
  "answer_cookie env n yes j =
     (if n < length (j_asked j) then
        (let c = j_asked j ! n; j = j\<lparr>j_asked := del_nth (j_asked j) n\<rparr>
         in if yes then accept_cookie env c j else done_cookie c j)
      else j)"

text \<open>The manager acts on a cookie that is chosen in its list.\<close>

definition delete_cookie_item :: "nat \<Rightarrow> jar \<Rightarrow> jar" where
  "delete_cookie_item n j =
     (if n < length (j_cookies j) then
        (let c = j_cookies j ! n
         in set_cookies_dirty (done_cookie c (j\<lparr>j_cookies := del_nth (j_cookies j) n\<rparr>)))
      else j)"

definition edit_cookie :: "nat \<Rightarrow> (cookie \<Rightarrow> cookie) \<Rightarrow> jar \<Rightarrow> jar" where
  "edit_cookie n f j =
     (if n < length (j_cookies j) then set_cookies_dirty (j\<lparr>j_cookies := (j_cookies j)[n := f (j_cookies j ! n)]\<rparr>) else j)"

definition set_cookie_name :: "nat \<Rightarrow> string \<Rightarrow> jar \<Rightarrow> jar" where
  "set_cookie_name n value j = edit_cookie n (\<lambda>c. c\<lparr>ck_name := value\<rparr>) j"

definition set_cookie_value :: "nat \<Rightarrow> string \<Rightarrow> jar \<Rightarrow> jar" where
  "set_cookie_value n value j = edit_cookie n (\<lambda>c. c\<lparr>ck_value := value\<rparr>) j"

definition set_cookie_domain :: "nat \<Rightarrow> string \<Rightarrow> jar \<Rightarrow> jar" where
  "set_cookie_domain n value j = edit_cookie n (\<lambda>c. c\<lparr>ck_domain := value\<rparr>) j"

definition set_cookie_expires :: "nat \<Rightarrow> string \<Rightarrow> jar \<Rightarrow> jar" where
  "set_cookie_expires n value j =
     (case strtol10 value of (number, e, err) \<Rightarrow>
        if err \<or> rd value e \<noteq> NUL \<or> number < 0 then j else edit_cookie n (\<lambda>c. c\<lparr>ck_expires := number\<rparr>) j)"

definition set_cookie_secure :: "nat \<Rightarrow> string \<Rightarrow> jar \<Rightarrow> jar" where
  "set_cookie_secure n value j =
     (case strtol10 value of (number, e, err) \<Rightarrow>
        if err \<or> rd value e \<noteq> NUL then j else edit_cookie n (\<lambda>c. c\<lparr>ck_secure := (number \<noteq> 0)\<rparr>) j)"

text \<open>A new cookie of a server that is chosen in the list; it has no path.\<close>

definition push_add_button :: "jar_env \<Rightarrow> nat \<Rightarrow> jar \<Rightarrow> jar" where
  "push_add_button env a j =
     (if \<not> je_mem_cookie env \<or> a \<notin> sv_addr ` set (j_servers j) then j
      else accept_cookie env \<lparr>ck_name = [], ck_value = [], ck_path = None, ck_domain = [], ck_server = a, ck_expires = 0,
                              ck_secure = False\<rparr> (lock_server a 1 j))"

section \<open>Domains and paths\<close>

lemma strncasecmp_same: "map c_tolower s1 = map c_tolower s2 \<Longrightarrow> c_strncasecmp s1 s2 n = 0"
proof (induction n arbitrary: s1 s2)
  case (Suc n)
  show ?case
  proof (cases s1)
    case Nil
    with Suc.prems show ?thesis
      by (simp add: rd_def)
  next
    case (Cons a as)
    with Suc.prems obtain b bs where "s2 = b # bs"
      by (cases s2) auto
    with Cons Suc show ?thesis
      by (simp add: Let_def)
  qed
qed simp

declare c_strcasecmp.simps [simp del]

lemma NUL_tolower: "NUL = c_tolower c \<longleftrightarrow> c = NUL"
  by (metis c_tolower_NUL)

lemma c_strcasecmp_eq:
  "NUL \<notin> set s1 \<Longrightarrow> NUL \<notin> set s2 \<Longrightarrow> c_strcasecmp s1 s2 = 0 \<longleftrightarrow> map c_tolower s1 = map c_tolower s2"
proof (induction s1 arbitrary: s2)
  case Nil
  then show ?case
    using NUL_tolower by (cases s2) (auto simp: c_strcasecmp.simps [of "[]"] Let_def rd_def)
next
  case (Cons a as)
  have nul: "NUL \<noteq> c_tolower a"
    using Cons.prems(1) c_tolower_NUL [of a] by fastforce
  show ?case
  proof (cases s2)
    case Nil
    with nul show ?thesis
      by (auto simp: c_strcasecmp.simps [of "a # as"] Let_def rd_def)
  next
    fix b bs assume s2: "s2 = b # bs"
    with Cons show ?thesis
      using nul by (auto simp: c_strcasecmp.simps [of "a # as"] Let_def)
  qed
qed

text \<open>The domain is the host itself or what is behind one of its dots.\<close>

definition domain_match :: "string \<Rightarrow> string \<Rightarrow> bool" where
  "domain_match d h \<longleftrightarrow>
     map c_tolower h = map c_tolower d \<or> (\<exists>p. map c_tolower h = p @ ''.'' @ map c_tolower d)"

lemma tolower_dot: "c_tolower c = CHR ''.'' \<longleftrightarrow> c = CHR ''.''"
  using c_tolower_other [of c "CHR ''.''"] by (auto simp: c_tolower_def c_islower_def c_isupper_def ccode_def)

lemma is_in_domain_match:
  assumes "NUL \<notin> set d" "NUL \<notin> set h"
  shows "is_in_domain d h \<longleftrightarrow> domain_match d h"
proof -
  let ?l = "map c_tolower"
  consider "length d > length h" | "length d = length h" | "length d < length h"
    by linarith
  then show ?thesis
  proof cases
    case 1
    have False if "?l h = p @ ?l d" for p
      using 1 that by (metis length_append length_map not_add_less2)
    with this [of "[]"] this [of "_ @ ''.''"] 1 show ?thesis
      by (auto simp: is_in_domain_def domain_match_def)
  next
    case 2
    have False if "?l h = p @ ''.'' @ ?l d" for p
    proof -
      from that have "length (?l h) = length (p @ ''.'' @ ?l d)"
        by (rule arg_cong)
      with 2 show False
        by simp
    qed
    with 2 c_strncasecmp_eq [OF assms, of "length h"] show ?thesis
      by (auto simp: is_in_domain_def domain_match_def)
  next
    case 3
    let ?n = "length h - length d"
    have h: "h = take (?n - 1) h @ h ! (?n - 1) # drop ?n h"
      using 3 id_take_nth_drop [of "?n - 1" h] by (simp add: Suc_diff_Suc)
    have "NUL \<notin> set (drop ?n h)"
      using assms(2) by (meson in_set_dropD)
    from c_strncasecmp_eq [OF assms(1) this, of "length d"]
    have cmp: "c_strncasecmp d (drop ?n h) (length d) = 0 \<longleftrightarrow> ?l d = ?l (drop ?n h)"
      using 3 by simp
    have "(\<exists>p. ?l h = p @ ''.'' @ ?l d) \<longleftrightarrow> h ! (?n - 1) = CHR ''.'' \<and> ?l d = ?l (drop ?n h)" (is "?L = ?R")
    proof
      assume ?L
      then obtain p where p: "?l h = p @ ''.'' @ ?l d"
        by blast
      then have len: "length p = ?n - 1"
        by (metis (no_types, lifting) One_nat_def add.commute add_diff_cancel_left' append.assoc diff_diff_left length_append length_map list.size(3,4) plus_1_eq_Suc add_Suc)
      have "?l h ! (?n - 1) = CHR ''.''" "drop ?n (?l h) = ?l d"
        using p len 3 by (simp_all add: nth_append)
      then show ?R
        using 3 tolower_dot by (simp add: drop_map)
    next
      assume R: ?R
      have "?l h = ?l (take (?n - 1) h) @ c_tolower (h ! (?n - 1)) # ?l (drop ?n h)"
        by (subst h) simp
      with R tolower_dot [of "CHR ''.''"] show ?L
        by auto
    qed
    moreover have "?l h \<noteq> ?l d"
      using 3 by (metis length_map less_irrefl)
    ultimately show ?thesis
      using 3 cmp by (auto simp: is_in_domain_def domain_match_def)
  qed
qed

lemma is_path_prefix_iff: "is_path_prefix d s \<longleftrightarrow> (\<exists>r. s = d @ r)"
  unfolding is_path_prefix_def by (metis append_eq_conv_conj append_take_drop_id length_append not_add_less1)


section \<open>What is sent\<close>

definition cookie_matches :: "uri \<Rightarrow> string \<Rightarrow> cookie \<Rightarrow> bool" where
  "cookie_matches u path c \<longleftrightarrow>
     domain_match (ck_domain c) (uri_host u) \<and> (\<exists>d r. ck_path c = Some d \<and> path = d @ r)"

definition cookie_sent :: "jar_env \<Rightarrow> uri \<Rightarrow> string \<Rightarrow> cookie \<Rightarrow> bool" where
  "cookie_sent env u path c \<longleftrightarrow>
     cookie_matches u path c \<and> \<not> cookie_expired env c \<and> (ck_secure c \<longrightarrow> u_protocol u = PROTOCOL_HTTPS)"

definition name_value :: "cookie \<Rightarrow> string" where
  "name_value c = ck_name c @ ''='' @ ck_value c"

fun join_strings :: "string \<Rightarrow> string list \<Rightarrow> string" where
  "join_strings sep [] = []"
| "join_strings sep [x] = x"
| "join_strings sep (x # xs) = x @ sep @ join_strings sep xs"

definition add_pair :: "string \<Rightarrow> cookie \<Rightarrow> string" where
  "add_pair h c = (if h \<noteq> [] then h @ ''; '' else h) @ name_value c"

lemma name_value_not_empty [simp]: "name_value c \<noteq> []"
  by (simp add: name_value_def)

lemma add_pairs: "h \<noteq> [] \<Longrightarrow> foldl add_pair h cs = h @ concat (map (\<lambda>c. ''; '' @ name_value c) cs)"
  by (induction cs arbitrary: h) (auto simp: add_pair_def)

lemma add_pairs_not_empty: "foldl add_pair (add_pair h c) cs \<noteq> []"
  by (subst add_pairs) (simp_all add: add_pair_def)

lemma join_pairs: "join_strings ''; '' (name_value c # map name_value cs) = name_value c @ concat (map (\<lambda>c. ''; '' @ name_value c) cs)"
  by (induction cs arbitrary: c) auto

lemma add_pairs_join: "foldl add_pair [] cs = join_strings ''; '' (map name_value cs)"
proof (cases cs)
  case (Cons c cs')
  have "add_pair [] c = name_value c"
    by (simp add: add_pair_def)
  with Cons show ?thesis
    using join_pairs [of c cs'] add_pairs [of "name_value c" cs'] by simp
qed simp

definition cookie_ok :: "cookie \<Rightarrow> bool" where
  "cookie_ok c \<longleftrightarrow> ck_path c \<noteq> None \<and> NUL \<notin> set (ck_domain c)"

lemma done_cookie_lists [simp]:
  "j_cookies (done_cookie c j) = j_cookies j" "j_queries (done_cookie c j) = j_queries j" "j_asked (done_cookie c j) = j_asked j"
  "j_domains (done_cookie c j) = j_domains j" "j_nosave (done_cookie c j) = j_nosave j" "j_file (done_cookie c j) = j_file j"
  "j_dirty (done_cookie c j) = j_dirty j"
  by (simp_all add: done_cookie_def done_cookie_server_def lock_server_def Let_def)

lemma set_dirty_lists [simp]:
  "j_cookies (set_cookies_dirty j) = j_cookies j" "j_queries (set_cookies_dirty j) = j_queries j"
  "j_asked (set_cookies_dirty j) = j_asked j" "j_domains (set_cookies_dirty j) = j_domains j"
  "j_nosave (set_cookies_dirty j) = j_nosave j" "j_file (set_cookies_dirty j) = j_file j" "j_servers (set_cookies_dirty j) = j_servers j"
  by (simp_all add: set_cookies_dirty_def)

lemma send_loop_spec:
  assumes "list_all cookie_ok cs" "NUL \<notin> set (uri_host u)"
  shows "\<exists>j'. send_loop env u path cs h j = Some (foldl add_pair h (filter (cookie_sent env u path) cs), j') \<and>
     j_cookies j' = j_cookies j @ filter (\<lambda>c. \<not> (cookie_matches u path c \<and> cookie_expired env c)) cs"
  using assms(1)
proof (induction cs arbitrary: h j)
  case (Cons c cs)
  obtain d where c: "ck_path c = Some d" "NUL \<notin> set (ck_domain c)"
    using Cons.prems by (auto simp: cookie_ok_def)
  note dm = is_in_domain_match [OF c(2) assms(2)]
  have cs: "list_all cookie_ok cs"
    using Cons.prems by simp
  have m: "cookie_matches u path c \<longleftrightarrow> is_in_domain (ck_domain c) (uri_host u) \<and> is_path_prefix d path"
    by (simp add: cookie_matches_def dm c(1) is_path_prefix_iff)
  note IH1 = Cons.IH [OF cs, of "add_pair h c" "j\<lparr>j_cookies := j_cookies j @ [c]\<rparr>"]
    and IH2 = Cons.IH [OF cs, of h "j\<lparr>j_cookies := j_cookies j @ [c]\<rparr>"]
    and IH3 = Cons.IH [OF cs, of h "set_cookies_dirty (done_cookie c j)"]
  show ?case
    using IH1 IH2 IH3 by (auto simp: c(1) m cookie_sent_def add_pair_def name_value_def)
qed simp

text \<open>Every domain of a cookie is listed.\<close>

definition domains_listed :: "jar \<Rightarrow> bool" where
  "domains_listed j \<longleftrightarrow>
     (\<forall>c\<in>set (j_cookies j). \<exists>cd\<in>set (j_domains j). NUL \<notin> set cd \<and> map c_tolower cd = map c_tolower (ck_domain c))"

lemma domain_match_case: "map c_tolower d = map c_tolower e \<Longrightarrow> domain_match d h \<longleftrightarrow> domain_match e h"
  by (simp add: domain_match_def)

lemma send_cookies_spec:
  assumes "u_host u \<noteq> None" "u_data u \<noteq> None" "NUL \<notin> set (uri_host u)" "list_all cookie_ok (j_cookies j)" "domains_listed j"
    and "path = add_uri_to_string (je_idn env) u URI_PATH"
  shows "\<exists>j'. send_cookies env u j =
       Some (let cs = filter (cookie_sent env u path) (j_cookies j)
             in if cs = [] then None else Some (join_strings ''; '' (map name_value cs)), j') \<and>
     j_cookies j' = filter (\<lambda>c. \<not> (cookie_matches u path c \<and> cookie_expired env c)) (j_cookies j)"
proof (cases "\<exists>cd\<in>set (j_domains j). is_in_domain cd (uri_host u)")
  case True
  let ?cs = "filter (cookie_sent env u path) (j_cookies j)"
  have "foldl add_pair [] ?cs = [] \<longleftrightarrow> ?cs = []"
    using add_pairs_not_empty by (cases ?cs) auto
  with send_loop_spec [OF assms(4,3), of env path "[]" "j\<lparr>j_cookies := []\<rparr>"] True assms(1,2) show ?thesis
    by (auto simp: send_cookies_def assms(6) add_pairs_join Let_def)
next
  case False
  have "\<not> cookie_matches u path c" if "c \<in> set (j_cookies j)" for c
  proof
    assume m: "cookie_matches u path c"
    have "\<exists>cd\<in>set (j_domains j). NUL \<notin> set cd \<and> map c_tolower cd = map c_tolower (ck_domain c)"
      using assms(5) that by (simp only: domains_listed_def)
    then obtain cd where cd: "cd \<in> set (j_domains j)" "NUL \<notin> set cd" "map c_tolower cd = map c_tolower (ck_domain c)"
      by (elim bexE conjE)
    have "domain_match cd (uri_host u)"
      using m domain_match_case [OF cd(3)] by (simp add: cookie_matches_def)
    then have "is_in_domain cd (uri_host u)"
      using is_in_domain_match [OF cd(2) assms(3)] by simp
    with False cd(1) show False
      by blast
  qed
  then have "filter (cookie_sent env u path) (j_cookies j) = []"
    "filter (\<lambda>c. \<not> (cookie_matches u path c \<and> cookie_expired env c)) (j_cookies j) = j_cookies j"
    by (auto simp: filter_empty_conv filter_id_conv cookie_sent_def)
  with False assms(1,2) show ?thesis
    by (simp add: send_cookies_def)
qed

end
