(* ===== verification/CookieJar.thy ===== *)
theory CookieJar
  imports Cookies
begin

text \<open>
  What holds of the cookies in every state of the module: the servers are counted exactly by the cookies that
  came from them, and as long as only replies, requests, answers, deletions and the file change the cookies,
  each has a path and a listed domain, on which \<^verbatim>\<open>send_cookies\<close> relies. Then the file: what is
  saved is what is loaded.
\<close>

section \<open>Servers and their references\<close>

definition held :: "jar \<Rightarrow> cookie multiset" where
  "held j = mset (j_cookies j) + mset (j_queries j) + mset (j_asked j)"

abbreviation sv_addrs :: "cookie_server list \<Rightarrow> nat set" where
  "sv_addrs ss \<equiv> sv_addr ` set ss"

definition servers_ok :: "cookie_server list \<Rightarrow> nat multiset \<Rightarrow> bool" where
  "servers_ok ss M \<longleftrightarrow> distinct (map sv_addr ss) \<and> set_mset M = sv_addrs ss \<and>
     (\<forall>s\<in>set ss. sv_refs s = int (count M (sv_addr s))) \<and> distinct (map (map c_tolower \<circ> sv_host) ss)"

definition jar_counted :: "jar \<Rightarrow> bool" where
  "jar_counted j \<longleftrightarrow> servers_ok (j_servers j) (image_mset ck_server (held j))"

lemma lock_server_fields [simp]:
  "j_cookies (lock_server a d j) = j_cookies j" "j_queries (lock_server a d j) = j_queries j" "j_asked (lock_server a d j) = j_asked j"
  "j_domains (lock_server a d j) = j_domains j" "j_nosave (lock_server a d j) = j_nosave j" "j_file (lock_server a d j) = j_file j"
  "map sv_addr (j_servers (lock_server a d j)) = map sv_addr (j_servers j)"
  "map (map c_tolower \<circ> sv_host) (j_servers (lock_server a d j)) = map (map c_tolower \<circ> sv_host) (j_servers j)"
  by (auto simp: lock_server_def comp_def)

lemma lock_server_addrs [simp]: "sv_addrs (j_servers (lock_server a d j)) = sv_addrs (j_servers j)"
  by (metis list.set_map lock_server_fields(7))

lemma lock_server_ok:
  assumes "servers_ok (j_servers j) M" "a \<in> sv_addrs (j_servers j)"
  shows "servers_ok (j_servers (lock_server a 1 j)) (add_mset a M)"
proof -
  have "\<forall>s\<in>set (j_servers (lock_server a 1 j)). sv_refs s = int (count (add_mset a M) (sv_addr s))"
    using assms(1) by (auto simp: servers_ok_def lock_server_def)
  with assms show ?thesis
    by (simp only: servers_ok_def lock_server_fields lock_server_addrs set_mset_add_mset_insert insert_absorb simp_thms)
qed

lemma add_server_mset: "mset (add_server n ss) = add_mset n (mset ss)"
  by (induction ss) auto

lemma add_server_set [simp]: "set (add_server n ss) = insert n (set ss)"
  by (metis add_server_mset set_mset_add_mset_insert set_mset_mset)

lemma add_server_distinct: "distinct (map f (add_server n ss)) \<longleftrightarrow> f n \<notin> f ` set ss \<and> distinct (map f ss)"
proof -
  have "mset (map f (add_server n ss)) = mset (map f (n # ss))"
    by (simp add: add_server_mset)
  then have "distinct (map f (add_server n ss)) = distinct (map f (n # ss))"
    by (metis mset_eq_imp_distinct_iff)
  then show ?thesis
    by simp
qed

lemma same_host_tolower: "map c_tolower h = map c_tolower host \<Longrightarrow> same_host host h"
  by (simp add: same_host_def strncasecmp_same) (metis length_map)

definition fresh_servers :: "jar_env \<Rightarrow> bool" where
  "fresh_servers env \<longleftrightarrow> (\<forall>j a. je_mem_server env j = Some a \<longrightarrow> a \<notin> sv_addrs (j_servers j))"

lemma get_cookie_server_fields:
  "get_cookie_server env host j = (r, j') \<Longrightarrow>
     j_cookies j' = j_cookies j \<and> j_queries j' = j_queries j \<and> j_asked j' = j_asked j \<and> j_domains j' = j_domains j \<and>
     j_nosave j' = j_nosave j \<and> j_file j' = j_file j \<and> (r = None \<longrightarrow> j' = j)"
  by (auto simp: get_cookie_server_def split: option.splits)

lemma get_cookie_server_ok:
  assumes "servers_ok (j_servers j) M" "fresh_servers env" "get_cookie_server env host j = (Some a, j')"
  shows "servers_ok (j_servers j') (add_mset a M)"
proof (cases "find (\<lambda>s. same_host host (sv_host s)) (j_servers j)")
  case None
  then have new: "je_mem_server env j = Some a" "j_servers j' = add_server \<lparr>sv_addr = a, sv_host = host, sv_refs = 1\<rparr> (j_servers j)"
    using assms(3) by (auto simp: get_cookie_server_def split: option.splits)
  have a: "a \<notin> sv_addrs (j_servers j)"
    using assms(2) new(1) by (simp add: fresh_servers_def)
  then have "a \<notin># M"
    using assms(1) by (simp add: servers_ok_def)
  then have cnt: "count M a = 0"
    by (simp add: not_in_iff)
  have "map c_tolower host \<noteq> map c_tolower (sv_host s)" if "s \<in> set (j_servers j)" for s
    using None that same_host_tolower [of "sv_host s" host] by (auto simp: find_None_iff)
  with a cnt assms(1) show ?thesis
    unfolding servers_ok_def new(2) add_server_distinct by auto
next
  case (Some s)
  then have "s \<in> set (j_servers j)"
    by (metis find_Some_iff nth_mem)
  moreover have s: "a = sv_addr s" "j' = lock_server a 1 j"
    using assms(3) unfolding get_cookie_server_def Some by auto
  ultimately show ?thesis
    using lock_server_ok [OF assms(1), of a] by simp
qed

lemma done_cookie_server_ok:
  assumes "servers_ok (j_servers j) M" "a \<in># M"
  shows "servers_ok (j_servers (done_cookie_server a j)) (M - {#a#})"
proof -
  let ?ss = "j_servers (lock_server a (- 1) j)"
  let ?k = "filter (\<lambda>s. sv_addr s = a \<longrightarrow> sv_refs s \<noteq> 0) ?ss"
  have refs: "\<forall>s\<in>set ?ss. sv_refs s = int (count (M - {#a#}) (sv_addr s))"
    using assms by (auto simp: servers_ok_def lock_server_def)
  have old: "distinct (map sv_addr ?ss)" "set_mset M = sv_addrs ?ss" "distinct (map (map c_tolower \<circ> sv_host) ?ss)"
    using assms(1) by (simp_all add: servers_ok_def)
  have "sv_addrs ?k = set_mset (M - {#a#})"
  proof (intro set_eqI iffI)
    fix b assume "b \<in> sv_addrs ?k"
    then obtain s where s: "s \<in> set ?ss" "b = sv_addr s" "b = a \<longrightarrow> sv_refs s \<noteq> 0"
      by auto
    have "b \<in># M"
      using s(1,2) old(2) by (simp only: image_eqI)
    then show "b \<in># M - {#a#}"
      using s refs by (cases "b = a") (auto simp flip: count_greater_zero_iff)
  next
    fix b assume b: "b \<in># M - {#a#}"
    then obtain s where s: "s \<in> set ?ss" "b = sv_addr s"
      using old(2) by (metis (no_types, lifting) imageE in_diffD)
    with refs b have "sv_refs s \<noteq> 0"
      by (metis count_eq_zero_iff of_nat_eq_0_iff)
    with s show "b \<in> sv_addrs ?k"
      by auto
  qed
  with refs old(1,3) show ?thesis
    by (auto simp: servers_ok_def done_cookie_server_def Let_def distinct_map_filter)
qed

section \<open>Operations keep the count\<close>

text \<open>The cookies in \<open>C\<close> are in no list but still hold their servers.\<close>

definition counted_with :: "cookie multiset \<Rightarrow> jar \<Rightarrow> bool" where
  "counted_with C j \<longleftrightarrow> servers_ok (j_servers j) (image_mset ck_server (held j + C))"

lemma jar_counted_with: "jar_counted j \<longleftrightarrow> counted_with {#} j"
  by (simp add: jar_counted_def counted_with_def)

lemma counted_cong:
  "counted_with C j \<Longrightarrow> j_servers j' = j_servers j \<Longrightarrow> held j' + D = held j + C \<Longrightarrow> counted_with D j'"
  by (simp add: counted_with_def)

lemma counted_server: "counted_with C j \<Longrightarrow> c \<in># held j + C \<Longrightarrow> ck_server c \<in> sv_addrs (j_servers j)"
  by (auto simp: counted_with_def servers_ok_def)

lemma counted_done: "counted_with (add_mset c C) j \<Longrightarrow> counted_with C (done_cookie c j)"
proof -
  assume c: "counted_with (add_mset c C) j"
  have "held (done_cookie c j) = held j"
    by (simp add: held_def)
  then show ?thesis
    using done_cookie_server_ok [of j "image_mset ck_server (held j + add_mset c C)" "ck_server c"] c
    by (simp add: counted_with_def done_cookie_def)
qed

lemma counted_done_all: "counted_with (mset cs + C) j \<Longrightarrow> counted_with C (foldl (\<lambda>j c. done_cookie c j) j cs)"
  by (induction cs arbitrary: j) (auto intro: counted_done)

lemma counted_delete: "counted_with C j \<Longrightarrow> counted_with C (delete_cookies P j)"
proof -
  assume c: "counted_with C j"
  have "mset (j_cookies j) = mset (filter P (j_cookies j)) + mset (filter (\<lambda>c. \<not> P c) (j_cookies j))"
    by (simp add: multiset_partition)
  with c have "counted_with (mset (filter P (j_cookies j)) + C) (j\<lparr>j_cookies := filter (\<lambda>c. \<not> P c) (j_cookies j)\<rparr>)"
    by (intro counted_cong [OF c]) (simp_all add: held_def)
  then show ?thesis
    by (simp add: delete_cookies_def counted_done_all)
qed

lemma done_all_lists [simp]:
  "j_cookies (foldl (\<lambda>j c. done_cookie c j) j cs) = j_cookies j" "j_queries (foldl (\<lambda>j c. done_cookie c j) j cs) = j_queries j"
  "j_asked (foldl (\<lambda>j c. done_cookie c j) j cs) = j_asked j" "j_domains (foldl (\<lambda>j c. done_cookie c j) j cs) = j_domains j"
  "j_nosave (foldl (\<lambda>j c. done_cookie c j) j cs) = j_nosave j" "j_file (foldl (\<lambda>j c. done_cookie c j) j cs) = j_file j"
  "j_dirty (foldl (\<lambda>j c. done_cookie c j) j cs) = j_dirty j"
  by (induction cs arbitrary: j) simp_all

lemma delete_lists [simp]:
  "j_cookies (delete_cookies P j) = filter (\<lambda>c. \<not> P c) (j_cookies j)" "j_queries (delete_cookies P j) = j_queries j"
  "j_asked (delete_cookies P j) = j_asked j" "j_domains (delete_cookies P j) = j_domains j"
  "j_nosave (delete_cookies P j) = j_nosave j" "j_file (delete_cookies P j) = j_file j"
  by (simp_all add: delete_cookies_def)

text \<open>What an accepted cookie makes of the lists.\<close>

definition replaces :: "jar \<Rightarrow> cookie \<Rightarrow> cookie \<Rightarrow> bool" where
  "replaces j cookie c \<longleftrightarrow> \<not> j_nosave j \<and> c_strcasecmp (ck_name c) (ck_name cookie) = 0 \<and>
     c_strcasecmp (ck_domain c) (ck_domain cookie) = 0"

lemma accept_cookie_lists:
  "j_cookies (accept_cookie env c j) = c # filter (\<lambda>d. \<not> replaces j c d) (j_cookies j)"
  "j_queries (accept_cookie env c j) = j_queries j" "j_asked (accept_cookie env c j) = j_asked j"
  "j_nosave (accept_cookie env c j) = j_nosave j" "j_file (accept_cookie env c j) = j_file j"
  "set (j_domains (accept_cookie env c j)) =
     (if (\<forall>cd\<in>set (j_domains j). c_strcasecmp cd (ck_domain c) \<noteq> 0) \<and> je_mem_domain env then {ck_domain c} else {}) \<union> set (j_domains j)"
  by (auto simp: accept_cookie_def Let_def replaces_def)

lemma counted_accept: "counted_with (add_mset c C) j \<Longrightarrow> counted_with C (accept_cookie env c j)"
proof -
  assume c: "counted_with (add_mset c C) j"
  let ?P = "\<lambda>d. c_strcasecmp (ck_name d) (ck_name c) = 0 \<and> c_strcasecmp (ck_domain d) (ck_domain c) = 0"
  define j1 where "j1 = (if \<not> j_nosave j then delete_cookies ?P j else j)"
  have c1: "counted_with (add_mset c C) j1"
    using counted_delete [OF c] c by (simp add: j1_def)
  let ?j = "set_cookies_dirty (j1\<lparr>j_cookies := c # j_cookies j1\<rparr>)"
  have "counted_with C ?j" "\<And>ds. counted_with C (?j\<lparr>j_domains := ds\<rparr>)"
    by (rule counted_cong [OF c1], simp_all add: held_def)+
  then show ?thesis
    by (simp only: accept_cookie_def Let_def j1_def [symmetric] split: if_split) blast
qed

lemma counted_get:
  assumes "counted_with C j" "fresh_servers env" "get_cookie_server env host j = (r, j')"
  shows "case r of None \<Rightarrow> counted_with C j' | Some a \<Rightarrow> \<forall>c. ck_server c = a \<longrightarrow> counted_with (add_mset c C) j'"
proof (cases r)
  case None
  with assms(1) get_cookie_server_fields [OF assms(3)] show ?thesis
    by simp
next
  case (Some a)
  have h: "held j' = held j"
    using get_cookie_server_fields [OF assms(3)] by (simp add: held_def)
  show ?thesis
    using get_cookie_server_ok [OF _ assms(2) assms(3) [unfolded Some], of "image_mset ck_server (held j + C)"] assms(1) Some
    by (simp add: counted_with_def h)
qed

text \<open>A server that was asked for and is not used after all.\<close>

lemma counted_give_back:
  assumes "\<forall>c. ck_server c = a \<longrightarrow> counted_with (add_mset c C) j"
  shows "counted_with C (done_cookie_server a j)"
proof -
  define c where "c = \<lparr>ck_name = [], ck_value = [], ck_path = None, ck_domain = [], ck_server = a, ck_expires = 0, ck_secure = False\<rparr>"
  then have c: "ck_server c = a"
    by simp
  with assms counted_done [of c C j] show ?thesis
    by (simp add: done_cookie_def)
qed

lemma counted_set_cookie:
  assumes "counted_with C j" "fresh_servers env"
  shows "counted_with C (set_cookie env u str j)"
proof (cases "parse_cookie_str str")
  case (Some cstr)
  obtain r j1 where g: "get_cookie_server env (uri_host u) j = (r, j1)"
    by fastforce
  note c = counted_get [OF assms g]
  show ?thesis
  proof (cases r)
    case None
    with assms(1) Some g c show ?thesis
      by (simp add: set_cookie_def)
  next
    case r: (Some a)
    then have c1: "\<forall>c. ck_server c = a \<longrightarrow> counted_with (add_mset c C) j1"
      using c by simp
    have "counted_with C (j1\<lparr>j_queries := c # j_queries j1\<rparr>)" if "ck_server c = a" for c
      by (rule counted_cong [OF c1 [rule_format, OF that]]) (simp_all add: held_def)
    with counted_accept counted_give_back [OF c1] c1 assms(1) Some g r show ?thesis
      by (simp add: set_cookie_def Let_def)
  qed
qed (simp add: set_cookie_def assms(1))

lemma counted_send_loop:
  assumes "counted_with (mset cs + C) j" "send_loop env u path cs h j = Some (r, j')"
  shows "counted_with C j'"
  using assms
proof (induction cs arbitrary: h j)
  case (Cons c cs)
  have keep: "counted_with (mset cs + C) (j\<lparr>j_cookies := j_cookies j @ [c]\<rparr>)"
    using Cons.prems(1) by (rule counted_cong) (simp_all add: held_def)
  have "counted_with (mset cs + C) (done_cookie c j)"
    using Cons.prems(1) by (simp add: counted_done)
  then have drop: "counted_with (mset cs + C) (set_cookies_dirty (done_cookie c j))"
    by (rule counted_cong) (simp_all add: held_def)
  show ?case
    using Cons.prems(2) Cons.IH [OF keep] Cons.IH [OF drop] by (auto split: if_splits option.splits)
qed simp

lemma counted_send_cookies:
  assumes "counted_with C j" "send_cookies env u j = Some (r, j')"
  shows "counted_with C j'"
proof -
  have "counted_with (mset (j_cookies j) + C) (j\<lparr>j_cookies := []\<rparr>)"
    using assms(1) by (rule counted_cong) (simp_all add: held_def)
  with counted_send_loop [OF this] assms show ?thesis
    by (auto simp: send_cookies_def split: if_splits option.splits)
qed

lemma save_lists [simp]:
  "j_cookies (save_cookies env j) = j_cookies j" "j_queries (save_cookies env j) = j_queries j"
  "j_asked (save_cookies env j) = j_asked j" "j_domains (save_cookies env j) = j_domains j"
  "j_nosave (save_cookies env j) = j_nosave j" "j_servers (save_cookies env j) = j_servers j"
  by (simp_all add: save_cookies_def Let_def)

lemma counted_save: "counted_with C j \<Longrightarrow> counted_with C (save_cookies env j)"
  by (rule counted_cong) (simp_all add: held_def)

lemma counted_done_cookies:
  assumes "counted_with C j"
  shows "counted_with C (done_cookies env j)"
proof -
  define j1 where "j1 = (let j = j\<lparr>j_domains := []\<rparr> in if \<not> j_nosave j \<and> je_save env then save_cookies env j else j)"
  have "counted_with C j1"
    using assms by (rule counted_cong) (simp_all add: j1_def held_def Let_def)
  then have d: "counted_with C (delete_cookies (\<lambda>c. True) j1)" (is "counted_with C ?j")
    by (rule counted_delete)
  have "counted_with (mset (j_queries ?j) + C) (?j\<lparr>j_queries := []\<rparr>)"
    using d by (rule counted_cong) (simp_all add: held_def)
  from counted_done_all [OF this]
  have "counted_with C (foldl (\<lambda>j c. done_cookie c j) (?j\<lparr>j_queries := []\<rparr>) (j_queries ?j)\<lparr>j_dirty := False\<rparr>)"
    by (rule counted_cong) (simp_all add: held_def)
  then show ?thesis
    by (simp only: done_cookies_def Let_def j1_def)
qed

lemma counted_load_line:
  assumes "counted_with C j" "fresh_servers env"
  shows "counted_with C (load_line env buf j)"
proof (cases "find_members 7 (takeWhile (\<lambda>c. c \<noteq> NUL) buf)")
  case (Some ms)
  obtain r j1 where g: "get_cookie_server env (member ms 2) j = (r, j1)"
    by fastforce
  have dirty: "counted_with C (set_cookies_dirty j)"
    using assms(1) by (rule counted_cong) (simp_all add: held_def)
  note c = counted_get [OF assms g]
  show ?thesis
  proof (cases r)
    case None
    with assms(1) Some g c dirty show ?thesis
      by (simp add: load_line_def Let_def)
  next
    case r: (Some a)
    then have c1: "\<forall>c. ck_server c = a \<longrightarrow> counted_with (add_mset c C) j1"
      using c by simp
    with counted_accept counted_give_back [OF c1] dirty assms(1) Some g r show ?thesis
      by (simp add: load_line_def Let_def)
  qed
qed (simp add: load_line_def assms(1))

lemma counted_load_lines: "counted_with C j \<Longrightarrow> fresh_servers env \<Longrightarrow> counted_with C (load_lines env s j)"
proof (induction env s j rule: load_lines.induct)
  case (1 env s j)
  then show ?case
    by (simp add: load_lines.simps [of env s j] counted_load_line)
qed

lemma counted_nosave: "counted_with C j \<Longrightarrow> counted_with C (j\<lparr>j_nosave := b\<rparr>)"
  by (rule counted_cong) (simp_all add: held_def)

lemma counted_load_cookies:
  assumes "counted_with C j" "fresh_servers env"
  shows "counted_with C (load_cookies env j)"
proof -
  have emptied: "counted_with C (done_cookies env (j\<lparr>j_nosave := True\<rparr>)\<lparr>j_nosave := False\<rparr>)"
    by (rule counted_nosave, rule counted_done_cookies, rule counted_nosave, rule assms(1))
  moreover have "counted_with C (load_lines env s (done_cookies env (j\<lparr>j_nosave := True\<rparr>)\<lparr>j_nosave := False\<rparr>\<lparr>j_nosave := True\<rparr>)\<lparr>j_nosave := False\<rparr>)" for s
    by (rule counted_nosave, rule counted_load_lines, rule counted_nosave, rule emptied, rule assms(2))
  ultimately show ?thesis
    using assms(1) by (simp only: load_cookies_def Let_def split: if_split option.split) blast
qed

lemma del_nth_mset: "n < length xs \<Longrightarrow> mset xs = add_mset (xs ! n) (mset (del_nth xs n))"
  by (simp add: mset_del_nth)

lemma counted_answer: "counted_with C j \<Longrightarrow> counted_with C (answer_cookie env n yes j)"
proof -
  assume c: "counted_with C j"
  have "counted_with (add_mset (j_asked j ! n) C) (j\<lparr>j_asked := del_nth (j_asked j) n\<rparr>)" if "n < length (j_asked j)"
    using c by (rule counted_cong) (simp_all add: held_def del_nth_mset [OF that])
  with c show ?thesis
    by (simp add: answer_cookie_def Let_def counted_accept counted_done)
qed

lemma counted_dialog: "counted_with C j \<Longrightarrow> counted_with C (accept_cookie_dialog env j)"
  by (cases "j_queries j") (auto simp: accept_cookie_dialog_def held_def elim!: counted_cong)

lemma counted_delete_item: "counted_with C j \<Longrightarrow> counted_with C (delete_cookie_item n j)"
proof -
  assume c: "counted_with C j"
  have "counted_with C (set_cookies_dirty (done_cookie (j_cookies j ! n) (j\<lparr>j_cookies := del_nth (j_cookies j) n\<rparr>)))" if "n < length (j_cookies j)"
  proof -
    have "counted_with (add_mset (j_cookies j ! n) C) (j\<lparr>j_cookies := del_nth (j_cookies j) n\<rparr>)"
      using c by (rule counted_cong) (simp_all add: held_def del_nth_mset [OF that])
    then have "counted_with C (done_cookie (j_cookies j ! n) (j\<lparr>j_cookies := del_nth (j_cookies j) n\<rparr>))"
      by (rule counted_done)
    then show ?thesis
      by (rule counted_cong) (simp_all add: held_def)
  qed
  with c show ?thesis
    by (simp add: delete_cookie_item_def Let_def)
qed

text \<open>An edit changes no server.\<close>

lemma counted_edit:
  assumes "counted_with C j" "\<And>c. ck_server (f c) = ck_server c"
  shows "counted_with C (edit_cookie n f j)"
proof -
  have "map ck_server ((j_cookies j)[n := f (j_cookies j ! n)]) = map ck_server (j_cookies j)"
    by (cases "n < length (j_cookies j)") (auto intro!: nth_equalityI simp: nth_list_update assms(2) list_update_beyond)
  then have "image_mset ck_server (mset ((j_cookies j)[n := f (j_cookies j ! n)])) = image_mset ck_server (mset (j_cookies j))"
    by (metis mset_map)
  with assms(1) show ?thesis
    by (simp add: counted_with_def edit_cookie_def held_def)
qed

lemma counted_add:
  assumes "counted_with C j"
  shows "counted_with C (push_add_button env a j)"
proof -
  have "counted_with (add_mset c C) (lock_server a 1 j)" if "ck_server c = a" "a \<in> sv_addrs (j_servers j)" for c
    using lock_server_ok [OF assms [unfolded counted_with_def] that(2)] that(1)
    by (simp add: counted_with_def held_def)
  with assms show ?thesis
    by (simp add: push_add_button_def counted_accept)
qed


section \<open>What \<^verbatim>\<open>send_cookies\<close> relies on\<close>

text \<open>Each cookie has a path, and each that was accepted a listed domain.\<close>

definition jar_tidy :: "jar \<Rightarrow> bool" where
  "jar_tidy j \<longleftrightarrow> (\<forall>c\<in>#held j. cookie_ok c) \<and> domains_listed j \<and> list_all (\<lambda>d. NUL \<notin> set d) (j_domains j)"

lemma tidy_mono:
  assumes "jar_tidy j" "held j' \<subseteq># held j" "set (j_cookies j') \<subseteq> set (j_cookies j)" "j_domains j' = j_domains j"
  shows "jar_tidy j'"
  using assms unfolding jar_tidy_def domains_listed_def by (metis mset_subset_eqD subsetD)

lemma held_set: "set_mset (held j) = set (j_cookies j) \<union> set (j_queries j) \<union> set (j_asked j)"
  by (simp add: held_def)

lemma tidy_subset:
  assumes "jar_tidy j" "set_mset (held j') \<subseteq> set_mset (held j)" "set (j_cookies j') \<subseteq> set (j_cookies j)" "j_domains j' = j_domains j"
  shows "jar_tidy j'"
  using assms unfolding jar_tidy_def domains_listed_def by auto

lemma tidy_accept:
  assumes "jar_tidy j" "cookie_ok c" "je_mem_domain env"
  shows "jar_tidy (accept_cookie env c j)"
proof -
  let ?j = "accept_cookie env c j"
  have nul: "NUL \<notin> set (ck_domain c)" "\<forall>d\<in>set (j_domains j). NUL \<notin> set d"
    using assms(1,2) by (auto simp: cookie_ok_def jar_tidy_def list_all_iff)
  have dom: "set (j_domains j) \<subseteq> set (j_domains ?j)" "set (j_domains ?j) \<subseteq> insert (ck_domain c) (set (j_domains j))"
    by (auto simp: accept_cookie_lists)
  have "\<exists>cd\<in>set (j_domains ?j). NUL \<notin> set cd \<and> map c_tolower cd = map c_tolower (ck_domain c)"
  proof (cases "\<forall>cd\<in>set (j_domains j). c_strcasecmp cd (ck_domain c) \<noteq> 0")
    case True
    with nul(1) assms(3) show ?thesis
      by (auto simp: accept_cookie_lists)
  next
    case False
    with nul dom(1) c_strcasecmp_eq [OF _ nul(1)] show ?thesis
      by blast
  qed
  then have "domains_listed ?j"
    using assms(1) dom(1) unfolding jar_tidy_def domains_listed_def by (auto simp: accept_cookie_lists)
  moreover have "list_all (\<lambda>d. NUL \<notin> set d) (j_domains ?j)"
    using nul dom(2) by (auto simp: list_all_iff)
  moreover have "\<forall>c\<in>#held ?j. cookie_ok c"
    using assms(1,2) by (auto simp: jar_tidy_def held_set accept_cookie_lists)
  ultimately show ?thesis
    by (simp add: jar_tidy_def)
qed

text \<open>A parameter of a header has only characters of the header.\<close>

lemma find_param_set: "find_param p name = Some q \<Longrightarrow> set q \<subseteq> set p"
proof (induction p name rule: find_param.induct)
  case (1 p name)
  show ?case
  proof (cases "dropWhile (\<lambda>c. c \<noteq> CHR '';'') p")
    case (Cons a qs)
    let ?r = "dropWhile (\<lambda>c. c = CHR '';'' \<or> ccode c \<le> 32) (a # qs)"
    have sub: "set ?r \<subseteq> set p"
      using Cons set_dropWhileD [of _ "\<lambda>c. c \<noteq> CHR '';''" p] set_dropWhileD by (metis subsetI)
    show ?thesis
    proof (cases "length ?r < length name \<or> c_strncasecmp ?r name (length name) = 0")
      case True
      with "1.prems" Cons sub show ?thesis
        by (auto simp: find_param.simps [of p name] Let_def simp del: dropWhile.simps split: if_splits dest: in_set_dropD)
    next
      case False
      with "1.prems" Cons "1.IH" [OF Cons refl] sub show ?thesis
        by (auto simp: find_param.simps [of p name] Let_def simp del: dropWhile.simps)
    qed
  next
    case Nil
    have "find_param p name = None"
      unfolding find_param.simps [of p name] Nil by simp
    with "1.prems" show ?thesis
      by simp
  qed
qed

lemma unquote_single_set: "set (unquote_single v) \<subseteq> set v"
proof (induction v rule: unquote_single.induct)
  case (1 v)
  have "set (butlast (tl v)) \<subseteq> set v"
    by (cases v) (auto dest: in_set_butlastD)
  with 1 show ?case
    by (auto simp: unquote_single.simps [of v])
qed

lemma rstrip_set: "set (rstrip P s) \<subseteq> set s"
  using set_dropWhileD [of _ P "rev s"] by (auto simp: rstrip_def)

lemma parse_header_param_set:
  assumes "parse_header_param str name = Some v"
  shows "set v \<subseteq> set str"
proof (cases "find_param str name")
  case (Some q)
  let ?p = "dropWhile (\<lambda>c. ccode c \<le> 32 \<or> c = CHR ''='') q"
  let ?t = "takeWhile (\<lambda>c. (32 < ccode c \<or> LWS c) \<and> c \<noteq> CHR '';'') ?p"
  have "set ?t \<subseteq> set str"
    using find_param_set [OF Some] by (auto dest!: set_takeWhileD set_dropWhileD)
  then have "set (unquote_single (rstrip LWS ?t)) \<subseteq> set str"
    using unquote_single_set [of "rstrip LWS ?t"] rstrip_set [of LWS ?t] by blast
  with assms Some show ?thesis
    by (auto simp: parse_header_param_def Let_def split: if_splits)
qed (use assms in \<open>simp add: parse_header_param_def split: if_splits\<close>)

lemma uri_host_set: "set (uri_host u) \<subseteq> set (u_string u)"
  by (auto simp: uri_host_def split: option.split dest: in_set_takeD in_set_dropD)

text \<open>The cookie that \<^verbatim>\<open>set_cookie\<close> makes.\<close>

definition reply_cookie :: "jar_env \<Rightarrow> uri \<Rightarrow> string \<Rightarrow> cookie_str \<Rightarrow> nat \<Rightarrow> cookie" where
  "reply_cookie env u str cstr a =
     (let domain = (case parse_header_param str ''domain'' of None \<Rightarrow> uri_host u | Some d \<Rightarrow> d);
          domain = (if rd domain 0 = CHR ''.'' then drop 1 domain else domain)
      in \<lparr>ck_name = take (nam_end cstr) str,
          ck_value = take (val_end cstr - val_start cstr) (drop (val_start cstr) str),
          ck_path = Some (cookie_path env u str),
          ck_domain = (if is_domain_security_ok env domain (uri_host u) then domain else uri_host u),
          ck_server = a, ck_expires = cookie_expires env str,
          ck_secure = (parse_header_param str ''secure'' \<noteq> None)\<rparr>)"

lemma set_cookie_cases:
  "set_cookie env u str j = j \<or>
   (\<exists>cstr a j1. je_accept_policy env \<noteq> COOKIES_ACCEPT_NONE \<and> parse_cookie_str str = Some cstr \<and>
      get_cookie_server env (uri_host u) j = (Some a, j1) \<and>
      (set_cookie env u str j = done_cookie_server a j1 \<or>
       (let c = reply_cookie env u str cstr a
        in set_cookie env u str j =
          (if je_accept_policy env = COOKIES_ACCEPT_ASK then j1\<lparr>j_queries := c # j_queries j1\<rparr> else accept_cookie env c j1))))"
proof (cases "parse_cookie_str str")
  case (Some cstr)
  obtain r j1 where g: "get_cookie_server env (uri_host u) j = (r, j1)"
    by fastforce
  with get_cookie_server_fields [OF g] show ?thesis
    by (cases r) (auto simp: set_cookie_def Some reply_cookie_def Let_def)
qed (simp add: set_cookie_def)

lemma reply_cookie_ok:
  assumes "NUL \<notin> set str" "NUL \<notin> set (u_string u)"
  shows "cookie_ok (reply_cookie env u str cstr a)"
proof -
  have h: "NUL \<notin> set (uri_host u)"
    using assms(2) uri_host_set by blast
  have "NUL \<notin> set d" if "parse_header_param str ''domain'' = Some d" for d
    using assms(1) parse_header_param_set [OF that] by blast
  with h show ?thesis
    by (auto simp: cookie_ok_def reply_cookie_def Let_def split: option.split dest: in_set_dropD)
qed

lemma done_server_lists [simp]:
  "j_cookies (done_cookie_server a j) = j_cookies j" "j_queries (done_cookie_server a j) = j_queries j" "j_asked (done_cookie_server a j) = j_asked j"
  "j_domains (done_cookie_server a j) = j_domains j"
  by (simp_all add: done_cookie_server_def Let_def)

lemma tidy_set_cookie:
  assumes "jar_tidy j" "NUL \<notin> set str" "NUL \<notin> set (u_string u)" "je_mem_domain env"
  shows "jar_tidy (set_cookie env u str j)"
proof -
  have t: "jar_tidy j1" if "get_cookie_server env (uri_host u) j = (Some a, j1)" for a j1
    using assms(1) get_cookie_server_fields [OF that] by (auto simp: jar_tidy_def domains_listed_def held_def)
  have q: "jar_tidy (j1\<lparr>j_queries := c # j_queries j1\<rparr>)" if "jar_tidy j1" "cookie_ok c" for j1 c
    using that by (auto simp: jar_tidy_def domains_listed_def held_def)
  have d: "jar_tidy (done_cookie_server a j1)" if "jar_tidy j1" for a j1
    using that by (rule tidy_subset) (auto simp: held_set)
  show ?thesis
    using set_cookie_cases [of env u str j] assms(1) t d [OF t] q [OF t reply_cookie_ok [OF assms(2,3)]]
      tidy_accept [OF t reply_cookie_ok [OF assms(2,3)] assms(4)]
    by (auto simp: Let_def)
qed

lemma send_loop_sub:
  "send_loop env u path cs h j = Some (r, j') \<Longrightarrow>
     set (j_cookies j') \<subseteq> set (j_cookies j) \<union> set cs \<and> j_queries j' = j_queries j \<and> j_asked j' = j_asked j \<and> j_domains j' = j_domains j"
proof (induction cs arbitrary: h j)
  case (Cons c cs)
  show ?case
    using Cons.prems Cons.IH [of _ "j\<lparr>j_cookies := j_cookies j @ [c]\<rparr>"] Cons.IH [of h "set_cookies_dirty (done_cookie c j)"]
    by (auto split: if_splits option.splits)
qed simp

lemma tidy_send_cookies: "jar_tidy j \<Longrightarrow> send_cookies env u j = Some (r, j') \<Longrightarrow> jar_tidy j'"
proof -
  assume t: "jar_tidy j" and s: "send_cookies env u j = Some (r, j')"
  have "set (j_cookies j') \<subseteq> set (j_cookies j) \<and> j_queries j' = j_queries j \<and> j_asked j' = j_asked j \<and> j_domains j' = j_domains j"
    using s send_loop_sub [of env u _ "j_cookies j" "[]" "j\<lparr>j_cookies := []\<rparr>"]
    by (fastforce simp: send_cookies_def split: if_splits option.splits)
  then show ?thesis
    by (intro tidy_subset [OF t]) (auto simp: held_set)
qed

lemma done_cookies_lists [simp]:
  "j_cookies (done_cookies env j) = []" "j_queries (done_cookies env j) = []" "j_asked (done_cookies env j) = j_asked j"
  "j_domains (done_cookies env j) = []" "j_nosave (done_cookies env j) = j_nosave j" "j_dirty (done_cookies env j) = False"
  by (simp_all add: done_cookies_def Let_def)

lemma tidy_done_cookies: "jar_tidy j \<Longrightarrow> jar_tidy (done_cookies env j)"
  by (auto simp: jar_tidy_def domains_listed_def held_set)

lemma find_members_set:
  "find_members n q = Some ms \<Longrightarrow> (s, k) \<in> set ms \<Longrightarrow> set s \<subseteq> set q"
proof (induction n q arbitrary: ms rule: find_members.induct)
  case (2 n q)
  then show ?case
    by (auto simp: Let_def split: if_splits dest!: in_set_dropD) (meson in_set_dropD subsetD)
qed simp

lemma find_members_len: "find_members n q = Some ms \<Longrightarrow> length ms = n"
  by (induction n q arbitrary: ms rule: find_members.induct) (auto simp: Let_def split: if_splits)

lemma member_set:
  assumes "find_members n q = Some ms" "i < n"
  shows "set (member ms i) \<subseteq> set q"
proof -
  have "ms ! i \<in> set ms"
    using assms find_members_len [OF assms(1)] by simp
  then have "set (fst (ms ! i)) \<subseteq> set q"
    using find_members_set [OF assms(1)] by (metis prod.collapse)
  then show ?thesis
    by (auto simp: member_def dest: in_set_takeD)
qed

lemma tidy_same:
  assumes "jar_tidy j" "j_cookies j' = j_cookies j" "j_queries j' = j_queries j" "j_asked j' = j_asked j" "j_domains j' = j_domains j"
  shows "jar_tidy j'"
  using assms by (intro tidy_subset [OF assms(1)]) (simp_all add: held_set)

lemma tidy_load_line:
  assumes "jar_tidy j" "je_mem_domain env"
  shows "jar_tidy (load_line env buf j)"
proof (cases "find_members 7 (takeWhile (\<lambda>c. c \<noteq> NUL) buf)")
  case (Some ms)
  obtain r j1 where g: "get_cookie_server env (member ms 2) j = (r, j1)"
    by fastforce
  note f = get_cookie_server_fields [OF g]
  have t1: "jar_tidy j1"
    using f by (intro tidy_same [OF assms(1)]) simp_all
  have t2: "jar_tidy (done_cookie_server a j1)" for a
    by (intro tidy_same [OF t1]) simp_all
  have t3: "jar_tidy (set_cookies_dirty j)"
    by (intro tidy_same [OF assms(1)]) simp_all
  have "NUL \<notin> set (member ms 4)"
    using member_set [OF Some, of 4] by (auto dest: set_takeWhileD)
  then have t4: "jar_tidy (accept_cookie env \<lparr>ck_name = n, ck_value = v, ck_path = Some p, ck_domain = member ms 4, ck_server = a,
      ck_expires = e, ck_secure = s\<rparr> j1)" for n v p a e s
    by (intro tidy_accept t1 assms(2)) (simp add: cookie_ok_def)
  show ?thesis
    unfolding load_line_def Some option.case Let_def g by (simp add: t1 t2 t3 t4 assms(1) split: option.split)
qed (simp add: load_line_def assms(1))

lemma tidy_load_lines: "jar_tidy j \<Longrightarrow> je_mem_domain env \<Longrightarrow> jar_tidy (load_lines env s j)"
proof (induction env s j rule: load_lines.induct)
  case (1 env s j)
  then show ?case
    by (simp add: load_lines.simps [of env s j] tidy_load_line)
qed

lemma tidy_nosave: "jar_tidy (j\<lparr>j_nosave := b\<rparr>) = jar_tidy j"
  by (simp add: jar_tidy_def domains_listed_def held_def)

lemma tidy_load_cookies: "jar_tidy j \<Longrightarrow> je_mem_domain env \<Longrightarrow> jar_tidy (load_cookies env j)"
  by (simp add: load_cookies_def Let_def tidy_nosave tidy_done_cookies tidy_load_lines split: option.split)

lemma tidy_save: "jar_tidy j \<Longrightarrow> jar_tidy (save_cookies env j)"
  by (erule tidy_same) simp_all

lemma tidy_answer:
  assumes "jar_tidy j" "je_mem_domain env"
  shows "jar_tidy (answer_cookie env n yes j)"
proof (cases "n < length (j_asked j)")
  case True
  have sub: "set (del_nth (j_asked j) n) \<subseteq> set (j_asked j)"
    by (rule set_del_nth_subset)
  have t: "jar_tidy (j\<lparr>j_asked := del_nth (j_asked j) n\<rparr>)" (is "jar_tidy ?j")
    using sub by (intro tidy_subset [OF assms(1)]) (auto simp: held_set)
  have "jar_tidy (done_cookie (j_asked j ! n) ?j)"
    by (rule tidy_same [OF t]) simp_all
  moreover have "cookie_ok (j_asked j ! n)"
    using assms(1) True by (simp add: jar_tidy_def held_def)
  ultimately show ?thesis
    using t by (simp add: answer_cookie_def Let_def True tidy_accept assms(2))
qed (simp add: answer_cookie_def assms(1))

lemma tidy_dialog: "jar_tidy j \<Longrightarrow> jar_tidy (accept_cookie_dialog env j)"
  by (erule tidy_subset) (auto simp: accept_cookie_dialog_def held_set split: list.splits)

lemma tidy_delete_item: "jar_tidy j \<Longrightarrow> jar_tidy (delete_cookie_item n j)"
  using set_del_nth_subset [of "j_cookies j" n]
  by (erule_tac tidy_subset) (auto simp: delete_cookie_item_def Let_def held_set)

lemma tidy_edit:
  assumes "jar_tidy j" "\<And>c. ck_path (f c) = ck_path c \<and> ck_domain (f c) = ck_domain c"
  shows "jar_tidy (edit_cookie n f j)"
proof (cases "n < length (j_cookies j)")
  case True
  have old: "\<exists>c0\<in>set (j_cookies j). ck_path c = ck_path c0 \<and> ck_domain c = ck_domain c0"
    if "c \<in> set ((j_cookies j)[n := f (j_cookies j ! n)])" for c
  proof -
    have "c = f (j_cookies j ! n) \<or> c \<in> set (j_cookies j)"
      using that set_update_subset_insert by fastforce
    with True assms(2) show ?thesis
      by (metis nth_mem)
  qed
  have "cookie_ok c" if "c \<in> set ((j_cookies j)[n := f (j_cookies j ! n)])" for c
    using old [OF that] assms(1) by (auto simp: jar_tidy_def held_set cookie_ok_def)
  moreover have "\<exists>cd\<in>set (j_domains j). NUL \<notin> set cd \<and> map c_tolower cd = map c_tolower (ck_domain c)"
    if "c \<in> set ((j_cookies j)[n := f (j_cookies j ! n)])" for c
    using old [OF that] assms(1) unfolding jar_tidy_def domains_listed_def by metis
  ultimately show ?thesis
    using assms(1) True by (auto simp: jar_tidy_def domains_listed_def edit_cookie_def held_set)
qed (simp add: edit_cookie_def assms(1))

section \<open>Steps\<close>

text \<open>A step of the module with the options, clock and outcomes of \<open>env\<close>. In a \<open>plain\<close> run there is memory for the domains
  and the cookie manager neither changes a domain nor adds a cookie; replies and URIs are C strings.\<close>

definition step_ok :: "bool \<Rightarrow> jar_env \<Rightarrow> bool" where
  "step_ok plain env \<longleftrightarrow> fresh_servers env \<and> (plain \<longrightarrow> je_mem_domain env)"

inductive jar_step :: "bool \<Rightarrow> jar \<Rightarrow> jar \<Rightarrow> bool" where
  js_reply: "step_ok plain env \<Longrightarrow> NUL \<notin> set str \<Longrightarrow> NUL \<notin> set (u_string u) \<Longrightarrow> jar_step plain j (set_cookie env u str j)"
| js_request: "send_cookies env u j = Some (r, j') \<Longrightarrow> jar_step plain j j'"
| js_ask: "jar_step plain j (accept_cookie_dialog env j)"
| js_answer: "step_ok plain env \<Longrightarrow> jar_step plain j (answer_cookie env n yes j)"
| js_delete: "jar_step plain j (delete_cookie_item n j)"
| js_name: "jar_step plain j (set_cookie_name n v j)"
| js_value: "jar_step plain j (set_cookie_value n v j)"
| js_expires: "jar_step plain j (set_cookie_expires n v j)"
| js_secure: "jar_step plain j (set_cookie_secure n v j)"
| js_domain: "\<not> plain \<Longrightarrow> jar_step plain j (set_cookie_domain n v j)"
| js_add: "\<not> plain \<Longrightarrow> step_ok plain env \<Longrightarrow> jar_step plain j (push_add_button env a j)"
| js_bottom: "jar_step plain j (resave_cookies_bottom_half env j)"
| js_save: "jar_step plain j (save_cookies env j)"
| js_load: "step_ok plain env \<Longrightarrow> jar_step plain j (load_cookies env j)"
| js_init: "step_ok plain env \<Longrightarrow> jar_step plain j (init_cookies env j)"
| js_done: "jar_step plain j (done_cookies env j)"

text \<open>The program starts without cookies, with the file that earlier ones left.\<close>

definition empty_jar :: "string option \<Rightarrow> jar" where
  "empty_jar f = \<lparr>j_cookies = [], j_queries = [], j_asked = [], j_domains = [], j_servers = [], j_dirty = False, j_nosave = False,
     j_resave = False, j_file = f\<rparr>"

inductive jar_reachable :: "bool \<Rightarrow> jar \<Rightarrow> bool" where
  jr_start: "jar_reachable plain (empty_jar f)"
| jr_step: "jar_reachable plain j \<Longrightarrow> jar_step plain j j' \<Longrightarrow> jar_reachable plain j'"

lemma counted_resave: "counted_with C j \<Longrightarrow> counted_with C (resave_cookies_bottom_half env j)"
proof -
  assume "counted_with C j"
  then have "counted_with C (j\<lparr>j_resave := False\<rparr>)"
    by (rule counted_cong) (simp_all add: held_def)
  then show ?thesis
    by (simp add: resave_cookies_bottom_half_def Let_def counted_save)
qed

lemma tidy_resave: "jar_tidy j \<Longrightarrow> jar_tidy (resave_cookies_bottom_half env j)"
  by (erule tidy_same) (simp_all add: resave_cookies_bottom_half_def Let_def)

lemmas edit_defs = set_cookie_name_def set_cookie_value_def set_cookie_domain_def set_cookie_expires_def set_cookie_secure_def

lemma counted_step: "jar_step plain j j' \<Longrightarrow> counted_with {#} j \<Longrightarrow> counted_with {#} j'"
  by (induction rule: jar_step.induct)
    (auto simp: step_ok_def edit_defs init_cookies_def split: prod.split
      intro: counted_set_cookie counted_send_cookies counted_dialog counted_answer counted_delete_item counted_edit counted_add
        counted_resave counted_save counted_load_cookies counted_done_cookies)

lemma tidy_step: "jar_step plain j j' \<Longrightarrow> plain \<Longrightarrow> jar_tidy j \<Longrightarrow> jar_tidy j'"
  by (induction rule: jar_step.induct)
    (auto simp: step_ok_def edit_defs init_cookies_def split: prod.split
      intro: tidy_set_cookie tidy_send_cookies tidy_dialog tidy_answer tidy_delete_item tidy_edit
        tidy_resave tidy_save tidy_load_cookies tidy_done_cookies)

lemma reachable_counted: "jar_reachable plain j \<Longrightarrow> jar_counted j"
proof (induction rule: jar_reachable.induct)
  case (jr_start plain f)
  show ?case
    by (simp add: jar_counted_def empty_jar_def held_def servers_ok_def)
qed (simp add: jar_counted_with counted_step)

lemma reachable_tidy: "jar_reachable plain j \<Longrightarrow> plain \<Longrightarrow> jar_tidy j"
proof (induction rule: jar_reachable.induct)
  case (jr_start plain f)
  show ?case
    by (simp add: jar_tidy_def domains_listed_def empty_jar_def held_def)
qed (simp add: tidy_step)

section \<open>What the rules let through\<close>

text \<open>A page at the root of a host.\<close>

definition web_page :: "string \<Rightarrow> uri" where
  "web_page host = parsed (\<lambda>_. False) ''http'' None host None [] None None"

lemma web_page_parsed:
  assumes "wf_uri (\<lambda>_. False) ''http'' None host None [] None None"
  shows "parse_uri (\<lambda>_. False) (''http://'' @ host @ ''/'') = (URI_ERRNO_OK, web_page host)"
  using parse_uri_parsed [OF assms] by (simp add: web_page_def uri_text_def)

lemma web_page_sel:
  "u_host (web_page host) = Some 7" "hostlen (web_page host) = length host" "u_data (web_page host) = Some (length host + 8)"
  "datalen (web_page host) = 0" "u_string (web_page host) = ''http://'' @ host @ ''/''" "u_protocol (web_page host) = PROTOCOL_HTTP"
  by (simp_all add: web_page_def parsed_def Let_def set_rest_def uri_text_def http_sample)

lemma web_page_host: "uri_host (web_page host) = host"
  by (simp add: uri_host_def web_page_sel)

lemma wants_path:
  "\<not> wants URI_PATH URI_PROTOCOL" "\<not> wants URI_PATH URI_USER" "\<not> wants URI_PATH URI_HOST" "\<not> wants URI_PATH URI_PORT"
  "\<not> wants URI_PATH URI_DEFAULT_PORT" "\<not> wants URI_PATH URI_DATA" "\<not> wants URI_PATH URI_POST" "wants URI_PATH URI_PATH"
  "\<not> wants URI_PATH URI_FILENAME" "URI_PATH \<noteq> URI_HTTP_REFERRER_HOST"
  by code_simp+

lemma web_page_path: "add_uri_to_string idn (web_page host) URI_PATH = ''/''"
  by (simp add: add_uri_to_string_def web_page_sel add_scheme_def add_auth_def add_host_def add_port_def add_path_def wants_path
      is_uri_dir_sep_def NUL_def)

lemmas web_page_simps = web_page_sel web_page_host web_page_path

text \<open>The options as they are delivered, on a date in 2001.\<close>

definition sample_jar_env :: jar_env where
  "sample_jar_env = \<lparr>je_accept_policy = COOKIES_ACCEPT_ALL, je_max_age = -1, je_paranoid = False, je_save = True, je_do_resave = True,
     je_anonymous = False, je_now = 1000000000, je_inet_pton = (\<lambda>_. False), je_idn = (\<lambda>_. None), je_mem_cookie = True,
     je_mem_strings = True, je_mem_domain = True, je_mem_server = (\<lambda>j. Some (Suc (sum_list (map sv_addr (j_servers j))))),
     je_home = True, je_cwd_file = None, je_open = True, je_write = (\<lambda>_. True)\<rparr>"

lemma sample_env_memory [simp]: "je_mem_cookie sample_jar_env" "je_mem_domain sample_jar_env" "je_mem_strings sample_jar_env"
  by (simp_all add: sample_jar_env_def)

lemma sample_fresh: "step_ok plain sample_jar_env"
proof -
  have "a \<in> sv_addrs ss \<Longrightarrow> a \<le> sum_list (map sv_addr ss)" for a ss
    by (induction ss) auto
  then show ?thesis
    by (force simp: step_ok_def fresh_servers_def sample_jar_env_def)
qed

definition bank_reply :: string where
  "bank_reply = ''id=1; domain=bank.com''"

lemma bank_parts:
  "parse_header_param bank_reply ''domain'' = Some ''bank.com''" "parse_header_param bank_reply ''path'' = None"
  "parse_header_param bank_reply ''secure'' = None" "parse_header_param bank_reply ''expires'' = None"
  "parse_cookie_str bank_reply = Some \<lparr>nam_end = 2, val_start = 3, val_end = 4\<rparr>"
  "is_domain_security_ok sample_jar_env ''bank.com'' ''notbank.com''"
  "take 2 bank_reply = ''id''" "take (4 - 3) (drop 3 bank_reply) = ''1''"
  by code_simp+

lemma bank_cookie:
  "set_cookie sample_jar_env (web_page ''notbank.com'') bank_reply (empty_jar None) =
   \<lparr>j_cookies = [\<lparr>ck_name = ''id'', ck_value = ''1'', ck_path = Some ''/'', ck_domain = ''bank.com'', ck_server = 1, ck_expires = 0, ck_secure = False\<rparr>],
    j_queries = [], j_asked = [], j_domains = [''bank.com''], j_servers = [\<lparr>sv_addr = 1, sv_host = ''notbank.com'', sv_refs = 1\<rparr>],
    j_dirty = True, j_nosave = False, j_resave = True, j_file = None\<rparr>"
  using bank_parts by (simp add: set_cookie_def web_page_simps get_cookie_server_def empty_jar_def sample_jar_env_def cookie_path_def
    cookie_expires_def accept_cookie_def delete_cookies_def set_cookies_dirty_def Let_def)

section \<open>The hosts of servers\<close>

lemma find_map_keep:
  assumes "\<And>s. g (f s) = g s" "\<And>s. P (f s) = P s"
  shows "map_option g (find P (map f ss)) = map_option g (find P ss)"
  by (induction ss) (simp_all add: assms)

lemma server_host_map: "server_host j a = (case map_option sv_host (find (\<lambda>s. sv_addr s = a) (j_servers j)) of None \<Rightarrow> [] | Some h \<Rightarrow> h)"
  by (simp add: server_host_def split: option.split)

lemma server_host_lock [simp]: "server_host (lock_server a d j) b = server_host j b"
proof -
  have "map_option sv_host (find (\<lambda>s. sv_addr s = b) (map (\<lambda>s. if sv_addr s = a then s\<lparr>sv_refs := sv_refs s + d\<rparr> else s) (j_servers j))) =
      map_option sv_host (find (\<lambda>s. sv_addr s = b) (j_servers j))"
    by (rule find_map_keep) simp_all
  then show ?thesis
    by (simp add: server_host_map lock_server_def)
qed

lemma find_add_server:
  "find P (add_server n ss) = (if P n \<and> (\<forall>s\<in>set ss. \<not> P s) then Some n else if P n then find P (add_server n ss) else find P ss)"
  by (induction ss) auto

lemma server_host_add:
  assumes "sv_addr n \<notin> sv_addrs (j_servers j)"
  shows "server_host (j\<lparr>j_servers := add_server n (j_servers j)\<rparr>) b = (if b = sv_addr n then sv_host n else server_host j b)"
proof (cases "b = sv_addr n")
  case True
  have "\<forall>s\<in>set (j_servers j). sv_addr s \<noteq> sv_addr n"
    using assms by (metis image_eqI)
  then have "find (\<lambda>s. sv_addr s = sv_addr n) (add_server n (j_servers j)) = Some n"
    by (subst find_add_server) simp
  with True show ?thesis
    by (simp add: server_host_def)
next
  case False
  then have "find (\<lambda>s. sv_addr s = b) (add_server n (j_servers j)) = find (\<lambda>s. sv_addr s = b) (j_servers j)"
    by (subst find_add_server) simp
  with False show ?thesis
    by (simp add: server_host_def)
qed

lemma strncasecmp_same_length:
  "NUL \<notin> set s2 \<Longrightarrow> length s1 = length s2 \<Longrightarrow> c_strncasecmp s1 s2 (length s2) = 0 \<Longrightarrow> map c_tolower s1 = map c_tolower s2"
proof (induction s2 arbitrary: s1)
  case (Cons b s2)
  then obtain a s where s1: "s1 = a # s"
    by (cases s1) auto
  have "c_tolower b \<noteq> NUL"
    using Cons.prems(1) by auto
  with Cons s1 show ?case
    by (auto simp: Let_def split: if_splits)
qed simp

lemma find_distinct: "distinct (map f xs) \<Longrightarrow> x \<in> set xs \<Longrightarrow> find (\<lambda>y. f y = f x) xs = Some x"
  by (induction xs) auto

lemma get_cookie_server_hosts:
  assumes "servers_ok (j_servers j) M" "fresh_servers env" "NUL \<notin> set host" "get_cookie_server env host j = (Some a, j')"
  shows "map c_tolower (server_host j' a) = map c_tolower host" "\<forall>b\<in>#M. server_host j' b = server_host j b"
proof -
  have both: "map c_tolower (server_host j' a) = map c_tolower host \<and> (\<forall>b\<in>#M. server_host j' b = server_host j b)"
  proof (cases "find (\<lambda>s. same_host host (sv_host s)) (j_servers j)")
    case None
    then have new: "je_mem_server env j = Some a" "j' = j\<lparr>j_servers := add_server \<lparr>sv_addr = a, sv_host = host, sv_refs = 1\<rparr> (j_servers j)\<rparr>"
      using assms(4) by (auto simp: get_cookie_server_def split: option.splits)
    have a: "a \<notin> sv_addrs (j_servers j)"
      using assms(2) new(1) by (simp add: fresh_servers_def)
    moreover have "b \<noteq> a" if "b \<in># M" for b
      using assms(1) that a by (auto simp: servers_ok_def)
    ultimately show ?thesis
      using new(2) server_host_add [of "\<lparr>sv_addr = a, sv_host = host, sv_refs = 1\<rparr>" j] by simp
  next
    case (Some s)
    then have s: "s \<in> set (j_servers j)" "same_host host (sv_host s)"
      by (metis find_Some_iff nth_mem)+
    have a: "a = sv_addr s" "j' = lock_server a 1 j"
      using assms(4) unfolding get_cookie_server_def Some by auto
    have "distinct (map sv_addr (j_servers j))"
      using assms(1) by (simp add: servers_ok_def)
    then have "find (\<lambda>t. sv_addr t = sv_addr s) (j_servers j) = Some s"
      using s(1) by (rule find_distinct)
    then have "server_host j a = sv_host s"
      by (simp add: server_host_def a(1))
    moreover have "map c_tolower (sv_host s) = map c_tolower host"
      using s(2) assms(3) by (intro strncasecmp_same_length) (simp_all add: same_host_def)
    ultimately show ?thesis
      by (simp add: a(2))
  qed
  show "map c_tolower (server_host j' a) = map c_tolower host" "\<forall>b\<in>#M. server_host j' b = server_host j b"
    using both by blast+
qed

section \<open>Lines of the file\<close>

definition no_sep :: "string \<Rightarrow> bool" where
  "no_sep s \<longleftrightarrow> ASCII_TAB \<notin> set s \<and> ASCII_LF \<notin> set s \<and> NUL \<notin> set s"

definition line_of :: "string list \<Rightarrow> string" where
  "line_of fs = join_strings [ASCII_TAB] fs @ [ASCII_LF]"

lemma tab_lf [simp]: "ASCII_TAB \<noteq> ASCII_LF" "ASCII_LF \<noteq> ASCII_TAB" "ASCII_LF \<noteq> NUL" "ASCII_TAB \<noteq> NUL"
  by (simp_all add: ascii_defs NUL_def)

lemma find_members_step:
  assumes "ASCII_TAB \<notin> set a"
  shows "find_members (Suc n) (a @ ASCII_TAB # r) = map_option ((#) (a @ ASCII_TAB # r, length a)) (find_members n r)"
  using takeWhile_stop [OF assms, of r] by (simp add: Let_def)

lemma find_members_last:
  assumes "no_sep a"
  shows "find_members (Suc 0) (a @ [ASCII_LF]) = Some [(a @ [ASCII_LF], length a)]"
  using assms takeWhile_stop [of ASCII_LF a "[]"] by (simp add: no_sep_def)

lemma find_members_line:
  assumes "list_all no_sep fs" "fs = [a, b, c, d, e, f, g]"
  shows "\<exists>ms. find_members 7 (line_of fs) = Some ms \<and> map (member ms) [0, 1, 2, 3, 4] = [a, b, c, d, e] \<and>
     fst (ms ! 5) = f @ ASCII_TAB # g @ [ASCII_LF] \<and> fst (ms ! 6) = g @ [ASCII_LF]"
proof -
  have t: "ASCII_TAB \<notin> set a" "ASCII_TAB \<notin> set b" "ASCII_TAB \<notin> set c" "ASCII_TAB \<notin> set d" "ASCII_TAB \<notin> set e" "ASCII_TAB \<notin> set f" "no_sep g"
    using assms by (simp_all add: no_sep_def)
  have "line_of fs = a @ ASCII_TAB # b @ ASCII_TAB # c @ ASCII_TAB # d @ ASCII_TAB # e @ ASCII_TAB # f @ ASCII_TAB # g @ [ASCII_LF]"
    by (simp add: line_of_def assms(2))
  moreover have "(7::nat) = Suc (Suc (Suc (Suc (Suc (Suc (Suc 0))))))"
    by simp
  ultimately show ?thesis
    by (simp only: find_members_step [OF t(1)] find_members_step [OF t(2)] find_members_step [OF t(3)] find_members_step [OF t(4)]
        find_members_step [OF t(5)] find_members_step [OF t(6)] find_members_last [OF t(7)] option.map) (simp add: member_def)
qed


lemma digits_shown:
  assumes "0 < n"
  shows "list_all c_isdigit (show_long n) \<and> show_long n \<noteq> [] \<and> dec_val (show_long n) = n"
proof -
  let ?n = "nat n" and ?d = "put_digits False 10 (num_len 10 (nat n)) (nat n)"
  have "?d \<noteq> []"
    using num_len_bounds [of 10 ?n] length_put_digits [of False 10 "num_len 10 ?n" ?n] by force
  moreover have "dec_val ?d = int ?n"
    using num_len_bounds [of 10 ?n] put_digits_val [of 10 False "num_len 10 ?n" ?n] by (simp add: dec_val_num_val put_digits_isdigit)
  ultimately show ?thesis
    using assms by (simp add: show_long_def put_digits_isdigit)
qed

lemma digit_no_space: "c_isdigit c \<Longrightarrow> \<not> c_isspace c \<and> c \<noteq> CHR ''-'' \<and> c \<noteq> CHR ''+''"
  by (auto simp: c_isdigit_def c_isspace_def ccode_def)

text \<open>A number that ends at a byte that is no digit.\<close>

lemma strtol10_prefix:
  assumes "list_all c_isdigit ds" "ds \<noteq> []" "dec_val ds < 2 ^ 63" "\<not> c_isdigit c"
  shows "fst (strtol10 (ds @ c # r)) = dec_val ds"
proof -
  let ?s = "ds @ c # r"
  obtain d ds' where ds: "ds = d # ds'" "c_isdigit d"
    using assms(1,2) by (cases ds) auto
  have sp: "takeWhile c_isspace ?s = []"
    using ds digit_no_space [of d] by simp
  have rd: "rd ?s 0 = d"
    by (simp add: ds(1))
  have tk: "takeWhile c_isdigit ?s = ds"
    using assms(1,4) by (auto simp: takeWhile_append list_all_iff)
  have "0 \<le> dec_val ds"
    using dec_val_num_val [OF assms(1)] by simp
  then show ?thesis
    using assms(2,3) digit_no_space [OF ds(2)] unfolding strtol10_def sp Let_def by (simp add: rd tk)
qed

definition cookie_fields :: "jar \<Rightarrow> cookie \<Rightarrow> string list" where
  "cookie_fields j c = [ck_name c, ck_value c, server_host j (ck_server c), case ck_path c of None \<Rightarrow> [] | Some p \<Rightarrow> p, ck_domain c,
     show_long (ck_expires c), if ck_secure c then ''1'' else ''0'']"

lemma cookie_line_fields: "cookie_line j c = line_of (cookie_fields j c)"
  by (simp add: cookie_line_def line_of_def cookie_fields_def)

text \<open>A cookie that fits a line: no separator in its texts, at most as long as the buffer.\<close>

definition storable :: "jar \<Rightarrow> cookie \<Rightarrow> bool" where
  "storable j c \<longleftrightarrow> list_all no_sep (take 5 (cookie_fields j c)) \<and> 0 < ck_expires c \<and> ck_expires c < 2 ^ 63 \<and>
     length (cookie_line j c) < 6 * MAX_STR_LEN"

text \<open>What the program knows of a cookie, the host of its server up to the case of its letters.\<close>

definition cookie_view :: "jar \<Rightarrow> cookie \<Rightarrow> string \<times> string \<times> string \<times> string \<times> string \<times> int \<times> bool" where
  "cookie_view j c = (ck_name c, ck_value c, map c_tolower (server_host j (ck_server c)),
     case ck_path c of None \<Rightarrow> [] | Some p \<Rightarrow> p, ck_domain c, ck_expires c, ck_secure c)"

lemma no_sep_digits: "list_all c_isdigit ds \<Longrightarrow> no_sep ds"
proof -
  assume a: "list_all c_isdigit ds"
  have "\<not> c_isdigit ASCII_TAB" "\<not> c_isdigit ASCII_LF"
    by (simp_all add: c_isdigit_def ascii_defs)
  then show ?thesis
    using list_all_notin [OF a] by (simp add: no_sep_def)
qed

lemma storable_fields: "storable j c \<Longrightarrow> list_all no_sep (cookie_fields j c)"
proof -
  assume s: "storable j c"
  then have "no_sep (show_long (ck_expires c))"
    using digits_shown [of "ck_expires c"] by (intro no_sep_digits) (simp add: storable_def)
  moreover have "no_sep ''1''" "no_sep ''0''"
    by (rule no_sep_digits, simp add: c_isdigit_def)+
  ultimately show ?thesis
    using s by (simp add: storable_def cookie_fields_def)
qed

lemma join_no_sep: "list_all no_sep fs \<Longrightarrow> ASCII_LF \<notin> set (join_strings [ASCII_TAB] fs) \<and> NUL \<notin> set (join_strings [ASCII_TAB] fs)"
  by (induction "[ASCII_TAB]" fs rule: join_strings.induct) (auto simp: no_sep_def ascii_defs NUL_def)

lemma get_cookie_server_some: "je_mem_server env j \<noteq> None \<Longrightarrow> fst (get_cookie_server env host j) \<noteq> None"
  by (cases "je_mem_server env j"; cases "find (\<lambda>s. same_host host (sv_host s)) (j_servers j)") (simp_all add: get_cookie_server_def)

text \<open>Reading the line of a cookie.\<close>

lemma load_saved_line:
  assumes "storable j0 c" "counted_with {#} j" "step_ok False env" "je_mem_cookie env" "je_mem_strings env" "\<forall>j. je_mem_server env j \<noteq> None"
    "je_now env < ck_expires c" "j_nosave j"
  shows "j_nosave (load_line env (cookie_line j0 c) j)"
    "map (cookie_view (load_line env (cookie_line j0 c) j)) (j_cookies (load_line env (cookie_line j0 c) j)) =
      cookie_view j0 c # map (cookie_view j) (j_cookies j)"
proof -
  let ?fs = "cookie_fields j0 c" and ?h = "server_host j0 (ck_server c)"
  note ns = storable_fields [OF assms(1)]
  have fs: "?fs = [ck_name c, ck_value c, ?h, case ck_path c of None \<Rightarrow> [] | Some p \<Rightarrow> p, ck_domain c, show_long (ck_expires c), if ck_secure c then ''1'' else ''0'']"
    by (simp only: cookie_fields_def)
  have tk: "takeWhile (\<lambda>c. c \<noteq> NUL) (cookie_line j0 c) = line_of ?fs"
    using join_no_sep [OF ns] by (auto simp: cookie_line_fields line_of_def takeWhile_eq_all_conv)
  obtain ms where ms: "find_members 7 (line_of ?fs) = Some ms"
      "map (member ms) [0, 1, 2, 3, 4] = [ck_name c, ck_value c, ?h, case ck_path c of None \<Rightarrow> [] | Some p \<Rightarrow> p, ck_domain c]"
      "fst (ms ! 5) = show_long (ck_expires c) @ ASCII_TAB # (if ck_secure c then ''1'' else ''0'') @ [ASCII_LF]"
      "fst (ms ! 6) = (if ck_secure c then ''1'' else ''0'') @ [ASCII_LF]"
    by (rule exE [OF find_members_line [OF ns fs]], elim conjE) (rule that)
  have e: "0 < ck_expires c" "ck_expires c < 2 ^ 63"
    using assms(1) by (simp_all add: storable_def)
  have nd: "\<not> c_isdigit ASCII_TAB" "\<not> c_isdigit ASCII_LF"
    by (simp_all add: c_isdigit_def ascii_defs)
  have exp: "fst (strtol10 (fst (ms ! 5))) = ck_expires c"
    using strtol10_prefix [of "show_long (ck_expires c)" ASCII_TAB] digits_shown [OF e(1)] e(2) nd(1) by (simp add: ms(3))
  have sec: "(int32 (fst (strtol10 (fst (ms ! 6)))) \<noteq> 0) = ck_secure c"
  proof -
    have d: "list_all c_isdigit ''1''" "list_all c_isdigit ''0''" "dec_val ''1'' = 1" "dec_val ''0'' = 0"
      by code_simp+
    show ?thesis
      using strtol10_prefix [OF d(1), of ASCII_LF "[]"] strtol10_prefix [OF d(2), of ASCII_LF "[]"] d(3,4) nd(2)
      by (simp add: ms(4) int32_def)
  qed
  obtain r j1 where g: "get_cookie_server env ?h j = (r, j1)"
    by fastforce
  then obtain a where a: "r = Some a"
    using get_cookie_server_some [of env j "server_host j0 (ck_server c)"] assms(6) by (cases r) simp_all
  have hh: "NUL \<notin> set ?h"
    using ns by (simp add: fs no_sep_def)
  have fresh: "fresh_servers env"
    using assms(3) by (simp add: step_ok_def)
  let ?M = "image_mset ck_server (held j)"
  have M: "servers_ok (j_servers j) ?M"
    using assms(2) by (simp add: counted_with_def)
  note hosts = get_cookie_server_hosts [OF M fresh hh g [unfolded a]] and flds = get_cookie_server_fields [OF g]
  define c' where "c' = \<lparr>ck_name = ck_name c, ck_value = ck_value c, ck_path = Some (case ck_path c of None \<Rightarrow> [] | Some p \<Rightarrow> p),
      ck_domain = ck_domain c, ck_server = a, ck_expires = ck_expires c, ck_secure = ck_secure c\<rparr>"
  have ld: "load_line env (cookie_line j0 c) j = accept_cookie env c' j1"
    using ms(2) e(1) assms(4,5,7) by (simp add: load_line_def tk ms(1) exp sec g a c'_def Let_def)
  have ns1: "j_nosave j1"
    using flds assms(8) by simp
  have sv: "j_servers (accept_cookie env c' j1) = j_servers j1"
    using ns1 by (simp add: accept_cookie_def Let_def)
  then have host: "server_host (accept_cookie env c' j1) b = server_host j1 b" for b
    by (simp add: server_host_def)
  have "cookie_view (accept_cookie env c' j1) d = cookie_view j d" if "d \<in> set (j_cookies j)" for d
  proof -
    have "d \<in># held j"
      using that by (simp add: held_def)
    with hosts(2) show ?thesis
      by (simp add: cookie_view_def host)
  qed
  moreover have "cookie_view (accept_cookie env c' j1) c' = cookie_view j0 c"
    using hosts(1) unfolding cookie_view_def host by (simp add: c'_def)
  ultimately show "j_nosave (load_line env (cookie_line j0 c) j)"
    "map (cookie_view (load_line env (cookie_line j0 c) j)) (j_cookies (load_line env (cookie_line j0 c) j)) =
      cookie_view j0 c # map (cookie_view j) (j_cookies j)"
    using ns1 flds by (simp_all add: ld accept_cookie_lists replaces_def)
qed


lemma read_line:
  assumes "ASCII_LF \<notin> set x" "length x + 1 < 6 * MAX_STR_LEN"
  shows "read_len ((x @ [ASCII_LF]) @ rest) = length (x @ [ASCII_LF])"
proof -
  have "takeWhile (\<lambda>c. c \<noteq> ASCII_LF) (x @ ASCII_LF # rest) = x"
    using assms(1) by (rule takeWhile_stop)
  with assms(2) show ?thesis
    by (simp add: read_len_def)
qed

lemma load_next:
  assumes "storable j0 c"
  shows "load_lines env (cookie_line j0 c @ rest) j = load_lines env rest (load_line env (cookie_line j0 c) j)"
proof -
  let ?x = "join_strings [ASCII_TAB] (cookie_fields j0 c)"
  have l: "cookie_line j0 c = ?x @ [ASCII_LF]"
    by (simp add: cookie_line_fields line_of_def)
  have "length ?x + 1 < 6 * MAX_STR_LEN"
    using assms by (simp add: storable_def l)
  then have "read_len (cookie_line j0 c @ rest) = length (cookie_line j0 c)"
    unfolding l using join_no_sep [OF storable_fields [OF assms]] by (intro read_line) simp_all
  then show ?thesis
    by (simp add: load_lines.simps [of env "cookie_line j0 c @ rest"]) (simp add: l)
qed

lemma load_saved_lines:
  assumes "list_all (storable j0) cs" "step_ok False env" "je_mem_cookie env" "je_mem_strings env" "\<forall>j. je_mem_server env j \<noteq> None"
    "\<forall>c\<in>set cs. je_now env < ck_expires c" "j_nosave j" "counted_with {#} j"
  shows "map (cookie_view (load_lines env (concat (map (cookie_line j0) cs)) j)) (j_cookies (load_lines env (concat (map (cookie_line j0) cs)) j)) =
     rev (map (cookie_view j0) cs) @ map (cookie_view j) (j_cookies j)"
  using assms(1,6-8)
proof (induction cs arbitrary: j)
  case Nil
  then show ?case
    by (simp add: load_lines.simps [of env "[]"])
next
  case (Cons c cs)
  have c: "storable j0 c" "je_now env < ck_expires c" "list_all (storable j0) cs"
    using Cons.prems(1,2) by simp_all
  note j1 = load_saved_line [OF c(1) Cons.prems(4) assms(2-5) c(2) Cons.prems(3)]
  have "fresh_servers env"
    using assms(2) by (simp add: step_ok_def)
  with Cons.IH [OF c(3) _ j1(1) counted_load_line [OF Cons.prems(4)]] Cons.prems(2) j1(2) show ?case
    by (simp add: load_next [OF c(1)])
qed

definition persistent :: "jar_env \<Rightarrow> jar \<Rightarrow> cookie list" where
  "persistent env j = filter (\<lambda>c. ck_expires c \<noteq> 0 \<and> \<not> ck_expires c \<le> je_now env) (j_cookies j)"

lemma save_file: "j_file (save_cookies env j) = j_file j \<or> j_file (save_cookies env j) = Some (concat (map (cookie_line j) (persistent env j)))"
  by (simp add: save_cookies_def persistent_def Let_def)

lemma done_cookies_nosave: "j_nosave j \<Longrightarrow> j_file (done_cookies env j) = j_file j"
  by (simp add: done_cookies_def Let_def)

text \<open>C9: The cookies that \<^verbatim>\<open>save_cookies\<close> writes, all that have an expiry date in the future, are the cookies that a later
  \<^verbatim>\<open>load_cookies\<close> brings back, in the reverse order and with everything but the identity of the server, whose host comes back up to
  the case of its letters: if no separator is in their texts, the lines fit the buffer, the clock has not passed
  an expiry date and there is memory.\<close>

theorem saved_cookies_return:
  assumes "je_home env" "\<not> je_anonymous env" "je_mem_strings env" "je_open env" "\<forall>t. je_write env t" "j_dirty j" "\<not> j_nosave j"
    and "list_all (storable j) (persistent env j)"
    and "jar_reachable plain j'" "j_file j' = j_file (save_cookies env j)"
    and "step_ok False env'" "je_home env'" "je_mem_cookie env'" "je_mem_strings env'" "\<forall>j. je_mem_server env' j \<noteq> None"
    and "\<forall>c\<in>set (persistent env j). je_now env' < ck_expires c"
  shows "map (cookie_view (load_cookies env' j')) (j_cookies (load_cookies env' j')) = rev (map (cookie_view j) (persistent env j))"
proof -
  have saved: "j_file (save_cookies env j) = Some (concat (map (cookie_line j) (persistent env j)))"
    using assms(1-7) by (simp add: save_cookies_def persistent_def Let_def)
  let ?j = "done_cookies env' (j'\<lparr>j_nosave := True\<rparr>)"
  have "counted_with {#} j'"
    using reachable_counted [OF assms(9)] by (simp add: jar_counted_with)
  then have "counted_with {#} (?j\<lparr>j_nosave := False\<rparr>\<lparr>j_nosave := True\<rparr>)"
    by (intro counted_nosave counted_done_cookies)
  from load_saved_lines [OF assms(8,11,13-16) _ this]
  have lines: "map (cookie_view (load_lines env' (concat (map (cookie_line j) (persistent env j))) (?j\<lparr>j_nosave := True\<rparr>)))
      (j_cookies (load_lines env' (concat (map (cookie_line j) (persistent env j))) (?j\<lparr>j_nosave := True\<rparr>))) = rev (map (cookie_view j) (persistent env j))"
    by simp
  have f: "j_file ?j = Some (concat (map (cookie_line j) (persistent env j)))"
    using assms(10) by (simp add: done_cookies_nosave saved)
  have view: "cookie_view (j\<lparr>j_nosave := b\<rparr>) = cookie_view j" for j b
    by (rule ext) (simp add: cookie_view_def server_host_def)
  have "load_cookies env' j' = load_lines env' (concat (map (cookie_line j) (persistent env j))) (?j\<lparr>j_nosave := True\<rparr>)\<lparr>j_nosave := False\<rparr>"
    using assms(12,14) by (simp add: load_cookies_def Let_def f)
  with lines show ?thesis
    by (simp only: view) simp
qed

section \<open>Properties\<close>

definition bank_jar :: jar where
  "bank_jar = set_cookie sample_jar_env (web_page ''notbank.com'') bank_reply (empty_jar None)"

lemmas bank_jar_eq = bank_jar_def [unfolded bank_cookie]

lemma bank_jar_reachable: "jar_reachable plain bank_jar"
proof -
  have "NUL \<notin> set bank_reply" "NUL \<notin> set (u_string (web_page ''notbank.com''))"
    by (simp_all add: bank_reply_def web_page_sel NUL_def)
  then show ?thesis
    unfolding bank_jar_def by (rule jr_step [OF jr_start js_reply [OF sample_fresh]])
qed



text \<open>C7: The header that \<^verbatim>\<open>send_cookies\<close> makes for a request consists of exactly the cookies whose domain is the host of the
  URI or behind one of its dots, whose path begins the path of the URI, that have not expired and that are not kept for https when
  the protocol is another one, in the order of the list; the cookies that match and have expired are deleted and no other. It never
  reads a path that is missing. So it is in every state that replies, requests, answers, deletions, edits of other things
  than a domain and the file lead to, while there is memory for the list of domains.\<close>

theorem sent_cookies_exact:
  assumes "jar_reachable True j" "u_host u \<noteq> None" "u_data u \<noteq> None" "NUL \<notin> set (uri_host u)"
    and "path = add_uri_to_string (je_idn env) u URI_PATH"
  shows "\<exists>j'. send_cookies env u j =
       Some (let cs = filter (cookie_sent env u path) (j_cookies j)
             in if cs = [] then None else Some (join_strings ''; '' (map name_value cs)), j') \<and>
     j_cookies j' = filter (\<lambda>c. \<not> (cookie_matches u path c \<and> cookie_expired env c)) (j_cookies j)"
proof -
  have t: "jar_tidy j"
    using reachable_tidy [OF assms(1)] by simp
  then have "list_all cookie_ok (j_cookies j)" "domains_listed j"
    by (auto simp: jar_tidy_def held_def list_all_iff)
  then show ?thesis
    by (rule send_cookies_spec [OF assms(2-4) _ _ assms(5)])
qed

lemma web_page_in_domain:
  "domain_match ''bank.com'' ''bank.com''" "domain_match ''bank.com'' ''www.bank.com''" "\<not> cookie_expired sample_jar_env c \<longleftrightarrow> ck_expires c = 0 \<or> ck_expires c > 1000000000"
  by (auto simp: domain_match_def cookie_expired_def sample_jar_env_def c_tolower_def c_isupper_def ccode_def)

theorem sent_cookies_exact_witness:
  "\<exists>j'. send_cookies sample_jar_env (web_page ''www.bank.com'') bank_jar = Some (Some ''id=1'', j')"
proof -
  have nul: "NUL \<notin> set (uri_host (web_page ''www.bank.com''))"
    by (simp add: web_page_host NUL_def)
  have "filter (cookie_sent sample_jar_env (web_page ''www.bank.com'') ''/'') (j_cookies bank_jar) = j_cookies bank_jar"
    using web_page_in_domain by (simp add: bank_jar_eq cookie_sent_def cookie_matches_def web_page_host)
  with sent_cookies_exact [OF bank_jar_reachable _ _ nul refl, of sample_jar_env] show ?thesis
    by (auto simp: web_page_simps bank_jar_eq name_value_def)
qed

text \<open>What a reply of a longer host gets through for the domain it asks for.\<close>

lemma domain_security_end:
  assumes "NUL \<notin> set d" "p \<noteq> []" "rd d 0 \<noteq> CHR ''.''" "\<not> is_ip_address (je_inet_pton env) (p @ d)"
  shows "is_domain_security_ok env d (p @ d) \<longleftrightarrow> need_dots env d \<le> length (filter (\<lambda>c. c = CHR ''.'') d)"
  using assms c_strncasecmp_eq [OF assms(1,1), of "length d"] by (simp add: is_domain_security_ok_def Let_def)

lemma domain_match_end:
  assumes "last p \<noteq> CHR ''.''" "p \<noteq> []"
  shows "\<not> domain_match d (p @ d)"
proof -
  obtain q x where p: "p = q @ [x]" "x \<noteq> CHR ''.''"
    using assms by (metis append_butlast_last_id)
  then show ?thesis
    using tolower_dot [of x] by (auto simp: domain_match_def append_eq_append_conv2 append_eq_Cons_conv)
qed



text \<open>The end of the host that the check of a domain compares.\<close>

definition strip_dot :: "string \<Rightarrow> string" where
  "strip_dot d = (if rd d 0 = CHR ''.'' then drop 1 d else d)"

lemma need_dots_pos: "0 < need_dots env d"
  by (simp add: need_dots_def Let_def)

lemma domain_security_suffix:
  assumes "NUL \<notin> set d" "NUL \<notin> set h" "is_domain_security_ok env d h"
  shows "\<exists>p. map c_tolower h = p @ map c_tolower (strip_dot d) \<and>
     (p = [] \<or> CHR ''.'' \<in> set (strip_dot d) \<and> \<not> is_ip_address (je_inet_pton env) h)"
proof -
  let ?d = "strip_dot d" and ?k = "length h - length (strip_dot d)"
  have dots: "need_dots env ?d \<le> length (filter (\<lambda>c. c = CHR ''.'') ?d) \<Longrightarrow> CHR ''.'' \<in> set ?d"
    using need_dots_pos [of env ?d] by (cases "filter (\<lambda>c. c = CHR ''.'') ?d = []") (auto simp: filter_empty_conv)
  have len: "length ?d \<le> length h" and cmp: "c_strncasecmp ?d (drop ?k h) (length ?d) = 0"
    and rest: "length h = length ?d \<or> \<not> is_ip_address (je_inet_pton env) h \<and> CHR ''.'' \<in> set ?d"
    using assms(3) dots unfolding is_domain_security_ok_def strip_dot_def [symmetric] Let_def
    by (auto split: if_splits)
  have nul: "NUL \<notin> set ?d" "NUL \<notin> set (drop ?k h)"
    using assms(1,2) by (auto simp: strip_dot_def dest: in_set_dropD)
  have "map c_tolower (drop ?k h) = map c_tolower ?d"
    using cmp c_strncasecmp_eq [OF nul, of "length ?d"] len by simp
  then have "map c_tolower h = map c_tolower (take ?k h) @ map c_tolower ?d"
    by (metis append_take_drop_id map_append)
  with rest show ?thesis
    by (intro exI [of _ "map c_tolower (take ?k h)"]) auto
qed

text \<open>C10: A reply can make the program keep only cookies for the domain of its own host, or for a domain that, less one leading dot
  (\<open>strip_dot\<close>), is that host or an end of it up to case; a proper end has to contain a dot, and is not accepted when the host is an IP address. Each cookie that is in the lists
  after \<^verbatim>\<open>set_cookie\<close> was there before or has such a domain. (Of several leading dots all but the first stay: \<^verbatim>\<open>..a.b\<close> is kept as \<^verbatim>\<open>.a.b\<close> for the
  host \<^verbatim>\<open>xa.b\<close>.)\<close>

theorem reply_domain_suffix:
  assumes "NUL \<notin> set str" "NUL \<notin> set (u_string u)" "c \<in># held (set_cookie env u str j)"
  shows "c \<in># held j \<or> ck_domain c = uri_host u \<or>
     (\<exists>p. map c_tolower (uri_host u) = p @ map c_tolower (strip_dot (ck_domain c)) \<and>
       (p = [] \<or> CHR ''.'' \<in> set (strip_dot (ck_domain c)) \<and> \<not> is_ip_address (je_inet_pton env) (uri_host u)))"
proof -
  let ?new = "\<lambda>c. ck_domain c = uri_host u \<or> is_domain_security_ok env (ck_domain c) (uri_host u)"
  have g: "held j1 = held j" if "get_cookie_server env (uri_host u) j = (Some a, j1)" for a j1
    using get_cookie_server_fields [OF that] by (simp add: held_def)
  have a: "c \<in># held (accept_cookie env d j1) \<Longrightarrow> c \<in># held j1 \<or> c = d" for d j1
    by (auto simp: held_set accept_cookie_lists)
  have q: "c \<in># held (j1\<lparr>j_queries := d # j_queries j1\<rparr>) \<Longrightarrow> c \<in># held j1 \<or> c = d" for d and j1 :: jar
    by (auto simp: held_set)
  have ds: "held (done_cookie_server a j1) = held j1" for a j1
    by (simp add: held_def)
  have "c \<in># held j \<or> (\<exists>cstr a. c = reply_cookie env u str cstr a)"
    using set_cookie_cases [of env u str j] assms(3) g a q ds by (fastforce simp: Let_def split: if_splits)
  moreover have "?new (reply_cookie env u str cstr a)" for cstr a
    by (simp add: reply_cookie_def Let_def)
  moreover have "NUL \<notin> set (ck_domain (reply_cookie env u str cstr a))" for cstr a
    using reply_cookie_ok [OF assms(1,2)] by (simp add: cookie_ok_def)
  moreover have "NUL \<notin> set (uri_host u)"
    using assms(2) uri_host_set by blast
  ultimately show ?thesis
    using domain_security_suffix [of "ck_domain c" "uri_host u" env] by metis
qed

theorem reply_domain_suffix_witness:
  "\<exists>c p. held bank_jar = {#c#} \<and> map c_tolower ''notbank.com'' = p @ map c_tolower (strip_dot (ck_domain c)) \<and> p \<noteq> []"
proof -
  obtain c where c: "held bank_jar = {#c#}" "ck_domain c = ''bank.com''"
    by (simp add: bank_jar_eq held_def)
  have nul: "NUL \<notin> set bank_reply" "NUL \<notin> set (u_string (web_page ''notbank.com''))"
    by (simp_all add: bank_reply_def web_page_sel NUL_def)
  have m: "c \<in># held (set_cookie sample_jar_env (web_page ''notbank.com'') bank_reply (empty_jar None))" and e: "held (empty_jar None) = {#}"
    using c(1) by (simp_all add: bank_jar_def) (simp add: empty_jar_def held_def)
  obtain p where "map c_tolower ''notbank.com'' = p @ map c_tolower (strip_dot (ck_domain c))"
    using reply_domain_suffix [OF nul m] unfolding e web_page_host c(2) by auto
  moreover from this have "p \<noteq> []"
    by (auto simp: c(2) strip_dot_def c_tolower_def c_isupper_def ccode_def)
  ultimately show ?thesis
    using c(1) by blast
qed

text \<open>A cookie that is added in the manager has no path. When the user gives it a domain for which there are cookies, the
  next request to a host of the domain reads the missing path through a null pointer.\<close>

theorem manager_cookie_faults:
  "send_cookies sample_jar_env (web_page ''bank.com'') (set_cookie_domain 0 ''bank.com'' (push_add_button sample_jar_env 1 bank_jar)) = None"
proof -
  have cmp: "c_strcasecmp ''id'' [] \<noteq> 0" "c_strcasecmp ''bank.com'' [] \<noteq> 0" "is_in_domain ''bank.com'' ''bank.com''"
    by code_simp+
  let ?j = "set_cookie_domain 0 ''bank.com'' (push_add_button sample_jar_env 1 bank_jar)"
  have "ck_path (hd (j_cookies ?j)) = None \<and> ck_domain (hd (j_cookies ?j)) = ''bank.com'' \<and> j_cookies ?j \<noteq> [] \<and> ''bank.com'' \<in> set (j_domains ?j)"
    using cmp by (simp add: set_cookie_domain_def edit_cookie_def push_add_button_def accept_cookie_lists bank_jar_eq replaces_def)
  then show ?thesis
    using cmp(3) by (cases "j_cookies ?j") (auto simp: send_cookies_def web_page_simps)
qed

definition saved_jar :: jar where
  "saved_jar = set_cookie_expires 0 ''2000000000'' bank_jar"

lemma saved_jar_eq:
  "saved_jar = \<lparr>j_cookies = [\<lparr>ck_name = ''id'', ck_value = ''1'', ck_path = Some ''/'', ck_domain = ''bank.com'', ck_server = 1, ck_expires = 2000000000, ck_secure = False\<rparr>],
    j_queries = [], j_asked = [], j_domains = [''bank.com''], j_servers = [\<lparr>sv_addr = 1, sv_host = ''notbank.com'', sv_refs = 1\<rparr>],
    j_dirty = True, j_nosave = False, j_resave = True, j_file = None\<rparr>"
proof -
  have "strtol10 ''2000000000'' = (2000000000, 10, False)"
    by code_simp
  then show ?thesis
    by (simp add: saved_jar_def set_cookie_expires_def edit_cookie_def bank_jar_eq set_cookies_dirty_def)
qed

theorem saved_cookies_return_witness:
  "map (cookie_view (load_cookies sample_jar_env (save_cookies sample_jar_env saved_jar)))
       (j_cookies (load_cookies sample_jar_env (save_cookies sample_jar_env saved_jar))) =
     [(''id'', ''1'', ''notbank.com'', ''/'', ''bank.com'', 2000000000, False)]"
proof -
  have line: "list_all no_sep (take 5 (cookie_fields saved_jar (hd (j_cookies saved_jar))))"
    by (simp add: saved_jar_eq cookie_fields_def no_sep_def server_host_def ascii_defs NUL_def)
  have "length (cookie_line saved_jar (hd (j_cookies saved_jar))) < 100"
    using num_len_least [of 10 10 2000000000] by (simp add: saved_jar_eq cookie_line_def server_host_def show_long_def)
  with line have st: "list_all (storable saved_jar) (persistent sample_jar_env saved_jar)"
    by (simp add: storable_def persistent_def saved_jar_eq sample_jar_env_def MAX_STR_LEN_def)
  have "jar_reachable True saved_jar"
    unfolding saved_jar_def by (rule jr_step [OF bank_jar_reachable js_expires])
  then have r: "jar_reachable True (save_cookies sample_jar_env saved_jar)"
    by (rule jr_step [OF _ js_save])
  have late: "\<forall>c\<in>set (persistent sample_jar_env saved_jar). je_now sample_jar_env < ck_expires c"
    by (simp add: persistent_def)
  have env: "je_home sample_jar_env" "\<not> je_anonymous sample_jar_env" "je_open sample_jar_env" "\<forall>t. je_write sample_jar_env t"
      "\<forall>j. je_mem_server sample_jar_env j \<noteq> None" "j_dirty saved_jar" "\<not> j_nosave saved_jar"
    by (simp_all add: sample_jar_env_def saved_jar_eq)
  have "map c_tolower ''notbank.com'' = ''notbank.com''"
    by code_simp
  then have "rev (map (cookie_view saved_jar) (persistent sample_jar_env saved_jar)) = [(''id'', ''1'', ''notbank.com'', ''/'', ''bank.com'', 2000000000, False)]"
    by (simp add: persistent_def saved_jar_eq cookie_view_def server_host_def sample_jar_env_def)
  with saved_cookies_return [OF env(1,2) sample_env_memory(3) env(3,4,6,7) st r refl sample_fresh env(1) sample_env_memory(1,3) env(5) late]
  show ?thesis
    by simp
qed

text \<open>A value may have blanks in it, also tabs, which end the members of a line of the file.\<close>

definition forged_value :: string where
  "forged_value = ''1'' @ [ASCII_TAB] @ ''evil.org'' @ [ASCII_TAB] @ ''/'' @ [ASCII_TAB] @ ''bank.com'' @ [ASCII_TAB] @ ''2000000000'' @ [ASCII_TAB] @ ''0''"

definition forged_reply :: string where
  "forged_reply = ''id='' @ forged_value @ ''; expires=Fri, 01 Jan 2038 00:00:00 GMT''"

lemma forged_parts:
  "parse_header_param forged_reply ''domain'' = None" "parse_header_param forged_reply ''path'' = None"
  "parse_header_param forged_reply ''secure'' = None" "parse_header_param forged_reply ''expires'' = Some ''Fri, 01 Jan 2038 00:00:00 GMT''"
  "parse_cookie_str forged_reply = Some \<lparr>nam_end = 2, val_start = 3, val_end = 37\<rparr>"
  "is_domain_security_ok sample_jar_env ''evil.org'' ''evil.org''"
  by code_simp+

lemma forged_expires: "fst (parse_date (Some ''Fri, 01 Jan 2038 00:00:00 GMT'') 0 None False True) = 2145916800"
  by code_simp


definition forged_jar :: jar where
  "forged_jar = set_cookie sample_jar_env (web_page ''evil.org'') forged_reply (empty_jar None)"

lemma forged_jar_eq:
  "forged_jar = \<lparr>j_cookies = [\<lparr>ck_name = ''id'', ck_value = forged_value, ck_path = Some ''/'', ck_domain = ''evil.org'', ck_server = 1,
      ck_expires = 2145916800, ck_secure = False\<rparr>],
    j_queries = [], j_asked = [], j_domains = [''evil.org''], j_servers = [\<lparr>sv_addr = 1, sv_host = ''evil.org'', sv_refs = 1\<rparr>],
    j_dirty = True, j_nosave = False, j_resave = True, j_file = None\<rparr>"
proof -
  have "take 2 forged_reply = ''id''" "take (37 - 3) (drop 3 forged_reply) = forged_value"
    by code_simp+
  then show ?thesis
    using forged_parts forged_expires
    by (simp add: forged_jar_def set_cookie_def web_page_simps get_cookie_server_def empty_jar_def sample_jar_env_def cookie_path_def
        cookie_expires_def accept_cookie_def delete_cookies_def set_cookies_dirty_def Let_def)
qed

text \<open>The fields of a line that has more members than it should; the rest goes to the last.\<close>

lemma find_members_more:
  assumes "list_all no_sep [a, b, c, d, e, f, g]"
  shows "\<exists>ms. find_members 7 (join_strings [ASCII_TAB] [a, b, c, d, e, f, g] @ ASCII_TAB # r) = Some ms \<and> map (member ms) [0, 1, 2, 3, 4] = [a, b, c, d, e] \<and>
     fst (ms ! 5) = f @ ASCII_TAB # g @ ASCII_TAB # r"
proof -
  have t: "ASCII_TAB \<notin> set a" "ASCII_TAB \<notin> set b" "ASCII_TAB \<notin> set c" "ASCII_TAB \<notin> set d" "ASCII_TAB \<notin> set e" "ASCII_TAB \<notin> set f" "ASCII_TAB \<notin> set g"
    using assms by (simp_all add: no_sep_def)
  have "join_strings [ASCII_TAB] [a, b, c, d, e, f, g] @ ASCII_TAB # r =
      a @ ASCII_TAB # b @ ASCII_TAB # c @ ASCII_TAB # d @ ASCII_TAB # e @ ASCII_TAB # f @ ASCII_TAB # g @ ASCII_TAB # r"
    by simp
  moreover have "(7::nat) = Suc (Suc (Suc (Suc (Suc (Suc (Suc 0))))))"
    by simp
  ultimately show ?thesis
    by (simp only: find_members_step [OF t(1)] find_members_step [OF t(2)] find_members_step [OF t(3)] find_members_step [OF t(4)]
        find_members_step [OF t(5)] find_members_step [OF t(6)] find_members_step [OF t(7)] find_members.simps(1) option.map) (simp add: member_def)
qed

text \<open>C33: The file of cookies can be forged by a reply: a tab in the value of a cookie is kept, and when the line of the cookie is
  read back what follows it is taken for the members that come after the value. A cookie of \<^verbatim>\<open>evil.org\<close> returns as one for
  \<^verbatim>\<open>bank.com\<close>, a domain that the reply could not have asked for.\<close>

theorem value_forges_cookie:
  "is_domain_security_ok sample_jar_env ''bank.com'' ''evil.org'' = False \<and>
   map ck_domain (j_cookies (load_cookies sample_jar_env (save_cookies sample_jar_env
     (set_cookie sample_jar_env (web_page ''evil.org'') forged_reply (empty_jar None))))) = [''bank.com'']"
proof -
  have sep: "list_all no_sep [''id'', ''1'', ''evil.org'', ''/'', ''bank.com'', ''2000000000'', ''0'']"
    by (simp add: no_sep_def ascii_defs NUL_def)
  let ?c = "hd (j_cookies forged_jar)" and ?d = "show_long 2145916800"
  let ?r = "''evil.org'' @ [ASCII_TAB] @ ''/'' @ [ASCII_TAB] @ ''evil.org'' @ [ASCII_TAB] @ ?d @ [ASCII_TAB] @ ''0''"
  let ?l = "join_strings [ASCII_TAB] [''id'', ''1'', ''evil.org'', ''/'', ''bank.com'', ''2000000000'', ''0''] @ ASCII_TAB # ?r"
  have d: "no_sep ?d" "length ?d \<le> 10"
    using digits_shown [of 2145916800] no_sep_digits num_len_least [of 10 10 2145916800] by (simp_all add: show_long_def)
  have line: "cookie_line forged_jar ?c = ?l @ [ASCII_LF]"
    by (simp add: forged_jar_eq cookie_line_def server_host_def forged_value_def)
  have nolf: "ASCII_LF \<notin> set ?l" "NUL \<notin> set ?l"
    using d(1) by (simp_all add: no_sep_def ascii_defs NUL_def)
  have len: "length ?l + 1 < 6 * MAX_STR_LEN"
    using d(2) by (simp add: MAX_STR_LEN_def)
  let ?j = "done_cookies sample_jar_env (save_cookies sample_jar_env forged_jar\<lparr>j_nosave := True\<rparr>)\<lparr>j_nosave := True\<rparr>"
  have "persistent sample_jar_env forged_jar = [?c]"
    by (simp add: persistent_def forged_jar_eq sample_jar_env_def)
  then have f: "j_file (save_cookies sample_jar_env forged_jar) = Some (?l @ [ASCII_LF])"
    unfolding line [symmetric]
    by (simp add: save_cookies_def persistent_def [symmetric] Let_def) (simp add: forged_jar_eq sample_jar_env_def)
  have one: "load_lines sample_jar_env (?l @ [ASCII_LF]) ?j = load_line sample_jar_env (?l @ [ASCII_LF]) ?j"
    using read_line [OF nolf(1) len, of "[]"]
    by (simp only: load_lines.simps [of _ "?l @ [ASCII_LF]"] append_Nil2 take_all drop_all le_refl load_lines.simps [of _ "[]"] if_True)
      (simp del: join_strings.simps)
  have "takeWhile (\<lambda>c. c \<noteq> NUL) (?l @ [ASCII_LF]) = ?l @ [ASCII_LF]"
    using nolf(2) by (auto simp: takeWhile_eq_all_conv simp del: join_strings.simps)
  moreover obtain ms where ms: "find_members 7 (?l @ [ASCII_LF]) = Some ms" "map (member ms) [0, 1, 2, 3, 4] = [''id'', ''1'', ''evil.org'', ''/'', ''bank.com'']"
      "fst (ms ! 5) = ''2000000000'' @ ASCII_TAB # ''0'' @ ASCII_TAB # ?r @ [ASCII_LF]"
    using find_members_more [OF sep, of "?r @ [ASCII_LF]"] by (simp del: join_strings.simps) blast
  moreover have "fst (strtol10 (fst (ms ! 5))) = 2000000000"
    using strtol10_prefix [of "''2000000000''" ASCII_TAB "''0'' @ ASCII_TAB # ?r @ [ASCII_LF]"] ms(3)
    by (simp add: c_isdigit_def ascii_defs dec_val_def digit_val_def)
  moreover obtain a j1 where g: "get_cookie_server sample_jar_env ''evil.org'' ?j = (Some a, j1)"
    using get_cookie_server_some [of sample_jar_env ?j "''evil.org''"]
    by (cases "get_cookie_server sample_jar_env ''evil.org'' ?j") (auto simp: sample_jar_env_def)
  ultimately have "map ck_domain (j_cookies (load_line sample_jar_env (?l @ [ASCII_LF]) ?j)) = [''bank.com'']"
    using get_cookie_server_fields [OF g]
    by (simp add: load_line_def accept_cookie_lists Let_def del: join_strings.simps) (simp add: sample_jar_env_def)
  moreover have "is_domain_security_ok sample_jar_env ''bank.com'' ''evil.org'' = False"
    by code_simp
  moreover have home: "je_home sample_jar_env"
    by (simp add: sample_jar_env_def)
  have "j_file (done_cookies sample_jar_env (save_cookies sample_jar_env forged_jar\<lparr>j_nosave := True\<rparr>)) = Some (?l @ [ASCII_LF])"
    by (simp add: done_cookies_nosave f del: join_strings.simps)
  then have "load_cookies sample_jar_env (save_cookies sample_jar_env forged_jar) = load_lines sample_jar_env (?l @ [ASCII_LF]) ?j\<lparr>j_nosave := False\<rparr>"
    by (simp add: load_cookies_def Let_def home del: join_strings.simps)
  ultimately show ?thesis
    unfolding forged_jar_def [symmetric] one by simp
qed

end
