(* ===== verification/Scanner.thy ===== *)
theory Scanner
  imports Conv
begin

text \<open>
  \<^verbatim>\<open>elinks/src/util/scanner.h\<close> and \<^verbatim>\<open>scanner.c\<close>: the scanner that the parsers of bencoded data and of style sheets
  share. It keeps a table of tokens that were scanned ahead and fills it when only one is left. The
  function that scans one token is a parameter, as \<^verbatim>\<open>scanner_info->scan\<close> is in the code; it takes an offset into the text and
  gives the token and the offset behind it. A position that is NULL is \<open>None\<close>.
\<close>

section \<open>Tokens and the table\<close>

record 'k token =
  tk_type :: 'k
  tk_pos :: nat
  tk_len :: nat

definition SCANNER_TOKENS :: nat where
  "SCANNER_TOKENS = 10"

record 'k scanner =
  sc_position :: "nat option"
  sc_end :: nat
  sc_current :: nat
  sc_tokens :: int
  sc_table :: "'k token list"

definition scanner_has_tokens :: "'k scanner \<Rightarrow> bool" where
  "scanner_has_tokens sc \<longleftrightarrow> sc_tokens sc > 0 \<and> int (sc_current sc) < sc_tokens sc"

definition get_scanner_token :: "'k scanner \<Rightarrow> 'k token option" where
  "get_scanner_token sc = (if scanner_has_tokens sc then Some (sc_table sc ! sc_current sc) else None)"

text \<open>The flag says whether more tokens have to be scanned; \<open>zero\<close> is the token of zero bytes.\<close>

definition begin_token_scanning :: "'k token \<Rightarrow> 'k scanner \<Rightarrow> bool \<times> 'k scanner" where
  "begin_token_scanning zero sc =
     (let move_to_front = nat (max (sc_tokens sc - int (sc_current sc)) 0);
          sc = sc\<lparr>sc_table := take move_to_front (drop (sc_current sc) (sc_table sc)) @ replicate (SCANNER_TOKENS - move_to_front) zero\<rparr>
      in case sc_position sc of
           None \<Rightarrow> (False, sc\<lparr>sc_tokens := (if move_to_front > 0 then int move_to_front else -1), sc_current := 0\<rparr>)
         | Some _ \<Rightarrow> (True, sc\<lparr>sc_tokens := int move_to_front\<rparr>))"

definition end_token_scanning :: "int \<Rightarrow> 'k scanner \<Rightarrow> 'k scanner" where
  "end_token_scanning e sc =
     sc\<lparr>sc_tokens := e, sc_current := 0,
        sc_position := (case sc_position sc of None \<Rightarrow> None | Some p \<Rightarrow> if p \<ge> sc_end sc then None else Some p)\<rparr>"

text \<open>The loop that fills the table, from the entry \<open>k\<close> on; it gives the entry at which it stops. A token of type
  \<open>none\<close> ends the scanning, and the entry before it is the one that is given back.\<close>

function fill_table :: "'k \<Rightarrow> (nat \<Rightarrow> 'k token \<times> nat) \<Rightarrow> nat \<Rightarrow> 'k scanner \<Rightarrow> int \<times> 'k scanner" where
  "fill_table none scan k sc =
     (case sc_position sc of
        None \<Rightarrow> (int k, sc)
      | Some p \<Rightarrow>
          if k < SCANNER_TOKENS \<and> p < sc_end sc then
            (case scan p of (t, p') \<Rightarrow>
               let sc = sc\<lparr>sc_table := (sc_table sc)[k := t], sc_position := Some p'\<rparr>
               in if tk_type t = none then (int k - 1, sc\<lparr>sc_position := None\<rparr>)
                  else fill_table none scan (k + 1) sc)
          else (int k, sc))"
  by auto
termination
  by (relation "measure (\<lambda>(none, scan, k, sc). SCANNER_TOKENS - k)") auto

declare fill_table.simps [simp del]

text \<open>The \<^verbatim>\<open>scan\<close> function of a scanner.\<close>

definition scan_tokens :: "'k token \<Rightarrow> (nat \<Rightarrow> 'k token \<times> nat) \<Rightarrow> 'k scanner \<Rightarrow> 'k scanner" where
  "scan_tokens zero scan sc =
     (case begin_token_scanning zero sc of
        (False, sc) \<Rightarrow> sc
      | (True, sc) \<Rightarrow> (case fill_table (tk_type zero) scan (nat (sc_tokens sc)) sc of (e, sc) \<Rightarrow> end_token_scanning e sc))"

definition get_next_scanner_token :: "'k token \<Rightarrow> (nat \<Rightarrow> 'k token \<times> nat) \<Rightarrow> 'k scanner \<Rightarrow> 'k token option \<times> 'k scanner" where
  "get_next_scanner_token zero scan sc =
     (if \<not> scanner_has_tokens sc then (None, sc)
      else
        let sc = sc\<lparr>sc_current := sc_current sc + 1\<rparr>;
            sc = (if int (sc_current sc) + 1 \<ge> sc_tokens sc then scan_tokens zero scan sc else sc)
        in (get_scanner_token sc, sc))"

definition init_scanner :: "'k token \<Rightarrow> (nat \<Rightarrow> 'k token \<times> nat) \<Rightarrow> nat \<Rightarrow> 'k scanner" where
  "init_scanner zero scan e =
     scan_tokens zero scan \<lparr>sc_position = Some 0, sc_end = e, sc_current = 0, sc_tokens = 0, sc_table = replicate SCANNER_TOKENS zero\<rparr>"

section \<open>The stream of tokens\<close>

text \<open>All tokens of the text from a position on, up to one of the type \<open>none\<close>.\<close>

function all_tokens :: "'k \<Rightarrow> (nat \<Rightarrow> 'k token \<times> nat) \<Rightarrow> nat \<Rightarrow> nat \<Rightarrow> 'k token list" where
  "all_tokens none scan e p =
     (if p < e then
        (case scan p of (t, p') \<Rightarrow> if tk_type t = none \<or> p' \<le> p then [t] else t # all_tokens none scan e p')
      else [])"
  by auto
termination
  by (relation "measure (\<lambda>(none, scan, e, p). e - p)") auto

declare all_tokens.simps [simp del]

text \<open>What a parser sees of them: a token that cannot be scanned takes the one before it along.\<close>

definition visible :: "'k \<Rightarrow> 'k token list \<Rightarrow> 'k token list" where
  "visible none ts = (if ts \<noteq> [] \<and> tk_type (last ts) = none then butlast (butlast ts) else ts)"

definition stream :: "'k \<Rightarrow> (nat \<Rightarrow> 'k token \<times> nat) \<Rightarrow> 'k scanner \<Rightarrow> 'k token list" where
  "stream none scan sc =
     (let ahead = drop (sc_current sc) (take (nat (sc_tokens sc)) (sc_table sc))
      in case sc_position sc of None \<Rightarrow> ahead | Some p \<Rightarrow> visible none (ahead @ all_tokens none scan (sc_end sc) p))"

text \<open>Between the operations the table is full and has a token to look ahead, or the text has been scanned.\<close>

definition scanner_ok :: "'k \<Rightarrow> 'k scanner \<Rightarrow> bool" where
  "scanner_ok none sc \<longleftrightarrow>
     length (sc_table sc) = SCANNER_TOKENS \<and> sc_tokens sc \<le> int SCANNER_TOKENS \<and>
     (\<forall>t\<in>set (take (nat (sc_tokens sc)) (sc_table sc)). tk_type t \<noteq> none) \<and>
     (case sc_position sc of
        None \<Rightarrow> True
      | Some p \<Rightarrow> p < sc_end sc \<and> sc_tokens sc = int SCANNER_TOKENS \<and> sc_current sc + 1 < SCANNER_TOKENS)"

definition scan_advances :: "'k \<Rightarrow> (nat \<Rightarrow> 'k token \<times> nat) \<Rightarrow> bool" where
  "scan_advances none scan \<longleftrightarrow> (\<forall>p. tk_type (fst (scan p)) \<noteq> none \<longrightarrow> p < snd (scan p))"

section \<open>The table implements the stream\<close>

lemma visible_id: "\<forall>t\<in>set ts. tk_type t \<noteq> none \<Longrightarrow> visible none ts = ts"
  by (auto simp: visible_def)

lemma visible_bad: "tk_type t = none \<Longrightarrow> visible none (ts @ [t]) = butlast ts"
  by (simp add: visible_def)

lemma visible_Cons: "xs \<noteq> [] \<Longrightarrow> tk_type (hd xs) \<noteq> none \<Longrightarrow> visible none (x # xs) = x # visible none xs"
  by (cases xs; cases "tl xs") (auto simp: visible_def)

lemma fill_table_end: "sc_end (snd (fill_table none scan k sc)) = sc_end sc"
  by (induction none scan k sc rule: fill_table.induct)
    (subst fill_table.simps, auto split: option.split prod.split simp: Let_def)

lemma fill_table_stream:
  assumes "length (sc_table sc) = SCANNER_TOKENS" "k \<le> SCANNER_TOKENS" "\<forall>t\<in>set (take k (sc_table sc)). tk_type t \<noteq> none"
    and "sc_position sc = Some p" "scan_advances none scan" "fill_table none scan k sc = (e, sc')"
  shows "scanner_ok none (end_token_scanning e sc') \<and>
     stream none scan (end_token_scanning e sc') = visible none (take k (sc_table sc) @ all_tokens none scan (sc_end sc) p)"
  using assms
proof (induction none scan k sc arbitrary: p e sc' rule: fill_table.induct)
  case (1 none scan k sc)
  note prems = "1.prems"
  obtain t p' where t: "scan p = (t, p')"
    by fastforce
  let ?sc = "sc\<lparr>sc_table := (sc_table sc)[k := t], sc_position := Some p'\<rparr>"
  show ?case
  proof (cases "k < SCANNER_TOKENS \<and> p < sc_end sc")
    case False
    have fin: "e = int k" "sc' = sc"
      using prems(4,6) False by (auto simp: fill_table.simps [of none scan k sc])
    have "all_tokens none scan (sc_end sc) p = []" if "\<not> p < sc_end sc"
      using that by (simp add: all_tokens.simps [of none scan "sc_end sc" p])
    with fin prems(1-4) False show ?thesis
      by (auto simp: end_token_scanning_def scanner_ok_def stream_def visible_id SCANNER_TOKENS_def)
  next
    case True
    show ?thesis
    proof (cases "tk_type t = none")
      case bad: True
      have fin: "e = int k - 1" "sc' = ?sc\<lparr>sc_position := None\<rparr>"
        using prems(4,6) True bad by (auto simp: fill_table.simps [of none scan k sc] t Let_def)
      have "take (nat (int k - 1)) ((sc_table sc)[k := t]) = butlast (take k (sc_table sc))"
        using prems(1,2) by (cases k) (simp_all add: butlast_take)
      moreover have "set (butlast (take k (sc_table sc))) \<subseteq> set (take k (sc_table sc))"
        by (auto dest: in_set_butlastD)
      ultimately show ?thesis
        using prems(1-3) True bad fin
        by (auto simp: end_token_scanning_def scanner_ok_def stream_def visible_bad all_tokens.simps [of none scan "sc_end sc" p] t)
    next
      case good: False
      have fin: "fill_table none scan (k + 1) ?sc = (e, sc')"
        using prems(4,6) True good by (auto simp: fill_table.simps [of none scan k sc] t Let_def)
      have tk: "take (k + 1) (sc_table ?sc) = take k (sc_table sc) @ [t]"
        using prems(1) True by (simp add: take_Suc_conv_app_nth)
      have "p < p'"
        using prems(5) good t by (auto simp: scan_advances_def dest: spec [of _ p])
      then have all: "all_tokens none scan (sc_end sc) p = t # all_tokens none scan (sc_end sc) p'"
        using True good by (simp add: all_tokens.simps [of none scan "sc_end sc" p] t)
      have "\<forall>t\<in>set (take (k + 1) (sc_table ?sc)). tk_type t \<noteq> none"
        unfolding tk using prems(3) good by simp
      from "1.IH" [OF prems(4) True t [symmetric] refl good _ _ this _ prems(5) fin] prems(1) True
      show ?thesis
        unfolding tk by (simp add: all)
    qed
  qed
qed

abbreviation head :: "'a list \<Rightarrow> 'a option" where
  "head xs \<equiv> (case xs of [] \<Rightarrow> None | x # _ \<Rightarrow> Some x)"

lemma stream_unscanned:
  "sc_position sc = None \<Longrightarrow> stream none scan sc = drop (sc_current sc) (take (nat (sc_tokens sc)) (sc_table sc))"
  by (simp add: stream_def)

lemma move_count: "nat (max (a - int b) 0) = nat a - b"
  by arith

lemma scan_tokens_stream:
  assumes "length (sc_table sc) = SCANNER_TOKENS" "sc_tokens sc \<le> int SCANNER_TOKENS" "scan_advances (tk_type zero) scan"
    and "\<forall>t\<in>set (take (nat (sc_tokens sc)) (sc_table sc)). tk_type t \<noteq> tk_type zero" "sc_position sc \<noteq> None"
  shows "scanner_ok (tk_type zero) (scan_tokens zero scan sc) \<and>
     stream (tk_type zero) scan (scan_tokens zero scan sc) = stream (tk_type zero) scan sc"
proof -
  obtain p where p: "sc_position sc = Some p"
    using assms(5) by blast
  define m where "m = nat (max (sc_tokens sc - int (sc_current sc)) 0)"
  define ts where "ts = take m (drop (sc_current sc) (sc_table sc))"
  have m: "m \<le> SCANNER_TOKENS" "length ts = m"
    using assms(1,2) by (auto simp: m_def ts_def)
  have ahead: "drop (sc_current sc) (take (nat (sc_tokens sc)) (sc_table sc)) = ts"
    by (simp add: ts_def m_def drop_take move_count)
  then have good: "\<forall>t\<in>set ts. tk_type t \<noteq> tk_type zero"
    using assms(4) by (metis in_set_dropD)
  let ?sc = "sc\<lparr>sc_table := ts @ replicate (SCANNER_TOKENS - m) zero, sc_tokens := int m\<rparr>"
  obtain e sc' where f: "fill_table (tk_type zero) scan m ?sc = (e, sc')"
    by fastforce
  have "begin_token_scanning zero sc = (True, ?sc)"
    by (simp add: begin_token_scanning_def p Let_def m_def ts_def)
  then have sc: "scan_tokens zero scan sc = end_token_scanning e sc'"
    by (simp add: scan_tokens_def f)
  show ?thesis
    using fill_table_stream [OF _ m(1) _ _ assms(3) f, of p] m good p by (simp add: sc stream_def ahead)
qed

lemma scan_tokens_done:
  assumes "length (sc_table sc) = SCANNER_TOKENS" "sc_tokens sc \<le> int SCANNER_TOKENS" "sc_position sc = None"
    and "\<forall>t\<in>set (take (nat (sc_tokens sc)) (sc_table sc)). tk_type t \<noteq> tk_type zero"
  shows "scanner_ok (tk_type zero) (scan_tokens zero scan sc) \<and>
     stream (tk_type zero) scan (scan_tokens zero scan sc) = stream (tk_type zero) scan sc"
proof -
  define m where "m = nat (max (sc_tokens sc - int (sc_current sc)) 0)"
  define ts where "ts = take m (drop (sc_current sc) (sc_table sc))"
  have m: "m \<le> SCANNER_TOKENS" "length ts = m"
    using assms(1,2) by (auto simp: m_def ts_def)
  have ahead: "drop (sc_current sc) (take (nat (sc_tokens sc)) (sc_table sc)) = ts"
    by (simp add: ts_def m_def drop_take move_count)
  then have good: "\<forall>t\<in>set ts. tk_type t \<noteq> tk_type zero"
    using assms(4) by (metis in_set_dropD)
  have "scan_tokens zero scan sc =
      sc\<lparr>sc_table := ts @ replicate (SCANNER_TOKENS - m) zero, sc_tokens := (if m > 0 then int m else -1), sc_current := 0\<rparr>"
    by (simp add: scan_tokens_def begin_token_scanning_def assms(3) Let_def m_def ts_def)
  with m good assms(3) show ?thesis
    by (auto simp: scanner_ok_def stream_def ahead)
qed

lemma get_token_head:
  assumes "scanner_ok none sc"
  shows "get_scanner_token sc = head (stream none scan sc)"
proof (cases "scanner_has_tokens sc")
  case True
  define ahead where "ahead = drop (sc_current sc) (take (nat (sc_tokens sc)) (sc_table sc))"
  have len: "sc_current sc < nat (sc_tokens sc)" "nat (sc_tokens sc) \<le> length (sc_table sc)"
    using True assms by (auto simp: scanner_has_tokens_def scanner_ok_def)
  then have hd: "ahead = sc_table sc ! sc_current sc # drop (sc_current sc + 1) (take (nat (sc_tokens sc)) (sc_table sc))"
    unfolding ahead_def by (simp add: Cons_nth_drop_Suc [symmetric])
  show ?thesis
  proof (cases "sc_position sc")
    case None
    with True hd show ?thesis
      by (simp add: get_scanner_token_def stream_unscanned ahead_def [symmetric])
  next
    case (Some p)
    let ?r = "drop (sc_current sc + 1) (take (nat (sc_tokens sc)) (sc_table sc))"
    have "?r \<noteq> []" "\<forall>t\<in>set ?r. tk_type t \<noteq> none"
      using assms Some len by (auto simp: scanner_ok_def dest!: in_set_dropD)
    then have "?r @ all_tokens none scan (sc_end sc) p \<noteq> []" "tk_type (hd (?r @ all_tokens none scan (sc_end sc) p)) \<noteq> none"
      by (cases ?r; simp)+
    with visible_Cons [OF this] True Some hd show ?thesis
      by (simp add: get_scanner_token_def stream_def ahead_def [symmetric] Let_def)
  qed
next
  case False
  with assms show ?thesis
    by (auto simp: scanner_ok_def scanner_has_tokens_def get_scanner_token_def stream_def SCANNER_TOKENS_def split: option.splits)
qed

lemma get_next_stream:
  assumes "scanner_ok (tk_type zero) sc" "scan_advances (tk_type zero) scan" "get_next_scanner_token zero scan sc = (r, sc')"
  shows "scanner_ok (tk_type zero) sc' \<and> stream (tk_type zero) scan sc' = tl (stream (tk_type zero) scan sc) \<and>
     r = head (tl (stream (tk_type zero) scan sc))"
proof (cases "scanner_has_tokens sc")
  case False
  then have "stream (tk_type zero) scan sc = []"
    using get_token_head [OF assms(1), of scan] by (auto simp: get_scanner_token_def split: list.splits)
  with False assms show ?thesis
    by (simp add: get_next_scanner_token_def)
next
  case True
  let ?k = "tk_type zero" and ?sc = "sc\<lparr>sc_current := sc_current sc + 1\<rparr>"
  define sc2 where "sc2 = (if int (sc_current ?sc) + 1 \<ge> sc_tokens ?sc then scan_tokens zero scan ?sc else ?sc)"
  have "get_next_scanner_token zero scan sc = (get_scanner_token sc2, sc2)"
    using True unfolding get_next_scanner_token_def sc2_def Let_def by (simp only: not_True_eq_False if_False)
  then have r: "r = get_scanner_token sc2" "sc' = sc2"
    using assms(3) by simp_all
  have len: "sc_current sc < nat (sc_tokens sc)" "nat (sc_tokens sc) \<le> length (sc_table sc)"
    using True assms(1) by (auto simp: scanner_has_tokens_def scanner_ok_def)
  have hd: "drop (sc_current sc) (take (nat (sc_tokens sc)) (sc_table sc)) =
      sc_table sc ! sc_current sc # drop (sc_current sc + 1) (take (nat (sc_tokens sc)) (sc_table sc))"
    using len by (simp add: Cons_nth_drop_Suc [symmetric])
  have tl: "stream ?k scan ?sc = tl (stream ?k scan sc)"
  proof (cases "sc_position sc")
    case None
    then show ?thesis
      by (simp add: stream_def hd)
  next
    case (Some p)
    let ?r = "drop (sc_current sc + 1) (take (nat (sc_tokens sc)) (sc_table sc))"
    have "?r \<noteq> []" "\<forall>t\<in>set ?r. tk_type t \<noteq> ?k"
      using assms(1) Some len by (auto simp: scanner_ok_def dest!: in_set_dropD)
    then have "?r @ all_tokens ?k scan (sc_end sc) p \<noteq> []" "tk_type (hd (?r @ all_tokens ?k scan (sc_end sc) p)) \<noteq> ?k"
      by (cases ?r; simp)+
    with visible_Cons [OF this] Some show ?thesis
      by (simp add: stream_def hd Let_def)
  qed
  have sc2: "scanner_ok ?k sc2 \<and> stream ?k scan sc2 = stream ?k scan ?sc"
  proof (cases "int (sc_current ?sc) + 1 \<ge> sc_tokens ?sc")
    case True
    with assms(1,2) scan_tokens_stream [of ?sc zero scan] scan_tokens_done [of ?sc zero scan] show ?thesis
      by (cases "sc_position sc") (simp_all add: sc2_def scanner_ok_def)
  next
    case False
    with assms(1) show ?thesis
      by (auto simp: sc2_def scanner_ok_def split: option.splits)
  qed
  then show ?thesis
    using get_token_head [of ?k sc2 scan] by (simp only: r tl simp_thms)
qed

lemma init_scanner_stream:
  assumes "scan_advances (tk_type zero) scan"
  shows "scanner_ok (tk_type zero) (init_scanner zero scan e) \<and>
     stream (tk_type zero) scan (init_scanner zero scan e) = visible (tk_type zero) (all_tokens (tk_type zero) scan e 0)"
  using scan_tokens_stream [OF _ _ assms, of "\<lparr>sc_position = Some 0, sc_end = e, sc_current = 0, sc_tokens = 0, sc_table = replicate SCANNER_TOKENS zero\<rparr>"]
  by (simp add: init_scanner_def stream_def)


section \<open>The interface of the parsers\<close>

text \<open>What a parser may rely on: the current token is the head of the stream, the next one that of its tail.\<close>

locale token_source =
  fixes get :: "'s \<Rightarrow> 'k token option"
    and nxt :: "'s \<Rightarrow> 'k token option \<times> 's"
    and toks :: "'s \<Rightarrow> 'k token list"
    and ok :: "'s \<Rightarrow> bool"
  assumes get_head: "ok s \<Longrightarrow> get s = head (toks s)"
    and nxt_ok: "ok s \<Longrightarrow> ok (snd (nxt s))"
    and nxt_tail: "ok s \<Longrightarrow> toks (snd (nxt s)) = tl (toks s)"
    and nxt_head: "ok s \<Longrightarrow> fst (nxt s) = head (tl (toks s))"
begin

lemma skips_ok: "ok s \<Longrightarrow> ok (((\<lambda>s. snd (nxt s)) ^^ n) s)"
  by (induction n) (simp_all add: nxt_ok)

lemma skips_drop: "ok s \<Longrightarrow> toks (((\<lambda>s. snd (nxt s)) ^^ n) s) = drop n (toks s)"
  by (induction n) (simp_all add: nxt_tail skips_ok drop_Suc tl_drop)

lemma nth_token: "ok s \<Longrightarrow> get (((\<lambda>s. snd (nxt s)) ^^ n) s) = (if n < length (toks s) then Some (toks s ! n) else None)"
  by (simp add: get_head skips_ok skips_drop hd_drop_conv_nth split: list.split)
    (metis Cons_nth_drop_Suc drop_eq_Nil2 list.inject not_le_imp_less list.distinct(1))

end

interpretation table: token_source get_scanner_token "get_next_scanner_token zero scan" "stream (tk_type zero) scan"
    "\<lambda>sc. scanner_ok (tk_type zero) sc \<and> scan_advances (tk_type zero) scan"
  for zero :: "'k token" and scan
proof
  fix sc :: "'k scanner"
  assume ok: "scanner_ok (tk_type zero) sc \<and> scan_advances (tk_type zero) scan"
  obtain r sc' where n: "get_next_scanner_token zero scan sc = (r, sc')"
    by fastforce
  note nx = get_next_stream [OF conjunct1 [OF ok] conjunct2 [OF ok] n]
  show "get_scanner_token sc = head (stream (tk_type zero) scan sc)"
    by (rule get_token_head) (rule conjunct1 [OF ok])
  show "scanner_ok (tk_type zero) (snd (get_next_scanner_token zero scan sc)) \<and> scan_advances (tk_type zero) scan"
    using nx ok by (simp add: n)
  show "stream (tk_type zero) scan (snd (get_next_scanner_token zero scan sc)) = tl (stream (tk_type zero) scan sc)"
    using nx by (simp add: n)
  show "fst (get_next_scanner_token zero scan sc) = head (tl (stream (tk_type zero) scan sc))"
    using nx by (simp add: n)
qed

text \<open>C27: The scanner with its table of ten tokens is a stream: after any number of steps the current token is the token of that
  number of the text, up to the end of the text or the last but one token before one that cannot be scanned.\<close>

theorem scanner_is_stream:
  assumes "scan_advances (tk_type zero) scan"
  shows "get_scanner_token (((\<lambda>sc. snd (get_next_scanner_token zero scan sc)) ^^ n) (init_scanner zero scan e)) =
     (let ts = visible (tk_type zero) (all_tokens (tk_type zero) scan e 0) in if n < length ts then Some (ts ! n) else None)"
  using table.nth_token [of zero "init_scanner zero scan e" scan n] init_scanner_stream [OF assms, of e] assms
  by (simp add: Let_def)

end
