(* ===== verification/Sha1.thy ===== *)
theory Sha1
  imports Prelude
begin

text \<open>
  \<^verbatim>\<open>elinks/src/util/sha1.c\<close>: the SHA-1 digest, with the context that takes the message byte by byte and shifts each byte
  into the words of the block, and the specification of FIPS 180 on whole padded messages that it computes.
\<close>

section \<open>The context\<close>

record sha1_context =
  s_H :: "uint32 list"
  s_W :: "uint32 list"
  s_lenW :: nat
  s_sizeHi :: uint32
  s_sizeLo :: uint32

definition init_sha1 :: sha1_context where
  "init_sha1 = \<lparr>s_H = [0x67452301, 0xefcdab89, 0x98badcfe, 0x10325476, 0xc3d2e1f0], s_W = replicate 80 0, s_lenW = 0,
     s_sizeHi = 0, s_sizeLo = 0\<rparr>"

definition SHA_ROT :: "uint32 \<Rightarrow> nat \<Rightarrow> uint32" where
  "SHA_ROT x n = push_bit n x OR drop_bit (32 - n) x"

text \<open>The extension of the sixteen words of a block to eighty, in place.\<close>

fun extend_words :: "nat \<Rightarrow> nat \<Rightarrow> uint32 list \<Rightarrow> uint32 list" where
  "extend_words 0 t w = w"
| "extend_words (Suc n) t w =
     extend_words n (t + 1) (w[t := SHA_ROT (w ! (t - 3) XOR w ! (t - 8) XOR w ! (t - 14) XOR w ! (t - 16)) 1])"

definition sha_f :: "nat \<Rightarrow> uint32 \<Rightarrow> uint32 \<Rightarrow> uint32 \<Rightarrow> uint32" where
  "sha_f t B C D =
     (if t \<le> 19 then ((C XOR D) AND B) XOR D
      else if t \<le> 39 then B XOR C XOR D
      else if t \<le> 59 then (B AND C) OR (D AND (B OR C))
      else B XOR C XOR D)"

definition sha_k :: "nat \<Rightarrow> uint32" where
  "sha_k t = (if t \<le> 19 then 0x5a827999 else if t \<le> 39 then 0x6ed9eba1 else if t \<le> 59 then 0x8f1bbcdc else 0xca62c1d6)"

definition sha_round :: "uint32 list \<Rightarrow> uint32 \<times> uint32 \<times> uint32 \<times> uint32 \<times> uint32 \<Rightarrow> nat \<Rightarrow> uint32 \<times> uint32 \<times> uint32 \<times> uint32 \<times> uint32" where
  "sha_round w s t =
     (case s of (A, B, C, D, E) \<Rightarrow> (SHA_ROT A 5 + sha_f t B C D + E + w ! t + sha_k t, A, SHA_ROT B 30, C, D))"

definition sha_hash_block :: "sha1_context \<Rightarrow> sha1_context" where
  "sha_hash_block ctx =
     (let w = extend_words 64 16 (s_W ctx); h = s_H ctx in
      case foldl (sha_round w) (h ! 0, h ! 1, h ! 2, h ! 3, h ! 4) [0..<80] of
        (A, B, C, D, E) \<Rightarrow> ctx\<lparr>s_W := w, s_H := [h ! 0 + A, h ! 1 + B, h ! 2 + C, h ! 3 + D, h ! 4 + E]\<rparr>)"

definition put_byte :: "sha1_context \<Rightarrow> uchar \<Rightarrow> sha1_context" where
  "put_byte ctx b =
     (let i = s_lenW ctx div 4;
          ctx = ctx\<lparr>s_W := (s_W ctx)[i := push_bit 8 (s_W ctx ! i) OR ucast b], s_lenW := s_lenW ctx + 1\<rparr>;
          ctx = (if s_lenW ctx mod 64 = 0 then (sha_hash_block ctx)\<lparr>s_lenW := 0\<rparr> else ctx);
          lo = s_sizeLo ctx + 8
      in ctx\<lparr>s_sizeLo := lo, s_sizeHi := s_sizeHi ctx + (if lo < 8 then 1 else 0)\<rparr>)"

definition update_sha1 :: "sha1_context \<Rightarrow> uchar list \<Rightarrow> sha1_context" where
  "update_sha1 ctx dat = foldl put_byte ctx dat"

text \<open>The loop that pads with zero bytes; at most 64 are needed.\<close>

fun pad_zeros :: "nat \<Rightarrow> sha1_context \<Rightarrow> sha1_context" where
  "pad_zeros 0 ctx = ctx"
| "pad_zeros (Suc n) ctx = (if s_lenW ctx \<noteq> 56 then pad_zeros n (update_sha1 ctx [0]) else ctx)"

definition word_bytes :: "uint32 \<Rightarrow> uchar list" where
  "word_bytes w = map (\<lambda>k. ucast (drop_bit k w)) [24, 16, 8, 0]"

text \<open>Four bytes of the digest: the upper byte of the word, which is shifted on.\<close>

definition out_bytes :: "uint32 \<Rightarrow> uchar list" where
  "out_bytes w = map (\<lambda>k. ucast (drop_bit 24 (push_bit k w))) [0, 8, 16, 24]"

definition done_sha1 :: "sha1_context \<Rightarrow> uchar list" where
  "done_sha1 ctx =
     (let padlen = word_bytes (s_sizeHi ctx) @ word_bytes (s_sizeLo ctx);
          ctx = update_sha1 ctx [0x80];
          ctx = pad_zeros 64 ctx;
          ctx = update_sha1 ctx padlen
      in concat (map out_bytes (s_H ctx)))"

definition digest_sha1 :: "uchar list \<Rightarrow> uchar list" where
  "digest_sha1 dat = done_sha1 (if length dat \<noteq> 0 then update_sha1 init_sha1 dat else init_sha1)"

section \<open>The specification\<close>

fun words_of :: "uchar list \<Rightarrow> uint32 list" where
  "words_of (a # b # c # d # bs) =
     (push_bit 24 (ucast a) OR push_bit 16 (ucast b) OR push_bit 8 (ucast c) OR ucast d) # words_of bs"
| "words_of _ = []"

text \<open>The schedule of FIPS 180, with its four functions and constants.\<close>

function schedule :: "uint32 list \<Rightarrow> nat \<Rightarrow> uint32" where
  "schedule m t =
     (if t < 16 then m ! t
      else word_rotl 1 (schedule m (t - 3) XOR schedule m (t - 8) XOR schedule m (t - 14) XOR schedule m (t - 16)))"
  by auto
termination
  by (relation "measure snd") auto

declare schedule.simps [simp del]

definition fips_f :: "nat \<Rightarrow> uint32 \<Rightarrow> uint32 \<Rightarrow> uint32 \<Rightarrow> uint32" where
  "fips_f t x y z =
     (if t < 20 then (x AND y) XOR (NOT x AND z)
      else if 40 \<le> t \<and> t < 60 then (x AND y) XOR (x AND z) XOR (y AND z)
      else x XOR y XOR z)"

definition fips_round :: "uint32 list \<Rightarrow> uint32 \<times> uint32 \<times> uint32 \<times> uint32 \<times> uint32 \<Rightarrow> nat \<Rightarrow> uint32 \<times> uint32 \<times> uint32 \<times> uint32 \<times> uint32" where
  "fips_round m s t =
     (case s of (a, b, c, d, e) \<Rightarrow> (word_rotl 5 a + fips_f t b c d + e + sha_k t + schedule m t, a, word_rotl 30 b, c, d))"

definition fips_block :: "uint32 list \<Rightarrow> uchar list \<Rightarrow> uint32 list" where
  "fips_block h bs =
     (case foldl (fips_round (words_of bs)) (h ! 0, h ! 1, h ! 2, h ! 3, h ! 4) [0..<80] of
        (a, b, c, d, e) \<Rightarrow> [a + h ! 0, b + h ! 1, c + h ! 2, d + h ! 3, e + h ! 4])"

function fips_blocks :: "uint32 list \<Rightarrow> uchar list \<Rightarrow> uint32 list" where
  "fips_blocks h bs = (if length bs < 64 then h else fips_blocks (fips_block h (take 64 bs)) (drop 64 bs))"
  by auto
termination
  by (relation "measure (\<lambda>(h, bs). length bs)") auto

declare fips_blocks.simps [simp del]

text \<open>The message, a bit, zeros up to eight bytes before the end of a block, and the number of its bits.\<close>

definition fips_pad :: "uchar list \<Rightarrow> uchar list" where
  "fips_pad m =
     m @ [0x80] @ replicate (nat ((55 - int (length m)) mod 64)) 0 @
     (let n = of_nat (8 * length m) :: 64 word in map (\<lambda>k. ucast (drop_bit k n)) [56, 48, 40, 32, 24, 16, 8, 0])"

definition fips_sha1 :: "uchar list \<Rightarrow> uchar list" where
  "fips_sha1 m = concat (map word_bytes (fips_blocks [0x67452301, 0xefcdab89, 0x98badcfe, 0x10325476, 0xc3d2e1f0] (fips_pad m)))"

section \<open>Blocks\<close>

lemma SHA_ROT_rotl:
  assumes "0 < n" "n < 32"
  shows "SHA_ROT x n = word_rotl n x"
proof (rule bit_word_eqI)
  fix i assume "i < LENGTH(32)"
  then have i: "i < 32"
    by simp
  obtain k where k: "32 = n + k" "0 < k" "32 - n = k"
    using assms by (metis less_imp_add_positive diff_add_inverse)
  have no: "\<not> bit x j" if "32 \<le> j" for j
    using that bit_imp_le_length [of x j] by auto
  have L: "bit (SHA_ROT x n) i \<longleftrightarrow> (n \<le> i \<and> bit x (i - n)) \<or> bit x (k + i)"
    using i by (simp add: SHA_ROT_def k(3) bit_simps)
  have R: "bit (word_rotl n x) i \<longleftrightarrow> bit x ((i + k) mod 32)"
    using i assms by (simp add: bit_word_rotl_iff k(3))
  show "bit (SHA_ROT x n) i \<longleftrightarrow> bit (word_rotl n x) i"
  proof (cases "i < n")
    case True
    then have "(i + k) mod 32 = k + i"
      using k(1) by simp
    with True show ?thesis
      by (simp only: L R) simp
  next
    case False
    then have "i + k = i - n + 32"
      using k(1) by simp
    then have "(i + k) mod 32 = i - n"
      using i by simp
    moreover have "\<not> bit x (k + i)"
      using False k(1) by (intro no) simp
    ultimately show ?thesis
      using False by (simp only: L R) simp
  qed
qed

lemma sha_f_fips: "sha_f t B C D = fips_f t B C D"
  by (auto simp: sha_f_def fips_f_def bit_simps intro!: bit_word_eqI)

lemma extend_words_schedule:
  assumes "length w = 80" "\<forall>i<t. w ! i = schedule m i" "16 \<le> t" "t + n = 80"
  shows "length (extend_words n t w) = 80 \<and> (\<forall>i<80. extend_words n t w ! i = schedule m i)"
  using assms
proof (induction n t w rule: extend_words.induct)
  case (2 n t w)
  let ?x = "SHA_ROT (w ! (t - 3) XOR w ! (t - 8) XOR w ! (t - 14) XOR w ! (t - 16)) 1"
  have "?x = schedule m t"
    using 2 by (simp add: schedule.simps [of m t] SHA_ROT_rotl)
  then have "\<forall>i<t + 1. w[t := ?x] ! i = schedule m i"
    using 2 by (auto simp: nth_list_update less_Suc_eq)
  with 2 show ?case
    by simp
qed simp

definition be :: "uchar list \<Rightarrow> uint32" where
  "be bs = foldl (\<lambda>w b. push_bit 8 w OR ucast b) 0 bs"

lemma words_of_be: "length bs = 4 * n \<Longrightarrow> length (words_of bs) = n \<and> (\<forall>i<n. words_of bs ! i = be (take 4 (drop (4 * i) bs)))"
proof (induction n arbitrary: bs)
  case (Suc n)
  then have "length bs = Suc (Suc (Suc (Suc (4 * n))))"
    by simp
  then obtain a b c d r where bs: "bs = a # b # c # d # r" "length r = 4 * n"
    unfolding length_Suc_conv by blast
  have w: "be [a, b, c, d] = push_bit 24 (ucast a) OR push_bit 16 (ucast b) OR push_bit 8 (ucast c) OR ucast d"
    by (simp add: be_def push_bit_or ac_simps)
  have d: "drop (4 + m) (a # b # c # d # r) = drop m r" for m
    by (simp add: eval_nat_numeral)
  show ?case
    using Suc.IH [OF bs(2)] w by (auto simp: bs(1) nth_Cons d split: nat.split)
qed simp

text \<open>The words of the block hold the bytes that were put, the last one in its lower bits.\<close>

definition loaded :: "uint32 list \<Rightarrow> uchar list \<Rightarrow> bool" where
  "loaded w bs \<longleftrightarrow> (\<forall>i<16. take_bit (8 * min 4 (length bs - 4 * i)) (w ! i) = be (take 4 (drop (4 * i) bs)))"

lemma loaded_put:
  assumes "loaded w bs" "length bs < 64" "length w = 80"
  shows "loaded (w[length bs div 4 := push_bit 8 (w ! (length bs div 4)) OR ucast b]) (bs @ [b])"
  unfolding loaded_def
proof (intro allI impI)
  fix i :: nat assume i: "i < 16"
  let ?k = "length bs div 4" and ?w = "w[length bs div 4 := push_bit 8 (w ! (length bs div 4)) OR ucast b]"
  have old: "take_bit (8 * min 4 (length bs - 4 * i)) (w ! i) = be (take 4 (drop (4 * i) bs))"
    using assms(1) i by (simp add: loaded_def)
  consider "i < ?k" | "i = ?k" | "?k < i"
    by linarith
  then show "take_bit (8 * min 4 (length (bs @ [b]) - 4 * i)) (?w ! i) = be (take 4 (drop (4 * i) (bs @ [b])))"
  proof cases
    case 1
    then have "min 4 (length (bs @ [b]) - 4 * i) = 4" "min 4 (length bs - 4 * i) = 4"
      "take 4 (drop (4 * i) (bs @ [b])) = take 4 (drop (4 * i) bs)"
      by auto
    with old 1 show ?thesis
      by simp
  next
    case 2
    define j where "j = length bs mod 4"
    have j: "j < 4" "length bs = 4 * i + j"
      by (simp_all add: j_def 2)
    have "take 4 (drop (4 * i) (bs @ [b])) = drop (4 * i) bs @ [b]" "take 4 (drop (4 * i) bs) = drop (4 * i) bs"
      using j by simp_all
    moreover have "take_bit (8 + 8 * j) (push_bit 8 (w ! i) OR ucast b) = push_bit 8 (take_bit (8 * j) (w ! i)) OR ucast b"
    proof -
      have "take_bit (8 + 8 * j) (ucast b :: uint32) = ucast b"
        by (rule bit_word_eqI) (auto simp: bit_simps dest: bit_imp_le_length)
      then show ?thesis
        by (simp add: take_bit_or take_bit_push_bit)
    qed
    moreover have "?w ! i = push_bit 8 (w ! i) OR ucast b" "min 4 (length (bs @ [b]) - 4 * i) = Suc j" "min 4 (length bs - 4 * i) = j"
      using 2 j assms(3) i by simp_all
    ultimately show ?thesis
      using old by (simp add: be_def)
  next
    case 3
    then show ?thesis
      by (simp add: be_def)
  qed
qed

lemma hash_block_fips:
  assumes "loaded (s_W ctx) bs" "length bs = 64" "length (s_W ctx) = 80"
  shows "s_H (sha_hash_block ctx) = fips_block (s_H ctx) bs \<and> length (s_W (sha_hash_block ctx)) = 80"
proof -
  have w: "length (words_of bs) = 16" "\<forall>i<16. words_of bs ! i = be (take 4 (drop (4 * i) bs))"
    using words_of_be [of bs 16] assms(2) by simp_all
  have "s_W ctx ! i = schedule (words_of bs) i" if "i < 16" for i
  proof -
    have "take_bit 32 (s_W ctx ! i) = be (take 4 (drop (4 * i) bs))"
      using assms(1,2) that unfolding loaded_def by (auto dest!: spec [of _ i] simp: min_def split: if_splits)
    moreover have "take_bit 32 (s_W ctx ! i) = s_W ctx ! i"
      by (rule bit_word_eqI) (simp add: bit_simps)
    ultimately show ?thesis
      using w(2) that by (simp add: schedule.simps)
  qed
  then have e: "length (extend_words 64 16 (s_W ctx)) = 80 \<and> (\<forall>i<80. extend_words 64 16 (s_W ctx) ! i = schedule (words_of bs) i)"
    using assms(3) by (intro extend_words_schedule) simp_all
  then have "foldl (sha_round (extend_words 64 16 (s_W ctx))) s [0..<80] = foldl (fips_round (words_of bs)) s [0..<80]" for s
    by (intro foldl_cong) (auto simp: sha_round_def fips_round_def sha_f_fips SHA_ROT_rotl ac_simps split: prod.split)
  then show ?thesis
    using e by (auto simp: sha_hash_block_def fips_block_def Let_def ac_simps split: prod.split)
qed


section \<open>The context and the message\<close>

lemma fips_blocks_short: "length bs < 64 \<Longrightarrow> fips_blocks h bs = h"
  by (simp add: fips_blocks.simps)

lemma fips_blocks_one: "length bs = 64 \<Longrightarrow> fips_blocks h bs = fips_block h bs"
  by (simp add: fips_blocks.simps [of h bs] fips_blocks_short)

lemma fips_blocks_append: "64 dvd length bs \<Longrightarrow> fips_blocks h (bs @ cs) = fips_blocks (fips_blocks h bs) cs"
proof (induction h bs rule: fips_blocks.induct)
  case (1 h bs)
  show ?case
  proof (cases "length bs < 64")
    case True
    with "1.prems" have "bs = []"
      by (auto dest: dvd_imp_le)
    then show ?thesis
      by (simp add: fips_blocks_short)
  next
    case False
    then have "64 dvd length (drop 64 bs)"
      using "1.prems" by (simp add: dvd_minus_self)
    from "1.IH" [OF False this] False show ?thesis
      by (simp add: fips_blocks.simps [of h "bs @ cs"] fips_blocks.simps [of h bs])
  qed
qed

definition H0 :: "uint32 list" where
  "H0 = [0x67452301, 0xefcdab89, 0x98badcfe, 0x10325476, 0xc3d2e1f0]"

definition size_word :: "sha1_context \<Rightarrow> 64 word" where
  "size_word ctx = word_cat (s_sizeHi ctx) (s_sizeLo ctx)"

text \<open>The context has absorbed a message: its full blocks are hashed, its rest is in the block.\<close>

definition absorbed :: "sha1_context \<Rightarrow> uchar list \<Rightarrow> bool" where
  "absorbed ctx m \<longleftrightarrow>
     (let k = 64 * (length m div 64)
      in s_H ctx = fips_blocks H0 (take k m) \<and> s_lenW ctx = length m mod 64 \<and> length (s_W ctx) = 80 \<and>
         loaded (s_W ctx) (drop k m) \<and> size_word ctx = of_nat (8 * length m))"

lemma loaded_Nil: "loaded w []"
  by (simp add: loaded_def be_def)

lemma absorbed_init: "absorbed init_sha1 []"
  by (simp add: absorbed_def init_sha1_def loaded_Nil fips_blocks_short H0_def size_word_def)

lemma size_step: "word_cat (hi + (if lo + 8 < 8 then 1 else 0)) (lo + 8) = (word_cat (hi :: uint32) (lo :: uint32) :: 64 word) + 8"
proof -
  have cat: "(word_cat hi lo :: 64 word) = word_of_int (uint hi * 4294967296 + uint lo)" for hi lo :: uint32
    by (simp add: word_cat_eq push_bit_eq_mult)
  have cat8: "(word_cat hi lo :: 64 word) + 8 = word_of_int (uint hi * 4294967296 + uint lo + 8)" for hi lo :: uint32
    by (simp add: cat)
  have top: "(word_of_int (x + 18446744073709551616) :: 64 word) = word_of_int x" for x
    by (simp add: word_of_int_eq_iff take_bit_eq_mod)
  show ?thesis
  proof (cases "uint lo + 8 < 4294967296")
    case True
    then have l: "uint (lo + 8) = uint lo + 8"
      by (simp add: uint_plus_if')
    then have "\<not> lo + 8 < 8"
      by (simp add: word_less_def)
    then show ?thesis
      by (simp only: if_False add_0_right cat8) (simp only: cat l add.assoc)
  next
    case False
    then have l: "uint (lo + 8) = uint lo + 8 - 4294967296"
      by (simp add: uint_plus_if')
    then have lt: "lo + 8 < 8"
      using uint_lt2p [of lo] by (simp add: word_less_def)
    have "uint (hi + 1) = uint hi + 1 \<or> uint hi = 4294967295 \<and> uint (hi + 1) = 0"
      using uint_lt2p [of hi] by (auto simp: uint_plus_if')
    then have "uint hi * 4294967296 + uint lo + 8 = uint (hi + 1) * 4294967296 + uint (lo + 8) \<or>
        uint hi * 4294967296 + uint lo + 8 = uint (hi + 1) * 4294967296 + uint (lo + 8) + 18446744073709551616"
      unfolding l by auto
    then have "(word_of_int (uint hi * 4294967296 + uint lo + 8) :: 64 word) = word_of_int (uint (hi + 1) * 4294967296 + uint (lo + 8))"
      by (elim disjE) (simp_all only: top)
    then show ?thesis
      using lt by (simp only: if_True cat8) (simp only: cat)
  qed
qed

lemma length_sha_hash_block: "s_lenW (sha_hash_block ctx) = s_lenW ctx" "size_word (sha_hash_block ctx) = size_word ctx"
  by (simp_all add: sha_hash_block_def size_word_def Let_def split: prod.split)

lemma put_byte_absorbed:
  assumes "absorbed ctx m"
  shows "absorbed (put_byte ctx b) (m @ [b])"
proof -
  define k where "k = 64 * (length m div 64)"
  define r where "r = drop k m"
  have r: "length r = length m mod 64" "length r < 64"
    by (simp_all add: r_def k_def minus_mult_div_eq_mod)
  have k: "k \<le> length m" "k + length r = length m"
    by (simp_all add: r_def k_def)
  have a: "s_H ctx = fips_blocks H0 (take k m)" "s_lenW ctx = length r" "length (s_W ctx) = 80" "loaded (s_W ctx) r"
    "size_word ctx = of_nat (8 * length m)"
    using assms r(1) by (simp_all add: absorbed_def Let_def k_def [symmetric] r_def [symmetric])
  define i where "i = s_lenW ctx div 4"
  define c where "c = ctx\<lparr>s_W := (s_W ctx)[i := push_bit 8 (s_W ctx ! i) OR ucast b], s_lenW := s_lenW ctx + 1\<rparr>"
  define d where "d = (if s_lenW c mod 64 = 0 then (sha_hash_block c)\<lparr>s_lenW := 0\<rparr> else c)"
  have put: "put_byte ctx b = d\<lparr>s_sizeLo := s_sizeLo d + 8, s_sizeHi := s_sizeHi d + (if s_sizeLo d + 8 < 8 then 1 else 0)\<rparr>"
    unfolding put_byte_def Let_def d_def c_def i_def by (rule refl)
  have "size_word d = size_word ctx"
    by (auto simp: d_def c_def length_sha_hash_block size_word_def sha_hash_block_def Let_def split: prod.split)
  then have sz: "size_word (put_byte ctx b) = of_nat (8 * length (m @ [b]))"
    using a(5) size_step [of "s_sizeHi d" "s_sizeLo d"] by (simp add: put size_word_def add.commute)
  have c: "s_H c = s_H ctx" "s_lenW c = length r + 1" "length (s_W c) = 80" "loaded (s_W c) (r @ [b])"
    using loaded_put [OF a(4) r(2) a(3), of b] a(2,3) by (simp_all add: c_def i_def)
  show ?thesis
  proof (cases "length r + 1 = 64")
    case True
    then have "length (m @ [b]) = k + 64" "64 dvd k"
      using k by (simp_all add: k_def)
    then have k': "64 * (length (m @ [b]) div 64) = k + 64" "length (m @ [b]) mod 64 = 0"
      by (simp_all only: dvd_mult_div_cancel dvd_add_left_iff dvd_refl dvd_imp_mod_0)
    have mb: "m @ [b] = take k m @ (r @ [b])"
      by (simp add: r_def)
    have "take (k + 64) (m @ [b]) = m @ [b]" "drop (k + 64) (m @ [b]) = []"
      using True k by simp_all
    moreover have "fips_blocks H0 (m @ [b]) = s_H d"
      using hash_block_fips [OF c(4) _ c(3)] True k(1) \<open>64 dvd k\<close> c(1,2) a(1)
      by (simp only: mb) (subst fips_blocks_append, simp_all add: fips_blocks_one d_def)
    moreover have "length (s_W d) = 80" "s_lenW d = 0"
      using hash_block_fips [OF c(4) _ c(3)] True c(2) by (simp_all add: d_def)
    ultimately show ?thesis
      using sz unfolding absorbed_def Let_def k' by (simp add: put loaded_Nil)
  next
    case False
    then have l: "length r + 1 < 64"
      using r(2) by simp
    have "length (m @ [b]) = 64 * (length m div 64) + (length r + 1)"
      using k by (simp add: k_def)
    then have "length (m @ [b]) div 64 = length m div 64" "length (m @ [b]) mod 64 = length r + 1"
      using l by (simp_all only: div_mult_self4 mod_mult_self4) simp_all
    then have k': "64 * (length (m @ [b]) div 64) = k" "length (m @ [b]) mod 64 = length r + 1"
      by (simp_all only: k_def)
    have "d = c"
      using l c(2) by (simp add: d_def)
    moreover have "take k (m @ [b]) = take k m" "drop k (m @ [b]) = r @ [b]"
      using k(1) by (simp_all add: r_def)
    ultimately show ?thesis
      using sz c a(1) unfolding absorbed_def Let_def k' by (simp add: put)
  qed
qed

lemma update_absorbed: "absorbed ctx m \<Longrightarrow> absorbed (update_sha1 ctx dat) (m @ dat)"
proof (induction dat arbitrary: ctx m)
  case (Cons b dat)
  from Cons.IH [OF put_byte_absorbed [OF Cons.prems, of b]] show ?case
    by (simp add: update_sha1_def)
qed (simp add: update_sha1_def)


lemma mod_less_one: "y mod 64 \<noteq> 0 \<Longrightarrow> y mod 64 = (y - 1) mod 64 + (1 :: int)"
proof -
  assume "y mod 64 \<noteq> 0"
  then have "0 \<le> y mod 64 - 1" "y mod 64 - 1 < 64"
    using pos_mod_sign [of 64 y] pos_mod_bound [of 64 y] by linarith+
  then have "(y mod 64 - 1) mod 64 = y mod 64 - 1"
    by (rule mod_pos_pos_trivial)
  then show ?thesis
    by (simp add: mod_diff_left_eq)
qed

lemma pad_zeros_absorbed:
  "absorbed ctx m \<Longrightarrow> nat ((56 - int (length m)) mod 64) \<le> n \<Longrightarrow>
   absorbed (pad_zeros n ctx) (m @ replicate (nat ((56 - int (length m)) mod 64)) 0)"
proof (induction n arbitrary: ctx m)
  case (Suc n)
  have w: "s_lenW ctx = length m mod 64"
    using Suc.prems(1) by (simp add: absorbed_def Let_def)
  show ?case
  proof (cases "length m mod 64 = 56")
    case True
    then have "(56 - int (length m)) mod 64 = 0"
      by presburger
    with True w Suc.prems(1) show ?thesis
      by simp
  next
    case False
    then have "(56 - int (length m)) mod 64 \<noteq> 0"
      by presburger
    from mod_less_one [OF this] have "(56 - int (length m)) mod 64 = (56 - int (length (m @ [0 :: uchar]))) mod 64 + 1"
      by (simp add: algebra_simps)
    moreover have "0 \<le> (56 - int (length (m @ [0 :: uchar]))) mod 64"
      by simp
    ultimately have k: "nat ((56 - int (length m)) mod 64) = Suc (nat ((56 - int (length (m @ [0 :: uchar]))) mod 64))"
      by linarith
    have "absorbed (pad_zeros n (update_sha1 ctx [0])) ((m @ [0]) @ replicate (nat ((56 - int (length (m @ [0 :: uchar]))) mod 64)) 0)"
      using Suc.prems(2) unfolding k by (intro Suc.IH update_absorbed [OF Suc.prems(1)]) simp
    then show ?thesis
      unfolding k using False w by simp
  qed
qed simp

lemma out_bytes_word_bytes: "out_bytes w = word_bytes w"
  by (simp add: out_bytes_def word_bytes_def) (auto intro!: bit_word_eqI simp: bit_simps dest: bit_imp_le_length)

lemma word_bytes_cat:
  "word_bytes hi @ word_bytes lo =
   map (\<lambda>k. ucast (drop_bit k (word_cat hi lo :: 64 word))) [56, 48, 40, 32, 24, 16, 8, 0]"
proof -
  have "(ucast (drop_bit (k + 32) (word_cat hi lo :: 64 word)) :: uchar) = ucast (drop_bit k hi)"
    "k \<le> 24 \<Longrightarrow> (ucast (drop_bit k (word_cat hi lo :: 64 word)) :: uchar) = ucast (drop_bit k lo)" for k
    by (rule bit_word_eqI; auto simp: bit_simps dest: bit_imp_le_length)+
  from this(1) [of 24] this(1) [of 16] this(1) [of 8] this(1) [of 0] this(2) this(2) [of 0] show ?thesis
    by (simp add: word_bytes_def)
qed

lemma fips_pad_length: "64 dvd length (fips_pad m)"
proof -
  have "int (length (fips_pad m)) = int (length m) + 9 + (55 - int (length m)) mod 64"
    by (simp add: fips_pad_def Let_def)
  moreover have "(int (length m) + 9 + (55 - int (length m)) mod 64) mod 64 = 0"
    by (subst mod_add_right_eq) simp
  ultimately have "int 64 dvd int (length (fips_pad m))"
    by (simp add: dvd_eq_mod_eq_0)
  then show ?thesis
    by (simp only: int_dvd_int_iff)
qed

lemma done_sha1_fips:
  assumes "absorbed ctx m"
  shows "done_sha1 ctx = fips_sha1 m"
proof -
  let ?z = "replicate (nat ((56 - int (length (m @ [0x80 :: uchar]))) mod 64)) 0"
  let ?p = "word_bytes (s_sizeHi ctx) @ word_bytes (s_sizeLo ctx)"
  have "nat ((56 - int (length (m @ [0x80 :: uchar]))) mod 64) \<le> 64"
    using pos_mod_bound [of 64 "56 - int (length (m @ [0x80 :: uchar]))"] by linarith
  then have "absorbed (update_sha1 (pad_zeros 64 (update_sha1 ctx [0x80])) ?p) (((m @ [0x80]) @ ?z) @ ?p)"
    by (intro update_absorbed pad_zeros_absorbed assms)
  moreover have "((m @ [0x80]) @ ?z) @ ?p = fips_pad m"
    using assms by (simp add: fips_pad_def word_bytes_cat absorbed_def Let_def size_word_def)
  ultimately have "absorbed (update_sha1 (pad_zeros 64 (update_sha1 ctx [0x80])) ?p) (fips_pad m)"
    by simp
  then have "s_H (update_sha1 (pad_zeros 64 (update_sha1 ctx [0x80])) ?p) = fips_blocks H0 (fips_pad m)"
    using fips_pad_length [of m] by (simp add: absorbed_def Let_def)
  then show ?thesis
    by (simp add: done_sha1_def fips_sha1_def Let_def H0_def out_bytes_word_bytes cong: map_cong)
qed

lemma digest_fips: "digest_sha1 m = fips_sha1 m"
  using done_sha1_fips [OF update_absorbed [OF absorbed_init, of m]]
  by (cases m) (simp_all add: digest_sha1_def update_sha1_def)

text \<open>C24: The digest of a message, taken byte by byte, is the SHA-1 digest that FIPS 180 defines on its padded blocks
  (below 2 gigabytes, where the signed counter of the loop over the bytes does not overflow).\<close>

theorem digest_sha1_fips: "digest_sha1 m = fips_sha1 m"
  by (rule digest_fips)

end
