(* ===== verification/Bencoding.thy ===== *)
theory Bencoding
  imports Scanner Sha1 UriCache
begin

text \<open>
  \<^verbatim>\<open>elinks/src/protocol/bittorrent/bencoding.c\<close>, first part: the scanner of bencoded text and the parser of .torrent
  files. The text is the memory \<open>src\<close> from its start on, with the offset \<open>e\<close> of its end; what the code reads at the
  end is the byte of \<open>src\<close> there. By the theory \<open>Scanner\<close> a \<^verbatim>\<open>struct scanner\<close> is the list of the tokens left: its current token
  is the head of the list and skipping a token drops it. Allocations succeed.
\<close>

section \<open>Tokens\<close>

datatype bencoding_token =
    BENCODING_TOKEN_INTEGER | BENCODING_TOKEN_LIST | BENCODING_TOKEN_DICTIONARY | BENCODING_TOKEN_END | BENCODING_TOKEN_STRING
  | BENCODING_TOKEN_FILES | BENCODING_TOKEN_NAME
  | BENCODING_TOKEN_ANNOUNCE | BENCODING_TOKEN_ANNOUNCE_LIST | BENCODING_TOKEN_COMMENT | BENCODING_TOKEN_CREATED_BY
  | BENCODING_TOKEN_CREATION_DATE | BENCODING_TOKEN_INFO | BENCODING_TOKEN_LENGTH | BENCODING_TOKEN_MD5SUM | BENCODING_TOKEN_PATH
  | BENCODING_TOKEN_PIECES | BENCODING_TOKEN_PIECE_LENGTH
  | BENCODING_TOKEN_FAILURE_REASON | BENCODING_TOKEN_INTERVAL | BENCODING_TOKEN_IP | BENCODING_TOKEN_PEERS
  | BENCODING_TOKEN_PEER_ID | BENCODING_TOKEN_PORT
  | BENCODING_TOKEN_COMPLETE | BENCODING_TOKEN_DOWNLOADED | BENCODING_TOKEN_INCOMPLETE
  | BENCODING_TOKEN_NONE | BENCODING_TOKEN_ERROR

type_synonym btoken = "bencoding_token token"

function scan_bencoding_integer :: "string \<Rightarrow> nat \<Rightarrow> nat \<Rightarrow> nat" where
  "scan_bencoding_integer src e s = (if s < e \<and> c_isdigit (rd src s) then scan_bencoding_integer src e (s + 1) else s)"
  by auto
termination
  by (relation "measure (\<lambda>(src, e, s). e - s)") auto

declare scan_bencoding_integer.simps [simp del]

definition bytes_at :: "string \<Rightarrow> nat \<Rightarrow> nat \<Rightarrow> string" where
  "bytes_at src p n = take n (drop p src)"

text \<open>One token and the offset behind it. \<^verbatim>\<open>strtoul\<close> fails for numbers that are far beyond the limit as well.\<close>

definition scan_bencoding_token :: "string \<Rightarrow> nat \<Rightarrow> nat \<Rightarrow> btoken \<times> nat" where
  "scan_bencoding_token src e p =
     (let first_char = rd src p; s = p + 1;
          (type, start, real_length, s) =
            (if c_isdigit first_char then
               let s = scan_bencoding_integer src e s in
               if rd src s = CHR '':'' then
                 let string_length = dec_val (bytes_at src p (s - p)) in
                 if string_length < INT_MAX \<and> int s + string_length < int e
                 then (BENCODING_TOKEN_STRING, s + 1, string_length, s + 1 + nat string_length)
                 else (BENCODING_TOKEN_NONE, p, -1, s)
               else (BENCODING_TOKEN_NONE, p, -1, s)
             else if first_char = CHR ''e'' then (BENCODING_TOKEN_END, p, -1, s)
             else if first_char = CHR ''i'' then
               let integer_start = s;
                   s = scan_bencoding_integer src e (if rd src s = CHR ''-'' then s + 1 else s)
               in if rd src s = CHR ''e'' then (BENCODING_TOKEN_INTEGER, integer_start, int s - int integer_start, s + 1)
                  else (BENCODING_TOKEN_NONE, p, -1, s)
             else if first_char = CHR ''d'' then (BENCODING_TOKEN_DICTIONARY, p, -1, s)
             else if first_char = CHR ''l'' then (BENCODING_TOKEN_LIST, p, -1, s)
             else (BENCODING_TOKEN_NONE, p, -1, s))
      in (\<lparr>tk_type = type, tk_pos = start, tk_len = (if real_length > 0 then nat real_length else s - start)\<rparr>, s))"

definition zero_token :: btoken where
  "zero_token = \<lparr>tk_type = BENCODING_TOKEN_NONE, tk_pos = 0, tk_len = 0\<rparr>"

text \<open>The tokens that a parser of the text sees.\<close>

definition bencoding_tokens :: "string \<Rightarrow> nat \<Rightarrow> btoken list" where
  "bencoding_tokens src e = visible BENCODING_TOKEN_NONE (all_tokens BENCODING_TOKEN_NONE (scan_bencoding_token src e) e 0)"

definition token_string :: "string \<Rightarrow> btoken \<Rightarrow> string" where
  "token_string src t = bytes_at src (tk_pos t) (tk_len t)"

text \<open>The loop that skips a value, with its nesting level.\<close>

fun skip_tokens :: "int \<Rightarrow> btoken list \<Rightarrow> btoken list" where
  "skip_tokens level [] = []"
| "skip_tokens level (t # ts) =
     (let level = (if tk_type t \<in> {BENCODING_TOKEN_DICTIONARY, BENCODING_TOKEN_LIST} then level + 1
                   else if tk_type t = BENCODING_TOKEN_END then level - 1
                   else level)
      in if level > 0 \<and> ts \<noteq> [] then skip_tokens level ts else ts)"

definition skip_bencoding_tokens :: "btoken list \<Rightarrow> btoken list" where
  "skip_bencoding_tokens ts = skip_tokens 0 ts"

section \<open>Dictionary entries\<close>

text \<open>\<^verbatim>\<open>c_strlcasecmp\<close> of \<^verbatim>\<open>util/string.c\<close>: a length of \<open>-1\<close> is that of the C string; the loop ends at a NUL.\<close>

fun strlcasecmp_loop :: "nat \<Rightarrow> string \<Rightarrow> string \<Rightarrow> int" where
  "strlcasecmp_loop 0 s1 s2 = 0"
| "strlcasecmp_loop (Suc n) s1 s2 =
     (if rd s1 0 = NUL \<or> rd s2 0 = NUL then 0
      else
        let d = int (ccode (c_toupper (rd s1 0))) - int (ccode (c_toupper (rd s2 0)))
        in if d \<noteq> 0 then d else strlcasecmp_loop n (drop 1 s1) (drop 1 s2))"

definition c_strlcasecmp :: "string \<Rightarrow> int \<Rightarrow> string \<Rightarrow> int \<Rightarrow> int" where
  "c_strlcasecmp s1 n1 s2 n2 =
     (let len = (\<lambda>s n. if n = -1 then int (length (takeWhile (\<lambda>c. c \<noteq> NUL) s)) else n);
          d = len s1 n1 - len s2 n2
      in if d \<noteq> 0 then d else strlcasecmp_loop (nat (len s1 n1)) s1 s2)"

definition scanner_token_strlcasecmp :: "string \<Rightarrow> btoken \<Rightarrow> string \<Rightarrow> int \<Rightarrow> bool" where
  "scanner_token_strlcasecmp src t str len \<longleftrightarrow> c_strlcasecmp (drop (tk_pos t) src) (int (tk_len t)) str len = 0"

definition bencoding_dictionary_entries :: "(string \<times> bencoding_token \<times> bencoding_token) list" where
  "bencoding_dictionary_entries =
     [(''announce list'', BENCODING_TOKEN_ANNOUNCE_LIST, BENCODING_TOKEN_LIST),
      (''announce'', BENCODING_TOKEN_ANNOUNCE, BENCODING_TOKEN_STRING),
      (''comment'', BENCODING_TOKEN_COMMENT, BENCODING_TOKEN_STRING),
      (''complete'', BENCODING_TOKEN_COMPLETE, BENCODING_TOKEN_INTEGER),
      (''created by'', BENCODING_TOKEN_CREATED_BY, BENCODING_TOKEN_STRING),
      (''creation date'', BENCODING_TOKEN_CREATION_DATE, BENCODING_TOKEN_INTEGER),
      (''downloaded'', BENCODING_TOKEN_DOWNLOADED, BENCODING_TOKEN_INTEGER),
      (''failure reason'', BENCODING_TOKEN_FAILURE_REASON, BENCODING_TOKEN_STRING),
      (''files'', BENCODING_TOKEN_FILES, BENCODING_TOKEN_LIST),
      (''incomplete'', BENCODING_TOKEN_INCOMPLETE, BENCODING_TOKEN_INTEGER),
      (''info'', BENCODING_TOKEN_INFO, BENCODING_TOKEN_DICTIONARY),
      (''interval'', BENCODING_TOKEN_INTERVAL, BENCODING_TOKEN_INTEGER),
      (''ip'', BENCODING_TOKEN_IP, BENCODING_TOKEN_STRING),
      (''length'', BENCODING_TOKEN_LENGTH, BENCODING_TOKEN_INTEGER),
      (''md5sum'', BENCODING_TOKEN_MD5SUM, BENCODING_TOKEN_STRING),
      (''name'', BENCODING_TOKEN_NAME, BENCODING_TOKEN_STRING),
      (''path'', BENCODING_TOKEN_PATH, BENCODING_TOKEN_LIST),
      (''peer id'', BENCODING_TOKEN_PEER_ID, BENCODING_TOKEN_STRING),
      (''peers'', BENCODING_TOKEN_PEERS, BENCODING_TOKEN_LIST),
      (''peers'', BENCODING_TOKEN_PEERS, BENCODING_TOKEN_STRING),
      (''piece length'', BENCODING_TOKEN_PIECE_LENGTH, BENCODING_TOKEN_INTEGER),
      (''pieces'', BENCODING_TOKEN_PIECES, BENCODING_TOKEN_STRING),
      (''port'', BENCODING_TOKEN_PORT, BENCODING_TOKEN_INTEGER)]"

fun find_entry :: "string \<Rightarrow> btoken \<Rightarrow> btoken \<Rightarrow> (string \<times> bencoding_token \<times> bencoding_token) list \<Rightarrow> bencoding_token" where
  "find_entry src key val [] = BENCODING_TOKEN_NONE"
| "find_entry src key val ((name, key_type, value_type) # entries) =
     (if \<not> scanner_token_strlcasecmp src key name (-1) then find_entry src key val entries
      else if tk_type val \<noteq> value_type then find_entry src key val entries
      else key_type)"

text \<open>The type of the entry and the tokens left; where the code gives a value it is their first one.\<close>

fun check_bencoding_dictionary_entry :: "string \<Rightarrow> btoken list \<Rightarrow> bencoding_token \<times> btoken list" where
  "check_bencoding_dictionary_entry src [] = (BENCODING_TOKEN_ERROR, [])"
| "check_bencoding_dictionary_entry src (key # ts) =
     (if tk_type key = BENCODING_TOKEN_END then (BENCODING_TOKEN_END, key # ts)
      else if tk_type key \<noteq> BENCODING_TOKEN_STRING then (BENCODING_TOKEN_NONE, key # ts)
      else case ts of
        [] \<Rightarrow> (BENCODING_TOKEN_ERROR, ts)
      | val # _ \<Rightarrow> (find_entry src key val bencoding_dictionary_entries, ts))"

section \<open>Values\<close>

text \<open>\<^verbatim>\<open>off_t\<close> has 64 bits; the check for overflow relies on wrap-around, as the code says.\<close>

definition int64 :: "int \<Rightarrow> int" where
  "int64 x = (x + 2 ^ 63) mod 2 ^ 64 - 2 ^ 63"

fun integer_loop :: "int \<Rightarrow> string \<Rightarrow> int option" where
  "integer_loop integer [] = Some integer"
| "integer_loop integer (c # cs) =
     (if \<not> c_isdigit c then Some integer
      else
        let newint = int64 (integer * 10 + digit_val c)
        in if newint sdiv 10 \<noteq> integer then None else integer_loop newint cs)"

definition parse_bencoding_integer :: "string \<Rightarrow> btoken \<Rightarrow> int" where
  "parse_bencoding_integer src t =
     (let s = token_string src t; neg = (rd s 0 = CHR ''-'') in
      case integer_loop 0 (if neg then drop 1 s else s) of
        None \<Rightarrow> 0
      | Some integer \<Rightarrow> if neg then int64 (- integer) else integer)"

text \<open>The path of a file, normalised, and whether directory elevators led out of the directory.\<close>

definition cstring :: "string \<Rightarrow> string" where
  "cstring = takeWhile (\<lambda>c. c \<noteq> NUL)"

definition normalize_bencoding_path :: "(string \<Rightarrow> bool) \<Rightarrow> string \<Rightarrow> (string \<times> bool) option" where
  "normalize_bencoding_path user_program path =
     (let s = normalize_uri user_program None (cstring (''file://./'' @ path)) in
      if take 7 s \<noteq> ''file://'' then None
      else
        let malicious = dir_sep (rd s 7)
        in Some (drop (8 + (if malicious then 0 else 1)) s, malicious))"

section \<open>The metafile\<close>

datatype bittorrent_state =
    BITTORRENT_STATE_OK | BITTORRENT_STATE_ERROR | BITTORRENT_STATE_REQUEST_FAILURE | BITTORRENT_STATE_OUT_OF_MEM
  | BITTORRENT_STATE_CACHE_FAILURE | BITTORRENT_STATE_CACHE_RESUME | BITTORRENT_STATE_FILE_MISSING

datatype bittorrent_type = BITTORRENT_SINGLE_FILE | BITTORRENT_MULTI_FILE

record bittorrent_file =
  bf_length :: int
  bf_md5sum :: string
  bf_selected :: bool
  bf_name :: string

record bittorrent_meta =
  info_hash :: "uchar list"
  creation_date :: int
  bt_comment :: "string option"
  tracker_uris :: "nat list"
  bt_pieces :: nat
  piece_length :: nat
  last_piece_length :: nat
  piece_hash :: "string option"
  bt_type :: bittorrent_type
  malicious_paths :: bool
  bt_name :: "string option"
  bt_files :: "bittorrent_file list"

definition BITTORRENT_NULL_ID :: "uchar list" where
  "BITTORRENT_NULL_ID = replicate 20 0"

definition zero_file :: bittorrent_file where
  "zero_file = \<lparr>bf_length = 0, bf_md5sum = replicate 32 NUL, bf_selected = False, bf_name = []\<rparr>"

definition zero_meta :: bittorrent_meta where
  "zero_meta = \<lparr>info_hash = BITTORRENT_NULL_ID, creation_date = 0, bt_comment = None, tracker_uris = [], bt_pieces = 0, piece_length = 0,
     last_piece_length = 0, piece_hash = None, bt_type = BITTORRENT_SINGLE_FILE, malicious_paths = False, bt_name = None, bt_files = []\<rparr>"

text \<open>What is outside: user protocols, which URIs are looked up with, and where new URIs are placed.\<close>

record torrent_env =
  te_user_program :: "string \<Rightarrow> bool"
  te_idn :: "string \<Rightarrow> string option"
  te_uri_mem :: "uri_cache \<Rightarrow> uri_mem"

definition add_bittorrent_file ::
  "torrent_env \<Rightarrow> bittorrent_meta \<Rightarrow> string \<Rightarrow> bittorrent_file \<Rightarrow> bittorrent_state \<times> bittorrent_meta" where
  "add_bittorrent_file env meta path template =
     (case normalize_bencoding_path (te_user_program env) (cstring path) of
        None \<Rightarrow> (BITTORRENT_STATE_OUT_OF_MEM, meta)
      | Some (path, malicious) \<Rightarrow>
          (BITTORRENT_STATE_OK,
           meta\<lparr>malicious_paths := malicious_paths meta \<or> malicious,
                bt_files := bt_files meta @ [template\<lparr>bf_name := path, bf_selected := True\<rparr>]\<rparr>))"

fun file_path_loop :: "string \<Rightarrow> string \<Rightarrow> btoken list \<Rightarrow> bittorrent_state \<times> string \<times> btoken list" where
  "file_path_loop src path [] = (BITTORRENT_STATE_ERROR, path, [])"
| "file_path_loop src path (t # ts) =
     (if tk_type t = BENCODING_TOKEN_END then (BITTORRENT_STATE_OK, path, t # ts)
      else if tk_type t \<noteq> BENCODING_TOKEN_STRING then (BITTORRENT_STATE_ERROR, path, t # ts)
      else file_path_loop src ((if path \<noteq> [] then path @ [if dir_sep (CHR 0x5c) then CHR 0x5c else CHR ''/''] else path) @ token_string src t) ts)"

definition parse_bencoding_file_path :: "string \<Rightarrow> string \<Rightarrow> btoken list \<Rightarrow> bittorrent_state \<times> string \<times> btoken list" where
  "parse_bencoding_file_path src path ts = file_path_loop src path (tl ts)"

lemma skip_tokens_length: "length (skip_tokens l ts) \<le> length ts - 1"
  by (induction l ts rule: skip_tokens.induct) (auto simp: Let_def)

lemma skip_bencoding_tokens_less [termination_simp]: "ts \<noteq> [] \<Longrightarrow> length (skip_bencoding_tokens ts) < length ts"
  using skip_tokens_length [of 0 ts] by (cases ts) (auto simp: skip_bencoding_tokens_def)

lemma check_entry_length:
  "check_bencoding_dictionary_entry src ts = (r, ts') \<Longrightarrow> length ts' \<le> length ts \<and> (r \<noteq> BENCODING_TOKEN_ERROR \<longrightarrow> ts' \<noteq> [])"
  by (induction src ts rule: check_bencoding_dictionary_entry.induct) (auto split: if_splits list.splits)

lemma shrink:
  "ts \<noteq> [] \<Longrightarrow> length ts \<le> n \<Longrightarrow> length ts - Suc 0 < n"
  "ts \<noteq> [] \<Longrightarrow> length ts \<le> n \<Longrightarrow> length ts' \<le> length ts - Suc 0 \<Longrightarrow> length ts' - Suc 0 < n"
  "ts \<noteq> [] \<Longrightarrow> length ts \<le> n \<Longrightarrow> length ts' \<le> length ts - Suc 0 \<Longrightarrow> length ts' < n"
  "ts \<noteq> [] \<Longrightarrow> length ts \<le> n \<Longrightarrow> length (skip_bencoding_tokens ts) < n"
  using skip_bencoding_tokens_less [of ts] by (cases ts; auto)+

lemma file_path_loop_length: "file_path_loop src path ts = (st, path', ts') \<Longrightarrow> length ts' \<le> length ts"
  by (induction src path ts rule: file_path_loop.induct) (auto split: if_splits dest: le_SucI)

text \<open>The dictionary of one file.\<close>

function file_dictionary_loop ::
  "torrent_env \<Rightarrow> string \<Rightarrow> bittorrent_meta \<Rightarrow> string \<Rightarrow> bittorrent_file \<Rightarrow> btoken list \<Rightarrow> bittorrent_state \<times> bittorrent_meta \<times> btoken list" where
  "file_dictionary_loop env src meta path fl ts =
     (if ts = [] then (BITTORRENT_STATE_ERROR, meta, ts)
      else case check_bencoding_dictionary_entry src ts of (entry, ts) \<Rightarrow>
        if entry = BENCODING_TOKEN_PATH then
          (case parse_bencoding_file_path src path ts of (st, path, ts) \<Rightarrow>
             if st \<noteq> BITTORRENT_STATE_OK then (st, meta, ts) else file_dictionary_loop env src meta path fl (tl ts))
        else if entry = BENCODING_TOKEN_LENGTH then
          file_dictionary_loop env src meta path (fl\<lparr>bf_length := parse_bencoding_integer src (hd ts)\<rparr>) (tl ts)
        else if entry = BENCODING_TOKEN_MD5SUM then
          if tk_len (hd ts) \<noteq> 32 then (BITTORRENT_STATE_ERROR, meta, ts)
          else file_dictionary_loop env src meta path (fl\<lparr>bf_md5sum := token_string src (hd ts)\<rparr>) (tl ts)
        else if entry = BENCODING_TOKEN_END then
          (case add_bittorrent_file env meta path fl of (st, meta) \<Rightarrow> (st, meta, tl ts))
        else if entry = BENCODING_TOKEN_ERROR then (BITTORRENT_STATE_ERROR, meta, ts)
        else file_dictionary_loop env src meta path fl (skip_bencoding_tokens ts))"
  by auto
termination
  by (relation "measure (\<lambda>(env, src, meta, path, fl, ts). length ts)")
    (auto simp: parse_bencoding_file_path_def dest!: check_entry_length [OF sym] file_path_loop_length [OF sym]
      intro: shrink)

declare file_dictionary_loop.simps [simp del]


definition parse_bencoding_file_dictionary ::
  "torrent_env \<Rightarrow> string \<Rightarrow> bittorrent_meta \<Rightarrow> btoken list \<Rightarrow> bittorrent_state \<times> bittorrent_meta \<times> btoken list" where
  "parse_bencoding_file_dictionary env src meta ts = file_dictionary_loop env src meta [] zero_file (tl ts)"

lemma file_dictionary_loop_length: "file_dictionary_loop env src meta path fl ts = (st, meta', ts') \<Longrightarrow> length ts' \<le> length ts"
proof (induction env src meta path fl ts rule: file_dictionary_loop.induct)
  case (1 env src meta path fl ts)
  show ?case
  proof (cases "ts = []")
    case True
    with "1.prems" show ?thesis
      by (simp add: file_dictionary_loop.simps)
  next
    case False
    obtain r us where c: "check_bencoding_dictionary_entry src ts = (r, us)"
      by fastforce
    obtain st2 path2 us2 where f: "parse_bencoding_file_path src path us = (st2, path2, us2)"
      using prod_cases3 by blast
    have us: "length us \<le> length ts" "length us2 \<le> length us" "length (skip_bencoding_tokens us) \<le> length us"
      using check_entry_length [OF c] file_path_loop_length [of src path "tl us"] skip_tokens_length [of 0 us] f
      by (auto simp: parse_bencoding_file_path_def skip_bencoding_tokens_def intro: order_trans)
    note ih = "1.IH" [OF False c [symmetric]]
    note ih1 = ih(1) [OF _ f [symmetric] refl]
    show ?thesis
      using "1.prems" False c f us ih1 ih(2-)
      by (auto simp: file_dictionary_loop.simps [of env src meta path fl ts] split: if_splits prod.splits intro: order_trans)
  qed
qed

text \<open>The list of files.\<close>

function files_list_loop ::
  "torrent_env \<Rightarrow> string \<Rightarrow> bittorrent_meta \<Rightarrow> btoken list \<Rightarrow> bittorrent_state \<times> bittorrent_meta \<times> btoken list" where
  "files_list_loop env src meta ts =
     (case ts of
        [] \<Rightarrow> (BITTORRENT_STATE_ERROR, meta, ts)
      | t # _ \<Rightarrow>
          if tk_type t = BENCODING_TOKEN_END then (BITTORRENT_STATE_OK, meta, tl ts)
          else if tk_type t \<noteq> BENCODING_TOKEN_DICTIONARY then (BITTORRENT_STATE_ERROR, meta, ts)
          else case parse_bencoding_file_dictionary env src meta ts of (st, meta, ts) \<Rightarrow>
                 if st \<noteq> BITTORRENT_STATE_OK then (st, meta, ts) else files_list_loop env src meta ts)"
  by auto
termination
  by (relation "measure (\<lambda>(env, src, meta, ts). length ts)")
    (auto simp: parse_bencoding_file_dictionary_def dest!: file_dictionary_loop_length [OF sym])

declare files_list_loop.simps [simp del]

definition parse_bencoding_files_list ::
  "torrent_env \<Rightarrow> string \<Rightarrow> bittorrent_meta \<Rightarrow> btoken list \<Rightarrow> bittorrent_state \<times> bittorrent_meta \<times> btoken list" where
  "parse_bencoding_files_list env src meta ts = files_list_loop env src meta (tl ts)"

lemma files_list_loop_length: "files_list_loop env src meta ts = (st, meta', ts') \<Longrightarrow> length ts' \<le> length ts"
proof (induction env src meta ts rule: files_list_loop.induct)
  case (1 env src meta ts)
  show ?case
  proof (cases ts)
    case Nil
    with "1.prems" show ?thesis
      by (simp add: files_list_loop.simps)
  next
    case (Cons t us)
    obtain st2 meta2 us2 where f: "parse_bencoding_file_dictionary env src meta ts = (st2, meta2, us2)"
      using prod_cases3 by blast
    have us: "length us2 \<le> length ts"
      using file_dictionary_loop_length [of env src meta "[]" zero_file "tl ts"] f
      by (auto simp: parse_bencoding_file_dictionary_def intro: order_trans)
    note ih = "1.IH" [OF Cons _ _ f [symmetric] refl]
    show ?thesis
      using "1.prems" Cons f us ih
      by (auto simp: files_list_loop.simps [of env src meta "t # us"] split: if_splits intro: order_trans)
  qed
qed

text \<open>The info dictionary.\<close>

function info_dictionary_loop ::
  "torrent_env \<Rightarrow> string \<Rightarrow> bittorrent_meta \<Rightarrow> bittorrent_file \<Rightarrow> btoken list \<Rightarrow> bittorrent_state \<times> bittorrent_meta \<times> btoken list" where
  "info_dictionary_loop env src meta fl ts =
     (if ts = [] then (BITTORRENT_STATE_ERROR, meta, ts)
      else case check_bencoding_dictionary_entry src ts of (entry, ts) \<Rightarrow>
        if entry = BENCODING_TOKEN_NAME then
          (case normalize_bencoding_path (te_user_program env) (token_string src (hd ts)) of
             None \<Rightarrow> (BITTORRENT_STATE_OUT_OF_MEM, meta\<lparr>bt_name := None\<rparr>, ts)
           | Some (name, malicious) \<Rightarrow>
               info_dictionary_loop env src (meta\<lparr>bt_name := Some name, malicious_paths := malicious_paths meta \<or> malicious\<rparr>) fl (tl ts))
        else if entry = BENCODING_TOKEN_PIECES then
          if tk_len (hd ts) mod 20 \<noteq> 0 then (BITTORRENT_STATE_ERROR, meta, ts)
          else info_dictionary_loop env src
                 (meta\<lparr>bt_pieces := tk_len (hd ts) div 20, piece_hash := Some (token_string src (hd ts))\<rparr>) fl (tl ts)
        else if entry = BENCODING_TOKEN_PIECE_LENGTH then
          let len = parse_bencoding_integer src (hd ts) in
          if len < 0 \<or> len \<ge> INT_MAX then (BITTORRENT_STATE_ERROR, meta, ts)
          else info_dictionary_loop env src (meta\<lparr>piece_length := nat len\<rparr>) fl (tl ts)
        else if entry = BENCODING_TOKEN_FILES then
          (case parse_bencoding_files_list env src (meta\<lparr>bt_type := BITTORRENT_MULTI_FILE\<rparr>) ts of (st, meta, ts) \<Rightarrow>
             if st \<noteq> BITTORRENT_STATE_OK then (st, meta, ts) else info_dictionary_loop env src meta fl ts)
        else if entry = BENCODING_TOKEN_LENGTH then
          info_dictionary_loop env src meta (fl\<lparr>bf_length := parse_bencoding_integer src (hd ts)\<rparr>) (tl ts)
        else if entry = BENCODING_TOKEN_MD5SUM then
          if tk_len (hd ts) \<noteq> 32 then (BITTORRENT_STATE_ERROR, meta, ts)
          else info_dictionary_loop env src meta (fl\<lparr>bf_md5sum := token_string src (hd ts)\<rparr>) (tl ts)
        else if entry = BENCODING_TOKEN_END then
          if bt_type meta = BITTORRENT_MULTI_FILE then (BITTORRENT_STATE_OK, meta, ts)
          else (case bt_name meta of
                  None \<Rightarrow> (BITTORRENT_STATE_ERROR, meta, ts)
                | Some name \<Rightarrow> (case add_bittorrent_file env meta name fl of (st, meta) \<Rightarrow> (st, meta, ts)))
        else if entry = BENCODING_TOKEN_ERROR then (BITTORRENT_STATE_ERROR, meta, ts)
        else info_dictionary_loop env src meta fl (skip_bencoding_tokens ts))"
  by auto
termination
  by (relation "measure (\<lambda>(env, src, meta, fl, ts). length ts)")
    (auto simp: parse_bencoding_files_list_def dest!: check_entry_length [OF sym] files_list_loop_length [OF sym] intro: shrink)

declare info_dictionary_loop.simps [simp del]

definition parse_bencoding_info_dictionary ::
  "torrent_env \<Rightarrow> string \<Rightarrow> bittorrent_meta \<Rightarrow> btoken list \<Rightarrow> bittorrent_state \<times> bittorrent_meta \<times> btoken list" where
  "parse_bencoding_info_dictionary env src meta ts = info_dictionary_loop env src meta zero_file (tl ts)"


lemma info_dictionary_loop_length: "info_dictionary_loop env src meta fl ts = (st, meta', ts') \<Longrightarrow> length ts' \<le> length ts"
proof (induction env src meta fl ts rule: info_dictionary_loop.induct)
  case (1 env src meta fl ts)
  show ?case
  proof (cases "ts = []")
    case True
    with "1.prems" show ?thesis
      by (simp add: info_dictionary_loop.simps)
  next
    case False
    obtain r us where c: "check_bencoding_dictionary_entry src ts = (r, us)"
      by fastforce
    obtain st2 meta2 us2 where f: "parse_bencoding_files_list env src (meta\<lparr>bt_type := BITTORRENT_MULTI_FILE\<rparr>) us = (st2, meta2, us2)"
      using prod_cases3 by blast
    have us: "length us \<le> length ts" "length us2 \<le> length us" "length (skip_bencoding_tokens us) \<le> length us"
      using check_entry_length [OF c] files_list_loop_length [of env src "meta\<lparr>bt_type := BITTORRENT_MULTI_FILE\<rparr>" "tl us"] f skip_tokens_length [of 0 us]
      by (auto simp: parse_bencoding_files_list_def skip_bencoding_tokens_def intro: order_trans)
    note ih = "1.IH" [OF False c [symmetric]]
    note ih4 = ih(4) [OF _ _ _ _ f [symmetric] refl]
    have ih1: "length ts' \<le> length (tl us)"
      if "r = BENCODING_TOKEN_NAME" "normalize_bencoding_path (te_user_program env) (token_string src (hd us)) = Some (a, b)"
        "info_dictionary_loop env src (meta\<lparr>bt_name := Some a, malicious_paths := malicious_paths meta \<or> b\<rparr>) fl (tl us) = (st, meta', ts')" for a b
      by (rule ih(1) [OF that(1,2) refl that(3)])
    show ?thesis
      using "1.prems" False c f us ih1 ih(2,3) ih4 ih(5-)
      by (auto simp: info_dictionary_loop.simps [of env src meta fl ts] Let_def split: if_splits prod.splits option.splits intro: order_trans)
  qed
qed

section \<open>The whole file\<close>

definition bittorrent_id_is_empty :: "uchar list \<Rightarrow> bool" where
  "bittorrent_id_is_empty i \<longleftrightarrow> i = BITTORRENT_NULL_ID"

fun sum_lengths :: "int \<Rightarrow> bittorrent_file list \<Rightarrow> int option" where
  "sum_lengths acc [] = Some acc"
| "sum_lengths acc (f # fs) = (if bf_length f < 0 then None else sum_lengths (int64 (acc + bf_length f)) fs)"

definition check_bittorrent_metafile :: "bittorrent_meta \<Rightarrow> bittorrent_state \<times> bittorrent_meta" where
  "check_bittorrent_metafile meta =
     (if bittorrent_id_is_empty (info_hash meta) \<or> bt_pieces meta = 0 \<or> bt_name meta = None \<or> bt_name meta = Some [] \<or>
         piece_hash meta = None \<or> piece_length meta = 0 \<or> tracker_uris meta = [] \<or> bt_files meta = []
      then (BITTORRENT_STATE_ERROR, meta)
      else case sum_lengths 0 (bt_files meta) of
        None \<Rightarrow> (BITTORRENT_STATE_ERROR, meta)
      | Some total_length \<Rightarrow>
          let last = total_length smod int (piece_length meta);
              last = (if last = 0 then int (piece_length meta) else last);
              meta = meta\<lparr>last_piece_length := nat (last mod 2 ^ 32)\<rparr>
          in if int (last_piece_length meta) \<noteq> last then (BITTORRENT_STATE_ERROR, meta) else (BITTORRENT_STATE_OK, meta))"

definition add_tracker :: "torrent_env \<Rightarrow> bittorrent_meta \<Rightarrow> string \<Rightarrow> uri_cache \<Rightarrow> bittorrent_meta \<times> uri_cache" where
  "add_tracker env meta s uc =
     (case get_uri (te_user_program env) (te_idn env) (te_uri_mem env uc) (cstring s) 0 uc of
        (None, uc) \<Rightarrow> (meta, uc)
      | (Some a, uc) \<Rightarrow>
          (case add_to_uri_list True (tracker_uris meta) a uc of
             (_, uris, uc) \<Rightarrow> (meta\<lparr>tracker_uris := uris\<rparr>, done_uri a uc)))"

function metafile_loop ::
  "torrent_env \<Rightarrow> string \<Rightarrow> bittorrent_meta \<Rightarrow> uri_cache \<Rightarrow> btoken list \<Rightarrow> bittorrent_state \<times> bittorrent_meta \<times> uri_cache" where
  "metafile_loop env src meta uc ts =
     (if ts = [] then (BITTORRENT_STATE_ERROR, meta, uc)
      else case check_bencoding_dictionary_entry src ts of (entry, ts) \<Rightarrow>
        if entry = BENCODING_TOKEN_ANNOUNCE then
          (case add_tracker env meta (token_string src (hd ts)) uc of (meta, uc) \<Rightarrow> metafile_loop env src meta uc (tl ts))
        else if entry = BENCODING_TOKEN_ANNOUNCE_LIST then metafile_loop env src meta uc (skip_bencoding_tokens ts)
        else if entry = BENCODING_TOKEN_INFO then
          let start = tk_pos (hd ts) in
          (case parse_bencoding_info_dictionary env src meta ts of (st, meta, ts) \<Rightarrow>
             if st \<noteq> BITTORRENT_STATE_OK then (BITTORRENT_STATE_ERROR, meta, uc)
             else metafile_loop env src
               (meta\<lparr>info_hash := digest_sha1 (bytes (bytes_at src start (tk_pos (hd ts) + tk_len (hd ts) - start)))\<rparr>) uc (tl ts))
        else if entry = BENCODING_TOKEN_COMMENT then
          metafile_loop env src (meta\<lparr>bt_comment := Some (cstring (take 1024 (token_string src (hd ts))))\<rparr>) uc (tl ts)
        else if entry = BENCODING_TOKEN_CREATION_DATE then
          metafile_loop env src (meta\<lparr>creation_date := parse_bencoding_integer src (hd ts)\<rparr>) uc (tl ts)
        else if entry = BENCODING_TOKEN_CREATED_BY then metafile_loop env src meta uc (tl ts)
        else if entry = BENCODING_TOKEN_END then (case check_bittorrent_metafile meta of (st, meta) \<Rightarrow> (st, meta, uc))
        else if entry = BENCODING_TOKEN_ERROR then (BITTORRENT_STATE_ERROR, meta, uc)
        else metafile_loop env src meta uc (skip_bencoding_tokens ts))"
  by auto
termination
  by (relation "measure (\<lambda>(env, src, meta, uc, ts). length ts)")
    (auto simp: parse_bencoding_info_dictionary_def dest!: check_entry_length [OF sym] info_dictionary_loop_length [OF sym]
      intro: shrink)

declare metafile_loop.simps [simp del]

definition parse_bittorrent_metafile ::
  "torrent_env \<Rightarrow> string \<Rightarrow> nat \<Rightarrow> uri_cache \<Rightarrow> bittorrent_state \<times> bittorrent_meta \<times> uri_cache" where
  "parse_bittorrent_metafile env src e uc =
     (case bencoding_tokens src e of
        [] \<Rightarrow> (BITTORRENT_STATE_ERROR, zero_meta, uc)
      | t # ts \<Rightarrow>
          if tk_type t \<noteq> BENCODING_TOKEN_DICTIONARY then (BITTORRENT_STATE_ERROR, zero_meta, uc)
          else metafile_loop env src zero_meta uc ts)"

end
