(* ===== verification/Sha1Eval.thy ===== *)
theory Sha1Eval
  imports Sha1
begin

text \<open>
  Evaluation of the digest of a concrete message: the rounds of FIPS 180 on integers, which the simplifier computes
  quickly, with the proof that they are the rounds on words. The first test vector of the standard is an example.
\<close>

section \<open>The rounds on integers\<close>

definition rotl_int :: "nat \<Rightarrow> int \<Rightarrow> int" where
  "rotl_int n x = (x * 2 ^ n + x mod 2 ^ 32 div 2 ^ (32 - n)) mod 2 ^ 32"

lemma wi_mod: "(word_of_int (x mod 2 ^ 32) :: uint32) = word_of_int x"
  by (simp add: word_of_int_eq_iff take_bit_eq_mod)

lemma drop_wi: "drop_bit m (word_of_int x :: uint32) = word_of_int (x mod 2 ^ 32 div 2 ^ m)"
  by transfer (simp add: drop_bit_eq_div take_bit_eq_mod)

lemma rotl_int: "0 < n \<Longrightarrow> n < 32 \<Longrightarrow> word_rotl n (word_of_int x :: uint32) = word_of_int (rotl_int n x)"
proof -
  assume n: "0 < n" "n < 32"
  have "word_rotl n (word_of_int x :: uint32) = push_bit n (word_of_int x) OR drop_bit (32 - n) (word_of_int x)"
    using SHA_ROT_rotl [OF n, of "word_of_int x"] by (simp add: SHA_ROT_def)
  also have "\<dots> = push_bit n (word_of_int x) + drop_bit (32 - n) (word_of_int x)"
    using n by (intro disjunctive_add [symmetric]) (auto simp: bit_simps)
  also have "\<dots> = word_of_int (x * 2 ^ n) + word_of_int (x mod 2 ^ 32 div 2 ^ (32 - n))"
    by (simp add: push_bit_eq_mult drop_wi flip: wi_hom_mult)
  finally show ?thesis
    by (simp only: rotl_int_def wi_mod wi_hom_add)
qed

fun words_int :: "int list \<Rightarrow> int list" where
  "words_int (a # b # c # d # bs) = (((a * 256 + b) * 256 + c) * 256 + d) # words_int bs"
| "words_int _ = []"

primrec schedule_int :: "nat \<Rightarrow> int list \<Rightarrow> int list" where
  "schedule_int 0 ws = ws"
| "schedule_int (Suc n) ws = schedule_int n (rotl_int 1 (ws ! 2 XOR ws ! 7 XOR ws ! 13 XOR ws ! 15) # ws)"

definition f_int :: "nat \<Rightarrow> int \<Rightarrow> int \<Rightarrow> int \<Rightarrow> int" where
  "f_int t x y z =
     (if t < 20 then (x AND y) XOR (NOT x AND z)
      else if 40 \<le> t \<and> t < 60 then (x AND y) XOR (x AND z) XOR (y AND z)
      else x XOR y XOR z)"

definition k_int :: "nat \<Rightarrow> int" where
  "k_int t = (if t \<le> 19 then 0x5a827999 else if t \<le> 39 then 0x6ed9eba1 else if t \<le> 59 then 0x8f1bbcdc else 0xca62c1d6)"

fun rounds_int :: "nat \<Rightarrow> int \<times> int \<times> int \<times> int \<times> int \<Rightarrow> int list \<Rightarrow> int \<times> int \<times> int \<times> int \<times> int" where
  "rounds_int t (a, b, c, d, e) [] = (a, b, c, d, e)"
| "rounds_int t (a, b, c, d, e) (x # xs) =
     rounds_int (t + 1) ((rotl_int 5 a + f_int t b c d + e + k_int t + x) mod 2 ^ 32, a, rotl_int 30 b, c, d) xs"

definition block_int :: "int list \<Rightarrow> int list \<Rightarrow> int list" where
  "block_int h bs =
     (case rounds_int 0 (h ! 0, h ! 1, h ! 2, h ! 3, h ! 4) (rev (schedule_int 64 (rev (words_int bs)))) of
        (a, b, c, d, e) \<Rightarrow> map (\<lambda>x. x mod 2 ^ 32) [a + h ! 0, b + h ! 1, c + h ! 2, d + h ! 3, e + h ! 4])"

lemma wi_bits:
  "(word_of_int a AND word_of_int b :: uint32) = word_of_int (a AND b)" "(word_of_int a OR word_of_int b :: uint32) = word_of_int (a OR b)"
  "(word_of_int a XOR word_of_int b :: uint32) = word_of_int (a XOR b)" "(NOT (word_of_int a) :: uint32) = word_of_int (NOT a)"
  by (transfer, simp)+

lemma words_int: "\<forall>b\<in>set bs. 0 \<le> b \<and> b < 256 \<Longrightarrow> words_of (map word_of_int bs) = map word_of_int (words_int bs)"
proof (induction bs rule: words_int.induct)
  case (1 a b c d bs)
  have "(ucast (word_of_int x :: uchar) :: uint32) = word_of_int x" if "0 \<le> x \<and> x < 256" for x
    using that by (simp add: unsigned_of_int take_bit_int_eq_self)
  then have u: "ucast (word_of_int a :: uchar) = (word_of_int a :: uint32)" "ucast (word_of_int b :: uchar) = (word_of_int b :: uint32)"
      "ucast (word_of_int c :: uchar) = (word_of_int c :: uint32)" "ucast (word_of_int d :: uchar) = (word_of_int d :: uint32)"
    using 1 by simp_all
  have bit8: "n < 8" if "bit (word_of_int x :: uint32) n" "0 \<le> x \<and> x < 256" for x n
  proof (rule ccontr)
    assume "\<not> n < 8"
    then have "\<not> bit (take_bit 8 x) n"
      by (simp add: bit_simps)
    moreover have "take_bit 8 x = x"
      using that(2) by (simp add: take_bit_int_eq_self)
    ultimately show False
      using that(1) by (simp add: bit_simps)
  qed
  have or: "push_bit 8 (word_of_int z :: uint32) OR word_of_int y = word_of_int (z * 256 + y)" if "0 \<le> y \<and> y < 256" for z y
  proof -
    have "push_bit 8 (word_of_int z :: uint32) OR word_of_int y = push_bit 8 (word_of_int z) + word_of_int y"
      using bit8 [OF _ that] by (intro disjunctive_add [symmetric]) (auto simp: bit_simps not_le)
    then show ?thesis
      by (simp add: push_bit_eq_mult)
  qed
  have cat: "push_bit 24 p OR push_bit 16 q OR push_bit 8 r OR s = push_bit 8 (push_bit 8 (push_bit 8 p OR q) OR r) OR s" for p q r s :: uint32
    by (rule bit_word_eqI) (auto simp: bit_simps)
  have "push_bit 24 (ucast (word_of_int a :: uchar)) OR push_bit 16 (ucast (word_of_int b :: uchar)) OR
      push_bit 8 (ucast (word_of_int c :: uchar)) OR ucast (word_of_int d :: uchar) =
    (word_of_int (((a * 256 + b) * 256 + c) * 256 + d) :: uint32)"
    unfolding u cat using "1.prems" by (simp only: or list.set insert_iff simp_thms)
  with 1 show ?case
    by simp
qed simp_all


lemma schedule_int:
  assumes "16 \<le> length ws" "\<forall>i<length ws. (word_of_int (rev ws ! i) :: uint32) = schedule m i"
  shows "length (schedule_int n ws) = n + length ws \<and> (\<forall>i<n + length ws. (word_of_int (rev (schedule_int n ws) ! i) :: uint32) = schedule m i)"
  using assms
proof (induction n arbitrary: ws)
  case (Suc n)
  let ?w = "rotl_int 1 (ws ! 2 XOR ws ! 7 XOR ws ! 13 XOR ws ! 15)"
  have at: "(word_of_int (ws ! k) :: uint32) = schedule m (length ws - Suc k)" if "k < 16" for k
    using spec [OF Suc.prems(2), of "length ws - Suc k"] Suc.prems(1) that by (simp add: rev_nth)
  have "(word_of_int ?w :: uint32) = schedule m (length ws)"
    using Suc.prems(1) at [of 2] at [of 7] at [of 13] at [of 15]
    by (simp add: schedule.simps [of m "length ws"] eval_nat_numeral flip: rotl_int wi_bits)
  then have "\<forall>i<length (?w # ws). (word_of_int (rev (?w # ws) ! i) :: uint32) = schedule m i"
    using Suc.prems(2) by (auto simp: nth_append less_Suc_eq)
  from Suc.IH [OF _ this] Suc.prems(1) show ?case
    by simp
qed simp

abbreviation words5 :: "int \<times> int \<times> int \<times> int \<times> int \<Rightarrow> uint32 \<times> uint32 \<times> uint32 \<times> uint32 \<times> uint32" where
  "words5 s \<equiv> (case s of (a, b, c, d, e) \<Rightarrow> (word_of_int a, word_of_int b, word_of_int c, word_of_int d, word_of_int e))"

lemma f_int: "fips_f t (word_of_int x) (word_of_int y) (word_of_int z) = word_of_int (f_int t x y z)"
  by (simp add: fips_f_def f_int_def wi_bits)

lemma k_int: "sha_k t = word_of_int (k_int t)"
  by (simp add: sha_k_def k_int_def)

lemma rounds_int:
  "\<forall>i<length xs. schedule m (t + i) = word_of_int (xs ! i) \<Longrightarrow>
     foldl (fips_round m) (words5 s) [t..<t + length xs] = words5 (rounds_int t s xs)"
proof (induction t s xs rule: rounds_int.induct)
  case (2 t a b c d e x xs)
  have "fips_round m (words5 (a, b, c, d, e)) t =
      words5 ((rotl_int 5 a + f_int t b c d + e + k_int t + x) mod 2 ^ 32, a, rotl_int 30 b, c, d)"
    using 2(2) by (simp only: fips_round_def prod.case wi_mod) (auto simp: f_int k_int rotl_int dest!: spec [of _ 0])
  moreover have "\<forall>i<length xs. schedule m (t + 1 + i) = word_of_int (xs ! i)"
    using 2(2) by (metis add.commute add_Suc_right length_Cons nth_Cons_Suc plus_1_eq_Suc Suc_less_eq add.assoc)
  moreover have "[t..<t + length (x # xs)] = t # [t + 1..<t + 1 + length xs]"
    using upt_conv_Cons [of t "t + length (x # xs)"] by simp
  ultimately show ?case
    using 2(1) by simp
qed simp

lemma block_int:
  assumes "length h = 5" "length bs = 64" "\<forall>b\<in>set bs. 0 \<le> b \<and> b < 256"
  shows "fips_block (map word_of_int h) (map word_of_int bs) = map word_of_int (block_int h bs)"
proof -
  let ?w = "words_of (map word_of_int bs)" and ?ws = "rev (schedule_int 64 (rev (words_int bs)))"
  have w: "?w = map word_of_int (words_int bs)" "length ?w = 16"
    using words_int [OF assms(3)] words_of_be [of "map word_of_int bs" 16] assms(2) by simp_all
  then have l: "length (words_int bs) = 16"
    by (metis length_map)
  have "\<forall>i<16. word_of_int (words_int bs ! i) = schedule ?w i"
    using w(1) l by (simp add: schedule.simps)
  then have s: "length (schedule_int 64 (rev (words_int bs))) = 80" "\<forall>i<80. schedule ?w i = word_of_int (?ws ! i)"
    using schedule_int [of "rev (words_int bs)" ?w 64] l by simp_all
  have "[0..<80] = [0..<0 + length ?ws]"
    using s(1) by simp
  then have "foldl (fips_round ?w) (words5 r) [0..<80] = words5 (rounds_int 0 r ?ws)" for r
    using rounds_int [of ?ws ?w 0 r] s by simp
  from this [of "(h ! 0, h ! 1, h ! 2, h ! 3, h ! 4)"] assms(1) show ?thesis
    by (auto simp: fips_block_def block_int_def wi_mod [simplified] split: prod.split simp del: upt_rec_numeral)
qed


lemma length_block_int [simp]: "length (block_int h bs) = 5"
  by (simp add: block_int_def split: prod.split)

lemma blocks_int:
  assumes "block_int h bs = h'" "length h = 5" "length bs = 64" "list_all (\<lambda>b. 0 \<le> b \<and> b < 256) bs"
  shows "fips_blocks (map word_of_int h) (map word_of_int (bs @ cs)) = fips_blocks (map word_of_int h') (map word_of_int cs)"
  using fips_blocks_append [of "map word_of_int bs" _ "map word_of_int cs"] block_int [OF assms(2,3)] assms
  by (simp add: fips_blocks_one list_all_iff)

lemma H0_int: "H0 = map word_of_int [0x67452301, 0xefcdab89, 0x98badcfe, 0x10325476, 0xc3d2e1f0]"
  by (simp add: H0_def)

lemmas eval_int = block_int_def rotl_int_def f_int_def k_int_def eval_nat_numeral(2,3)

text \<open>The first test vector of FIPS 180.\<close>

lemma abc_block:
  "block_int [0x67452301, 0xefcdab89, 0x98badcfe, 0x10325476, 0xc3d2e1f0]
    [97, 98, 99, 128, 0, 0, 0, 0, 0, 0, 0, 0, 0, 0, 0, 0, 0, 0, 0, 0, 0, 0, 0, 0, 0, 0, 0, 0, 0, 0, 0, 0,
     0, 0, 0, 0, 0, 0, 0, 0, 0, 0, 0, 0, 0, 0, 0, 0, 0, 0, 0, 0, 0, 0, 0, 0, 0, 0, 0, 0, 0, 0, 0, 24] =
    [0xa9993e36, 0x4706816a, 0xba3e2571, 0x7850c26c, 0x9cd0d89d]"
  by (simp add: eval_int)

lemma digest_abc:
  "digest_sha1 ([97, 98, 99]) = map word_of_int [169, 153, 62, 54, 71, 6, 129, 106, 186, 62, 37, 113, 120, 80, 194, 108, 156, 208, 216, 157]"
proof -
  have "fips_pad ([97, 98, 99]) = map word_of_int 
    [97, 98, 99, 128, 0, 0, 0, 0, 0, 0, 0, 0, 0, 0, 0, 0, 0, 0, 0, 0, 0, 0, 0, 0, 0, 0, 0, 0, 0, 0, 0, 0,
     0, 0, 0, 0, 0, 0, 0, 0, 0, 0, 0, 0, 0, 0, 0, 0, 0, 0, 0, 0, 0, 0, 0, 0, 0, 0, 0, 0, 0, 0, 0, 24]"
    by code_simp
  then have "fips_blocks H0 (fips_pad ([97, 98, 99])) = map word_of_int [0xa9993e36, 0x4706816a, 0xba3e2571, 0x7850c26c, 0x9cd0d89d]"
    using blocks_int [OF abc_block, of "[]"]
    by (simp add: H0_int fips_blocks_short)
  then show ?thesis
    by (simp add: digest_fips fips_sha1_def H0_def word_bytes_def drop_bit_eq_div unsigned_of_int)
qed

end
