(* ===== verification/Bentree.thy ===== *)
theory Bentree
  imports Bencoding Sha1Eval
begin

text \<open>
  The parser of .torrent files and the values it reads. A bencoded value is a tree; its text is scanned to the tokens of the tree, a skipped
  value is skipped exactly, and the parser that works on tokens computes what is read off the tree.
\<close>

section \<open>Bencoded values\<close>

datatype bvalue = BInt int | BStr string | BList "bvalue list" | BDict "(string \<times> bvalue) list"

definition show_nat :: "nat \<Rightarrow> string" where
  "show_nat n = put_digits False 10 (num_len 10 n) n"

definition show_int :: "int \<Rightarrow> string" where
  "show_int i = (if i < 0 then CHR ''-'' # show_nat (nat (- i)) else show_nat (nat i))"

definition bencode_string :: "string \<Rightarrow> string" where
  "bencode_string s = show_nat (length s) @ [CHR '':''] @ s"

fun bencode :: "bvalue \<Rightarrow> string" where
  "bencode (BInt i) = ''i'' @ show_int i @ ''e''"
| "bencode (BStr s) = bencode_string s"
| "bencode (BList vs) = ''l'' @ concat (map bencode vs) @ ''e''"
| "bencode (BDict kvs) = ''d'' @ concat (map (\<lambda>(k, v). bencode_string k @ bencode v) kvs) @ ''e''"

text \<open>Strings that are not too long for the scanner.\<close>

fun short :: "bvalue \<Rightarrow> bool" where
  "short (BInt i) = True"
| "short (BStr s) = (int (length s) < INT_MAX)"
| "short (BList vs) = (\<forall>v\<in>set vs. short v)"
| "short (BDict kvs) = (\<forall>(k, v)\<in>set kvs. int (length k) < INT_MAX \<and> short v)"

text \<open>The tokens of a value that starts at an offset.\<close>

definition string_token :: "nat \<Rightarrow> string \<Rightarrow> btoken" where
  "string_token p s = \<lparr>tk_type = BENCODING_TOKEN_STRING, tk_pos = p + length (show_nat (length s)) + 1, tk_len = length s\<rparr>"

definition mark :: "bencoding_token \<Rightarrow> nat \<Rightarrow> btoken" where
  "mark k p = \<lparr>tk_type = k, tk_pos = p, tk_len = 1\<rparr>"

fun tokens_at :: "nat \<Rightarrow> bvalue \<Rightarrow> btoken list" and tokens_list :: "nat \<Rightarrow> bvalue list \<Rightarrow> btoken list"
  and tokens_dict :: "nat \<Rightarrow> (string \<times> bvalue) list \<Rightarrow> btoken list" where
  "tokens_at p (BInt i) = [\<lparr>tk_type = BENCODING_TOKEN_INTEGER, tk_pos = p + 1, tk_len = length (show_int i)\<rparr>]"
| "tokens_at p (BStr s) = [string_token p s]"
| "tokens_at p (BList vs) =
     mark BENCODING_TOKEN_LIST p # tokens_list (p + 1) vs @ [mark BENCODING_TOKEN_END (p + length (bencode (BList vs)) - 1)]"
| "tokens_at p (BDict kvs) =
     mark BENCODING_TOKEN_DICTIONARY p # tokens_dict (p + 1) kvs @ [mark BENCODING_TOKEN_END (p + length (bencode (BDict kvs)) - 1)]"
| "tokens_list p [] = []"
| "tokens_list p (v # vs) = tokens_at p v @ tokens_list (p + length (bencode v)) vs"
| "tokens_dict p [] = []"
| "tokens_dict p ((k, v) # kvs) =
     string_token p k # tokens_at (p + length (bencode_string k)) v @ tokens_dict (p + length (bencode_string k) + length (bencode v)) kvs"

lemma show_nat_digits: "list_all c_isdigit (show_nat n) \<and> show_nat n \<noteq> [] \<and> dec_val (show_nat n) = int n"
proof -
  have "length (show_nat n) > 0"
    using num_len_bounds [of 10 n] by (simp add: show_nat_def)
  then have "show_nat n \<noteq> []"
    by simp
  moreover have "dec_val (show_nat n) = int n"
    using num_len_bounds [of 10 n] put_digits_val [of 10 False "num_len 10 n" n]
    by (simp add: show_nat_def dec_val_num_val put_digits_isdigit)
  ultimately show ?thesis
    by (simp add: show_nat_def put_digits_isdigit)
qed

lemma scan_digits:
  "list_all c_isdigit ds \<Longrightarrow> drop s src = ds @ c # r \<Longrightarrow> \<not> c_isdigit c \<Longrightarrow> s + length ds \<le> e \<Longrightarrow>
   scan_bencoding_integer src e s = s + length ds"
proof (induction ds arbitrary: s)
  case Nil
  then have "rd src s = c"
    using rd_drop [of src s 0] by simp
  with Nil show ?case
    by (simp add: scan_bencoding_integer.simps [of src e s])
next
  case (Cons d ds)
  then have "rd src s = d"
    using rd_drop [of src s 0] by simp
  moreover have "drop (s + 1) src = ds @ c # r"
    using Cons.prems(2) by (metis drop_advance One_nat_def append_Cons append_Nil list.size(3,4) add_0)
  ultimately show ?case
    using Cons by (simp add: scan_bencoding_integer.simps [of src e s])
qed

lemma rd_text_at: "drop p src = xs @ c # r \<Longrightarrow> rd src (p + length xs) = c"
  by (simp add: rd_drop nth_append)

lemma digit_starts: "c_isdigit c \<Longrightarrow> c \<noteq> CHR ''e'' \<and> c \<noteq> CHR ''i'' \<and> c \<noteq> CHR ''d'' \<and> c \<noteq> CHR ''l'' \<and> c \<noteq> CHR '':''"
  by (auto simp: c_isdigit_def)

lemma scan_string:
  assumes "drop p src = bencode_string s @ r" "p + length (bencode_string s) \<le> e" "int (length s) < INT_MAX"
  shows "scan_bencoding_token src e p = (string_token p s, p + length (bencode_string s))"
proof -
  obtain d ds where ds: "show_nat (length s) = d # ds" "c_isdigit d" "list_all c_isdigit ds" "dec_val (d # ds) = int (length s)"
    using show_nat_digits [of "length s"] by (cases "show_nat (length s)") auto
  have dr: "drop p src = d # ds @ CHR '':'' # s @ r"
    using assms(1) by (simp add: bencode_string_def ds(1))
  then have first: "rd src p = d"
    using rd_text_at [of p src "[]"] by simp
  have "drop (p + 1) src = ds @ CHR '':'' # s @ r"
    using dr by (metis drop_advance One_nat_def append_Cons append_Nil list.size(3,4) add_0)
  then have sc: "scan_bencoding_integer src e (p + 1) = p + 1 + length ds"
    using assms(2) ds by (intro scan_digits [where c = "CHR '':''"]) (auto simp: bencode_string_def c_isdigit_def)
  have colon: "rd src (p + 1 + length ds) = CHR '':''"
    using rd_text_at [of p src "d # ds"] dr by simp
  have val: "bytes_at src p (p + 1 + length ds - p) = d # ds"
    using dr by (simp add: bytes_at_def)
  have "int (p + 1 + length ds) + int (length s) < int e"
    using assms(2) by (simp add: bencode_string_def ds(1))
  then show ?thesis
    using assms(3) ds(2) unfolding scan_bencoding_token_def Let_def first sc colon val ds(4)
    by (simp add: string_token_def bencode_string_def ds(1))
qed

lemma scan_int:
  assumes "drop p src = bencode (BInt i) @ r" "p + length (bencode (BInt i)) \<le> e"
  shows "scan_bencoding_token src e p = (hd (tokens_at p (BInt i)), p + length (bencode (BInt i)))"
proof -
  define n where "n = nat (if i < 0 then - i else i)"
  have digs: "list_all c_isdigit (show_nat n)" "show_nat n \<noteq> []"
    using show_nat_digits [of n] by auto
  have first: "rd src p = CHR ''i''"
    using rd_text_at [of p src "[]"] assms(1) by simp
  have si: "show_int i = (if i < 0 then CHR ''-'' # show_nat n else show_nat n)"
    by (simp add: show_int_def n_def)
  have dr: "drop (p + 1) src = show_int i @ CHR ''e'' # r"
    using assms(1) drop_advance [of p src "''i''" "show_int i @ CHR ''e'' # r"] by simp
  have sgn: "rd src (p + 1) = CHR ''-'' \<longleftrightarrow> i < 0"
  proof (cases "i < 0")
    case True
    then show ?thesis
      using rd_text_at [of "p + 1" src "[]"] dr by (simp add: si)
  next
    case False
    moreover obtain d ds where "show_nat n = d # ds" "c_isdigit d"
      using digs by (cases "show_nat n") auto
    ultimately show ?thesis
      using rd_text_at [of "p + 1" src "[]" d] dr by (auto simp: si)
  qed
  have "drop (if i < 0 then p + 1 + 1 else p + 1) src = show_nat n @ CHR ''e'' # r"
    using dr drop_advance [of "p + 1" src "''-''" "show_nat n @ CHR ''e'' # r"] by (simp add: si)
  then have sc: "scan_bencoding_integer src e (if i < 0 then p + 1 + 1 else p + 1) = (if i < 0 then p + 1 + 1 else p + 1) + length (show_nat n)"
    using assms(2) digs by (intro scan_digits [where c = "CHR ''e''"]) (auto simp: si c_isdigit_def)
  have sc': "(if i < 0 then p + 1 + 1 else p + 1) + length (show_nat n) = p + 1 + length (show_int i)"
    by (simp add: si)
  have fin: "rd src (p + 1 + length (show_int i)) = CHR ''e''"
    using rd_text_at [OF dr] .
  have "show_int i \<noteq> []"
    using digs by (simp add: si)
  then show ?thesis
    unfolding scan_bencoding_token_def Let_def first sgn sc [unfolded sc'] fin by (simp add: c_isdigit_def)
qed

lemma scan_mark:
  assumes "drop p src = c # r"
  shows "c = CHR ''l'' \<Longrightarrow> scan_bencoding_token src e p = (mark BENCODING_TOKEN_LIST p, p + 1)"
    "c = CHR ''d'' \<Longrightarrow> scan_bencoding_token src e p = (mark BENCODING_TOKEN_DICTIONARY p, p + 1)"
    "c = CHR ''e'' \<Longrightarrow> scan_bencoding_token src e p = (mark BENCODING_TOKEN_END p, p + 1)"
  using rd_text_at [of p src "[]"] assms by (simp_all add: scan_bencoding_token_def Let_def mark_def c_isdigit_def)


section \<open>Scanning an encoded value\<close>

abbreviation tokens_from :: "string \<Rightarrow> nat \<Rightarrow> nat \<Rightarrow> btoken list" where
  "tokens_from src e p \<equiv> all_tokens BENCODING_TOKEN_NONE (scan_bencoding_token src e) e p"

lemma tokens_step:
  "scan_bencoding_token src e p = (t, q) \<Longrightarrow> p < q \<Longrightarrow> p < e \<Longrightarrow> tk_type t \<noteq> BENCODING_TOKEN_NONE \<Longrightarrow>
   tokens_from src e p = t # tokens_from src e q"
  by (subst all_tokens.simps) simp

lemma tokens_string:
  assumes "drop p src = bencode_string s @ r" "p + length (bencode_string s) \<le> e" "int (length s) < INT_MAX"
  shows "tokens_from src e p = string_token p s # tokens_from src e (p + length (bencode_string s))"
  using assms(2) by (intro tokens_step [OF scan_string [OF assms]]) (auto simp: bencode_string_def string_token_def)

lemma tokens_mark:
  assumes "drop p src = c # r" "p < e"
  shows "c = CHR ''l'' \<Longrightarrow> tokens_from src e p = mark BENCODING_TOKEN_LIST p # tokens_from src e (p + 1)"
    "c = CHR ''d'' \<Longrightarrow> tokens_from src e p = mark BENCODING_TOKEN_DICTIONARY p # tokens_from src e (p + 1)"
    "c = CHR ''e'' \<Longrightarrow> tokens_from src e p = mark BENCODING_TOKEN_END p # tokens_from src e (p + 1)"
  using tokens_step [OF scan_mark(1) [OF assms(1)]] tokens_step [OF scan_mark(2) [OF assms(1)]]
    tokens_step [OF scan_mark(3) [OF assms(1)]] assms(2)
  by (simp_all add: mark_def)

lemma tokens_value:
  "drop p src = bencode v @ r \<Longrightarrow> p + length (bencode v) \<le> e \<Longrightarrow> short v \<Longrightarrow>
     tokens_from src e p = tokens_at p v @ tokens_from src e (p + length (bencode v))"
  and "drop p src = concat (map bencode vs) @ r \<Longrightarrow> p + length (concat (map bencode vs)) \<le> e \<Longrightarrow> \<forall>v\<in>set vs. short v \<Longrightarrow>
     tokens_from src e p = tokens_list p vs @ tokens_from src e (p + length (concat (map bencode vs)))"
  and "drop p src = concat (map (\<lambda>(k, v). bencode_string k @ bencode v) kvs) @ r \<Longrightarrow>
     p + length (concat (map (\<lambda>(k, v). bencode_string k @ bencode v) kvs)) \<le> e \<Longrightarrow>
     \<forall>(k, v)\<in>set kvs. int (length k) < INT_MAX \<and> short v \<Longrightarrow>
     tokens_from src e p = tokens_dict p kvs @ tokens_from src e (p + length (concat (map (\<lambda>(k, v). bencode_string k @ bencode v) kvs)))"
proof (induction p v and p vs and p kvs arbitrary: r and r and r rule: tokens_at_tokens_list_tokens_dict.induct)
  case (1 p i)
  show ?case
    using 1 by (subst tokens_step [OF scan_int [OF 1(1,2)]]) auto
next
  case (2 p s)
  then show ?case
    using tokens_string [of p src s r e] by simp
next
  case (3 p vs)
  let ?c = "concat (map bencode vs)"
  have d: "drop p src = CHR ''l'' # ?c @ CHR ''e'' # r"
    using "3.prems"(1) by simp
  have d1: "drop (p + 1) src = ?c @ CHR ''e'' # r"
    using drop_advance [of p src "''l''"] d by simp
  have d2: "drop (p + 1 + length ?c) src = CHR ''e'' # r"
    using drop_advance [OF d1] .
  have "tokens_from src e p = mark BENCODING_TOKEN_LIST p # tokens_from src e (p + 1)"
    using "3.prems"(2) by (intro tokens_mark(1) [OF d]) auto
  moreover have "tokens_from src e (p + 1) = tokens_list (p + 1) vs @ tokens_from src e (p + 1 + length ?c)"
    using "3.prems"(2,3) by (intro "3.IH" [OF d1]) auto
  moreover have "tokens_from src e (p + 1 + length ?c) = mark BENCODING_TOKEN_END (p + 1 + length ?c) # tokens_from src e (p + 1 + length ?c + 1)"
    using "3.prems"(2) by (intro tokens_mark(3) [OF d2]) auto
  ultimately show ?case
    by simp
next
  case (4 p kvs)
  let ?c = "concat (map (\<lambda>(k, v). bencode_string k @ bencode v) kvs)"
  have d: "drop p src = CHR ''d'' # ?c @ CHR ''e'' # r"
    using "4.prems"(1) by simp
  have d1: "drop (p + 1) src = ?c @ CHR ''e'' # r"
    using drop_advance [of p src "''d''"] d by simp
  have d2: "drop (p + 1 + length ?c) src = CHR ''e'' # r"
    using drop_advance [OF d1] .
  have "tokens_from src e p = mark BENCODING_TOKEN_DICTIONARY p # tokens_from src e (p + 1)"
    using "4.prems"(2) by (intro tokens_mark(2) [OF d]) auto
  moreover have "tokens_from src e (p + 1) = tokens_dict (p + 1) kvs @ tokens_from src e (p + 1 + length ?c)"
    using "4.prems"(2,3) by (intro "4.IH" [OF d1]) auto
  moreover have "tokens_from src e (p + 1 + length ?c) = mark BENCODING_TOKEN_END (p + 1 + length ?c) # tokens_from src e (p + 1 + length ?c + 1)"
    using "4.prems"(2) by (intro tokens_mark(3) [OF d2]) auto
  ultimately show ?case
    by simp
next
  case (5 p)
  then show ?case
    by simp
next
  case (6 p v vs)
  have d: "drop p src = bencode v @ concat (map bencode vs) @ r"
    using "6.prems"(1) by simp
  have "tokens_from src e p = tokens_at p v @ tokens_from src e (p + length (bencode v))"
    using "6.prems"(2,3) by (intro "6.IH"(1) [OF d]) auto
  moreover have "tokens_from src e (p + length (bencode v)) = tokens_list (p + length (bencode v)) vs @
      tokens_from src e (p + length (bencode v) + length (concat (map bencode vs)))"
    using "6.prems"(2,3) by (intro "6.IH"(2) [OF drop_advance [OF d]]) auto
  ultimately show ?case
    by (simp add: add.assoc)
next
  case (7 p)
  then show ?case
    by simp
next
  case (8 p k v kvs)
  let ?c = "concat (map (\<lambda>(k, v). bencode_string k @ bencode v) kvs)" and ?p = "p + length (bencode_string k)"
  have d: "drop p src = bencode_string k @ bencode v @ ?c @ r"
    using "8.prems"(1) by simp
  note d1 = drop_advance [OF d]
  have "tokens_from src e p = string_token p k # tokens_from src e ?p"
    using "8.prems"(2,3) by (intro tokens_string [OF d]) auto
  moreover have "tokens_from src e ?p = tokens_at ?p v @ tokens_from src e (?p + length (bencode v))"
    using "8.prems"(2,3) by (intro "8.IH"(1) [OF d1]) auto
  moreover have "tokens_from src e (?p + length (bencode v)) = tokens_dict (?p + length (bencode v)) kvs @
      tokens_from src e (?p + length (bencode v) + length ?c)"
    using "8.prems"(2,3) by (intro "8.IH"(2) [OF drop_advance [OF d1]]) auto
  ultimately show ?case
    by (simp add: add.assoc)
qed

lemma tokens_types:
  "\<forall>t\<in>set (tokens_at p v). tk_type t \<noteq> BENCODING_TOKEN_NONE"
  "\<forall>t\<in>set (tokens_list p vs). tk_type t \<noteq> BENCODING_TOKEN_NONE"
  "\<forall>t\<in>set (tokens_dict p kvs). tk_type t \<noteq> BENCODING_TOKEN_NONE"
  by (induction p v and p vs and p kvs rule: tokens_at_tokens_list_tokens_dict.induct) (auto simp: string_token_def mark_def)

lemma bencoding_tokens_value:
  assumes "short v"
  shows "bencoding_tokens (bencode v @ behind) (length (bencode v)) = tokens_at 0 v"
proof -
  have "tokens_from (bencode v @ behind) (length (bencode v)) (length (bencode v)) = []"
    by (subst all_tokens.simps) simp
  then have "tokens_from (bencode v @ behind) (length (bencode v)) 0 = tokens_at 0 v"
    using tokens_value(1) [of 0 "bencode v @ behind" v behind "length (bencode v)"] assms by simp
  then show ?thesis
    using tokens_types(1) [of 0 v] by (simp add: bencoding_tokens_def visible_id)
qed

section \<open>Skipping\<close>

lemma skip_values:
  "0 \<le> l \<Longrightarrow> skip_tokens l (tokens_at p v @ rest) = (if l > 0 \<and> rest \<noteq> [] then skip_tokens l rest else rest)"
  "0 < l \<Longrightarrow> rest \<noteq> [] \<Longrightarrow> skip_tokens l (tokens_list p vs @ rest) = skip_tokens l rest"
  "0 < l \<Longrightarrow> rest \<noteq> [] \<Longrightarrow> skip_tokens l (tokens_dict p kvs @ rest) = skip_tokens l rest"
proof (induction p v and p vs and p kvs arbitrary: l rest and l rest and l rest rule: tokens_at_tokens_list_tokens_dict.induct)
  case (3 p vs)
  then show ?case
    using "3.IH" [of "l + 1" "mark BENCODING_TOKEN_END (p + length (bencode (BList vs)) - 1) # rest"] by (simp add: mark_def)
next
  case (4 p kvs)
  then show ?case
    using "4.IH" [of "l + 1" "mark BENCODING_TOKEN_END (p + length (bencode (BDict kvs)) - 1) # rest"] by (simp add: mark_def)
next
  case (6 p v vs)
  then show ?case
    using "6.IH"(1) [of l "tokens_list (p + length (bencode v)) vs @ rest"] by simp
next
  case (8 p k v kvs)
  then show ?case
    using "8.IH"(1) [of l "tokens_dict (p + length (bencode_string k) + length (bencode v)) kvs @ rest"] by (simp add: string_token_def)
qed (auto simp: string_token_def)

lemma skip_value: "skip_bencoding_tokens (tokens_at p v @ rest) = rest"
  by (simp add: skip_bencoding_tokens_def skip_values)

section \<open>The entries of a dictionary\<close>

lemma strlcasecmp_text:
  "NUL \<notin> set s2 \<Longrightarrow> length s1 = length s2 \<Longrightarrow>
   strlcasecmp_loop (length s1) (s1 @ r) s2 = 0 \<longleftrightarrow>
     map c_toupper (cstring s1) = map c_toupper (take (length (cstring s1)) s2)"
proof (induction s1 s2 rule: list_induct2')
  case (4 x xs y ys)
  then show ?case
    by (auto simp: ccode_def Let_def cstring_def)
qed (auto simp: cstring_def)

lemma entry_names: "\<forall>(name, k, t)\<in>set bencoding_dictionary_entries. NUL \<notin> set name"
  by code_simp

text \<open>Looking up a key by its text.\<close>

fun find_text :: "string \<Rightarrow> bencoding_token \<Rightarrow> (string \<times> bencoding_token \<times> bencoding_token) list \<Rightarrow> bencoding_token" where
  "find_text k t [] = BENCODING_TOKEN_NONE"
| "find_text k t ((name, key_type, value_type) # es) =
     (if map c_toupper (cstring k) = map c_toupper (take (length (cstring k)) name) \<and> length k = length name \<and> t = value_type then key_type
      else find_text k t es)"


definition entry_type :: "string \<Rightarrow> bencoding_token \<Rightarrow> bencoding_token" where
  "entry_type k t = find_text k t bencoding_dictionary_entries"

lemma find_entry_text:
  assumes "token_string src key = k" "tk_len key = length k" "\<forall>(name, kt, t)\<in>set es. NUL \<notin> set name"
  shows "find_entry src key val es = find_text k (tk_type val) es"
  using assms(3)
proof (induction es)
  case (Cons x es)
  obtain name kt t where x: "x = (name, kt, t)"
    by (cases x)
  obtain r where r: "drop (tk_pos key) src = k @ r"
    using assms(1) by (metis append_take_drop_id bytes_at_def token_string_def)
  have nm: "takeWhile (\<lambda>c. c \<noteq> NUL) name = name"
    using Cons.prems by (auto simp: x takeWhile_eq_all_conv)
  have "scanner_token_strlcasecmp src key name (-1) \<longleftrightarrow>
      length k = length name \<and> map c_toupper (cstring k) = map c_toupper (take (length (cstring k)) name)"
  proof (cases "length k = length name")
    case True
    then show ?thesis
      using strlcasecmp_text [of name k r] Cons.prems
      by (simp add: scanner_token_strlcasecmp_def c_strlcasecmp_def r assms(2) x nm del: takeWhile_eq_all_conv)
  next
    case False
    then show ?thesis
      by (simp add: scanner_token_strlcasecmp_def c_strlcasecmp_def r assms(2) nm Let_def)
  qed
  then show ?case
    using Cons by (auto simp: x)
qed simp

lemma check_entry:
  assumes "token_string src key = k" "tk_len key = length k" "tk_type key = BENCODING_TOKEN_STRING"
  shows "check_bencoding_dictionary_entry src (key # t # ts) = (entry_type k (tk_type t), t # ts)"
  using assms find_entry_text [OF assms(1,2) entry_names] by (simp add: entry_type_def)

lemma string_token_text: "drop p src = bencode_string s @ r \<Longrightarrow> token_string src (string_token p s) = s"
proof -
  assume "drop p src = bencode_string s @ r"
  then have "drop (p + length (show_nat (length s) @ '':'')) src = s @ r"
    by (intro drop_advance) (simp add: bencode_string_def)
  then show ?thesis
    by (simp add: token_string_def string_token_def bytes_at_def)
qed

lemma check_string_entry:
  assumes "drop p src = bencode_string k @ r"
  shows "check_bencoding_dictionary_entry src (string_token p k # t # ts) = (entry_type k (tk_type t), t # ts)"
  using check_entry [OF string_token_text [OF assms]] by (simp add: string_token_def)

section \<open>Integers\<close>

definition integer_text :: "string \<Rightarrow> int" where
  "integer_text s =
     (let neg = (rd s 0 = CHR ''-'') in
      case integer_loop 0 (if neg then drop 1 s else s) of None \<Rightarrow> 0 | Some n \<Rightarrow> if neg then int64 (- n) else n)"

lemma parse_integer_text: "parse_bencoding_integer src t = integer_text (token_string src t)"
  by (simp add: parse_bencoding_integer_def integer_text_def Let_def)

lemma int64_id: "- (2 ^ 63) \<le> x \<Longrightarrow> x < 2 ^ 63 \<Longrightarrow> int64 x = x"
  by (simp add: int64_def)

lemma int64_less: "2 ^ 63 \<le> x \<Longrightarrow> int64 x \<le> x - 2 ^ 64"
proof -
  assume x: "2 ^ 63 \<le> x"
  let ?m = "18446744073709551616 :: int"
  have "(x + 9223372036854775808) mod ?m = x + 9223372036854775808 - ?m * ((x + 9223372036854775808) div ?m)"
    by (simp add: minus_mult_div_eq_mod)
  moreover have "1 \<le> (x + 9223372036854775808) div ?m"
    using x by (simp add: pos_imp_zdiv_pos_iff int_one_le_iff_zero_less)
  ultimately show ?thesis
    by (simp add: int64_def)
qed

lemma overflow_check:
  assumes "0 \<le> a" "a < 2 ^ 63" "0 \<le> d" "d \<le> 9"
  shows "int64 (a * 10 + d) sdiv 10 = a \<longleftrightarrow> a * 10 + d < 2 ^ 63"
proof (cases "a * 10 + d < 2 ^ 63")
  case True
  have "(a * 10 + d) div 10 = a"
    using assms by simp
  moreover have "int64 (a * 10 + d) = a * 10 + d"
    using True assms by (intro int64_id) auto
  ultimately show ?thesis
    using True assms by (auto simp: signed_divide_int_def sgn_if)
next
  case False
  define x where "x = int64 (a * 10 + d)"
  have x: "x \<le> a * 10 + d - 2 ^ 64"
    unfolding x_def using False by (intro int64_less) simp
  have "x sdiv 10 < a"
  proof (cases "0 \<le> x")
    case True
    then have "x sdiv 10 = x div 10"
      by (auto simp: signed_divide_int_def sgn_if)
    also have "\<dots> < a"
      using x assms(4) by simp
    finally show ?thesis .
  next
    case neg: False
    then have "x sdiv 10 \<le> 0"
      by (simp add: signed_divide_int_def sgn_if)
    moreover have "0 < a"
      using False assms by simp
    ultimately show ?thesis
      by simp
  qed
  with False show ?thesis
    by (simp add: x_def)
qed

lemma foldl_dec_mono: "list_all c_isdigit ds \<Longrightarrow> 0 \<le> a \<Longrightarrow> a \<le> foldl (\<lambda>a d. a * 10 + digit_val d) a ds"
proof (induction ds arbitrary: a)
  case (Cons d ds)
  then have "a * 10 + digit_val d \<le> foldl (\<lambda>a d. a * 10 + digit_val d) (a * 10 + digit_val d) ds"
    using digit_val_bounds [of d] by (intro Cons.IH) auto
  moreover have "a \<le> a * 10 + digit_val d"
    using Cons.prems digit_val_bounds [of d] by auto
  ultimately show ?case
    by simp
qed simp

lemma integer_loop_digits:
  "list_all c_isdigit ds \<Longrightarrow> 0 \<le> a \<Longrightarrow> a < 2 ^ 63 \<Longrightarrow>
   integer_loop a ds = (let n = foldl (\<lambda>a d. a * 10 + digit_val d) a ds in if n < 2 ^ 63 then Some n else None)"
proof (induction ds arbitrary: a)
  case (Cons d ds)
  have d: "c_isdigit d" "0 \<le> digit_val d" "digit_val d \<le> 9"
    using Cons.prems(1) digit_val_bounds [of d] by auto
  note oc = overflow_check [OF Cons.prems(2,3) d(2,3)]
  show ?case
  proof (cases "a * 10 + digit_val d < 2 ^ 63")
    case True
    then have "int64 (a * 10 + digit_val d) = a * 10 + digit_val d"
      using Cons.prems d by (intro int64_id) auto
    then show ?thesis
      using Cons.IH [of "a * 10 + digit_val d"] Cons.prems d True oc by (simp add: Let_def)
  next
    case False
    then have "\<not> foldl (\<lambda>a d. a * 10 + digit_val d) (a * 10 + digit_val d) ds < 2 ^ 63"
      using foldl_dec_mono [of ds "a * 10 + digit_val d"] Cons.prems d by auto
    then show ?thesis
      using False d oc by (simp add: Let_def)
  qed
qed (simp add: Let_def)

lemma integer_text_show: "integer_text (show_int i) = (if - (2 ^ 63) < i \<and> i < 2 ^ 63 then i else 0)"
proof -
  define n where "n = nat (if i < 0 then - i else i)"
  have ds: "list_all c_isdigit (show_nat n)" "show_nat n \<noteq> []" "dec_val (show_nat n) = int n"
    using show_nat_digits [of n] by auto
  have l: "integer_loop 0 (show_nat n) = (if int n < 2 ^ 63 then Some (int n) else None)"
    using integer_loop_digits [OF ds(1), of 0] ds(3) by (simp add: dec_val_def Let_def)
  obtain c r where c: "show_nat n = c # r" "c_isdigit c"
    using ds by (cases "show_nat n") auto
  show ?thesis
  proof (cases "i < 0")
    case True
    then have "show_int i = CHR ''-'' # show_nat n"
      by (simp add: show_int_def n_def)
    then show ?thesis
      using True l by (auto simp: integer_text_def n_def int64_id)
  next
    case False
    then have "show_int i = show_nat n"
      by (simp add: show_int_def n_def)
    moreover have "rd (show_nat n) 0 \<noteq> CHR ''-''"
      using c by auto
    ultimately show ?thesis
      using False l by (auto simp: integer_text_def n_def)
  qed
qed


section \<open>Reading a tree\<close>

fun value_type :: "bvalue \<Rightarrow> bencoding_token" where
  "value_type (BInt i) = BENCODING_TOKEN_INTEGER"
| "value_type (BStr s) = BENCODING_TOKEN_STRING"
| "value_type (BList vs) = BENCODING_TOKEN_LIST"
| "value_type (BDict kvs) = BENCODING_TOKEN_DICTIONARY"

text \<open>An integer that does not fit into 64 bits is read as 0.\<close>

fun tree_int :: "bvalue \<Rightarrow> int" where
  "tree_int (BInt i) = (if - (2 ^ 63) < i \<and> i < 2 ^ 63 then i else 0)"
| "tree_int _ = 0"

fun tree_string :: "bvalue \<Rightarrow> string" where
  "tree_string (BStr s) = s"
| "tree_string _ = []"

fun tree_list :: "bvalue \<Rightarrow> bvalue list" where
  "tree_list (BList vs) = vs"
| "tree_list _ = []"

fun tree_dict :: "bvalue \<Rightarrow> (string \<times> bvalue) list" where
  "tree_dict (BDict kvs) = kvs"
| "tree_dict _ = []"

fun tree_path :: "string \<Rightarrow> bvalue list \<Rightarrow> string option" where
  "tree_path path [] = Some path"
| "tree_path path (BStr s # vs) = tree_path ((if path \<noteq> [] then path @ ''/'' else path) @ s) vs"
| "tree_path path (_ # vs) = None"

fun tree_file ::
  "torrent_env \<Rightarrow> bittorrent_meta \<Rightarrow> string \<Rightarrow> bittorrent_file \<Rightarrow> (string \<times> bvalue) list \<Rightarrow> bittorrent_state \<times> bittorrent_meta" where
  "tree_file env meta path fl [] = add_bittorrent_file env meta path fl"
| "tree_file env meta path fl ((k, v) # kvs) =
     (let t = entry_type k (value_type v) in
      if t = BENCODING_TOKEN_PATH then
        (case tree_path path (tree_list v) of
           None \<Rightarrow> (BITTORRENT_STATE_ERROR, meta)
         | Some path \<Rightarrow> tree_file env meta path fl kvs)
      else if t = BENCODING_TOKEN_LENGTH then tree_file env meta path (fl\<lparr>bf_length := tree_int v\<rparr>) kvs
      else if t = BENCODING_TOKEN_MD5SUM then
        if length (tree_string v) \<noteq> 32 then (BITTORRENT_STATE_ERROR, meta)
        else tree_file env meta path (fl\<lparr>bf_md5sum := tree_string v\<rparr>) kvs
      else tree_file env meta path fl kvs)"

fun tree_files :: "torrent_env \<Rightarrow> bittorrent_meta \<Rightarrow> bvalue list \<Rightarrow> bittorrent_state \<times> bittorrent_meta" where
  "tree_files env meta [] = (BITTORRENT_STATE_OK, meta)"
| "tree_files env meta (BDict kvs # vs) =
     (case tree_file env meta [] zero_file kvs of (st, meta) \<Rightarrow>
        if st \<noteq> BITTORRENT_STATE_OK then (st, meta) else tree_files env meta vs)"
| "tree_files env meta (_ # vs) = (BITTORRENT_STATE_ERROR, meta)"

fun tree_info ::
  "torrent_env \<Rightarrow> bittorrent_meta \<Rightarrow> bittorrent_file \<Rightarrow> (string \<times> bvalue) list \<Rightarrow> bittorrent_state \<times> bittorrent_meta" where
  "tree_info env meta fl [] =
     (if bt_type meta = BITTORRENT_MULTI_FILE then (BITTORRENT_STATE_OK, meta)
      else case bt_name meta of
        None \<Rightarrow> (BITTORRENT_STATE_ERROR, meta)
      | Some name \<Rightarrow> add_bittorrent_file env meta name fl)"
| "tree_info env meta fl ((k, v) # kvs) =
     (let t = entry_type k (value_type v) in
      if t = BENCODING_TOKEN_NAME then
        (case normalize_bencoding_path (te_user_program env) (tree_string v) of
           None \<Rightarrow> (BITTORRENT_STATE_OUT_OF_MEM, meta\<lparr>bt_name := None\<rparr>)
         | Some (name, malicious) \<Rightarrow>
             tree_info env (meta\<lparr>bt_name := Some name, malicious_paths := malicious_paths meta \<or> malicious\<rparr>) fl kvs)
      else if t = BENCODING_TOKEN_PIECES then
        if length (tree_string v) mod 20 \<noteq> 0 then (BITTORRENT_STATE_ERROR, meta)
        else tree_info env (meta\<lparr>bt_pieces := length (tree_string v) div 20, piece_hash := Some (tree_string v)\<rparr>) fl kvs
      else if t = BENCODING_TOKEN_PIECE_LENGTH then
        if tree_int v < 0 \<or> tree_int v \<ge> INT_MAX then (BITTORRENT_STATE_ERROR, meta)
        else tree_info env (meta\<lparr>piece_length := nat (tree_int v)\<rparr>) fl kvs
      else if t = BENCODING_TOKEN_FILES then
        (case tree_files env (meta\<lparr>bt_type := BITTORRENT_MULTI_FILE\<rparr>) (tree_list v) of (st, meta) \<Rightarrow>
           if st \<noteq> BITTORRENT_STATE_OK then (st, meta) else tree_info env meta fl kvs)
      else if t = BENCODING_TOKEN_LENGTH then tree_info env meta (fl\<lparr>bf_length := tree_int v\<rparr>) kvs
      else if t = BENCODING_TOKEN_MD5SUM then
        if length (tree_string v) \<noteq> 32 then (BITTORRENT_STATE_ERROR, meta)
        else tree_info env meta (fl\<lparr>bf_md5sum := tree_string v\<rparr>) kvs
      else tree_info env meta fl kvs)"

fun tree_meta ::
  "torrent_env \<Rightarrow> bittorrent_meta \<Rightarrow> uri_cache \<Rightarrow> (string \<times> bvalue) list \<Rightarrow> bittorrent_state \<times> bittorrent_meta \<times> uri_cache" where
  "tree_meta env meta uc [] = (case check_bittorrent_metafile meta of (st, meta) \<Rightarrow> (st, meta, uc))"
| "tree_meta env meta uc ((k, v) # kvs) =
     (let t = entry_type k (value_type v) in
      if t = BENCODING_TOKEN_ANNOUNCE then
        (case add_tracker env meta (tree_string v) uc of (meta, uc) \<Rightarrow> tree_meta env meta uc kvs)
      else if t = BENCODING_TOKEN_INFO then
        (case tree_info env meta zero_file (tree_dict v) of (st, meta) \<Rightarrow>
           if st \<noteq> BITTORRENT_STATE_OK then (BITTORRENT_STATE_ERROR, meta, uc)
           else tree_meta env (meta\<lparr>info_hash := fips_sha1 (bytes (bencode v))\<rparr>) uc kvs)
      else if t = BENCODING_TOKEN_COMMENT then
        tree_meta env (meta\<lparr>bt_comment := Some (cstring (take 1024 (tree_string v)))\<rparr>) uc kvs
      else if t = BENCODING_TOKEN_CREATION_DATE then tree_meta env (meta\<lparr>creation_date := tree_int v\<rparr>) uc kvs
      else tree_meta env meta uc kvs)"

lemma find_text_in: "find_text k t es = K \<Longrightarrow> K \<noteq> BENCODING_TOKEN_NONE \<Longrightarrow> \<exists>name. (name, K, t) \<in> set es"
  by (induction k t es rule: find_text.induct) (auto split: if_splits)

text \<open>The type of the value of an entry; what is no key is not the type of one.\<close>

lemma entry_value:
  assumes "entry_type k t = K" "K \<noteq> BENCODING_TOKEN_NONE"
  shows "(K, t) \<in> snd ` set bencoding_dictionary_entries"
  using find_text_in [OF assms [unfolded entry_type_def]] by force

lemma entry_strings:
  "entry_type k t \<in> {BENCODING_TOKEN_ANNOUNCE, BENCODING_TOKEN_COMMENT, BENCODING_TOKEN_CREATED_BY, BENCODING_TOKEN_NAME, BENCODING_TOKEN_PIECES,
     BENCODING_TOKEN_MD5SUM} \<Longrightarrow> t = BENCODING_TOKEN_STRING"
  using entry_value [OF refl, of k t] by (auto simp: bencoding_dictionary_entries_def)

lemma entry_integers:
  "entry_type k t \<in> {BENCODING_TOKEN_LENGTH, BENCODING_TOKEN_PIECE_LENGTH, BENCODING_TOKEN_CREATION_DATE} \<Longrightarrow> t = BENCODING_TOKEN_INTEGER"
  using entry_value [OF refl, of k t] by (auto simp: bencoding_dictionary_entries_def)

lemma entry_lists: "entry_type k t \<in> {BENCODING_TOKEN_PATH, BENCODING_TOKEN_FILES} \<Longrightarrow> t = BENCODING_TOKEN_LIST"
  using entry_value [OF refl, of k t] by (auto simp: bencoding_dictionary_entries_def)

lemma entry_dictionaries: "entry_type k t = BENCODING_TOKEN_INFO \<Longrightarrow> t = BENCODING_TOKEN_DICTIONARY"
  using entry_value [OF refl, of k t] by (auto simp: bencoding_dictionary_entries_def)

lemma entry_never: "entry_type k t \<noteq> BENCODING_TOKEN_END \<and> entry_type k t \<noteq> BENCODING_TOKEN_ERROR"
  using entry_value [OF refl, of k t] by (auto simp: bencoding_dictionary_entries_def)


section \<open>The parser computes the reading\<close>

abbreviation pairs_text :: "(string \<times> bvalue) list \<Rightarrow> string" where
  "pairs_text kvs \<equiv> concat (map (\<lambda>(k, v). bencode_string k @ bencode v) kvs)"

lemma tokens_at_Cons: "\<exists>t us. tokens_at p v = t # us \<and> tk_type t = value_type v"
  by (cases v) (auto simp: string_token_def mark_def)

lemma dict_step:
  assumes "drop p src = pairs_text ((k, v) # kvs) @ r"
  shows "check_bencoding_dictionary_entry src (tokens_dict p ((k, v) # kvs) @ rest) =
    (entry_type k (value_type v),
     tokens_at (p + length (bencode_string k)) v @ tokens_dict (p + length (bencode_string k) + length (bencode v)) kvs @ rest)"
    and "drop (p + length (bencode_string k)) src = bencode v @ pairs_text kvs @ r"
    and "drop (p + length (bencode_string k) + length (bencode v)) src = pairs_text kvs @ r"
proof -
  have d: "drop p src = bencode_string k @ bencode v @ pairs_text kvs @ r"
    using assms by simp
  obtain t us where t: "tokens_at (p + length (bencode_string k)) v = t # us" "tk_type t = value_type v"
    using tokens_at_Cons by blast
  show "check_bencoding_dictionary_entry src (tokens_dict p ((k, v) # kvs) @ rest) =
    (entry_type k (value_type v),
     tokens_at (p + length (bencode_string k)) v @ tokens_dict (p + length (bencode_string k) + length (bencode v)) kvs @ rest)"
    using check_string_entry [OF d, of t] by (simp add: t)
  show "drop (p + length (bencode_string k)) src = bencode v @ pairs_text kvs @ r"
    by (rule drop_advance [OF d])
  from drop_advance [OF this] show "drop (p + length (bencode_string k) + length (bencode v)) src = pairs_text kvs @ r" .
qed

lemma token_int:
  "drop p src = bencode v @ r \<Longrightarrow> value_type v = BENCODING_TOKEN_INTEGER \<Longrightarrow> tokens_at p v = t # us \<Longrightarrow>
   us = [] \<and> parse_bencoding_integer src t = tree_int v"
proof (cases v)
  case (BInt i)
  assume a: "drop p src = bencode v @ r" "tokens_at p v = t # us"
  have "drop (p + 1) src = show_int i @ CHR ''e'' # r"
    using drop_advance [of p src "''i''"] a(1) BInt by simp
  then have "token_string src t = show_int i"
    using a(2) BInt by (auto simp: token_string_def bytes_at_def)
  with a(2) BInt show ?thesis
    by (auto simp: parse_integer_text integer_text_show)
qed auto

lemma string_token_sel [simp]: "tk_type (string_token p s) = BENCODING_TOKEN_STRING" "tk_len (string_token p s) = length s"
  by (simp_all add: string_token_def)

lemma token_str:
  "drop p src = bencode v @ r \<Longrightarrow> value_type v = BENCODING_TOKEN_STRING \<Longrightarrow> tokens_at p v = t # us \<Longrightarrow>
   us = [] \<and> token_string src t = tree_string v \<and> tk_len t = length (tree_string v) \<and> tk_type t = BENCODING_TOKEN_STRING"
proof (cases v)
  case (BStr s)
  assume a: "drop p src = bencode v @ r" "tokens_at p v = t # us"
  then have "t = string_token p s" "us = []" "token_string src (string_token p s) = s"
    using string_token_text [of p src s r] BStr by auto
  then show ?thesis
    by (simp add: BStr)
qed auto

lemma file_path_tree:
  "drop p src = concat (map bencode vs) @ r \<Longrightarrow> tk_type e = BENCODING_TOKEN_END \<Longrightarrow>
   case tree_path path vs of
     None \<Rightarrow> \<exists>path' ts. file_path_loop src path (tokens_list p vs @ e # rest) = (BITTORRENT_STATE_ERROR, path', ts)
   | Some path' \<Rightarrow> file_path_loop src path (tokens_list p vs @ e # rest) = (BITTORRENT_STATE_OK, path', e # rest)"
proof (induction vs arbitrary: p path)
  case (Cons v vs)
  obtain t us where t: "tokens_at p v = t # us" "tk_type t = value_type v"
    using tokens_at_Cons by blast
  have d: "drop p src = bencode v @ concat (map bencode vs) @ r"
    using Cons.prems(1) by simp
  show ?case
  proof (cases "\<exists>s. v = BStr s")
    case True
    then obtain s where v: "v = BStr s"
      by blast
    then have ts: "us = []" "token_string src t = s" "tk_type t = BENCODING_TOKEN_STRING"
      using token_str [OF d _ t(1)] by auto
    let ?path = "(if path \<noteq> [] then path @ ''/'' else path) @ s"
    have toks: "tokens_list p (v # vs) @ e # rest = t # tokens_list (p + length (bencode v)) vs @ e # rest"
      by (simp only: tokens_list.simps t(1) ts(1) append.simps)
    have "file_path_loop src path (tokens_list p (v # vs) @ e # rest) = file_path_loop src ?path (tokens_list (p + length (bencode v)) vs @ e # rest)"
      unfolding toks using ts(2,3) by (simp add: dir_sep_def)
    moreover have "tree_path path (v # vs) = tree_path ?path vs"
      by (simp add: v)
    ultimately show ?thesis
      using Cons.IH [OF drop_advance [OF d] Cons.prems(2), of ?path] by (simp only:)
  next
    case False
    then have "tree_path path (v # vs) = None" "tk_type t \<noteq> BENCODING_TOKEN_END" "tk_type t \<noteq> BENCODING_TOKEN_STRING"
      using t(2) by (cases v; simp)+
    then show ?thesis
      by (simp add: t(1))
  qed
qed simp

text \<open>A parser agrees with a reading: the same outcome, and after success it stands behind the value.\<close>

definition agrees :: "bittorrent_state \<times> bittorrent_meta \<times> btoken list \<Rightarrow> bittorrent_state \<times> bittorrent_meta \<Rightarrow> btoken list \<Rightarrow> bool" where
  "agrees p t rest \<longleftrightarrow> (fst p, fst (snd p)) = t \<and> (fst t = BITTORRENT_STATE_OK \<longrightarrow> snd (snd p) = rest)"

lemma agrees_iff [simp]: "agrees (st, meta, ts) (st', meta') rest \<longleftrightarrow> st = st' \<and> meta = meta' \<and> (st = BITTORRENT_STATE_OK \<longrightarrow> ts = rest)"
  by (auto simp: agrees_def)

lemma file_dictionary_tree:
  "drop p src = pairs_text kvs @ r \<Longrightarrow> tk_type e = BENCODING_TOKEN_END \<Longrightarrow>
   agrees (file_dictionary_loop env src meta path fl (tokens_dict p kvs @ e # rest)) (tree_file env meta path fl kvs) rest"
proof (induction kvs arbitrary: p meta path fl)
  case Nil
  then show ?case
    by (simp add: file_dictionary_loop.simps [of env src meta path fl "e # rest"] split: prod.split)
next
  case (Cons kv kvs)
  obtain k v where kv: "kv = (k, v)"
    by (cases kv)
  define t where "t = entry_type k (value_type v)"
  let ?p = "p + length (bencode_string k)" and ?q = "p + length (bencode_string k) + length (bencode v)"
  note ds = dict_step [OF Cons.prems(1) [unfolded kv]]
  obtain a us where a: "tokens_at ?p v = a # us" "tk_type a = value_type v"
    using tokens_at_Cons by blast
  have loop: "file_dictionary_loop env src meta path fl (tokens_dict p (kv # kvs) @ e # rest) =
      (let ts = tokens_at ?p v @ tokens_dict ?q kvs @ e # rest in
       if t = BENCODING_TOKEN_PATH then
          (case parse_bencoding_file_path src path ts of (st, path, ts) \<Rightarrow>
             if st \<noteq> BITTORRENT_STATE_OK then (st, meta, ts) else file_dictionary_loop env src meta path fl (tl ts))
        else if t = BENCODING_TOKEN_LENGTH then
          file_dictionary_loop env src meta path (fl\<lparr>bf_length := parse_bencoding_integer src (hd ts)\<rparr>) (tl ts)
        else if t = BENCODING_TOKEN_MD5SUM then
          if tk_len (hd ts) \<noteq> 32 then (BITTORRENT_STATE_ERROR, meta, ts)
          else file_dictionary_loop env src meta path (fl\<lparr>bf_md5sum := token_string src (hd ts)\<rparr>) (tl ts)
        else file_dictionary_loop env src meta path fl (skip_bencoding_tokens ts))"
    using entry_never [of k "value_type v"]
    by (subst file_dictionary_loop.simps) (simp add: kv ds(1) Let_def t_def del: tokens_dict.simps)
  note tree = tree_file.simps(2) [of env meta path fl k v kvs, folded kv t_def, unfolded Let_def]
  note ih = Cons.IH [OF ds(3) Cons.prems(2)]
  consider "t = BENCODING_TOKEN_PATH" | "t = BENCODING_TOKEN_LENGTH" | "t = BENCODING_TOKEN_MD5SUM"
    | "t \<noteq> BENCODING_TOKEN_PATH" "t \<noteq> BENCODING_TOKEN_LENGTH" "t \<noteq> BENCODING_TOKEN_MD5SUM"
    by blast
  then show ?case
  proof cases
    case 1
    then have "value_type v = BENCODING_TOKEN_LIST"
      using entry_lists [of k "value_type v"] t_def by simp
    then obtain vs where v: "v = BList vs"
      by (cases v) auto
    define f where "f = mark BENCODING_TOKEN_END (?p + length (bencode v) - 1)"
    have ts: "tokens_at ?p v = mark BENCODING_TOKEN_LIST ?p # tokens_list (?p + 1) vs @ [f]"
      unfolding v f_def by (rule tokens_at.simps)
    have "drop (?p + 1) src = concat (map bencode vs) @ CHR ''e'' # pairs_text kvs @ r"
      using drop_advance [of ?p src "''l''"] ds(2) v by simp
    from file_path_tree [OF this, of f path "tokens_dict ?q kvs @ e # rest"]
    show ?thesis
      using ih by (cases "tree_path path vs") (auto simp: 1 loop tree ts v parse_bencoding_file_path_def f_def mark_def)
  next
    case 2
    then have "us = []" "parse_bencoding_integer src a = tree_int v"
      using token_int [OF ds(2) _ a(1)] entry_integers [of k "value_type v"] t_def by auto
    then show ?thesis
      using ih by (simp add: 2 loop tree a(1))
  next
    case 3
    then have "us = []" "token_string src a = tree_string v" "tk_len a = length (tree_string v)"
      using token_str [OF ds(2) _ a(1)] entry_strings [of k "value_type v"] t_def by auto
    then show ?thesis
      using ih by (simp add: 3 loop tree a(1))
  next
    case 4
    then show ?thesis
      using ih by (simp add: loop tree skip_value)
  qed
qed

lemma files_list_tree:
  "drop p src = concat (map bencode vs) @ r \<Longrightarrow> tk_type e = BENCODING_TOKEN_END \<Longrightarrow>
   agrees (files_list_loop env src meta (tokens_list p vs @ e # rest)) (tree_files env meta vs) rest"
proof (induction vs arbitrary: p meta)
  case Nil
  then show ?case
    by (simp add: files_list_loop.simps)
next
  case (Cons v vs)
  obtain t us where t: "tokens_at p v = t # us" "tk_type t = value_type v"
    using tokens_at_Cons by blast
  have d: "drop p src = bencode v @ concat (map bencode vs) @ r"
    using Cons.prems(1) by simp
  show ?case
  proof (cases "\<exists>kvs. v = BDict kvs")
    case True
    then obtain kvs where v: "v = BDict kvs"
      by blast
    define f where "f = mark BENCODING_TOKEN_END (p + length (bencode v) - 1)"
    have ts: "tokens_at p v = mark BENCODING_TOKEN_DICTIONARY p # tokens_dict (p + 1) kvs @ [f]"
      unfolding v f_def by (rule tokens_at.simps)
    obtain st meta' where tr: "tree_file env meta [] zero_file kvs = (st, meta')"
      by fastforce
    let ?rest = "tokens_list (p + length (bencode v)) vs @ e # rest"
    have "drop (p + 1) src = pairs_text kvs @ CHR ''e'' # concat (map bencode vs) @ r"
      using drop_advance [of p src "''d''"] d v by simp
    from file_dictionary_tree [OF this, of f env meta "[]" zero_file ?rest]
    obtain ts' where pf: "parse_bencoding_file_dictionary env src meta (tokens_at p v @ ?rest) = (st, meta', ts')"
      "st = BITTORRENT_STATE_OK \<longrightarrow> ts' = ?rest"
      by (auto simp: parse_bencoding_file_dictionary_def ts tr agrees_def f_def mark_def prod_eq_iff)
    have "files_list_loop env src meta (tokens_list p (v # vs) @ e # rest) =
        (case parse_bencoding_file_dictionary env src meta (tokens_at p v @ ?rest) of (st, meta, ts) \<Rightarrow>
           if st \<noteq> BITTORRENT_STATE_OK then (st, meta, ts) else files_list_loop env src meta ts)"
      by (subst files_list_loop.simps) (simp add: ts mark_def)
    then show ?thesis
      using pf Cons.IH [OF drop_advance [OF d] Cons.prems(2), of meta'] tr by (simp add: v [symmetric]) (simp add: v)
  next
    case False
    then have "tree_files env meta (v # vs) = (BITTORRENT_STATE_ERROR, meta)" "tk_type t \<noteq> BENCODING_TOKEN_END" "tk_type t \<noteq> BENCODING_TOKEN_DICTIONARY"
      using t(2) by (cases v; simp)+
    then show ?thesis
      by (simp add: t(1) files_list_loop.simps)
  qed
qed


lemma info_dictionary_tree:
  "drop p src = pairs_text kvs @ r \<Longrightarrow> tk_type e = BENCODING_TOKEN_END \<Longrightarrow>
   agrees (info_dictionary_loop env src meta fl (tokens_dict p kvs @ e # rest)) (tree_info env meta fl kvs) (e # rest)"
proof (induction kvs arbitrary: p meta fl)
  case Nil
  then show ?case
    by (simp add: info_dictionary_loop.simps [of env src meta fl "e # rest"] split: prod.split option.split)
next
  case (Cons kv kvs)
  obtain k v where kv: "kv = (k, v)"
    by (cases kv)
  define t where "t = entry_type k (value_type v)"
  let ?p = "p + length (bencode_string k)" and ?q = "p + length (bencode_string k) + length (bencode v)"
  note ds = dict_step [OF Cons.prems(1) [unfolded kv]]
  obtain a us where a: "tokens_at ?p v = a # us" "tk_type a = value_type v"
    using tokens_at_Cons by blast
  have loop: "info_dictionary_loop env src meta fl (tokens_dict p (kv # kvs) @ e # rest) =
      (let ts = tokens_at ?p v @ tokens_dict ?q kvs @ e # rest in
       if t = BENCODING_TOKEN_NAME then
          (case normalize_bencoding_path (te_user_program env) (token_string src (hd ts)) of
             None \<Rightarrow> (BITTORRENT_STATE_OUT_OF_MEM, meta\<lparr>bt_name := None\<rparr>, ts)
           | Some (name, malicious) \<Rightarrow>
               info_dictionary_loop env src (meta\<lparr>bt_name := Some name, malicious_paths := malicious_paths meta \<or> malicious\<rparr>) fl (tl ts))
        else if t = BENCODING_TOKEN_PIECES then
          if tk_len (hd ts) mod 20 \<noteq> 0 then (BITTORRENT_STATE_ERROR, meta, ts)
          else info_dictionary_loop env src
                 (meta\<lparr>bt_pieces := tk_len (hd ts) div 20, piece_hash := Some (token_string src (hd ts))\<rparr>) fl (tl ts)
        else if t = BENCODING_TOKEN_PIECE_LENGTH then
          if parse_bencoding_integer src (hd ts) < 0 \<or> parse_bencoding_integer src (hd ts) \<ge> INT_MAX then (BITTORRENT_STATE_ERROR, meta, ts)
          else info_dictionary_loop env src (meta\<lparr>piece_length := nat (parse_bencoding_integer src (hd ts))\<rparr>) fl (tl ts)
        else if t = BENCODING_TOKEN_FILES then
          (case parse_bencoding_files_list env src (meta\<lparr>bt_type := BITTORRENT_MULTI_FILE\<rparr>) ts of (st, meta, ts) \<Rightarrow>
             if st \<noteq> BITTORRENT_STATE_OK then (st, meta, ts) else info_dictionary_loop env src meta fl ts)
        else if t = BENCODING_TOKEN_LENGTH then
          info_dictionary_loop env src meta (fl\<lparr>bf_length := parse_bencoding_integer src (hd ts)\<rparr>) (tl ts)
        else if t = BENCODING_TOKEN_MD5SUM then
          if tk_len (hd ts) \<noteq> 32 then (BITTORRENT_STATE_ERROR, meta, ts)
          else info_dictionary_loop env src meta (fl\<lparr>bf_md5sum := token_string src (hd ts)\<rparr>) (tl ts)
        else info_dictionary_loop env src meta fl (skip_bencoding_tokens ts))"
    using entry_never [of k "value_type v"]
    by (subst info_dictionary_loop.simps) (simp add: kv ds(1) Let_def t_def del: tokens_dict.simps)
  note tree = tree_info.simps(2) [of env meta fl k v kvs, folded kv t_def, unfolded Let_def]
  note ih = Cons.IH [OF ds(3) Cons.prems(2)]
  consider "t \<in> {BENCODING_TOKEN_NAME, BENCODING_TOKEN_PIECES, BENCODING_TOKEN_MD5SUM}"
    | "t \<in> {BENCODING_TOKEN_PIECE_LENGTH, BENCODING_TOKEN_LENGTH}" | "t = BENCODING_TOKEN_FILES"
    | "t \<notin> {BENCODING_TOKEN_NAME, BENCODING_TOKEN_PIECES, BENCODING_TOKEN_MD5SUM, BENCODING_TOKEN_PIECE_LENGTH, BENCODING_TOKEN_LENGTH, BENCODING_TOKEN_FILES}"
    by blast
  then show ?case
  proof cases
    case 1
    then have "us = []" "token_string src a = tree_string v" "tk_len a = length (tree_string v)"
      using token_str [OF ds(2) _ a(1)] entry_strings [of k "value_type v"] t_def by auto
    with 1 show ?thesis
      using ih by (auto simp: loop tree a(1) split: option.split)
  next
    case 2
    then have "us = []" "parse_bencoding_integer src a = tree_int v"
      using token_int [OF ds(2) _ a(1)] entry_integers [of k "value_type v"] t_def by auto
    with 2 show ?thesis
      using ih by (auto simp: loop tree a(1))
  next
    case 3
    then have "value_type v = BENCODING_TOKEN_LIST"
      using entry_lists [of k "value_type v"] t_def by simp
    then obtain vs where v: "v = BList vs"
      by (cases v) auto
    define f where "f = mark BENCODING_TOKEN_END (?p + length (bencode v) - 1)"
    have ts: "tokens_at ?p v = mark BENCODING_TOKEN_LIST ?p # tokens_list (?p + 1) vs @ [f]"
      unfolding v f_def by (rule tokens_at.simps)
    have "drop (?p + 1) src = concat (map bencode vs) @ CHR ''e'' # pairs_text kvs @ r"
      using drop_advance [of ?p src "''l''"] ds(2) v by simp
    from files_list_tree [OF this, of f env "meta\<lparr>bt_type := BITTORRENT_MULTI_FILE\<rparr>" "tokens_dict ?q kvs @ e # rest"]
    show ?thesis
      using ih by (auto simp: 3 loop tree ts v parse_bencoding_files_list_def f_def mark_def agrees_def prod_eq_iff split: prod.split)
  next
    case 4
    then show ?thesis
      using ih by (simp add: loop tree skip_value)
  qed
qed

lemma info_digest:
  assumes "drop p src = bencode (BDict kvs) @ r"
  shows "bytes_at src p (p + length (bencode (BDict kvs)) - 1 + 1 - p) = bencode (BDict kvs)"
  using assms by (simp add: bytes_at_def)

lemma metafile_tree:
  "drop p src = pairs_text kvs @ r \<Longrightarrow> tk_type e = BENCODING_TOKEN_END \<Longrightarrow>
   metafile_loop env src meta uc (tokens_dict p kvs @ e # rest) = tree_meta env meta uc kvs"
proof (induction kvs arbitrary: p meta uc)
  case Nil
  then show ?case
    by (simp add: metafile_loop.simps)
next
  case (Cons kv kvs)
  obtain k v where kv: "kv = (k, v)"
    by (cases kv)
  define t where "t = entry_type k (value_type v)"
  let ?p = "p + length (bencode_string k)" and ?q = "p + length (bencode_string k) + length (bencode v)"
  note ds = dict_step [OF Cons.prems(1) [unfolded kv]]
  obtain a us where a: "tokens_at ?p v = a # us" "tk_type a = value_type v"
    using tokens_at_Cons by blast
  have loop: "metafile_loop env src meta uc (tokens_dict p (kv # kvs) @ e # rest) =
      (let ts = tokens_at ?p v @ tokens_dict ?q kvs @ e # rest in
        if t = BENCODING_TOKEN_ANNOUNCE then
          (case add_tracker env meta (token_string src (hd ts)) uc of (meta, uc) \<Rightarrow> metafile_loop env src meta uc (tl ts))
        else if t = BENCODING_TOKEN_ANNOUNCE_LIST then metafile_loop env src meta uc (skip_bencoding_tokens ts)
        else if t = BENCODING_TOKEN_INFO then
          (case parse_bencoding_info_dictionary env src meta ts of (st, meta, ts') \<Rightarrow>
             if st \<noteq> BITTORRENT_STATE_OK then (BITTORRENT_STATE_ERROR, meta, uc)
             else metafile_loop env src
               (meta\<lparr>info_hash := digest_sha1 (bytes (bytes_at src (tk_pos (hd ts)) (tk_pos (hd ts') + tk_len (hd ts') - tk_pos (hd ts))))\<rparr>) uc (tl ts'))
        else if t = BENCODING_TOKEN_COMMENT then
          metafile_loop env src (meta\<lparr>bt_comment := Some (cstring (take 1024 (token_string src (hd ts))))\<rparr>) uc (tl ts)
        else if t = BENCODING_TOKEN_CREATION_DATE then
          metafile_loop env src (meta\<lparr>creation_date := parse_bencoding_integer src (hd ts)\<rparr>) uc (tl ts)
        else if t = BENCODING_TOKEN_CREATED_BY then metafile_loop env src meta uc (tl ts)
        else metafile_loop env src meta uc (skip_bencoding_tokens ts))"
    using entry_never [of k "value_type v"]
    by (subst metafile_loop.simps) (simp add: kv ds(1) Let_def t_def del: tokens_dict.simps)
  note tree = tree_meta.simps(2) [of env meta uc k v kvs, folded kv t_def, unfolded Let_def]
  note ih = Cons.IH [OF ds(3) Cons.prems(2)]
  consider "t \<in> {BENCODING_TOKEN_ANNOUNCE, BENCODING_TOKEN_COMMENT, BENCODING_TOKEN_CREATED_BY}"
    | "t = BENCODING_TOKEN_CREATION_DATE" | "t = BENCODING_TOKEN_INFO"
    | "t \<notin> {BENCODING_TOKEN_ANNOUNCE, BENCODING_TOKEN_COMMENT, BENCODING_TOKEN_CREATED_BY, BENCODING_TOKEN_CREATION_DATE, BENCODING_TOKEN_INFO}"
    by blast
  then show ?case
  proof cases
    case 1
    then have "us = []" "token_string src a = tree_string v"
      using token_str [OF ds(2) _ a(1)] entry_strings [of k "value_type v"] t_def by auto
    with 1 show ?thesis
      using ih by (auto simp: loop tree a(1) Let_def skip_value split: prod.split)
  next
    case 2
    then have "us = []" "parse_bencoding_integer src a = tree_int v"
      using token_int [OF ds(2) _ a(1)] entry_integers [of k "value_type v"] t_def by auto
    with 2 show ?thesis
      using ih by (simp add: loop tree a(1) Let_def)
  next
    case 3
    then have "value_type v = BENCODING_TOKEN_DICTIONARY"
      using entry_dictionaries [of k "value_type v"] t_def by simp
    then obtain jvs where v: "v = BDict jvs"
      by (cases v) auto
    define f where "f = mark BENCODING_TOKEN_END (?p + length (bencode v) - 1)"
    have ts: "tokens_at ?p v = mark BENCODING_TOKEN_DICTIONARY ?p # tokens_dict (?p + 1) jvs @ [f]"
      unfolding v f_def by (rule tokens_at.simps)
    have d: "drop ?p src = bencode (BDict jvs) @ pairs_text kvs @ r"
      using ds(2) v by simp
    have "drop (?p + 1) src = pairs_text jvs @ CHR ''e'' # pairs_text kvs @ r"
      using drop_advance [of ?p src "''d''"] d by simp
    note inf = info_dictionary_tree [OF this, of f env meta zero_file "tokens_dict ?q kvs @ e # rest"]
    have dig: "bytes_at src ?p (tk_pos f + tk_len f - ?p) = bencode v"
      using info_digest [OF d] by (simp only: f_def mark_def token.simps v)
    let ?ts = "tokens_at ?p v @ tokens_dict ?q kvs @ e # rest"
    obtain st meta' where tr: "tree_info env meta zero_file (tree_dict v) = (st, meta')"
      by fastforce
    have "agrees (parse_bencoding_info_dictionary env src meta ?ts) (st, meta') (f # tokens_dict ?q kvs @ e # rest)"
      using inf tr by (simp add: parse_bencoding_info_dictionary_def ts v f_def mark_def)
    then obtain ts' where pf: "parse_bencoding_info_dictionary env src meta ?ts = (st, meta', ts')"
      "st = BITTORRENT_STATE_OK \<longrightarrow> ts' = f # tokens_dict ?q kvs @ e # rest"
      by (auto simp: agrees_def prod_eq_iff)
    have pos: "tk_pos (hd ?ts) = ?p"
      by (simp add: ts mark_def)
    show ?thesis
    proof (cases "st = BITTORRENT_STATE_OK")
      case True
      then show ?thesis
        using ih [of "meta'\<lparr>info_hash := fips_sha1 (bytes (bencode v))\<rparr>" uc] pf(2)
        unfolding loop Let_def pf(1) pos tree tr prod.case by (simp add: 3 dig digest_fips)
    next
      case False
      then show ?thesis
        unfolding loop Let_def pf(1) pos tree tr prod.case by (simp add: 3)
    qed
  next
    case 4
    then show ?thesis
      using ih by (simp add: loop tree skip_value Let_def)
  qed
qed

section \<open>Paths\<close>

lemma file_scheme:
  "get_protocol_length (''file://'' @ x) = 4"
  "get_protocol up ''file'' = PROTOCOL_FILE"
  "get_protocol_need_slash_after_host PROTOCOL_FILE = False"
  "get_protocol_free_syntax PROTOCOL_FILE = False"
proof -
  have "takeWhile scheme_char (''file://'' @ x) = ''file''"
    by (simp add: scheme_char_def isasciialnum_def isasciialpha_def c_isupper_def c_islower_def c_isdigit_def ccode_def)
  then show "get_protocol_length (''file://'' @ x) = 4"
    by (simp add: get_protocol_length_def c_isdigit_def)
qed (code_simp, code_simp, code_simp)

lemma normalize_file_uri:
  assumes "NUL \<notin> set x"
  shows "normalize_uri up None (''file://'' @ x) = ''file://'' @ norm_path dir_sep [] x"
proof -
  let ?s = "''file://'' @ x"
  define u where "u = uri_zero\<lparr>u_string := ?s, protocollen := 4, u_protocol := PROTOCOL_FILE\<rparr>"
  have sc: "parse_scheme up ?s = Inr (u, 7)"
    using file_scheme(1) [of x] by (simp add: parse_scheme_def Let_def file_scheme(2,3) len16_def c_isdigit_def u_def uri_zero_def)
  have pu: "parse_uri up ?s = (URI_ERRNO_OK, parse_file_data u 7)"
    by (simp add: parse_uri_def sc [simplified] file_scheme(4)) (simp add: u_def file_scheme(4))
  let ?u = "parse_file_data u 7"
  have f: "u_string ?u = ?s" "protocollen ?u = 4" "u_protocol ?u = PROTOCOL_FILE" "u_host ?u = None" "u_data ?u = Some 7"
    by (simp_all add: parse_file_data_def parse_frag_post_def Let_def u_def uri_zero_def)
  have low: "lower_uri ?u = ?s"
    by (simp add: lower_uri_def Let_def f lower_range_def c_tolower_def c_isupper_def ccode_def)
  have "normalize_uri up None ?s = normalize_parsed ?u"
    by (simp add: normalize_uri_def normalize_uri_reparse.simps [of up ?s] pu f Let_def del: append_Cons append.simps)
  also have "\<dots> = normalize_from PROTOCOL_FILE 7 ?s"
    by (simp add: normalize_parsed_def f low file_scheme(3,4) data_off_def)
  also have "\<dots> = take 7 ?s @ norm_path (is_uri_dir_sep PROTOCOL_FILE) [] (drop 7 ?s)"
    using assms by (intro normalize_from_norm_path) (auto simp: NUL_def)
  finally show ?thesis
    by (simp add: is_uri_dir_sep_def [abs_def])
qed


definition anchored :: "string \<Rightarrow> bool" where
  "anchored s \<longleftrightarrow> (\<exists>z. s = CHR ''/'' # z \<or> s = CHR ''.'' # CHR ''/'' # z)"

lemma anchored_append: "anchored s \<Longrightarrow> anchored (s @ t)"
  by (auto simp: anchored_def)

lemma anchored_pop: "anchored (rev out) \<Longrightarrow> anchored (rev (pop_dir sep out)) \<or> pop_dir sep out = [] \<or> pop_dir sep out = ''.''"
proof -
  assume a: "anchored (rev out)"
  obtain q where "out = q @ pop_dir sep out"
    using pop_dir_suffix by blast
  then have "anchored (rev (pop_dir sep out) @ rev q)"
    using a by (metis rev_append)
  moreover have "anchored w \<or> w = [] \<or> w = ''.''" if "anchored (w @ v)" for w v
    using that by (auto simp: anchored_def append_eq_Cons_conv)
  ultimately have "anchored (rev (pop_dir sep out)) \<or> rev (pop_dir sep out) = [] \<or> rev (pop_dir sep out) = ''.''"
    by blast
  then show ?thesis
    by (simp add: rev_swap)
qed

lemma anchored_start: "out = [] \<or> out = ''.'' \<Longrightarrow> anchored (rev out @ CHR ''/'' # cs)"
  by (auto simp: anchored_def)

lemma norm_path_anchored:
  "anchored (rev out) \<or> (out = [] \<or> out = ''.'') \<and> rd rest 0 = CHR ''/'' \<Longrightarrow> anchored (norm_path dir_sep out rest)"
proof (induction dir_sep out rest rule: norm_path.induct)
  case (1 out)
  then show ?case
    by (simp add: NUL_def)
next
  case (2 out c cs)
  have pop: "pop_dir dir_sep out = [] \<or> pop_dir dir_sep out = ''.'' \<or> anchored (rev (pop_dir dir_sep out))"
    using anchored_pop [of out dir_sep] "2.prems" by (auto simp: pop_dir_def)
  show ?case
  proof (cases "dir_sep c")
    case False
    with "2.prems" have "anchored (rev out)"
      by (simp add: dir_sep_def)
    then have "anchored (rev out @ t)" for t
      by (rule anchored_append)
    with False 2 show ?thesis
      by (simp add: norm_path.simps)
  next
    case True
    have an: "anchored (rev out @ [c])" "anchored (rev (pop_dir dir_sep out) @ [c])" "\<not> end_of_dir c"
      using "2.prems" pop anchored_append anchored_start [of out "[]"] anchored_start [of "pop_dir dir_sep out" "[]"] True
      by (auto simp: dir_sep_def end_of_dir_def POST_CHAR_def)
    have r: "rd cs k = CHR ''/'' \<Longrightarrow> rd (drop k cs) 0 = CHR ''/''" for k
      by (simp add: rd_drop [of cs k 0, symmetric])
    show ?thesis
      using 2 True an pop r [of 1] r [of 2] by (auto simp: norm_path.simps dir_sep_def)
  qed
qed

lemma pop_dir_set: "set (pop_dir sep out) \<subseteq> set out"
  by (metis pop_dir_suffix set_append Un_upper2)

lemma norm_path_set: "x \<in> set (norm_path sep out rest) \<Longrightarrow> x \<in> set out \<or> x \<in> set rest"
proof (induction sep out rest rule: norm_path.induct)
  case (2 sep out c cs)
  have dr: "x \<in> set (drop k cs) \<Longrightarrow> x \<in> set cs" for k
    by (rule in_set_dropD)
  have po: "x \<in> set (pop_dir sep out) \<Longrightarrow> x \<in> set out"
    using pop_dir_set [of sep out] by blast
  show ?case
    using "2.prems" "2.IH" dr [of 1] dr [of 2] po by (auto simp: norm_path.simps split: if_splits)
qed simp

text \<open>The components of a path.\<close>

fun components :: "string \<Rightarrow> string list" where
  "components [] = [[]]"
| "components (c # cs) = (if c = CHR ''/'' then [] # components cs else (c # hd (components cs)) # tl (components cs))"

definition elevators :: "string set" where
  "elevators = {[], ''.'', ''..''}"


lemma components_nonempty [simp]: "components s \<noteq> []"
  by (induction s) auto

lemma clean_components:
  "clean dir_sep s \<Longrightarrow> \<forall>c\<in>set s. \<not> end_of_dir c \<and> c \<noteq> NUL \<Longrightarrow>
   set (tl (components s)) \<inter> {''.'', ''..''} = {} \<and> [] \<notin> set (butlast (tl (components s))) \<and>
   (ok_after dir_sep s \<longrightarrow> hd (components s) \<notin> {''.'', ''..''} \<and> (hd (components s) = [] \<longrightarrow> s = []))"
proof (induction s)
  case (Cons c s)
  then have ih: "set (tl (components s)) \<inter> {''.'', ''..''} = {}" "[] \<notin> set (butlast (tl (components s)))"
    "ok_after dir_sep s \<longrightarrow> hd (components s) \<notin> {''.'', ''..''} \<and> (hd (components s) = [] \<longrightarrow> s = [])"
    by auto
  show ?case
  proof (cases "c = CHR ''/''")
    case True
    then have "dir_sep c"
      by (simp add: dir_sep_def)
    then have "ok_after dir_sep s"
      using Cons.prems by simp
    then have "hd (components s) \<notin> {''.'', ''..''}" "hd (components s) = [] \<longrightarrow> s = []"
      using ih(3) by auto
    then have "set (components s) \<inter> {''.'', ''..''} = {}" "[] \<notin> set (butlast (components s))"
      using ih(1,2) by (cases "components s"; cases s; auto)+
    then show ?thesis
      using True by (auto simp: ok_after_def dir_sep_def)
  next
    case False
    have "hd (components s) = [] \<longrightarrow> rd s 0 = NUL \<or> rd s 0 = CHR ''/''"
      by (cases s) auto
    moreover have "hd (components s) = ''.'' \<longrightarrow> rd s 0 = CHR ''.'' \<and> (rd s 1 = NUL \<or> rd s 1 = CHR ''/'')"
      by (cases s; cases "tl s") auto
    ultimately have "ok_after dir_sep (c # s) \<longrightarrow> c # hd (components s) \<notin> {''.'', ''..''}"
      unfolding ok_after_def dir_sep_def One_nat_def numeral_2_eq_2 rd_Cons by auto
    moreover have "components (c # s) = (c # hd (components s)) # tl (components s)"
      using False by simp
    ultimately show ?thesis
      using ih(1,2) by (simp only: list.sel) simp
  qed
qed simp

lemma normalized_path:
  assumes "NUL \<notin> set path"
  shows "normalize_bencoding_path up path =
    Some (case norm_path dir_sep [] (''./'' @ path) of
       [] \<Rightarrow> ([], False)
     | c # n \<Rightarrow> if c = CHR ''/'' then (n, True) else (drop 1 n, False))"
proof -
  have "cstring (''file://./'' @ path) = ''file://'' @ (''./'' @ path)"
    using assms by (auto simp: cstring_def NUL_def takeWhile_eq_all_conv)
  moreover have "normalize_uri up None (''file://'' @ (''./'' @ path)) = ''file://'' @ norm_path dir_sep [] (''./'' @ path)"
    using assms by (intro normalize_file_uri) (auto simp: NUL_def)
  ultimately have n: "normalize_uri up None (cstring (''file://./'' @ path)) = ''file://'' @ norm_path dir_sep [] (''./'' @ path)"
    by simp
  have "rd (''file://'' @ s) 7 = rd s 0" for s
    by (cases s) (simp_all add: rd_def)
  then show ?thesis
    unfolding normalize_bencoding_path_def n Let_def by (simp add: dir_sep_def NUL_def split: list.split)
qed

lemma clean_path_kept:
  assumes "clean dir_sep p" "ok_after dir_sep p" "NUL \<notin> set p"
  shows "normalize_bencoding_path up p = Some (p, False)"
proof -
  have "\<not> dir_sep CHR ''.''" "dir_sep CHR ''/''"
    by (simp_all add: dir_sep_def)
  then have "norm_path dir_sep [] (''./'' @ p) = ''./'' @ p"
    using norm_path_clean_id [of dir_sep "''./'' @ p" "[]"] assms by (simp add: NUL_def)
  then show ?thesis
    using normalized_path [OF assms(3), of up] by simp
qed

text \<open>The names of files that need no normalisation, and the path that the components of a list make.\<close>

definition plain_name :: "string \<Rightarrow> bool" where
  "plain_name s \<longleftrightarrow> s \<notin> {[], ''.'', ''..''} \<and> (\<forall>c\<in>set s. c \<noteq> CHR ''/'' \<and> \<not> end_of_dir c \<and> c \<noteq> NUL)"

fun path_text :: "string list \<Rightarrow> string" where
  "path_text [] = []"
| "path_text [s] = s"
| "path_text (s # ss) = s @ CHR ''/'' # path_text ss"

lemma ok_after_plain:
  assumes "plain_name s" "r = [] \<or> hd r = CHR ''/''"
  shows "ok_after dir_sep (s @ r)"
proof -
  obtain c cs where s: "s = c # cs" "c \<noteq> CHR ''/''"
    using assms(1) by (cases s) (auto simp: plain_name_def)
  show ?thesis
  proof (cases cs)
    case Nil
    with assms(1) s show ?thesis
      by (auto simp: plain_name_def ok_after_def dir_sep_def)
  next
    case (Cons d ds)
    then have "d \<noteq> CHR ''/''" "d \<noteq> NUL"
      using assms(1) s by (auto simp: plain_name_def)
    moreover have "c = CHR ''.'' \<and> d = CHR ''.'' \<longrightarrow> ds \<noteq> [] \<and> hd ds \<noteq> CHR ''/'' \<and> hd ds \<noteq> NUL"
      using assms(1) s Cons by (cases ds) (auto simp: plain_name_def)
    ultimately show ?thesis
      using s Cons by (cases ds) (auto simp: ok_after_def dir_sep_def numeral_2_eq_2)
  qed
qed

lemma ok_after_query:
  assumes "\<forall>c\<in>set a. c \<noteq> CHR ''/'' \<and> c \<noteq> NUL"
  shows "ok_after dir_sep (a @ CHR ''?'' # r)"
proof -
  consider "a = []" | c where "a = [c]" | c d where "a = [c, d]" | c d e ds where "a = c # d # e # ds"
    by (metis neq_Nil_conv)
  then show ?thesis
    using assms by cases (auto simp: ok_after_def dir_sep_def numeral_2_eq_2 NUL_def)
qed

lemma clean_plain: "\<forall>c\<in>set s. c \<noteq> CHR ''/'' \<Longrightarrow> clean dir_sep r \<Longrightarrow> clean dir_sep (s @ r)"
  by (induction s) (auto simp: dir_sep_def [of "_ :: char"])

lemma path_text_clean:
  "list_all plain_name ss \<Longrightarrow> ss \<noteq> [] \<Longrightarrow> clean dir_sep (path_text ss) \<and> ok_after dir_sep (path_text ss) \<and> NUL \<notin> set (path_text ss)"
proof (induction ss rule: path_text.induct)
  case (2 s)
  then have "\<forall>c\<in>set s. c \<noteq> CHR ''/''" "plain_name s" "NUL \<notin> set s"
    by (auto simp: plain_name_def)
  then show ?case
    using clean_plain [of s "[]"] ok_after_plain [of s "[]"] by simp
next
  case (3 s t ss)
  then have s: "\<forall>c\<in>set s. c \<noteq> CHR ''/''" "plain_name s" "NUL \<notin> set s"
    by (auto simp: plain_name_def)
  have "clean dir_sep (CHR ''/'' # path_text (t # ss))"
    using 3 by simp
  then show ?case
    using clean_plain [OF s(1)] ok_after_plain [OF s(2)] s(3) 3 by (auto simp: NUL_def)
qed simp

lemma plain_path_kept:
  "list_all plain_name ss \<Longrightarrow> ss \<noteq> [] \<Longrightarrow> normalize_bencoding_path up (path_text ss) = Some (path_text ss, False)"
  using path_text_clean [of ss] by (intro clean_path_kept) auto

text \<open>C13: The path of a file in a torrent, if it has none of the bytes at which normalising stops, is turned into one that stays below
  the download directory: no component of it is a directory elevator, and none but the last is empty.\<close>

theorem path_confined:
  assumes "\<forall>c\<in>set path. \<not> end_of_dir c \<and> c \<noteq> NUL"
  shows "\<exists>name malicious. normalize_bencoding_path up path = Some (name, malicious) \<and>
    set (components name) \<inter> {''.'', ''..''} = {} \<and> [] \<notin> set (butlast (components name))"
proof -
  let ?n = "norm_path dir_sep [] (''./'' @ path)"
  have nul: "NUL \<notin> set path"
    using assms by blast
  have nn: "NUL \<notin> set (''./'' @ path)" "\<not> dir_sep (CHR ''.'')" "\<not> dir_sep NUL"
    using assms by (auto simp: NUL_def dir_sep_def)
  have cl: "clean dir_sep ?n"
    by (intro norm_path_clean nn) simp
  have ch: "\<forall>c\<in>set ?n. \<not> end_of_dir c \<and> c \<noteq> NUL"
    using norm_path_set [of _ dir_sep "[]" "''./'' @ path"] assms by (auto simp: NUL_def end_of_dir_def POST_CHAR_def)
  have "?n = norm_path dir_sep ''.'' (''/'' @ path)"
    by (simp add: norm_path.simps end_of_dir_def POST_CHAR_def dir_sep_def)
  then have "anchored ?n"
    using norm_path_anchored [of "''.''" "''/'' @ path"] by simp
  then obtain z where z: "?n = CHR ''/'' # z \<or> ?n = CHR ''.'' # CHR ''/'' # z"
    by (auto simp: anchored_def)
  moreover have "\<not> end_of_dir CHR ''/''" "dir_sep CHR ''/''" "\<not> end_of_dir CHR ''.''" "\<not> dir_sep CHR ''.''"
    by (simp_all add: dir_sep_def end_of_dir_def POST_CHAR_def)
  ultimately have ok: "clean dir_sep z" "ok_after dir_sep z" "\<forall>c\<in>set z. \<not> end_of_dir c \<and> c \<noteq> NUL"
    using cl ch by auto
  have "\<exists>malicious. normalize_bencoding_path up path = Some (z, malicious)"
    using z normalized_path [of path up] nul by auto
  moreover have "set (components z) \<inter> {''.'', ''..''} = {} \<and> [] \<notin> set (butlast (components z))"
  proof (cases "components z")
    case (Cons x xs)
    then have "set xs \<inter> {''.'', ''..''} = {}" "[] \<notin> set (butlast xs)" "x \<notin> {''.'', ''..''}" "x = [] \<longrightarrow> z = []"
      using clean_components [OF ok(1,3)] ok(2) by simp_all
    moreover have "x = [] \<longrightarrow> xs = []"
      using calculation(4) Cons by auto
    ultimately show ?thesis
      by (auto simp: Cons)
  qed simp
  ultimately show ?thesis
    by blast
qed

theorem path_confined_witness:
  "\<exists>name malicious. normalize_bencoding_path (\<lambda>_. False) ''a/../../etc/./x'' = Some (name, malicious) \<and>
    set (components name) \<inter> {''.'', ''..''} = {} \<and> [] \<notin> set (butlast (components name))"
  by (rule path_confined) (simp add: end_of_dir_def POST_CHAR_def NUL_def)

text \<open>C28: A question mark in the path of a file hides the directory elevators behind it: for a first component \<open>a\<close> without slash
  and any rest \<open>b\<close>, the name keeps all that stands behind the question mark, elevators included, as it is, and is not marked as malicious.\<close>

theorem hidden_elevators:
  assumes "\<forall>c\<in>set a. c \<noteq> CHR ''/'' \<and> c \<noteq> NUL" "NUL \<notin> set b"
  shows "normalize_bencoding_path up (a @ ''?/../'' @ b) = Some (a @ ''?/../'' @ b, False)"
proof (rule clean_path_kept)
  have c: "clean dir_sep (''?/../'' @ b)"
    by (simp add: end_of_dir_def)
  show "clean dir_sep (a @ ''?/../'' @ b)"
    by (rule clean_plain [OF _ c]) (use assms(1) in blast)
  show "NUL \<notin> set (a @ ''?/../'' @ b)"
    using assms by (auto simp: NUL_def)
  show "ok_after dir_sep (a @ ''?/../'' @ b)"
    using ok_after_query [OF assms(1)] by simp
qed

theorem hidden_elevators_witness:
  "normalize_bencoding_path (\<lambda>_. False) ''x?/../../../home/u/.profile'' = Some (''x?/../../../home/u/.profile'', False)"
  using hidden_elevators [of "''x''" "''../../home/u/.profile''"] by (simp add: NUL_def)

section \<open>Whole files\<close>

lemma scan_integer_ge: "s \<le> scan_bencoding_integer src e s"
  by (induction src e s rule: scan_bencoding_integer.induct) (subst scan_bencoding_integer.simps, auto)

lemma scan_bencoding_advances: "scan_advances BENCODING_TOKEN_NONE (scan_bencoding_token src e)"
  unfolding scan_advances_def
proof (intro allI impI)
  fix p
  have "p + 1 \<le> scan_bencoding_integer src e (p + 1)" "p + 1 + 1 \<le> scan_bencoding_integer src e (p + 1 + 1)"
    by (rule scan_integer_ge)+
  then show "p < snd (scan_bencoding_token src e p)"
    by (simp add: scan_bencoding_token_def Let_def split: prod.split)
qed

lemma metafile_reads:
  assumes "short v"
  shows "parse_bittorrent_metafile env (bencode v @ behind) (length (bencode v)) uc =
    (case v of BDict kvs \<Rightarrow> tree_meta env zero_meta uc kvs | _ \<Rightarrow> (BITTORRENT_STATE_ERROR, zero_meta, uc))"
proof (cases v)
  case (BDict kvs)
  define f where "f = mark BENCODING_TOKEN_END (0 + length (bencode v) - 1)"
  have "drop 1 (bencode v @ behind) = pairs_text kvs @ CHR ''e'' # behind"
    by (simp add: BDict)
  from metafile_tree [OF this, of f env zero_meta uc "[]"]
  have "metafile_loop env (bencode v @ behind) zero_meta uc (tokens_dict 1 kvs @ [f]) = tree_meta env zero_meta uc kvs"
    by (simp add: f_def mark_def)
  moreover have "bencoding_tokens (bencode v @ behind) (length (bencode v)) = mark BENCODING_TOKEN_DICTIONARY 0 # tokens_dict 1 kvs @ [f]"
    unfolding bencoding_tokens_value [OF assms] f_def unfolding BDict tokens_at.simps by simp
  ultimately show ?thesis
    by (simp add: parse_bittorrent_metafile_def BDict mark_def)
qed (use bencoding_tokens_value [OF assms] in \<open>auto simp: parse_bittorrent_metafile_def string_token_def mark_def split: list.split\<close>)

section \<open>A torrent is read back\<close>

record torrent =
  tr_announce :: string
  tr_name :: string
  tr_piece_length :: int
  tr_hashes :: string
  tr_files :: "(string list \<times> int) list"

definition file_value :: "string list \<times> int \<Rightarrow> bvalue" where
  "file_value f = BDict [(''length'', BInt (snd f)), (''path'', BList (map BStr (fst f)))]"

definition info_value :: "torrent \<Rightarrow> bvalue" where
  "info_value t =
     BDict [(''files'', BList (map file_value (tr_files t))), (''name'', BStr (tr_name t)),
            (''piece length'', BInt (tr_piece_length t)), (''pieces'', BStr (tr_hashes t))]"

definition torrent_value :: "torrent \<Rightarrow> bvalue" where
  "torrent_value t = BDict [(''announce'', BStr (tr_announce t)), (''info'', info_value t)]"

definition torrent_ok :: "torrent \<Rightarrow> bool" where
  "torrent_ok t \<longleftrightarrow> plain_name (tr_name t) \<and> 0 < tr_piece_length t \<and> tr_piece_length t < INT_MAX \<and>
     tr_hashes t \<noteq> [] \<and> length (tr_hashes t) mod 20 = 0 \<and> tr_files t \<noteq> [] \<and>
     (\<forall>(path, len)\<in>set (tr_files t). path \<noteq> [] \<and> list_all plain_name path \<and> 0 \<le> len) \<and>
     (\<Sum>f\<leftarrow>tr_files t. snd f) < 2 ^ 63 \<and> short (torrent_value t)"

definition torrent_files :: "torrent \<Rightarrow> bittorrent_file list" where
  "torrent_files t = map (\<lambda>(path, len). zero_file\<lparr>bf_length := len, bf_name := path_text path, bf_selected := True\<rparr>) (tr_files t)"

lemma entry_types:
  "entry_type ''announce'' BENCODING_TOKEN_STRING = BENCODING_TOKEN_ANNOUNCE"
  "entry_type ''info'' BENCODING_TOKEN_DICTIONARY = BENCODING_TOKEN_INFO"
  "entry_type ''files'' BENCODING_TOKEN_LIST = BENCODING_TOKEN_FILES"
  "entry_type ''name'' BENCODING_TOKEN_STRING = BENCODING_TOKEN_NAME"
  "entry_type ''piece length'' BENCODING_TOKEN_INTEGER = BENCODING_TOKEN_PIECE_LENGTH"
  "entry_type ''pieces'' BENCODING_TOKEN_STRING = BENCODING_TOKEN_PIECES"
  "entry_type ''length'' BENCODING_TOKEN_INTEGER = BENCODING_TOKEN_LENGTH"
  "entry_type ''path'' BENCODING_TOKEN_LIST = BENCODING_TOKEN_PATH"
  by (simp_all add: entry_type_def bencoding_dictionary_entries_def cstring_def NUL_def c_toupper_def c_islower_def ccode_def)

lemma tree_path_join_aux: "path \<noteq> [] \<Longrightarrow> tree_path path (map BStr ss) = Some (if ss = [] then path else path @ CHR ''/'' # path_text ss)"
proof (induction ss arbitrary: path)
  case (Cons s ss)
  from Cons.IH [of "path @ CHR ''/'' # s"] Cons.prems show ?case
    by (cases ss) simp_all
qed simp

lemma tree_path_join: "list_all plain_name ss \<Longrightarrow> tree_path [] (map BStr ss) = Some (path_text ss)"
proof (cases ss)
  case (Cons s ss')
  assume "list_all plain_name ss"
  then have "s \<noteq> []"
    by (auto simp: Cons plain_name_def)
  then show ?thesis
    using tree_path_join_aux [of s ss'] by (cases ss') (simp_all add: Cons)
qed simp

lemma path_text_no_NUL: "list_all plain_name ss \<Longrightarrow> ss \<noteq> [] \<Longrightarrow> cstring (path_text ss) = path_text ss"
  using path_text_clean [of ss] by (auto simp: cstring_def takeWhile_eq_all_conv)

lemma tree_file_value:
  assumes "path \<noteq> []" "list_all plain_name path" "0 \<le> len" "len < 2 ^ 63"
  shows "tree_file env meta [] zero_file [(''length'', BInt len), (''path'', BList (map BStr path))] =
    (BITTORRENT_STATE_OK, meta\<lparr>bt_files := bt_files meta @ [zero_file\<lparr>bf_length := len, bf_name := path_text path, bf_selected := True\<rparr>]\<rparr>)"
  using assms by (simp add: entry_types tree_path_join add_bittorrent_file_def path_text_no_NUL plain_path_kept)

lemma sum_snd_le: "\<forall>f\<in>set fs. 0 \<le> snd f \<Longrightarrow> 0 \<le> (\<Sum>f\<leftarrow>fs. snd f :: int) \<and> (\<forall>f\<in>set fs. snd f \<le> (\<Sum>f\<leftarrow>fs. snd f))"
  by (induction fs) auto

lemma tree_files_values:
  "\<forall>(path, len)\<in>set fs. path \<noteq> [] \<and> list_all plain_name path \<and> 0 \<le> len \<and> len < 2 ^ 63 \<Longrightarrow>
   tree_files env meta (map file_value fs) =
     (BITTORRENT_STATE_OK,
      meta\<lparr>bt_files := bt_files meta @ map (\<lambda>(path, len). zero_file\<lparr>bf_length := len, bf_name := path_text path, bf_selected := True\<rparr>) fs\<rparr>)"
proof (induction fs arbitrary: meta)
  case (Cons f fs)
  then have f: "fst f \<noteq> []" "list_all plain_name (fst f)" "0 \<le> snd f" "snd f < 2 ^ 63"
    by auto
  show ?case
    using Cons tree_file_value [OF f, of env meta] by (simp add: file_value_def case_prod_beta)
qed simp

lemma sum_lengths_value:
  "\<forall>f\<in>set fs. 0 \<le> bf_length f \<Longrightarrow> 0 \<le> acc \<Longrightarrow> acc + (\<Sum>f\<leftarrow>fs. bf_length f) < 2 ^ 63 \<Longrightarrow>
   sum_lengths acc fs = Some (acc + (\<Sum>f\<leftarrow>fs. bf_length f))"
proof (induction fs arbitrary: acc)
  case (Cons f fs)
  have "0 \<le> (\<Sum>f\<leftarrow>fs. bf_length f)"
    using Cons.prems(1) by (intro sum_list_nonneg) auto
  then have "int64 (acc + bf_length f) = acc + bf_length f"
    using Cons.prems by (intro int64_id) auto
  then show ?case
    using Cons.IH [of "acc + bf_length f"] Cons.prems by (simp add: add.assoc not_less)
qed simp


definition last_length :: "int \<Rightarrow> int \<Rightarrow> nat" where
  "last_length n pl = nat (if n mod pl = 0 then pl else n mod pl)"

definition read_meta :: "torrent \<Rightarrow> nat \<Rightarrow> bittorrent_meta" where
  "read_meta t a =
     \<lparr>info_hash = fips_sha1 (bytes (bencode (info_value t))), creation_date = 0, bt_comment = None, tracker_uris = [a],
      bt_pieces = length (tr_hashes t) div 20, piece_length = nat (tr_piece_length t),
      last_piece_length = last_length (\<Sum>f\<leftarrow>tr_files t. snd f) (tr_piece_length t), piece_hash = Some (tr_hashes t),
      bt_type = BITTORRENT_MULTI_FILE, malicious_paths = False, bt_name = Some (tr_name t), bt_files = torrent_files t\<rparr>"

lemma tree_info_value:
  assumes "torrent_ok t"
  shows "tree_info env meta fl (tree_dict (info_value t)) =
    (BITTORRENT_STATE_OK,
     meta\<lparr>bt_type := BITTORRENT_MULTI_FILE, bt_files := bt_files meta @ torrent_files t, bt_name := Some (tr_name t),
          malicious_paths := malicious_paths meta, piece_length := nat (tr_piece_length t),
          bt_pieces := length (tr_hashes t) div 20, piece_hash := Some (tr_hashes t)\<rparr>)"
proof -
  have "\<forall>(path, len)\<in>set (tr_files t). path \<noteq> [] \<and> list_all plain_name path \<and> 0 \<le> len \<and> len < 2 ^ 63"
    using assms sum_snd_le [of "tr_files t"] by (fastforce simp: torrent_ok_def)
  note fs = tree_files_values [OF this, of env "meta\<lparr>bt_type := BITTORRENT_MULTI_FILE\<rparr>"]
  have nm: "normalize_bencoding_path up (tr_name t) = Some (tr_name t, False)" for up
    using plain_path_kept [of "[tr_name t]" up] assms by (simp add: torrent_ok_def)
  have "tree_int (BInt (tr_piece_length t)) = tr_piece_length t" "0 < tr_piece_length t" "tr_piece_length t < INT_MAX"
    "length (tr_hashes t) mod 20 = 0"
    using assms by (simp_all add: torrent_ok_def INT_MAX_def)
  then show ?thesis
    by (simp add: info_value_def entry_types fs nm torrent_files_def del: tree_int.simps)
qed

lemma check_read_meta:
  assumes "torrent_ok t" "fips_sha1 (bytes (bencode (info_value t))) \<noteq> BITTORRENT_NULL_ID"
  shows "check_bittorrent_metafile (read_meta t a\<lparr>last_piece_length := 0\<rparr>) = (BITTORRENT_STATE_OK, read_meta t a)"
proof -
  let ?total = "\<Sum>f\<leftarrow>tr_files t. snd f" and ?pl = "tr_piece_length t"
  note tk = assms(1) [unfolded torrent_ok_def]
  have t: "0 < ?pl" "?pl < INT_MAX" "tr_hashes t \<noteq> []" "length (tr_hashes t) mod 20 = 0" "tr_files t \<noteq> []" "?total < 2 ^ 63"
    using tk by blast+
  have "plain_name (tr_name t)" "\<forall>(path, len)\<in>set (tr_files t). path \<noteq> [] \<and> list_all plain_name path \<and> 0 \<le> len"
    using tk by blast+
  note pn = this
  have nm: "tr_name t \<noteq> []"
    using pn(1) unfolding plain_name_def by blast
  have pos: "\<forall>f\<in>set (tr_files t). 0 \<le> snd f"
    using pn(2) by fastforce
  have sums: "(\<Sum>f\<leftarrow>torrent_files t. bf_length f) = ?total"
    by (simp add: torrent_files_def comp_def case_prod_beta)
  have "\<forall>f\<in>set (torrent_files t). 0 \<le> bf_length f"
    using pos by (auto simp: torrent_files_def case_prod_beta)
  from sum_lengths_value [OF this, of 0] have len: "sum_lengths 0 (torrent_files t) = Some ?total"
    using t(6) by (simp add: sums)
  have nn: "0 \<le> ?total"
    using sum_snd_le [of "tr_files t"] pos by blast
  then have md: "?total smod ?pl = ?total mod ?pl"
    using t(1) by (simp add: signed_modulo_int_def sgn_if abs_if)
  define l where "l = (if ?total mod ?pl = 0 then ?pl else ?total mod ?pl)"
  have l': "0 < l \<and> l \<le> ?pl"
    using t(1) pos_mod_bound [OF t(1), of ?total] pos_mod_sign [OF t(1), of ?total] unfolding l_def
    by (cases "?total mod ?pl = 0") (simp_all add: less_le)
  then have l: "0 < l" "l \<le> ?pl"
    by blast+
  then have l32: "l mod 2 ^ 32 = l"
    using t(2) by (simp add: INT_MAX_def)
  have "length (tr_hashes t) div 20 \<noteq> 0"
    using t(3,4) by (cases "length (tr_hashes t) div 20 = 0") auto
  moreover have "nat ?pl \<noteq> 0" "int (nat ?pl) = ?pl"
    using t(1) by simp_all
  moreover have "torrent_files t \<noteq> []"
    using t(5) by (simp add: torrent_files_def)
  ultimately show ?thesis
    using assms(2) nm l l32 [unfolded l_def]
    by (cases "?total mod ?pl = 0")
      (simp_all add: check_bittorrent_metafile_def read_meta_def bittorrent_id_is_empty_def len md Let_def l_def last_length_def)
qed

lemma torrent_read:
  fixes env :: torrent_env and uc :: uri_cache
  assumes "torrent_ok t"
  defines "uris \<equiv> get_uri (te_user_program env) (te_idn env) (te_uri_mem env uc) (cstring (tr_announce t)) 0 uc"
  shows "case parse_bittorrent_metafile env (bencode (torrent_value t) @ behind) (length (bencode (torrent_value t))) uc of
    (st, meta, _) \<Rightarrow>
      if fst uris = None \<or> fips_sha1 (bytes (bencode (info_value t))) = BITTORRENT_NULL_ID then st = BITTORRENT_STATE_ERROR
      else st = BITTORRENT_STATE_OK \<and> meta = read_meta t (the (fst uris))"
proof -
  obtain kvs where iv: "info_value t = BDict kvs"
    by (simp add: info_value_def)
  have vt: "value_type (info_value t) = BENCODING_TOKEN_DICTIONARY"
    by (simp add: iv)
  have ps: "parse_bittorrent_metafile env (bencode (torrent_value t) @ behind) (length (bencode (torrent_value t))) uc =
      tree_meta env zero_meta uc [(''announce'', BStr (tr_announce t)), (''info'', info_value t)]"
    using metafile_reads [of "torrent_value t" env behind uc] assms(1) by (simp add: torrent_value_def torrent_ok_def)
  show ?thesis
  proof (cases "fst uris")
    case None
    then have "add_tracker env zero_meta (tr_announce t) uc = (zero_meta, snd uris)"
      by (simp add: add_tracker_def uris_def case_prod_beta split: prod.split option.split)
    then have "tree_meta env zero_meta uc [(''announce'', BStr (tr_announce t)), (''info'', info_value t)] =
        tree_meta env (read_meta t 0\<lparr>last_piece_length := 0, tracker_uris := []\<rparr>) (snd uris) []"
      using tree_info_value [OF assms(1), of env zero_meta zero_file]
      by (simp add: entry_types vt read_meta_def zero_meta_def del: tree_meta.simps(1))
    then show ?thesis
      by (simp add: ps None check_bittorrent_metafile_def)
  next
    case (Some a)
    obtain uc1 where uc1: "uris = (Some a, uc1)"
      using Some by (cases uris) auto
    define uc2 where "uc2 = done_uri a (get_uri_reference a uc1)"
    have "add_tracker env zero_meta (tr_announce t) uc = (zero_meta\<lparr>tracker_uris := [a]\<rparr>, uc2)"
      by (simp add: add_tracker_def uris_def [symmetric] uc1 add_to_uri_list_def uc2_def zero_meta_def)
    then have "tree_meta env zero_meta uc [(''announce'', BStr (tr_announce t)), (''info'', info_value t)] =
        tree_meta env (read_meta t a\<lparr>last_piece_length := 0\<rparr>) uc2 []"
      using tree_info_value [OF assms(1), of env "zero_meta\<lparr>tracker_uris := [a]\<rparr>" zero_file]
      by (simp add: entry_types vt read_meta_def zero_meta_def del: tree_meta.simps(1))
    moreover have "check_bittorrent_metafile (read_meta t a\<lparr>last_piece_length := 0\<rparr>) = (BITTORRENT_STATE_ERROR, read_meta t a\<lparr>last_piece_length := 0\<rparr>)"
      if "fips_sha1 (bytes (bencode (info_value t))) = BITTORRENT_NULL_ID"
      using that by (simp add: check_bittorrent_metafile_def read_meta_def bittorrent_id_is_empty_def)
    ultimately show ?thesis
      using check_read_meta [OF assms(1), of a] by (cases "fips_sha1 (bytes (bencode (info_value t))) = BITTORRENT_NULL_ID") (simp_all add: ps Some)
  qed
qed

text \<open>C3: Any multi-file torrent whose file names need no normalisation, written as its .torrent file, is read back exactly:
  trackers, piece hashes, piece lengths with that of the last piece, file names and lengths, and the info hash, which is the SHA-1
  digest of the text of the info dictionary. It fails only if its tracker cannot be registered as a URI or
  that digest is all zero.\<close>

theorem torrent_read_back:
  assumes "torrent_ok t"
  shows "case parse_bittorrent_metafile env (bencode (torrent_value t) @ behind) (length (bencode (torrent_value t))) uc of
    (st, meta, _) \<Rightarrow>
      let uri = fst (get_uri (te_user_program env) (te_idn env) (te_uri_mem env uc) (cstring (tr_announce t)) 0 uc) in
      if uri = None \<or> fips_sha1 (bytes (bencode (info_value t))) = BITTORRENT_NULL_ID then st = BITTORRENT_STATE_ERROR
      else st = BITTORRENT_STATE_OK \<and> meta = read_meta t (the uri)"
  using torrent_read [OF assms, where env = env and behind = behind and uc = uc] unfolding Let_def .

text \<open>A torrent of two files; its info dictionary fills three blocks of the digest.\<close>

lemma sample_block_1:
  "block_int [0x67452301, 0xefcdab89, 0x98badcfe, 0x10325476, 0xc3d2e1f0]
    [100, 53, 58, 102, 105, 108, 101, 115, 108, 100, 54, 58, 108, 101, 110, 103, 116, 104, 105, 53, 101, 52, 58, 112, 97, 116, 104, 108, 49, 58, 97, 49,
     58, 98, 101, 101, 100, 54, 58, 108, 101, 110, 103, 116, 104, 105, 50, 101, 52, 58, 112, 97, 116, 104, 108, 49, 58, 99, 101, 101, 101, 52, 58, 110] =
    [0x3ae4eab3, 0x6e1fd960, 0xcad6a61c, 0xf561d6d5, 0x8332b559]"
  by (simp add: eval_int)

lemma sample_block_2:
  "block_int [0x3ae4eab3, 0x6e1fd960, 0xcad6a61c, 0xf561d6d5, 0x8332b559]
    [97, 109, 101, 49, 58, 100, 49, 50, 58, 112, 105, 101, 99, 101, 32, 108, 101, 110, 103, 116, 104, 105, 52, 101, 54, 58, 112, 105, 101, 99, 101, 115,
     52, 48, 58, 120, 120, 120, 120, 120, 120, 120, 120, 120, 120, 120, 120, 120, 120, 120, 120, 120, 120, 120, 120, 120, 120, 120, 120, 120, 120, 120, 120, 120] =
    [0x162030eb, 0x9992c1bf, 0x41cb440f, 0xf2c26f75, 0x7d65b700]"
  by (simp add: eval_int)

lemma sample_block_3:
  "block_int [0x162030eb, 0x9992c1bf, 0x41cb440f, 0xf2c26f75, 0x7d65b700]
    [120, 120, 120, 120, 120, 120, 120, 120, 120, 120, 120, 101, 128, 0, 0, 0, 0, 0, 0, 0, 0, 0, 0, 0, 0, 0, 0, 0, 0, 0, 0, 0,
     0, 0, 0, 0, 0, 0, 0, 0, 0, 0, 0, 0, 0, 0, 0, 0, 0, 0, 0, 0, 0, 0, 0, 0, 0, 0, 0, 0, 0, 0, 4, 96] =
    [0x7b879f9f, 0xcb63bd0f, 0xcd2e0f44, 0x94dfec6f, 0x42403aee]"
  by (simp add: eval_int)

definition sample_torrent :: torrent where
  "sample_torrent = \<lparr>tr_announce = ''http://elinks.cz/a/b'', tr_name = ''d'', tr_piece_length = 4, tr_hashes = replicate 40 (CHR ''x''),
     tr_files = [([''a'', ''b''], 5), ([''c''], 2)]\<rparr>"

lemma sample_info_text: "bencode (info_value sample_torrent) = ''d5:filesld6:lengthi5e4:pathl1:a1:beed6:lengthi2e4:pathl1:ceee4:name1:d12:piece lengthi4e6:pieces40:xxxxxxxxxxxxxxxxxxxxxxxxxxxxxxxxxxxxxxxxe''"
  by code_simp

lemma sample_padded:
  "fips_pad (bytes ''d5:filesld6:lengthi5e4:pathl1:a1:beed6:lengthi2e4:pathl1:ceee4:name1:d12:piece lengthi4e6:pieces40:xxxxxxxxxxxxxxxxxxxxxxxxxxxxxxxxxxxxxxxxe'') = map word_of_int
    ([100, 53, 58, 102, 105, 108, 101, 115, 108, 100, 54, 58, 108, 101, 110, 103, 116, 104, 105, 53, 101, 52, 58, 112, 97, 116, 104, 108, 49, 58, 97, 49,
     58, 98, 101, 101, 100, 54, 58, 108, 101, 110, 103, 116, 104, 105, 50, 101, 52, 58, 112, 97, 116, 104, 108, 49, 58, 99, 101, 101, 101, 52, 58, 110] @
     [97, 109, 101, 49, 58, 100, 49, 50, 58, 112, 105, 101, 99, 101, 32, 108, 101, 110, 103, 116, 104, 105, 52, 101, 54, 58, 112, 105, 101, 99, 101, 115,
     52, 48, 58, 120, 120, 120, 120, 120, 120, 120, 120, 120, 120, 120, 120, 120, 120, 120, 120, 120, 120, 120, 120, 120, 120, 120, 120, 120, 120, 120, 120, 120] @
     [120, 120, 120, 120, 120, 120, 120, 120, 120, 120, 120, 101, 128, 0, 0, 0, 0, 0, 0, 0, 0, 0, 0, 0, 0, 0, 0, 0, 0, 0, 0, 0,
     0, 0, 0, 0, 0, 0, 0, 0, 0, 0, 0, 0, 0, 0, 0, 0, 0, 0, 0, 0, 0, 0, 0, 0, 0, 0, 0, 0, 0, 0, 4, 96] @ [])"
  by code_simp

lemma sample_digest: "fips_sha1 (bytes (bencode (info_value sample_torrent))) = map word_of_int [123, 135, 159, 159, 203, 99, 189, 15, 205, 46, 15, 68, 148, 223, 236, 111, 66, 64, 58, 238]"
proof -
  have "fips_blocks H0 (fips_pad (bytes (bencode (info_value sample_torrent)))) = map word_of_int [0x7b879f9f, 0xcb63bd0f, 0xcd2e0f44, 0x94dfec6f, 0x42403aee]"
    unfolding sample_info_text sample_padded H0_int
    by (rule trans [OF blocks_int [OF sample_block_1]], simp, simp, simp, rule trans [OF blocks_int [OF sample_block_2]], simp, simp, simp,
      rule trans [OF blocks_int [OF sample_block_3]], simp, simp, simp, simp add: fips_blocks_short)
  then show ?thesis
    by (simp add: fips_sha1_def H0_def word_bytes_def drop_bit_eq_div unsigned_of_int)
qed

lemma sample_torrent_ok: "torrent_ok sample_torrent"
  by (simp add: torrent_ok_def sample_torrent_def plain_name_def end_of_dir_def POST_CHAR_def NUL_def INT_MAX_def
      torrent_value_def info_value_def file_value_def)

theorem torrent_read_back_witness:
  "\<exists>env uc a uc' meta. parse_bittorrent_metafile env (bencode (torrent_value sample_torrent)) (length (bencode (torrent_value sample_torrent))) uc =
      (BITTORRENT_STATE_OK, meta, uc') \<and>
     tracker_uris meta = [a] \<and> bt_name meta = Some ''d'' \<and> map bf_name (bt_files meta) = [''a/b'', ''c''] \<and> map bf_length (bt_files meta) = [5, 2] \<and>
     bt_pieces meta = 2 \<and> piece_length meta = 4 \<and> last_piece_length meta = 3 \<and>
     info_hash meta = map word_of_int [123, 135, 159, 159, 203, 99, 189, 15, 205, 46, 15, 68, 148, 223, 236, 111, 66, 64, 58, 238]"
proof -
  let ?env = "\<lparr>te_user_program = (\<lambda>_. False), te_idn = (\<lambda>_. None), te_uri_mem = (\<lambda>_. sample_mem)\<rparr>"
  let ?uc = empty_uri_cache and ?v = "torrent_value sample_torrent"
  have "cstring (tr_announce sample_torrent) = ''http://elinks.cz/a/b''"
    by (simp add: sample_torrent_def cstring_def NUL_def)
  moreover have "fst (get_whole_uri (\<lambda>_. False) sample_mem ''http://elinks.cz/a/b'' ?uc) \<noteq> None"
    using get_whole_uri_succeeds [OF _ _ _ sample_parse empty_uri_cache_ok(1), of sample_mem] by (simp add: sample_mem_def)
  moreover have "hd (fips_sha1 (bytes (bencode (info_value sample_torrent)))) \<noteq> hd BITTORRENT_NULL_ID"
    by (simp add: sample_digest BITTORRENT_NULL_ID_def)
  then have "fips_sha1 (bytes (bencode (info_value sample_torrent))) \<noteq> BITTORRENT_NULL_ID"
    by metis
  ultimately obtain meta uc' a where m: "parse_bittorrent_metafile ?env (bencode ?v) (length (bencode ?v)) ?uc = (BITTORRENT_STATE_OK, meta, uc')"
      "meta = read_meta sample_torrent a"
    using torrent_read_back [OF sample_torrent_ok, where env = ?env and behind = "[]" and uc = ?uc]
    by (cases "parse_bittorrent_metafile ?env (bencode ?v) (length (bencode ?v)) ?uc") (auto simp: get_uri_def Let_def)
  moreover have "tracker_uris meta = [a]" "bt_name meta = Some ''d''" "map bf_name (bt_files meta) = [''a/b'', ''c'']" "map bf_length (bt_files meta) = [5, 2]"
      "bt_pieces meta = 2" "piece_length meta = 4" "last_piece_length meta = 3"
    by (simp_all add: m(2) read_meta_def torrent_files_def path_text.simps last_length_def) (simp_all add: sample_torrent_def zero_file_def last_length_def)
  moreover have "info_hash meta = map word_of_int [123, 135, 159, 159, 203, 99, 189, 15, 205, 46, 15, 68, 148, 223, 236, 111, 66, 64, 58, 238]"
    using sample_digest by (simp add: m(2) read_meta_def)
  ultimately show ?thesis
    by (intro exI conjI) assumption+
qed

text \<open>C11: The parser, which walks through tokens and skips what it does not know, computes from the text of any bencoded value what is read off
  the value as a tree: it skips exactly one value for an unknown or ill-typed entry. The text ends where the value does; what lies in memory behind that end
  plays no part. (A byte behind the value inside the text is another matter: the scanner then takes the last end mark for something else.)\<close>

theorem metafile_reads_tree:
  assumes "short v"
  shows "parse_bittorrent_metafile env (bencode v @ behind) (length (bencode v)) uc =
    (case v of BDict kvs \<Rightarrow> tree_meta env zero_meta uc kvs | _ \<Rightarrow> (BITTORRENT_STATE_ERROR, zero_meta, uc))"
  by (rule metafile_reads [OF assms])

theorem metafile_reads_tree_witness:
  "\<forall>env uc. parse_bittorrent_metafile env ''d1:xli1el1:aee7:comment2:hieXX'' 28 uc =
    (BITTORRENT_STATE_ERROR, zero_meta\<lparr>bt_comment := Some ''hi''\<rparr>, uc)"
proof (intro allI)
  fix env uc
  let ?v = "BDict [(''x'', BList [BInt 1, BList [BStr ''a'']]), (''comment'', BStr ''hi'')]"
  have b: "bencode ?v = ''d1:xli1el1:aee7:comment2:hie''"
    by code_simp
  have e: "entry_type ''x'' BENCODING_TOKEN_LIST = BENCODING_TOKEN_NONE" "entry_type ''comment'' BENCODING_TOKEN_STRING = BENCODING_TOKEN_COMMENT"
    by (simp_all add: entry_type_def bencoding_dictionary_entries_def cstring_def NUL_def c_toupper_def c_islower_def ccode_def)
  have t: "''d1:xli1el1:aee7:comment2:hie'' @ ''XX'' = ''d1:xli1el1:aee7:comment2:hieXX''" "length ''d1:xli1el1:aee7:comment2:hie'' = 28"
    by simp_all
  have "parse_bittorrent_metafile env (bencode ?v @ ''XX'') (length (bencode ?v)) uc =
      (case ?v of BDict kvs \<Rightarrow> tree_meta env zero_meta uc kvs | _ \<Rightarrow> (BITTORRENT_STATE_ERROR, zero_meta, uc))"
    by (rule metafile_reads_tree) (simp add: INT_MAX_def)
  then show "parse_bittorrent_metafile env ''d1:xli1el1:aee7:comment2:hieXX'' 28 uc =
      (BITTORRENT_STATE_ERROR, zero_meta\<lparr>bt_comment := Some ''hi''\<rparr>, uc)"
    unfolding b t by (simp add: e check_bittorrent_metafile_def zero_meta_def bittorrent_id_is_empty_def cstring_def NUL_def)
qed

text \<open>The table of tokens at work: the second token of a list.\<close>

theorem scanner_is_stream_witness:
  "get_scanner_token (((\<lambda>sc. snd (get_next_scanner_token zero_token (scan_bencoding_token ''li5ee'' 5) sc)) ^^ 1)
     (init_scanner zero_token (scan_bencoding_token ''li5ee'' 5) 5)) = Some \<lparr>tk_type = BENCODING_TOKEN_INTEGER, tk_pos = 2, tk_len = 1\<rparr>"
proof -
  have b: "bencode (BList [BInt 5]) = ''li5ee''" "length (show_int 5) = 1"
    by code_simp+
  have len: "''li5ee'' @ [] = ''li5ee''" "length ''li5ee'' = 5"
    by simp_all
  have "bencoding_tokens ''li5ee'' 5 = tokens_at 0 (BList [BInt 5])"
    using bencoding_tokens_value [of "BList [BInt 5]" "[]", unfolded b(1) len] by simp
  also have "\<dots> = [mark BENCODING_TOKEN_LIST 0, \<lparr>tk_type = BENCODING_TOKEN_INTEGER, tk_pos = 2, tk_len = 1\<rparr>, mark BENCODING_TOKEN_END 4]"
    by code_simp
  finally have v: "visible BENCODING_TOKEN_NONE (all_tokens BENCODING_TOKEN_NONE (scan_bencoding_token ''li5ee'' 5) 5 0) =
      [mark BENCODING_TOKEN_LIST 0, \<lparr>tk_type = BENCODING_TOKEN_INTEGER, tk_pos = 2, tk_len = 1\<rparr>, mark BENCODING_TOKEN_END 4]"
    unfolding bencoding_tokens_def .
  have z: "tk_type zero_token = BENCODING_TOKEN_NONE"
    by (simp add: zero_token_def)
  show ?thesis
    using scanner_is_stream [of zero_token "scan_bencoding_token ''li5ee'' 5" 1 5] scan_bencoding_advances
    unfolding z v by (simp add: Let_def)
qed

end
