(* ===== verification/Bitfield.thy ===== *)
theory Bitfield
  imports Prelude
begin

text \<open>
  \<^verbatim>\<open>elinks/src/util/bitfield.h\<close>: bit fields, the first bit of a byte being its highest one. A bit field stands for the set of its
  bits that are set; the bytes behind the last bit are whatever was copied there.
\<close>

section \<open>Operations\<close>

record bitfield =
  bitsize :: nat
  bits :: "uchar list"

definition get_bitfield_bit_offset :: "nat \<Rightarrow> uchar" where
  "get_bitfield_bit_offset b = drop_bit (b mod 8) 0x80"

definition get_bitfield_byte_offset :: "nat \<Rightarrow> nat" where
  "get_bitfield_byte_offset b = b div 8"

definition get_bitfield_byte_size :: "nat \<Rightarrow> nat" where
  "get_bitfield_byte_size n = (n + 7) div 8"

text \<open>The allocation succeeds.\<close>

definition init_bitfield :: "nat \<Rightarrow> bitfield" where
  "init_bitfield n = \<lparr>bitsize = n, bits = replicate (get_bitfield_byte_size n) 0\<rparr>"

definition copy_bitfield :: "bitfield \<Rightarrow> uchar list \<Rightarrow> bitfield" where
  "copy_bitfield bf bs =
     (if length bs \<le> get_bitfield_byte_size (bitsize bf) then bf\<lparr>bits := bs @ drop (length bs) (bits bf)\<rparr> else bf)"

definition test_bitfield_bit :: "bitfield \<Rightarrow> nat \<Rightarrow> bool" where
  "test_bitfield_bit bf b =
     (if b \<ge> bitsize bf then False
      else bits bf ! get_bitfield_byte_offset b AND get_bitfield_bit_offset b \<noteq> 0)"

definition set_bitfield_bit :: "bitfield \<Rightarrow> nat \<Rightarrow> bitfield" where
  "set_bitfield_bit bf b =
     (if b \<ge> bitsize bf then bf
      else let o' = get_bitfield_byte_offset b in bf\<lparr>bits := (bits bf)[o' := bits bf ! o' OR get_bitfield_bit_offset b]\<rparr>)"

definition clear_bitfield_bit :: "bitfield \<Rightarrow> nat \<Rightarrow> bitfield" where
  "clear_bitfield_bit bf b =
     (if b \<ge> bitsize bf then bf
      else let o' = get_bitfield_byte_offset b in bf\<lparr>bits := (bits bf)[o' := bits bf ! o' AND NOT (get_bitfield_bit_offset b)]\<rparr>)"

text \<open>The bits that \<^verbatim>\<open>foreach_bitfield_set\<close> and \<^verbatim>\<open>foreach_bitfield_cleared\<close> go through.\<close>

definition foreach_bitfield_set :: "bitfield \<Rightarrow> nat list" where
  "foreach_bitfield_set bf = filter (test_bitfield_bit bf) [0..<bitsize bf]"

definition foreach_bitfield_cleared :: "bitfield \<Rightarrow> nat list" where
  "foreach_bitfield_cleared bf = filter (\<lambda>b. \<not> test_bitfield_bit bf b) [0..<bitsize bf]"

definition get_bitfield_set_count :: "bitfield \<Rightarrow> nat" where
  "get_bitfield_set_count bf = foldl (\<lambda>n b. n + 1) 0 (foreach_bitfield_set bf)"

definition get_bitfield_cleared_count :: "bitfield \<Rightarrow> nat" where
  "get_bitfield_cleared_count bf = foldl (\<lambda>n b. n + 1) 0 (foreach_bitfield_cleared bf)"

definition bitfield_is_set :: "bitfield \<Rightarrow> bool" where
  "bitfield_is_set bf \<longleftrightarrow> foreach_bitfield_cleared bf = []"

definition bitfield_is_cleared :: "bitfield \<Rightarrow> bool" where
  "bitfield_is_cleared bf \<longleftrightarrow> foreach_bitfield_set bf = []"

section \<open>Sets of bits\<close>

definition bitfield_ok :: "bitfield \<Rightarrow> bool" where
  "bitfield_ok bf \<longleftrightarrow> length (bits bf) = get_bitfield_byte_size (bitsize bf)"

definition bit_set :: "bitfield \<Rightarrow> nat set" where
  "bit_set bf = {b. test_bitfield_bit bf b}"

lemma bit_mask: "get_bitfield_bit_offset b = push_bit (7 - b mod 8) 1"
proof -
  have "b mod 8 = 0 \<or> b mod 8 = 1 \<or> b mod 8 = 2 \<or> b mod 8 = 3 \<or> b mod 8 = 4 \<or> b mod 8 = 5 \<or> b mod 8 = 6 \<or> b mod 8 = 7"
    by arith
  then show ?thesis
    unfolding get_bitfield_bit_offset_def by (elim disjE) (simp_all only:, code_simp+)
qed

lemma bit_get_mask: "bit (get_bitfield_bit_offset b) i \<longleftrightarrow> i = 7 - b mod 8"
proof -
  have "7 - b mod 8 < 8"
    by simp
  then show ?thesis
    by (auto simp: bit_mask bit_simps)
qed

lemma word_nonzero: "(w :: uchar) \<noteq> 0 \<longleftrightarrow> (\<exists>i<8. bit w i)"
proof
  assume "w \<noteq> 0"
  show "\<exists>i<8. bit w i"
  proof (rule ccontr)
    assume "\<not> (\<exists>i<8. bit w i)"
    then have "w = 0"
      by (intro bit_word_eqI) simp
    with \<open>w \<noteq> 0\<close> show False
      by simp
  qed
qed auto

lemma test_bit: "test_bitfield_bit bf b \<longleftrightarrow> b < bitsize bf \<and> bit (bits bf ! (b div 8)) (7 - b mod 8)"
proof -
  have "7 - b mod 8 < 8"
    by simp
  then have "w AND get_bitfield_bit_offset b \<noteq> 0 \<longleftrightarrow> bit w (7 - b mod 8)" for w :: uchar
    unfolding word_nonzero bit_and_iff bit_get_mask by blast
  then show ?thesis
    by (simp add: test_bitfield_bit_def get_bitfield_byte_offset_def not_le)
qed

lemma byte_in: "bitfield_ok bf \<Longrightarrow> b < bitsize bf \<Longrightarrow> b div 8 < length (bits bf)"
  by (auto simp: bitfield_ok_def get_bitfield_byte_size_def)

lemma same_bit:
  assumes "a div 8 = b div 8" "7 - a mod 8 = 7 - b mod 8"
  shows "a = (b :: nat)"
proof -
  have "a mod 8 < 8" "b mod 8 < 8"
    by simp_all
  then have "a mod 8 = b mod 8"
    using assms(2) by linarith
  then show ?thesis
    using assms(1) by (metis div_mult_mod_eq)
qed

lemma init_bitfield_ok [simp]: "bitfield_ok (init_bitfield n)" "bitsize (init_bitfield n) = n"
  by (simp_all add: bitfield_ok_def init_bitfield_def)

lemma set_bitfield_ok [simp]: "bitfield_ok (set_bitfield_bit bf b) = bitfield_ok bf" "bitsize (set_bitfield_bit bf b) = bitsize bf"
  by (simp_all add: bitfield_ok_def set_bitfield_bit_def Let_def)

lemma clear_bitfield_ok [simp]: "bitfield_ok (clear_bitfield_bit bf b) = bitfield_ok bf" "bitsize (clear_bitfield_bit bf b) = bitsize bf"
  by (simp_all add: bitfield_ok_def clear_bitfield_bit_def Let_def)

lemma copy_bitfield_ok: "bitfield_ok bf \<Longrightarrow> bitfield_ok (copy_bitfield bf bs) \<and> bitsize (copy_bitfield bf bs) = bitsize bf"
  by (simp add: bitfield_ok_def copy_bitfield_def)

lemma test_init [simp]: "\<not> test_bitfield_bit (init_bitfield n) b"
proof -
  have "b div 8 < get_bitfield_byte_size n" if "b < n"
    using that by (simp add: get_bitfield_byte_size_def)
  then show ?thesis
    by (auto simp: test_bit init_bitfield_def)
qed

lemma test_set: "bitfield_ok bf \<Longrightarrow> test_bitfield_bit (set_bitfield_bit bf b) a \<longleftrightarrow> b < bitsize bf \<and> a = b \<or> test_bitfield_bit bf a"
  using byte_in [of bf b] same_bit [of a b]
  by (cases "a div 8 = b div 8") (auto simp: test_bit set_bitfield_bit_def Let_def get_bitfield_byte_offset_def bit_or_iff bit_get_mask)

lemma test_clear: "bitfield_ok bf \<Longrightarrow> test_bitfield_bit (clear_bitfield_bit bf b) a \<longleftrightarrow> test_bitfield_bit bf a \<and> a \<noteq> b"
  using byte_in [of bf b] same_bit [of a b]
  by (cases "a div 8 = b div 8")
    (auto simp: test_bit clear_bitfield_bit_def Let_def get_bitfield_byte_offset_def bit_and_iff bit_not_iff bit_get_mask)

lemma test_less: "test_bitfield_bit bf b \<Longrightarrow> b < bitsize bf"
  by (simp add: test_bit)

lemma set_foreach [simp]: "set (foreach_bitfield_set bf) = bit_set bf"
  by (auto simp: foreach_bitfield_set_def bit_set_def dest: test_less)

lemma bitfield_is_set_iff: "bitfield_is_set bf \<longleftrightarrow> (\<forall>b<bitsize bf. test_bitfield_bit bf b)"
  by (auto simp: bitfield_is_set_def foreach_bitfield_cleared_def filter_empty_conv)

lemma count_foldl: "foldl (\<lambda>n b. Suc n) k xs = k + length (xs :: 'a list)" for k :: nat
  by (induction xs arbitrary: k) simp_all

text \<open>A bit field is a set: setting and clearing a bit insert and remove it and leave all others as they are, bits that are out of range are
  never set, and the queries are those on sets.\<close>

lemma bitfield_is_bit_set:
  assumes "bitfield_ok bf"
  shows "bit_set (init_bitfield n) = {}"
    and "bit_set (set_bitfield_bit bf b) = (if b < bitsize bf then insert b (bit_set bf) else bit_set bf)"
    and "bit_set (clear_bitfield_bit bf b) = bit_set bf - {b}"
    and "bitfield_is_set bf \<longleftrightarrow> bit_set bf = {..<bitsize bf}"
    and "bitfield_is_cleared bf \<longleftrightarrow> bit_set bf = {}"
    and "get_bitfield_set_count bf = card (bit_set bf)"
    and "get_bitfield_cleared_count bf = bitsize bf - card (bit_set bf)"
proof -
  show "bit_set (init_bitfield n) = {}"
    by (simp add: bit_set_def)
  show "bit_set (set_bitfield_bit bf b) = (if b < bitsize bf then insert b (bit_set bf) else bit_set bf)"
    using assms by (auto simp: bit_set_def test_set)
  show "bit_set (clear_bitfield_bit bf b) = bit_set bf - {b}"
    using assms by (auto simp: bit_set_def test_clear)
  show "bitfield_is_set bf \<longleftrightarrow> bit_set bf = {..<bitsize bf}"
    by (auto simp: bitfield_is_set_iff bit_set_def dest: test_less)
  show "bitfield_is_cleared bf \<longleftrightarrow> bit_set bf = {}"
    by (metis bitfield_is_cleared_def set_empty set_foreach)
  have d: "distinct (foreach_bitfield_set bf)"
    by (simp add: foreach_bitfield_set_def)
  show c: "get_bitfield_set_count bf = card (bit_set bf)"
    using distinct_card [OF d] by (simp add: get_bitfield_set_count_def count_foldl)
  have "length (foreach_bitfield_set bf) + length (foreach_bitfield_cleared bf) = bitsize bf"
    unfolding foreach_bitfield_set_def foreach_bitfield_cleared_def
    using sum_length_filter_compl [of "test_bitfield_bit bf" "[0..<bitsize bf]"] by simp
  then show "get_bitfield_cleared_count bf = bitsize bf - card (bit_set bf)"
    using distinct_card [OF d] by (simp add: get_bitfield_cleared_count_def count_foldl)
qed

end
