(* ===== verification/Peers.thy ===== *)
theory Peers
  imports Bentree Bitfield
begin

text \<open>
  \<^verbatim>\<open>elinks/src/protocol/bittorrent/common.c\<close> and the second part of \<^verbatim>\<open>bencoding.c\<close>: the state of a torrent's connection, the
  pool of peers to connect to, lists of requests, the blacklist, and the parser of the tracker's response, which fills the pool.
  Identifiers are lists of twenty bytes. Allocations succeed; download rates, which are floating point numbers, are left out.
\<close>

section \<open>State\<close>

datatype message_id =
    BITTORRENT_MESSAGE_ERROR | BITTORRENT_MESSAGE_INCOMPLETE | BITTORRENT_MESSAGE_KEEP_ALIVE
  | BITTORRENT_MESSAGE_CHOKE | BITTORRENT_MESSAGE_UNCHOKE | BITTORRENT_MESSAGE_INTERESTED | BITTORRENT_MESSAGE_NOT_INTERESTED
  | BITTORRENT_MESSAGE_HAVE | BITTORRENT_MESSAGE_BITFIELD | BITTORRENT_MESSAGE_REQUEST | BITTORRENT_MESSAGE_PIECE
  | BITTORRENT_MESSAGE_CANCEL | BITTORRENT_MESSAGE_UNKNOWN

record request =
  rq_piece :: nat
  rq_offset :: nat
  rq_length :: nat
  rq_block :: nat
  rq_id :: message_id
  rq_cloned :: bool
  rq_requested :: bool

record peer_status =
  ps_requests :: "request list"
  ps_choked :: bool
  ps_interested :: bool
  ps_handshake :: bool
  ps_bitfield :: bool
  ps_seeder :: bool

record peer =
  pr_id :: "uchar list"
  pr_local :: peer_status
  pr_remote :: peer_status
  pr_queue :: "request list"
  pr_bitfield :: bitfield
  pr_downloaded :: int
  pr_uploaded :: int

record pool_peer =
  pp_id :: "uchar list"
  pp_port :: nat
  pp_ip :: string

datatype bittorrent_mode =
    BITTORRENT_MODE_PIECELESS | BITTORRENT_MODE_NORMAL | BITTORRENT_MODE_END_GAME | BITTORRENT_MODE_SEEDER

datatype tracker_event = BITTORRENT_EVENT_STARTED | BITTORRENT_EVENT_STOPPED | BITTORRENT_EVENT_COMPLETED | BITTORRENT_EVENT_REGULAR

text \<open>An entry of the piece cache; its data is the bytes held in memory.\<close>

record piece_entry =
  pe_rarity :: nat
  pe_completed :: bool
  pe_remaining :: bool
  pe_locked :: bool
  pe_selected :: bool
  pe_blocks :: "bitfield option"
  pe_data :: "uchar list option"

record piece_cache =
  remaining_pieces :: uint32
  completed_pieces :: uint32
  loading_pieces :: uint32
  rejected_pieces :: uint32
  unavailable_pieces :: uint32
  partial_pieces :: uint32
  locked_pieces :: uint32
  pc_notify :: bool
  pc_partial :: bool
  pc_resume_pos :: nat
  pc_bitfield :: bitfield
  pc_queue :: "nat list"
  pc_free_list :: "request list"
  pc_entries :: "piece_entry list"

record bittorrent =
  bt_mode :: bittorrent_mode
  bt_meta :: bittorrent_meta
  bt_event :: tracker_event
  bt_interval :: int
  bt_cache :: piece_cache
  bt_peers :: "peer list"
  bt_pool :: "pool_peer list"
  bt_peer_id :: "uchar list"
  bt_uploaded :: int
  bt_downloaded :: int
  bt_left :: int
  bt_received :: int
  bt_from :: int
  bt_est_length :: int
  bt_complete :: nat
  bt_incomplete :: nat

definition get_bittorrent_piece_length :: "bittorrent_meta \<Rightarrow> nat \<Rightarrow> nat" where
  "get_bittorrent_piece_length meta piece =
     (if int piece = int (bt_pieces meta) - 1 then last_piece_length meta else piece_length meta)"

definition get_hexed_bittorrent_id :: "uchar list \<Rightarrow> string" where
  "get_hexed_bittorrent_id i = concat (map (\<lambda>b. [hx (unat (drop_bit 4 b)), hx (unat (b AND 0xF))]) i)"

definition bittorrent_piece_is_valid :: "bittorrent_meta \<Rightarrow> nat \<Rightarrow> uchar list \<Rightarrow> bool" where
  "bittorrent_piece_is_valid meta piece dat \<longleftrightarrow>
     digest_sha1 dat = bytes (take 20 (drop (piece * 20) (the (piece_hash meta))))"

section \<open>Requests\<close>

definition get_bittorrent_peer_request :: "peer_status \<Rightarrow> nat \<Rightarrow> nat \<Rightarrow> nat \<Rightarrow> nat option" where
  "get_bittorrent_peer_request st piece offset len =
     find_index (\<lambda>r. rq_piece r = piece \<and> rq_offset r = offset \<and> rq_length r = len) (ps_requests st)"

text \<open>A new request is not initialised beyond these fields; \<open>junk\<close> is what the allocator left in it.\<close>

definition add_bittorrent_peer_request :: "request \<Rightarrow> peer_status \<Rightarrow> nat \<Rightarrow> nat \<Rightarrow> nat \<Rightarrow> peer_status" where
  "add_bittorrent_peer_request junk st piece offset len =
     (case get_bittorrent_peer_request st piece offset len of
        Some _ \<Rightarrow> st
      | None \<Rightarrow> st\<lparr>ps_requests := ps_requests st @ [junk\<lparr>rq_piece := piece, rq_offset := offset, rq_length := len\<rparr>]\<rparr>)"

definition del_bittorrent_peer_request :: "peer_status \<Rightarrow> nat \<Rightarrow> nat \<Rightarrow> nat \<Rightarrow> peer_status" where
  "del_bittorrent_peer_request st piece offset len =
     (case get_bittorrent_peer_request st piece offset len of
        None \<Rightarrow> st
      | Some i \<Rightarrow> st\<lparr>ps_requests := del_nth (ps_requests st) i\<rparr>)"

section \<open>The blacklist\<close>

definition BITTORRENT_BLACKLIST_NONE :: uint32 where "BITTORRENT_BLACKLIST_NONE = 0"
definition BITTORRENT_BLACKLIST_PEER_POOL :: uint32 where "BITTORRENT_BLACKLIST_PEER_POOL = 1"
definition BITTORRENT_BLACKLIST_MALICIOUS :: uint32 where "BITTORRENT_BLACKLIST_MALICIOUS = 2"
definition BITTORRENT_BLACKLIST_BEHAVIOUR :: uint32 where "BITTORRENT_BLACKLIST_BEHAVIOUR = 3"

type_synonym blacklist = "(uchar list \<times> uint32) list"

definition get_bittorrent_blacklist_item :: "blacklist \<Rightarrow> uchar list \<Rightarrow> nat option" where
  "get_bittorrent_blacklist_item bl i = find_index (\<lambda>(j, f). j = i) bl"

definition add_bittorrent_blacklist_flags :: "uchar list \<Rightarrow> uint32 \<Rightarrow> blacklist \<Rightarrow> blacklist" where
  "add_bittorrent_blacklist_flags i flags bl =
     (case get_bittorrent_blacklist_item bl i of
        Some k \<Rightarrow> bl[k := (fst (bl ! k), snd (bl ! k) OR flags)]
      | None \<Rightarrow> (i, flags) # bl)"

definition del_bittorrent_blacklist_flags :: "uchar list \<Rightarrow> uint32 \<Rightarrow> blacklist \<Rightarrow> blacklist" where
  "del_bittorrent_blacklist_flags i flags bl =
     (case get_bittorrent_blacklist_item bl i of
        None \<Rightarrow> bl
      | Some k \<Rightarrow>
          let f = snd (bl ! k) AND NOT flags
          in if f \<noteq> 0 then bl[k := (fst (bl ! k), f)] else del_nth bl k)"

definition get_bittorrent_blacklist_flags :: "uchar list \<Rightarrow> blacklist \<Rightarrow> uint32" where
  "get_bittorrent_blacklist_flags i bl =
     (case get_bittorrent_blacklist_item bl i of Some k \<Rightarrow> snd (bl ! k) | None \<Rightarrow> BITTORRENT_BLACKLIST_NONE)"

section \<open>The pool of peers\<close>

definition get_peer_from_bittorrent_pool :: "bittorrent \<Rightarrow> uchar list \<Rightarrow> nat option" where
  "get_peer_from_bittorrent_pool b i = find_index (\<lambda>p. pp_id p = i) (bt_pool b)"

definition bittorrent_id_is_known :: "bittorrent \<Rightarrow> uchar list \<Rightarrow> bool" where
  "bittorrent_id_is_known b i \<longleftrightarrow>
     bt_peer_id b = i \<or> (\<exists>p\<in>set (bt_peers b). pr_id p = i) \<or> get_peer_from_bittorrent_pool b i \<noteq> None"

text \<open>The compact format gives no identifier.\<close>

definition add_peer_to_bittorrent_pool ::
  "blacklist \<Rightarrow> bittorrent \<Rightarrow> uchar list option \<Rightarrow> int \<Rightarrow> string \<Rightarrow> bittorrent_state \<times> bittorrent" where
  "add_peer_to_bittorrent_pool bl b i port ip =
     (let added = (BITTORRENT_STATE_OK,
            b\<lparr>bt_pool := \<lparr>pp_id = (case i of None \<Rightarrow> BITTORRENT_NULL_ID | Some i \<Rightarrow> i), pp_port = nat port, pp_ip = ip\<rparr> # bt_pool b\<rparr>)
      in if ip = [] \<or> \<not> uri_port_is_valid port then (BITTORRENT_STATE_OK, b)
         else case i of
           None \<Rightarrow> added
         | Some i \<Rightarrow>
             if bittorrent_id_is_empty i then (BITTORRENT_STATE_ERROR, b)
             else if bittorrent_id_is_known b i then (BITTORRENT_STATE_OK, b)
             else if get_bittorrent_blacklist_flags i bl \<noteq> BITTORRENT_BLACKLIST_NONE then (BITTORRENT_STATE_OK, b)
             else added)"


section \<open>The tracker's response\<close>

text \<open>The dictionary of one peer; the address stays empty until its entry is met.\<close>

function peer_dictionary_loop ::
  "blacklist \<Rightarrow> string \<Rightarrow> bittorrent \<Rightarrow> string \<Rightarrow> uchar list \<Rightarrow> int \<Rightarrow> btoken list \<Rightarrow> bittorrent_state \<times> bittorrent \<times> btoken list" where
  "peer_dictionary_loop bl src b ip i port ts =
     (if ts = [] then (BITTORRENT_STATE_ERROR, b, ts)
      else case check_bencoding_dictionary_entry src ts of (entry, ts) \<Rightarrow>
        if entry = BENCODING_TOKEN_IP then peer_dictionary_loop bl src b (token_string src (hd ts)) i port (tl ts)
        else if entry = BENCODING_TOKEN_PORT then
          peer_dictionary_loop bl src b ip i (int32 (parse_bencoding_integer src (hd ts))) (tl ts)
        else if entry = BENCODING_TOKEN_PEER_ID then
          if tk_len (hd ts) \<noteq> 20 then (BITTORRENT_STATE_ERROR, b, ts)
          else peer_dictionary_loop bl src b ip (bytes (token_string src (hd ts))) port (tl ts)
        else if entry = BENCODING_TOKEN_END then
          (case add_peer_to_bittorrent_pool bl b (Some i) port ip of (st, b) \<Rightarrow> (st, b, tl ts))
        else if entry = BENCODING_TOKEN_ERROR then (BITTORRENT_STATE_ERROR, b, ts)
        else peer_dictionary_loop bl src b ip i port (skip_bencoding_tokens ts))"
  by auto
termination
  by (relation "measure (\<lambda>(bl, src, b, ip, i, port, ts). length ts)") (auto dest!: check_entry_length [OF sym] intro: shrink)

declare peer_dictionary_loop.simps [simp del]

definition parse_bencoding_peer_dictionary ::
  "blacklist \<Rightarrow> string \<Rightarrow> bittorrent \<Rightarrow> btoken list \<Rightarrow> bittorrent_state \<times> bittorrent \<times> btoken list" where
  "parse_bencoding_peer_dictionary bl src b ts = peer_dictionary_loop bl src b [] BITTORRENT_NULL_ID (-1) (tl ts)"

lemma peer_dictionary_loop_length:
  "peer_dictionary_loop bl src b ip i port ts = (st, b', ts') \<Longrightarrow> length ts' \<le> length ts"
proof (induction bl src b ip i port ts rule: peer_dictionary_loop.induct)
  case (1 bl src b ip i port ts)
  show ?case
  proof (cases "ts = []")
    case True
    with "1.prems" show ?thesis
      by (simp add: peer_dictionary_loop.simps)
  next
    case False
    obtain r us where c: "check_bencoding_dictionary_entry src ts = (r, us)"
      by fastforce
    have us: "length us \<le> length ts" "length (skip_bencoding_tokens us) \<le> length us"
      using check_entry_length [OF c] skip_tokens_length [of 0 us] by (auto simp: skip_bencoding_tokens_def)
    note ih = "1.IH" [OF False c [symmetric]]
    show ?thesis
      using "1.prems" False c us ih
      by (auto simp: peer_dictionary_loop.simps [of bl src b ip i port ts] split: if_splits prod.splits intro: order_trans)
  qed
qed

function peers_list_loop :: "blacklist \<Rightarrow> string \<Rightarrow> bittorrent \<Rightarrow> btoken list \<Rightarrow> bittorrent_state \<times> bittorrent \<times> btoken list" where
  "peers_list_loop bl src b ts =
     (case ts of
        [] \<Rightarrow> (BITTORRENT_STATE_ERROR, b, ts)
      | t # _ \<Rightarrow>
          if tk_type t = BENCODING_TOKEN_END then (BITTORRENT_STATE_OK, b, ts)
          else if tk_type t \<noteq> BENCODING_TOKEN_DICTIONARY then (BITTORRENT_STATE_ERROR, b, ts)
          else case parse_bencoding_peer_dictionary bl src b ts of (st, b, ts) \<Rightarrow>
                 if st \<noteq> BITTORRENT_STATE_OK then (st, b, ts) else peers_list_loop bl src b ts)"
  by auto
termination
  by (relation "measure (\<lambda>(bl, src, b, ts). length ts)")
    (auto simp: parse_bencoding_peer_dictionary_def dest!: peer_dictionary_loop_length [OF sym])

declare peers_list_loop.simps [simp del]

definition parse_bencoding_peers_list ::
  "blacklist \<Rightarrow> string \<Rightarrow> bittorrent \<Rightarrow> btoken list \<Rightarrow> bittorrent_state \<times> bittorrent \<times> btoken list" where
  "parse_bencoding_peers_list bl src b ts = peers_list_loop bl src b (tl ts)"

lemma peers_list_loop_length: "peers_list_loop bl src b ts = (st, b', ts') \<Longrightarrow> length ts' \<le> length ts"
proof (induction bl src b ts rule: peers_list_loop.induct)
  case (1 bl src b ts)
  show ?case
  proof (cases ts)
    case Nil
    with "1.prems" show ?thesis
      by (simp add: peers_list_loop.simps)
  next
    case (Cons t us)
    obtain st2 b2 us2 where f: "parse_bencoding_peer_dictionary bl src b ts = (st2, b2, us2)"
      using prod_cases3 by blast
    have us: "length us2 \<le> length ts"
      using peer_dictionary_loop_length [of bl src b "[]" BITTORRENT_NULL_ID "-1" "tl ts"] f
      by (auto simp: parse_bencoding_peer_dictionary_def intro: order_trans)
    note ih = "1.IH" [OF Cons _ _ f [symmetric] refl]
    show ?thesis
      using "1.prems" Cons f us ih
      by (auto simp: peers_list_loop.simps [of bl src b "t # us"] split: if_splits intro: order_trans)
  qed
qed

text \<open>The compact format: six bytes for each peer, what is left over is ignored.\<close>

definition ip_text :: "string \<Rightarrow> string" where
  "ip_text bs = show_nat (ccode (bs ! 0)) @ ''.'' @ show_nat (ccode (bs ! 1)) @ ''.'' @ show_nat (ccode (bs ! 2)) @ ''.'' @ show_nat (ccode (bs ! 3))"

function compact_loop :: "blacklist \<Rightarrow> bittorrent \<Rightarrow> string \<Rightarrow> bittorrent_state \<times> bittorrent" where
  "compact_loop bl b bs =
     (if length bs < 6 then (BITTORRENT_STATE_OK, b)
      else
        let port = 256 * ccode (bs ! 4) + ccode (bs ! 5) in
        case add_peer_to_bittorrent_pool bl b None (int port) (ip_text bs) of (st, b) \<Rightarrow>
          if st \<noteq> BITTORRENT_STATE_OK then (st, b) else compact_loop bl b (drop 6 bs))"
  by auto
termination
  by (relation "measure (\<lambda>(bl, b, bs). length bs)") auto

declare compact_loop.simps [simp del]

definition parse_bencoding_peers_string :: "blacklist \<Rightarrow> string \<Rightarrow> bittorrent \<Rightarrow> btoken list \<Rightarrow> bittorrent_state \<times> bittorrent" where
  "parse_bencoding_peers_string bl src b ts = compact_loop bl b (token_string src (hd ts))"

text \<open>The response; a failure gives the tracker's text.\<close>

function response_loop ::
  "blacklist \<Rightarrow> string \<Rightarrow> bittorrent \<Rightarrow> btoken list \<Rightarrow> bittorrent_state \<times> bittorrent \<times> string option" where
  "response_loop bl src b ts =
     (if ts = [] then (BITTORRENT_STATE_ERROR, b, None)
      else case check_bencoding_dictionary_entry src ts of (entry, ts) \<Rightarrow>
        if entry = BENCODING_TOKEN_FAILURE_REASON then (BITTORRENT_STATE_REQUEST_FAILURE, b, Some (token_string src (hd ts)))
        else if entry = BENCODING_TOKEN_INTERVAL then
          response_loop bl src (b\<lparr>bt_interval := int32 (parse_bencoding_integer src (hd ts))\<rparr>) (tl ts)
        else if entry = BENCODING_TOKEN_COMPLETE then
          let n = parse_bencoding_integer src (hd ts)
          in response_loop bl src (if 0 < n \<and> n < INT_MAX then b\<lparr>bt_complete := nat n\<rparr> else b) (tl ts)
        else if entry = BENCODING_TOKEN_INCOMPLETE then
          let n = parse_bencoding_integer src (hd ts)
          in response_loop bl src (if 0 < n \<and> n < INT_MAX then b\<lparr>bt_incomplete := nat n\<rparr> else b) (tl ts)
        else if entry = BENCODING_TOKEN_PEERS then
          if tk_type (hd ts) = BENCODING_TOKEN_LIST then
            (case parse_bencoding_peers_list bl src b ts of (st, b, ts) \<Rightarrow>
               if st \<noteq> BITTORRENT_STATE_OK then (st, b, None) else response_loop bl src b (tl ts))
          else if tk_type (hd ts) = BENCODING_TOKEN_STRING then
            (case parse_bencoding_peers_string bl src b ts of (st, b) \<Rightarrow>
               if st \<noteq> BITTORRENT_STATE_OK then (st, b, None) else response_loop bl src b (tl ts))
          else (BITTORRENT_STATE_ERROR, b, None)
        else if entry = BENCODING_TOKEN_END then (BITTORRENT_STATE_OK, b, None)
        else if entry = BENCODING_TOKEN_ERROR then (BITTORRENT_STATE_ERROR, b, None)
        else response_loop bl src b (skip_bencoding_tokens ts))"
  by auto
termination
  by (relation "measure (\<lambda>(bl, src, b, ts). length ts)")
    (auto simp: parse_bencoding_peers_list_def dest!: check_entry_length [OF sym] peers_list_loop_length [OF sym] intro: shrink)

declare response_loop.simps [simp del]

definition parse_bittorrent_tracker_response ::
  "blacklist \<Rightarrow> bittorrent \<Rightarrow> string \<Rightarrow> nat \<Rightarrow> bittorrent_state \<times> bittorrent \<times> string option" where
  "parse_bittorrent_tracker_response bl b src e =
     (case bencoding_tokens src e of
        [] \<Rightarrow> (BITTORRENT_STATE_ERROR, b, None)
      | t # ts \<Rightarrow>
          if tk_type t \<noteq> BENCODING_TOKEN_DICTIONARY then (BITTORRENT_STATE_ERROR, b, None)
          else response_loop bl src b ts)"

section \<open>What the pool holds\<close>

text \<open>Ports and addresses are usable, and a peer that has an identifier is in the pool once, is not this client and is not connected.\<close>

definition pool_ok :: "bittorrent \<Rightarrow> bool" where
  "pool_ok b \<longleftrightarrow>
     (\<forall>p\<in>set (bt_pool b). pp_port p \<le> 65535 \<and> pp_ip p \<noteq> [] \<and>
        (pp_id p \<noteq> BITTORRENT_NULL_ID \<longrightarrow> pp_id p \<noteq> bt_peer_id b \<and> pp_id p \<notin> pr_id ` set (bt_peers b))) \<and>
     distinct (filter (\<lambda>i. i \<noteq> BITTORRENT_NULL_ID) (map pp_id (bt_pool b)))"

lemma pool_ok_cong:
  "bt_pool b = bt_pool c \<Longrightarrow> bt_peer_id b = bt_peer_id c \<Longrightarrow> bt_peers b = bt_peers c \<Longrightarrow> pool_ok b \<Longrightarrow> pool_ok c"
  by (simp add: pool_ok_def)

lemma add_peer_pool_ok:
  assumes "pool_ok b" "add_peer_to_bittorrent_pool bl b i port ip = (st, b')"
  shows "pool_ok b'"
proof -
  have "pool_ok b' \<or> b' = b"
  proof (cases i)
    case None
    then show ?thesis
      using assms(1,2) by (auto simp: add_peer_to_bittorrent_pool_def pool_ok_def uri_port_is_valid_def Let_def split: if_splits)
  next
    case (Some k)
    show ?thesis
    proof (cases "b' = b")
      case False
      then have new: "k \<noteq> BITTORRENT_NULL_ID" "\<not> bittorrent_id_is_known b k" "ip \<noteq> []" "uri_port_is_valid port"
        "b' = b\<lparr>bt_pool := \<lparr>pp_id = k, pp_port = nat port, pp_ip = ip\<rparr> # bt_pool b\<rparr>"
        using assms(2) Some by (auto simp: add_peer_to_bittorrent_pool_def bittorrent_id_is_empty_def Let_def split: if_splits)
      then have "k \<noteq> bt_peer_id b" "k \<notin> pr_id ` set (bt_peers b)" "k \<notin> set (map pp_id (bt_pool b))"
        by (auto simp: bittorrent_id_is_known_def get_peer_from_bittorrent_pool_def find_index_None)
      then show ?thesis
        using assms(1) new Some by (auto simp: pool_ok_def uri_port_is_valid_def)
    qed simp
  qed
  then show ?thesis
    using assms(1) by auto
qed


lemma peer_dictionary_pool_ok:
  "pool_ok b \<Longrightarrow> pool_ok (fst (snd (peer_dictionary_loop bl src b ip i port ts)))"
proof (induction bl src b ip i port ts rule: peer_dictionary_loop.induct)
  case (1 bl src b ip i port ts)
  show ?case
  proof (cases "ts = []")
    case True
    with "1.prems" show ?thesis
      by (simp add: peer_dictionary_loop.simps)
  next
    case False
    obtain r us where c: "check_bencoding_dictionary_entry src ts = (r, us)"
      by fastforce
    obtain st b' where a: "add_peer_to_bittorrent_pool bl b (Some i) port ip = (st, b')"
      by fastforce
    note ih = "1.IH" [OF False c [symmetric]]
    show ?thesis
      using "1.prems" False c a add_peer_pool_ok [OF "1.prems" a] ih
      by (simp add: peer_dictionary_loop.simps [of bl src b ip i port ts])
  qed
qed

lemma peers_list_pool_ok: "pool_ok b \<Longrightarrow> pool_ok (fst (snd (peers_list_loop bl src b ts)))"
proof (induction bl src b ts rule: peers_list_loop.induct)
  case (1 bl src b ts)
  show ?case
  proof (cases ts)
    case Nil
    with "1.prems" show ?thesis
      by (simp add: peers_list_loop.simps)
  next
    case (Cons t us)
    obtain st2 b2 us2 where f: "parse_bencoding_peer_dictionary bl src b ts = (st2, b2, us2)"
      using prod_cases3 by blast
    have b2: "pool_ok b2"
      using peer_dictionary_pool_ok [OF "1.prems", of bl src "[]" BITTORRENT_NULL_ID "-1" "tl ts"] f
      by (simp add: parse_bencoding_peer_dictionary_def)
    note ih = "1.IH" [OF Cons _ _ f [symmetric] refl]
    show ?thesis
      using "1.prems" Cons f b2 ih by (auto simp: peers_list_loop.simps [of bl src b "t # us"])
  qed
qed

lemma compact_pool_ok: "pool_ok b \<Longrightarrow> pool_ok (snd (compact_loop bl b bs))"
proof (induction bl b bs rule: compact_loop.induct)
  case (1 bl b bs)
  obtain st b' where a: "add_peer_to_bittorrent_pool bl b None (int (256 * ccode (bs ! 4) + ccode (bs ! 5))) (ip_text bs) = (st, b')"
    by fastforce
  show ?case
    using "1.prems" add_peer_pool_ok [OF "1.prems" a] "1.IH" [OF _ refl a [symmetric]] a
    by (subst compact_loop.simps) (simp add: Let_def)
qed

lemma response_pool_ok: "pool_ok b \<Longrightarrow> pool_ok (fst (snd (response_loop bl src b ts)))"
proof (induction bl src b ts rule: response_loop.induct)
  case (1 bl src b ts)
  show ?case
  proof (cases "ts = []")
    case True
    with "1.prems" show ?thesis
      by (simp add: response_loop.simps)
  next
    case False
    obtain r us where c: "check_bencoding_dictionary_entry src ts = (r, us)"
      by fastforce
    obtain st b' us' where l: "parse_bencoding_peers_list bl src b us = (st, b', us')"
      using prod_cases3 by blast
    obtain st2 b2 where s: "parse_bencoding_peers_string bl src b us = (st2, b2)"
      by fastforce
    have ok: "pool_ok b'" "pool_ok b2"
      using peers_list_pool_ok [OF "1.prems", of bl src "tl us"] compact_pool_ok [OF "1.prems", of bl "token_string src (hd us)"] l s
      by (simp_all add: parse_bencoding_peers_list_def parse_bencoding_peers_string_def)
    have upd: "pool_ok (b\<lparr>bt_interval := x\<rparr>)" "pool_ok (b\<lparr>bt_complete := n\<rparr>)" "pool_ok (b\<lparr>bt_incomplete := n\<rparr>)" for x n
      using "1.prems" by (auto elim!: pool_ok_cong [rotated -1])
    note ih = "1.IH" [OF False c [symmetric]]
    show ?thesis
      using "1.prems" False c l s ok upd ih(1-3) ih(4) [OF _ _ _ _ _ _ l [symmetric] refl] ih(5) [OF _ _ _ _ _ _ _ s [symmetric]] ih(6-)
      by (auto simp: response_loop.simps [of bl src b ts] Let_def split: if_splits)
  qed
qed


text \<open>C17: Whatever a tracker answers, and wherever parsing stops, the pool of peers stays in order: every peer has an address and a valid port, an
  identifier is neither this client's nor that of a connected peer, and no identifier is in the pool twice.\<close>

theorem tracker_pool_ok:
  assumes "pool_ok b"
  shows "pool_ok (fst (snd (parse_bittorrent_tracker_response bl b src e)))"
  using assms response_pool_ok [OF assms]
  by (simp add: parse_bittorrent_tracker_response_def split: list.split)

theorem tracker_pool_ok_witness:
  "\<exists>b. pool_ok (fst (snd (parse_bittorrent_tracker_response [] b ''d5:peers12:12345678901be'' 24)))"
proof -
  have "pool_ok (undefined\<lparr>bt_pool := [], bt_peers := []\<rparr>)"
    by (simp add: pool_ok_def)
  then show ?thesis
    using tracker_pool_ok by blast
qed

section \<open>A response is read back\<close>

text \<open>A peer as the compact format has it: the bytes of its address, and its port.\<close>

record address =
  ad_1 :: nat
  ad_2 :: nat
  ad_3 :: nat
  ad_4 :: nat
  ad_port :: nat

definition address_ok :: "address \<Rightarrow> bool" where
  "address_ok a \<longleftrightarrow> ad_1 a < 256 \<and> ad_2 a < 256 \<and> ad_3 a < 256 \<and> ad_4 a < 256 \<and> ad_port a < 65536"

definition address_bytes :: "address \<Rightarrow> string" where
  "address_bytes a = map char_of [ad_1 a, ad_2 a, ad_3 a, ad_4 a, ad_port a div 256, ad_port a mod 256]"

definition address_peer :: "address \<Rightarrow> pool_peer" where
  "address_peer a = \<lparr>pp_id = BITTORRENT_NULL_ID, pp_port = ad_port a,
     pp_ip = show_nat (ad_1 a) @ ''.'' @ show_nat (ad_2 a) @ ''.'' @ show_nat (ad_3 a) @ ''.'' @ show_nat (ad_4 a)\<rparr>"

lemma compact_loop_reads:
  "\<forall>a\<in>set ps. address_ok a \<Longrightarrow>
   compact_loop bl b (concat (map address_bytes ps) @ left) =
     compact_loop bl (b\<lparr>bt_pool := rev (map address_peer ps) @ bt_pool b\<rparr>) left"
proof (induction ps arbitrary: b)
  case (Cons a ps)
  let ?bs = "concat (map address_bytes (a # ps)) @ left"
  have a: "address_ok a"
    using Cons.prems by simp
  let ?r = "concat (map address_bytes ps) @ left"
  have bs: "?bs = char_of (ad_1 a) # char_of (ad_2 a) # char_of (ad_3 a) # char_of (ad_4 a) # char_of (ad_port a div 256) #
      char_of (ad_port a mod 256) # ?r"
    by (simp add: address_bytes_def)
  have c: "ccode (char_of (ad_1 a)) = ad_1 a" "ccode (char_of (ad_2 a)) = ad_2 a" "ccode (char_of (ad_3 a)) = ad_3 a"
    "ccode (char_of (ad_4 a)) = ad_4 a" "ccode (char_of (ad_port a div 256)) = ad_port a div 256"
    "ccode (char_of (ad_port a)) = ad_port a mod 256"
    using a by (auto simp: address_ok_def ccode_def)
  have port: "256 * ccode (?bs ! 4) + ccode (?bs ! 5) = ad_port a" and ip: "ip_text ?bs = pp_ip (address_peer a)"
    unfolding bs by (simp_all add: c ip_text_def address_peer_def)
  have add: "add_peer_to_bittorrent_pool bl b None (int (ad_port a)) (pp_ip (address_peer a)) =
      (BITTORRENT_STATE_OK, b\<lparr>bt_pool := address_peer a # bt_pool b\<rparr>)"
    using a by (simp add: add_peer_to_bittorrent_pool_def uri_port_is_valid_def address_ok_def address_peer_def)
  have len: "\<not> length ?bs < 6" "drop 6 ?bs = ?r"
    unfolding bs by simp_all
  have "compact_loop bl b ?bs = compact_loop bl (b\<lparr>bt_pool := address_peer a # bt_pool b\<rparr>) ?r"
    by (subst compact_loop.simps) (simp only: Let_def port ip add len if_False prod.case simp_thms)
  then show ?case
    using Cons by simp
qed simp


lemma response_entry_types:
  "entry_type ''complete'' BENCODING_TOKEN_INTEGER = BENCODING_TOKEN_COMPLETE"
  "entry_type ''incomplete'' BENCODING_TOKEN_INTEGER = BENCODING_TOKEN_INCOMPLETE"
  "entry_type ''interval'' BENCODING_TOKEN_INTEGER = BENCODING_TOKEN_INTERVAL"
  "entry_type ''peers'' BENCODING_TOKEN_STRING = BENCODING_TOKEN_PEERS"
  by (simp_all add: entry_type_def bencoding_dictionary_entries_def cstring_def NUL_def c_toupper_def c_islower_def ccode_def)

lemma response_int:
  fixes n :: int
  assumes "drop p src = pairs_text ((k, BInt n) # kvs) @ r" "0 < n" "n < INT_MAX"
  defines "q \<equiv> p + length (bencode_string k) + length (bencode (BInt n))"
  shows "entry_type k BENCODING_TOKEN_INTEGER = BENCODING_TOKEN_COMPLETE \<Longrightarrow>
    response_loop bl src b (tokens_dict p ((k, BInt n) # kvs) @ rest) = response_loop bl src (b\<lparr>bt_complete := nat n\<rparr>) (tokens_dict q kvs @ rest)"
    and "entry_type k BENCODING_TOKEN_INTEGER = BENCODING_TOKEN_INTERVAL \<Longrightarrow>
    response_loop bl src b (tokens_dict p ((k, BInt n) # kvs) @ rest) = response_loop bl src (b\<lparr>bt_interval := n\<rparr>) (tokens_dict q kvs @ rest)"
    and "entry_type k BENCODING_TOKEN_INTEGER = BENCODING_TOKEN_INCOMPLETE \<Longrightarrow>
    response_loop bl src b (tokens_dict p ((k, BInt n) # kvs) @ rest) = response_loop bl src (b\<lparr>bt_incomplete := nat n\<rparr>) (tokens_dict q kvs @ rest)"
    and "drop q src = pairs_text kvs @ r"
proof -
  note ds = dict_step [OF assms(1)]
  obtain t us where t: "tokens_at (p + length (bencode_string k)) (BInt n) = t # us"
    using tokens_at_Cons by blast
  have val: "us = []" "parse_bencoding_integer src t = n"
    using token_int [OF ds(2) _ t] assms(2,3) by (auto simp: INT_MAX_def)
  have n: "int32 n = n"
    using assms(2,3) by (intro int32_id) (auto simp: INT_MAX_def)
  note c = ds(1) [of rest, unfolded t val(1) value_type.simps append.simps, folded q_def]
  have nonempty: "tokens_dict p ((k, BInt n) # kvs) \<noteq> []"
    by simp
  show "entry_type k BENCODING_TOKEN_INTEGER = BENCODING_TOKEN_COMPLETE \<Longrightarrow>
    response_loop bl src b (tokens_dict p ((k, BInt n) # kvs) @ rest) = response_loop bl src (b\<lparr>bt_complete := nat n\<rparr>) (tokens_dict q kvs @ rest)"
    using assms(2,3) nonempty unfolding response_loop.simps [of bl src b "tokens_dict p ((k, BInt n) # kvs) @ rest"] c
    by (simp add: Let_def val(2) del: tokens_dict.simps)
  show "entry_type k BENCODING_TOKEN_INTEGER = BENCODING_TOKEN_INTERVAL \<Longrightarrow>
    response_loop bl src b (tokens_dict p ((k, BInt n) # kvs) @ rest) = response_loop bl src (b\<lparr>bt_interval := n\<rparr>) (tokens_dict q kvs @ rest)"
    using nonempty unfolding response_loop.simps [of bl src b "tokens_dict p ((k, BInt n) # kvs) @ rest"] c
    by (simp add: Let_def val(2) n del: tokens_dict.simps)
  show "entry_type k BENCODING_TOKEN_INTEGER = BENCODING_TOKEN_INCOMPLETE \<Longrightarrow>
    response_loop bl src b (tokens_dict p ((k, BInt n) # kvs) @ rest) = response_loop bl src (b\<lparr>bt_incomplete := nat n\<rparr>) (tokens_dict q kvs @ rest)"
    using assms(2,3) nonempty unfolding response_loop.simps [of bl src b "tokens_dict p ((k, BInt n) # kvs) @ rest"] c
    by (simp add: Let_def val(2) del: tokens_dict.simps)
  show "drop q src = pairs_text kvs @ r"
    using ds(3) by (simp only: q_def)
qed

lemma response_peers:
  assumes "drop p src = pairs_text ((k, BStr s) # kvs) @ r" "entry_type k BENCODING_TOKEN_STRING = BENCODING_TOKEN_PEERS"
    and "compact_loop bl b s = (BITTORRENT_STATE_OK, b')"
  shows "response_loop bl src b (tokens_dict p ((k, BStr s) # kvs) @ rest) =
    response_loop bl src b' (tokens_dict (p + length (bencode_string k) + length (bencode (BStr s))) kvs @ rest)"
    and "drop (p + length (bencode_string k) + length (bencode (BStr s))) src = pairs_text kvs @ r"
proof -
  note ds = dict_step [OF assms(1)]
  obtain t us where t: "tokens_at (p + length (bencode_string k)) (BStr s) = t # us"
    using tokens_at_Cons by blast
  have val: "us = []" "token_string src t = s" "tk_type t = BENCODING_TOKEN_STRING"
    using token_str [OF ds(2) _ t] by auto
  note c = ds(1) [of rest, unfolded t val(1) value_type.simps append.simps]
  have nonempty: "tokens_dict p ((k, BStr s) # kvs) \<noteq> []"
    by simp
  show "response_loop bl src b (tokens_dict p ((k, BStr s) # kvs) @ rest) =
    response_loop bl src b' (tokens_dict (p + length (bencode_string k) + length (bencode (BStr s))) kvs @ rest)"
    using assms(2,3) nonempty unfolding response_loop.simps [of bl src b "tokens_dict p ((k, BStr s) # kvs) @ rest"] c
    by (simp add: parse_bencoding_peers_string_def val(2,3) del: tokens_dict.simps)
  show "drop (p + length (bencode_string k) + length (bencode (BStr s))) src = pairs_text kvs @ r"
    by (rule ds(3))
qed

lemma response_end: "tk_type e = BENCODING_TOKEN_END \<Longrightarrow> response_loop bl src b [e] = (BITTORRENT_STATE_OK, b, None)"
  by (simp add: response_loop.simps)

text \<open>What an entry of a compact response does to the state. The entries work on different fields, so that their order does not
  matter.\<close>

definition response_entries :: "int \<Rightarrow> int \<Rightarrow> int \<Rightarrow> string \<Rightarrow> (string \<times> bvalue) list" where
  "response_entries c i n s = [(''complete'', BInt c), (''incomplete'', BInt i), (''interval'', BInt n), (''peers'', BStr s)]"

definition entry_effect :: "int \<Rightarrow> int \<Rightarrow> int \<Rightarrow> address list \<Rightarrow> string \<times> bvalue \<Rightarrow> bittorrent \<Rightarrow> bittorrent" where
  "entry_effect c i n ps e b =
     (if fst e = ''complete'' then b\<lparr>bt_complete := nat c\<rparr>
      else if fst e = ''incomplete'' then b\<lparr>bt_incomplete := nat i\<rparr>
      else if fst e = ''interval'' then b\<lparr>bt_interval := n\<rparr>
      else b\<lparr>bt_pool := rev (map address_peer ps) @ bt_pool b\<rparr>)"

lemma entry_effects_commute:
  assumes "x \<in> set (response_entries c i n s)" "y \<in> set (response_entries c i n s)"
  shows "entry_effect c i n ps x \<circ> entry_effect c i n ps y = entry_effect c i n ps y \<circ> entry_effect c i n ps x"
  using assms by (auto simp: response_entries_def entry_effect_def)

lemma response_loop_entries:
  assumes "\<forall>a\<in>set ps. address_ok a" "length left < 6" "0 < n" "n < INT_MAX" "0 < c" "c < INT_MAX" "0 < i" "i < INT_MAX"
    and "tk_type f = BENCODING_TOKEN_END"
  shows "set kvs \<subseteq> set (response_entries c i n (concat (map address_bytes ps) @ left)) \<Longrightarrow> drop p src = pairs_text kvs @ r \<Longrightarrow>
    response_loop bl src b (tokens_dict p kvs @ [f]) = (BITTORRENT_STATE_OK, fold (entry_effect c i n ps) kvs b, None)"
proof (induction kvs arbitrary: p b)
  case Nil
  with assms(9) show ?case
    by (simp add: response_end)
next
  case (Cons e kvs)
  let ?s = "concat (map address_bytes ps) @ left"
  have sub: "set kvs \<subseteq> set (response_entries c i n ?s)"
    using Cons.prems(1) by simp
  consider "e = (''complete'', BInt c)" | "e = (''incomplete'', BInt i)" | "e = (''interval'', BInt n)" | "e = (''peers'', BStr ?s)"
    using Cons.prems(1) by (auto simp: response_entries_def)
  then show ?case
  proof cases
    case 1
    note d = Cons.prems(2) [unfolded 1]
    show ?thesis
      unfolding 1 response_int(1) [OF d assms(5,6) response_entry_types(1)]
      using Cons.IH [OF sub response_int(4) [OF d assms(5,6)]] by (simp add: entry_effect_def del: tokens_dict.simps)
  next
    case 2
    note d = Cons.prems(2) [unfolded 2]
    show ?thesis
      unfolding 2 response_int(3) [OF d assms(7,8) response_entry_types(2)]
      using Cons.IH [OF sub response_int(4) [OF d assms(7,8)]] by (simp add: entry_effect_def del: tokens_dict.simps)
  next
    case 3
    note d = Cons.prems(2) [unfolded 3]
    show ?thesis
      unfolding 3 response_int(2) [OF d assms(3,4) response_entry_types(3)]
      using Cons.IH [OF sub response_int(4) [OF d assms(3,4)]] by (simp add: entry_effect_def del: tokens_dict.simps)
  next
    case 4
    note d = Cons.prems(2) [unfolded 4]
    have "compact_loop bl b ?s = (BITTORRENT_STATE_OK, b\<lparr>bt_pool := rev (map address_peer ps) @ bt_pool b\<rparr>)"
      using compact_loop_reads [OF assms(1), of bl b left] assms(2) by (simp add: compact_loop.simps [of _ _ left])
    note peers = response_peers [OF d response_entry_types(4) this]
    show ?thesis
      unfolding 4 peers(1) using Cons.IH [OF sub peers(2)] by (simp add: entry_effect_def del: tokens_dict.simps)
  qed
qed

text \<open>C22: A tracker's response in the compact format is read back exactly, in whatever order its four entries stand: the interval, the
  counts of complete and incomplete peers, and every peer, which is put in front of the pool with its address as text; bytes at the end that make no whole peer are
  ignored. The numbers have to be positive (the parser leaves a count of zero as it is).\<close>

theorem compact_response_read:
  assumes "\<forall>a\<in>set ps. address_ok a" "length left < 6" "int (length (concat (map address_bytes ps) @ left)) < INT_MAX"
    and "0 < n" "n < INT_MAX" "0 < c" "c < INT_MAX" "0 < i" "i < INT_MAX"
    and "mset kvs = mset [(''complete'', BInt c), (''incomplete'', BInt i), (''interval'', BInt n),
      (''peers'', BStr (concat (map address_bytes ps) @ left))]"
  shows "parse_bittorrent_tracker_response bl b (bencode (BDict kvs) @ behind) (length (bencode (BDict kvs))) =
    (BITTORRENT_STATE_OK,
     b\<lparr>bt_interval := n, bt_complete := nat c, bt_incomplete := nat i, bt_pool := rev (map address_peer ps) @ bt_pool b\<rparr>, None)"
proof -
  let ?v = "BDict kvs" and ?s = "concat (map address_bytes ps) @ left"
  let ?src = "bencode ?v @ behind" and ?es = "response_entries c i n ?s"
  define f where "f = mark BENCODING_TOKEN_END (0 + length (bencode ?v) - 1)"
  have m: "mset kvs = mset ?es"
    using assms(10) by (simp add: response_entries_def)
  then have set: "set kvs = set ?es"
    by (metis set_mset_mset)
  then have sh: "short ?v"
    using assms(3) by (auto simp: response_entries_def INT_MAX_def)
  have ts: "bencoding_tokens ?src (length (bencode ?v)) = mark BENCODING_TOKEN_DICTIONARY 0 # tokens_dict (0 + 1) kvs @ [f]"
    unfolding f_def bencoding_tokens_value [OF sh] by (simp only: tokens_at.simps)
  have "response_loop bl ?src b (tokens_dict (0 + 1) kvs @ [f]) = (BITTORRENT_STATE_OK, fold (entry_effect c i n ps) kvs b, None)"
    by (rule response_loop_entries [OF assms(1,2,4-9)]) (simp_all add: f_def mark_def set)
  moreover have "fold (entry_effect c i n ps) kvs = fold (entry_effect c i n ps) ?es"
    by (rule fold_multiset_equiv [OF _ m]) (use entry_effects_commute set in blast)
  ultimately show ?thesis
    unfolding parse_bittorrent_tracker_response_def ts by (simp add: mark_def response_entries_def entry_effect_def del: tokens_dict.simps)
qed

theorem compact_response_read_witness:
  "\<forall>b. \<exists>b'. parse_bittorrent_tracker_response [] b ''d8:intervali1800e8:completei3e10:incompletei2e5:peers7:1234AB!ee'' 63 = (BITTORRENT_STATE_OK, b', None) \<and>
    bt_interval b' = 1800 \<and> bt_complete b' = 3 \<and> bt_incomplete b' = 2 \<and>
    bt_pool b' = \<lparr>pp_id = BITTORRENT_NULL_ID, pp_port = 16706, pp_ip = ''49.50.51.52''\<rparr> # bt_pool b"
proof
  fix b
  let ?a = "\<lparr>ad_1 = 49, ad_2 = 50, ad_3 = 51, ad_4 = 52, ad_port = 16706\<rparr>"
  let ?kvs = "[(''interval'', BInt 1800), (''complete'', BInt 3), (''incomplete'', BInt 2), (''peers'', BStr (concat (map address_bytes [?a]) @ ''!''))]"
  let ?t = "''d8:intervali1800e8:completei3e10:incompletei2e5:peers7:1234AB!e''"
  have ab: "address_bytes ?a = ''1234AB''"
    by (simp add: address_bytes_def char_of_def bit_0)
  have "bencode (BDict [(''interval'', BInt 1800), (''complete'', BInt 3), (''incomplete'', BInt 2), (''peers'', BStr ''1234AB!'')]) = ?t"
    by code_simp
  then have b: "bencode (BDict ?kvs) = ?t"
    by (simp only: ab list.map concat.simps append.simps)
  have l: "length ?t = 63" "?t @ ''e'' = ''d8:intervali1800e8:completei3e10:incompletei2e5:peers7:1234AB!ee''"
    by simp_all
  have p: "rev (map address_peer [?a]) = [\<lparr>pp_id = BITTORRENT_NULL_ID, pp_port = 16706, pp_ip = ''49.50.51.52''\<rparr>]"
    by code_simp
  have r: "parse_bittorrent_tracker_response [] b (bencode (BDict ?kvs) @ ''e'') (length (bencode (BDict ?kvs))) =
    (BITTORRENT_STATE_OK,
     b\<lparr>bt_interval := 1800, bt_complete := nat 3, bt_incomplete := nat 2, bt_pool := rev (map address_peer [?a]) @ bt_pool b\<rparr>, None)"
    by (rule compact_response_read) (simp_all add: address_ok_def address_bytes_def INT_MAX_def)
  show "\<exists>b'. parse_bittorrent_tracker_response [] b ''d8:intervali1800e8:completei3e10:incompletei2e5:peers7:1234AB!ee'' 63 = (BITTORRENT_STATE_OK, b', None) \<and>
    bt_interval b' = 1800 \<and> bt_complete b' = 3 \<and> bt_incomplete b' = 2 \<and>
    bt_pool b' = \<lparr>pp_id = BITTORRENT_NULL_ID, pp_port = 16706, pp_ip = ''49.50.51.52''\<rparr> # bt_pool b"
    using r unfolding b l p by (intro exI conjI) (assumption, simp_all)
qed

end
