(* ===== verification/Disk.thy ===== *)
theory Disk
  imports Peers
begin

text \<open>
  The files of a torrent, the part of \<^verbatim>\<open>elinks/src/protocol/bittorrent/piececache.c\<close> that translates between a piece and its places in
  the files. The disk is a map from paths to bytes; which directories can be made, which files can be opened or created and how much
  a write stores are parameters. Memory for a piece is available, and filled with zeros.
\<close>

section \<open>Operations\<close>

type_synonym disk = "string \<Rightarrow> uchar list option"

record disk_env =
  de_dir :: string
  de_mkdir :: "string \<Rightarrow> bool"
  de_open :: "string \<Rightarrow> bool"
  de_creat :: "string \<Rightarrow> bool"
  de_write :: "string \<Rightarrow> nat \<Rightarrow> nat"

definition put_bytes :: "'a list \<Rightarrow> nat \<Rightarrow> 'a list \<Rightarrow> 'a list" where
  "put_bytes buf i bs = take i buf @ bs @ drop (i + length bs) buf"

text \<open>What \<^verbatim>\<open>write\<close> makes of a file: a gap before the offset reads as zeros.\<close>

definition write_at :: "uchar list \<Rightarrow> nat \<Rightarrow> uchar list \<Rightarrow> uchar list" where
  "write_at content i bs = put_bytes (content @ replicate (i - length content) 0) i bs"

definition create_bittorrent_path :: "disk_env \<Rightarrow> string \<Rightarrow> bittorrent_state" where
  "create_bittorrent_path env path =
     (if path = [] then BITTORRENT_STATE_ERROR
      else if list_all (\<lambda>pos. dir_sep (path ! pos) \<longrightarrow> de_mkdir env (take pos path)) [1..<length path] then BITTORRENT_STATE_OK
      else BITTORRENT_STATE_ERROR)"

definition get_bittorrent_file_name :: "disk_env \<Rightarrow> bittorrent_meta \<Rightarrow> bittorrent_file \<Rightarrow> string" where
  "get_bittorrent_file_name env meta fl =
     de_dir env @ ''/'' @ the (bt_name meta) @ (if bt_type meta = BITTORRENT_MULTI_FILE then ''/'' @ bf_name fl else [])"

datatype translation = BITTORRENT_READ | BITTORRENT_WRITE | BITTORRENT_SEEK

text \<open>The opened path, or none, and the disk: a file that is not there may have been created.\<close>

definition open_bittorrent_file ::
  "disk_env \<Rightarrow> bittorrent_meta \<Rightarrow> bittorrent_file \<Rightarrow> translation \<Rightarrow> nat \<Rightarrow> disk \<Rightarrow> string option \<times> disk" where
  "open_bittorrent_file env meta fl tr offset d =
     (let name = get_bittorrent_file_name env meta fl in
      case d name of
        Some content \<Rightarrow>
          if \<not> de_open env name \<or> tr = BITTORRENT_READ \<and> length content < offset then (None, d) else (Some name, d)
      | None \<Rightarrow>
          if tr = BITTORRENT_WRITE \<and> create_bittorrent_path env name = BITTORRENT_STATE_OK \<and> de_creat env name
          then (Some name, d(name \<mapsto> []))
          else (None, d))"

text \<open>The loop over the files. It gives whether it returned early, the state, how far in the piece it came, the entry and the disk;
  \<open>prev\<close> is the selection of the file before, if there was one.\<close>

fun translation_loop ::
  "disk_env \<Rightarrow> bittorrent_meta \<Rightarrow> translation \<Rightarrow> nat \<Rightarrow> int \<Rightarrow> bittorrent_file list \<Rightarrow> nat \<Rightarrow> int \<Rightarrow> bool option \<Rightarrow> piece_entry \<Rightarrow> disk \<Rightarrow>
   bool \<times> bittorrent_state \<times> nat \<times> piece_entry \<times> disk" where
  "translation_loop env meta tr plen toff [] po cur prev e d = (False, BITTORRENT_STATE_OK, po, e, d)"
| "translation_loop env meta tr plen toff (fl # fls) po cur prev e d =
     (if po \<ge> plen then (False, BITTORRENT_STATE_OK, po, e, d)
      else if cur + bf_length fl < toff then translation_loop env meta tr plen toff fls po (cur + bf_length fl) prev e d
      else
        let file_offset = (if toff - cur < 0 then 0 else toff - cur);
            file_length = bf_length fl - file_offset;
            data_length = (if int (plen - po) > file_length then nat file_length else plen - po);
            continue = translation_loop env meta tr plen toff fls
        in
        if tr = BITTORRENT_SEEK then
          let e = (if \<not> pe_selected e then e\<lparr>pe_selected := bf_selected fl\<rparr> else e);
              e = (if prev \<noteq> None \<and> prev \<noteq> Some (bf_selected fl) then e\<lparr>pe_locked := True\<rparr> else e)
          in continue (po + data_length) (cur + bf_length fl) (Some (bf_selected fl)) e d
        else if \<not> bf_selected fl \<and> (tr \<noteq> BITTORRENT_READ \<or> \<not> pe_completed e) then
          continue (po + data_length) (cur + bf_length fl) prev e d
        else case open_bittorrent_file env meta fl tr (nat file_offset) d of
          (None, d) \<Rightarrow>
            if bf_name fl = [] \<or> dir_sep (last (bf_name fl)) then continue po (cur + bf_length fl) prev e d
            else if tr = BITTORRENT_WRITE then (False, BITTORRENT_STATE_ERROR, po, e, d)
            else (False, BITTORRENT_STATE_FILE_MISSING, po, e, d)
        | (Some name, d) \<Rightarrow>
            let content = the (d name); dat = the (pe_data e) in
            if tr = BITTORRENT_READ then
              let bs = take data_length (drop (nat file_offset) content);
                  e = e\<lparr>pe_data := Some (put_bytes dat po bs)\<rparr>
              in if length bs \<noteq> data_length then (True, BITTORRENT_STATE_ERROR, po, e, d)
                 else continue (po + data_length) (cur + bf_length fl) prev e d
            else
              let n = de_write env name data_length;
                  d = d(name \<mapsto> (if n = 0 then content else write_at content (nat file_offset) (take n (drop po dat))))
              in if n \<noteq> data_length then (True, BITTORRENT_STATE_ERROR, po, e, d)
                 else continue (po + data_length) (cur + bf_length fl) prev e d)"

declare translation_loop.simps(2) [simp del]

text \<open>The entry is put in front of the queue of disposable entries if the third component says so.\<close>

definition bittorrent_file_piece_translation ::
  "disk_env \<Rightarrow> bittorrent_meta \<Rightarrow> piece_entry \<Rightarrow> nat \<Rightarrow> translation \<Rightarrow> disk \<Rightarrow> bittorrent_state \<times> piece_entry \<times> bool \<times> disk" where
  "bittorrent_file_piece_translation env meta e piece tr d =
     (let plen = get_bittorrent_piece_length meta piece;
          e = (if tr = BITTORRENT_READ then e\<lparr>pe_data := Some (replicate plen 0)\<rparr> else e)
      in case translation_loop env meta tr plen (int (piece_length meta) * int piece) (bt_files meta) 0 0 None e d of
        (True, st, po, e, d) \<Rightarrow> (st, e, False, d)
      | (False, st, po, e, d) \<Rightarrow>
          if st \<noteq> BITTORRENT_STATE_OK \<or> po \<noteq> plen
          then (if po \<noteq> plen then BITTORRENT_STATE_ERROR else st, e\<lparr>pe_data := None\<rparr>, False, d)
          else (BITTORRENT_STATE_OK, e, tr \<noteq> BITTORRENT_SEEK, d))"


section \<open>What is on the disk\<close>

abbreviation file_size :: "bittorrent_file \<Rightarrow> nat" where
  "file_size fl \<equiv> nat (bf_length fl)"

text \<open>The bytes of a file, as far as it goes; the rest counts as zeros. The content of a torrent is that of its files in a row.\<close>

definition file_bytes :: "disk_env \<Rightarrow> bittorrent_meta \<Rightarrow> disk \<Rightarrow> bittorrent_file \<Rightarrow> uchar list" where
  "file_bytes env meta d fl =
     (let c = (case d (get_bittorrent_file_name env meta fl) of None \<Rightarrow> [] | Some c \<Rightarrow> c)
      in take (file_size fl) (c @ replicate (file_size fl - length c) 0))"

definition torrent_bytes :: "disk_env \<Rightarrow> bittorrent_meta \<Rightarrow> disk \<Rightarrow> bittorrent_file list \<Rightarrow> uchar list" where
  "torrent_bytes env meta d fls = concat (map (file_bytes env meta d) fls)"

text \<open>Whether \<open>n\<close> bytes can be read from the offset \<open>r\<close> on: every file they are in is there and long enough, and so is a file that ends
  just before them.\<close>

fun present :: "disk_env \<Rightarrow> bittorrent_meta \<Rightarrow> disk \<Rightarrow> bittorrent_file list \<Rightarrow> nat \<Rightarrow> nat \<Rightarrow> bool" where
  "present env meta d [] r n \<longleftrightarrow> n = 0"
| "present env meta d (fl # fls) r n \<longleftrightarrow>
     n = 0 \<or>
     (if file_size fl < r then present env meta d fls (r - file_size fl) n
      else (case d (get_bittorrent_file_name env meta fl) of
              None \<Rightarrow> False
            | Some c \<Rightarrow> de_open env (get_bittorrent_file_name env meta fl) \<and> r + min n (file_size fl - r) \<le> length c) \<and>
           present env meta d fls 0 (n - min n (file_size fl - r)))"

text \<open>File lists with sizes and names that stand for files.\<close>

definition plain_files :: "bittorrent_file list \<Rightarrow> bool" where
  "plain_files fls \<longleftrightarrow> (\<forall>fl\<in>set fls. 0 \<le> bf_length fl \<and> bf_name fl \<noteq> [] \<and> \<not> dir_sep (last (bf_name fl)))"

lemma length_file_bytes [simp]: "length (file_bytes env meta d fl) = file_size fl"
  by (simp add: file_bytes_def Let_def)

lemma torrent_bytes_simps [simp]:
  "torrent_bytes env meta d [] = []"
  "torrent_bytes env meta d (fl # fls) = file_bytes env meta d fl @ torrent_bytes env meta d fls"
  by (simp_all add: torrent_bytes_def)

lemma length_put_bytes [simp]: "i + length bs \<le> length buf \<Longrightarrow> length (put_bytes buf i bs) = length buf"
  by (simp add: put_bytes_def)

lemma present_0 [simp]: "present env meta d fls r 0"
  by (cases fls) simp_all

lemma file_part:
  "d (get_bittorrent_file_name env meta fl) = Some c \<Longrightarrow> r + m \<le> length c \<Longrightarrow> r + m \<le> file_size fl \<Longrightarrow>
   take m (drop r (file_bytes env meta d fl)) = take m (drop r c)"
  by (simp add: file_bytes_def Let_def drop_take min_def)

text \<open>One step of the loop, with the offset in what is left of the files instead of that in the torrent.\<close>

lemma loop_step:
  fixes env :: disk_env and meta :: bittorrent_meta and fl :: bittorrent_file and fls :: "bittorrent_file list" and tr :: translation
    and plen po r :: nat and toff :: int
  assumes "po < plen" "int r = toff + int po - cur" "po = 0 \<or> r = 0" "0 \<le> bf_length fl" "tr \<noteq> BITTORRENT_SEEK"
    "bf_selected fl \<or> tr = BITTORRENT_READ \<and> pe_completed e" "bf_name fl \<noteq> []" "\<not> dir_sep (last (bf_name fl))"
  defines "dl \<equiv> min (plen - po) (file_size fl - r)" and "continue \<equiv> translation_loop env meta tr plen toff fls"
  shows "translation_loop env meta tr plen toff (fl # fls) po cur prev e d =
    (if file_size fl < r then continue po (cur + bf_length fl) prev e d
     else case open_bittorrent_file env meta fl tr r d of
        (None, d) \<Rightarrow> (False, if tr = BITTORRENT_WRITE then BITTORRENT_STATE_ERROR else BITTORRENT_STATE_FILE_MISSING, po, e, d)
      | (Some name, d) \<Rightarrow>
          if tr = BITTORRENT_READ then
            let bs = take dl (drop r (the (d name))); e = e\<lparr>pe_data := Some (put_bytes (the (pe_data e)) po bs)\<rparr>
            in if length bs \<noteq> dl then (True, BITTORRENT_STATE_ERROR, po, e, d) else continue (po + dl) (cur + bf_length fl) prev e d
          else
            let n = de_write env name dl;
                d = d(name \<mapsto> (if n = 0 then the (d name) else write_at (the (d name)) r (take n (drop po (the (pe_data e))))))
            in if n \<noteq> dl then (True, BITTORRENT_STATE_ERROR, po, e, d) else continue (po + dl) (cur + bf_length fl) prev e d)"
proof -
  have skip: "cur + bf_length fl < toff \<longleftrightarrow> file_size fl < r"
    using assms(2-4) by auto
  show ?thesis
  proof (cases "file_size fl < r")
    case True
    then show ?thesis
      using assms(1) skip by (simp add: translation_loop.simps(2) continue_def)
  next
    case False
    have fo: "(if toff - cur < 0 then 0 else toff - cur) = int r"
      using assms(2,3) by auto
    have dl: "(if int (plen - po) > bf_length fl - int r then nat (bf_length fl - int r) else plen - po) = dl"
      using False assms(4) by (auto simp: dl_def min_def)
    show ?thesis
      using False assms(1,5-8) skip unfolding translation_loop.simps(2) Let_def fo dl continue_def
      by (auto split: prod.split option.split)
  qed
qed

definition loop_fails :: "nat \<Rightarrow> bool \<times> bittorrent_state \<times> nat \<times> 'e \<times> 'd \<Rightarrow> bool" where
  "loop_fails plen x \<longleftrightarrow> (case x of (early, st, po, _) \<Rightarrow> st \<noteq> BITTORRENT_STATE_OK \<or> \<not> early \<and> po \<noteq> plen)"

lemma loop_fails_simps [simp]: "loop_fails plen (early, st, po, r) \<longleftrightarrow> st \<noteq> BITTORRENT_STATE_OK \<or> \<not> early \<and> po \<noteq> plen"
  by (simp add: loop_fails_def)

lemma take_short: "\<not> r + m \<le> length c \<Longrightarrow> length c < r \<or> length (take m (drop r c)) \<noteq> m"
  by auto

lemma take_long: "r + m \<le> length c \<Longrightarrow> length (take m (drop r c)) = m"
  by auto

lemma pe_data_same: "pe_data e = x \<Longrightarrow> e\<lparr>pe_data := x\<rparr> = e"
  by auto

lemma read_loop:
  assumes "plain_files fls" "\<forall>fl\<in>set fls. bf_selected fl \<or> pe_completed e" "pe_data e = Some buf" "length buf = plen" "po \<le> plen"
    "int r = toff + int po - cur" "po = 0 \<or> r = 0"
  shows "if present env meta d fls r (plen - po)
    then translation_loop env meta BITTORRENT_READ plen toff fls po cur prev e d =
      (False, BITTORRENT_STATE_OK, plen, e\<lparr>pe_data := Some (take po buf @ take (plen - po) (drop r (torrent_bytes env meta d fls)))\<rparr>, d)
    else loop_fails plen (translation_loop env meta BITTORRENT_READ plen toff fls po cur prev e d)"
  using assms
proof (induction fls arbitrary: po cur e r buf)
  case Nil
  then show ?case
    by auto
next
  case (Cons fl fls)
  show ?case
  proof (cases "po = plen")
    case True
    then show ?thesis
      using Cons.prems by (simp add: translation_loop.simps(2) pe_data_same)
  next
    case False
    let ?name = "get_bittorrent_file_name env meta fl" and ?dl = "min (plen - po) (file_size fl - r)"
    have fl: "0 \<le> bf_length fl" "bf_name fl \<noteq> []" "\<not> dir_sep (last (bf_name fl))" "bf_selected fl \<or> pe_completed e"
      using Cons.prems(1,2) by (auto simp: plain_files_def)
    have rest: "plain_files fls" "\<forall>fl\<in>set fls. bf_selected fl \<or> pe_completed (e\<lparr>pe_data := x\<rparr>)" for x
      using Cons.prems(1,2) by (auto simp: plain_files_def)
    have po: "po < plen"
      using False Cons.prems(5) by simp
    note step = loop_step [OF po Cons.prems(6,7) fl(1), of BITTORRENT_READ e env meta fls prev d, simplified, OF fl(4,2,3)]
    show ?thesis
    proof (cases "file_size fl < r")
      case True
      have "int (r - file_size fl) = toff + int po - (cur + bf_length fl)" "po = 0 \<or> r - file_size fl = 0"
        using True fl(1) Cons.prems(6,7) by auto
      from Cons.IH [OF rest(1) _ Cons.prems(3-5) this] show ?thesis
        using True po Cons.prems(2) by (simp add: step)
    next
      case small: False
      show ?thesis
      proof (cases "d ?name")
        case None
        then show ?thesis
          using small po by (simp add: step open_bittorrent_file_def)
      next
        case (Some c)
        have op: "open_bittorrent_file env meta fl BITTORRENT_READ r d = (if \<not> de_open env ?name \<or> length c < r then (None, d) else (Some ?name, d))"
          using Some by (simp add: open_bittorrent_file_def Let_def)
        show ?thesis
        proof (cases "de_open env ?name \<and> r + ?dl \<le> length c")
          case False
          then have "\<not> present env meta d (fl # fls) r (plen - po)"
            using small po Some by auto
          moreover have "loop_fails plen (translation_loop env meta BITTORRENT_READ plen toff (fl # fls) po cur prev e d)"
          proof (cases "\<not> de_open env ?name \<or> length c < r")
            case True
            then show ?thesis
              unfolding step op using small by simp
          next
            case short: False
            then have "length (take ?dl (drop r c)) \<noteq> ?dl"
              using False take_short [of r ?dl c] by blast
            then show ?thesis
              unfolding step op Let_def using small short Some by (simp del: length_take)
          qed
          ultimately show ?thesis
            by (simp only: if_False)
        next
          case True
          define bs where "bs = take ?dl (drop r c)"
          have m: "r + ?dl \<le> length c" "r + ?dl \<le> file_size fl" "po + ?dl \<le> plen" "?dl \<le> plen - po"
            using True small po by auto
          have bs: "length bs = ?dl" "bs = take ?dl (drop r (file_bytes env meta d fl))"
            unfolding bs_def using take_long [OF m(1)] file_part [of d env meta fl c r ?dl, OF Some m(1,2)] by simp_all
          let ?buf = "put_bytes buf po bs" and ?e = "e\<lparr>pe_data := Some (put_bytes buf po bs)\<rparr>"
          have loop: "translation_loop env meta BITTORRENT_READ plen toff (fl # fls) po cur prev e d =
              translation_loop env meta BITTORRENT_READ plen toff fls (po + ?dl) (cur + bf_length fl) prev ?e d"
            using True small Some Cons.prems(3) bs(1) unfolding bs_def step op Let_def by (simp del: length_take)
          have buf: "length ?buf = plen"
            using bs(1) m(3) Cons.prems(4) by simp
          have pr: "present env meta d (fl # fls) r (plen - po) \<longleftrightarrow> present env meta d fls 0 (plen - (po + ?dl))"
            using True small Some po by (simp add: diff_diff_left)
          have out: "take (po + ?dl) ?buf @ take (plen - (po + ?dl)) (torrent_bytes env meta d fls) =
              take po buf @ take (plen - po) (drop r (torrent_bytes env meta d (fl # fls)))"
          proof -
            have "take (po + ?dl) ?buf = take po buf @ bs"
              using bs(1) Cons.prems(4,5) by (simp add: put_bytes_def)
            moreover have "take (plen - po) (drop r (file_bytes env meta d fl)) = bs"
              by (simp add: bs(2) min_def)
            ultimately show ?thesis
              using small by (simp add: diff_diff_left min_def)
          qed
          have pos: "int 0 = toff + int (po + ?dl) - (cur + bf_length fl) \<or> po + ?dl = plen"
            using small fl(1) Cons.prems(6) po by (auto simp: min_def)
          show ?thesis
          proof (cases "po + ?dl = plen")
            case True
            have "translation_loop env meta BITTORRENT_READ plen toff fls plen (cur + bf_length fl) prev ?e d =
                (False, BITTORRENT_STATE_OK, plen, ?e, d)"
              by (cases fls) (simp_all add: translation_loop.simps(2))
            moreover have "take po buf @ take (plen - po) (drop r (torrent_bytes env meta d (fl # fls))) = ?buf"
              using out [unfolded True] buf by (simp only: diff_self_eq_0 take_0 append_Nil2 take_all order_refl)
            ultimately show ?thesis
              using pr by (simp only: loop True diff_self_eq_0 present_0 if_True)
          next
            case False
            then have "int 0 = toff + int (po + ?dl) - (cur + bf_length fl)" "po + ?dl \<le> plen"
              using pos m(3) by blast+
            then have "if present env meta d fls 0 (plen - (po + ?dl))
              then translation_loop env meta BITTORRENT_READ plen toff fls (po + ?dl) (cur + bf_length fl) prev ?e d =
                (False, BITTORRENT_STATE_OK, plen,
                 ?e\<lparr>pe_data := Some (take (po + ?dl) ?buf @ take (plen - (po + ?dl)) (drop 0 (torrent_bytes env meta d fls)))\<rparr>, d)
              else loop_fails plen (translation_loop env meta BITTORRENT_READ plen toff fls (po + ?dl) (cur + bf_length fl) prev ?e d)"
              using rest buf by (intro Cons.IH) simp_all
            then show ?thesis
              unfolding loop pr drop_0 out by simp
          qed
        qed
      qed
    qed
  qed
qed


section \<open>Writing\<close>

lemma nth_put_bytes: "i + length bs \<le> length buf \<Longrightarrow> k < length buf \<Longrightarrow>
  put_bytes buf i bs ! k = (if i \<le> k \<and> k < i + length bs then bs ! (k - i) else buf ! k)"
  by (auto simp: put_bytes_def nth_append min_def)

definition pad :: "nat \<Rightarrow> uchar list \<Rightarrow> uchar list" where
  "pad n c = take n (c @ replicate (n - length c) 0)"

lemma length_pad [simp]: "length (pad n c) = n"
  by (simp add: pad_def)

lemma nth_pad: "k < n \<Longrightarrow> pad n c ! k = (if k < length c then c ! k else 0)"
  by (simp add: pad_def nth_append)

lemma length_write_at: "length (write_at c i bs) = max (length c) (i + length bs)"
  by (auto simp: write_at_def put_bytes_def)

lemma nth_write_at: "k < length (write_at c i bs) \<Longrightarrow>
  write_at c i bs ! k = (if i \<le> k \<and> k < i + length bs then bs ! (k - i) else if k < length c then c ! k else 0)"
  by (auto simp: write_at_def put_bytes_def nth_append min_def)

lemma pad_write_at: "i + length bs \<le> n \<Longrightarrow> pad n (write_at c i bs) = put_bytes (pad n c) i bs"
  by (rule nth_equalityI) (auto simp: nth_pad nth_put_bytes length_write_at nth_write_at)

lemma file_bytes_pad:
  "file_bytes env meta d fl = pad (file_size fl) (case d (get_bittorrent_file_name env meta fl) of None \<Rightarrow> [] | Some c \<Rightarrow> c)"
  by (simp add: file_bytes_def pad_def Let_def)

lemma put_bytes_append1: "r + length bs \<le> length xs \<Longrightarrow> put_bytes (xs @ ys) r bs = put_bytes xs r bs @ ys"
  by (simp add: put_bytes_def)

lemma put_bytes_append2: "length xs \<le> r \<Longrightarrow> put_bytes (xs @ ys) r bs = xs @ put_bytes ys (r - length xs) bs"
  by (simp add: put_bytes_def)

lemma put_bytes_across: "r + length as = length xs \<Longrightarrow> put_bytes (xs @ ys) r (as @ bs) = put_bytes xs r as @ put_bytes ys 0 bs"
proof -
  assume a: "r + length as = length xs"
  show ?thesis
    by (simp add: put_bytes_def a [symmetric])
qed

lemma put_bytes_Nil [simp]: "put_bytes buf i [] = buf"
  by (simp add: put_bytes_def)

text \<open>Files that can be written and read, under names of their own.\<close>

definition disk_works :: "disk_env \<Rightarrow> bittorrent_meta \<Rightarrow> disk \<Rightarrow> bittorrent_file list \<Rightarrow> bool" where
  "disk_works env meta d fls \<longleftrightarrow>
     distinct (map (get_bittorrent_file_name env meta) fls) \<and>
     (\<forall>fl\<in>set fls. let name = get_bittorrent_file_name env meta fl in
        de_open env name \<and> create_bittorrent_path env name = BITTORRENT_STATE_OK \<and> de_creat env name \<and> de_write env name = id)"

text \<open>A file that ends where the bytes begin is complete.\<close>

fun settled :: "disk_env \<Rightarrow> bittorrent_meta \<Rightarrow> disk \<Rightarrow> bittorrent_file list \<Rightarrow> nat \<Rightarrow> bool" where
  "settled env meta d [] r \<longleftrightarrow> True"
| "settled env meta d (fl # fls) r \<longleftrightarrow>
     (if file_size fl < r then settled env meta d fls (r - file_size fl)
      else 0 < r \<and> file_size fl = r \<longrightarrow>
        (case d (get_bittorrent_file_name env meta fl) of None \<Rightarrow> False | Some c \<Rightarrow> r \<le> length c))"

lemma settled_0 [simp]: "settled env meta d fls 0"
  by (cases fls) simp_all

lemma torrent_bytes_cong:
  "(\<And>fl. fl \<in> set fls \<Longrightarrow> d (get_bittorrent_file_name env meta fl) = d' (get_bittorrent_file_name env meta fl)) \<Longrightarrow>
   torrent_bytes env meta d fls = torrent_bytes env meta d' fls"
  by (induction fls) (auto simp: file_bytes_def)

lemma present_cong:
  "(\<And>fl. fl \<in> set fls \<Longrightarrow> d (get_bittorrent_file_name env meta fl) = d' (get_bittorrent_file_name env meta fl)) \<Longrightarrow>
   present env meta d fls r n = present env meta d' fls r n"
  by (induction env meta d fls r n rule: present.induct) auto

lemma length_torrent_bytes: "length (torrent_bytes env meta d fls) = (\<Sum>fl\<leftarrow>fls. file_size fl)"
  by (induction fls) simp_all

lemma present_Cons:
  "d (get_bittorrent_file_name env meta fl) = Some c \<Longrightarrow> de_open env (get_bittorrent_file_name env meta fl) \<Longrightarrow> \<not> file_size fl < r \<Longrightarrow>
   n = min m (file_size fl - r) \<Longrightarrow> r + n \<le> length c \<Longrightarrow> present env meta d fls 0 (m - n) \<Longrightarrow> present env meta d (fl # fls) r m"
  by simp

lemma write_loop:
  assumes "plain_files fls" "\<forall>fl\<in>set fls. bf_selected fl" "disk_works env meta d fls" "pe_data e = Some dat" "length dat = plen" "po \<le> plen"
    "int r = toff + int po - cur" "po = 0 \<or> r = 0" "r + (plen - po) \<le> (\<Sum>fl\<leftarrow>fls. file_size fl)"
  shows "\<exists>d'. translation_loop env meta BITTORRENT_WRITE plen toff fls po cur prev e d = (False, BITTORRENT_STATE_OK, plen, e, d') \<and>
    torrent_bytes env meta d' fls = put_bytes (torrent_bytes env meta d fls) r (drop po dat) \<and>
    (\<forall>x. x \<notin> get_bittorrent_file_name env meta ` set fls \<longrightarrow> d' x = d x) \<and>
    (settled env meta d fls r \<longrightarrow> present env meta d' fls r (plen - po))"
  using assms
proof (induction fls arbitrary: po cur r d)
  case Nil
  then show ?case
    by (auto simp: put_bytes_def)
next
  case (Cons fl fls)
  show ?case
  proof (cases "po = plen")
    case True
    then show ?thesis
      using Cons.prems by (auto simp: translation_loop.simps(2))
  next
    case False
    let ?name = "get_bittorrent_file_name env meta fl" and ?dl = "min (plen - po) (file_size fl - r)"
    have fl: "0 \<le> bf_length fl" "bf_name fl \<noteq> []" "\<not> dir_sep (last (bf_name fl))" "bf_selected fl"
      using Cons.prems(1,2) by (auto simp: plain_files_def)
    have rest: "plain_files fls" "\<forall>fl\<in>set fls. bf_selected fl" "disk_works env meta d' fls" for d'
      using Cons.prems(1-3) by (auto simp: plain_files_def disk_works_def)
    have name: "de_open env ?name" "create_bittorrent_path env ?name = BITTORRENT_STATE_OK" "de_creat env ?name" "de_write env ?name = id"
      "?name \<notin> get_bittorrent_file_name env meta ` set fls"
      using Cons.prems(3) by (auto simp: disk_works_def Let_def)
    have po: "po < plen"
      using False Cons.prems(6) by simp
    note step = loop_step [OF po Cons.prems(7,8) fl(1), of BITTORRENT_WRITE e env meta fls prev d, simplified, OF fl(4,2,3)]
    show ?thesis
    proof (cases "file_size fl < r")
      case True
      have "int (r - file_size fl) = toff + int po - (cur + bf_length fl)" "po = 0 \<or> r - file_size fl = 0"
        "r - file_size fl + (plen - po) \<le> (\<Sum>fl\<leftarrow>fls. file_size fl)"
        using True fl(1) Cons.prems(7-9) by auto
      from Cons.IH [OF rest Cons.prems(4-6) this, of d] obtain d' where d': 
        "translation_loop env meta BITTORRENT_WRITE plen toff fls po (cur + bf_length fl) prev e d = (False, BITTORRENT_STATE_OK, plen, e, d')"
        "torrent_bytes env meta d' fls = put_bytes (torrent_bytes env meta d fls) (r - file_size fl) (drop po dat)"
        "\<forall>x. x \<notin> get_bittorrent_file_name env meta ` set fls \<longrightarrow> d' x = d x"
        "settled env meta d fls (r - file_size fl) \<longrightarrow> present env meta d' fls (r - file_size fl) (plen - po)"
        by blast
      have "file_bytes env meta d' fl = file_bytes env meta d fl"
        using d'(3) name(5) by (simp add: file_bytes_def)
      then show ?thesis
        using True d' po by (auto simp: step put_bytes_append2)
    next
      case small: False
      define n where "n = min (plen - po) (file_size fl - r)"
      define c where "c = (case d ?name of None \<Rightarrow> [] | Some c \<Rightarrow> c)"
      define bs where "bs = take n (drop po dat)"
      define d1 where "d1 = d(?name \<mapsto> if n = 0 then c else write_at c r bs)"
      have m: "r + n \<le> file_size fl" "po + n \<le> plen" "length bs = n"
        using small po Cons.prems(5) by (auto simp: bs_def n_def)
      have op: "\<exists>d0. open_bittorrent_file env meta fl BITTORRENT_WRITE r d = (Some ?name, d0) \<and> the (d0 ?name) = c \<and> (\<forall>x. d0(?name := x) = d(?name := x))"
        using name by (cases "d ?name") (auto simp: open_bittorrent_file_def Let_def c_def)
      then obtain d0 where d0: "open_bittorrent_file env meta fl BITTORRENT_WRITE r d = (Some ?name, d0)" "the (d0 ?name) = c"
        "\<And>x. d0(?name := x) = d(?name := x)"
        by blast
      have loop: "translation_loop env meta BITTORRENT_WRITE plen toff (fl # fls) po cur prev e d =
          translation_loop env meta BITTORRENT_WRITE plen toff fls (po + n) (cur + bf_length fl) prev e d1"
        using small Cons.prems(4) d0(2,3) name(4) unfolding step [folded n_def] d0(1) Let_def d1_def bs_def by simp
      have fb: "file_bytes env meta d1 fl = put_bytes (file_bytes env meta d fl) r bs"
      proof (cases "n = 0")
        case True
        then have "bs = []"
          by (simp add: bs_def)
        with True show ?thesis
          by (simp add: file_bytes_pad d1_def c_def put_bytes_def)
      next
        case False
        then show ?thesis
          using m pad_write_at [of r bs "file_size fl" c] by (simp add: file_bytes_pad d1_def c_def)
      qed
      have tb: "torrent_bytes env meta d1 fls = torrent_bytes env meta d fls"
      proof (rule torrent_bytes_cong)
        fix f
        assume "f \<in> set fls"
        then have "get_bittorrent_file_name env meta f \<noteq> ?name"
          using name(5) by (metis imageI)
        then show "d1 (get_bittorrent_file_name env meta f) = d (get_bittorrent_file_name env meta f)"
          by (simp add: d1_def)
      qed
      have "n = 0 \<Longrightarrow> file_size fl = r"
        using small po by (simp add: n_def)
      then have long: "n \<noteq> 0 \<or> settled env meta d (fl # fls) r \<Longrightarrow> \<exists>c1. d1 ?name = Some c1 \<and> r + n \<le> length c1"
        using small m(3) by (cases "n = 0") (auto simp: d1_def c_def length_write_at split: option.splits)
      show ?thesis
      proof (cases "po + n = plen")
        case True
        have "translation_loop env meta BITTORRENT_WRITE plen toff fls plen (cur + bf_length fl) prev e d1 =
            (False, BITTORRENT_STATE_OK, plen, e, d1)"
          by (cases fls) (simp_all add: translation_loop.simps(2))
        moreover have "present env meta d1 (fl # fls) r (plen - po)"
        proof -
          have "n \<noteq> 0"
            using True po by simp
          then obtain c1 where "d1 ?name = Some c1" "r + n \<le> length c1"
            using long by blast
          then show ?thesis
            using True by (intro present_Cons [OF _ name(1) small n_def]) (auto simp: diff_diff_left)
        qed
        moreover have "torrent_bytes env meta d1 (fl # fls) = put_bytes (torrent_bytes env meta d (fl # fls)) r (drop po dat)"
        proof -
          have "drop po dat = bs"
            using True Cons.prems(5) by (simp add: bs_def)
          moreover have "r + length bs \<le> length (file_bytes env meta d fl)"
            using m by simp
          ultimately show ?thesis
            by (simp only: torrent_bytes_simps fb tb put_bytes_append1)
        qed
        moreover have "\<forall>x. x \<notin> get_bittorrent_file_name env meta ` set (fl # fls) \<longrightarrow> d1 x = d x"
          by (simp add: d1_def)
        ultimately show ?thesis
          unfolding loop True by blast
      next
        case more: False
        have "n = plen - po \<or> n = file_size fl - r"
          unfolding n_def min_def by simp
        then have dl: "n = file_size fl - r" "r + n = file_size fl"
          using more small po by linarith+
        have "int 0 = toff + int (po + n) - (cur + bf_length fl)" "po + n = 0 \<or> (0::nat) = 0"
          "0 + (plen - (po + n)) \<le> (\<Sum>fl\<leftarrow>fls. file_size fl)"
          using dl fl(1) Cons.prems(7,9) by auto
        from Cons.IH [OF rest Cons.prems(4,5) m(2) this, of d1] obtain d' where d':
          "translation_loop env meta BITTORRENT_WRITE plen toff fls (po + n) (cur + bf_length fl) prev e d1 = (False, BITTORRENT_STATE_OK, plen, e, d')"
          "torrent_bytes env meta d' fls = put_bytes (torrent_bytes env meta d1 fls) 0 (drop (po + n) dat)"
          "\<forall>x. x \<notin> get_bittorrent_file_name env meta ` set fls \<longrightarrow> d' x = d1 x"
          "settled env meta d1 fls 0 \<longrightarrow> present env meta d' fls 0 (plen - (po + n))"
          by blast
        have same: "d' ?name = d1 ?name"
          using d'(3) name(5) by blast
        have "file_bytes env meta d' fl = put_bytes (file_bytes env meta d fl) r bs"
          using same fb by (simp add: file_bytes_def)
        moreover have "drop po dat = bs @ drop (po + n) dat"
          by (simp add: bs_def add.commute [of po] drop_drop [symmetric] del: drop_drop)
        moreover have "r + length bs = length (file_bytes env meta d fl)"
          using m(3) dl(2) by simp
        ultimately have out: "torrent_bytes env meta d' (fl # fls) = put_bytes (torrent_bytes env meta d (fl # fls)) r (drop po dat)"
          using d'(2) by (simp only: torrent_bytes_simps tb put_bytes_across)
        have pr: "settled env meta d (fl # fls) r \<longrightarrow> present env meta d' (fl # fls) r (plen - po)"
        proof
          assume "settled env meta d (fl # fls) r"
          then obtain c1 where "d' ?name = Some c1" "r + n \<le> length c1"
            using long same by auto
          then show "present env meta d' (fl # fls) r (plen - po)"
            using d'(4) by (intro present_Cons [OF _ name(1) small n_def]) (simp_all add: diff_diff_left)
        qed
        have "\<forall>x. x \<notin> get_bittorrent_file_name env meta ` set (fl # fls) \<longrightarrow> d' x = d x"
          using d'(3) by (auto simp: d1_def)
        then show ?thesis
          using d'(1) out pr unfolding loop by blast
      qed
    qed
  qed
qed


section \<open>Pieces and the disk\<close>

lemma read_translation:
  fixes start plen :: nat
  assumes "plain_files (bt_files meta)" "\<forall>fl\<in>set (bt_files meta). bf_selected fl \<or> pe_completed e"
    and "start = piece_length meta * piece" and "plen = get_bittorrent_piece_length meta piece"
  shows "if present env meta d (bt_files meta) start plen
    then bittorrent_file_piece_translation env meta e piece BITTORRENT_READ d =
      (BITTORRENT_STATE_OK, e\<lparr>pe_data := Some (take plen (drop start (torrent_bytes env meta d (bt_files meta))))\<rparr>, True, d)
    else fst (bittorrent_file_piece_translation env meta e piece BITTORRENT_READ d) \<noteq> BITTORRENT_STATE_OK"
proof -
  let ?e = "e\<lparr>pe_data := Some (replicate plen 0)\<rparr>"
  let ?loop = "translation_loop env meta BITTORRENT_READ plen (int (piece_length meta) * int piece) (bt_files meta) 0 0 None ?e d"
  have "\<forall>fl\<in>set (bt_files meta). bf_selected fl \<or> pe_completed ?e"
    using assms(2) by simp
  note rd = read_loop [OF assms(1) this, of "replicate plen 0" plen 0 start "int (piece_length meta) * int piece" 0 env meta d None]
  have neq: "(BITTORRENT_READ \<noteq> BITTORRENT_SEEK) = True"
    by simp
  have tr: "bittorrent_file_piece_translation env meta e piece BITTORRENT_READ d = (case ?loop of
      (True, st, po, e, d) \<Rightarrow> (st, e, False, d)
    | (False, st, po, e, d) \<Rightarrow>
        if st \<noteq> BITTORRENT_STATE_OK \<or> po \<noteq> plen
        then (if po \<noteq> plen then BITTORRENT_STATE_ERROR else st, e\<lparr>pe_data := None\<rparr>, False, d)
        else (BITTORRENT_STATE_OK, e, True, d))"
    unfolding bittorrent_file_piece_translation_def assms(4) [symmetric] Let_def neq by simp
  show ?thesis
  proof (cases "present env meta d (bt_files meta) start plen")
    case True
    then show ?thesis
      using rd by (simp add: tr assms(3))
  next
    case False
    obtain early st po e' d' where l: "?loop = (early, st, po, e', d')"
      by (metis prod_cases5)
    have "loop_fails plen ?loop"
      using rd False by (simp add: assms(3))
    then show ?thesis
      using False unfolding tr l by (cases early) auto
  qed
qed

lemma write_translation:
  fixes start :: nat
  assumes "plain_files (bt_files meta)" "\<forall>fl\<in>set (bt_files meta). bf_selected fl" "disk_works env meta d (bt_files meta)"
    "pe_data e = Some dat" "length dat = get_bittorrent_piece_length meta piece"
    and "start = piece_length meta * piece" and "start + length dat \<le> (\<Sum>fl\<leftarrow>bt_files meta. file_size fl)"
  shows "\<exists>d'. bittorrent_file_piece_translation env meta e piece BITTORRENT_WRITE d = (BITTORRENT_STATE_OK, e, True, d') \<and>
    torrent_bytes env meta d' (bt_files meta) = put_bytes (torrent_bytes env meta d (bt_files meta)) start dat \<and>
    (settled env meta d (bt_files meta) start \<longrightarrow> present env meta d' (bt_files meta) start (length dat))"
proof -
  have "\<exists>d'. translation_loop env meta BITTORRENT_WRITE (length dat) (int (piece_length meta) * int piece) (bt_files meta) 0 0 None e d =
      (False, BITTORRENT_STATE_OK, length dat, e, d') \<and>
    torrent_bytes env meta d' (bt_files meta) = put_bytes (torrent_bytes env meta d (bt_files meta)) start (drop 0 dat) \<and>
    (\<forall>x. x \<notin> get_bittorrent_file_name env meta ` set (bt_files meta) \<longrightarrow> d' x = d x) \<and>
    (settled env meta d (bt_files meta) start \<longrightarrow> present env meta d' (bt_files meta) start (length dat - 0))"
    using assms(7) by (intro write_loop [OF assms(1-4) refl]) (simp_all add: assms(6))
  then show ?thesis
    by (auto simp: bittorrent_file_piece_translation_def assms(5) [symmetric])
qed

lemma present_boundary:
  assumes "0 < n" "0 < file_size fl"
  shows "present env meta d (as @ fl # bs) ((\<Sum>a\<leftarrow>as. file_size a) + file_size fl) n \<Longrightarrow>
    \<exists>c. d (get_bittorrent_file_name env meta fl) = Some c \<and> file_size fl \<le> length c"
  using assms by (induction as) (auto split: option.splits if_splits)

text \<open>A torrent of two files with pieces of four bytes, and a disk where everything works.\<close>

definition two_files :: "int \<Rightarrow> int \<Rightarrow> bittorrent_meta" where
  "two_files m n = zero_meta\<lparr>bt_name := Some ''t'', bt_type := BITTORRENT_MULTI_FILE, piece_length := 4, last_piece_length := 4, bt_pieces := 2,
     bt_files := [zero_file\<lparr>bf_length := m, bf_selected := True, bf_name := ''a''\<rparr>, zero_file\<lparr>bf_length := n, bf_selected := True, bf_name := ''b''\<rparr>]\<rparr>"

definition working_disk :: disk_env where
  "working_disk = \<lparr>de_dir = ''d'', de_mkdir = (\<lambda>_. True), de_open = (\<lambda>_. True), de_creat = (\<lambda>_. True), de_write = (\<lambda>_ n. n)\<rparr>"

definition fresh_piece :: piece_entry where
  "fresh_piece = \<lparr>pe_rarity = 0, pe_completed = True, pe_remaining = False, pe_locked = False, pe_selected = True, pe_blocks = None, pe_data = None\<rparr>"

lemma two_files_simps [simp]:
  "piece_length (two_files m n) = 4" "get_bittorrent_piece_length (two_files m n) p = 4"
  "bt_files (two_files m n) = [zero_file\<lparr>bf_length := m, bf_selected := True, bf_name := ''a''\<rparr>, zero_file\<lparr>bf_length := n, bf_selected := True, bf_name := ''b''\<rparr>]"
  "get_bittorrent_file_name working_disk (two_files m n) fl = ''d/t/'' @ bf_name fl"
  by (simp_all add: two_files_def get_bittorrent_piece_length_def get_bittorrent_file_name_def working_disk_def)

lemma two_files_plain: "0 \<le> m \<Longrightarrow> 0 \<le> n \<Longrightarrow> plain_files (bt_files (two_files m n))"
  by (simp add: plain_files_def dir_sep_def)

lemma two_files_work: "disk_works working_disk (two_files m n) d (bt_files (two_files m n))"
  by (simp add: disk_works_def Let_def) (auto simp: working_disk_def create_bittorrent_path_def id_def list_all_iff)

text \<open>C23: Reading a piece gives exactly its bytes in the files put in a row, and puts the entry into the queue of disposable ones, if all files that the
  piece has a part in are there and long enough, and so is a file that ends just where the piece begins; otherwise it reports a failure.\<close>

theorem piece_read:
  assumes "plain_files (bt_files meta)" "\<forall>fl\<in>set (bt_files meta). bf_selected fl \<or> pe_completed e"
  shows "let start = piece_length meta * piece; plen = get_bittorrent_piece_length meta piece in
    if present env meta d (bt_files meta) start plen
    then bittorrent_file_piece_translation env meta e piece BITTORRENT_READ d =
      (BITTORRENT_STATE_OK, e\<lparr>pe_data := Some (take plen (drop start (torrent_bytes env meta d (bt_files meta))))\<rparr>, True, d)
    else fst (bittorrent_file_piece_translation env meta e piece BITTORRENT_READ d) \<noteq> BITTORRENT_STATE_OK"
  unfolding Let_def by (rule read_translation [OF assms refl refl])

theorem piece_read_witness:
  "bittorrent_file_piece_translation working_disk (two_files 3 5) fresh_piece 0 BITTORRENT_READ [''d/t/a'' \<mapsto> [1, 2, 3], ''d/t/b'' \<mapsto> [4]] =
    (BITTORRENT_STATE_OK, fresh_piece\<lparr>pe_data := Some [1, 2, 3, 4]\<rparr>, True, [''d/t/a'' \<mapsto> [1, 2, 3], ''d/t/b'' \<mapsto> [4]])"
proof -
  let ?d = "[''d/t/a'' \<mapsto> [1, 2, 3], ''d/t/b'' \<mapsto> [4]] :: disk"
  have "present working_disk (two_files 3 5) ?d (bt_files (two_files 3 5)) 0 4"
    by (simp add: working_disk_def [THEN arg_cong [where f = de_open]])
  moreover have "take 4 (torrent_bytes working_disk (two_files 3 5) ?d (bt_files (two_files 3 5))) = [1, 2, 3, 4]"
    by (simp add: file_bytes_def)
  ultimately show ?thesis
    using piece_read [OF two_files_plain, of 3 5 fresh_piece 0 working_disk ?d] by (simp add: Let_def fresh_piece_def del: two_files_simps(3))
qed



text \<open>C29: A piece that begins where a file ends cannot be read, even by the program that has just written it, as long as that file is not
  complete, although it has no byte of the piece: the comparison that skips files leaves this one in.\<close>

theorem boundary_unreadable:
  assumes "plain_files (bt_files meta)" "\<forall>fl\<in>set (bt_files meta). bf_selected fl \<or> pe_completed e" "bt_files meta = as @ fl # bs"
    and "piece_length meta * piece = (\<Sum>a\<leftarrow>as. file_size a) + file_size fl" "0 < file_size fl" "0 < get_bittorrent_piece_length meta piece"
    and "case d (get_bittorrent_file_name env meta fl) of None \<Rightarrow> True | Some c \<Rightarrow> length c < file_size fl"
  shows "fst (bittorrent_file_piece_translation env meta e piece BITTORRENT_READ d) \<noteq> BITTORRENT_STATE_OK"
proof -
  have "\<not> present env meta d (bt_files meta) (piece_length meta * piece) (get_bittorrent_piece_length meta piece)"
    using present_boundary [OF assms(6,5), of env meta d as bs] assms(7) unfolding assms(3,4) by (auto split: option.splits)
  then show ?thesis
    using read_translation [OF assms(1,2) refl refl, of env d] by simp
qed

theorem boundary_unreadable_witness:
  "fst (bittorrent_file_piece_translation working_disk (two_files 4 4) fresh_piece 1 BITTORRENT_READ [''d/t/a'' \<mapsto> [], ''d/t/b'' \<mapsto> [1, 2, 3, 4]])
    \<noteq> BITTORRENT_STATE_OK"
  using boundary_unreadable [OF two_files_plain, of 4 4 fresh_piece "[]"
      "zero_file\<lparr>bf_length := 4, bf_selected := True, bf_name := ''a''\<rparr>" "[zero_file\<lparr>bf_length := 4, bf_selected := True, bf_name := ''b''\<rparr>]" 1
      "[''d/t/a'' \<mapsto> [], ''d/t/b'' \<mapsto> [1, 2, 3, 4]]" working_disk]
  by simp

end
