(* ===== verification/Spec2Isabelle.thy ===== *)
theory Spec2Isabelle
  imports Timers Hashtab Dates Cache Base64 History ConnApi CookieJar Disk
begin

text \<open>
  \<^bold>\<open>A verification development for the elinks browser\<close> of this repository
  (\<^verbatim>\<open>src/elinks/src\<close>). The repository also holds \<^verbatim>\<open>w3m\<close>, \<^verbatim>\<open>ping\<close> and \<^verbatim>\<open>traceroute\<close>; they are
  not part of it.

  \<^bold>\<open>The program and the parts modelled.\<close> The browser turns what a user types into a URI, loads
  it through a connection into the document cache and moves through the history of
  its sessions. The development follows a request along that way:

  \<^item> \<open>Prelude\<close>: names for C integer types, reading of C strings, and the intrusive lists of
    \<^verbatim>\<open>util/lists.h\<close> as HOL lists.
  \<^item> \<open>Timeval\<close> (\<^verbatim>\<open>util/time.c\<close>) and \<open>Timers\<close> (\<^verbatim>\<open>main/timer.c\<close>): time arithmetic and the timer queue.
    The queue is a list of timers with the remaining intervals, sorted; \<^verbatim>\<open>check_timers\<close> runs
    callbacks that may install and kill timers. Locale \<open>timer_effect\<close>.
  \<^item> \<open>Hashtab\<close> (\<^verbatim>\<open>util/hash.c\<close>): buckets with move-to-front, and the string hash. A table is
    specified by the stack of items stored for each key. Locale \<open>keyed_stacks\<close>.
  \<^item> \<open>Dates\<close> (\<^verbatim>\<open>protocol/date.c\<close>): the HTTP date parser.
  \<^item> \<open>Conv\<close> (\<^verbatim>\<open>util/conv.c\<close>, parts of \<^verbatim>\<open>util/string.c\<close>): numbers to text, quoting, comparison without case.
  \<^item> \<open>Base64\<close> (\<^verbatim>\<open>util/base64.c\<close>): encoder and decoder with the sizes of their buffers.
  \<^item> \<open>Protocols\<close> (\<^verbatim>\<open>protocol/protocol.c\<close>): the protocol table and its search.
  \<^item> \<open>Uri\<close>, \<open>UriPath\<close>, \<open>UriJoin\<close> (\<^verbatim>\<open>protocol/uri.c\<close>): parsing, comparing and composing URIs; escaping and
    normalisation, with the loop that rewrites the path in place; translation of user input and
    resolution of references. A \<^verbatim>\<open>struct uri\<close> is the record \<open>uri\<close> of offsets into its string.
  \<^item> \<open>UriCache\<close> (\<^verbatim>\<open>protocol/uri.c\<close>, end): the interning of URIs by string in a hash table, with counted
    references, on top of \<open>Hashtab\<close>. Locale \<open>counted_refs\<close>.
  \<^item> \<open>Proxy\<close> (\<^verbatim>\<open>protocol/proxy.c\<close>): which proxy a URI is loaded through.
  \<^item> \<open>Fragments\<close> (\<^verbatim>\<open>cache/cache.c\<close>, \<^verbatim>\<open>enlarge_entry\<close> to \<^verbatim>\<open>normalize_cache_entry\<close>): the pieces of a downloaded
    document, their overlaps and their accounting. Locale \<open>byte_store\<close>.
  \<^item> \<open>Cache\<close> (the rest of \<^verbatim>\<open>cache/cache.c\<close>, \<^verbatim>\<open>shrink_memory\<close>): the list of cache entries with lookup,
    addition, validation, redirects, deletion and the four passes of the garbage collector, on top
    of \<open>Fragments\<close> for the contents and of \<open>UriCache\<close> and \<open>Proxy\<close> for the URIs the entries own.
  \<^item> \<open>History\<close> (\<^verbatim>\<open>session/history.c\<close>): the locations of a session and the current one.
  \<^item> \<open>Progress\<close> (\<^verbatim>\<open>network/progress.c\<close>): the speed of a transfer, with its window over the last seconds.
  \<^item> \<open>Connection\<close> (\<^verbatim>\<open>network/connection.c\<close>, with the states of \<^verbatim>\<open>network/state.h\<close>): the queue of connections, the counts of
    running ones, the connections to hosts and the idle server connections that are kept, as the record \<open>net\<close>,
    with every operation from \<^verbatim>\<open>load_uri\<close> to \<^verbatim>\<open>abort_all_connections\<close>, on top of \<open>Cache\<close> and \<open>Progress\<close>. What the module calls is
    collected in \<open>net_env\<close>: protocol handlers, download callbacks and the \<^verbatim>\<open>done\<close> functions of protocols are functions on the
    state, because they may call the module again. \<open>ConnInv\<close> holds its invariant and the laws its surroundings have to obey (\<open>env_ok\<close>),
    \<open>ConnSched\<close> the sort and the scheduler, \<open>ConnLive\<close> the measure that shows that the scheduler returns, \<open>ConnApi\<close>
    the module as a transition system (\<open>net_step\<close>).

  \<^item> \<open>Header\<close> (\<^verbatim>\<open>protocol/header.c\<close>): fields of HTTP headers and the parameters of their values.
  \<^item> \<open>Cookies\<close> (\<^verbatim>\<open>cookies/cookies.c\<close>, \<^verbatim>\<open>cookies/parser.c\<close>, what \<^verbatim>\<open>cookies/dialogs.c\<close> does to cookies): the record \<open>jar\<close>, with
    operations to set, accept, send, edit, delete, save and load cookies, on top of \<open>Header\<close>, \<open>UriJoin\<close> and \<open>Dates\<close>.
    \<open>CookieJar\<close> holds the counting of servers, what is sent to whom, and the file of cookies.
  \<^item> \<open>Scanner\<close> (\<^verbatim>\<open>util/scanner.h\<close>, \<^verbatim>\<open>scanner.c\<close>): the scanner with its table of tokens, and the stream of tokens it stands for.
  \<^item> \<open>Sha1\<close> (\<^verbatim>\<open>util/sha1.c\<close>): the SHA-1 digest with its context, and FIPS 180 as its specification; \<open>Sha1Eval\<close> evaluates
    the digests of concrete messages.
  \<^item> \<open>Bitfield\<close> (\<^verbatim>\<open>util/bitfield.h\<close>): bit fields as sets of bits.
  \<^item> \<open>Bencoding\<close> (\<^verbatim>\<open>protocol/bittorrent/bencoding.c\<close>): the scanner of bencoded text and the parser of .torrent files, with the records
    \<open>bittorrent_meta\<close> and \<open>bittorrent_file\<close>; trackers are URIs of \<open>UriCache\<close>, paths of files are normalised by \<open>UriPath\<close>, and the
    info hash is a digest of \<open>Sha1\<close>. \<open>Bentree\<close> relates it to bencoded values as trees.
  \<^item> \<open>Peers\<close> (\<^verbatim>\<open>protocol/bittorrent/common.c\<close>, the rest of \<^verbatim>\<open>bencoding.c\<close>): the records of a torrent's state, lists of requests, the pool
    of peers and the blacklist, and the parser of tracker responses.
  \<^item> \<open>Disk\<close> (\<^verbatim>\<open>protocol/bittorrent/piececache.c\<close>, \<^verbatim>\<open>create_bittorrent_path\<close> to \<^verbatim>\<open>bittorrent_file_piece_translation\<close>): pieces and the files
    they are spread over; the disk is a map from paths to bytes.

  \<^bold>\<open>Conventions.\<close> State is passed explicitly, as records with the fields of the C structures.
  Objects that are shared or compared by pointer carry their address. Where an allocation can fail
  or its address matters, the outcome is an argument; functions that only add to a \<^verbatim>\<open>struct string\<close> are modelled by
  the text they add, memory being available. Assertions are those of a normal build: they
  report and go on, and the recovery code behind \<^verbatim>\<open>if_assert_failed\<close> is modelled. A C string is the
  list of the bytes before its NUL. Signed integers are \<open>int\<close> with truncating division, cut to their
  width where the code depends on it (\<open>int32\<close>, the lengths of URI components, ports); unsigned
  ones are words or carry their modulus (hash values, \<^verbatim>\<open>cache_size\<close>, the sizes of the collector).
  Clock, options, environment, file system, home directories, the IDN library, user protocol programs,
  script hooks, protocol handlers and download callbacks are parameters.

  \<^bold>\<open>Termination and bounds.\<close> All loops are total functions with a measure, except those that call back:
  \<^verbatim>\<open>check_timers\<close>, whose callbacks could install due timers forever, and \<^verbatim>\<open>check_queue\<close> with the loops that abort connections, whose
  callbacks could queue new ones. They are \<open>partial_function\<close>s, with theorems that the first returns
  when callbacks install positive delays, as the code asserts, and the second when callbacks and handlers leave the queue to the scheduler (\<open>env_quiet\<close>). \<^verbatim>\<open>translate_url\<close> recurses into the URI behind a
  proxy URI with fuel of one unit for each character, which is more than the nesting can be deep; its loop is
  bounded by the 32 attempts of the code itself, as redirects are by \<^verbatim>\<open>MAX_REDIRECTS\<close>.

  \<^bold>\<open>What the theorems show.\<close>

  \<^item> URIs: composing and parsing are inverse, all offsets stay in the string, the in-place
    normalisation computes a reference function whose results have no doubled separators, no elevators before a separator or at the end, and are stable,
    references resolve as specified, canonical input is left alone, escaping is
    invertible, comparison is an equivalence on the wanted components.
  \<^item> The document cache: the collector keeps used entries, consistency and other holders' URI references and
    bounds the unused ones; an entry that was returned is found again; stored data is read back and accounted
    for.
  \<^item> The connection queue: its consistency, the limits and the counts in every state that the steps of \<open>net_step\<close> reach, provided that handlers and
    callbacks keep the invariant themselves (\<open>env_ok\<close>); the scheduler returns with nothing left to do, and retries end, when in addition callbacks
    load no URIs and handlers only start or finish their own connection (\<open>env_quiet\<close>); its
    bubble sort is a stable sort. The \<^verbatim>\<open>done\<close> functions of idle connections (NNTP) are in the model but not in the
    invariant or the steps: closing such a connection runs it without regard to the limits.
  \<^item> Interned URIs: one object for each string with exact reference counts; a URI is
    recovered from its proxy form.
  \<^item> History: the list with its pointer implements a zipper, and moving by \<open>n\<close> finds its target.
  \<^item> Timers: the check returns, fires exactly the due timers, and the queue stays sorted.
  \<^item> Hash tables: the unrolled hash, lookup after insertion and deletion.
  \<^item> Cookies: exactly which cookies are sent, the counting of servers, the domains a reply can set cookies for and that only the ends of names
    are compared, and the file that is loaded as it was saved.
  \<^item> Torrents: the table of tokens is a stream, the parser that skips through tokens reads the tree of any bencoded value, a torrent
    is read back exactly with the digest of FIPS 180, paths of files keep no directory elevators unless a question mark hides them,
    a piece written to the files is read back unless a file that ends where it begins is incomplete, a tracker's response is read back and never puts a peer into the pool twice.
  \<^item> Text: Base64 round trip and the one-byte overflow of its decoder, dates that parse
    correctly and the forms that do not, numbers, quoting and squeezing, protocol names.

  \<^bold>\<open>Not modelled.\<close> Code that is almost only system calls, terminal output or calls of
  libraries (sockets, DNS, TLS, dialogs, terminals, scripting, compression); the HTML and DOM code;
  the protocols' dialogues; configuration files; of the connection module the entry of its timeout into the socket layer and TLS.
  Of BitTorrent the distribution of requests in the piece cache, the messages between peers and the scheduling of connections, which rests on measured floating point rates;
  of the digests MD5; of the character sets the generated tables and the UTF-8 routines. The random peer identifier is not modelled either.
\<close>

end
